(* ===== verification/Prelude.thy ===== *)
theory Prelude
  imports Main "HOL-Library.Word" "HOL-Library.List_Lexorder" "HOL-Library.Monad_Syntax"
begin

text \<open>
  Shared vocabulary of the development: the machine types of the C sources (the kernel
  module and the daemons are built for a little-endian Linux host), the byte comparison
  of the C library, C's truncating division, and the small facts on lists and options
  that the component theories share.  Three collections are declared here:
  \<open>option_simps\<close> (unfolding a do-block of the option monad), \<open>wf_intros\<close> (rules that
  build a well-formedness invariant) and \<open>inorder_simps\<close> (rules that flatten a tree).
\<close>

named_theorems option_simps
named_theorems wf_intros
named_theorems inorder_simps

section \<open>Machine types\<close>

type_synonym u8 = "8 word"
type_synonym u16 = "16 word"
type_synonym u32 = "32 word"
type_synonym u64 = "64 word"

text \<open>\<open>unsigned long\<close> of the i386 hosts the READMEs name.\<close>

type_synonym ulong = "32 word"

section \<open>Byte strings\<close>

text \<open>
  \<open>memcmp\<close> of the C library on two byte strings: the sign of the first difference, read
  as unsigned bytes.  The sources only compare objects of one size; a proper prefix is
  ordered first, so that the function is total.
\<close>

fun memcmp :: "u8 list \<Rightarrow> u8 list \<Rightarrow> int" where
  "memcmp [] [] = 0"
| "memcmp [] (y # ys) = -1"
| "memcmp (x # xs) [] = 1"
| "memcmp (x # xs) (y # ys) =
     (if x < y then -1 else if y < x then 1 else memcmp xs ys)"

lemma memcmp_less [simp]: "memcmp a b < 0 \<longleftrightarrow> a < b"
  by (induction a b rule: memcmp.induct) auto

lemma memcmp_greater [simp]: "0 < memcmp a b \<longleftrightarrow> b < a"
  by (induction a b rule: memcmp.induct) auto

lemma memcmp_zero [simp]: "memcmp a b = 0 \<longleftrightarrow> a = b"
  by (induction a b rule: memcmp.induct) auto

section \<open>C arithmetic\<close>

text \<open>Division of signed integers, truncating towards zero.\<close>

definition c_div :: "int \<Rightarrow> int \<Rightarrow> int" where
  "c_div a b = sgn a * sgn b * (\<bar>a\<bar> div \<bar>b\<bar>)"

section \<open>Lists and options\<close>

lemma bind_Some_iff [option_simps]:
  "Option.bind x f = Some z \<longleftrightarrow> (\<exists>y. x = Some y \<and> f y = Some z)"
  by (cases x) auto

lemma map_eqI:
  assumes "\<And>a x. f a = Some x \<longleftrightarrow> g a = Some x" shows "f = g"
proof
  fix a show "f a = g a" by (metis assms not_None_eq)
qed

lemma map_of_append_notin:
  "k \<notin> fst ` set xs \<Longrightarrow> map_of (xs @ ys) k = map_of ys k"
  by (induction xs) auto

lemma map_of_append_notin2:
  "k \<notin> fst ` set ys \<Longrightarrow> map_of (xs @ ys) k = map_of xs k"
  by (induction xs) (auto simp: map_of_eq_None_iff [THEN iffD2])

lemma map_of_cong:
  assumes "distinct (map fst xs)" "distinct (map fst ys)"
    and "\<And>r. (k, r) \<in> set xs \<longleftrightarrow> (k, r) \<in> set ys"
  shows "map_of xs k = map_of ys k"
proof (cases "map_of ys k")
  case None
  then have "(k, r) \<notin> set ys" for r by (metis map_of_eq_None_iff image_eqI fst_conv)
  then have "k \<notin> fst ` set xs" using assms(3) by auto
  with None show ?thesis by (metis map_of_eq_None_iff)
next
  case (Some r)
  then have "(k, r) \<in> set xs" using assms(3) map_of_SomeD by fast
  with Some assms(1) show ?thesis by simp
qed

section \<open>Little-endian images of integers\<close>

definition le16 :: "u16 \<Rightarrow> u8 list" where
  "le16 x = [ucast x, ucast (drop_bit 8 x)]"

definition le32 :: "u32 \<Rightarrow> u8 list" where
  "le32 x = [ucast x, ucast (drop_bit 8 x), ucast (drop_bit 16 x), ucast (drop_bit 24 x)]"

lemma length_le [simp]: "length (le16 x) = 2" "length (le32 y) = 4"
  by (simp_all add: le16_def le32_def)

lemma byte_bit:
  assumes "(ucast (drop_bit k x) :: u8) = ucast (drop_bit k y)" and "k \<le> n" "n < k + 8"
  shows "bit (x :: 'a::len word) n \<longleftrightarrow> bit y n"
proof -
  have "bit (ucast (drop_bit k x) :: u8) (n - k) = bit (ucast (drop_bit k y) :: u8) (n - k)"
    using assms(1) by simp
  moreover have "n - k < 8" using assms(2,3) by simp
  ultimately show ?thesis using assms(2) by (simp add: bit_ucast_iff bit_drop_bit_eq)
qed

lemma le16_inj [simp]: "le16 x = le16 y \<longleftrightarrow> x = y"
proof
  assume "le16 x = le16 y"
  then have b: "(ucast (drop_bit 0 x) :: u8) = ucast (drop_bit 0 y)"
    "(ucast (drop_bit 8 x) :: u8) = ucast (drop_bit 8 y)"
    by (simp_all add: le16_def)
  show "x = y"
  proof (rule bit_word_eqI)
    fix n assume "n < LENGTH(16)"
    then have "n < 8 \<or> 8 \<le> n \<and> n < 16" by auto
    then show "bit x n = bit y n" using byte_bit [OF b(1)] byte_bit [OF b(2)] by auto
  qed
qed simp

lemma le32_inj [simp]: "le32 x = le32 y \<longleftrightarrow> x = y"
proof
  assume "le32 x = le32 y"
  then have b: "(ucast (drop_bit 0 x) :: u8) = ucast (drop_bit 0 y)"
    "(ucast (drop_bit 8 x) :: u8) = ucast (drop_bit 8 y)"
    "(ucast (drop_bit 16 x) :: u8) = ucast (drop_bit 16 y)"
    "(ucast (drop_bit 24 x) :: u8) = ucast (drop_bit 24 y)"
    by (simp_all add: le32_def)
  show "x = y"
  proof (rule bit_word_eqI)
    fix n assume "n < LENGTH(32)"
    then have "n < 8 \<or> 8 \<le> n \<and> n < 16 \<or> 16 \<le> n \<and> n < 24 \<or> 24 \<le> n \<and> n < 32" by auto
    then show "bit x n = bit y n"
      using byte_bit [OF b(1)] byte_bit [OF b(2)] byte_bit [OF b(3)] byte_bit [OF b(4)] by auto
  qed
qed simp

end
