(* ===== verification/DbKeyHash.thy ===== *)
theory DbKeyHash
  imports Prelude
begin

text \<open>
  The hash table with two keys per object (\<open>TI/openwrt_cpe/src/dbkeyhash.c\<close>).  An object hangs in
  two buckets, by one node in each; the nodes point to each other, so that removing one removes both.  The
  functions the table is created with (comparison, ageing, disposal) are arguments here; they read and
  change the state \<open>'s\<close> of the program the table belongs to.  A bucket is the list behind its head
  node.  Addresses of nodes come from a counter: an allocation returns an address that is not in use.
\<close>

section \<open>Data\<close>

record nodelink =
  nl_addr :: nat
  othernode :: "nat option"
  otherindex :: nat
  pdata :: nat

record dbtable =
  Bucket :: "nodelink list list"
  next_node :: nat

definition DBKeyHashTableCreate :: "bool \<Rightarrow> bool \<Rightarrow> nat \<Rightarrow> dbtable option" where
  "DBKeyHashTableCreate ctx_ok bucket_ok BucketCnt =
     (if ctx_ok \<and> bucket_ok then Some \<lparr>Bucket = replicate BucketCnt [], next_node = 0\<rparr> else None)"

section \<open>Insertion and search\<close>

text \<open>The new node has address \<open>a\<close>.\<close>

definition single_link_head_insert :: "bool \<Rightarrow> nat \<Rightarrow> nodelink list \<Rightarrow> nat \<Rightarrow> nodelink list option" where
  "single_link_head_insert mem_ok a head d =
     (if mem_ok then Some (\<lparr>nl_addr = a, othernode = None, otherindex = 0, pdata = d\<rparr> # head) else None)"

text \<open>Assigning the link fields of the node at address \<open>a\<close>.\<close>

definition set_links :: "nat \<Rightarrow> nat \<Rightarrow> nat \<Rightarrow> nodelink list \<Rightarrow> nodelink list" where
  "set_links a other index ns =
     map (\<lambda>n. if nl_addr n = a then n\<lparr>othernode := Some other, otherindex := index\<rparr> else n) ns"

definition DBKeyHashTableInsert ::
  "('k \<Rightarrow> nat) \<Rightarrow> bool \<Rightarrow> bool \<Rightarrow> dbtable \<Rightarrow> 'k \<Rightarrow> 'k \<Rightarrow> nat \<Rightarrow> dbtable \<times> int" where
  "DBKeyHashTableInsert hf node1_ok node2_ok T Key1 Key2 d =
     (let bs = Bucket T; a1 = next_node T; a2 = a1 + 1;
          lkey1 = hf Key1 mod length bs;
          lkey2 = hf Key2 mod length bs
      in case single_link_head_insert node1_ok a1 (bs ! lkey1) d of
           None \<Rightarrow> (T, -1)
         | Some b1 \<Rightarrow>
             (let bs = bs[lkey1 := b1]
              in case single_link_head_insert node2_ok a2 (bs ! lkey2) d of
                   None \<Rightarrow> (T\<lparr>Bucket := bs, next_node := a2\<rparr>, -1)
                 | Some b2 \<Rightarrow>
                     (let bs = bs[lkey2 := b2];
                          bs = bs[lkey1 := set_links a1 a2 lkey2 (bs ! lkey1)];
                          bs = bs[lkey2 := set_links a2 a1 lkey1 (bs ! lkey2)]
                      in (T\<lparr>Bucket := bs, next_node := a2 + 1\<rparr>, 1))))"

fun single_link_find ::
  "('k \<Rightarrow> nat \<Rightarrow> nat \<Rightarrow> 's \<Rightarrow> int option) \<Rightarrow> 'k \<Rightarrow> nat \<Rightarrow> 's \<Rightarrow> nodelink list \<Rightarrow> nodelink option option" where
  "single_link_find dc key type s [] = Some None"
| "single_link_find dc key type s (p # ps) =
     do { r \<leftarrow> dc key (pdata p) type s;
          if r = 1 then Some (Some p) else single_link_find dc key type s ps }"

definition DBKeyHashTableFind ::
  "('k \<Rightarrow> nat) \<Rightarrow> ('k \<Rightarrow> nat \<Rightarrow> nat \<Rightarrow> 's \<Rightarrow> int option) \<Rightarrow> dbtable \<Rightarrow> 'k \<Rightarrow> nat \<Rightarrow> 's \<Rightarrow> nat option option" where
  "DBKeyHashTableFind hf dc T key type s =
     do { r \<leftarrow> single_link_find dc key type s (Bucket T ! (hf key mod length (Bucket T)));
          Some (map_option pdata r) }"

section \<open>Removal\<close>

text \<open>Taking the node at an address out of its list.\<close>

definition unlink :: "nat \<Rightarrow> nodelink list \<Rightarrow> nodelink list" where
  "unlink a ns = filter (\<lambda>n. nl_addr n \<noteq> a) ns"

text \<open>
  The search for the partner of a node that has just been taken out: the partner is taken out
  too, and the object is disposed of, only when the partner is found.
\<close>

definition release_partner ::
  "(nat \<Rightarrow> 's \<Rightarrow> 's option) \<Rightarrow> nodelink \<Rightarrow> nodelink list list \<Rightarrow> 's \<Rightarrow> (nodelink list list \<times> 's) option" where
  "release_partner del p bs s =
     (case othernode p of
        None \<Rightarrow> Some (bs, s)
      | Some a \<Rightarrow>
          (if otherindex p < length bs
           then if a \<in> nl_addr ` set (bs ! otherindex p)
                then do { s \<leftarrow> del (pdata p) s;
                          Some (bs[otherindex p := unlink a (bs ! otherindex p)], s) }
                else Some (bs, s)
           else None))"

text \<open>
  When the partner is the node before \<open>p\<close> in the same bucket, both deletions still read the \<open>next\<close> field of that node
  after it was freed.  Nothing uses the value: the one stops, the other starts again from the head.  The two reads are
  left out of the model; every read of freed memory whose value is used yields \<open>None\<close>.
\<close>

definition single_link_node_delete ::
  "('k \<Rightarrow> nat \<Rightarrow> nat \<Rightarrow> 's \<Rightarrow> int option) \<Rightarrow> (nat \<Rightarrow> 's \<Rightarrow> 's option) \<Rightarrow> nat \<Rightarrow> 'k \<Rightarrow> nat \<Rightarrow>
     nodelink list list \<Rightarrow> 's \<Rightarrow> (nodelink list list \<times> 's) option" where
  "single_link_node_delete dc del i key type bs s =
     do { r \<leftarrow> single_link_find dc key type s (bs ! i);
          (case r of
             None \<Rightarrow> Some (bs, s)
           | Some p \<Rightarrow> release_partner del p (bs[i := unlink (nl_addr p) (bs ! i)]) s) }"

definition DBKeyHashTableDelete ::
  "('k \<Rightarrow> nat) \<Rightarrow> ('k \<Rightarrow> nat \<Rightarrow> nat \<Rightarrow> 's \<Rightarrow> int option) \<Rightarrow> (nat \<Rightarrow> 's \<Rightarrow> 's option) \<Rightarrow>
     dbtable \<Rightarrow> 'k \<Rightarrow> nat \<Rightarrow> 's \<Rightarrow> (dbtable \<times> 's) option" where
  "DBKeyHashTableDelete hf dc del T key type s =
     do { (bs, s) \<leftarrow> single_link_node_delete dc del (hf key mod length (Bucket T)) key type (Bucket T) s;
          Some (T\<lparr>Bucket := bs\<rparr>, s) }"

lemma release_partner_shrinks:
  assumes "release_partner del p bs s = Some (bs', s')"
  shows "length bs' = length bs" "length (bs' ! i) \<le> length (bs ! i)"
  using assms length_filter_le
  by (auto simp: release_partner_def unlink_def option_simps nth_list_update split: option.splits if_splits)

text \<open>
  The sweep of bucket \<open>i\<close> from position \<open>j\<close>.  \<open>oi\<close> is the local \<open>otherindex\<close>, which keeps its last
  value (0 at first) when a node has no partner; when it names the bucket swept the sweep starts again.
\<close>

function single_link_loop_delete ::
  "(nat \<Rightarrow> 's \<Rightarrow> ('s \<times> int) option) \<Rightarrow> (nat \<Rightarrow> 's \<Rightarrow> 's option) \<Rightarrow> nat \<Rightarrow> nat \<Rightarrow> nat \<Rightarrow>
     nodelink list list \<Rightarrow> 's \<Rightarrow> (nodelink list list \<times> 's) option" where
  "single_link_loop_delete proc del i j oi bs s =
     (if i < length bs \<and> j < length (bs ! i)
      then (let p = bs ! i ! j in
            case proc (pdata p) s of
              None \<Rightarrow> None
            | Some (s, r) \<Rightarrow>
                (if r < 0
                 then (let oi = (if othernode p = None then oi else otherindex p) in
                       case release_partner del p (bs[i := take j (bs ! i) @ drop (Suc j) (bs ! i)]) s of
                         None \<Rightarrow> None
                       | Some (bs, s) \<Rightarrow> single_link_loop_delete proc del i (if oi = i then 0 else j) oi bs s)
                 else single_link_loop_delete proc del i (Suc j) oi bs s))
      else Some (bs, s))"
  by pat_completeness auto

termination
proof (relation "measures [\<lambda>(proc, del, i, j, oi, bs, s). length (bs ! i), \<lambda>(proc, del, i, j, oi, bs, s). length (bs ! i) - j]",
    goal_cases)
  case (2 proc del i j oi bs s p r s1 v oi' r' bs' s')
  then have "length (bs' ! i) \<le> length (take j (bs ! i) @ drop (Suc j) (bs ! i))"
    using release_partner_shrinks(2) [of del p _ s1 bs' s' i] by fastforce
  then have "length (bs' ! i) < length (bs ! i)" using 2(1) by (cases "length (bs ! i)") auto
  then show ?case by simp
qed auto

declare single_link_loop_delete.simps [simp del]

definition DBKeyHashTableLoopDelete ::
  "(nat \<Rightarrow> 's \<Rightarrow> ('s \<times> int) option) \<Rightarrow> (nat \<Rightarrow> 's \<Rightarrow> 's option) \<Rightarrow> dbtable \<Rightarrow> nat \<Rightarrow> 's \<Rightarrow> (dbtable \<times> 's) option" where
  "DBKeyHashTableLoopDelete proc del T i s =
     do { (bs, s) \<leftarrow> single_link_loop_delete proc del i 0 0 (Bucket T) s;
          Some (T\<lparr>Bucket := bs\<rparr>, s) }"

text \<open>The sweep of all buckets, from bucket \<open>i\<close> on; \<open>n\<close> buckets are left.\<close>

primrec sweep_from ::
  "(nat \<Rightarrow> 's \<Rightarrow> ('s \<times> int) option) \<Rightarrow> (nat \<Rightarrow> 's \<Rightarrow> 's option) \<Rightarrow> nat \<Rightarrow> dbtable \<Rightarrow> nat \<Rightarrow> 's \<Rightarrow> (dbtable \<times> 's) option" where
  "sweep_from proc del 0 T i s = Some (T, s)"
| "sweep_from proc del (Suc n) T i s =
     do { (T, s) \<leftarrow> DBKeyHashTableLoopDelete proc del T i s;
          sweep_from proc del n T (Suc i) s }"

text \<open>Destruction sweeps every bucket; the table itself is released.\<close>

definition DBKeyHashTableDestory ::
  "(nat \<Rightarrow> 's \<Rightarrow> ('s \<times> int) option) \<Rightarrow> (nat \<Rightarrow> 's \<Rightarrow> 's option) \<Rightarrow> dbtable \<Rightarrow> 's \<Rightarrow> 's option" where
  "DBKeyHashTableDestory proc del T s =
     do { (T, s) \<leftarrow> sweep_from proc del (length (Bucket T)) T 0 s; Some s }"

section \<open>Well-formed tables\<close>

text \<open>
  The objects in the table are those of the set \<open>D\<close>; object \<open>d\<close> hangs in the buckets \<open>h1 d\<close> and
  \<open>h2 d\<close>, by nodes at the addresses \<open>A1 d\<close> and \<open>A2 d\<close>.
\<close>

definition node1 :: "(nat \<Rightarrow> nat) \<Rightarrow> (nat \<Rightarrow> nat) \<Rightarrow> (nat \<Rightarrow> nat) \<Rightarrow> nat \<Rightarrow> nodelink" where
  "node1 A1 A2 h2 d = \<lparr>nl_addr = A1 d, othernode = Some (A2 d), otherindex = h2 d, pdata = d\<rparr>"

text \<open>The second node is the first one of the table with the roles exchanged.\<close>

definition links_ok ::
  "(nat \<Rightarrow> nat) \<Rightarrow> (nat \<Rightarrow> nat) \<Rightarrow> (nat \<Rightarrow> nat) \<Rightarrow> (nat \<Rightarrow> nat) \<Rightarrow> nat set \<Rightarrow> nodelink list list \<Rightarrow> bool" where
  "links_ok A1 A2 h1 h2 D bs \<longleftrightarrow>
     inj_on A1 D \<and> inj_on A2 D \<and> A1 ` D \<inter> A2 ` D = {} \<and> (\<forall>d \<in> D. h1 d < length bs \<and> h2 d < length bs)
     \<and> (\<forall>b \<in> set bs. distinct (map nl_addr b))
     \<and> (\<forall>i < length bs. set (bs ! i) = node1 A1 A2 h2 ` {d \<in> D. h1 d = i} \<union> node1 A2 A1 h1 ` {d \<in> D. h2 d = i})"

definition table_ok :: "(nat \<Rightarrow> nat) \<Rightarrow> (nat \<Rightarrow> nat) \<Rightarrow> nat set \<Rightarrow> dbtable \<Rightarrow> bool" where
  "table_ok h1 h2 D T \<longleftrightarrow>
     Bucket T \<noteq> [] \<and> (\<exists>A1 A2. links_ok A1 A2 h1 h2 D (Bucket T) \<and> (\<forall>d \<in> D. A1 d < next_node T \<and> A2 d < next_node T))"

lemma links_swap: "links_ok A1 A2 h1 h2 D bs \<longleftrightarrow> links_ok A2 A1 h2 h1 D bs"
  by (auto simp: links_ok_def)

lemma node_sel [simp]: "nl_addr (node1 A1 A2 h2 d) = A1 d" "othernode (node1 A1 A2 h2 d) = Some (A2 d)"
  "otherindex (node1 A1 A2 h2 d) = h2 d" "pdata (node1 A1 A2 h2 d) = d"
  by (simp_all add: node1_def)

lemma links_nodes:
  "links_ok A1 A2 h1 h2 D bs \<Longrightarrow> i < length bs \<Longrightarrow>
     set (bs ! i) = node1 A1 A2 h2 ` {d \<in> D. h1 d = i} \<union> node1 A2 A1 h1 ` {d \<in> D. h2 d = i}"
  by (simp add: links_ok_def)

lemma links_node:
  assumes "links_ok A1 A2 h1 h2 D bs" "i < length bs" "n \<in> set (bs ! i)"
  obtains d where "d \<in> D" "n = node1 A1 A2 h2 d" "h1 d = i" | d where "d \<in> D" "n = node1 A2 A1 h1 d" "h2 d = i"
  using assms by (auto simp: links_nodes)

lemma links_address:
  assumes "links_ok A1 A2 h1 h2 D bs" "d \<in> D" "d' \<in> D"
  shows "A1 d = A1 d' \<longleftrightarrow> d = d'" "A2 d = A2 d' \<longleftrightarrow> d = d'" "A1 d \<noteq> A2 d'" "A2 d \<noteq> A1 d'"
  using assms by (auto simp: links_ok_def inj_on_eq_iff)

text \<open>Taking an object out of every bucket.\<close>

definition detach :: "nat \<Rightarrow> nodelink list list \<Rightarrow> nodelink list list" where
  "detach d bs = map (filter (\<lambda>n. pdata n \<noteq> d)) bs"

lemma length_detach [simp]: "length (detach d bs) = length bs"
  by (simp add: detach_def)

lemma links_detach:
  assumes "links_ok A1 A2 h1 h2 D bs" shows "links_ok A1 A2 h1 h2 (D - {d}) (detach d bs)"
proof -
  have "distinct (map nl_addr (filter P b))" if "b \<in> set bs" for b P
    using assms that by (auto simp: links_ok_def intro: distinct_map_filter)
  moreover have "set (detach d bs ! i) = node1 A1 A2 h2 ` {d' \<in> D - {d}. h1 d' = i} \<union> node1 A2 A1 h1 ` {d' \<in> D - {d}. h2 d' = i}"
    if "i < length bs" for i
  proof -
    have "set (detach d bs ! i) = {n \<in> set (bs ! i). pdata n \<noteq> d}" using that by (auto simp: detach_def)
    also have "\<dots> = node1 A1 A2 h2 ` {d' \<in> D - {d}. h1 d' = i} \<union> node1 A2 A1 h1 ` {d' \<in> D - {d}. h2 d' = i}"
      unfolding links_nodes [OF assms that] by auto
    finally show ?thesis .
  qed
  moreover have "inj_on A1 (D - {d})" "inj_on A2 (D - {d})" "A1 ` (D - {d}) \<inter> A2 ` (D - {d}) = {}"
    using assms by (auto simp: links_ok_def inj_on_diff)
  ultimately show ?thesis using assms by (auto simp: links_ok_def detach_def)
qed

text \<open>
  Unlinking a node of the table and then its partner takes the object out of every bucket: whichever of
  the two nodes is met first, and also when both hang in one bucket.
\<close>

lemma filter_same: "(\<And>n. n \<in> set b \<Longrightarrow> P n \<longleftrightarrow> Q n) \<Longrightarrow> filter P b = filter Q b"
  by (rule filter_cong) auto

lemma unlink_both:
  assumes "links_ok A1 A2 h1 h2 D bs" "d \<in> D"
  shows "(let bs' = bs[h1 d := unlink (A1 d) (bs ! h1 d)] in bs'[h2 d := unlink (A2 d) (bs' ! h2 d)]) = detach d bs"
proof (rule nth_equalityI)
  have b: "h1 d < length bs" "h2 d < length bs" using assms by (auto simp: links_ok_def)
  let ?bs = "bs[h1 d := unlink (A1 d) (bs ! h1 d)]"
  fix i
  assume "i < length (let bs' = ?bs in bs'[h2 d := unlink (A2 d) (bs' ! h2 d)])"
  then have i: "i < length bs" by (simp add: Let_def)
  have eq: "(let bs' = ?bs in bs'[h2 d := unlink (A2 d) (bs' ! h2 d)]) ! i =
      filter (\<lambda>n. (i = h1 d \<longrightarrow> nl_addr n \<noteq> A1 d) \<and> (i = h2 d \<longrightarrow> nl_addr n \<noteq> A2 d)) (bs ! i)"
    using b i by (auto simp: Let_def unlink_def nth_list_update intro!: filter_same)
  have m: "(i = h1 d \<longrightarrow> nl_addr n \<noteq> A1 d) \<and> (i = h2 d \<longrightarrow> nl_addr n \<noteq> A2 d) \<longleftrightarrow> pdata n \<noteq> d" if n: "n \<in> set (bs ! i)" for n
  proof (rule links_node [OF assms(1) i n])
    fix d' assume d': "d' \<in> D" "n = node1 A1 A2 h2 d'" "h1 d' = i"
    then show ?thesis using links_address(1,3) [OF assms(1) d'(1) assms(2)] by auto
  next
    fix d' assume d': "d' \<in> D" "n = node1 A2 A1 h1 d'" "h2 d' = i"
    then show ?thesis using links_address(2,4) [OF assms(1) d'(1) assms(2)] by auto
  qed
  have "detach d bs ! i = filter (\<lambda>n. pdata n \<noteq> d) (bs ! i)" using i by (simp add: detach_def)
  then show "(let bs' = ?bs in bs'[h2 d := unlink (A2 d) (bs' ! h2 d)]) ! i = detach d bs ! i"
    unfolding eq by (simp only:) (rule filter_same, erule m)
qed (simp add: Let_def)

lemma release_partner_other:
  "release_partner del p bs s = Some (bs', s') \<Longrightarrow> i \<noteq> otherindex p \<Longrightarrow> bs' ! i = bs ! i"
  by (auto simp: release_partner_def option_simps split: option.splits if_splits)

lemma unlink_partner:
  assumes "links_ok A1 A2 h1 h2 D bs" "i < length bs" "p \<in> set (bs ! i)" "del (pdata p) s = Some s'"
  shows "release_partner del p (bs[i := unlink (nl_addr p) (bs ! i)]) s = Some (detach (pdata p) bs, s')"
    "othernode p \<noteq> None" "otherindex p < length bs"
proof -
  have main: "release_partner del p (bs[i := unlink (nl_addr p) (bs ! i)]) s = Some (detach (pdata p) bs, s')
      \<and> othernode p \<noteq> None \<and> otherindex p < length bs"
    if l: "links_ok A1 A2 h1 h2 D bs" and d: "d \<in> D" "p = node1 A1 A2 h2 d" "h1 d = i" for A1 A2 h1 h2 d
  proof -
    have b: "h2 d < length bs" using l d(1) by (auto simp: links_ok_def)
    have "node1 A2 A1 h1 d \<in> set (bs ! h2 d)" using links_nodes [OF l b] d(1) by auto
    moreover have "A2 d \<noteq> A1 d" using links_address(4) [OF l d(1) d(1)] .
    ultimately have "node1 A2 A1 h1 d \<in> set (bs[i := unlink (A1 d) (bs ! i)] ! h2 d)"
      using b assms(2) by (auto simp: unlink_def nth_list_update)
    then have "A2 d \<in> nl_addr ` set (bs[i := unlink (A1 d) (bs ! i)] ! h2 d)"
      by (metis imageI node_sel(1))
    then show ?thesis
      using unlink_both [OF l d(1)] assms(4) b d(2,3) by (simp add: release_partner_def Let_def)
  qed
  show "release_partner del p (bs[i := unlink (nl_addr p) (bs ! i)]) s = Some (detach (pdata p) bs, s')"
    "othernode p \<noteq> None" "otherindex p < length bs"
    using links_node [OF assms(1-3)] main [OF assms(1)] main [OF assms(1) [unfolded links_swap [of A1]]] by metis+
qed

text \<open>The node at a position and the node at its address are the same.\<close>

lemma remove_position:
  assumes "distinct (map nl_addr b)" "j < length b"
  shows "take j b @ drop (Suc j) b = unlink (nl_addr (b ! j)) b"
proof -
  have b: "b = take j b @ b ! j # drop (Suc j) b" using assms(2) by (rule id_take_nth_drop)
  have "distinct (map nl_addr (take j b @ b ! j # drop (Suc j) b))" using assms(1) b by simp
  then have n: "nl_addr n \<noteq> nl_addr (b ! j)" if "n \<in> set (take j b) \<union> set (drop (Suc j) b)" for n
    using that by (auto simp: image_iff)
  have "unlink (nl_addr (b ! j)) b = unlink (nl_addr (b ! j)) (take j b @ b ! j # drop (Suc j) b)" using b by simp
  also have "\<dots> = filter (\<lambda>n. nl_addr n \<noteq> nl_addr (b ! j)) (take j b) @ filter (\<lambda>n. nl_addr n \<noteq> nl_addr (b ! j)) (drop (Suc j) b)"
    by (simp add: unlink_def)
  also have "\<dots> = take j b @ drop (Suc j) b" using n by (simp add: filter_id_conv)
  finally show ?thesis by simp
qed

lemma single_link_find_eq:
  "(\<And>p. p \<in> set ns \<Longrightarrow> dc key (pdata p) type s = Some (r (pdata p))) \<Longrightarrow>
     single_link_find dc key type s ns = Some (find (\<lambda>p. r (pdata p) = 1) ns)"
  by (induction ns) auto

lemma table_okE:
  assumes "table_ok h1 h2 D T"
  obtains A1 A2 where "links_ok A1 A2 h1 h2 D (Bucket T)" "\<forall>d \<in> D. A1 d < next_node T \<and> A2 d < next_node T" "Bucket T \<noteq> []"
  using assms by (auto simp: table_ok_def)

lemma table_ok_cong:
  assumes "table_ok h1 h2 D T" "\<And>d. d \<in> D \<Longrightarrow> h1' d = h1 d \<and> h2' d = h2 d"
  shows "table_ok h1' h2' D T"
proof -
  have n: "node1 A1 A2 h2' ` {d \<in> D. h1' d = i} = node1 A1 A2 h2 ` {d \<in> D. h1 d = i}"
    "node1 A2 A1 h1' ` {d \<in> D. h2' d = i} = node1 A2 A1 h1 ` {d \<in> D. h2 d = i}" for A1 A2 i
    using assms(2) by (auto simp: node1_def image_def)
  show ?thesis using assms by (auto simp: table_ok_def links_ok_def n)
qed

text \<open>The objects that hang in a bucket.\<close>

lemma bucket_objects:
  assumes "table_ok h1 h2 D T" "i < length (Bucket T)"
  shows "pdata ` set (Bucket T ! i) = {d \<in> D. h1 d = i \<or> h2 d = i}"
proof -
  obtain A1 A2 where "links_ok A1 A2 h1 h2 D (Bucket T)" by (rule table_okE [OF assms(1)])
  then show ?thesis using assms(2) by (auto simp: links_nodes image_Un image_image)
qed

text \<open>A search finds an object whose comparison succeeds, if there is one in the key's bucket.\<close>

lemma table_find:
  assumes "table_ok h1 h2 D T" "\<And>d. d \<in> D \<Longrightarrow> dc key d type s = Some (r d)"
  obtains (found) d where "DBKeyHashTableFind hf dc T key type s = Some (Some d)" "d \<in> D" "r d = 1"
    | (absent) "DBKeyHashTableFind hf dc T key type s = Some None"
        "\<And>d. d \<in> D \<Longrightarrow> h1 d = hf key mod length (Bucket T) \<or> h2 d = hf key mod length (Bucket T) \<Longrightarrow> r d \<noteq> 1"
proof -
  let ?i = "hf key mod length (Bucket T)"
  have i: "?i < length (Bucket T)" using assms(1) by (simp add: table_ok_def)
  have o: "pdata ` set (Bucket T ! ?i) = {d \<in> D. h1 d = ?i \<or> h2 d = ?i}" by (rule bucket_objects [OF assms(1) i])
  then have "single_link_find dc key type s (Bucket T ! ?i) = Some (find (\<lambda>p. r (pdata p) = 1) (Bucket T ! ?i))"
    using assms(2) by (intro single_link_find_eq) auto
  then have f: "DBKeyHashTableFind hf dc T key type s = Some (map_option pdata (find (\<lambda>p. r (pdata p) = 1) (Bucket T ! ?i)))"
    by (simp add: DBKeyHashTableFind_def)
  show ?thesis
  proof (cases "find (\<lambda>p. r (pdata p) = 1) (Bucket T ! ?i)")
    case None
    then have "r d \<noteq> 1" if "d \<in> pdata ` set (Bucket T ! ?i)" for d
      using that by (auto simp: find_None_iff)
    then show ?thesis using f None o by (intro absent) auto
  next
    case (Some p)
    then have "p \<in> set (Bucket T ! ?i)" "r (pdata p) = 1" by (auto simp: find_Some_iff)
    then show ?thesis using f Some o by (intro found [of "pdata p"]) auto
  qed
qed

text \<open>Removal by key takes out one object whose comparison succeeds.\<close>

lemma table_detach: "table_ok h1 h2 D T \<Longrightarrow> table_ok h1 h2 (D - {d}) (T\<lparr>Bucket := detach d (Bucket T)\<rparr>)"
  by (auto simp: table_ok_def detach_def [of d "[]"] dest!: links_detach [of _ _ h1 h2 D _ d])
    (auto simp: detach_def)

lemma table_delete:
  assumes "table_ok h1 h2 D T" "\<And>d. d \<in> D \<Longrightarrow> dc key d type s = Some (r d)" "d \<in> D" "r d = 1"
    "h1 d = hf key mod length (Bucket T) \<or> h2 d = hf key mod length (Bucket T)"
    "\<And>d. d \<in> D \<Longrightarrow> r d = 1 \<Longrightarrow> \<exists>s'. del d s = Some s'"
  obtains d' s' where "d' \<in> D" "r d' = 1" "del d' s = Some s'"
    "DBKeyHashTableDelete hf dc del T key type s = Some (T\<lparr>Bucket := detach d' (Bucket T)\<rparr>, s')"
proof -
  let ?i = "hf key mod length (Bucket T)"
  have i: "?i < length (Bucket T)" using assms(1) by (simp add: table_ok_def)
  obtain A1 A2 where l: "links_ok A1 A2 h1 h2 D (Bucket T)" by (rule table_okE [OF assms(1)])
  have o: "pdata ` set (Bucket T ! ?i) = {d \<in> D. h1 d = ?i \<or> h2 d = ?i}" by (rule bucket_objects [OF assms(1) i])
  then have f: "single_link_find dc key type s (Bucket T ! ?i) = Some (find (\<lambda>p. r (pdata p) = 1) (Bucket T ! ?i))"
    using assms(2) by (intro single_link_find_eq) auto
  have "d \<in> pdata ` set (Bucket T ! ?i)" using o assms(3,5) by auto
  then have "find (\<lambda>p. r (pdata p) = 1) (Bucket T ! ?i) \<noteq> None" using assms(4) by (auto simp: find_None_iff)
  then obtain p where p: "find (\<lambda>p. r (pdata p) = 1) (Bucket T ! ?i) = Some p" by auto
  then have q: "p \<in> set (Bucket T ! ?i)" "r (pdata p) = 1" by (auto simp: find_Some_iff)
  then have d: "pdata p \<in> D" using o by auto
  obtain s' where s': "del (pdata p) s = Some s'" using assms(6) [OF d q(2)] by blast
  show ?thesis
    by (rule that [OF d q(2) s'])
      (use unlink_partner(1) [OF l i q(1), of del s s'] s' f p in
        \<open>simp add: DBKeyHashTableDelete_def single_link_node_delete_def\<close>)
qed

text \<open>Insertion of a new object.\<close>

lemma set_links_old: "\<forall>n \<in> set b. nl_addr n \<noteq> a \<Longrightarrow> set_links a o' x b = b"
  by (auto simp: set_links_def intro: map_idI)

lemma set_links_new [simp]:
  "set_links a o' x (n # b) = (if nl_addr n = a then n\<lparr>othernode := Some o', otherindex := x\<rparr> else n) # set_links a o' x b"
  by (simp add: set_links_def)

lemma old_address:
  assumes "table_ok h1 h2 D T" "i < length (Bucket T)" "n \<in> set (Bucket T ! i)"
  shows "nl_addr n \<noteq> next_node T" "nl_addr n \<noteq> Suc (next_node T)"
proof -
  obtain A1 A2 where L: "links_ok A1 A2 h1 h2 D (Bucket T)" "\<forall>d \<in> D. A1 d < next_node T \<and> A2 d < next_node T"
    by (rule table_okE [OF assms(1)])
  have "nl_addr n < next_node T"
    using links_node [OF L(1) assms(2,3)] L(2) by (metis node_sel(1))
  then show "nl_addr n \<noteq> next_node T" "nl_addr n \<noteq> Suc (next_node T)" by simp_all
qed

lemma insert_bucket:
  fixes hf :: "'k \<Rightarrow> nat" and k1 k2 :: 'k and T :: dbtable
  assumes "table_ok h1 h2 D T"
  defines "l1 \<equiv> hf k1 mod length (Bucket T)" and "l2 \<equiv> hf k2 mod length (Bucket T)" and "a \<equiv> next_node T"
  obtains T' where "DBKeyHashTableInsert hf True True T k1 k2 d = (T', 1)" "next_node T' = a + 2"
    "length (Bucket T') = length (Bucket T)"
    "\<And>i. i < length (Bucket T) \<Longrightarrow> Bucket T' ! i =
       (if i = l2 then [\<lparr>nl_addr = a + 1, othernode = Some a, otherindex = l1, pdata = d\<rparr>] else [])
       @ (if i = l1 then [\<lparr>nl_addr = a, othernode = Some (a + 1), otherindex = l2, pdata = d\<rparr>] else []) @ Bucket T ! i"
proof -
  have l: "l1 < length (Bucket T)" "l2 < length (Bucket T)" using assms(1) by (auto simp: l1_def l2_def table_ok_def)
  have s: "set_links a x y (Bucket T ! i) = Bucket T ! i" "set_links (Suc a) x y (Bucket T ! i) = Bucket T ! i"
    if "i < length (Bucket T)" for i x y
    using old_address [OF assms(1) that] by (auto simp: a_def intro!: set_links_old)
  show ?thesis
    by (rule that [of "fst (DBKeyHashTableInsert hf True True T k1 k2 d)"])
      (use l s in \<open>auto simp: DBKeyHashTableInsert_def single_link_head_insert_def Let_def nth_list_update
         simp flip: l1_def l2_def a_def\<close>)
qed

lemma table_insert:
  assumes "table_ok h1 h2 D T" "d \<notin> D" "h1 d = hf k1 mod length (Bucket T)" "h2 d = hf k2 mod length (Bucket T)"
  obtains T' where "DBKeyHashTableInsert hf True True T k1 k2 d = (T', 1)" "table_ok h1 h2 (insert d D) T'"
    "length (Bucket T') = length (Bucket T)"
proof -
  let ?a = "next_node T"
  obtain T' where i: "DBKeyHashTableInsert hf True True T k1 k2 d = (T', 1)" "next_node T' = ?a + 2"
    "length (Bucket T') = length (Bucket T)"
    "\<And>i. i < length (Bucket T) \<Longrightarrow> Bucket T' ! i =
       (if i = h2 d then [\<lparr>nl_addr = ?a + 1, othernode = Some ?a, otherindex = h1 d, pdata = d\<rparr>] else [])
       @ (if i = h1 d then [\<lparr>nl_addr = ?a, othernode = Some (?a + 1), otherindex = h2 d, pdata = d\<rparr>] else []) @ Bucket T ! i"
    unfolding assms(3,4)
    by (rule insert_bucket [OF assms(1), where hf = hf and ?k1.0 = k1 and ?k2.0 = k2 and d = d]) blast
  obtain A1 A2 where L: "links_ok A1 A2 h1 h2 D (Bucket T)" "\<forall>d \<in> D. A1 d < ?a \<and> A2 d < ?a" "Bucket T \<noteq> []"
    by (rule table_okE [OF assms(1)])
  let ?A1 = "A1(d := ?a)" and ?A2 = "A2(d := ?a + 1)"
  have b: "h1 d < length (Bucket T)" "h2 d < length (Bucket T)" using L(3) by (auto simp: assms(3,4))
  have dist: "distinct (map nl_addr b)" if m: "b \<in> set (Bucket T')" for b
  proof -
    obtain i where n: "i < length (Bucket T)" "b = Bucket T' ! i" using m unfolding in_set_conv_nth i(3) by blast
    have "distinct (map nl_addr (Bucket T ! i))" using L(1) n(1) by (simp add: links_ok_def)
    moreover have "?a \<notin> nl_addr ` set (Bucket T ! i)" "Suc ?a \<notin> nl_addr ` set (Bucket T ! i)"
      using old_address [OF assms(1) n(1)] by (metis imageE)+
    ultimately show ?thesis unfolding n(2) i(4) [OF n(1)] by auto
  qed
  have nodes: "node1 ?A1 ?A2 h2 d' = node1 A1 A2 h2 d'" "node1 ?A2 ?A1 h1 d' = node1 A2 A1 h1 d'" if "d' \<in> D" for d'
    using that assms(2) by (auto simp: node1_def)
  have img: "node1 ?A1 ?A2 h2 ` {d' \<in> D. h1 d' = i} = node1 A1 A2 h2 ` {d' \<in> D. h1 d' = i}"
    "node1 ?A2 ?A1 h1 ` {d' \<in> D. h2 d' = i} = node1 A2 A1 h1 ` {d' \<in> D. h2 d' = i}" for i
    using nodes by (auto intro!: image_cong)
  have ins: "{d' \<in> insert d D. h d' = i} = (if h d = i then insert d {d' \<in> D. h d' = i} else {d' \<in> D. h d' = i})"
    for h :: "nat \<Rightarrow> nat" and i by auto
  have sets: "set (Bucket T' ! i) = node1 ?A1 ?A2 h2 ` {d' \<in> insert d D. h1 d' = i} \<union> node1 ?A2 ?A1 h1 ` {d' \<in> insert d D. h2 d' = i}"
    if "i < length (Bucket T')" for i
  proof -
    have "Bucket T' ! i = (if i = h2 d then [node1 ?A2 ?A1 h1 d] else []) @ (if i = h1 d then [node1 ?A1 ?A2 h2 d] else []) @ Bucket T ! i"
      using i(4) [of i] that i(3) by (simp add: node1_def)
    moreover have "set (Bucket T ! i) = node1 ?A1 ?A2 h2 ` {d' \<in> D. h1 d' = i} \<union> node1 ?A2 ?A1 h1 ` {d' \<in> D. h2 d' = i}"
      using links_nodes [OF L(1), of i] that i(3) by (simp only: img)
    ultimately show ?thesis
      by (cases "h1 d = i"; cases "h2 d = i") (simp_all only: ins if_True if_False image_insert set_append, auto)
  qed
  have "inj_on ?A1 (insert d D)" "inj_on ?A2 (insert d D)" "?A1 ` insert d D \<inter> ?A2 ` insert d D = {}"
  proof -
    have e: "?A1 ` D = A1 ` D" "?A2 ` D = A2 ` D" using assms(2) by (auto intro!: image_cong)
    have f: "?a \<notin> A1 ` D" "?a \<notin> A2 ` D" "?a + 1 \<notin> A1 ` D" "?a + 1 \<notin> A2 ` D" using L(2) by fastforce+
    have c: "inj_on ?A1 D \<longleftrightarrow> inj_on A1 D" "inj_on ?A2 D \<longleftrightarrow> inj_on A2 D"
      using assms(2) by (auto intro!: inj_on_cong)
    have k: "inj_on A1 D" "inj_on A2 D" "A1 ` D \<inter> A2 ` D = {}" using L(1) by (simp_all only: links_ok_def)
    have dd: "D - {d} = D" using assms(2) by simp
    show "inj_on ?A1 (insert d D)" "inj_on ?A2 (insert d D)"
      using assms(2) f k by (simp_all only: inj_on_insert c dd e fun_upd_same not_False_eq_True simp_thms)
    show "?A1 ` insert d D \<inter> ?A2 ` insert d D = {}"
      using f k(3) by (simp only: image_insert e fun_upd_same) auto
  qed
  then have "links_ok ?A1 ?A2 h1 h2 (insert d D) (Bucket T')"
    using sets dist b L(1) i(3) by (auto simp: links_ok_def)
  moreover have "\<forall>d' \<in> insert d D. ?A1 d' < next_node T' \<and> ?A2 d' < next_node T'" using L(2) i(2) by auto
  moreover have "Bucket T' \<noteq> []" using L(3) i(3) by auto
  ultimately have "table_ok h1 h2 (insert d D) T'" unfolding table_ok_def by blast
  then show ?thesis by (rule that [OF i(1) _ i(3)])
qed

section \<open>The sweep\<close>

text \<open>
  What the sweep relies on: ageing an object and disposing of it succeed while the state is sound, ageing
  keeps the objects and their buckets, and disposal removes the object and leaves the others where they are.
\<close>

locale swept_objects =
  fixes proc :: "nat \<Rightarrow> 's \<Rightarrow> ('s \<times> int) option"
    and del :: "nat \<Rightarrow> 's \<Rightarrow> 's option"
    and live :: "'s \<Rightarrow> nat set"
    and home1 home2 :: "'s \<Rightarrow> nat \<Rightarrow> nat"
    and sound :: "'s \<Rightarrow> bool"
    and life :: "'s \<Rightarrow> nat \<Rightarrow> int"
    and tick :: int
  assumes tick_pos: "0 < tick"
    and proc_law: "\<lbrakk> sound s; d \<in> live s \<rbrakk> \<Longrightarrow>
      \<exists>s' r. proc d s = Some (s', r) \<and> sound s' \<and> live s' = live s \<and> home1 s' = home1 s \<and> home2 s' = home2 s
        \<and> (\<forall>d' \<in> live s. d' \<noteq> d \<longrightarrow> life s' d' = life s d')
        \<and> life s' d = (if 0 < life s d then life s d - tick else life s d)
        \<and> (r < 0 \<longleftrightarrow> 0 < life s d \<and> life s' d \<le> 0)"
    and del_law: "\<lbrakk> sound s; d \<in> live s \<rbrakk> \<Longrightarrow>
      \<exists>s'. del d s = Some s' \<and> sound s' \<and> live s' = live s - {d}
        \<and> (\<forall>d' \<in> live s'. home1 s' d' = home1 s d' \<and> home2 s' d' = home2 s d' \<and> life s' d' = life s d')"
begin

definition linked :: "nat \<Rightarrow> 's \<Rightarrow> nodelink list list \<Rightarrow> bool" where
  "linked N s bs \<longleftrightarrow>
     (\<exists>A1 A2. links_ok A1 A2 (home1 s) (home2 s) (live s) bs \<and> (\<forall>d \<in> live s. A1 d < N \<and> A2 d < N))"

text \<open>How often the rest of a bucket, from position \<open>j\<close> on, meets an object.\<close>

definition meets :: "nat \<Rightarrow> nodelink list \<Rightarrow> nat" where
  "meets d ns = length (filter (\<lambda>n. pdata n = d) ns)"

lemma meets_append [simp]: "meets d (a @ b) = meets d a + meets d b"
  by (simp add: meets_def)

lemma meets_detach: "d \<noteq> e \<Longrightarrow> i < length bs \<Longrightarrow> meets d (detach e bs ! i) = meets d (bs ! i)"
  by (auto simp: meets_def detach_def intro: arg_cong [where f = length] filter_cong)

text \<open>
  The sweep ends without a bad access, keeps the table linked, keeps every object whose life is not
  positive as it is, and takes from each other object that survives at least a tick for every time it is
  met.
\<close>

definition aged :: "'s \<Rightarrow> 's \<Rightarrow> (nat \<Rightarrow> nat) \<Rightarrow> bool" where
  "aged s s' m \<longleftrightarrow> live s' \<subseteq> live s
     \<and> (\<forall>d \<in> live s. life s d \<le> 0 \<longrightarrow> d \<in> live s' \<and> life s' d = life s d)
     \<and> (\<forall>d \<in> live s'. 0 < life s d \<longrightarrow> 0 < life s' d \<and> life s' d \<le> life s d - tick * int (m d))
     \<and> (\<forall>d \<in> live s'. home1 s' d = home1 s d \<and> home2 s' d = home2 s d)"

lemma aged_refl: "aged s s (\<lambda>d. 0)"
  by (simp add: aged_def)

lemma aged_trans:
  assumes "aged s s1 m" "aged s1 s2 n" shows "aged s s2 (\<lambda>d. m d + n d)"
  unfolding aged_def
proof (intro conjI ballI impI)
  fix d assume d: "d \<in> live s2" "0 < life s d"
  then have "d \<in> live s1" using assms(2) by (auto simp: aged_def)
  then have "0 < life s1 d" "life s1 d \<le> life s d - tick * int (m d)" using assms(1) d(2) by (auto simp: aged_def)
  moreover have "0 < life s2 d \<and> life s2 d \<le> life s1 d - tick * int (n d)"
    using assms(2) d(1) \<open>0 < life s1 d\<close> by (simp add: aged_def)
  ultimately show "0 < life s2 d" "life s2 d \<le> life s d - tick * int (m d + n d)" by (simp_all add: algebra_simps)
qed (use assms in \<open>auto simp: aged_def\<close>)

lemma aged_mono: "aged s s' m \<Longrightarrow> (\<And>d. d \<in> live s' \<Longrightarrow> n d \<le> m d) \<Longrightarrow> aged s s' n"
  using tick_pos unfolding aged_def by (smt (verit, best) mult_left_mono of_nat_mono)

lemma linked_member: "linked N s bs \<Longrightarrow> i < length bs \<Longrightarrow> p \<in> set (bs ! i) \<Longrightarrow> pdata p \<in> live s"
  by (auto simp: linked_def links_nodes)

lemma linked_cong:
  "linked N s bs \<Longrightarrow> live s' = live s \<Longrightarrow> home1 s' = home1 s \<Longrightarrow> home2 s' = home2 s \<Longrightarrow> linked N s' bs"
  by (simp add: linked_def)

lemma links_cong:
  assumes "links_ok A1 A2 h1 h2 D bs" "\<And>d. d \<in> D \<Longrightarrow> h1' d = h1 d \<and> h2' d = h2 d"
  shows "links_ok A1 A2 h1' h2' D bs"
proof -
  have "node1 A1 A2 h2' ` {d \<in> D. h1' d = i} = node1 A1 A2 h2 ` {d \<in> D. h1 d = i}"
    "node1 A2 A1 h1' ` {d \<in> D. h2' d = i} = node1 A2 A1 h1 ` {d \<in> D. h2 d = i}" for i
    using assms(2) by (auto simp: node1_def image_def)
  then show ?thesis using assms by (auto simp: links_ok_def)
qed

text \<open>One node whose object has run out: both nodes go, and the object.\<close>

lemma sweep_removes:
  assumes "linked N s bs" "i < length bs" "j < length (bs ! i)" "del (pdata (bs ! i ! j)) s = Some s'"
    "live s' = live s - {pdata (bs ! i ! j)}" "\<forall>d' \<in> live s'. home1 s' d' = home1 s d' \<and> home2 s' d' = home2 s d'"
  shows "release_partner del (bs ! i ! j) (bs[i := take j (bs ! i) @ drop (Suc j) (bs ! i)]) s =
      Some (detach (pdata (bs ! i ! j)) bs, s')"
    "linked N s' (detach (pdata (bs ! i ! j)) bs)" "othernode (bs ! i ! j) \<noteq> None"
    "otherindex (bs ! i ! j) \<noteq> i \<Longrightarrow> detach (pdata (bs ! i ! j)) bs ! i = take j (bs ! i) @ drop (Suc j) (bs ! i)"
proof -
  let ?p = "bs ! i ! j"
  obtain A1 A2 where L: "links_ok A1 A2 (home1 s) (home2 s) (live s) bs" "\<forall>d \<in> live s. A1 d < N \<and> A2 d < N"
    using assms(1) by (auto simp: linked_def)
  have m: "?p \<in> set (bs ! i)" using assms(3) by simp
  have "distinct (map nl_addr (bs ! i))" using L(1) assms(2) by (simp add: links_ok_def)
  then have r: "take j (bs ! i) @ drop (Suc j) (bs ! i) = unlink (nl_addr ?p) (bs ! i)"
    using assms(3) by (rule remove_position)
  show a: "release_partner del ?p (bs[i := take j (bs ! i) @ drop (Suc j) (bs ! i)]) s = Some (detach (pdata ?p) bs, s')"
    and b: "othernode ?p \<noteq> None"
    unfolding r
    by (rule unlink_partner(1) [where p = ?p and s = s and del = del, OF L(1) assms(2) m assms(4)],
      rule unlink_partner(2) [where p = ?p and s = s and del = del, OF L(1) assms(2) m assms(4)])
  have "links_ok A1 A2 (home1 s') (home2 s') (live s') (detach (pdata ?p) bs)"
    unfolding assms(5) by (rule links_cong [OF links_detach [OF L(1)]]) (use assms(5,6) in auto)
  then show "linked N s' (detach (pdata ?p) bs)" using L(2) assms(5) by (auto simp: linked_def)
  show "detach (pdata ?p) bs ! i = take j (bs ! i) @ drop (Suc j) (bs ! i)" if "otherindex ?p \<noteq> i"
    using release_partner_other [OF a] that assms(2) by simp
qed

lemma loop_delete_ok:
  assumes "pr = proc" "de = del" "linked N s bs" "sound s" "i < length bs"
  shows "\<exists>bs' s'. single_link_loop_delete pr de i j oi bs s = Some (bs', s') \<and> linked N s' bs' \<and> sound s'
    \<and> length bs' = length bs \<and> aged s s' (\<lambda>d. meets d (drop j (bs ! i)))
    \<and> (\<forall>k < length bs. \<forall>d \<in> live s'. meets d (bs' ! k) = meets d (bs ! k))"
  using assms
proof (induction pr de i j oi bs s rule: single_link_loop_delete.induct)
  case (1 pr de i j oi bs s)
  show ?case
  proof (cases "j < length (bs ! i)")
    case False
    then have "single_link_loop_delete pr de i j oi bs s = Some (bs, s)" "drop j (bs ! i) = []"
      by (simp_all add: single_link_loop_delete.simps)
    then show ?thesis using "1.prems" aged_refl by (simp add: meets_def)
  next
    case True
    let ?p = "bs ! i ! j" let ?d = "pdata ?p"
    have d: "?d \<in> live s" by (rule linked_member [OF "1.prems"(3,5)]) (use True in simp)
    obtain s1 r where p: "proc ?d s = Some (s1, r)" "sound s1" "live s1 = live s" "home1 s1 = home1 s" "home2 s1 = home2 s"
      "\<forall>d' \<in> live s. d' \<noteq> ?d \<longrightarrow> life s1 d' = life s d'"
      "life s1 ?d = (if 0 < life s ?d then life s ?d - tick else life s ?d)"
      "r < 0 \<longleftrightarrow> 0 < life s ?d \<and> life s1 ?d \<le> 0"
      using proc_law [OF "1.prems"(4) d] by blast
    have l1: "linked N s1 bs" by (rule linked_cong [OF "1.prems"(3) p(3-5)])
    have dr: "drop j (bs ! i) = ?p # drop (Suc j) (bs ! i)" using True by (simp add: Cons_nth_drop_Suc)
    show ?thesis
    proof (cases "r < 0")
      case False
      have a: "aged s s1 (\<lambda>x. if x = ?d then 1 else 0)"
        using p False tick_pos by (auto simp: aged_def)
      obtain bs' s' where c: "single_link_loop_delete pr de i (Suc j) oi bs s1 = Some (bs', s')" "linked N s' bs'" "sound s'"
        "length bs' = length bs" "aged s1 s' (\<lambda>d. meets d (drop (Suc j) (bs ! i)))"
        "\<forall>k < length bs. \<forall>d \<in> live s'. meets d (bs' ! k) = meets d (bs ! k)"
        using "1.IH"(2) [of ?p "(s1, r)" s1 r] "1.prems" True p(1,2) l1 False by auto
      have "aged s s' (\<lambda>d. meets d (drop j (bs ! i)))"
        by (rule aged_mono [OF aged_trans [OF a c(5)]]) (simp add: dr meets_def)
      then show ?thesis using c "1.prems" True p(1) False
        by (subst single_link_loop_delete.simps) (simp add: Let_def)
    next
      case neg: True
      then have run: "0 < life s ?d" "life s1 ?d \<le> 0" using p(8) by simp_all
      obtain s2 where q: "del ?d s1 = Some s2" "sound s2" "live s2 = live s1 - {?d}"
        "\<forall>d' \<in> live s2. home1 s2 d' = home1 s1 d' \<and> home2 s2 d' = home2 s1 d' \<and> life s2 d' = life s1 d'"
        using del_law [OF p(2), of ?d] d p(3) by auto
      have q': "\<forall>d' \<in> live s2. home1 s2 d' = home1 s1 d' \<and> home2 s2 d' = home2 s1 d'" using q(4) by simp
      note u = sweep_removes [OF l1 "1.prems"(5) True q(1,3) q']
      let ?j = "if otherindex ?p = i then 0 else j" let ?bs = "detach ?d bs"
      have a: "aged s s2 (\<lambda>x. 0)"
        using p(3-6) q(3,4) run by (auto simp: aged_def)
      obtain bs' s' where c: "single_link_loop_delete pr de i ?j (otherindex ?p) ?bs s2 = Some (bs', s')" "linked N s' bs'"
        "sound s'" "length bs' = length ?bs" "aged s2 s' (\<lambda>d. meets d (drop ?j (?bs ! i)))"
        "\<forall>k < length ?bs. \<forall>d \<in> live s'. meets d (bs' ! k) = meets d (?bs ! k)"
        using "1.IH"(1) [of ?p "(s1, r)" s1 r "otherindex ?p" "(?bs, s2)" ?bs s2] "1.prems" True p(1) q(2) u neg by auto
      have live: "x \<in> live s2" "x \<noteq> ?d" if "x \<in> live s'" for x using c(5) q(3) that by (auto simp: aged_def)
      have m: "meets x (?bs ! k) = meets x (bs ! k)" if "x \<in> live s'" "k < length bs" for x k
        using live(2) [OF that(1)] that(2) by (rule meets_detach)
      have "meets x (drop j (bs ! i)) \<le> meets x (drop ?j (?bs ! i))" if x: "x \<in> live s'" for x
      proof (cases "otherindex ?p = i")
        case True
        have "meets x (bs ! i) = meets x (take j (bs ! i)) + meets x (drop j (bs ! i))"
          by (metis append_take_drop_id meets_append)
        then show ?thesis using True m [OF x "1.prems"(5)] by simp
      next
        case False
        then show ?thesis using u(4) True live(2) [OF x] by (simp add: dr) (simp add: meets_def)
      qed
      then have "aged s s' (\<lambda>d. meets d (drop j (bs ! i)))"
        by (intro aged_mono [OF aged_trans [OF a c(5)]]) simp
      moreover have "single_link_loop_delete pr de i j oi bs s = single_link_loop_delete pr de i ?j (otherindex ?p) ?bs s2"
        using "1.prems"(1,2,5) True p(1) neg u(1,3) by (subst single_link_loop_delete.simps) (auto simp: Let_def)
      moreover have "\<forall>k < length bs. \<forall>d \<in> live s'. meets d (bs' ! k) = meets d (bs ! k)" using c(6) m by simp
      ultimately show ?thesis using c(1-4) by (metis length_detach)
    qed
  qed
qed

text \<open>All buckets: every object is met twice, once by each of its nodes.\<close>

lemma meets_concat: "meets d (concat bs) = (\<Sum>k < length bs. meets d (bs ! k))"
proof (induction bs rule: rev_induct)
  case (snoc b bs)
  have "(\<Sum>k < length bs. meets d ((bs @ [b]) ! k)) = (\<Sum>k < length bs. meets d (bs ! k))"
    by (rule sum.cong) (auto simp: nth_append)
  then show ?case using snoc by simp
qed (simp add: meets_def)

lemma met_twice:
  assumes "linked N s bs" "d \<in> live s" shows "2 \<le> (\<Sum>k < length bs. meets d (bs ! k))"
proof -
  obtain A1 A2 where L: "links_ok A1 A2 (home1 s) (home2 s) (live s) bs" using assms(1) by (auto simp: linked_def)
  let ?m = "node1 A1 A2 (home2 s) d" and ?n = "node1 A2 A1 (home1 s) d"
  have b: "home1 s d < length bs" "home2 s d < length bs" using L assms(2) by (auto simp: links_ok_def)
  have "?m \<in> set (bs ! home1 s d)" "?n \<in> set (bs ! home2 s d)"
    using links_nodes [OF L b(1)] links_nodes [OF L b(2)] assms(2) by auto
  then have "{?m, ?n} \<subseteq> set (filter (\<lambda>n. pdata n = d) (concat bs))" using b by auto
  moreover have "?m \<noteq> ?n" using links_address(3) [OF L assms(2,2)] by (metis node_sel(1))
  ultimately have "card {?m, ?n} \<le> card (set (filter (\<lambda>n. pdata n = d) (concat bs)))"
    by (intro card_mono) auto
  then have "2 \<le> meets d (concat bs)"
    using \<open>?m \<noteq> ?n\<close> card_length [of "filter (\<lambda>n. pdata n = d) (concat bs)"] by (simp add: meets_def)
  then show ?thesis by (simp only: meets_concat)
qed

lemma sweep_from_ok:
  assumes "linked N s (Bucket T)" "sound s" "i + n \<le> length (Bucket T)"
  shows "\<exists>T' s'. sweep_from proc del n T i s = Some (T', s') \<and> linked N s' (Bucket T') \<and> sound s'
    \<and> length (Bucket T') = length (Bucket T) \<and> next_node T' = next_node T
    \<and> aged s s' (\<lambda>d. \<Sum>k = i..<i + n. meets d (Bucket T ! k))"
  using assms
proof (induction n arbitrary: T i s)
  case 0
  then show ?case using aged_refl by simp
next
  case (Suc n)
  have i: "i < length (Bucket T)" using Suc.prems(3) by simp
  obtain bs s1 where l: "single_link_loop_delete proc del i 0 0 (Bucket T) s = Some (bs, s1)" "linked N s1 bs" "sound s1"
    "length bs = length (Bucket T)" "aged s s1 (\<lambda>d. meets d (Bucket T ! i))"
    "\<forall>k < length bs. \<forall>d \<in> live s1. meets d (bs ! k) = meets d (Bucket T ! k)"
    using loop_delete_ok [OF refl refl Suc.prems(1,2) i, of 0 0] by auto
  let ?T = "T\<lparr>Bucket := bs\<rparr>"
  obtain T' s' where r: "sweep_from proc del n ?T (Suc i) s1 = Some (T', s')" "linked N s' (Bucket T')" "sound s'"
    "length (Bucket T') = length bs" "next_node T' = next_node T"
    "aged s1 s' (\<lambda>d. \<Sum>k = Suc i..<Suc i + n. meets d (bs ! k))"
    using Suc.IH [of s1 ?T "Suc i"] l(2-4) Suc.prems(3) by auto
  have "(\<Sum>k = i..<i + Suc n. meets d (Bucket T ! k)) \<le> meets d (Bucket T ! i) + (\<Sum>k = Suc i..<Suc i + n. meets d (bs ! k))"
    if "d \<in> live s'" for d
  proof -
    have "d \<in> live s1" using r(6) that by (auto simp: aged_def)
    then have "(\<Sum>k = Suc i..<Suc i + n. meets d (bs ! k)) = (\<Sum>k = Suc i..<Suc i + n. meets d (Bucket T ! k))"
      using l(4,6) Suc.prems(3) by (intro sum.cong) auto
    moreover have "(\<Sum>k = i..<i + Suc n. meets d (Bucket T ! k)) = meets d (Bucket T ! i) + (\<Sum>k = Suc i..<Suc i + n. meets d (Bucket T ! k))"
      by (simp add: sum.atLeast_Suc_lessThan)
    ultimately show ?thesis by simp
  qed
  then have "aged s s' (\<lambda>d. \<Sum>k = i..<i + Suc n. meets d (Bucket T ! k))"
    by (rule aged_mono [OF aged_trans [OF l(5) r(6)]])
  then show ?case using l(1,4) r by (simp add: DBKeyHashTableLoopDelete_def)
qed

lemma sweep_all:
  assumes "linked N s (Bucket T)" "sound s"
  obtains T' s' where "sweep_from proc del (length (Bucket T)) T 0 s = Some (T', s')" "linked N s' (Bucket T')" "sound s'"
    "length (Bucket T') = length (Bucket T)" "next_node T' = next_node T" "aged s s' (\<lambda>d. 2)"
proof -
  obtain T' s' where r: "sweep_from proc del (length (Bucket T)) T 0 s = Some (T', s')" "linked N s' (Bucket T')" "sound s'"
    "length (Bucket T') = length (Bucket T)" "next_node T' = next_node T"
    "aged s s' (\<lambda>d. \<Sum>k = 0..<0 + length (Bucket T). meets d (Bucket T ! k))"
    using sweep_from_ok [OF assms, of 0 "length (Bucket T)"] by auto
  have "2 \<le> (\<Sum>k = 0..<0 + length (Bucket T). meets d (Bucket T ! k))" if "d \<in> live s'" for d
    using met_twice [OF assms(1), of d] r(6) that by (auto simp: aged_def atLeast0LessThan)
  then show ?thesis by (intro that [OF r(1-5)] aged_mono [OF r(6)])
qed

end

end
