(* ===== verification/Bytes.thy ===== *)
theory Bytes
  imports Prelude
begin

text \<open>
  Byte buffers as the C sources use them: reads and writes at an offset, which are \<open>None\<close>
  outside the buffer, the network byte order of 16- and 32-bit fields, and the Internet
  checksum (\<open>in_cksum\<close> of \<open>help.c\<close>).
\<close>

section \<open>Access\<close>

definition get8 :: "u8 list \<Rightarrow> nat \<Rightarrow> u8 option" where
  "get8 p i = (if i < length p then Some (p ! i) else None)"

text \<open>The value of a field in network order, after \<open>ntohs\<close> or \<open>ntohl\<close>.\<close>

definition get16 :: "u8 list \<Rightarrow> nat \<Rightarrow> u16 option" where
  "get16 p i = (if i + 1 < length p then Some (word_cat (p ! i) (p ! (i + 1))) else None)"

definition get32 :: "u8 list \<Rightarrow> nat \<Rightarrow> u32 option" where
  "get32 p i =
     (if i + 3 < length p
      then Some (word_cat (word_cat (p ! i) (p ! (i + 1)) :: u16) (word_cat (p ! (i + 2)) (p ! (i + 3)) :: u16))
      else None)"

definition getn :: "u8 list \<Rightarrow> nat \<Rightarrow> nat \<Rightarrow> u8 list option" where
  "getn p i n = (if i + n \<le> length p then Some (take n (drop i p)) else None)"

definition put :: "u8 list \<Rightarrow> nat \<Rightarrow> u8 list \<Rightarrow> u8 list option" where
  "put p i b = (if i + length b \<le> length p then Some (take i p @ b @ drop (i + length b) p) else None)"

definition be16 :: "u16 \<Rightarrow> u8 list" where
  "be16 x = [ucast (drop_bit 8 x), ucast x]"

definition be32 :: "u32 \<Rightarrow> u8 list" where
  "be32 x = [ucast (drop_bit 24 x), ucast (drop_bit 16 x), ucast (drop_bit 8 x), ucast x]"

lemma length_be [simp]: "length (be16 x) = 2" "length (be32 y) = 4"
  by (simp_all add: be16_def be32_def)

lemma word_cat_halves [simp]: "word_cat (ucast (drop_bit 8 (x :: u16)) :: u8) (ucast x :: u8) = x"
  by (rule bit_word_eqI) (auto simp: bit_word_cat_iff bit_ucast_iff bit_drop_bit_eq)

lemma word_cat_quarters [simp]:
  "word_cat (word_cat (ucast (drop_bit 24 (x :: u32)) :: u8) (ucast (drop_bit 16 x) :: u8) :: u16)
            (word_cat (ucast (drop_bit 8 x) :: u8) (ucast x :: u8) :: u16) = x"
  by (rule bit_word_eqI) (auto simp: bit_word_cat_iff bit_ucast_iff bit_drop_bit_eq)

lemma get16_be16 [simp]: "get16 (be16 x @ p) 0 = Some x"
  by (simp add: get16_def be16_def)

lemma get32_be32 [simp]: "get32 (be32 x @ p) 0 = Some x"
  by (simp add: get32_def be32_def)

lemma get8_append [simp]: "length p \<le> i \<Longrightarrow> get8 (p @ q) i = get8 q (i - length p)"
  by (auto simp: get8_def nth_append)

lemma get16_append [simp]: "length p \<le> i \<Longrightarrow> get16 (p @ q) i = get16 q (i - length p)"
  by (auto simp: get16_def nth_append Suc_diff_le)

lemma get32_append [simp]: "length p \<le> i \<Longrightarrow> get32 (p @ q) i = get32 q (i - length p)"
  by (auto simp: get32_def nth_append Suc_diff_le eval_nat_numeral)

lemma getn_append [simp]: "length p \<le> i \<Longrightarrow> getn (p @ q) i n = getn q (i - length p) n"
  by (auto simp: getn_def)

lemma getn_prefix [simp]: "getn (p @ q) 0 (length p) = Some p"
  by (simp add: getn_def)

lemma getn_whole: "n = length p \<Longrightarrow> getn p 0 n = Some p"
  by (simp add: getn_def)

lemma getn_length: "getn p i n = Some q \<Longrightarrow> length q = n"
  by (auto simp: getn_def split: if_splits)

lemma put_length: "put p i b = Some q \<Longrightarrow> length q = length p"
  by (auto simp: put_def split: if_splits)

lemma put_Some_iff: "put p i b \<noteq> None \<longleftrightarrow> i + length b \<le> length p"
  by (simp add: put_def)

section \<open>The checksum\<close>

text \<open>
  The running sum is an \<open>int\<close>; at most 65535 bytes keep it below \<open>2 ^ 31\<close>
  (\<open>word_sum_bound\<close>), so it is a natural number here.
\<close>

fun word_sum :: "u8 list \<Rightarrow> nat" where
  "word_sum [] = 0"
| "word_sum [x] = unat x * 256"
| "word_sum (x # y # p) = unat x * 256 + unat y + word_sum p"

definition in_cksum :: "u8 list \<Rightarrow> nat" where
  "in_cksum p =
     (let s = word_sum p;
          s = (s div 65536) mod 65536 + s mod 65536;
          s = s + s div 65536
      in 65535 - s mod 65536)"

lemma unat_u8: "unat (x :: u8) < 256"
  using unsigned_less [of x] by simp

lemma word_sum_bound: "word_sum p \<le> 65535 * ((length p + 1) div 2)"
proof (induction p rule: word_sum.induct)
  case (2 x)
  then show ?case using unat_u8 [of x] by simp
next
  case (3 x y p)
  then show ?case using unat_u8 [of x] unat_u8 [of y] by simp
qed simp

lemma word_sum_append:
  "even (length p) \<Longrightarrow> word_sum (p @ q) = word_sum p + word_sum q"
  by (induction p rule: word_sum.induct) auto

text \<open>The checksum of a correct packet is 0: its sum is a multiple of 65535 other than 0.\<close>

lemma in_cksum_zero:
  assumes "word_sum p < 2 ^ 31"
  shows "in_cksum p = 0 \<longleftrightarrow> 0 < word_sum p \<and> word_sum p mod 65535 = 0"
proof -
  define s where "s = word_sum p"
  define h l where "h = s div 65536" and "l = s mod 65536"
  have hl: "s = 65536 * h + l" "l < 65536" "h < 32768"
    using assms by (auto simp: h_def l_def s_def)
  define t where "t = h + l"
  have t: "t < 98304" using hl by (simp add: t_def)
  have "s = 65535 * h + t" using hl(1) by (simp add: t_def)
  then have m: "s mod 65535 = t mod 65535" by simp
  have c: "in_cksum p = 65535 - (t + t div 65536) mod 65536"
    using hl by (simp add: in_cksum_def Let_def s_def [symmetric] h_def l_def t_def)
  have "in_cksum p = 0 \<longleftrightarrow> t = 65535"
  proof (cases "t < 65536")
    case True
    then show ?thesis using c by auto
  next
    case False
    then have "t div 65536 = 1" using t by simp
    then have "(t + t div 65536) mod 65536 < 65535" using False t by (simp add: mod_if) linarith
    then show ?thesis using c False by simp
  qed
  moreover have "t mod 65535 = 0 \<longleftrightarrow> t = 0 \<or> t = 65535"
  proof (cases "t < 65535")
    case False
    then have "t mod 65535 = t - 65535" using t by (simp add: mod_if)
    then show ?thesis using False by auto
  qed simp
  moreover have "t = 0 \<longleftrightarrow> s = 0" using hl by (auto simp: t_def)
  ultimately have "in_cksum p = 0 \<longleftrightarrow> s \<noteq> 0 \<and> s mod 65535 = 0"
    unfolding m by (cases "t = 0") simp_all
  then show ?thesis by (simp add: s_def)
qed

end
