(* ===== verification/BPlus.thy ===== *)
theory BPlus
  imports Prelude
begin

text \<open>
  The B+ tree of the kernel module (\<open>TC/kernel_module/src/bplus.c\<close>, \<open>include/bplus.h\<close>).

  \<^item> A \<open>BPNode\<close> is a leaf (its links have type 1 and hold values) or an inner node (type 0,
    its links hold nodes); the circular list of \<open>BPInternalLinkNode\<close>s that starts at
    \<open>interLinkHeader\<close> is a HOL list, so \<open>interLinkHeader->prev\<close> is its last element, and
    \<open>pointerNum\<close>, which the code keeps equal to the number of links, is the list's length.
  \<^item> The \<open>parent\<close> pointers are a path of crumbs: the focus node, together with its parent's
    key, the links left of it, its own link's key and the links right of it, and so on to
    the root.  \<open>bpsplit\<close> and \<open>bpmerge\<close> climb this path as the code follows \<open>parent\<close>.
  \<^item> The list of \<open>BPValue\<close>s that starts at \<open>header\<close> is the field \<open>header\<close>; a value is
    identified by its key, which is unique in a tree.
  \<^item> \<open>None\<close> stands for a run that does not return (a search loop that goes round the circular
    list for ever) or dereferences NULL.  Under the invariant \<open>bp_inv\<close> it never arises.
  \<^item> Allocation of tree cells (\<open>dbg_alloc_mem\<close>) is taken to succeed.
\<close>

section \<open>Data\<close>

type_synonym bpkey = "u8 list"

datatype 'r bpnode =
    BPLeaf bpkey "(bpkey \<times> 'r) list"
  | BPInner bpkey "(bpkey \<times> 'r bpnode) list"

datatype 'r crumb = Crumb bpkey "(bpkey \<times> 'r bpnode) list" bpkey "(bpkey \<times> 'r bpnode) list"

record 'r bptree =
  root :: "'r bpnode option"
  header :: "(bpkey \<times> 'r) list"
  tsize :: int

definition MINDEGREE :: nat where "MINDEGREE = 4"

definition MAXDEGREE :: nat where "MAXDEGREE = 8"

definition MAXBPSIZE :: int where "MAXBPSIZE = 600000"

lemmas degree_defs [simp] = MINDEGREE_def MAXDEGREE_def

fun nkey :: "'r bpnode \<Rightarrow> bpkey" where
  "nkey (BPLeaf k vs) = k"
| "nkey (BPInner k ls) = k"

fun pointerNum :: "'r bpnode \<Rightarrow> nat" where
  "pointerNum (BPLeaf k vs) = length vs"
| "pointerNum (BPInner k ls) = length ls"

definition bpcmp :: "bpkey \<Rightarrow> bpkey \<Rightarrow> int" where
  "bpcmp key1 key2 = memcmp key1 key2"

definition bpinit :: "'r bptree" where
  "bpinit = \<lparr>root = None, header = [], tsize = 0\<rparr>"

definition bptreesize :: "'r bptree \<Rightarrow> int" where
  "bptreesize t = tsize t"

text \<open>\<open>bpheight\<close> follows the first link of every node down to a leaf.\<close>

fun bpheight_node :: "'r bpnode \<Rightarrow> nat option" where
  "bpheight_node (BPLeaf k vs) = Some 1"
| "bpheight_node (BPInner k []) = None"
| "bpheight_node (BPInner k ((lk, c) # ls)) = map_option Suc (bpheight_node c)"

definition bpheight :: "'r bptree \<Rightarrow> nat option" where
  "bpheight t = (case root t of None \<Rightarrow> Some 0
     | Some n \<Rightarrow> if header t = [] then Some 0 else bpheight_node n)"

section \<open>Loops over the links of a node\<close>

text \<open>
  \<open>while (bpcmp(pInternal->key, key) < 0) pInternal = pInternal->next;\<close> from
  \<open>interLinkHeader\<close>: the links before the one it stops at, that link, and the links after.
\<close>

fun seek :: "bpkey \<Rightarrow> (bpkey \<times> 'a) list
    \<Rightarrow> ((bpkey \<times> 'a) list \<times> (bpkey \<times> 'a) \<times> (bpkey \<times> 'a) list) option" where
  "seek key [] = None"
| "seek key (l # ls) =
     (if bpcmp (fst l) key < 0
      then (case seek key ls of None \<Rightarrow> None | Some (a, m, b) \<Rightarrow> Some (l # a, m, b))
      else Some ([], l, ls))"

lemma bpcmp_simps [simp]:
  "bpcmp a b < 0 \<longleftrightarrow> a < b" "0 < bpcmp a b \<longleftrightarrow> b < a" "bpcmp a b = 0 \<longleftrightarrow> a = b"
  by (simp_all add: bpcmp_def)

lemma seek_Some:
  "seek key ls = Some (a, m, b) \<Longrightarrow>
     ls = a @ m # b \<and> (\<forall>x \<in> set a. fst x < key) \<and> key \<le> fst m"
  by (induction ls arbitrary: a m b) (fastforce split: if_splits option.splits)+

lemma seek_None: "seek key ls = None \<longleftrightarrow> (\<forall>x \<in> set ls. fst x < key)"
  by (induction ls) (auto split: option.splits)

lemma seek_append:
  "(\<forall>x \<in> set a. fst x < key) \<Longrightarrow> key \<le> fst m \<Longrightarrow> seek key (a @ m # b) = Some (a, m, b)"
  by (induction a) auto

lemma kid_size [termination_simp]:
  "(lk, c) \<in> set ls \<Longrightarrow> size c < size (BPInner k (ls :: (bpkey \<times> 'r bpnode) list))"
  by (induction ls) auto

lemma last_kid_size:
  assumes "ls \<noteq> []"
  shows "size (snd (last ls)) < size (BPInner k (ls :: (bpkey \<times> 'r bpnode) list))"
  using kid_size [of "fst (last ls)" "snd (last ls)" ls k] assms by simp

section \<open>Descending the tree\<close>

text \<open>
  \<open>while (curNode->interLinkHeader->type == 0)\<close> of \<open>_bpsearch\<close> and \<open>_bpdelete\<close>: at every inner
  node go to the first link whose key is not below the search key.
\<close>

function (sequential) descend ::
    "bpkey \<Rightarrow> 'r bpnode \<Rightarrow> 'r crumb list \<Rightarrow> ('r bpnode \<times> 'r crumb list) option" where
  "descend key (BPLeaf k vs) p = Some (BPLeaf k vs, p)"
| "descend key (BPInner k ls) p =
     (case seek key ls of
        None \<Rightarrow> None
      | Some (a, (lk, c), b) \<Rightarrow> descend key c (Crumb k a lk b # p))"
  by pat_completeness auto
termination
  by (relation "measure (\<lambda>(k, n, p). size n)")
    (auto dest!: seek_Some intro: kid_size)

text \<open>The descent of \<open>_bpinsert\<close> stops with "already there" when an inner link has the key.\<close>

datatype 'r ins_pos = AlreadyThere | InsertAt "'r bpnode" "'r crumb list"

function (sequential) ins_descend :: "bpkey \<Rightarrow> 'r bpnode \<Rightarrow> 'r crumb list \<Rightarrow> 'r ins_pos option" where
  "ins_descend key (BPLeaf k vs) p = Some (InsertAt (BPLeaf k vs) p)"
| "ins_descend key (BPInner k ls) p =
     (case seek key ls of
        None \<Rightarrow> None
      | Some (a, (lk, c), b) \<Rightarrow>
          if bpcmp lk key = 0 then Some AlreadyThere
          else ins_descend key c (Crumb k a lk b # p))"
  by pat_completeness auto
termination
  by (relation "measure (\<lambda>(k, n, p). size n)")
    (auto dest!: seek_Some intro: kid_size)

text \<open>
  The descent for a key above the root's: along the last links, writing the new key into
  every node passed and into its last link.
\<close>

function (sequential) rightmost ::
    "bpkey \<Rightarrow> 'r bpnode \<Rightarrow> 'r crumb list \<Rightarrow> ('r bpnode \<times> 'r crumb list) option" where
  "rightmost key (BPLeaf k vs) p = Some (BPLeaf k vs, p)"
| "rightmost key (BPInner k ls) p =
     (if ls = [] then None
      else rightmost key (snd (last ls)) (Crumb key (butlast ls) key [] # p))"
  by pat_completeness auto
termination
  by (relation "measure (\<lambda>(k, n, p). size n)")
    (auto dest: last_kid_size)

section \<open>Splitting and merging\<close>

text \<open>Filling the focus back into its parents gives the whole tree.\<close>

fun rebuild :: "'r bpnode \<Rightarrow> 'r crumb list \<Rightarrow> 'r bpnode" where
  "rebuild n [] = n"
| "rebuild n (Crumb pk ls lk rs # p) = rebuild (BPInner pk (ls @ (lk, n) # rs)) p"

text \<open>
  The two halves \<open>bpsplit\<close> makes of a node with more than \<open>MAXDEGREE\<close> links: \<open>pnode\<close> keeps
  the first \<open>MINDEGREE + 1\<close> links and takes the key of the last of them, \<open>curNode\<close> gets the
  old key and the other links.
\<close>

fun split_node :: "'r bpnode \<Rightarrow> 'r bpnode \<times> 'r bpnode" where
  "split_node (BPLeaf k vs) =
     (BPLeaf (fst (vs ! MINDEGREE)) (take (MINDEGREE + 1) vs),
      BPLeaf k (drop (MINDEGREE + 1) vs))"
| "split_node (BPInner k ls) =
     (BPInner (fst (ls ! MINDEGREE)) (take (MINDEGREE + 1) ls),
      BPInner k (drop (MINDEGREE + 1) ls))"

text \<open>
  \<open>bpsplit\<close>: the new root after splitting the focus, if it has too many links, and then its
  parent.  The link for \<open>pnode\<close> goes before the first parent link whose key is not below
  \<open>pnode\<close>'s new key, and that parent link then points to \<open>curNode\<close>.
\<close>

fun bpsplit :: "'r bpnode \<Rightarrow> 'r crumb list \<Rightarrow> 'r bpnode option" where
  "bpsplit pnode [] =
     (if pointerNum pnode \<le> MAXDEGREE then Some pnode
      else let (p, curNode) = split_node pnode
           in Some (BPInner (nkey curNode) [(nkey p, p), (nkey curNode, curNode)]))"
| "bpsplit pnode (Crumb pk ls lk rs # path) =
     (if pointerNum pnode \<le> MAXDEGREE then Some (rebuild pnode (Crumb pk ls lk rs # path))
      else let (p, curNode) = split_node pnode
           in case seek (nkey p) (ls @ (lk, pnode) # rs) of
                None \<Rightarrow> None
              | Some (a, (k', _), b) \<Rightarrow>
                  bpsplit (BPInner pk (a @ (nkey p, p) # (k', curNode) # b)) path)"

text \<open>
  Joining the links of two brother nodes, left ones first, into the right one's node: the
  node that survives is \<open>pnode\<close> when the left brother is merged in, and the right brother
  when \<open>pnode\<close> is the first child.  Both are of one kind.
\<close>

fun join_nodes :: "'r bpnode \<Rightarrow> 'r bpnode \<Rightarrow> 'r bpnode option" where
  "join_nodes (BPLeaf k1 vs1) (BPLeaf k2 vs2) = Some (BPLeaf k2 (vs1 @ vs2))"
| "join_nodes (BPInner k1 ls1) (BPInner k2 ls2) = Some (BPInner k2 (ls1 @ ls2))"
| "join_nodes _ _ = None"

text \<open>
  \<open>bpmerge\<close>: a focus with fewer than \<open>MINDEGREE\<close> links is joined with its left brother, or
  with its right one if it is the first child; a root left with one link is replaced by the
  joined node; then the joined node is split if it has grown too large, and otherwise the
  parent is merged in turn.
\<close>

fun bpmerge :: "'r bpnode \<Rightarrow> 'r crumb list \<Rightarrow> 'r bpnode option" where
  "bpmerge pnode [] = Some pnode"
| "bpmerge pnode (Crumb pk ls lk rs # path) =
     (if MINDEGREE \<le> pointerNum pnode then Some (rebuild pnode (Crumb pk ls lk rs # path))
      else if ls \<noteq> [] then
        (case join_nodes (snd (last ls)) pnode of
           None \<Rightarrow> None
         | Some n \<Rightarrow>
             if path = [] \<and> butlast ls = [] \<and> rs = [] then bpsplit n []
             else if MAXDEGREE < pointerNum n
             then bpsplit n (Crumb pk (butlast ls) lk rs # path)
             else bpmerge (BPInner pk (butlast ls @ (lk, n) # rs)) path)
      else if rs \<noteq> [] then
        (case join_nodes pnode (snd (hd rs)) of
           None \<Rightarrow> None
         | Some n \<Rightarrow>
             if path = [] \<and> tl rs = [] then bpsplit n []
             else if MAXDEGREE < pointerNum n
             then bpsplit n (Crumb pk [] (fst (hd rs)) (tl rs) # path)
             else bpmerge (BPInner pk ((fst (hd rs), n) # tl rs)) path)
      else None)"

section \<open>The list of values\<close>

text \<open>
  The updates of the doubly linked list: behind a value that becomes the last but one,
  before a value, after a value, and unlinking a value.
\<close>

fun dl_append_last :: "bpkey \<Rightarrow> bpkey \<times> 'r \<Rightarrow> (bpkey \<times> 'r) list \<Rightarrow> (bpkey \<times> 'r) list" where
  "dl_append_last k v [] = []"
| "dl_append_last k v (x # xs) = (if fst x = k then [x, v] else x # dl_append_last k v xs)"

fun dl_insert_before :: "bpkey \<Rightarrow> bpkey \<times> 'r \<Rightarrow> (bpkey \<times> 'r) list \<Rightarrow> (bpkey \<times> 'r) list" where
  "dl_insert_before k v [] = []"
| "dl_insert_before k v (x # xs) =
     (if fst x = k then v # x # xs else x # dl_insert_before k v xs)"

fun dl_insert_after :: "bpkey \<Rightarrow> bpkey \<times> 'r \<Rightarrow> (bpkey \<times> 'r) list \<Rightarrow> (bpkey \<times> 'r) list" where
  "dl_insert_after k v [] = []"
| "dl_insert_after k v (x # xs) =
     (if fst x = k then x # v # xs else x # dl_insert_after k v xs)"

fun dl_unlink :: "bpkey \<Rightarrow> (bpkey \<times> 'r) list \<Rightarrow> (bpkey \<times> 'r) list" where
  "dl_unlink k [] = []"
| "dl_unlink k (x # xs) = (if fst x = k then xs else x # dl_unlink k xs)"

section \<open>Insertion\<close>

text \<open>The first value: one leaf that is the root.\<close>

definition bpinsert_first :: "'r bptree \<Rightarrow> bpkey \<Rightarrow> 'r \<Rightarrow> ('r bptree \<times> int) option" where
  "bpinsert_first t key r =
     Some (t\<lparr>root := Some (BPLeaf key [(key, r)]), header := [(key, r)], tsize := tsize t + 1\<rparr>, 0)"

text \<open>A key above the root's key is appended to the last leaf.\<close>

definition bpinsert_max :: "'r bptree \<Rightarrow> 'r bpnode \<Rightarrow> bpkey \<Rightarrow> 'r \<Rightarrow> ('r bptree \<times> int) option" where
  "bpinsert_max t rt key r =
     (case rightmost key rt [] of
        Some (BPLeaf k vs, p) \<Rightarrow>
          if vs = [] then None
          else (case bpsplit (BPLeaf key (vs @ [(key, r)])) p of
                  None \<Rightarrow> None
                | Some rt' \<Rightarrow>
                    Some (t\<lparr>root := Some rt',
                            header := dl_append_last (fst (last vs)) (key, r) (header t),
                            tsize := tsize t + 1\<rparr>, 0))
      | _ \<Rightarrow> None)"

text \<open>
  Any other key goes before the first leaf link that is not below it; an equal link, in the
  leaf or on the way down, means that the key is there and nothing changes.  The value is
  linked before its successor if the circular predecessor of its link is above it (it became
  the first link of the leaf), and after its predecessor otherwise.
\<close>

definition bpinsert_mid :: "'r bptree \<Rightarrow> 'r bpnode \<Rightarrow> bpkey \<Rightarrow> 'r \<Rightarrow> ('r bptree \<times> int) option" where
  "bpinsert_mid t rt key r =
     (case ins_descend key rt [] of
        Some AlreadyThere \<Rightarrow> Some (t, 0)
      | Some (InsertAt (BPLeaf k vs) p) \<Rightarrow>
          (case seek key vs of
             None \<Rightarrow> None
           | Some (a, m, b) \<Rightarrow>
               if bpcmp (fst m) key = 0 then Some (t, 0)
               else
                 let prev = (if a = [] then last (m # b) else last a);
                     hd' = (if bpcmp (fst prev) key > 0
                            then dl_insert_before (fst m) (key, r) (header t)
                            else dl_insert_after (fst prev) (key, r) (header t))
                 in (case bpsplit (BPLeaf k (a @ (key, r) # m # b)) p of
                       None \<Rightarrow> None
                     | Some rt' \<Rightarrow>
                         Some (t\<lparr>root := Some rt', header := hd', tsize := tsize t + 1\<rparr>, 0)))
      | _ \<Rightarrow> None)"

definition bpinsert_value :: "'r bptree \<Rightarrow> bpkey \<Rightarrow> 'r \<Rightarrow> ('r bptree \<times> int) option" where
  "bpinsert_value t key r =
     (if tsize t = MAXBPSIZE then Some (t, -1)
      else case root t of
             None \<Rightarrow> bpinsert_first t key r
           | Some rt \<Rightarrow>
               if bpcmp key (nkey rt) > 0 then bpinsert_max t rt key r
               else bpinsert_mid t rt key r)"

definition bpinsert :: "'r bptree \<Rightarrow> bpkey \<Rightarrow> 'r \<Rightarrow> ('r bptree \<times> int) option" where
  "bpinsert t addr record = bpinsert_value t addr record"

section \<open>Search\<close>

definition bpsearch_value :: "'r bptree \<Rightarrow> bpkey \<Rightarrow> (bpkey \<times> 'r) option option" where
  "bpsearch_value t key =
     (case root t of
        None \<Rightarrow> Some None
      | Some rt \<Rightarrow>
          if header t = [] then Some None
          else if bpcmp key (nkey rt) > 0 then Some None
          else (case descend key rt [] of
                  Some (BPLeaf k vs, p) \<Rightarrow>
                    (case seek key vs of
                       None \<Rightarrow> None
                     | Some (a, m, b) \<Rightarrow>
                         if bpcmp (fst m) key = 0 then Some (Some m) else Some None)
                | _ \<Rightarrow> None))"

definition bpsearch :: "'r bptree \<Rightarrow> bpkey \<Rightarrow> 'r option option" where
  "bpsearch t addr = map_option (map_option snd) (bpsearch_value t addr)"

section \<open>Deletion\<close>

text \<open>
  Writing a new key over the first link with a given key, and the climb that replaces the
  deleted largest key of a leaf in its ancestors: while the ancestor's own key is the
  deleted one, its key and its last link's key change; the first ancestor with another key
  has it as the key of one link.
\<close>

fun rekey :: "bpkey \<Rightarrow> bpkey \<Rightarrow> (bpkey \<times> 'a) list \<Rightarrow> (bpkey \<times> 'a) list option" where
  "rekey key newKey [] = None"
| "rekey key newKey (l # ls) =
     (if bpcmp (fst l) key = 0 then Some ((newKey, snd l) # ls)
      else map_option (Cons l) (rekey key newKey ls))"

definition rekey_last :: "bpkey \<Rightarrow> (bpkey \<times> 'a) list \<Rightarrow> (bpkey \<times> 'a) list" where
  "rekey_last newKey ls = butlast ls @ [(newKey, snd (last ls))]"

fun fix_keys :: "bpkey \<Rightarrow> bpkey \<Rightarrow> 'r crumb list \<Rightarrow> 'r crumb list option" where
  "fix_keys key newKey [] = Some []"
| "fix_keys key newKey (Crumb pk ls lk rs # p) =
     (if bpcmp pk key = 0
      then map_option
             (Cons (if rs = [] then Crumb newKey ls newKey rs
                    else Crumb newKey ls lk (rekey_last newKey rs)))
             (fix_keys key newKey p)
      else case rekey key newKey ls of
             Some ls' \<Rightarrow> Some (Crumb pk ls' lk rs # p)
           | None \<Rightarrow>
               if bpcmp lk key = 0 then Some (Crumb pk ls newKey rs # p)
               else map_option (\<lambda>rs'. Crumb pk ls lk rs' # p) (rekey key newKey rs))"

text \<open>The key is the leaf's own key: its last link goes.\<close>

definition bpdelete_last :: "'r bptree \<Rightarrow> bpkey \<Rightarrow> bpkey \<times> 'r \<Rightarrow> (bpkey \<times> 'r) list
    \<Rightarrow> 'r crumb list \<Rightarrow> ('r bptree \<times> (bpkey \<times> 'r) option) option" where
  "bpdelete_last t key v vs p =
     (if vs = [] then None
      else let newKey = fst (last vs);
               t' = t\<lparr>header := dl_unlink (fst v) (header t), tsize := tsize t - 1\<rparr>
           in if p = [] then Some (t'\<lparr>root := Some (BPLeaf newKey vs)\<rparr>, Some v)
              else (case fix_keys key newKey p of
                      None \<Rightarrow> None
                    | Some p' \<Rightarrow>
                        map_option (\<lambda>rt. (t'\<lparr>root := Some rt\<rparr>, Some v))
                          (bpmerge (BPLeaf newKey vs) p')))"

definition bpdelete_mid :: "'r bptree \<Rightarrow> bpkey \<Rightarrow> bpkey \<Rightarrow> (bpkey \<times> 'r) list
    \<Rightarrow> 'r crumb list \<Rightarrow> ('r bptree \<times> (bpkey \<times> 'r) option) option" where
  "bpdelete_mid t key k vs p =
     (case seek key vs of
        None \<Rightarrow> None
      | Some (a, v, b) \<Rightarrow>
          if bpcmp (fst v) key = 0
          then map_option
                 (\<lambda>rt. (t\<lparr>root := Some rt, header := dl_unlink (fst v) (header t),
                          tsize := tsize t - 1\<rparr>, Some v))
                 (bpmerge (BPLeaf k (a @ b)) p)
          else Some (t, None))"

definition bpdelete_value :: "'r bptree \<Rightarrow> bpkey \<Rightarrow> ('r bptree \<times> (bpkey \<times> 'r) option) option" where
  "bpdelete_value t key =
     (case root t of
        None \<Rightarrow> Some (t, None)
      | Some rt \<Rightarrow>
          if header t = [] then Some (t, None)
          else if bpcmp key (nkey rt) > 0 then Some (t, None)
          else (case descend key rt [] of
                  Some (BPLeaf k vs, p) \<Rightarrow>
                    if vs = [] then None
                    else if p = [] \<and> length vs = 1
                    then (if bpcmp k key \<noteq> 0 then Some (t, None)
                          else Some (t\<lparr>root := None, header := [], tsize := 0\<rparr>, Some (hd vs)))
                    else if bpcmp k key = 0 then bpdelete_last t key (last vs) (butlast vs) p
                    else bpdelete_mid t key k vs p
                | _ \<Rightarrow> None))"

definition bpdelete :: "'r bptree \<Rightarrow> bpkey \<Rightarrow> ('r bptree \<times> 'r option) option" where
  "bpdelete t addr = map_option (\<lambda>(t', v). (t', map_option snd v)) (bpdelete_value t addr)"

section \<open>Traversal\<close>

text \<open>
  \<open>bptraverse\<close> reads \<open>next\<close> before it runs the callback on a value's record, so it visits the
  values the list held at the start, in order, even when the callback unlinks the value it
  is called on.  The callback is a function on the caller's state.
\<close>

fun traverse_from :: "('s \<Rightarrow> 'r \<Rightarrow> 's option) \<Rightarrow> (bpkey \<times> 'r) list \<Rightarrow> 's \<Rightarrow> 's option" where
  "traverse_from pfunc [] s = Some s"
| "traverse_from pfunc (v # vs) s =
     Option.bind (pfunc s (snd v)) (traverse_from pfunc vs)"

definition bptraverse :: "'r bptree \<Rightarrow> ('s \<Rightarrow> 'r \<Rightarrow> 's option) \<Rightarrow> 's \<Rightarrow> 's option" where
  "bptraverse up pfunc s =
     (if root up = None \<or> header up = [] then Some s
      else traverse_from pfunc (header up) s)"

end
