(* ===== verification/KernelData.thy ===== *)
theory KernelData
  imports BPlus
begin

text \<open>
  The data of the kernel module: the tunnel table entry and its two search keys
  (\<open>include/packet.h\<close>), the storage context (\<open>include/storage.h\<close>), the global context
  (\<open>include/global.h\<close>), the netlink messages (\<open>include/netlinkmsgdef.h\<close>) and the state the
  handlers work on.

  Tunnels live in an explicit memory \<open>tun_mem\<close>, a map from addresses to \<open>TUNNEL_CTX\<close>: the v4
  and the v6 tree hold the same address, and handlers write through it.  \<open>None\<close> as the
  result of a handler is a run that does not return or reads freed memory.
\<close>

section \<open>Tunnels and their keys\<close>

record TUNNEL_CTX =
  usStartPort :: u16
  usEndPort :: u16
  uiExtIP :: u32
  ucCltIPv6 :: "u8 list"
  ulLiveTime :: ulong

text \<open>The packed key structures as the bytes the trees compare.\<close>

definition KEY_V4 :: "u32 \<Rightarrow> u16 \<Rightarrow> bpkey" where
  "KEY_V4 uiExtip usPort = le32 uiExtip @ le16 usPort"

definition KEY_V6 :: "u8 list \<Rightarrow> bpkey" where
  "KEY_V6 ip6 = ip6"

lemma KEY_V4_inj [simp]: "KEY_V4 a p = KEY_V4 b q \<longleftrightarrow> a = b \<and> p = q"
  by (auto simp: KEY_V4_def append_eq_append_conv)

lemma KEY_V6_inj [simp]: "KEY_V6 a = KEY_V6 b \<longleftrightarrow> a = b"
  by (simp add: KEY_V6_def)

definition START_PORT :: nat where "START_PORT = 1024"

section \<open>Storage and global context\<close>

datatype ELEMENT_TYPE = ELEMENT_4 | ELEMENT_6

type_synonym addr = nat

type_synonym STORAGE_CTX = "ELEMENT_TYPE \<Rightarrow> addr bptree"

record GLOBAL_CTX =
  uiVersion :: u32
  StorageTimer :: "u32 option" \<comment> \<open>the period it is armed with, in seconds\<close>
  ucTcIPv6 :: "u8 list"
  usMtu :: u16
  uiExtBeginIP :: u32
  uiExtEndIP :: u32
  uiTunState :: u32
  usPortRange :: u16
  uiOtherExtBeginIP :: u32
  uiOtherExtEndIP :: u32
  uiMaxLifeTime :: u32

section \<open>Netlink messages\<close>

datatype NETLINK_MSG_DEF =
    NETLINK_RESULT | NETLINK_DELETE_NODE | NETLINK_ALLOC_ADDR | NETLINK_DETECT_MSG
  | NETLINK_UPDATE_MSG | NETLINK_INIT_CONFIG | NETLINK_CRASH_MSG | NETLINK_TC_STATE
  | NETLINK_UNINIT_CONFIG | NETLINK_ICMP_ERR_MSG | NETLINK_TC_USER_INFO | NETLINK_TC_USER_TOTAL

record NETLINK_MSG_INIT =
  ucResult :: u8
  cli_addr :: "u8 list"
  lefttime :: ulong

record NETLINK_MSG_TUNCONFIG =
  user_addr :: "u8 list"
  public_ip :: u32
  start_port :: u16
  end_port :: u16
  tun_lefttime :: ulong

record NETLINK_MSG_TCCONFIG =
  uiversion :: u32
  usmtu :: u16
  tc_addr :: "u8 list"
  uibeginIP :: u32
  uiEndIP :: u32
  cfg_uiTunState :: u32
  cfg_usPortRange :: u16
  uiOtherBeginIP :: u32
  uiOtherEndIP :: u32
  cfg_uiMaxLifeTime :: u32

text \<open>
  A message is its header \<open>msgdef\<close> and the structure its sender filled: \<open>TotalMsg\<close> carries a
  count, \<open>UserInfoMsg\<close> a \<open>msglen\<close> and the entries of \<open>user\<close> within the length sent, \<open>RawMsg\<close>
  is a buffer sent as it is.
\<close>

datatype netlink_msg =
    InitMsg NETLINK_MSG_DEF NETLINK_MSG_INIT
  | TunMsg NETLINK_MSG_DEF NETLINK_MSG_TUNCONFIG
  | ConfigMsg NETLINK_MSG_DEF NETLINK_MSG_TCCONFIG
  | PktMsg NETLINK_MSG_DEF "u8 list"
  | HdrMsg NETLINK_MSG_DEF
  | TotalMsg NETLINK_MSG_DEF int
  | UserInfoMsg NETLINK_MSG_DEF int "TUNNEL_CTX list"
  | RawMsg "u8 list"

fun msgdef :: "netlink_msg \<Rightarrow> NETLINK_MSG_DEF option" where
  "msgdef (InitMsg d _) = Some d"
| "msgdef (TunMsg d _) = Some d"
| "msgdef (ConfigMsg d _) = Some d"
| "msgdef (PktMsg d _) = Some d"
| "msgdef (HdrMsg d) = Some d"
| "msgdef (TotalMsg d _) = Some d"
| "msgdef (UserInfoMsg d _ _) = Some d"
| "msgdef (RawMsg _) = None"

datatype nl_channel = NL_TEST | NL_ASYNC | NL_USER_INFO

section \<open>State\<close>

record kstate =
  tun_mem :: "addr \<rightharpoonup> TUNNEL_CTX"
  pStroageCtx :: STORAGE_CTX
  GlobalCtx :: GLOBAL_CTX
  nl_sent :: "(nl_channel \<times> netlink_msg) list" \<comment> \<open>messages handed to the sockets, oldest first\<close>

abbreviation tree4 :: "kstate \<Rightarrow> addr bptree" where
  "tree4 s \<equiv> pStroageCtx s ELEMENT_4"

abbreviation tree6 :: "kstate \<Rightarrow> addr bptree" where
  "tree6 s \<equiv> pStroageCtx s ELEMENT_6"

definition send :: "nl_channel \<Rightarrow> netlink_msg \<Rightarrow> kstate \<Rightarrow> kstate" where
  "send ch m s = s\<lparr>nl_sent := nl_sent s @ [(ch, m)]\<rparr>"

text \<open>\<open>send_nlmsg\<close>, \<open>send_async_nlmsg\<close> and \<open>send_tc_info_nlmsg\<close>.\<close>

definition send_nlmsg :: "netlink_msg \<Rightarrow> kstate \<Rightarrow> kstate" where
  "send_nlmsg m s = send NL_TEST m s"

definition send_async_nlmsg :: "netlink_msg \<Rightarrow> kstate \<Rightarrow> kstate" where
  "send_async_nlmsg m s = send NL_ASYNC m s"

definition send_tc_info_nlmsg :: "netlink_msg \<Rightarrow> kstate \<Rightarrow> kstate" where
  "send_tc_info_nlmsg m s = send NL_USER_INFO m s"

lemmas send_defs = send_def send_nlmsg_def send_async_nlmsg_def send_tc_info_nlmsg_def

section \<open>The storage timer\<close>

text \<open>
  \<open>add_timer\<close> of the kernel stops the machine when the timer is already pending (\<open>None\<close>);
  \<open>del_timer\<close> of a timer that is not pending does nothing.
\<close>

definition add_timer :: "u32 \<Rightarrow> kstate \<Rightarrow> kstate option" where
  "add_timer period s =
     (if StorageTimer (GlobalCtx s) \<noteq> None then None
      else Some (s\<lparr>GlobalCtx := (GlobalCtx s)\<lparr>StorageTimer := Some period\<rparr>\<rparr>))"

definition del_timer :: "kstate \<Rightarrow> kstate" where
  "del_timer s = s\<lparr>GlobalCtx := (GlobalCtx s)\<lparr>StorageTimer := None\<rparr>\<rparr>"

section \<open>Message constructors (\<open>nlmessage.c\<close>)\<close>

text \<open>
  The constructors fill a zeroed buffer: \<open>ConstructTunMsg\<close> leaves \<open>lefttime\<close> 0.
\<close>

definition ConstructIntMsg ::
    "u8 list \<Rightarrow> NETLINK_MSG_DEF \<Rightarrow> u8 \<Rightarrow> ulong \<Rightarrow> netlink_msg" where
  "ConstructIntMsg cliIpv6Addr type result lt =
     InitMsg type \<lparr>ucResult = result, cli_addr = cliIpv6Addr, lefttime = lt\<rparr>"

definition ConstructTunMsg ::
    "u8 list \<Rightarrow> NETLINK_MSG_DEF \<Rightarrow> u32 \<Rightarrow> u16 \<Rightarrow> u16 \<Rightarrow> netlink_msg" where
  "ConstructTunMsg cliIpv6Addr type ip sport eport =
     TunMsg type \<lparr>user_addr = cliIpv6Addr, public_ip = ip, start_port = sport, end_port = eport,
                  tun_lefttime = 0\<rparr>"

text \<open>The packet messages carry a prefix of the packet.\<close>

definition ConstructCrashPktMsg :: "u8 list \<Rightarrow> netlink_msg" where
  "ConstructCrashPktMsg skb =
     (let l = (if length skb > 68 then 68 else length skb)
      in PktMsg NETLINK_CRASH_MSG (take l skb))"

definition ConstructIcmpErrMsg :: "u8 list \<Rightarrow> netlink_msg" where
  "ConstructIcmpErrMsg skb =
     (let l = (if length skb > 28 then 28 else length skb)
      in PktMsg NETLINK_ICMP_ERR_MSG (take l skb))"

end
