(* ===== verification/Frag.thy ===== *)
theory Frag
  imports Bytes KernelData
begin

text \<open>
  Fragmentation: the sizing rule that \<open>IPv4FragandIPinIP\<close> (\<open>src/packet.c\<close>) and
  \<open>pkt_fraghandle\<close> (\<open>src/defrag6.c\<close>) share, the IPv6 fragments of the first and the IPv4
  fragments of the second, and the reading of a fragment header.
\<close>

unbundle bit_operations_syntax

section \<open>Socket buffers\<close>

text \<open>
  A buffer is its Ethernet header and the packet from the network header on.  The bytes of a
  fresh buffer are those its owner copies in.
\<close>

record skbuff =
  h_dest :: "u8 list"
  h_source :: "u8 list"
  h_proto :: u16
  skb_data :: "u8 list"
  skb_nonlinear :: bool

definition ETH_P_IP :: u16 where "ETH_P_IP = 0x0800"
definition ETH_P_IPV6 :: u16 where "ETH_P_IPV6 = 0x86DD"

definition fragsk_bufalloc :: "bool \<Rightarrow> u8 list \<Rightarrow> u16 \<Rightarrow> u8 list \<Rightarrow> skbuff option" where
  "fragsk_bufalloc mem_ok mac usProtocol content =
     (if mem_ok then Some \<lparr>h_dest = replicate 6 0, h_source = mac, h_proto = usProtocol,
                           skb_data = content, skb_nonlinear = False\<rparr>
      else None)"

section \<open>Sizes\<close>

text \<open>\<open>unsigned int\<close> subtraction, and the mask \<open>& ~7\<close>.\<close>

definition sub32 :: "nat \<Rightarrow> nat \<Rightarrow> nat" where
  "sub32 a b = (a + 2 ^ 32 - b) mod 2 ^ 32"

definition align8 :: "nat \<Rightarrow> nat" where
  "align8 x = x - x mod 8"

text \<open>
  \<open>flen0\<close>, the size of the first fragment, and \<open>fleno\<close>, of the ones in the middle.  \<open>None\<close> is a
  division by zero.
\<close>

definition frag_sizes :: "nat \<Rightarrow> nat \<Rightarrow> nat \<Rightarrow> (nat \<times> nat) option" where
  "frag_sizes hdr mtu len =
     (let fmtu = align8 (sub32 mtu hdr) in
      if fmtu = 0 then None
      else let nfrag = len div fmtu + (if len mod fmtu \<noteq> 0 then 1 else 0) in
      if nfrag = 0 then None
      else let fleno = align8 (len div nfrag);
               flen0 = align8 (sub32 len (fleno * (nfrag - 1)) + 7);
               (flen0, fleno) =
                 (if flen0 > fmtu
                  then (align8 (sub32 len ((fleno + 8) * (nfrag - 1)) + 7), fleno + 8)
                  else (flen0, fleno));
               flen0 = (if flen0 < fleno then fleno else flen0)
           in Some (flen0, fleno))"

text \<open>The loop over the packet: the offset and size of each fragment.\<close>

definition frag_len :: "nat \<Rightarrow> nat \<Rightarrow> nat \<Rightarrow> nat \<Rightarrow> nat \<Rightarrow> nat \<Rightarrow> nat" where
  "frag_len hdr mtu len flen0 fleno off =
     (if len - off > sub32 mtu hdr then (if off = 0 then flen0 else fleno) else len - off)"

partial_function (option) frag_loop ::
    "nat \<Rightarrow> nat \<Rightarrow> nat \<Rightarrow> nat \<Rightarrow> nat \<Rightarrow> nat \<Rightarrow> (nat \<times> nat) list option" where
  [code]: "frag_loop hdr mtu len flen0 fleno off =
     (if off < len
      then do { let flen = frag_len hdr mtu len flen0 fleno off;
                fs \<leftarrow> frag_loop hdr mtu len flen0 fleno (off + flen);
                Some ((off, flen) # fs) }
      else Some [])"

definition frag_plan :: "nat \<Rightarrow> nat \<Rightarrow> nat \<Rightarrow> (nat \<times> nat) list option" where
  "frag_plan hdr mtu len =
     do { (flen0, fleno) \<leftarrow> frag_sizes hdr mtu len;
          frag_loop hdr mtu len flen0 fleno 0 }"

text \<open>
  The sizes are right: with room for 8 bytes after the header, both are positive multiples of 8
  that fit, whenever the packet does not fit whole.
\<close>

lemma align8_le: "align8 x \<le> x" and align8_dvd: "8 dvd align8 x"
  and align8_gt: "x < align8 x + 8" and align8_id: "8 dvd x \<Longrightarrow> align8 x = x"
  by (auto simp: align8_def minus_mod_eq_mult_div)

lemma align8_up: "x \<le> align8 (x + 7)" "align8 (x + 7) < x + 8"
  by (auto simp: align8_def)

lemma align8_up_le: "x \<le> y \<Longrightarrow> 8 dvd y \<Longrightarrow> align8 (x + 7) \<le> y"
  unfolding align8_def by presburger

lemma sub32_eq: "b \<le> a \<Longrightarrow> a < 2 ^ 32 \<Longrightarrow> sub32 a b = a - b"
proof -
  assume "b \<le> a" "a < 2 ^ 32"
  then have "a + 2 ^ 32 - b = (a - b) + 2 ^ 32" "a - b < 2 ^ 32" by simp_all
  then show ?thesis by (simp only: sub32_def mod_add_self2 mod_less)
qed

lemma frag_sizes_eq:
  assumes "fmtu = align8 (sub32 mtu hdr)" "fmtu \<noteq> 0"
    "n = len div fmtu + (if len mod fmtu \<noteq> 0 then 1 else 0)" "n \<noteq> 0"
    "a = align8 (len div n)" "b = align8 (sub32 len (a * (n - 1)) + 7)"
    "c = align8 (sub32 len ((a + 8) * (n - 1)) + 7)"
  shows "frag_sizes hdr mtu len =
    Some (if b > fmtu then (if c < a + 8 then a + 8 else c, a + 8) else (if b < a then a else b, a))"
proof -
  have "n = 0 \<longleftrightarrow> False" "fmtu = 0 \<longleftrightarrow> False" using assms(2,4) by simp_all
  then show ?thesis
    unfolding frag_sizes_def Let_def assms(1) [symmetric] assms(3) [symmetric] assms(5) [symmetric]
      assms(6) [symmetric] assms(7) [symmetric] by simp
qed

lemma frag_sizes_ok:
  assumes "hdr + 8 \<le> mtu" "mtu < 2 ^ 16" "mtu - hdr < len" "len < 2 ^ 32"
  obtains flen0 fleno where "frag_sizes hdr mtu len = Some (flen0, fleno)"
    "0 < fleno" "8 dvd fleno" "fleno \<le> mtu - hdr"
    "0 < flen0" "8 dvd flen0" "flen0 \<le> mtu - hdr"
proof -
  define fmtu where "fmtu = align8 (mtu - hdr)"
  have s: "sub32 mtu hdr = mtu - hdr" using assms by (simp add: sub32_eq)
  have fm: "8 \<le> fmtu" "8 dvd fmtu" "fmtu \<le> mtu - hdr"
    using assms(1) align8_gt [of "mtu - hdr"] align8_dvd [of "mtu - hdr"] align8_le
    by (auto simp: fmtu_def elim!: dvdE)
  define n where "n = len div fmtu + (if len mod fmtu \<noteq> 0 then 1 else 0)"
  define q r where "q = len div fmtu" and "r = len mod fmtu"
  have dm: "len = q * fmtu + r" by (simp add: q_def r_def)
  have lt: "r < fmtu" using fm by (simp add: r_def)
  have nq: "n = q + (if r \<noteq> 0 then 1 else 0)" by (simp add: n_def q_def r_def)
  have up: "len \<le> n * fmtu" using dm lt by (auto simp: nq)
  have low: "(n - 1) * fmtu < len"
  proof (cases "r = 0")
    case True
    then have "len = n * fmtu" using dm by (simp add: nq)
    moreover have "0 < n" using calculation assms(3) by (cases n) auto
    ultimately show ?thesis using fm by (cases n) auto
  next
    case False
    then show ?thesis using dm by (simp add: nq)
  qed
  have n2: "0 < n" using up assms(3) by (cases n) auto
  define a where "a = align8 (len div n)"
  have a: "8 dvd a" "a \<le> len div n" "len div n < a + 8"
    using align8_dvd align8_le align8_gt by (auto simp: a_def)
  have lenn: "len div n * n \<le> len" "len < (len div n + 1) * n"
    using n2 by (auto simp: algebra_simps) (metis dividend_less_times_div mult.commute)
  have an: "a * (n - 1) \<le> len"
    by (rule order_trans [OF _ lenn(1)]) (intro mult_mono a(2), simp_all)
  have afm: "a \<le> fmtu"
  proof -
    have "len div n \<le> fmtu" using up n2 by (metis div_le_mono nonzero_mult_div_cancel_left mult.commute less_numeral_extra(3))
    then show ?thesis using a(2) by simp
  qed
  define b where "b = align8 (len - a * (n - 1) + 7)"
  have fne: "fmtu = align8 (sub32 mtu hdr)" "fmtu \<noteq> 0" "n \<noteq> 0" using fm n2 by (simp_all add: fmtu_def s)
  note eq = frag_sizes_eq [OF fne(1,2) n_def fne(3) a_def]
  show ?thesis
  proof (cases "b > fmtu")
    case False
    have "0 < a"
    proof (rule ccontr)
      assume "\<not> 0 < a"
      then have "len \<le> b" using align8_up(1) [of len] by (simp add: b_def)
      then show False using False fm(3) assms(3) by simp
    qed
    moreover have "frag_sizes hdr mtu len = Some (if b < a then a else b, a)"
      using False an assms(4) eq [OF refl refl] by (simp add: sub32_eq b_def)
    moreover have "8 dvd b" by (simp add: b_def align8_dvd)
    ultimately show ?thesis using that a(1) afm fm False by (auto split: if_splits)
  next
    case True
    have "a \<noteq> fmtu"
    proof
      assume "a = fmtu"
      then have "len - a * (n - 1) \<le> fmtu" using up n2 by (cases n) (auto simp: algebra_simps)
      then have "b \<le> fmtu" using align8_up_le fm(2) by (simp add: b_def)
      then show False using True by simp
    qed
    then have a8: "a + 8 \<le> fmtu" using afm a(1) fm(2) by (auto elim!: dvdE)
    have an8: "(a + 8) * (n - 1) \<le> len"
    proof -
      have "(a + 8) * (n - 1) \<le> fmtu * (n - 1)" using a8 by (rule mult_le_mono1)
      also have "\<dots> \<le> len" using low by (simp only: mult.commute less_imp_le)
      finally show ?thesis .
    qed
    have rest: "len - (a + 8) * (n - 1) \<le> a + 8"
    proof -
      have "len < (a + 8) * n" 
        using lenn(2) a(3) mult_right_mono [of "len div n + 1" "a + 8" n] by simp
      also have "(a + 8) * n = (a + 8) * (n - 1) + (a + 8)" using n2 by (cases n) auto
      finally show ?thesis by simp
    qed
    define c where "c = align8 (len - (a + 8) * (n - 1) + 7)"
    have c: "c \<le> a + 8" using rest a(1) by (auto simp: c_def intro!: align8_up_le)
    have "frag_sizes hdr mtu len = Some (if c < a + 8 then a + 8 else c, a + 8)"
      using True an an8 assms(4) eq [OF refl refl] by (simp add: sub32_eq b_def c_def)
    then show ?thesis using that [of "a + 8" "a + 8"] a8 fm(3) a(1) c by (auto split: if_splits)
  qed
qed

text \<open>A plan: consecutive pieces that cover the packet, all but the last a multiple of 8.\<close>

fun plan_from :: "nat \<Rightarrow> nat \<Rightarrow> nat \<Rightarrow> (nat \<times> nat) list \<Rightarrow> bool" where
  "plan_from cap len off [] = (off = len)"
| "plan_from cap len off ((o', l) # fs) =
     (o' = off \<and> 0 < l \<and> l \<le> cap \<and> off + l \<le> len \<and> (off + l < len \<longrightarrow> 8 dvd l)
       \<and> plan_from cap len (off + l) fs)"

lemma frag_loop_ok:
  assumes "sub32 mtu hdr = cap" "0 < fleno" "8 dvd fleno" "fleno \<le> cap" "0 < flen0" "8 dvd flen0" "flen0 \<le> cap"
  shows "off \<le> len \<Longrightarrow> \<exists>fs. frag_loop hdr mtu len flen0 fleno off = Some fs \<and> plan_from cap len off fs"
proof (induction "len - off" arbitrary: off rule: less_induct)
  case less
  show ?case
  proof (cases "off < len")
    case False
    then show ?thesis using less.prems by (subst frag_loop.simps) simp
  next
    case True
    define l where "l = frag_len hdr mtu len flen0 fleno off"
    have l: "0 < l" "l \<le> cap" "off + l \<le> len" "off + l < len \<longrightarrow> 8 dvd l"
      using True assms by (auto simp: l_def frag_len_def)
    obtain fs where fs: "frag_loop hdr mtu len flen0 fleno (off + l) = Some fs" "plan_from cap len (off + l) fs"
      using less.hyps [of "off + l"] l(1,3) True by (metis diff_less_mono2 less_add_same_cancel1)
    have "frag_loop hdr mtu len flen0 fleno off = Some ((off, l) # fs)"
      using True fs(1) by (subst frag_loop.simps) (simp add: l_def [symmetric])
    then show ?thesis using fs(2) l by auto
  qed
qed

lemma frag_plan_ok:
  assumes "hdr + 8 \<le> mtu" "mtu < 2 ^ 16" "mtu - hdr < len" "len < 2 ^ 32"
  obtains fs where "frag_plan hdr mtu len = Some fs" "plan_from (mtu - hdr) len 0 fs"
proof -
  obtain flen0 fleno where f: "frag_sizes hdr mtu len = Some (flen0, fleno)"
    "0 < fleno" "8 dvd fleno" "fleno \<le> mtu - hdr" "0 < flen0" "8 dvd flen0" "flen0 \<le> mtu - hdr"
    by (rule frag_sizes_ok [OF assms])
  have s: "sub32 mtu hdr = mtu - hdr" using assms by (simp add: sub32_eq)
  show ?thesis
    using frag_loop_ok [OF s f(2-7), of 0 len] f(1) that by (auto simp: frag_plan_def)
qed

lemma plan_from_mem:
  assumes "plan_from cap len off fs" "8 dvd off" "(o', l) \<in> set fs"
  shows "8 dvd o' \<and> 0 < l \<and> l \<le> cap \<and> o' + l \<le> len \<and> off \<le> o'"
  using assms
proof (induction cap len off fs rule: plan_from.induct)
  case (2 cap len off o2 l2 fs)
  show ?case
  proof (cases "(o', l) = (o2, l2)")
    case False
    then have m: "(o', l) \<in> set fs" using 2 by auto
    then have "off + l2 < len" using 2(2) by (cases fs) auto
    then show ?thesis using 2 m by (auto simp: dvd_add)
  qed (use 2 in auto)
qed simp

lemma plan_from_dvd:
  "plan_from cap len off fs \<Longrightarrow> (o', l) \<in> set fs \<Longrightarrow> o' + l < len \<Longrightarrow> 8 dvd l"
  by (induction cap len off fs rule: plan_from.induct) auto

lemma plan_from_concat:
  "plan_from cap len off fs \<Longrightarrow> len \<le> length d \<Longrightarrow>
    concat (map (\<lambda>(o', l). take l (drop o' d)) fs) = drop off (take len d)"
proof (induction cap len off fs rule: plan_from.induct)
  case (2 cap len off o' l fs)
  have "take l (drop off d) @ drop (off + l) (take len d) = drop off (take len d)"
  proof -
    have "take l (drop off d) = take l (drop off (take len d))"
      using 2(2) by (auto simp: drop_take min_def)
    moreover have "drop (off + l) (take len d) = drop l (drop off (take len d))"
      by (simp add: drop_drop add.commute)
    ultimately show ?thesis by (metis append_take_drop_id)
  qed
  with 2 show ?case by simp
qed simp

section \<open>IPv6 fragments\<close>

definition IPINIP :: u8 where "IPINIP = 0x04"
definition NEXTHDR_FRAGMENT :: u8 where "NEXTHDR_FRAGMENT = 0x2c"

text \<open>
  The fields the code sets in a fresh IPv6 header: version 6, priority and flow label 0, hop
  limit 64.
\<close>

definition ipv6_header :: "u16 \<Rightarrow> u8 \<Rightarrow> u8 list \<Rightarrow> u8 list \<Rightarrow> u8 list" where
  "ipv6_header payload_len nexthdr saddr daddr =
     [0x60, 0, 0, 0] @ be16 payload_len @ [nexthdr, 64] @ saddr @ daddr"

text \<open>
  The loop body sends one fragment, if its buffer can be allocated; \<open>mem_ok k\<close> says so of the
  \<open>k\<close>-th.  The packet is built before the next buffer is asked for.
\<close>

fun send_frags :: "(nat \<Rightarrow> bool) \<Rightarrow> (nat \<times> nat \<Rightarrow> u8 list option) \<Rightarrow> u8 list \<Rightarrow> u16 \<Rightarrow> nat \<Rightarrow>
    (nat \<times> nat) list \<Rightarrow> (skbuff list \<times> bool) option" where
  "send_frags mem_ok mk mac proto k [] = Some ([], True)"
| "send_frags mem_ok mk mac proto k (f # fs) =
     (if \<not> mem_ok k then Some ([], False)
      else do { content \<leftarrow> mk f;
                sdbuf \<leftarrow> fragsk_bufalloc (mem_ok k) mac proto content;
                (out, fin) \<leftarrow> send_frags mem_ok mk mac proto (Suc k) fs;
                Some (sdbuf # out, fin) })"

text \<open>
  \<open>uiId\<close> is the IPv4 identification field as it lies in memory, read by a little-endian host;
  \<open>htonl\<close> then stores its bytes in the opposite order.
\<close>

definition frag6_packet :: "GLOBAL_CTX \<Rightarrow> u8 list \<Rightarrow> u8 list \<Rightarrow> u8 list \<Rightarrow> nat \<times> nat \<Rightarrow> u8 list option" where
  "frag6_packet g ucDestIPv6 ident pkt f =
     (let (off, flen) = f; len = length pkt in
      do { payload \<leftarrow> getn pkt off flen;
           Some (ipv6_header (word_of_nat (flen + 8)) NEXTHDR_FRAGMENT (ucTcIPv6 g) ucDestIPv6
             @ [IPINIP, 0]
             @ be16 (if flen + off < len then word_of_nat off OR 1 else word_of_nat off)
             @ ident @ payload) })"

definition IPv4FragandIPinIP ::
    "(nat \<Rightarrow> bool) \<Rightarrow> GLOBAL_CTX \<Rightarrow> skbuff \<Rightarrow> u8 list \<Rightarrow> (skbuff list \<times> int) option" where
  "IPv4FragandIPinIP mem_ok g skb ucDestIPv6 =
     do { let pkt = skb_data skb;
          b4 \<leftarrow> get8 pkt 4;
          b5 \<leftarrow> get8 pkt 5;
          let ident = [0, 0, b5, b4];
          fs \<leftarrow> frag_plan 48 (unat (usMtu g)) (length pkt);
          (out, fin) \<leftarrow> send_frags mem_ok (frag6_packet g ucDestIPv6 ident pkt) (h_dest skb)
                          ETH_P_IPV6 0 fs;
          Some (out, if fin then 1 else -1) }"

text \<open>\<open>linear\<close> is whether the buffer could be made linear.\<close>

definition IPv4FragandIPinIPExtend ::
    "bool \<Rightarrow> (nat \<Rightarrow> bool) \<Rightarrow> GLOBAL_CTX \<Rightarrow> skbuff \<Rightarrow> u8 list \<Rightarrow> (skbuff list \<times> int) option" where
  "IPv4FragandIPinIPExtend linear mem_ok g skb ucDestIPv6 =
     (if \<not> linear then Some ([], -1)
      else IPv4FragandIPinIP mem_ok g (skb\<lparr>skb_nonlinear := False\<rparr>) ucDestIPv6)"

text \<open>Reading a fragment: \<open>FRAG_OFFSET\<close> is \<open>0xfffe\<close>, \<open>FRAG_MORE\<close> is 1.\<close>

definition FRAG_OFFSET :: u16 where "FRAG_OFFSET = 0xfffe"
definition FRAG_MORE :: u16 where "FRAG_MORE = 1"

definition IsFragIPinIP :: "u8 list \<Rightarrow> int option" where
  "IsFragIPinIP pkt =
     do { nexthdr \<leftarrow> get8 pkt 40;
          Some (if nexthdr = 0x04 then 1 else 0) }"

definition GetFragOffset :: "u8 list \<Rightarrow> (u16 \<times> u8 \<times> u16) option" where
  "GetFragOffset pkt =
     do { frag_off \<leftarrow> get16 pkt 42;
          payload_len \<leftarrow> get16 pkt 4;
          Some (frag_off AND FRAG_OFFSET, ucast (frag_off AND FRAG_MORE), payload_len - 8) }"

section \<open>IPv4 fragments\<close>

text \<open>
  \<open>ip_send_check\<close> is the kernel's: it fills the header checksum of a 20-byte header.
  The header's fields beside length, offset and checksum are those of the whole packet.
\<close>

definition frag4_packet :: "(u8 list \<Rightarrow> u8 list) \<Rightarrow> u8 list \<Rightarrow> u8 list \<Rightarrow> nat \<times> nat \<Rightarrow> u8 list option" where
  "frag4_packet ip_send_check hdr fragpkt f =
     (let (off, flen) = f; len = length fragpkt in
      do { let frag_off = (if flen + off < len then word_of_nat (off div 8) OR 0x2000
                           else word_of_nat (off div 8));
           hdr \<leftarrow> put hdr 6 (be16 frag_off);
           hdr \<leftarrow> put hdr 2 (be16 (word_of_nat (flen + 20)));
           payload \<leftarrow> getn fragpkt off flen;
           Some (ip_send_check hdr @ payload) })"

definition pkt_fraghandle ::
    "(u8 list \<Rightarrow> u8 list) \<Rightarrow> (nat \<Rightarrow> bool) \<Rightarrow> GLOBAL_CTX \<Rightarrow> u8 list \<Rightarrow> u8 list \<Rightarrow> skbuff list option" where
  "pkt_fraghandle ip_send_check mem_ok g mac pkt =
     do { hdr \<leftarrow> getn pkt 0 20;
          let fragpkt = drop 20 pkt;
          fs \<leftarrow> frag_plan 20 (unat (usMtu g)) (length fragpkt);
          (out, fin) \<leftarrow> send_frags mem_ok (frag4_packet ip_send_check hdr fragpkt) mac ETH_P_IP 0 fs;
          Some out }"

section \<open>What the fragments are\<close>

lemma send_frags_all:
  assumes "\<And>k. mem_ok k" "\<And>f. f \<in> set fs \<Longrightarrow> mk f = Some (pk f)"
  shows "send_frags mem_ok mk mac proto k fs =
    Some (map (\<lambda>f. \<lparr>h_dest = replicate 6 0, h_source = mac, h_proto = proto,
                   skb_data = pk f, skb_nonlinear = False\<rparr>) fs, True)"
  using assms(2) by (induction fs arbitrary: k) (simp_all add: assms(1) fragsk_bufalloc_def)

lemma send_frags_some:
  assumes "\<And>f. f \<in> set fs \<Longrightarrow> mk f = Some (pk f)"
  shows "\<exists>n fin. send_frags mem_ok mk mac proto k fs =
    Some (map (\<lambda>f. \<lparr>h_dest = replicate 6 0, h_source = mac, h_proto = proto,
                   skb_data = pk f, skb_nonlinear = False\<rparr>) (take n fs), fin)
    \<and> (fin \<longleftrightarrow> length fs \<le> n)"
  using assms
proof (induction fs arbitrary: k)
  case (Cons f fs)
  obtain n d where n: "send_frags mem_ok mk mac proto (Suc k) fs =
    Some (map (\<lambda>f. \<lparr>h_dest = replicate 6 0, h_source = mac, h_proto = proto,
                   skb_data = pk f, skb_nonlinear = False\<rparr>) (take n fs), d)" "d \<longleftrightarrow> length fs \<le> n"
    using Cons.IH [of "Suc k"] Cons.prems by auto
  show ?case
  proof (cases "mem_ok k")
    case True
    then show ?thesis
      using n Cons.prems by (intro exI [of _ "Suc n"] exI [of _ d]) (simp add: fragsk_bufalloc_def)
  next
    case False
    then show ?thesis by (intro exI [of _ 0] exI [of _ False]) simp
  qed
qed auto

lemma even_or_1:
  assumes "even n" "n < 2 ^ 16"
  shows "(word_of_nat n OR 1 :: u16) AND 0xfffe = word_of_nat n"
    "(word_of_nat n :: u16) AND 0xfffe = word_of_nat n"
    "(word_of_nat n OR 1 :: u16) AND 1 = 1" "(word_of_nat n :: u16) AND 1 = 0"
proof -
  let ?w = "word_of_nat n :: u16"
  have b0: "\<not> bit ?w 0" using assms by (simp only: bit_of_nat_iff bit_0) simp
  have m: "bit (0xfffe :: u16) i \<longleftrightarrow> 0 < i" if "i < 16" for i
  proof -
    have "bit (NOT 1 :: u16) i \<longleftrightarrow> 0 < i"
      using that by (simp only: bit_not_iff bit_1_iff possible_bit_word) simp
    moreover have "NOT 1 = (0xfffe :: u16)" by simp
    ultimately show ?thesis by (simp only:)
  qed
  show "(?w OR 1) AND 0xfffe = ?w"
  proof (rule bit_word_eqI)
    fix i assume "i < LENGTH(16)"
    then show "bit ((?w OR 1) AND 0xfffe) i \<longleftrightarrow> bit ?w i"
      using m [of i] b0 by (cases "i = 0") (simp_all add: bit_and_iff bit_or_iff bit_1_iff)
  qed
  show "?w AND 0xfffe = ?w"
  proof (rule bit_word_eqI)
    fix i assume "i < LENGTH(16)"
    then show "bit (?w AND 0xfffe) i \<longleftrightarrow> bit ?w i"
      using m [of i] b0 by (cases "i = 0") (simp_all add: bit_and_iff)
  qed
  show "(?w OR 1) AND 1 = 1"
    by (rule bit_word_eqI) (auto simp: bit_and_iff bit_or_iff bit_1_iff)
  show "?w AND 1 = 0"
  proof (rule bit_word_eqI)
    fix i assume "i < LENGTH(16)"
    then show "bit (?w AND 1) i \<longleftrightarrow> bit 0 i"
      using b0 by (cases "i = 0") (simp_all add: bit_and_iff bit_1_iff)
  qed
qed

text \<open>One IPv6 fragment, read back.\<close>

definition frag_id :: "u8 list \<Rightarrow> u8 list" where
  "frag_id pkt = [0, 0, pkt ! 5, pkt ! 4]"

definition frag6_bytes :: "GLOBAL_CTX \<Rightarrow> u8 list \<Rightarrow> u8 list \<Rightarrow> nat \<times> nat \<Rightarrow> u8 list" where
  "frag6_bytes g dst pkt f =
     ipv6_header (word_of_nat (snd f + 8)) NEXTHDR_FRAGMENT (ucTcIPv6 g) dst @ [IPINIP, 0]
     @ be16 (if snd f + fst f < length pkt then word_of_nat (fst f) OR 1 else word_of_nat (fst f))
     @ frag_id pkt @ take (snd f) (drop (fst f) pkt)"

lemma frag6_packet_eq:
  "fst f + snd f \<le> length pkt \<Longrightarrow>
    frag6_packet g dst (frag_id pkt) pkt f = Some (frag6_bytes g dst pkt f)"
  by (cases f) (simp add: frag6_packet_def frag6_bytes_def getn_def)

lemma frag6_bytes_read:
  assumes "length (ucTcIPv6 g) = 16" "length dst = 16" "fst f + snd f \<le> length pkt"
    "even (fst f)" "length pkt < 2 ^ 16 - 8"
  shows "length (frag6_bytes g dst pkt f) = snd f + 48"
    "drop 48 (frag6_bytes g dst pkt f) = take (snd f) (drop (fst f) pkt)"
    "IsFragIPinIP (frag6_bytes g dst pkt f) = Some 1"
    "GetFragOffset (frag6_bytes g dst pkt f) =
      Some (word_of_nat (fst f), if snd f + fst f < length pkt then 1 else 0, word_of_nat (snd f))"
proof -
  let ?o = "if snd f + fst f < length pkt then word_of_nat (fst f) OR 1 else word_of_nat (fst f) :: u16"
  let ?pay = "take (snd f) (drop (fst f) pkt)"
  have b: "frag6_bytes g dst pkt f = [0x60, 0, 0, 0] @ be16 (word_of_nat (snd f + 8))
      @ [NEXTHDR_FRAGMENT, 64] @ ucTcIPv6 g @ dst @ [IPINIP, 0] @ be16 ?o @ frag_id pkt @ ?pay"
    by (simp add: frag6_bytes_def ipv6_header_def)
  show "length (frag6_bytes g dst pkt f) = snd f + 48"
    using assms by (simp add: b frag_id_def)
  have "frag6_bytes g dst pkt f = ([0x60, 0, 0, 0] @ be16 (word_of_nat (snd f + 8))
      @ [NEXTHDR_FRAGMENT, 64] @ ucTcIPv6 g @ dst @ [IPINIP, 0] @ be16 ?o @ frag_id pkt) @ ?pay"
    by (simp only: b append_assoc)
  then show "drop 48 (frag6_bytes g dst pkt f) = ?pay"
    using assms by (simp only: drop_append) (simp add: frag_id_def)
  have h: "frag6_bytes g dst pkt f = ([0x60, 0, 0, 0] @ be16 (word_of_nat (snd f + 8))
      @ [NEXTHDR_FRAGMENT, 64] @ ucTcIPv6 g @ dst) @ [IPINIP, 0] @ be16 ?o @ frag_id pkt @ ?pay"
    by (simp only: b append_assoc)
  show "IsFragIPinIP (frag6_bytes g dst pkt f) = Some 1"
    unfolding h IsFragIPinIP_def using assms(1,2)
    by (subst get8_append) (simp_all add: get8_def IPINIP_def)
  have o: "get16 (frag6_bytes g dst pkt f) 42 = Some ?o"
  proof -
    have "frag6_bytes g dst pkt f = ([0x60, 0, 0, 0] @ be16 (word_of_nat (snd f + 8))
      @ [NEXTHDR_FRAGMENT, 64] @ ucTcIPv6 g @ dst @ [IPINIP, 0]) @ be16 ?o @ frag_id pkt @ ?pay"
      by (simp only: b append_assoc)
    then show ?thesis using assms(1,2) by (simp only: get16_append) (subst get16_append, simp_all)
  qed
  have l: "get16 (frag6_bytes g dst pkt f) 4 = Some (word_of_nat (snd f + 8))"
    unfolding b by (subst get16_append) simp_all
  have "fst f < 2 ^ 16" using assms(3,5) by simp
  then show "GetFragOffset (frag6_bytes g dst pkt f) =
      Some (word_of_nat (fst f), if snd f + fst f < length pkt then 1 else 0, word_of_nat (snd f))"
    using even_or_1 [OF assms(4)]
    by (simp add: GetFragOffset_def o l FRAG_OFFSET_def FRAG_MORE_def)
qed

definition fresh_skb :: "u8 list \<Rightarrow> u16 \<Rightarrow> u8 list \<Rightarrow> skbuff" where
  "fresh_skb mac proto content = \<lparr>h_dest = replicate 6 0, h_source = mac, h_proto = proto,
     skb_data = content, skb_nonlinear = False\<rparr>"

lemma IPv4FragandIPinIP_sent:
  assumes "56 \<le> unat (usMtu g)" "unat (usMtu g) < length (skb_data skb) + 48"
    "20 \<le> length (skb_data skb)" "length (skb_data skb) < 2 ^ 16"
  obtains fs n fin where "plan_from (unat (usMtu g) - 48) (length (skb_data skb)) 0 fs"
    "IPv4FragandIPinIP mem_ok g skb dst = Some (map (\<lambda>f. fresh_skb (h_dest skb) ETH_P_IPV6
        (frag6_bytes g dst (skb_data skb) f)) (take n fs), if fin then 1 else -1)"
    "fin \<longleftrightarrow> length fs \<le> n" "(\<forall>k. mem_ok k) \<Longrightarrow> length fs \<le> n"
proof -
  let ?d = "skb_data skb"
  have m: "48 + 8 \<le> unat (usMtu g)" "unat (usMtu g) < 2 ^ 16" "unat (usMtu g) - 48 < length ?d" "length ?d < 2 ^ 32"
    using assms unsigned_less [of "usMtu g"] by auto
  obtain fs where fs: "frag_plan 48 (unat (usMtu g)) (length ?d) = Some fs"
    "plan_from (unat (usMtu g) - 48) (length ?d) 0 fs"
    by (rule frag_plan_ok [OF m])
  have mk: "frag6_packet g dst (frag_id ?d) ?d f = Some (frag6_bytes g dst ?d f)" if "f \<in> set fs" for f
    using plan_from_mem [OF fs(2), of "fst f" "snd f"] that by (intro frag6_packet_eq) simp
  obtain n fin where n: "send_frags mem_ok (frag6_packet g dst (frag_id ?d) ?d) (h_dest skb) ETH_P_IPV6 0 fs =
    Some (map (\<lambda>f. fresh_skb (h_dest skb) ETH_P_IPV6 (frag6_bytes g dst ?d f)) (take n fs), fin)"
    "fin \<longleftrightarrow> length fs \<le> n"
    using send_frags_some [where mk = "frag6_packet g dst (frag_id ?d) ?d" and pk = "frag6_bytes g dst ?d", OF mk]
    unfolding fresh_skb_def by blast
  have "IPv4FragandIPinIP mem_ok g skb dst = Some (map (\<lambda>f. fresh_skb (h_dest skb) ETH_P_IPV6
        (frag6_bytes g dst ?d f)) (take n fs), if fin then 1 else -1)"
    using assms(3) fs(1) n(1) by (simp add: IPv4FragandIPinIP_def get8_def frag_id_def)
  moreover have "length fs \<le> n" if "\<forall>k. mem_ok k"
    using n send_frags_all [where mem_ok = mem_ok and mk = "frag6_packet g dst (frag_id ?d) ?d"
        and pk = "frag6_bytes g dst ?d", OF spec [OF that] mk] by simp
  ultimately show ?thesis using that fs(2) n(2) by blast
qed

definition csum_ok :: "(u8 list \<Rightarrow> u8 list) \<Rightarrow> bool" where
  "csum_ok ip_send_check \<longleftrightarrow> (\<forall>h. length h = 20 \<longrightarrow> length (ip_send_check h) = 20
     \<and> (\<forall>i < 20. i \<noteq> 10 \<and> i \<noteq> 11 \<longrightarrow> ip_send_check h ! i = h ! i))"

definition frag4_header :: "u8 list \<Rightarrow> nat \<Rightarrow> nat \<times> nat \<Rightarrow> u8 list" where
  "frag4_header hdr len f = take 2 hdr @ be16 (word_of_nat (snd f + 20)) @ take 2 (drop 4 hdr)
     @ be16 (if snd f + fst f < len then word_of_nat (fst f div 8) OR 0x2000 else word_of_nat (fst f div 8))
     @ drop 8 hdr"

lemma frag4_packet_eq:
  assumes "length hdr = 20" "fst f + snd f \<le> length pkt"
  shows "frag4_packet c hdr pkt f =
    Some (c (frag4_header hdr (length pkt) f) @ take (snd f) (drop (fst f) pkt))"
    "length (frag4_header hdr (length pkt) f) = 20"
proof -
  have d: "drop 4 (take 6 hdr) = take 2 (drop 4 hdr)"
    using drop_take [of 4 6 hdr] by simp
  show "frag4_packet c hdr pkt f =
    Some (c (frag4_header hdr (length pkt) f) @ take (snd f) (drop (fst f) pkt))"
    using assms by (cases f) (simp add: frag4_packet_def frag4_header_def put_def getn_def d Let_def)
  show "length (frag4_header hdr (length pkt) f) = 20"
    using assms by (simp add: frag4_header_def)
qed

lemma frag4_header_fields:
  assumes "csum_ok c" "length hdr = 20"
  shows "get16 (c (frag4_header hdr len f)) 2 = Some (word_of_nat (snd f + 20))"
    "get16 (c (frag4_header hdr len f)) 6 = Some (if snd f + fst f < len
       then word_of_nat (fst f div 8) OR 0x2000 else word_of_nat (fst f div 8))"
    "\<And>i. i < 20 \<Longrightarrow> i \<notin> {2, 3, 6, 7, 10, 11} \<Longrightarrow> c (frag4_header hdr len f) ! i = hdr ! i"
proof -
  let ?h = "frag4_header hdr len f"
  have l: "length ?h = 20" using assms(2) by (simp add: frag4_header_def)
  then have cl: "length (c ?h) = 20" and c: "\<And>i. i < 20 \<Longrightarrow> i \<noteq> 10 \<Longrightarrow> i \<noteq> 11 \<Longrightarrow> c ?h ! i = ?h ! i"
    using assms(1) by (auto simp: csum_ok_def)
  have g: "get16 (c ?h) i = get16 ?h i" if "i + 1 < 10" for i
    using that l cl c [of i] c [of "Suc i"] by (simp add: get16_def)
  show "get16 (c ?h) 2 = Some (word_of_nat (snd f + 20))"
    using assms(2) by (subst g) (simp_all add: frag4_header_def)
  show "get16 (c ?h) 6 = Some (if snd f + fst f < len
       then word_of_nat (fst f div 8) OR 0x2000 else word_of_nat (fst f div 8))"
    using assms(2) by (subst g) (simp_all add: frag4_header_def)
  show "c ?h ! i = hdr ! i" if "i < 20" "i \<notin> {2, 3, 6, 7, 10, 11}" for i
  proof -
    have ci: "c ?h ! i = ?h ! i" using that by (intro c) auto
    have "i < 2 \<or> i = 4 \<or> i = 5 \<or> 8 \<le> i" using that(2) by auto
    then consider "i < 2" | "i = 4" | "i = 5" | "8 \<le> i" by blast
    then have "?h ! i = hdr ! i"
    proof cases
      case 4
      then have "\<not> i - 6 < 2" "\<not> i - 4 < 2" "\<not> i - 2 < 2" by simp_all
      with 4 assms(2) that(1) show ?thesis by (simp add: frag4_header_def nth_append)
    qed (use assms(2) in \<open>simp_all add: frag4_header_def nth_append\<close>)
    with ci show ?thesis by simp
  qed
qed

lemma pkt_fraghandle_sent:
  assumes "28 \<le> unat (usMtu g)" "unat (usMtu g) < length pkt" "length pkt < 2 ^ 16" "\<forall>k. mem_ok k"
  obtains fs where "plan_from (unat (usMtu g) - 20) (length pkt - 20) 0 fs"
    "pkt_fraghandle c mem_ok g mac pkt = Some (map (\<lambda>f. fresh_skb mac ETH_P_IP
        (c (frag4_header (take 20 pkt) (length pkt - 20) f) @ take (snd f) (drop (fst f) (drop 20 pkt)))) fs)"
proof -
  let ?p = "drop 20 pkt" and ?h = "take 20 pkt"
  have m: "20 + 8 \<le> unat (usMtu g)" "unat (usMtu g) < 2 ^ 16" "unat (usMtu g) - 20 < length ?p" "length ?p < 2 ^ 32"
    using assms unsigned_less [of "usMtu g"] by auto
  obtain fs where fs: "frag_plan 20 (unat (usMtu g)) (length ?p) = Some fs"
    "plan_from (unat (usMtu g) - 20) (length ?p) 0 fs"
    by (rule frag_plan_ok [OF m])
  have hl: "length ?h = 20" using assms(1,2) by simp
  have mk: "frag4_packet c ?h ?p f =
      Some (c (frag4_header ?h (length ?p) f) @ take (snd f) (drop (fst f) ?p))" if "f \<in> set fs" for f
    using plan_from_mem [OF fs(2), of "fst f" "snd f"] that by (intro frag4_packet_eq(1) hl) simp
  note s = send_frags_all [where mem_ok = mem_ok and mk = "frag4_packet c ?h ?p"
      and pk = "\<lambda>f. c (frag4_header ?h (length ?p) f) @ take (snd f) (drop (fst f) ?p)", OF spec [OF assms(4)] mk]
  show ?thesis
    by (rule that [of fs]) (use fs s hl in \<open>simp_all add: pkt_fraghandle_def getn_def fresh_skb_def\<close>)
qed

section \<open>Properties\<close>

definition all_ok :: "nat \<Rightarrow> bool" where "all_ok k = True"

definition frag_global :: GLOBAL_CTX where
  "frag_global = \<lparr>uiVersion = 1, StorageTimer = None, ucTcIPv6 = replicate 16 1, usMtu = 56,
     uiExtBeginIP = 0, uiExtEndIP = 0, uiTunState = 1, usPortRange = 1024,
     uiOtherExtBeginIP = 0, uiOtherExtEndIP = 0, uiMaxLifeTime = 3600\<rparr>"

definition frag_skb :: skbuff where
  "frag_skb = fresh_skb (replicate 6 2) ETH_P_IP (replicate 30 7)"

text \<open>An IPv4 packet that is too long is sent as IPv6 fragments none of which exceeds the MTU.
  All but the last carry a multiple of 8 bytes, each header read back with \<open>GetFragOffset\<close> gives
  the piece's offset, its more-fragments bit and its length, and the pieces, in order, are the
  packet.  If a buffer cannot be allocated the fragments sent are the first ones and the result
  is -1.\<close>

theorem ipv6_fragments_cover:
  assumes "56 \<le> unat (usMtu g)" "unat (usMtu g) < length (skb_data skb) + 48"
    "20 \<le> length (skb_data skb)" "length (skb_data skb) < 2 ^ 16 - 8"
    "length (ucTcIPv6 g) = 16" "length dst = 16"
  shows "\<exists>fs n out r. IPv4FragandIPinIP mem_ok g skb dst = Some (out, r)
    \<and> length out = min n (length fs) \<and> r = (if length fs \<le> n then 1 else -1)
    \<and> ((\<forall>k. mem_ok k) \<longrightarrow> length fs \<le> n)
    \<and> concat (map (\<lambda>(o', l). take l (drop o' (skb_data skb))) fs) = skb_data skb
    \<and> (\<forall>i < length out. let (o', l) = fs ! i; p = skb_data (out ! i); more = l + o' < length (skb_data skb) in
         length p \<le> unat (usMtu g) \<and> IsFragIPinIP p = Some 1 \<and> (more \<longrightarrow> 8 dvd l)
         \<and> GetFragOffset p = Some (word_of_nat o', if more then 1 else 0, word_of_nat l)
         \<and> drop 48 p = take l (drop o' (skb_data skb)))"
proof -
  let ?d = "skb_data skb"
  have len: "length ?d < 2 ^ 16" using assms(4) by simp
  obtain fs n fin where f: "plan_from (unat (usMtu g) - 48) (length ?d) 0 fs"
    "IPv4FragandIPinIP mem_ok g skb dst = Some (map (\<lambda>f. fresh_skb (h_dest skb) ETH_P_IPV6
        (frag6_bytes g dst ?d f)) (take n fs), if fin then 1 else -1)"
    "fin \<longleftrightarrow> length fs \<le> n" "(\<forall>k. mem_ok k) \<Longrightarrow> length fs \<le> n"
    by (rule IPv4FragandIPinIP_sent [OF assms(1-3) len, where mem_ok = mem_ok and dst = dst]) blast
  let ?out = "map (\<lambda>f. fresh_skb (h_dest skb) ETH_P_IPV6 (frag6_bytes g dst ?d f)) (take n fs)"
  have c: "concat (map (\<lambda>(o', l). take l (drop o' ?d)) fs) = ?d"
    using plan_from_concat [OF f(1), of ?d] by simp
  have each: "let (o', l) = fs ! i; p = skb_data (?out ! i); more = l + o' < length ?d in
         length p \<le> unat (usMtu g) \<and> IsFragIPinIP p = Some 1 \<and> (more \<longrightarrow> 8 dvd l)
         \<and> GetFragOffset p = Some (word_of_nat o', if more then 1 else 0, word_of_nat l)
         \<and> drop 48 p = take l (drop o' ?d)" if "i < length ?out" for i
  proof -
    obtain o' l where ol: "fs ! i = (o', l)" by (cases "fs ! i")
    have i: "i < length fs" using that by simp
    then have m: "(o', l) \<in> set fs" using ol nth_mem by fastforce
    note pm = plan_from_mem [OF f(1) _ m]
    have d8: "l + o' < length ?d \<longrightarrow> 8 dvd l"
      using plan_from_dvd [OF f(1) m] by (simp add: add.commute)
    have "even o'" using pm by (auto elim!: dvdE)
    moreover have "o' + l \<le> length ?d" "l \<le> unat (usMtu g) - 48" using pm by auto
    ultimately show ?thesis
      using that i frag6_bytes_read [of g dst "(o', l)" ?d] assms d8
      by (simp add: ol fresh_skb_def)
  qed
  show ?thesis
    by (intro exI [of _ fs] exI [of _ n] exI [of _ ?out] exI [of _ "if fin then 1 else -1"] conjI)
      (use f c each in \<open>auto simp: min.commute\<close>)
qed

theorem ipv6_fragments_cover_witness:
  "\<exists>fs n out r. IPv4FragandIPinIP all_ok frag_global frag_skb (replicate 16 3) = Some (out, r)
    \<and> length out = min n (length fs) \<and> r = (if length fs \<le> n then 1 else -1) \<and> length fs \<le> n
    \<and> concat (map (\<lambda>(o', l). take l (drop o' (skb_data frag_skb))) fs) = replicate 30 7"
proof -
  have a: "56 \<le> unat (usMtu frag_global)" "unat (usMtu frag_global) < length (skb_data frag_skb) + 48"
    "20 \<le> length (skb_data frag_skb)" "length (skb_data frag_skb) < 2 ^ 16 - 8"
    "length (ucTcIPv6 frag_global) = 16" "length (replicate 16 (3 :: u8)) = 16"
    "\<forall>k. all_ok k" "skb_data frag_skb = replicate 30 7"
    by (simp_all add: frag_global_def frag_skb_def fresh_skb_def all_ok_def)
  from ipv6_fragments_cover [OF a(1-6), where mem_ok = all_ok] a(7)
  show ?thesis unfolding a(8) by blast
qed

text \<open>A reassembled packet longer than the MTU leaves the kernel module as IPv4 fragments that
  fit the MTU.  Their length fields are right, their offset fields count units of 8 bytes with the
  more-fragments bit on all but the last, the other fields of the header are the packet's, and
  the payloads, in order, are the packet's payload.\<close>

theorem ipv4_fragments_cover:
  assumes "28 \<le> unat (usMtu g)" "unat (usMtu g) < length pkt" "length pkt < 2 ^ 16"
    "\<forall>k. mem_ok k" "csum_ok c"
  shows "\<exists>fs out. pkt_fraghandle c mem_ok g mac pkt = Some out \<and> length out = length fs
    \<and> concat (map (\<lambda>b. drop 20 (skb_data b)) out) = drop 20 pkt
    \<and> (\<forall>i < length out. let (o', l) = fs ! i; p = skb_data (out ! i); more = l + o' < length pkt - 20 in
         length p = l + 20 \<and> length p \<le> unat (usMtu g) \<and> 8 dvd o'
         \<and> get16 p 2 = Some (word_of_nat (l + 20))
         \<and> get16 p 6 = Some (if more then word_of_nat (o' div 8) OR 0x2000 else word_of_nat (o' div 8))
         \<and> (\<forall>j < 20. j \<notin> {2, 3, 6, 7, 10, 11} \<longrightarrow> p ! j = pkt ! j)
         \<and> drop 20 p = take l (drop (20 + o') pkt))"
proof -
  let ?p = "drop 20 pkt" and ?h = "take 20 pkt"
  obtain fs where f: "plan_from (unat (usMtu g) - 20) (length pkt - 20) 0 fs"
    "pkt_fraghandle c mem_ok g mac pkt = Some (map (\<lambda>f. fresh_skb mac ETH_P_IP
        (c (frag4_header ?h (length pkt - 20) f) @ take (snd f) (drop (fst f) ?p))) fs)"
    by (rule pkt_fraghandle_sent [OF assms(1-4)])
  let ?b = "\<lambda>f. c (frag4_header ?h (length pkt - 20) f) @ take (snd f) (drop (fst f) ?p)"
  let ?out = "map (\<lambda>f. fresh_skb mac ETH_P_IP (?b f)) fs"
  have hl: "length ?h = 20" using assms(1,2) by simp
  have cl: "length (c (frag4_header ?h (length pkt - 20) f)) = 20" for f
    using assms(5) hl by (simp add: csum_ok_def frag4_header_def)
  have "concat (map (\<lambda>(o', l). take l (drop o' ?p)) fs) = ?p"
    using plan_from_concat [OF f(1), of ?p] by simp
  then have cc: "concat (map (\<lambda>b. drop 20 (skb_data b)) ?out) = ?p"
    by (simp add: comp_def cl fresh_skb_def case_prod_unfold)
  have each: "let (o', l) = fs ! i; p = skb_data (?out ! i); more = l + o' < length pkt - 20 in
         length p = l + 20 \<and> length p \<le> unat (usMtu g) \<and> 8 dvd o'
         \<and> get16 p 2 = Some (word_of_nat (l + 20))
         \<and> get16 p 6 = Some (if more then word_of_nat (o' div 8) OR 0x2000 else word_of_nat (o' div 8))
         \<and> (\<forall>j < 20. j \<notin> {2, 3, 6, 7, 10, 11} \<longrightarrow> p ! j = pkt ! j)
         \<and> drop 20 p = take l (drop (20 + o') pkt)" if "i < length ?out" for i
  proof -
    obtain o' l where ol: "fs ! i = (o', l)" by (cases "fs ! i")
    have i: "i < length fs" using that by simp
    then have m: "(o', l) \<in> set fs" using ol nth_mem by fastforce
    note pm = plan_from_mem [OF f(1) _ m]
    have pm': "8 dvd o'" "l \<le> unat (usMtu g) - 20" "o' + l \<le> length pkt - 20" using pm by auto
    let ?c = "c (frag4_header ?h (length pkt - 20) (o', l))"
    have d: "skb_data (?out ! i) = ?c @ take l (drop o' ?p)"
      using i ol by (simp add: fresh_skb_def)
    have len: "length (take l (drop o' ?p)) = l" using pm'(3) by simp
    have g: "get16 (?c @ q) j = get16 ?c j" if "j < 10" for j q
      using that cl [of "(o', l)"] by (simp add: get16_def nth_append)
    note ff = frag4_header_fields [OF assms(5) hl, where len = "length pkt - 20" and f = "(o', l)"]
    have "(?c @ q) ! j = pkt ! j" if "j < 20" "j \<notin> {2, 3, 6, 7, 10, 11}" for j q
      using ff(3) [where i = j] that cl [of "(o', l)"] by (simp add: nth_append)
    moreover have "l + 20 \<le> unat (usMtu g)" using pm'(2) assms(1) by linarith
    ultimately show ?thesis
      using pm' len ff(1,2) cl [of "(o', l)"]
      unfolding ol d Let_def prod.case by (simp add: g add.commute)
  qed
  show ?thesis
    by (intro exI [of _ fs] exI [of _ ?out] conjI)
      (use f(2) cc each in auto)
qed

theorem ipv4_fragments_cover_witness:
  "\<exists>out. pkt_fraghandle (\<lambda>h. h) all_ok frag_global (replicate 6 2) (replicate 100 7) = Some out
    \<and> concat (map (\<lambda>b. drop 20 (skb_data b)) out) = replicate 80 7"
proof -
  have a: "28 \<le> unat (usMtu frag_global)" "unat (usMtu frag_global) < length (replicate 100 (7 :: u8))"
    "length (replicate 100 (7 :: u8)) < 2 ^ 16" "\<forall>k. all_ok k" "csum_ok (\<lambda>h. h)"
    by (simp_all add: frag_global_def all_ok_def csum_ok_def)
  have d: "drop 20 (replicate 100 (7 :: u8)) = replicate 80 7" by simp
  from ipv4_fragments_cover [OF a, where mac = "replicate 6 2"] show ?thesis unfolding d by blast
qed

end
