(* ===== verification/BPlus_Inv.thy ===== *)
theory BPlus_Inv
  imports BPlus
begin

text \<open>
  The invariant of the B+ tree and its preservation.  A tree is seen as the list of its
  leaves' values, in order (\<open>inorder\<close>); every operation is related to the operation on that
  list, and \<open>bp_inv\<close> says that the tree is balanced, has its degrees in bounds, that every
  key in an inner node is the largest key below it, and that the list of values and the
  counter agree with the leaves.
\<close>

section \<open>Views\<close>

fun inorder :: "'r bpnode \<Rightarrow> (bpkey \<times> 'r) list" where
  "inorder (BPLeaf k vs) = vs"
| "inorder (BPInner k ls) = concat (map (\<lambda>l. inorder (snd l)) ls)"

abbreviation leaves_of :: "(bpkey \<times> 'r bpnode) list \<Rightarrow> (bpkey \<times> 'r) list" where
  "leaves_of ls \<equiv> concat (map (\<lambda>l. inorder (snd l)) ls)"

fun pre :: "'r crumb list \<Rightarrow> (bpkey \<times> 'r) list" where
  "pre [] = []"
| "pre (Crumb pk ls lk rs # p) = pre p @ leaves_of ls"

fun post :: "'r crumb list \<Rightarrow> (bpkey \<times> 'r) list" where
  "post [] = []"
| "post (Crumb pk ls lk rs # p) = leaves_of rs @ post p"

lemma inorder_rebuild [inorder_simps]:
  "inorder (rebuild n p) = pre p @ inorder n @ post p"
  by (induction n p rule: rebuild.induct) auto

abbreviation ksorted :: "(bpkey \<times> 'a) list \<Rightarrow> bool" where
  "ksorted xs \<equiv> sorted_wrt (<) (map fst xs)"

lemma sorted_append_less:
  "ksorted (xs @ ys) \<Longrightarrow> x \<in> set xs \<Longrightarrow> y \<in> set ys \<Longrightarrow> fst x < fst y"
  by (auto simp: sorted_wrt_append)

section \<open>Well-formed trees and paths\<close>

fun wfn :: "nat \<Rightarrow> 'r bpnode \<Rightarrow> bool" where
  "wfn h (BPLeaf k vs) \<longleftrightarrow> h = 0 \<and> vs \<noteq> [] \<and> k = fst (last vs)"
| "wfn h (BPInner k ls) \<longleftrightarrow>
     ls \<noteq> [] \<and> k = fst (last ls) \<and> 0 < h \<and>
     (\<forall>l \<in> set ls. fst l = nkey (snd l) \<and> wfn (h - 1) (snd l)
        \<and> MINDEGREE \<le> pointerNum (snd l) \<and> pointerNum (snd l) \<le> MAXDEGREE)"

definition kid_ok :: "nat \<Rightarrow> bpkey \<times> 'r bpnode \<Rightarrow> bool" where
  "kid_ok h l \<longleftrightarrow> fst l = nkey (snd l) \<and> wfn h (snd l)
     \<and> MINDEGREE \<le> pointerNum (snd l) \<and> pointerNum (snd l) \<le> MAXDEGREE"

lemma wfn_inner: "wfn h (BPInner k ls) \<longleftrightarrow>
    ls \<noteq> [] \<and> k = fst (last ls) \<and> 0 < h \<and> (\<forall>l \<in> set ls. kid_ok (h - 1) l)"
  by (simp add: kid_ok_def)

declare wfn.simps(2) [simp del]

text \<open>A path that is well-formed for a focus of height \<open>h\<close> and key \<open>k\<close>.\<close>

fun wfpath :: "nat \<Rightarrow> bpkey \<Rightarrow> 'r crumb list \<Rightarrow> bool" where
  "wfpath h k [] \<longleftrightarrow> True"
| "wfpath h k (Crumb pk ls lk rs # p) \<longleftrightarrow>
     lk = k \<and> pk = (if rs = [] then k else fst (last rs))
     \<and> (\<forall>l \<in> set ls \<union> set rs. kid_ok h l)
     \<and> length ls + length rs < MAXDEGREE
     \<and> (if p = [] then 1 \<le> length ls + length rs else MINDEGREE \<le> length ls + length rs + 1)
     \<and> wfpath (Suc h) pk p"

text \<open>A whole tree: the root may have fewer links.\<close>

definition wf_root :: "'r bpnode \<Rightarrow> bool" where
  "wf_root n \<longleftrightarrow> (\<exists>h. wfn h n \<and> (if h = 0 then 1 else 2) \<le> pointerNum n)
     \<and> pointerNum n \<le> MAXDEGREE \<and> ksorted (inorder n)"

lemma wfn_nonempty: "wfn h n \<Longrightarrow> inorder n \<noteq> [] \<and> nkey n = fst (last (inorder n))"
proof (induction h n rule: wfn.induct)
  case (2 h k ls)
  then obtain ls' l where ls: "ls = ls' @ [l]" "k = fst l" "kid_ok (h - 1) l"
    by (cases ls rule: rev_cases) (auto simp: wfn_inner)
  with "2.IH" [of l] have "inorder (snd l) \<noteq> []" "nkey (snd l) = fst (last (inorder (snd l)))"
    by (auto simp: kid_ok_def)
  with ls show ?case by (simp add: kid_ok_def)
qed auto

lemma kid_ok_key: "kid_ok h l \<Longrightarrow> inorder (snd l) \<noteq> [] \<and> fst l = fst (last (inorder (snd l)))"
  by (auto simp: kid_ok_def dest: wfn_nonempty)

lemma kid_key_mem: "kid_ok h l \<Longrightarrow> fst l \<in> fst ` set (inorder (snd l))"
  by (metis imageI kid_ok_key last_in_set)

lemma kid_keys_le:
  "kid_ok h l \<Longrightarrow> ksorted (inorder (snd l)) \<Longrightarrow> x \<in> set (inorder (snd l)) \<Longrightarrow> fst x \<le> fst l"
proof -
  assume k: "kid_ok h l" and s: "ksorted (inorder (snd l))" and x: "x \<in> set (inorder (snd l))"
  obtain ys y where ys: "inorder (snd l) = ys @ [y]" "fst y = fst l"
    using kid_ok_key [OF k] by (metis append_butlast_last_id)
  then show "fst x \<le> fst l" using s x by (auto simp: sorted_wrt_append dest: less_imp_le)
qed

section \<open>Splitting\<close>

text \<open>The degree a focus needs so that it can be filled back into its path as it is.\<close>

definition deg_ok :: "nat \<Rightarrow> 'r crumb list \<Rightarrow> nat \<Rightarrow> bool" where
  "deg_ok h p d \<longleftrightarrow> (if p = [] then (if h = 0 then 1 else 2) \<le> d else MINDEGREE \<le> d)"

lemma wfn_parent:
  assumes "wfpath h (nkey n) (Crumb pk ls lk rs # p)" "wfn h n"
    and "MINDEGREE \<le> pointerNum n" "pointerNum n \<le> MAXDEGREE"
  shows "wfn (Suc h) (BPInner pk (ls @ (lk, n) # rs))" (is ?wf)
    and "wfpath (Suc h) pk p" (is ?path)
    and "deg_ok (Suc h) p (length ls + length rs + 1)" (is ?deg)
    and "length ls + length rs + 1 \<le> MAXDEGREE" (is ?le)
proof -
  have "kid_ok h (lk, n)" using assms by (simp add: kid_ok_def)
  then show ?wf using assms(1) by (auto simp: wfn_inner)
  show ?path ?deg ?le using assms(1) by (auto simp: deg_ok_def)
qed

lemma wf_root_rebuild:
  assumes "wfn h n" "wfpath h (nkey n) p" "deg_ok h p (pointerNum n)" "pointerNum n \<le> MAXDEGREE"
    and "ksorted (pre p @ inorder n @ post p)"
  shows "wf_root (rebuild n p)"
  using assms
proof (induction n p arbitrary: h rule: rebuild.induct)
  case (1 n)
  then have "wfn h n \<and> (if h = 0 then 1 else 2) \<le> pointerNum n" by (simp add: deg_ok_def)
  then have "\<exists>h. wfn h n \<and> (if h = 0 then 1 else 2) \<le> pointerNum n" by (rule exI)
  with 1 show ?case by (simp add: wf_root_def)
next
  case (2 n pk ls lk rs p)
  then have "MINDEGREE \<le> pointerNum n" by (simp add: deg_ok_def)
  note par = wfn_parent [OF "2.prems"(2) "2.prems"(1) this "2.prems"(4)]
  show ?case using "2.IH" [OF par(1)] par "2.prems"(5) by simp
qed

lemma split_node_wf:
  assumes "wfn h n" "MAXDEGREE < pointerNum n" "pointerNum n \<le> 13" "split_node n = (p, c)"
  shows "wfn h p" "wfn h c" "pointerNum p = 5" "pointerNum c = pointerNum n - 5"
    "nkey c = nkey n" "inorder n = inorder p @ inorder c"
proof -
  have *: "last (take 5 xs) = xs ! 4" "take 5 xs \<noteq> []" "drop 5 xs \<noteq> []"
    "last (drop 5 xs) = last xs" if "8 < length xs" for xs :: "'x list"
    using that by (cases xs; auto simp: last_conv_nth)+
  have "wfn h p \<and> wfn h c \<and> pointerNum p = 5 \<and> pointerNum c = pointerNum n - 5
    \<and> nkey c = nkey n \<and> inorder n = inorder p @ inorder c"
  proof (cases n)
    case (BPLeaf k vs)
    with assms show ?thesis by (auto simp: *)
  next
    case (BPInner k ls)
    then have "inorder n = concat (map (\<lambda>l. inorder (snd l)) (take 5 ls @ drop 5 ls))" by simp
    moreover have "\<forall>l \<in> set (take 5 ls). kid_ok (h - 1) l" "\<forall>l \<in> set (drop 5 ls). kid_ok (h - 1) l"
      using assms(1) BPInner by (auto simp: wfn_inner simp del: One_nat_def dest!: in_set_takeD in_set_dropD)
    ultimately show ?thesis using BPInner assms
      by (auto simp: * wfn_inner simp del: append_take_drop_id)
  qed
  then show "wfn h p" "wfn h c" "pointerNum p = 5" "pointerNum c = pointerNum n - 5"
    "nkey c = nkey n" "inorder n = inorder p @ inorder c" by auto
qed

text \<open>Keys of the links left of the focus are below the keys of the focus.\<close>

lemma left_links_less:
  assumes "\<forall>l \<in> set ls. kid_ok h l" "ksorted (leaves_of ls @ xs)" "x \<in> set xs" "l \<in> set ls"
  shows "fst l < fst x"
proof -
  obtain y where "y \<in> set (inorder (snd l))" "fst y = fst l"
    using assms(1,4) kid_key_mem by fastforce
  moreover have "y \<in> set (leaves_of ls)" using calculation(1) assms(4) by auto
  ultimately show ?thesis using assms(2,3) by (metis sorted_append_less)
qed

lemma right_links_greater:
  assumes "\<forall>l \<in> set rs. kid_ok h l" "ksorted (xs @ leaves_of rs @ ys)" "x \<in> set xs" "l \<in> set rs"
  shows "fst x < fst l"
proof -
  obtain y where "y \<in> set (inorder (snd l))" "fst y = fst l"
    using assms(1,4) kid_key_mem by fastforce
  moreover have "y \<in> set (leaves_of rs)" using calculation(1) assms(4) by auto
  ultimately show ?thesis using assms(2,3) by (metis sorted_append_less set_append UnCI)
qed

text \<open>Splitting a focus with too many links hands its parent one link more.\<close>

lemma bpsplit_step:
  assumes n: "wfn h n" "MAXDEGREE < pointerNum n" "pointerNum n \<le> 13" "nkey n = k"
    and path: "\<forall>l \<in> set ls \<union> set rs. kid_ok h l" "pk = (if rs = [] then k else fst (last rs))"
    and srt: "ksorted (leaves_of ls @ inorder n)"
  obtains n' where "bpsplit n (Crumb pk ls k rs # p) = bpsplit n' p" "wfn (Suc h) n'"
    "nkey n' = pk" "pointerNum n' = length ls + length rs + 2"
    "inorder n' = leaves_of ls @ inorder n @ leaves_of rs"
proof -
  obtain q c where sp: "split_node n = (q, c)" by fastforce
  note s = split_node_wf [OF n(1-3) sp]
  have q: "inorder q \<noteq> []" "nkey q = fst (last (inorder q))"
    and c: "inorder c \<noteq> []" "nkey n = fst (last (inorder c))"
    using s(1,2,5) wfn_nonempty [of h q] wfn_nonempty [of h c] by auto
  have "nkey q \<le> nkey n"
    using srt s(6) q c by (auto simp: sorted_wrt_append intro: less_imp_le)
  moreover have "\<forall>x \<in> set ls. fst x < nkey q"
    using left_links_less [OF _ srt, of h "last (inorder q)"] path(1) s(6) q by auto
  ultimately have sk: "seek (nkey q) (ls @ (k, n) # rs) = Some (ls, (k, n), rs)"
    using n(4) by (intro seek_append) auto
  let ?n' = "BPInner pk (ls @ (nkey q, q) # (k, c) # rs)"
  have "bpsplit n (Crumb pk ls k rs # p) = bpsplit ?n' p"
    using n(2) sp sk by (simp add: n(4))
  moreover have "kid_ok h (nkey q, q)" "kid_ok h (k, c)"
    using s n by (auto simp: kid_ok_def)
  then have "wfn (Suc h) ?n'" using path by (auto simp: wfn_inner)
  ultimately show thesis using that [of ?n'] s(6) by simp
qed

lemma bpsplit_correct:
  assumes "wfn h n" "wfpath h (nkey n) p" "deg_ok h p (pointerNum n)" "pointerNum n \<le> 13"
    and "ksorted (pre p @ inorder n @ post p)"
  shows "\<exists>r. bpsplit n p = Some r \<and> wf_root r \<and> inorder r = pre p @ inorder n @ post p"
  using assms
proof (induction p arbitrary: h n)
  case Nil
  obtain q c where sp: "split_node n = (q, c)" by fastforce
  show ?case
  proof (cases "pointerNum n \<le> MAXDEGREE")
    case True
    with Nil.prems wf_root_rebuild [of h n "[]"] show ?thesis by simp
  next
    case False
    note s = split_node_wf [OF Nil.prems(1) _ Nil.prems(4) sp]
    have "wf_root (BPInner (nkey c) [(nkey q, q), (nkey c, c)])"
      unfolding wf_root_def using s False Nil.prems
      by (auto simp: wfn_inner kid_ok_def intro!: exI [of _ "Suc h"])
    with False sp s show ?thesis by simp
  qed
next
  case (Cons x p)
  obtain pk ls lk rs where x [simp]: "x = Crumb pk ls lk rs" by (cases x)
  show ?case
  proof (cases "pointerNum n \<le> MAXDEGREE")
    case True
    have "wf_root (rebuild n (Crumb pk ls lk rs # p))"
      using wf_root_rebuild [OF Cons.prems(1,2,3) True Cons.prems(5)] by simp
    with True show ?thesis by (simp add: inorder_simps del: rebuild.simps)
  next
    case False
    have path: "lk = nkey n" "\<forall>l \<in> set ls \<union> set rs. kid_ok h l"
      "pk = (if rs = [] then nkey n else fst (last rs))"
      "wfpath (Suc h) pk p" "deg_ok (Suc h) p (length ls + length rs + 2)"
      "length ls + length rs + 2 \<le> 13"
      using Cons.prems(2) by (auto simp: deg_ok_def)
    have "ksorted (leaves_of ls @ inorder n)"
      using Cons.prems(5) by (simp add: sorted_wrt_append)
    then obtain n' where n': "bpsplit n (x # p) = bpsplit n' p" "wfn (Suc h) n'" "nkey n' = pk"
        "pointerNum n' = length ls + length rs + 2"
        "inorder n' = leaves_of ls @ inorder n @ leaves_of rs"
      using bpsplit_step [OF Cons.prems(1) _ Cons.prems(4) refl path(2,3), of p] False path(1)
      by auto
    then show ?thesis using Cons.IH [of "Suc h" n'] path Cons.prems(5) by simp
  qed
qed

section \<open>Merging\<close>

lemma join_nodes_wf:
  assumes "wfn h l" "wfn h n"
  obtains m where "join_nodes l n = Some m" "wfn h m" "nkey m = nkey n"
    "inorder m = inorder l @ inorder n" "pointerNum m = pointerNum l + pointerNum n"
  using assms
  by (cases l; cases n) (auto simp: wfn_inner)

lemma wfn_pointerNum: "wfn h n \<Longrightarrow> 0 < pointerNum n"
  by (cases n) (auto simp: wfn_inner)

text \<open>The common end of both branches of \<open>bpmerge\<close>, once the joined node \<open>n\<close> is the focus.\<close>

definition merge_tail ::
    "'r bpnode \<Rightarrow> bpkey \<Rightarrow> (bpkey \<times> 'r bpnode) list \<Rightarrow> bpkey \<Rightarrow> (bpkey \<times> 'r bpnode) list
      \<Rightarrow> 'r crumb list \<Rightarrow> 'r bpnode option" where
  "merge_tail n pk ls lk rs path =
     (if path = [] \<and> ls = [] \<and> rs = [] then bpsplit n []
      else if MAXDEGREE < pointerNum n then bpsplit n (Crumb pk ls lk rs # path)
      else bpmerge (BPInner pk (ls @ (lk, n) # rs)) path)"

lemma bpmerge_left:
  "pointerNum n < MINDEGREE \<Longrightarrow> join_nodes (snd l) n = Some m \<Longrightarrow>
     bpmerge n (Crumb pk (ls @ [l]) lk rs # path) = merge_tail m pk ls lk rs path"
  by (simp add: merge_tail_def)

lemma bpmerge_right:
  "pointerNum n < MINDEGREE \<Longrightarrow> join_nodes n (snd r) = Some m \<Longrightarrow>
     bpmerge n (Crumb pk [] lk (r # rs) # path) = merge_tail m pk [] (fst r) rs path"
  by (simp add: merge_tail_def)

text \<open>What \<open>bpmerge\<close> promises for a focus whose path is given.\<close>

definition merges_ok :: "nat \<Rightarrow> 'r crumb list \<Rightarrow> bool" where
  "merges_ok h p \<longleftrightarrow> (\<forall>n. wfn h n \<longrightarrow> pointerNum n \<le> MAXDEGREE \<longrightarrow> wfpath h (nkey n) p \<longrightarrow>
     (p = [] \<longrightarrow> deg_ok h p (pointerNum n)) \<longrightarrow> ksorted (pre p @ inorder n @ post p) \<longrightarrow>
     (\<exists>r. bpmerge n p = Some r \<and> wf_root r \<and> inorder r = pre p @ inorder n @ post p))"

lemma merge_tail_ok:
  assumes IH: "merges_ok (Suc h) p"
    and n: "wfn h n" "MINDEGREE \<le> pointerNum n" "pointerNum n \<le> 13" "nkey n = k"
    and path: "pk = (if rs = [] then k else fst (last rs))"
      "\<forall>l \<in> set ls \<union> set rs. kid_ok h l" "length ls + length rs < MAXDEGREE"
      "p \<noteq> [] \<longrightarrow> 3 \<le> length ls + length rs + 1" "wfpath (Suc h) pk p"
    and srt: "ksorted (pre (Crumb pk ls k rs # p) @ inorder n @ post (Crumb pk ls k rs # p))"
  shows "\<exists>r. merge_tail n pk ls k rs p = Some r \<and> wf_root r
    \<and> inorder r = pre (Crumb pk ls k rs # p) @ inorder n @ post (Crumb pk ls k rs # p)"
proof -
  let ?c = "Crumb pk ls k rs # p" and ?par = "BPInner pk (ls @ (k, n) # rs)"
  consider (collapse) "p = []" "ls = []" "rs = []"
    | (split) "\<not> (p = [] \<and> ls = [] \<and> rs = [])" "MAXDEGREE < pointerNum n"
    | (up) "\<not> (p = [] \<and> ls = [] \<and> rs = [])" "pointerNum n \<le> MAXDEGREE"
    by linarith
  then show ?thesis
  proof cases
    case collapse
    then show ?thesis
      using bpsplit_correct [of h n "[]"] n srt by (simp add: merge_tail_def deg_ok_def)
  next
    case split
    have "ksorted (leaves_of ls @ inorder n)"
      using srt by (simp add: sorted_wrt_append)
    then obtain n' where n': "bpsplit n ?c = bpsplit n' p" "wfn (Suc h) n'" "nkey n' = pk"
        "pointerNum n' = length ls + length rs + 2"
        "inorder n' = leaves_of ls @ inorder n @ leaves_of rs"
      using bpsplit_step [OF n(1) split(2) n(3,4) path(2,1)] by blast
    have "deg_ok (Suc h) p (pointerNum n')" "pointerNum n' \<le> 13"
      using path(3,4) n'(4) by (auto simp: deg_ok_def)
    then have "\<exists>r. bpsplit n' p = Some r \<and> wf_root r \<and> inorder r = pre p @ inorder n' @ post p"
      using bpsplit_correct [of "Suc h" n' p] n' path(5) srt by simp
    moreover have "merge_tail n pk ls k rs p = bpsplit n' p"
      unfolding merge_tail_def using split n'(1) by (simp only: if_False if_True)
    ultimately show ?thesis using n'(5) by simp
  next
    case up
    have par: "wfn (Suc h) ?par" "pointerNum ?par \<le> MAXDEGREE" "nkey ?par = pk"
      using n path up by (auto simp: wfn_inner kid_ok_def)
    moreover have "p = [] \<longrightarrow> deg_ok (Suc h) p (pointerNum ?par)"
      using up by (auto simp: deg_ok_def Suc_le_eq)
    ultimately show ?thesis
      using IH srt path(5) up unfolding merges_ok_def by (auto simp: merge_tail_def)
  qed
qed

lemma bpmerge_correct: "merges_ok h p"
proof (induction p arbitrary: h)
  case Nil
  show ?case unfolding merges_ok_def
    using wf_root_rebuild [of h _ "[]"] by (auto simp: deg_ok_def)
next
  case (Cons x p)
  obtain pk ls lk rs where x [simp]: "x = Crumb pk ls lk rs" by (cases x)
  show ?case unfolding merges_ok_def
  proof (intro allI impI)
    fix n :: "'a bpnode"
    assume n: "wfn h n" "pointerNum n \<le> MAXDEGREE" and path: "wfpath h (nkey n) (x # p)"
      and srt: "ksorted (pre (x # p) @ inorder n @ post (x # p))"
    let ?goal = "\<lambda>res. \<exists>r. res = Some r \<and> wf_root r \<and> inorder r = pre (x # p) @ inorder n @ post (x # p)"
    have pth: "lk = nkey n" "\<forall>l \<in> set ls \<union> set rs. kid_ok h l"
      "pk = (if rs = [] then nkey n else fst (last rs))" "wfpath (Suc h) pk p"
      "length ls + length rs < MAXDEGREE" "1 \<le> length ls + length rs"
      "p \<noteq> [] \<longrightarrow> 4 \<le> length ls + length rs + 1"
      using path by (auto split: if_splits)
    show "?goal (bpmerge n (x # p))"
    proof (cases "MINDEGREE \<le> pointerNum n")
      case True
      have "wf_root (rebuild n (x # p))"
        using wf_root_rebuild [OF n(1) path _ n(2) srt] True by (simp add: deg_ok_def)
      with True show ?thesis by (simp add: inorder_simps del: rebuild.simps)
    next
      case small: False
      show ?thesis
      proof (cases ls rule: rev_cases)
        case (snoc ls' l)
        then have l: "kid_ok h l" using pth(2) by simp
        obtain m where m: "join_nodes (snd l) n = Some m" "wfn h m" "nkey m = nkey n"
          "inorder m = inorder (snd l) @ inorder n" "pointerNum m = pointerNum (snd l) + pointerNum n"
          using join_nodes_wf [of h "snd l" n] l n(1) by (auto simp: kid_ok_def)
        have "?goal (merge_tail m pk ls' lk rs p)"
          using merge_tail_ok [OF Cons.IH, of h m "nkey n" pk rs ls'] m l pth snoc small srt
          by (auto simp: kid_ok_def)
        with snoc small m(1) show ?thesis
          using bpmerge_left [of n l m pk ls' lk rs p] by simp
      next
        case Nil
        then obtain r rs' where rs: "rs = r # rs'" using pth(6) by (cases rs) auto
        then have r: "kid_ok h r" "fst r = nkey (snd r)" using pth(2) by (auto simp: kid_ok_def)
        obtain m where m: "join_nodes n (snd r) = Some m" "wfn h m" "nkey m = nkey (snd r)"
          "inorder m = inorder n @ inorder (snd r)" "pointerNum m = pointerNum n + pointerNum (snd r)"
          using join_nodes_wf [of h n "snd r"] r n(1) by (auto simp: kid_ok_def)
        have "?goal (merge_tail m pk [] (fst r) rs' p)"
          using merge_tail_ok [OF Cons.IH, of h m "fst r" pk rs' "[]"] m r pth Nil rs small srt
          by (auto simp: kid_ok_def)
        with Nil rs small m(1) show ?thesis
          using bpmerge_right [of n r m pk lk rs' p] by simp
      qed
    qed
  qed
qed

section \<open>The descents\<close>

text \<open>A focus that is in place: its subtree and its path are as in a well-formed tree.\<close>

definition focus_ok :: "nat \<Rightarrow> 'r bpnode \<Rightarrow> 'r crumb list \<Rightarrow> bpkey \<Rightarrow> bool" where
  "focus_ok h n p k \<longleftrightarrow> wfn h n \<and> wfpath h k p \<and> deg_ok h p (pointerNum n)
     \<and> pointerNum n \<le> MAXDEGREE \<and> ksorted (pre p @ inorder n @ post p)"

lemma focus_root:
  assumes "wf_root n"
  obtains h where "focus_ok h n [] k"
  using assms by (auto simp: wf_root_def focus_ok_def deg_ok_def)

lemma focus_kid:
  assumes "focus_ok h (BPInner k ls) p k" and "ls = a @ (lk, c) # b"
  shows "focus_ok (h - 1) c (Crumb k a lk b # p) (nkey c)" "lk = nkey c" "0 < h"
proof -
  have w: "0 < h" "k = fst (last ls)" "\<forall>l \<in> set ls. kid_ok (h - 1) l" "wfpath h k p"
    using assms(1) by (auto simp: focus_ok_def wfn_inner)
  then have c: "kid_ok (h - 1) (lk, c)" using assms(2) by simp
  then show "lk = nkey c" "0 < h" using w by (auto simp: kid_ok_def)
  show "focus_ok (h - 1) c (Crumb k a lk b # p) (nkey c)"
    using assms w c by (auto simp: focus_ok_def deg_ok_def kid_ok_def last_append split: if_splits)
qed

lemma descend_ok:
  assumes "focus_ok h n p (nkey n)" "key \<le> nkey n" "\<forall>x \<in> set (pre p). fst x < key"
  shows "\<exists>k vs p'. descend key n p = Some (BPLeaf k vs, p') \<and> focus_ok 0 (BPLeaf k vs) p' k
    \<and> key \<le> k \<and> (\<forall>x \<in> set (pre p'). fst x < key)
    \<and> pre p' @ vs @ post p' = pre p @ inorder n @ post p"
  using assms
proof (induction key n p arbitrary: h rule: descend.induct)
  case (1 key k vs p)
  then have "h = 0" by (simp add: focus_ok_def)
  with 1 show ?case by simp
next
  case (2 key k ls p)
  have w: "ls \<noteq> []" "k = fst (last ls)" "\<forall>l \<in> set ls. kid_ok (h - 1) l"
    using "2.prems"(1) by (auto simp: focus_ok_def wfn_inner)
  have "seek key ls \<noteq> None"
    using w "2.prems"(2) last_in_set [OF w(1)] by (auto simp: seek_None not_less)
  then obtain a lk c b where sk: "seek key ls = Some (a, (lk, c), b)" by auto
  note ls = seek_Some [OF sk]
  note f = focus_kid [OF _ ls [THEN conjunct1], of h k p]
  have f': "focus_ok (h - 1) c (Crumb k a lk b # p) (nkey c)" "lk = nkey c"
    using f "2.prems"(1) by auto
  have srt: "ksorted (leaves_of a)" and ka: "\<forall>l \<in> set a. kid_ok (h - 1) l"
    using "2.prems"(1) ls w(3) by (auto simp: focus_ok_def sorted_wrt_append)
  have "\<forall>x \<in> set (leaves_of a). fst x < key"
  proof
    fix x assume "x \<in> set (leaves_of a)"
    then obtain l where l: "l \<in> set a" "x \<in> set (inorder (snd l))" by auto
    then obtain a1 a2 where "a = a1 @ l # a2" by (meson split_list)
    then have "ksorted (inorder (snd l))" using srt by (simp add: sorted_wrt_append)
    then have "fst x \<le> fst l" using kid_keys_le [of "h - 1" l x] ka l by auto
    also have "fst l < key" using ls l(1) by blast
    finally show "fst x < key" .
  qed
  then have "\<forall>x \<in> set (pre (Crumb k a lk b # p)). fst x < key" using "2.prems"(3) by auto
  then show ?case using "2.IH" [OF sk refl refl refl f'(1)] ls f'(2) sk by auto
qed

lemma ins_descend_descend:
  "descend key n p = Some (l, p') \<Longrightarrow>
     ins_descend key n p = Some (InsertAt l p') \<or> ins_descend key n p = Some AlreadyThere"
  by (induction key n p rule: descend.induct) (auto split: option.splits prod.splits)

lemma ins_descend_there:
  "wfn h n \<Longrightarrow> ins_descend key n p = Some AlreadyThere \<Longrightarrow> key \<in> fst ` set (inorder n)"
proof (induction key n p arbitrary: h rule: ins_descend.induct)
  case (2 key k ls p)
  then obtain a lk c b where sk: "seek key ls = Some (a, (lk, c), b)"
    by (auto split: option.splits)
  have mem: "(lk, c) \<in> set ls" using seek_Some [OF sk] by auto
  then have kid: "kid_ok (h - 1) (lk, c)" using "2.prems"(1) by (auto simp: wfn_inner)
  have "key \<in> fst ` set (inorder c)"
  proof (cases "lk = key")
    case True
    then show ?thesis using kid_key_mem [OF kid] by simp
  next
    case False
    then show ?thesis
      using "2.IH" [OF sk refl refl refl, of "h - 1"] "2.prems"(2) sk kid by (simp add: kid_ok_def)
  qed
  then obtain y where "y \<in> set (inorder c)" "fst y = key" by auto
  then show ?case using mem by force
qed simp

lemma rightmost_ok:
  assumes "wfn h n" "wfpath h key p" "deg_ok h p (pointerNum n)" "pointerNum n \<le> MAXDEGREE"
    and "post p = []"
  shows "\<exists>k vs p'. rightmost key n p = Some (BPLeaf k vs, p') \<and> vs \<noteq> [] \<and> wfpath 0 key p'
    \<and> deg_ok 0 p' (length vs) \<and> length vs \<le> MAXDEGREE \<and> post p' = []
    \<and> pre p' @ vs = pre p @ inorder n"
  using assms
proof (induction key n p arbitrary: h rule: rightmost.induct)
  case (1 key k vs p)
  then show ?case by auto
next
  case (2 key k ls p)
  then obtain ls' l where ls: "ls = ls' @ [l]" "kid_ok (h - 1) l" "0 < h" "\<forall>l \<in> set ls'. kid_ok (h - 1) l"
    by (cases ls rule: rev_cases) (auto simp: wfn_inner)
  let ?p = "Crumb key ls' key [] # p"
  have "Suc (h - 1) = h" using ls(3) by simp
  then have w: "wfpath (h - 1) key ?p"
    using "2.prems"(2-4) ls(1,4) by (auto simp: deg_ok_def)
  show ?case
    using "2.IH" [of "h - 1"] w ls "2.prems"(5) by (simp add: kid_ok_def deg_ok_def del: wfpath.simps)
qed

section \<open>The list of values\<close>

lemma dl_append_last_eq:
  "k \<notin> fst ` set xs \<Longrightarrow> dl_append_last k v (xs @ [(k, r)]) = xs @ [(k, r), v]"
  by (induction xs) auto

lemma dl_insert_before_eq:
  "k \<notin> fst ` set xs \<Longrightarrow> fst m = k \<Longrightarrow> dl_insert_before k v (xs @ m # ys) = xs @ v # m # ys"
  by (induction xs) auto

lemma dl_insert_after_eq:
  "k \<notin> fst ` set xs \<Longrightarrow> fst m = k \<Longrightarrow> dl_insert_after k v (xs @ m # ys) = xs @ m # v # ys"
  by (induction xs) auto

lemma dl_unlink_eq:
  "k \<notin> fst ` set xs \<Longrightarrow> fst m = k \<Longrightarrow> dl_unlink k (xs @ m # ys) = xs @ ys"
  by (induction xs) auto

lemma ksorted_mid:
  assumes "ksorted (xs @ m # ys)"
  shows "fst m \<notin> fst ` set xs" "fst m \<notin> fst ` set ys" "\<forall>x \<in> set xs. fst x < fst m"
    "\<forall>y \<in> set ys. fst m < fst y"
  using assms by (auto simp: sorted_wrt_append)

lemma map_of_mid:
  "ksorted (xs @ m # ys) \<Longrightarrow> \<forall>x \<in> set xs. fst x < k \<Longrightarrow> k \<le> fst m \<Longrightarrow>
     map_of (xs @ m # ys) k = (if fst m = k then Some (snd m) else None)"
  using ksorted_mid [of xs m ys]
  by (subst map_of_append_notin, force)
     (cases m, auto simp: map_of_eq_None_iff)

lemma insort_mid:
  "\<forall>x \<in> set xs. fst x < k \<Longrightarrow> (ys = [] \<or> k \<le> fst (hd ys)) \<Longrightarrow>
     insort_key fst (k, r) (xs @ ys) = xs @ (k, r) # ys"
  by (induction xs) (auto, cases ys, auto)

lemma filter_mid:
  assumes "ksorted (xs @ m # ys)"
  shows "filter (\<lambda>x. fst x \<noteq> fst m) (xs @ m # ys) = xs @ ys"
proof -
  have "filter (\<lambda>x. fst x \<noteq> fst m) xs = xs" "filter (\<lambda>x. fst x \<noteq> fst m) ys = ys"
    using ksorted_mid [OF assms] by (auto simp: filter_id_conv)
  then show ?thesis by simp
qed

section \<open>The invariant\<close>

definition bp_inv :: "'r bptree \<Rightarrow> bool" where
  "bp_inv t \<longleftrightarrow> (case root t of
       None \<Rightarrow> header t = []
     | Some n \<Rightarrow> wf_root n \<and> header t = inorder n)
     \<and> tsize t = int (length (header t))"

lemma bp_inv_init: "bp_inv bpinit"
  by (simp add: bp_inv_def bpinit_def)

lemma bp_inv_ksorted: "bp_inv t \<Longrightarrow> ksorted (header t)"
  by (auto simp: bp_inv_def wf_root_def split: option.splits)

lemma bp_inv_root:
  assumes "bp_inv t" "root t = Some n"
  shows "wf_root n" "header t = inorder n" "header t \<noteq> []" "nkey n = fst (last (header t))"
    "tsize t = int (length (inorder n))"
  using assms wfn_nonempty by (auto simp: bp_inv_def wf_root_def)

lemma last_key_max:
  "ksorted xs \<Longrightarrow> x \<in> set xs \<Longrightarrow> fst x \<le> fst (last xs)"
  by (cases xs rule: rev_cases) (auto simp: sorted_wrt_append intro: less_imp_le)

section \<open>Search is correct\<close>

lemma rekey_None: "rekey key nk ls = None \<longleftrightarrow> (\<forall>l \<in> set ls. fst l \<noteq> key)"
  by (induction ls) auto

text \<open>Where a descent ends: the values on both sides of the place of the key.\<close>

lemma descend_root:
  assumes inv: "bp_inv t" "root t = Some n" and key: "key \<le> nkey n"
  obtains k a m b p where "descend key n [] = Some (BPLeaf k (a @ m # b), p)"
    "seek key (a @ m # b) = Some (a, m, b)"
    "focus_ok 0 (BPLeaf k (a @ m # b)) p k"
    "header t = (pre p @ a) @ m # b @ post p"
    "\<forall>x \<in> set (pre p @ a). fst x < key" "key \<le> fst m" "\<forall>x \<in> set a. fst x < key"
proof -
  note r = bp_inv_root [OF inv]
  obtain h where "focus_ok h n [] (nkey n)" using r(1) focus_root by blast
  from descend_ok [OF this key] obtain k vs p where
    d: "descend key n [] = Some (BPLeaf k vs, p)" "focus_ok 0 (BPLeaf k vs) p k" "key \<le> k"
      "\<forall>x \<in> set (pre p). fst x < key" "pre p @ vs @ post p = inorder n"
    by auto
  have vs: "vs \<noteq> []" "k = fst (last vs)" using d(2) by (auto simp: focus_ok_def)
  then have "seek key vs \<noteq> None"
    using d(3) last_in_set [OF vs(1)] by (auto simp: seek_None not_less)
  then obtain a m b where sk: "seek key vs = Some (a, m, b)" by auto
  note s = seek_Some [OF sk]
  show thesis
    by (rule that [of k a m b p]) (use s sk d r(2) in auto)
qed

lemma bpsearch_ok:
  assumes inv: "bp_inv t"
  shows "bpsearch t key = Some (map_of (header t) key)"
proof (cases "root t")
  case None
  with inv show ?thesis by (simp add: bpsearch_def bpsearch_value_def bp_inv_def)
next
  case (Some n)
  note r = bp_inv_root [OF inv Some]
  show ?thesis
  proof (cases "nkey n < key")
    case True
    then have "map_of (header t) key = None"
      using last_key_max [OF bp_inv_ksorted [OF inv]] r(4) by (force simp: map_of_eq_None_iff)
    with True Some r(3) show ?thesis by (simp add: bpsearch_def bpsearch_value_def)
  next
    case False
    then obtain k a m b p where d: "descend key n [] = Some (BPLeaf k (a @ m # b), p)"
      "seek key (a @ m # b) = Some (a, m, b)" "header t = (pre p @ a) @ m # b @ post p"
      "\<forall>x \<in> set (pre p @ a). fst x < key" "key \<le> fst m"
      using descend_root [OF inv Some] by (metis linorder_not_less)
    have "map_of (header t) key = (if fst m = key then Some (snd m) else None)"
      unfolding d(3) using map_of_mid [OF _ d(4,5)] bp_inv_ksorted [OF inv] d(3) by metis
    with d Some False r(3) show ?thesis
      by (cases m) (auto simp: bpsearch_def bpsearch_value_def)
  qed
qed

section \<open>Insertion is correct\<close>

lemma focus_leaf_grow:
  assumes "wfn 0 (BPLeaf k' vs')" "wfpath 0 k' p" "deg_ok 0 p d" "d \<le> length vs'"
    and "length vs' \<le> 13" "ksorted (pre p @ vs' @ post p)"
  shows "\<exists>r. bpsplit (BPLeaf k' vs') p = Some r \<and> wf_root r \<and> inorder r = pre p @ vs' @ post p"
proof -
  have "deg_ok 0 p (length vs')" using assms(3,4) by (auto simp: deg_ok_def split: if_splits)
  then show ?thesis using bpsplit_correct [OF assms(1), of p] assms by simp
qed

lemma bpinsert_max_ok:
  assumes inv: "bp_inv t" "root t = Some n" and key: "nkey n < key"
  shows "\<exists>t'. bpinsert_max t n key r = Some (t', 0) \<and> bp_inv t' \<and> header t' = header t @ [(key, r)]"
proof -
  note rt = bp_inv_root [OF inv]
  obtain h where "focus_ok h n [] key" using rt(1) focus_root by blast
  then obtain k vs p where
    d: "rightmost key n [] = Some (BPLeaf k vs, p)" "vs \<noteq> []" "wfpath 0 key p"
      "deg_ok 0 p (length vs)" "length vs \<le> MAXDEGREE" "post p = []" "pre p @ vs = header t"
    using rightmost_ok [of h n key "[]"] rt(2) by (auto simp: focus_ok_def)
  have max: "\<forall>x \<in> set (header t). fst x < key"
    using last_key_max [OF bp_inv_ksorted [OF inv(1)]] rt(4) key by force
  then have srt: "ksorted (header t @ [(key, r)])"
    using bp_inv_ksorted [OF inv(1)] by (simp add: sorted_wrt_append)
  then obtain rt' where rt': "bpsplit (BPLeaf key (vs @ [(key, r)])) p = Some rt'" "wf_root rt'"
      "inorder rt' = header t @ [(key, r)]"
    using focus_leaf_grow [of key "vs @ [(key, r)]" p "length vs"] d(3-6) by (auto simp flip: d(7))
  obtain vs' v where vs: "vs = vs' @ [v]" using d(2) by (metis append_butlast_last_id)
  have hd: "header t = (pre p @ vs') @ [(fst v, snd v)]" using d(7) vs by simp
  have "fst v \<notin> fst ` set (pre p @ vs')"
    using bp_inv_ksorted [OF inv(1)] hd by (auto simp: sorted_wrt_append)
  from dl_append_last_eq [OF this, of "(key, r)" "snd v"]
  have "dl_append_last (fst (last vs)) (key, r) (header t) = header t @ [(key, r)]"
    using hd vs by simp
  then show ?thesis using d(1,2) rt' inv(1) by (auto simp: bpinsert_max_def bp_inv_def)
qed

lemma bpinsert_mid_ok:
  assumes inv: "bp_inv t" "root t = Some n" and key: "key \<le> nkey n"
  shows "\<exists>t'. bpinsert_mid t n key r = Some (t', 0) \<and> bp_inv t'
    \<and> (if key \<in> fst ` set (header t) then t' = t
       else header t' = insort_key fst (key, r) (header t) \<and> tsize t' = tsize t + 1)"
proof -
  note rt = bp_inv_root [OF inv]
  obtain k a m b p where d: "descend key n [] = Some (BPLeaf k (a @ m # b), p)"
    "seek key (a @ m # b) = Some (a, m, b)" "focus_ok 0 (BPLeaf k (a @ m # b)) p k"
    "header t = (pre p @ a) @ m # b @ post p" "\<forall>x \<in> set (pre p @ a). fst x < key" "key \<le> fst m"
    "\<forall>x \<in> set a. fst x < key"
    using descend_root [OF inv key] by metis
  show ?thesis
  proof (cases "ins_descend key n [] = Some AlreadyThere")
    case True
    then have "key \<in> fst ` set (header t)"
      using rt(1,2) ins_descend_there by (auto simp: wf_root_def)
    with True inv(1) show ?thesis by (simp add: bpinsert_mid_def)
  next
    case False
    then have desc: "ins_descend key n [] = Some (InsertAt (BPLeaf k (a @ m # b)) p)"
      using ins_descend_descend [OF d(1)] by blast
    show ?thesis
    proof (cases "fst m = key")
      case True
      then have "key \<in> fst ` set (header t)" using d(4) by auto
      with True desc d(2) inv(1) show ?thesis by (simp add: bpinsert_mid_def)
    next
      case new: False
      then have less: "key < fst m" using d(6) by simp
      have srt0: "ksorted ((pre p @ a) @ m # b @ post p)"
        using bp_inv_ksorted [OF inv(1)] d(4) by simp
      note mid = ksorted_mid [OF srt0]
      have notin: "key \<notin> fst ` set (header t)"
        using d(4,5) mid(4) less by fastforce
      let ?L = "(pre p @ a) @ (key, r) # m # b @ post p"
      have "\<forall>y \<in> set b \<union> set (post p). key < fst y"
        using mid(4) less less_trans by fastforce
      then have srt: "ksorted ?L"
        using srt0 d(5) mid less by (auto simp: sorted_wrt_append)
      obtain rt' where rt': "bpsplit (BPLeaf k (a @ (key, r) # m # b)) p = Some rt'" "wf_root rt'"
          "inorder rt' = ?L"
        using focus_leaf_grow [of k "a @ (key, r) # m # b" p "length (a @ m # b)"] d(3) srt
        by (auto simp: focus_ok_def)
      let ?prev = "if a = [] then last (m # b) else last a"
      have hd: "(if key < fst ?prev then dl_insert_before (fst m) (key, r) (header t)
                 else dl_insert_after (fst ?prev) (key, r) (header t)) = ?L"
      proof (cases a rule: rev_cases)
        case Nil
        have "key < fst (last (m # b))" using less mid(4) by (cases b rule: rev_cases) auto
        with Nil show ?thesis unfolding d(4)
          using dl_insert_before_eq [OF mid(1) refl, of "(key, r)" "b @ post p"] by simp
      next
        case (snoc a' x)
        then have x: "fst x < key" using d(7) by simp
        have "fst x \<notin> fst ` set (pre p @ a')" using srt0 snoc by (auto simp: sorted_wrt_append)
        from dl_insert_after_eq [OF this refl, of "(key, r)" "m # b @ post p"] snoc x
          less_not_sym [OF x]
        show ?thesis unfolding d(4) by simp
      qed
      have ins: "insort_key fst (key, r) (header t) = ?L"
        unfolding d(4) using insort_mid [OF d(5)] less by simp
      let ?t = "t\<lparr>root := Some rt', header := ?L, tsize := tsize t + 1\<rparr>"
      have "bpinsert_mid t n key r = Some (?t, 0)"
        using desc d(2) new rt'(1) hd by (simp add: bpinsert_mid_def Let_def)
      moreover have "bp_inv ?t"
        using rt' inv(1) d(4) by (simp add: bp_inv_def)
      ultimately show ?thesis using notin ins by simp
    qed
  qed
qed

lemma bpinsert_ok:
  assumes inv: "bp_inv t"
  shows "\<exists>t' ret. bpinsert t key r = Some (t', ret) \<and> bp_inv t'
    \<and> (if tsize t = MAXBPSIZE then t' = t \<and> ret = -1
       else ret = 0
         \<and> (if key \<in> fst ` set (header t) then t' = t
            else header t' = insort_key fst (key, r) (header t)))"
proof (cases "root t")
  case None
  with inv show ?thesis
    by (auto simp: bpinsert_def bpinsert_value_def bpinsert_first_def bp_inv_def wf_root_def
        intro: exI [of _ 0])
next
  case (Some n)
  note rt = bp_inv_root [OF inv Some]
  show ?thesis
  proof (cases "nkey n < key")
    case True
    then have max: "\<forall>x \<in> set (header t). fst x < key"
      using last_key_max [OF bp_inv_ksorted [OF inv]] rt(4) by force
    then have "insort_key fst (key, r) (header t) = header t @ [(key, r)]"
      using insort_mid [of "header t" key "[]"] by simp
    moreover have "key \<notin> fst ` set (header t)" using max by auto
    ultimately show ?thesis using bpinsert_max_ok [OF inv Some True, of r] inv Some True
      by (auto simp: bpinsert_def bpinsert_value_def)
  next
    case False
    then show ?thesis using bpinsert_mid_ok [OF inv Some, of key r] inv Some
      by (cases "key \<in> fst ` set (header t)") (auto simp: bpinsert_def bpinsert_value_def not_less)
  qed
qed

section \<open>Deletion is correct\<close>

lemma fix_keys_ok:
  assumes "wfpath h key p" "ksorted (pre p @ xs @ [(key, r)] @ post p)"
  shows "\<exists>p'. fix_keys key nk p = Some p' \<and> wfpath h nk p' \<and> pre p' = pre p \<and> post p' = post p
    \<and> (p' = [] \<longleftrightarrow> p = [])"
  using assms
proof (induction p arbitrary: h xs)
  case (Cons x p)
  obtain pk ls lk rs where x [simp]: "x = Crumb pk ls lk rs" by (cases x)
  have w: "lk = key" "pk = (if rs = [] then key else fst (last rs))" "wfpath (Suc h) pk p"
    "\<forall>l \<in> set ls. kid_ok h l" "\<forall>l \<in> set rs. kid_ok h l"
    using Cons.prems(1) by auto
  have srt: "ksorted (leaves_of ls @ [(key, r)])" "ksorted ([(key, r)] @ leaves_of rs @ post p)"
    using Cons.prems(2) by (auto simp: sorted_wrt_append)
  show ?case
  proof (cases "rs = []")
    case True
    then have "ksorted (pre p @ (leaves_of ls @ xs) @ [(key, r)] @ post p)"
      using Cons.prems(2) by simp
    from Cons.IH [OF _ this, of "Suc h"] show ?thesis
      using w True Cons.prems(1) by auto
  next
    case False
    have "key < fst (last rs)"
      using right_links_greater [OF w(5) srt(2)] False by auto
    moreover have "rekey key nk ls = None"
      using left_links_less [OF w(4) srt(1)] by (auto simp: rekey_None)
    ultimately show ?thesis using w False Cons.prems(1) by auto
  qed
qed simp

lemma merge_leaf_ok:
  assumes "wfn 0 (BPLeaf k vs)" "wfpath 0 k p" "length vs \<le> MAXDEGREE"
    and "ksorted (pre p @ vs @ post p)"
  shows "\<exists>r. bpmerge (BPLeaf k vs) p = Some r \<and> wf_root r \<and> inorder r = pre p @ vs @ post p"
proof -
  have "deg_ok 0 [] (length vs)" using assms(1) by (cases vs) (auto simp: deg_ok_def)
  then show ?thesis
    using bpmerge_correct [of 0 p, unfolded merges_ok_def, rule_format, of "BPLeaf k vs"] assms
    by (auto simp: deg_ok_def)
qed

text \<open>What deletion promises.\<close>

definition deletes :: "'r bptree \<Rightarrow> bpkey \<Rightarrow> ('r bptree \<times> (bpkey \<times> 'r) option) option \<Rightarrow> bool" where
  "deletes t key res \<longleftrightarrow> (\<exists>t' v. res = Some (t', v) \<and> bp_inv t'
     \<and> map_option snd v = map_of (header t) key
     \<and> header t' = filter (\<lambda>x. fst x \<noteq> key) (header t))"

lemma deletes_absent:
  assumes "bp_inv t" "map_of (header t) key = None"
  shows "deletes t key (Some (t, None))"
proof -
  have "filter (\<lambda>x. fst x \<noteq> key) (header t) = header t"
    using assms(2) by (auto simp: filter_id_conv map_of_eq_None_iff)
  with assms show ?thesis by (simp add: deletes_def)
qed

lemma deletes_present:
  assumes inv: "bp_inv t" and hd: "header t = L @ m # R" "fst m = key"
    and rt: "wf_root rt" "inorder rt = L @ R"
  shows "deletes t key (Some (t\<lparr>root := Some rt, header := dl_unlink (fst m) (header t),
    tsize := tsize t - 1\<rparr>, Some m))"
proof -
  have srt: "ksorted (L @ m # R)" using bp_inv_ksorted [OF inv] hd by simp
  have "dl_unlink (fst m) (header t) = L @ R"
    using dl_unlink_eq [OF ksorted_mid(1) [OF srt] refl] hd by simp
  moreover have "filter (\<lambda>x. fst x \<noteq> key) (header t) = L @ R"
    using filter_mid [OF srt] hd by simp
  moreover have "map_of (header t) key = Some (snd m)"
    using map_of_mid [OF srt, of key] ksorted_mid(3) [OF srt] hd by simp
  moreover have "tsize t = int (length (L @ m # R))"
    using inv hd by (simp add: bp_inv_def)
  ultimately show ?thesis using rt by (cases m) (auto simp: deletes_def bp_inv_def)
qed

lemma bpdelete_last_ok:
  assumes inv: "bp_inv t" and f: "focus_ok 0 (BPLeaf key (vs @ [v])) p key"
    and hd: "header t = pre p @ (vs @ [v]) @ post p" and vs: "vs \<noteq> []"
  shows "deletes t key (bpdelete_last t key v vs p)"
proof -
  have v: "fst v = key" and len: "length vs \<le> MAXDEGREE"
    using f by (auto simp: focus_ok_def)
  have srt: "ksorted (pre p @ vs @ [v] @ post p)" "ksorted (pre p @ vs @ post p)"
    using bp_inv_ksorted [OF inv] hd by (auto simp: sorted_wrt_append)
  let ?nk = "fst (last vs)"
  have leaf: "wfn 0 (BPLeaf ?nk vs)" using vs by simp
  obtain p' where p': "fix_keys key ?nk p = Some p'" "wfpath 0 ?nk p'" "pre p' = pre p"
    "post p' = post p" "p' = [] \<longleftrightarrow> p = []"
    using fix_keys_ok [of 0 key p vs "snd v" ?nk] f srt(1) v
    by (metis append_assoc focus_ok_def prod.collapse)
  obtain rt where rt: "bpmerge (BPLeaf ?nk vs) p' = Some rt" "wf_root rt"
    "inorder rt = pre p @ vs @ post p"
    using merge_leaf_ok [OF leaf p'(2) len] srt(2) p' by auto
  have "bpdelete_last t key v vs p
    = Some (t\<lparr>root := Some rt, header := dl_unlink (fst v) (header t), tsize := tsize t - 1\<rparr>, Some v)"
    using rt(1) p' vs by (auto simp: bpdelete_last_def Let_def)
  then show ?thesis
    using deletes_present [OF inv, of "pre p @ vs" v "post p" key rt] hd v rt by simp
qed

lemma bpdelete_mid_ok:
  assumes inv: "bp_inv t" and f: "focus_ok 0 (BPLeaf k (a @ m # b)) p k"
    and sk: "seek key (a @ m # b) = Some (a, m, b)"
    and hd: "header t = (pre p @ a) @ m # b @ post p"
    and less: "\<forall>x \<in> set (pre p @ a). fst x < key" "key \<le> fst m" and k: "k \<noteq> key"
  shows "deletes t key (bpdelete_mid t key k (a @ m # b) p)"
proof (cases "fst m = key")
  case False
  have "map_of (header t) key = None"
    using map_of_mid [of "pre p @ a" m "b @ post p" key] bp_inv_ksorted [OF inv] less False
    unfolding hd by simp
  then show ?thesis using deletes_absent [OF inv] False sk by (simp add: bpdelete_mid_def)
next
  case True
  then have "b \<noteq> []" using f k by (auto simp: focus_ok_def)
  then have leaf: "wfn 0 (BPLeaf k (a @ b))" "length (a @ b) \<le> MAXDEGREE" "wfpath 0 k p"
    using f by (auto simp: focus_ok_def last_append)
  have "ksorted (pre p @ (a @ b) @ post p)"
    using bp_inv_ksorted [OF inv] hd by (auto simp: sorted_wrt_append)
  then obtain rt where rt: "bpmerge (BPLeaf k (a @ b)) p = Some rt" "wf_root rt"
    "inorder rt = pre p @ (a @ b) @ post p"
    using merge_leaf_ok [OF leaf(1,3,2)] by auto
  then show ?thesis
    using deletes_present [OF inv hd True, of rt] sk True by (simp add: bpdelete_mid_def)
qed

lemma bpdelete_value_ok:
  assumes inv: "bp_inv t"
  shows "deletes t key (bpdelete_value t key)"
proof (cases "root t")
  case None
  with inv show ?thesis using deletes_absent [OF inv] by (simp add: bpdelete_value_def bp_inv_def)
next
  case (Some n)
  note r = bp_inv_root [OF inv Some]
  show ?thesis
  proof (cases "nkey n < key")
    case True
    then have "map_of (header t) key = None"
      using last_key_max [OF bp_inv_ksorted [OF inv]] r(4) by (force simp: map_of_eq_None_iff)
    with True Some r(3) deletes_absent [OF inv] show ?thesis by (simp add: bpdelete_value_def)
  next
    case False
    then obtain k a m b p where d: "descend key n [] = Some (BPLeaf k (a @ m # b), p)"
      "seek key (a @ m # b) = Some (a, m, b)" "focus_ok 0 (BPLeaf k (a @ m # b)) p k"
      "header t = (pre p @ a) @ m # b @ post p"
      "\<forall>x \<in> set (pre p @ a). fst x < key" "key \<le> fst m"
      using descend_root [OF inv Some] by (metis linorder_not_less)
    have k: "k = fst (last (a @ m # b))" using d(3) by (simp add: focus_ok_def)
    consider (single) "p = []" "a = []" "b = []"
      | (last) "\<not> (p = [] \<and> a = [] \<and> b = [])" "k = key"
      | (mid) "\<not> (p = [] \<and> a = [] \<and> b = [])" "k \<noteq> key"
      by blast
    then show ?thesis
    proof cases
      case single
      then have t: "header t = [m]" "k = fst m" using d(4) k by simp_all
      then have "bpdelete_value t key = (if fst m \<noteq> key then Some (t, None)
          else Some (t\<lparr>root := None, header := [], tsize := 0\<rparr>, Some m))"
        using Some False d(1) single r(3) by (simp add: bpdelete_value_def)
      moreover have "deletes t key (Some (t, None))" if "fst m \<noteq> key"
        using that deletes_absent [OF inv] t(1) by (cases m) simp
      moreover have "deletes t (fst m) (Some (t\<lparr>root := None, header := [], tsize := 0\<rparr>, Some m))"
        by (cases m) (auto simp: deletes_def t bp_inv_def)
      ultimately show ?thesis by (cases "fst m = key") simp_all
    next
      case last
      have "b = []"
      proof (rule ccontr)
        assume b: "b \<noteq> []"
        then have "fst m < fst (List.last b)"
          using ksorted_mid(4) [of "pre p @ a" m "b @ post p"] bp_inv_ksorted [OF inv] d(4) by simp
        with b k last(2) d(6) show False by simp
      qed
      then have "a \<noteq> []" using last d(3) by (auto simp: focus_ok_def deg_ok_def)
      have "bpdelete_value t key = bpdelete_last t key m a p"
        using Some False d(1) r(3) last \<open>a \<noteq> []\<close> \<open>b = []\<close> by (simp add: bpdelete_value_def)
      then show ?thesis
        using bpdelete_last_ok [OF inv, of key a m p] d(3,4) last \<open>b = []\<close> \<open>a \<noteq> []\<close> by simp
    next
      case mid
      then have "bpdelete_value t key = bpdelete_mid t key k (a @ m # b) p"
        using Some False d(1) r(3) by (auto simp: bpdelete_value_def)
      then show ?thesis using bpdelete_mid_ok [OF inv d(3,2,4,5,6) mid(2)] by simp
    qed
  qed
qed

lemma bpdelete_ok:
  assumes "bp_inv t"
  shows "\<exists>t'. bpdelete t key = Some (t', map_of (header t) key) \<and> bp_inv t'
    \<and> header t' = filter (\<lambda>x. fst x \<noteq> key) (header t)"
  using bpdelete_value_ok [OF assms, of key] by (auto simp: deletes_def bpdelete_def)

end
