(* ===== verification/StoreSpec.thy ===== *)
theory StoreSpec
  imports BPlus_Inv
begin

text \<open>
  The contract of a keyed store, as the tunnel table uses one: what search, insertion and
  deletion return and how they change the sorted list of entries.  The B+ tree provides it.
\<close>

locale ordered_store =
  fixes inv :: "'m \<Rightarrow> bool"
    and entries :: "'m \<Rightarrow> (bpkey \<times> 'r) list"
    and full :: "'m \<Rightarrow> bool"
    and find :: "'m \<Rightarrow> bpkey \<Rightarrow> 'r option option"
    and ins :: "'m \<Rightarrow> bpkey \<Rightarrow> 'r \<Rightarrow> ('m \<times> int) option"
    and del :: "'m \<Rightarrow> bpkey \<Rightarrow> ('m \<times> 'r option) option"
  assumes sorted: "inv m \<Longrightarrow> ksorted (entries m)"
    and find_entries: "inv m \<Longrightarrow> find m k = Some (map_of (entries m) k)"
    and ins_full: "inv m \<Longrightarrow> full m \<Longrightarrow> ins m k r = Some (m, -1)"
    and ins_present: "inv m \<Longrightarrow> \<not> full m \<Longrightarrow> k \<in> fst ` set (entries m) \<Longrightarrow> ins m k r = Some (m, 0)"
    and ins_new: "inv m \<Longrightarrow> \<not> full m \<Longrightarrow> k \<notin> fst ` set (entries m) \<Longrightarrow>
      \<exists>m'. ins m k r = Some (m', 0) \<and> inv m' \<and> entries m' = insort_key fst (k, r) (entries m)"
    and del_entries: "inv m \<Longrightarrow>
      \<exists>m'. del m k = Some (m', map_of (entries m) k) \<and> inv m'
        \<and> entries m' = filter (\<lambda>x. fst x \<noteq> k) (entries m)"
begin

lemma distinct_keys: "inv m \<Longrightarrow> distinct (map fst (entries m))"
  using sorted strict_sorted_iff by blast

lemma find_iff: "inv m \<Longrightarrow> find m k = Some (Some r) \<longleftrightarrow> (k, r) \<in> set (entries m)"
  using distinct_keys by (simp add: find_entries)

lemma find_None_iff: "inv m \<Longrightarrow> find m k = Some None \<longleftrightarrow> k \<notin> fst ` set (entries m)"
  by (simp add: find_entries map_of_eq_None_iff)

lemma ins_set:
  assumes "inv m" "\<not> full m" "k \<notin> fst ` set (entries m)"
  obtains m' where "ins m k r = Some (m', 0)" "inv m'"
    "set (entries m') = insert (k, r) (set (entries m))"
    "length (entries m') = Suc (length (entries m))"
  using ins_new [OF assms, of r] by (auto simp: set_insort_key)

lemma del_set:
  assumes "inv m"
  obtains m' where "del m k = Some (m', map_of (entries m) k)" "inv m'"
    "set (entries m') = {x \<in> set (entries m). fst x \<noteq> k}"
    "entries m' = filter (\<lambda>x. fst x \<noteq> k) (entries m)"
  using del_entries [OF assms, of k] by auto

lemma find_after_ins:
  assumes "inv m" "\<not> full m" "k \<notin> fst ` set (entries m)" "ins m k r = Some (m', x)"
  shows "find m' j = (if j = k then Some (Some r) else find m j)"
proof -
  obtain m2 where m2: "ins m k r = Some (m2, 0)" "inv m2"
    "set (entries m2) = insert (k, r) (set (entries m))"
    by (rule ins_set [OF assms(1-3), of r])
  from m2(1) have [simp]: "m' = m2" using assms(4) by simp
  show ?thesis
  proof (cases "j = k")
    case True
    then show ?thesis using find_iff [OF m2(2)] m2(3) by auto
  next
    case False
    then have "map_of (entries m2) j = map_of (entries m) j"
      using m2(3) by (intro map_of_cong distinct_keys m2(2) assms(1)) auto
    with False show ?thesis using find_entries m2(2) assms(1) by simp
  qed
qed

lemma find_after_del:
  assumes "inv m" "del m k = Some (m', x)"
  shows "find m' j = (if j = k then Some None else find m j)"
proof -
  obtain m2 where m2: "del m k = Some (m2, map_of (entries m) k)" "inv m2"
    "set (entries m2) = {x \<in> set (entries m). fst x \<noteq> k}"
    by (rule del_set [OF assms(1), of k])
  from m2(1) have [simp]: "m' = m2" using assms(2) by simp
  show ?thesis
  proof (cases "j = k")
    case True
    then show ?thesis using find_None_iff [OF m2(2)] m2(3) by auto
  next
    case False
    then have "map_of (entries m2) j = map_of (entries m) j"
      using m2(3) by (intro map_of_cong distinct_keys m2(2) assms(1)) auto
    with False show ?thesis using find_entries m2(2) assms(1) by simp
  qed
qed

end

text \<open>The B+ tree keeps the contract.\<close>

interpretation bp: ordered_store bp_inv header "\<lambda>t. tsize t = MAXBPSIZE" bpsearch bpinsert bpdelete
proof unfold_locales
  fix t :: "'r bptree" and k r
  assume inv: "bp_inv t"
  show "ksorted (header t)" by (rule bp_inv_ksorted [OF inv])
  show "bpsearch t k = Some (map_of (header t) k)" by (rule bpsearch_ok [OF inv])
  show "tsize t = MAXBPSIZE \<Longrightarrow> bpinsert t k r = Some (t, -1)"
    using bpinsert_ok [OF inv, of k r] by auto
  show "tsize t \<noteq> MAXBPSIZE \<Longrightarrow> k \<in> fst ` set (header t) \<Longrightarrow> bpinsert t k r = Some (t, 0)"
    using bpinsert_ok [OF inv, of k r] by auto
  show "tsize t \<noteq> MAXBPSIZE \<Longrightarrow> k \<notin> fst ` set (header t) \<Longrightarrow>
      \<exists>m'. bpinsert t k r = Some (m', 0) \<and> bp_inv m'
        \<and> header m' = insort_key fst (k, r) (header t)"
    using bpinsert_ok [OF inv, of k r] by auto
  show "\<exists>m'. bpdelete t k = Some (m', map_of (header t) k) \<and> bp_inv m'
      \<and> header m' = filter (\<lambda>x. fst x \<noteq> k) (header t)"
    using bpdelete_ok [OF inv, of k] by blast
qed

section \<open>Runs of operations\<close>

text \<open>
  A run of insertions, deletions and searches on one tree, with what each returns, and the
  same run on a finite map that holds at most \<open>MAXBPSIZE\<close> keys and never overwrites one.
\<close>

datatype 'r bpop = Insert bpkey 'r | Delete bpkey | Search bpkey

datatype 'r bpres = Code int | Rec "'r option"

definition bp_step :: "'r bptree \<Rightarrow> 'r bpop \<Rightarrow> ('r bptree \<times> 'r bpres) option" where
  "bp_step t op =
     (case op of
        Insert k r \<Rightarrow> map_option (\<lambda>(t', c). (t', Code c)) (bpinsert t k r)
      | Delete k \<Rightarrow> map_option (\<lambda>(t', r). (t', Rec r)) (bpdelete t k)
      | Search k \<Rightarrow> map_option (\<lambda>r. (t, Rec r)) (bpsearch t k))"

fun bp_run :: "'r bptree \<Rightarrow> 'r bpop list \<Rightarrow> ('r bptree \<times> 'r bpres list) option" where
  "bp_run t [] = Some (t, [])"
| "bp_run t (op # ops) =
     do { (t', r) \<leftarrow> bp_step t op;
          (t'', rs) \<leftarrow> bp_run t' ops;
          Some (t'', r # rs) }"

definition map_step :: "(bpkey \<rightharpoonup> 'r) \<Rightarrow> 'r bpop \<Rightarrow> (bpkey \<rightharpoonup> 'r) \<times> 'r bpres" where
  "map_step m op =
     (case op of
        Insert k r \<Rightarrow>
          if int (card (dom m)) = MAXBPSIZE then (m, Code (-1))
          else if m k \<noteq> None then (m, Code 0)
          else (m(k \<mapsto> r), Code 0)
      | Delete k \<Rightarrow> (m(k := None), Rec (m k))
      | Search k \<Rightarrow> (m, Rec (m k)))"

fun map_run :: "(bpkey \<rightharpoonup> 'r) \<Rightarrow> 'r bpop list \<Rightarrow> (bpkey \<rightharpoonup> 'r) \<times> 'r bpres list" where
  "map_run m [] = (m, [])"
| "map_run m (op # ops) =
     (let (m', r) = map_step m op; (m'', rs) = map_run m' ops in (m'', r # rs))"

definition bp_abs :: "'r bptree \<Rightarrow> bpkey \<rightharpoonup> 'r" where
  "bp_abs t = map_of (header t)"

lemma bp_abs_card:
  assumes "bp_inv t" shows "int (card (dom (bp_abs t))) = tsize t"
proof -
  have "card (dom (bp_abs t)) = length (header t)"
    using distinct_card [OF bp.distinct_keys [OF assms]]
    by (simp add: bp_abs_def dom_map_of_conv_image_fst)
  then show ?thesis using assms by (simp add: bp_inv_def)
qed

lemma bp_abs_insort:
  assumes "k \<notin> fst ` set (header t)" "header t' = insort_key fst (k, r) (header t)"
    "bp_inv t" "bp_inv t'"
  shows "bp_abs t' = (bp_abs t)(k \<mapsto> r)"
proof
  fix j
  have s: "set (header t') = insert (k, r) (set (header t))"
    using assms(2) by (simp add: set_insort_key)
  show "bp_abs t' j = ((bp_abs t)(k \<mapsto> r)) j"
  proof (cases "j = k")
    case True
    then show ?thesis using s bp.distinct_keys [OF assms(4)] by (simp add: bp_abs_def)
  next
    case False
    then have "map_of (header t') j = map_of (header t) j"
      using s by (intro map_of_cong bp.distinct_keys assms(3,4)) auto
    with False show ?thesis by (simp add: bp_abs_def)
  qed
qed

lemma map_of_filter_neq: "map_of (filter (\<lambda>x. fst x \<noteq> k) xs) = (map_of xs)(k := None)"
  by (induction xs) (auto simp: fun_eq_iff)

lemma bp_abs_filter:
  "header t' = filter (\<lambda>x. fst x \<noteq> k) (header t) \<Longrightarrow> bp_abs t' = (bp_abs t)(k := None)"
  unfolding bp_abs_def by (simp only: map_of_filter_neq)

lemma bp_step_ok:
  assumes "bp_inv t"
  obtains t' where "bp_step t op = Some (t', snd (map_step (bp_abs t) op))"
    "bp_inv t'" "bp_abs t' = fst (map_step (bp_abs t) op)"
proof (cases op)
  case (Insert k r)
  have full: "int (card (dom (bp_abs t))) = MAXBPSIZE \<longleftrightarrow> tsize t = MAXBPSIZE"
    by (simp add: bp_abs_card [OF assms])
  have pres: "bp_abs t k = None \<longleftrightarrow> k \<notin> fst ` set (header t)"
    by (simp add: bp_abs_def map_of_eq_None_iff)
  show ?thesis
  proof (cases "tsize t = MAXBPSIZE \<or> k \<in> fst ` set (header t)")
    case True
    then show ?thesis
      using that [of t] assms bp.ins_full [OF assms, of k r] bp.ins_present [OF assms, of k r] full pres
      by (cases "tsize t = MAXBPSIZE") (auto simp: bp_step_def map_step_def Insert)
  next
    case False
    then obtain t' where t': "bpinsert t k r = Some (t', 0)" "bp_inv t'"
      "header t' = insort_key fst (k, r) (header t)"
      using bp.ins_new [OF assms, of k r] by auto
    have "bp_abs t' = (bp_abs t)(k \<mapsto> r)"
      using False by (intro bp_abs_insort t' assms) auto
    then show ?thesis
      using that [of t'] t' False full pres by (simp add: bp_step_def map_step_def Insert)
  qed
next
  case (Delete k)
  obtain t' where t': "bpdelete t k = Some (t', map_of (header t) k)" "bp_inv t'"
    "header t' = filter (\<lambda>x. fst x \<noteq> k) (header t)"
    using bp.del_entries [OF assms, of k] by auto
  then show ?thesis
    using that [of t'] bp_abs_filter [OF t'(3)] by (simp add: bp_step_def map_step_def Delete bp_abs_def)
next
  case (Search k)
  then show ?thesis
    using that [of t] bp.find_entries [OF assms, of k] assms
    by (simp add: bp_step_def map_step_def bp_abs_def)
qed

lemma bp_run_ok:
  assumes "bp_inv t"
  shows "\<exists>t'. bp_run t ops = Some (t', snd (map_run (bp_abs t) ops)) \<and> bp_inv t'
    \<and> bp_abs t' = fst (map_run (bp_abs t) ops)"
  using assms
proof (induction ops arbitrary: t)
  case (Cons op ops)
  obtain t1 where t1: "bp_step t op = Some (t1, snd (map_step (bp_abs t) op))"
    "bp_inv t1" "bp_abs t1 = fst (map_step (bp_abs t) op)"
    by (rule bp_step_ok [OF Cons.prems, of op])
  obtain t2 where t2: "bp_run t1 ops = Some (t2, snd (map_run (bp_abs t1) ops))" "bp_inv t2"
    "bp_abs t2 = fst (map_run (bp_abs t1) ops)"
    using Cons.IH [OF t1(2)] by auto
  show ?case
    using t1 t2 by (simp add: case_prod_unfold Let_def)
qed simp

lemma bp_abs_init [simp]: "bp_abs bpinit = Map.empty"
  by (simp add: bp_abs_def bpinit_def)

section \<open>Height\<close>

lemma sum_list_bounds:
  assumes "\<And>x. x \<in> set xs \<Longrightarrow> a \<le> f x \<and> f x \<le> (b :: nat)"
  shows "length xs * a \<le> sum_list (map f xs) \<and> sum_list (map f xs) \<le> length xs * b"
  using assms by (induction xs) (auto intro: add_mono)

lemma leaves_count:
  assumes "wfn h n" "pointerNum n \<le> MAXDEGREE"
  shows "pointerNum n * 4 ^ h \<le> length (inorder n) \<and> length (inorder n) \<le> 8 ^ Suc h
    \<and> bpheight_node n = Some (Suc h)"
  using assms
proof (induction h arbitrary: n)
  case 0
  then show ?case by (cases n) (auto simp: wfn_inner)
next
  case (Suc h)
  obtain k ls where n: "n = BPInner k ls" using Suc.prems(1) by (cases n) auto
  have kids: "kid_ok h l" if "l \<in> set ls" for l using Suc.prems(1) that by (auto simp: n wfn_inner)
  have b: "4 * 4 ^ h \<le> length (inorder (snd l)) \<and> length (inorder (snd l)) \<le> 8 ^ Suc h"
    if "l \<in> set ls" for l
  proof -
    have "4 \<le> pointerNum (snd l)" "pointerNum (snd l) * 4 ^ h \<le> length (inorder (snd l))"
      "length (inorder (snd l)) \<le> 8 ^ Suc h"
      using Suc.IH [of "snd l"] kids [OF that] by (auto simp: kid_ok_def)
    then show ?thesis by (meson le_trans mult_le_mono1)
  qed
  have l: "length ls * (4 * 4 ^ h) \<le> length (inorder n) \<and> length (inorder n) \<le> length ls * 8 ^ Suc h"
    using sum_list_bounds [of ls "4 * 4 ^ h" "\<lambda>l. length (inorder (snd l))" "8 ^ Suc h"] b
    by (simp add: n length_concat comp_def)
  have m: "length ls * 8 ^ Suc h \<le> 8 * 8 ^ Suc h"
    using Suc.prems(2) by (intro mult_le_mono1) (simp add: n)
  obtain lk c ls' where ls: "ls = (lk, c) # ls'"
    using Suc.prems(1) by (cases ls) (auto simp: n wfn_inner)
  have "bpheight_node c = Some (Suc h)"
    using Suc.IH [of c] kids [of "(lk, c)"] by (simp add: ls kid_ok_def)
  then have "bpheight_node n = Some (Suc (Suc h))" by (simp add: n ls)
  moreover have "length (inorder n) \<le> 8 ^ Suc (Suc h)"
    using l m by (simp only: power_Suc) linarith
  moreover have "pointerNum n * 4 ^ Suc h \<le> length (inorder n)" using l by (simp add: n)
  ultimately show ?case by blast
qed

lemma bpheight_bound:
  assumes "bp_inv t" "length (header t) \<le> 600000"
  shows "\<exists>h. bpheight t = Some h \<and> h \<le> 10"
proof (cases "root t")
  case None
  then show ?thesis by (simp add: bpheight_def)
next
  case (Some n)
  obtain h where h: "wfn h n" "(if h = 0 then 1 else 2) \<le> pointerNum n" "pointerNum n \<le> MAXDEGREE"
    using bp_inv_root(1) [OF assms(1) Some] by (auto simp: wf_root_def)
  note c = leaves_count [OF h(1,3)]
  have "h \<le> 9"
  proof (rule ccontr)
    assume "\<not> h \<le> 9"
    then have "2 * 4 ^ 10 \<le> pointerNum n * (4 :: nat) ^ h"
      using h(2) by (intro mult_mono power_increasing) auto
    then show False using c assms(2) bp_inv_root(2) [OF assms(1) Some] by simp
  qed
  then show ?thesis
    using c bp_inv_root(3) [OF assms(1) Some] by (simp add: bpheight_def Some)
qed

lemma map_run_card:
  "finite (dom m) \<Longrightarrow> card (dom m) \<le> 600000 \<Longrightarrow>
    finite (dom (fst (map_run m ops))) \<and> card (dom (fst (map_run m ops))) \<le> 600000"
proof (induction ops arbitrary: m)
  case (Cons op ops)
  have "finite (dom (fst (map_step m op)))" "card (dom (fst (map_step m op))) \<le> 600000"
    using Cons.prems
    by (auto simp: map_step_def MAXBPSIZE_def card_insert_if split: bpop.split
        intro: le_trans [OF card_Diff1_le])
  then show ?case using Cons.IH by (simp add: case_prod_unfold Let_def)
qed simp

section \<open>Properties\<close>

text \<open>C23: the B+ tree of the kernel module, starting empty, is a finite map.  Whatever the sequence
  of insertions, deletions and searches, splits and merges included, every call returns, and
  returns what the same sequence returns on a map that refuses a key beyond 600000 entries and
  keeps the old record of a key that is present.\<close>

theorem bptree_refines_map:
  "\<exists>t. bp_run bpinit ops = Some (t, snd (map_run Map.empty ops))
    \<and> map_of (header t) = fst (map_run Map.empty ops)"
  using bp_run_ok [OF bp_inv_init, of ops] by (auto simp flip: bp_abs_def)

text \<open>C24: after any sequence of operations the tree is balanced, its nodes carry the largest key
  below them, the list that threads its values is exactly the values of the leaves from left to
  right in strictly increasing key order, and \<open>size\<close> is their number.\<close>

theorem bptree_stays_sorted:
  "\<exists>t rs. bp_run bpinit ops = Some (t, rs) \<and> bp_inv t \<and> sorted_wrt (<) (map fst (header t))
    \<and> bptreesize t = int (length (header t))"
proof -
  obtain t where t: "bp_run bpinit ops = Some (t, snd (map_run Map.empty ops))" "bp_inv t"
    using bp_run_ok [OF bp_inv_init, of ops] by auto
  then show ?thesis
    using bp_inv_ksorted [OF t(2)] by (auto simp: bp_inv_def bptreesize_def)
qed

text \<open>However it was built, the tree is at most ten nodes high, so that a look-up of a
  packet's tunnel among the at most 600000 subscribers visits at most ten nodes.\<close>

theorem bptree_height_bounded:
  "\<exists>t rs h. bp_run bpinit ops = Some (t, rs) \<and> bpheight t = Some h \<and> h \<le> 10"
proof -
  obtain t where t: "bp_run bpinit ops = Some (t, snd (map_run Map.empty ops))" "bp_inv t"
    "bp_abs t = fst (map_run Map.empty ops)"
    using bp_run_ok [OF bp_inv_init, of ops] by auto
  have "card (dom (bp_abs t)) \<le> 600000"
    using map_run_card [of Map.empty ops] by (simp add: t(3))
  then have "length (header t) \<le> 600000"
    using bp_abs_card [OF t(2)] t(2) by (simp add: bp_inv_def)
  then show ?thesis using bpheight_bound [OF t(2)] t(1) by blast
qed

end
