(* ===== verification/Storage.thy ===== *)
theory Storage
  imports KernelData StoreSpec
begin

text \<open>
  The storage of the kernel module (\<open>src/storage.c\<close>): a pair of B+ trees, one keyed by the
  external address and start port of a tunnel, one by the subscriber's IPv6 address, both
  holding the tunnel's address in memory.
\<close>

section \<open>Operations\<close>

text \<open>\<open>mem_ok\<close> says whether the allocation of the context succeeds.\<close>

definition InitStorage :: "bool \<Rightarrow> STORAGE_CTX option" where
  "InitStorage mem_ok = (if mem_ok then Some (\<lambda>idx. bpinit) else None)"

definition InsertElement ::
    "STORAGE_CTX \<Rightarrow> bpkey \<Rightarrow> addr \<Rightarrow> ELEMENT_TYPE \<Rightarrow> (STORAGE_CTX \<times> int) option" where
  "InsertElement pCtx pKey pElement eType =
     do { (t, iRet) \<leftarrow> bpinsert (pCtx eType) pKey pElement;
          Some (pCtx(eType := t), if iRet = -1 then -1 else 1) }"

definition FindElement :: "STORAGE_CTX \<Rightarrow> bpkey \<Rightarrow> ELEMENT_TYPE \<Rightarrow> addr option option" where
  "FindElement pCtx pKey eType = bpsearch (pCtx eType) pKey"

definition DeleteElement ::
    "STORAGE_CTX \<Rightarrow> bpkey \<Rightarrow> ELEMENT_TYPE \<Rightarrow> (STORAGE_CTX \<times> addr option) option" where
  "DeleteElement pCtx pKey eType =
     do { (t, pElement) \<leftarrow> bpdelete (pCtx eType) pKey;
          Some (pCtx(eType := t), pElement) }"

definition SizeOfElement :: "STORAGE_CTX \<Rightarrow> int" where
  "SizeOfElement pCtx =
     (if bptreesize (pCtx ELEMENT_4) = bptreesize (pCtx ELEMENT_6)
      then bptreesize (pCtx ELEMENT_4) else -1)"

definition free_tunnel :: "addr \<Rightarrow> kstate \<Rightarrow> kstate" where
  "free_tunnel p s = s\<lparr>tun_mem := (tun_mem s)(p := None)\<rparr>"

text \<open>
  The callback of \<open>DestroyStorage\<close>.  Its two tree arguments are always the two trees of the
  storage context, which it changes in place; a key that is not found is only logged.
\<close>

definition ClearStorage :: "kstate \<Rightarrow> addr \<Rightarrow> kstate option" where
  "ClearStorage s pElement =
     do { pTunnelCtx \<leftarrow> tun_mem s pElement;
          let key4 = KEY_V4 (uiExtIP pTunnelCtx) (usStartPort pTunnelCtx);
          let key6 = KEY_V6 (ucCltIPv6 pTunnelCtx);
          (c, _) \<leftarrow> DeleteElement (pStroageCtx s) key4 ELEMENT_4;
          (c, _) \<leftarrow> DeleteElement c key6 ELEMENT_6;
          Some (free_tunnel pElement (s\<lparr>pStroageCtx := c\<rparr>)) }"

definition DestroyStorage :: "kstate \<Rightarrow> kstate option" where
  "DestroyStorage s = bptraverse (tree4 s) ClearStorage s"

section \<open>The invariant of the tunnel table\<close>

abbreviation v4key :: "TUNNEL_CTX \<Rightarrow> bpkey" where
  "v4key t \<equiv> KEY_V4 (uiExtIP t) (usStartPort t)"

abbreviation v6key :: "TUNNEL_CTX \<Rightarrow> bpkey" where
  "v6key t \<equiv> KEY_V6 (ucCltIPv6 t)"

text \<open>
  Both trees are well formed, and each entry of one holds the address of a live tunnel with
  that key, which the other tree also holds under the tunnel's other key.
\<close>

definition entry_ok ::
    "(addr \<rightharpoonup> TUNNEL_CTX) \<Rightarrow> (TUNNEL_CTX \<Rightarrow> bpkey) \<Rightarrow> (TUNNEL_CTX \<Rightarrow> bpkey) \<Rightarrow>
     (bpkey \<times> addr) set \<Rightarrow> (bpkey \<times> addr) set \<Rightarrow> bool" where
  "entry_ok m f g A B \<longleftrightarrow>
     (\<forall>(k, p) \<in> A. \<exists>t. m p = Some t \<and> k = f t \<and> (g t, p) \<in> B)"

definition tun_inv :: "kstate \<Rightarrow> bool" where
  "tun_inv s \<longleftrightarrow> bp_inv (tree4 s) \<and> bp_inv (tree6 s)
     \<and> entry_ok (tun_mem s) v4key v6key (set (header (tree4 s))) (set (header (tree6 s)))
     \<and> entry_ok (tun_mem s) v6key v4key (set (header (tree6 s))) (set (header (tree4 s)))"

text \<open>The table as a map from client addresses, and from external addresses and start ports.\<close>

definition users :: "kstate \<Rightarrow> u8 list \<rightharpoonup> TUNNEL_CTX" where
  "users s a = Option.bind (map_of (header (tree6 s)) (KEY_V6 a)) (tun_mem s)"

definition ports :: "kstate \<Rightarrow> u32 \<times> u16 \<rightharpoonup> TUNNEL_CTX" where
  "ports s ip = Option.bind (map_of (header (tree4 s)) (KEY_V4 (fst ip) (snd ip))) (tun_mem s)"

text \<open>The addresses of the tunnels in the table.\<close>

definition table_ptrs :: "kstate \<Rightarrow> addr set" where
  "table_ptrs s = snd ` set (header (tree6 s))"

section \<open>Facts about the invariant\<close>

lemma tun_invD:
  assumes "tun_inv s"
  shows "bp_inv (tree4 s)" "bp_inv (tree6 s)"
    "\<And>k p. (k, p) \<in> set (header (tree4 s)) \<Longrightarrow>
       \<exists>t. tun_mem s p = Some t \<and> k = v4key t \<and> (v6key t, p) \<in> set (header (tree6 s))"
    "\<And>k p. (k, p) \<in> set (header (tree6 s)) \<Longrightarrow>
       \<exists>t. tun_mem s p = Some t \<and> k = v6key t \<and> (v4key t, p) \<in> set (header (tree4 s))"
  using assms by (auto simp: tun_inv_def entry_ok_def)

lemma tun_invI [wf_intros]:
  assumes "bp_inv (tree4 s)" "bp_inv (tree6 s)"
    "\<And>k p. (k, p) \<in> set (header (tree4 s)) \<Longrightarrow>
       \<exists>t. tun_mem s p = Some t \<and> k = v4key t \<and> (v6key t, p) \<in> set (header (tree6 s))"
    "\<And>k p. (k, p) \<in> set (header (tree6 s)) \<Longrightarrow>
       \<exists>t. tun_mem s p = Some t \<and> k = v6key t \<and> (v4key t, p) \<in> set (header (tree4 s))"
  shows "tun_inv s"
  using assms by (auto simp: tun_inv_def entry_ok_def)

lemma tun_inv_cong:
  "tun_mem s = tun_mem s' \<Longrightarrow> pStroageCtx s = pStroageCtx s' \<Longrightarrow> tun_inv s \<longleftrightarrow> tun_inv s'"
  by (simp add: tun_inv_def)

lemma tun_inv_nl_sent [simp]: "tun_inv (s\<lparr>nl_sent := x\<rparr>) = tun_inv s"
  "tun_inv (s\<lparr>GlobalCtx := y\<rparr>) = tun_inv s"
  by (rule tun_inv_cong; simp)+

lemma users_nl_sent [simp]: "users (s\<lparr>nl_sent := x\<rparr>) = users s"
  "users (s\<lparr>GlobalCtx := y\<rparr>) = users s"
  by (auto simp: users_def)

lemma ports_nl_sent [simp]: "ports (s\<lparr>nl_sent := x\<rparr>) = ports s"
  "ports (s\<lparr>GlobalCtx := y\<rparr>) = ports s"
  by (auto simp: ports_def)

lemma map_of_mem_iff:
  "bp_inv t \<Longrightarrow> map_of (header t) k = Some p \<longleftrightarrow> (k, p) \<in> set (header t)"
  using bp.distinct_keys map_of_eq_Some_iff by metis

lemma same_key:
  "bp_inv t \<Longrightarrow> (k, p) \<in> set (header t) \<Longrightarrow> (k, q) \<in> set (header t) \<Longrightarrow> p = q"
  using map_of_mem_iff by (metis option.inject)

lemma users_Some_iff:
  assumes "tun_inv s"
  shows "users s a = Some t \<longleftrightarrow>
    (\<exists>p. (KEY_V6 a, p) \<in> set (header (tree6 s)) \<and> tun_mem s p = Some t)"
  using map_of_mem_iff [OF tun_invD(2) [OF assms]] by (auto simp: users_def option_simps)

lemma ports_Some_iff:
  assumes "tun_inv s"
  shows "ports s ip = Some t \<longleftrightarrow>
    (\<exists>p. (KEY_V4 (fst ip) (snd ip), p) \<in> set (header (tree4 s)) \<and> tun_mem s p = Some t)"
  using map_of_mem_iff [OF tun_invD(1) [OF assms]] by (auto simp: ports_def option_simps)

lemma users_addr:
  assumes "tun_inv s" "users s a = Some t" shows "ucCltIPv6 t = a"
proof -
  obtain p where "(KEY_V6 a, p) \<in> set (header (tree6 s))" "tun_mem s p = Some t"
    using assms by (auto simp: users_Some_iff)
  then show ?thesis using tun_invD(4) [OF assms(1)] by fastforce
qed

text \<open>The two maps hold the same tunnels, so each is determined by the other.\<close>

lemma ports_users:
  assumes "tun_inv s"
  shows "ports s (ip, port) = Some t \<longleftrightarrow>
    users s (ucCltIPv6 t) = Some t \<and> uiExtIP t = ip \<and> usStartPort t = port"
proof
  assume "ports s (ip, port) = Some t"
  then obtain p where p: "(KEY_V4 ip port, p) \<in> set (header (tree4 s))" "tun_mem s p = Some t"
    by (auto simp: ports_Some_iff [OF assms])
  from tun_invD(3) [OF assms p(1)] p(2)
  have "KEY_V4 ip port = v4key t" "(v6key t, p) \<in> set (header (tree6 s))" by auto
  with p(2) show "users s (ucCltIPv6 t) = Some t \<and> uiExtIP t = ip \<and> usStartPort t = port"
    by (auto simp: users_Some_iff [OF assms])
next
  assume u: "users s (ucCltIPv6 t) = Some t \<and> uiExtIP t = ip \<and> usStartPort t = port"
  then obtain p where p: "(v6key t, p) \<in> set (header (tree6 s))" "tun_mem s p = Some t"
    by (auto simp: users_Some_iff [OF assms])
  from tun_invD(4) [OF assms p(1)] p(2) have "(v4key t, p) \<in> set (header (tree4 s))" by auto
  with p(2) u show "ports s (ip, port) = Some t"
    by (auto simp: ports_Some_iff [OF assms])
qed

lemma users_None_iff:
  assumes "tun_inv s"
  shows "users s a = None \<longleftrightarrow> KEY_V6 a \<notin> fst ` set (header (tree6 s))"
proof
  assume u: "users s a = None"
  show "KEY_V6 a \<notin> fst ` set (header (tree6 s))"
  proof
    assume "KEY_V6 a \<in> fst ` set (header (tree6 s))"
    then obtain p where p: "(KEY_V6 a, p) \<in> set (header (tree6 s))" by auto
    then obtain t where "tun_mem s p = Some t" using tun_invD(4) [OF assms p] by auto
    then show False using u p users_Some_iff [OF assms, of a t] by auto
  qed
next
  assume "KEY_V6 a \<notin> fst ` set (header (tree6 s))"
  then show "users s a = None"
    by (simp add: users_def map_of_eq_None_iff [THEN iffD2])
qed

lemma ports_None_iff:
  assumes "tun_inv s"
  shows "ports s ip = None \<longleftrightarrow> KEY_V4 (fst ip) (snd ip) \<notin> fst ` set (header (tree4 s))"
proof
  assume u: "ports s ip = None"
  show "KEY_V4 (fst ip) (snd ip) \<notin> fst ` set (header (tree4 s))"
  proof
    assume "KEY_V4 (fst ip) (snd ip) \<in> fst ` set (header (tree4 s))"
    then obtain p where p: "(KEY_V4 (fst ip) (snd ip), p) \<in> set (header (tree4 s))" by auto
    then obtain t where "tun_mem s p = Some t" using tun_invD(3) [OF assms p] by auto
    then show False using u p ports_Some_iff [OF assms, of ip t] by auto
  qed
next
  assume "KEY_V4 (fst ip) (snd ip) \<notin> fst ` set (header (tree4 s))"
  then show "ports s ip = None"
    by (simp add: ports_def map_of_eq_None_iff [THEN iffD2])
qed

text \<open>The trees hold the same set of addresses, so they have one size.\<close>

lemma ptrs_inj:
  assumes "tun_inv s"
  shows "inj_on snd (set (header (tree6 s)))" "inj_on snd (set (header (tree4 s)))"
    "snd ` set (header (tree4 s)) = snd ` set (header (tree6 s))"
proof -
  show "inj_on snd (set (header (tree6 s)))"
    using tun_invD(4) [OF assms] by (intro inj_onI) (metis option.inject prod.collapse)
  show "inj_on snd (set (header (tree4 s)))"
    using tun_invD(3) [OF assms] by (intro inj_onI) (metis option.inject prod.collapse)
  show "snd ` set (header (tree4 s)) = snd ` set (header (tree6 s))"
  proof (intro subset_antisym subsetI)
    fix p assume "p \<in> snd ` set (header (tree4 s))"
    then obtain k where "(k, p) \<in> set (header (tree4 s))" by auto
    from tun_invD(3) [OF assms this] show "p \<in> snd ` set (header (tree6 s))" by force
  next
    fix p assume "p \<in> snd ` set (header (tree6 s))"
    then obtain k where "(k, p) \<in> set (header (tree6 s))" by auto
    from tun_invD(4) [OF assms this] show "p \<in> snd ` set (header (tree4 s))" by force
  qed
qed

lemma header_length:
  assumes "tun_inv s" shows "length (header (tree4 s)) = length (header (tree6 s))"
proof -
  have d: "distinct (header (tree4 s))" "distinct (header (tree6 s))"
    using bp.distinct_keys tun_invD(1,2) [OF assms] by (metis distinct_map)+
  have "card (set (header (tree4 s))) = card (set (header (tree6 s)))"
    using ptrs_inj [OF assms] by (metis card_image)
  then show ?thesis using d by (simp add: distinct_card)
qed

lemma tree_sizes:
  assumes "tun_inv s" shows "tsize (tree4 s) = tsize (tree6 s)"
    "tsize (tree4 s) = int (length (header (tree4 s)))"
  using header_length [OF assms] tun_invD(1,2) [OF assms] by (auto simp: bp_inv_def)

section \<open>Removing a tunnel\<close>

text \<open>What every deletion path does: both keys go and the tunnel is freed.\<close>

lemma DeleteElement_ok:
  assumes "bp_inv (c e)"
  obtains t where "DeleteElement c k e = Some (c(e := t), map_of (header (c e)) k)"
    "bp_inv t" "header t = filter (\<lambda>x. fst x \<noteq> k) (header (c e))"
  using bp.del_entries [OF assms, of k] by (auto simp: DeleteElement_def)

definition removed :: "addr \<Rightarrow> TUNNEL_CTX \<Rightarrow> kstate \<Rightarrow> kstate \<Rightarrow> bool" where
  "removed p t s s' \<longleftrightarrow> bp_inv (tree4 s') \<and> bp_inv (tree6 s')
     \<and> header (tree4 s') = filter (\<lambda>x. fst x \<noteq> v4key t) (header (tree4 s))
     \<and> header (tree6 s') = filter (\<lambda>x. fst x \<noteq> v6key t) (header (tree6 s))
     \<and> tun_mem s' = (tun_mem s)(p := None)
     \<and> GlobalCtx s' = GlobalCtx s \<and> nl_sent s' = nl_sent s"

lemma removed_users:
  assumes "tun_inv s" "(v6key t, p) \<in> set (header (tree6 s))" "tun_mem s p = Some t"
    "removed p t s s'"
  shows "tun_inv s'" "users s' = (users s)(ucCltIPv6 t := None)"
    "\<And>k q. (k, q) \<in> set (header (tree6 s')) \<longleftrightarrow> (k, q) \<in> set (header (tree6 s)) \<and> q \<noteq> p"
    "\<And>k q. (k, q) \<in> set (header (tree4 s')) \<longleftrightarrow> (k, q) \<in> set (header (tree4 s)) \<and> q \<noteq> p"
proof -
  note I = tun_invD [OF assms(1)]
  have h4: "set (header (tree4 s')) = {x \<in> set (header (tree4 s)). fst x \<noteq> v4key t}"
    and h6: "set (header (tree6 s')) = {x \<in> set (header (tree6 s)). fst x \<noteq> v6key t}"
    and m: "tun_mem s' = (tun_mem s)(p := None)"
    and b: "bp_inv (tree4 s')" "bp_inv (tree6 s')"
    using assms(4) by (auto simp: removed_def)
  have v4: "(v4key t, p) \<in> set (header (tree4 s))" using I(4) [OF assms(2)] assms(3) by auto
  have p4: "q = p \<longleftrightarrow> k = v4key t" if "(k, q) \<in> set (header (tree4 s))" for k q
  proof
    assume "q = p" with I(3) [OF that] assms(3) show "k = v4key t" by auto
  next
    assume "k = v4key t" then show "q = p" using same_key [OF I(1) that] v4 by simp
  qed
  have p6: "q = p \<longleftrightarrow> k = v6key t" if "(k, q) \<in> set (header (tree6 s))" for k q
  proof
    assume "q = p" with I(4) [OF that] assms(3) show "k = v6key t" by auto
  next
    assume "k = v6key t" then show "q = p" using same_key [OF I(2) that] assms(2) by simp
  qed
  show "(k, q) \<in> set (header (tree6 s')) \<longleftrightarrow> (k, q) \<in> set (header (tree6 s)) \<and> q \<noteq> p" for k q
    using p6 by (auto simp: h6)
  show "(k, q) \<in> set (header (tree4 s')) \<longleftrightarrow> (k, q) \<in> set (header (tree4 s)) \<and> q \<noteq> p" for k q
    using p4 by (auto simp: h4)
  show inv: "tun_inv s'"
  proof (rule tun_invI [OF b])
    fix k q assume "(k, q) \<in> set (header (tree4 s'))"
    then have kq: "(k, q) \<in> set (header (tree4 s))" "q \<noteq> p" using p4 by (auto simp: h4)
    obtain t' where t': "tun_mem s q = Some t'" "k = v4key t'" "(v6key t', q) \<in> set (header (tree6 s))"
      using I(3) [OF kq(1)] by auto
    then show "\<exists>t. tun_mem s' q = Some t \<and> k = v4key t \<and> (v6key t, q) \<in> set (header (tree6 s'))"
      using kq(2) p6 [OF t'(3)] by (auto simp: m h6)
  next
    fix k q assume "(k, q) \<in> set (header (tree6 s'))"
    then have kq: "(k, q) \<in> set (header (tree6 s))" "q \<noteq> p" using p6 by (auto simp: h6)
    obtain t' where t': "tun_mem s q = Some t'" "k = v6key t'" "(v4key t', q) \<in> set (header (tree4 s))"
      using I(4) [OF kq(1)] by auto
    then show "\<exists>t. tun_mem s' q = Some t \<and> k = v6key t \<and> (v4key t, q) \<in> set (header (tree4 s'))"
      using kq(2) p4 [OF t'(3)] by (auto simp: m h4)
  qed
  have u: "users s' a = Some x \<longleftrightarrow> a \<noteq> ucCltIPv6 t \<and> users s a = Some x" for a x
    unfolding users_Some_iff [OF inv] users_Some_iff [OF assms(1)] h6 m
    using p6 [of "KEY_V6 a"] by auto
  show "users s' = (users s)(ucCltIPv6 t := None)"
    by (rule map_eqI) (simp add: u)
qed

lemma ClearStorage_ok:
  assumes "tun_inv s" "(v6key t, p) \<in> set (header (tree6 s))" "tun_mem s p = Some t"
  obtains s' where "ClearStorage s p = Some s'" "removed p t s s'"
proof -
  obtain t4 where t4: "DeleteElement (pStroageCtx s) (v4key t) ELEMENT_4 =
      Some ((pStroageCtx s)(ELEMENT_4 := t4), map_of (header (tree4 s)) (v4key t))"
    "bp_inv t4" "header t4 = filter (\<lambda>x. fst x \<noteq> v4key t) (header (tree4 s))"
    using DeleteElement_ok [where c = "pStroageCtx s" and e = ELEMENT_4, OF tun_invD(1) [OF assms(1)]]
    by metis
  let ?c = "(pStroageCtx s)(ELEMENT_4 := t4)"
  have "bp_inv (?c ELEMENT_6)" using tun_invD(2) [OF assms(1)] by simp
  then obtain t6 where t6: "DeleteElement ?c (v6key t) ELEMENT_6 =
      Some (?c(ELEMENT_6 := t6), map_of (header (?c ELEMENT_6)) (v6key t))"
    "bp_inv t6" "header t6 = filter (\<lambda>x. fst x \<noteq> v6key t) (header (?c ELEMENT_6))"
    using DeleteElement_ok [where c = ?c and e = ELEMENT_6] by metis
  show ?thesis
    by (rule that [of "free_tunnel p (s\<lparr>pStroageCtx := ?c(ELEMENT_6 := t6)\<rparr>)"])
      (use assms(3) t4 t6 in \<open>simp_all add: ClearStorage_def removed_def free_tunnel_def\<close>)
qed

section \<open>Walking the table\<close>

text \<open>
  The callbacks \<open>bptraverse\<close> is given keep one contract: called on a tunnel of the table, the
  callback replaces it by \<open>upd t\<close> (or removes it), leaves every other tunnel as it is, and
  sends \<open>msg t\<close>.  The walk then does so for the whole table, in the order of the v4 tree.
\<close>

definition tun_list :: "kstate \<Rightarrow> TUNNEL_CTX list" where
  "tun_list s = map (\<lambda>v. the (tun_mem s (snd v))) (header (tree4 s))"

lemma tun_list_iff:
  assumes inv: "tun_inv s"
  shows "t \<in> set (tun_list s) \<longleftrightarrow> users s (ucCltIPv6 t) = Some t"
proof
  assume "t \<in> set (tun_list s)"
  then obtain k p where p: "(k, p) \<in> set (header (tree4 s))" "t = the (tun_mem s p)" by (auto simp: tun_list_def)
  from tun_invD(3) [OF inv p(1)] p(2) show "users s (ucCltIPv6 t) = Some t"
    by (auto simp: users_Some_iff [OF inv])
next
  assume "users s (ucCltIPv6 t) = Some t"
  then obtain p where p: "(v6key t, p) \<in> set (header (tree6 s))" "tun_mem s p = Some t"
    by (auto simp: users_Some_iff [OF inv])
  with tun_invD(4) [OF inv p(1)] show "t \<in> set (tun_list s)" by (force simp: tun_list_def)
qed

locale tunnel_callback =
  fixes step :: "kstate \<Rightarrow> addr \<Rightarrow> kstate option"
    and g :: GLOBAL_CTX
    and upd :: "TUNNEL_CTX \<Rightarrow> TUNNEL_CTX option"
    and msg :: "TUNNEL_CTX \<Rightarrow> (nl_channel \<times> netlink_msg) list"
  assumes step: "tun_inv s \<Longrightarrow> GlobalCtx s = g \<Longrightarrow> (v4key t, p) \<in> set (header (tree4 s)) \<Longrightarrow>
      tun_mem s p = Some t \<Longrightarrow>
      \<exists>s'. step s p = Some s' \<and> tun_inv s' \<and> users s' = (users s)(ucCltIPv6 t := upd t)
        \<and> (\<forall>q. q \<noteq> p \<longrightarrow> tun_mem s' q = tun_mem s q)
        \<and> (\<forall>k q. q \<noteq> p \<longrightarrow> (k, q) \<in> set (header (tree4 s')) \<longleftrightarrow> (k, q) \<in> set (header (tree4 s)))
        \<and> nl_sent s' = nl_sent s @ msg t \<and> GlobalCtx s' = g"
begin

lemma traverse_from_ok:
  assumes "tun_inv s" "GlobalCtx s = g" "set xs \<subseteq> set (header (tree4 s))" "distinct (map snd xs)"
  shows "\<exists>s'. traverse_from step xs s = Some s' \<and> tun_inv s' \<and> GlobalCtx s' = g
    \<and> users s' = fold (\<lambda>t m. m(ucCltIPv6 t := upd t)) (map (\<lambda>v. the (tun_mem s (snd v))) xs) (users s)
    \<and> nl_sent s' = nl_sent s @ concat (map (\<lambda>v. msg (the (tun_mem s (snd v)))) xs)
    \<and> (\<forall>q. q \<notin> snd ` set xs \<longrightarrow> tun_mem s' q = tun_mem s q)"
  using assms
proof (induction xs arbitrary: s)
  case Nil
  then show ?case by simp
next
  case (Cons v xs)
  obtain k p where v: "v = (k, p)" by (cases v)
  have kp: "(k, p) \<in> set (header (tree4 s))" using Cons.prems(3) v by simp
  obtain t where t: "tun_mem s p = Some t" "k = v4key t" using tun_invD(3) [OF Cons.prems(1) kp] by auto
  obtain s1 where s1: "step s p = Some s1" "tun_inv s1" "users s1 = (users s)(ucCltIPv6 t := upd t)"
    "\<And>q. q \<noteq> p \<Longrightarrow> tun_mem s1 q = tun_mem s q"
    "\<And>k q. q \<noteq> p \<Longrightarrow> (k, q) \<in> set (header (tree4 s1)) \<longleftrightarrow> (k, q) \<in> set (header (tree4 s))"
    "nl_sent s1 = nl_sent s @ msg t" "GlobalCtx s1 = g"
    using step [OF Cons.prems(1,2) kp [unfolded t(2)] t(1)] by auto
  have np: "p \<notin> snd ` set xs" using Cons.prems(4) v by simp
  have sub: "set xs \<subseteq> set (header (tree4 s1))"
  proof
    fix x assume x: "x \<in> set xs"
    then have "snd x \<noteq> p" using np by auto
    then show "x \<in> set (header (tree4 s1))"
      using s1(5) [of "snd x" "fst x"] x Cons.prems(3) by auto
  qed
  have eq: "map (\<lambda>v. the (tun_mem s1 (snd v))) xs = map (\<lambda>v. the (tun_mem s (snd v))) xs"
    "map (\<lambda>v. msg (the (tun_mem s1 (snd v)))) xs = map (\<lambda>v. msg (the (tun_mem s (snd v)))) xs"
  proof -
    have "tun_mem s1 (snd v) = tun_mem s (snd v)" if "v \<in> set xs" for v
      using s1(4) that np by force
    then show "map (\<lambda>v. the (tun_mem s1 (snd v))) xs = map (\<lambda>v. the (tun_mem s (snd v))) xs"
      "map (\<lambda>v. msg (the (tun_mem s1 (snd v)))) xs = map (\<lambda>v. msg (the (tun_mem s (snd v)))) xs"
      by simp_all
  qed
  show ?case
    using Cons.IH [OF s1(2,7) sub] Cons.prems(4) s1(1,3,4,6) eq t(1) v by auto
qed

lemma walk_ok:
  assumes inv: "tun_inv s" and gl: "GlobalCtx s = g"
  obtains s' where "bptraverse (tree4 s) step s = Some s'" "tun_inv s'" "GlobalCtx s' = g"
    "\<And>a. users s' a = Option.bind (users s a) upd"
    "nl_sent s' = nl_sent s @ concat (map msg (tun_list s))"
    "\<And>q. q \<notin> table_ptrs s \<Longrightarrow> tun_mem s' q = tun_mem s q"
proof -
  let ?xs = "header (tree4 s)"
  have d: "distinct (map snd ?xs)"
    using bp.distinct_keys [OF tun_invD(1) [OF inv]] ptrs_inj(2) [OF inv]
    by (simp add: distinct_map)
  obtain s' where s': "traverse_from step ?xs s = Some s'" "tun_inv s'" "GlobalCtx s' = g"
    "users s' = fold (\<lambda>t m. m(ucCltIPv6 t := upd t)) (tun_list s) (users s)"
    "nl_sent s' = nl_sent s @ concat (map msg (tun_list s))"
    "\<And>q. q \<notin> snd ` set ?xs \<Longrightarrow> tun_mem s' q = tun_mem s q"
    using traverse_from_ok [OF inv gl subset_refl d] by (auto simp: tun_list_def comp_def)
  have ne: "root (tree4 s) = None \<Longrightarrow> ?xs = []"
    using tun_invD(1) [OF inv] by (simp add: bp_inv_def)
  have b: "bptraverse (tree4 s) step s = Some s'"
    using s'(1) ne by (auto simp: bptraverse_def)
  note mem = tun_list_iff [OF inv]
  have fold_upd: "fold (\<lambda>t m. m(ucCltIPv6 t := upd t)) ts m a
      = (if \<exists>t \<in> set ts. ucCltIPv6 t = a then upd t else m a)"
    if "\<forall>t' \<in> set ts. ucCltIPv6 t' = a \<longrightarrow> t' = t" for ts m a t
    using that by (induction ts arbitrary: m) auto
  have "users s' a = Option.bind (users s a) upd" for a
  proof (cases "users s a")
    case None
    then have "\<forall>t \<in> set (tun_list s). ucCltIPv6 t \<noteq> a" using mem by auto
    then have "users s' a = users s a" unfolding s'(4) by (subst fold_upd) auto
    then show ?thesis using None by simp
  next
    case (Some t)
    have t: "t \<in> set (tun_list s)" "ucCltIPv6 t = a"
      using Some users_addr [OF inv Some] by (simp_all add: mem)
    have "\<forall>t' \<in> set (tun_list s). ucCltIPv6 t' = a \<longrightarrow> t' = t"
      using Some by (auto simp: mem)
    from fold_upd [OF this, of "users s"] t have "users s' a = upd t" by (auto simp: s'(4))
    then show ?thesis using Some by simp
  qed
  then show ?thesis using that b s' ptrs_inj(3) [OF inv] by (auto simp: table_ptrs_def)
qed

end

section \<open>Emptying the table\<close>

lemma removed_frame:
  assumes "tun_inv s" "(v6key t, p) \<in> set (header (tree6 s))" "tun_mem s p = Some t"
    "removed p t s s'"
  shows "\<forall>q. q \<noteq> p \<longrightarrow> tun_mem s' q = tun_mem s q"
    "\<forall>k q. q \<noteq> p \<longrightarrow> (k, q) \<in> set (header (tree4 s')) \<longleftrightarrow> (k, q) \<in> set (header (tree4 s))"
    "nl_sent s' = nl_sent s" "GlobalCtx s' = GlobalCtx s"
  using assms(4) removed_users(4) [OF assms] by (auto simp: removed_def)

interpretation clearing: tunnel_callback ClearStorage g "\<lambda>t. None" "\<lambda>t. []" for g
proof
  fix s t p
  assume inv: "tun_inv s" and g: "GlobalCtx s = g"
    and kp: "(v4key t, p) \<in> set (header (tree4 s))" and t: "tun_mem s p = Some t"
  have k6: "(v6key t, p) \<in> set (header (tree6 s))" using tun_invD(3) [OF inv kp] t by auto
  obtain s' where s': "ClearStorage s p = Some s'" "removed p t s s'"
    by (rule ClearStorage_ok [OF inv k6 t])
  note f = removed_frame [OF inv k6 t s'(2)] removed_users(1,2) [OF inv k6 t s'(2)]
  show "\<exists>s'. ClearStorage s p = Some s' \<and> tun_inv s' \<and> users s' = (users s)(ucCltIPv6 t := None)
        \<and> (\<forall>q. q \<noteq> p \<longrightarrow> tun_mem s' q = tun_mem s q)
        \<and> (\<forall>k q. q \<noteq> p \<longrightarrow> (k, q) \<in> set (header (tree4 s')) \<longleftrightarrow> (k, q) \<in> set (header (tree4 s)))
        \<and> nl_sent s' = nl_sent s @ [] \<and> GlobalCtx s' = g"
    by (rule exI [of _ s']) (use s'(1) f g in simp)
qed

lemma users_empty_header:
  assumes "tun_inv s" "\<And>a. users s a = None"
  shows "header (tree4 s) = []" "header (tree6 s) = []"
proof -
  show "header (tree6 s) = []"
  proof (rule ccontr)
    assume "header (tree6 s) \<noteq> []"
    then obtain k p where kp: "(k, p) \<in> set (header (tree6 s))" by (metis list.set_intros(1) neq_Nil_conv surj_pair)
    from tun_invD(4) [OF assms(1) kp] obtain t where "tun_mem s p = Some t" "k = v6key t" by auto
    then have "users s (ucCltIPv6 t) = Some t" using kp by (auto simp: users_Some_iff [OF assms(1)])
    then show False using assms(2) by simp
  qed
  then show "header (tree4 s) = []" using header_length [OF assms(1)] by simp
qed

lemma DestroyStorage_empties:
  assumes "tun_inv s"
  obtains s' where "DestroyStorage s = Some s'" "tun_inv s'" "users s' = Map.empty"
    "header (tree4 s') = []" "header (tree6 s') = []"
    "GlobalCtx s' = GlobalCtx s" "nl_sent s' = nl_sent s"
proof -
  obtain s' where s': "bptraverse (tree4 s) ClearStorage s = Some s'" "tun_inv s'"
    "GlobalCtx s' = GlobalCtx s" "\<And>a. users s' a = Option.bind (users s a) (\<lambda>t. None)"
    "nl_sent s' = nl_sent s @ concat (map (\<lambda>t. []) (tun_list s))"
    using clearing.walk_ok [OF assms refl] by metis
  have u: "users s' a = None" for a using s'(4) [of a] by (cases "users s a") auto
  have "users s' = Map.empty" by (rule ext) (rule u)
  with that [of s'] s' users_empty_header [OF s'(2) u] show ?thesis
    by (simp add: DestroyStorage_def)
qed

end
