(* ===== verification/Tunnel.thy ===== *)
theory Tunnel
  imports Storage
begin

text \<open>
  The tunnel operations of \<open>src/packet.c\<close>: creation, deletion and look-up by either key, the
  start port of a port's range, and the life-time timer.  A tunnel argument is its address;
  \<open>kmalloc\<close> is the caller's.
\<close>

section \<open>Operations\<close>

text \<open>
  The division is C's, on the promoted ports; a zero range is a division trap (\<open>None\<close>).
\<close>

definition getstartport :: "GLOBAL_CTX \<Rightarrow> u16 \<Rightarrow> u16 option" where
  "getstartport g Port =
     (if usPortRange g = 0 then None
      else Some (word_of_int (c_div (uint Port - int START_PORT) (uint (usPortRange g))
                                * uint (usPortRange g) + int START_PORT)))"

definition LookupTunnel_v6 :: "kstate \<Rightarrow> bpkey \<Rightarrow> addr option option" where
  "LookupTunnel_v6 s pkeyv6 = FindElement (pStroageCtx s) pkeyv6 ELEMENT_6"

definition LookupTunnel_v4 :: "kstate \<Rightarrow> bpkey \<Rightarrow> addr option option" where
  "LookupTunnel_v4 s pkeyv4 = FindElement (pStroageCtx s) pkeyv4 ELEMENT_4"

definition CreateTunnel :: "kstate \<Rightarrow> addr \<Rightarrow> (kstate \<times> int) option" where
  "CreateTunnel s t =
     do { ctx \<leftarrow> tun_mem s t;
          let keyv4 = KEY_V4 (uiExtIP ctx) (usStartPort ctx);
          pTunnel \<leftarrow> FindElement (pStroageCtx s) keyv4 ELEMENT_4;
          if pTunnel \<noteq> None then Some (s, -1)
          else do {
            (c, ret) \<leftarrow> InsertElement (pStroageCtx s) keyv4 t ELEMENT_4;
            if ret < 0 then Some (s\<lparr>pStroageCtx := c\<rparr>, -1)
            else do {
              let keyv6 = KEY_V6 (ucCltIPv6 ctx);
              (c, ret) \<leftarrow> InsertElement c keyv6 t ELEMENT_6;
              if ret < 0
              then do { (c, _) \<leftarrow> DeleteElement c keyv4 ELEMENT_4;
                        Some (s\<lparr>pStroageCtx := c\<rparr>, -1) }
              else Some (s\<lparr>pStroageCtx := c\<rparr>, 1) } } }"

text \<open>The result's last part is what the out parameters are set to, if they are.\<close>

definition DeleteTunnel :: "kstate \<Rightarrow> u8 list \<Rightarrow> (kstate \<times> int \<times> (u16 \<times> u32) option) option" where
  "DeleteTunnel s ucCltIPv6Addr =
     do { let key6 = KEY_V6 ucCltIPv6Addr;
          t \<leftarrow> LookupTunnel_v6 s key6;
          (case t of
             Some p \<Rightarrow>
               do { (c, _) \<leftarrow> DeleteElement (pStroageCtx s) key6 ELEMENT_6;
                    ctx \<leftarrow> tun_mem s p;
                    let key4 = KEY_V4 (uiExtIP ctx) (usStartPort ctx);
                    (c, _) \<leftarrow> DeleteElement c key4 ELEMENT_4;
                    Some (free_tunnel p (s\<lparr>pStroageCtx := c\<rparr>), 1,
                          Some (usStartPort ctx, uiExtIP ctx)) }
           | None \<Rightarrow> Some (s, -1, None)) }"

text \<open>
  The life time is unsigned: \<open>ulLiveTime <= 0\<close> is \<open>ulLiveTime = 0\<close>, and the subtraction wraps.
\<close>

definition TunnelTimeCheck :: "kstate \<Rightarrow> addr \<Rightarrow> kstate option" where
  "TunnelTimeCheck s pElement =
     do { ctx0 \<leftarrow> tun_mem s pElement;
          let ctx = ctx0\<lparr>ulLiveTime := ulLiveTime ctx0 - uiMaxLifeTime (GlobalCtx s) div 4\<rparr>;
          let s = s\<lparr>tun_mem := (tun_mem s)(pElement \<mapsto> ctx)\<rparr>;
          if ulLiveTime ctx \<le> 0
          then do {
            let key4 = KEY_V4 (uiExtIP ctx) (usStartPort ctx);
            let key6 = KEY_V6 (ucCltIPv6 ctx);
            (c, _) \<leftarrow> DeleteElement (pStroageCtx s) key4 ELEMENT_4;
            (c, _) \<leftarrow> DeleteElement c key6 ELEMENT_6;
            let s = s\<lparr>pStroageCtx := c\<rparr>;
            let sndmsg = ConstructTunMsg (ucCltIPv6 ctx) NETLINK_DELETE_NODE (uiExtIP ctx)
                           (usStartPort ctx) 0;
            Some (free_tunnel pElement (send_async_nlmsg sndmsg s)) }
          else Some s }"

text \<open>
  The timer has fired, so it is not pending, and is armed again for a quarter of the longest
  life time.  \<open>fire_timer\<close> is the kernel running the handler of a pending timer.
\<close>

definition TunnelTimeOut :: "kstate \<Rightarrow> kstate option" where
  "TunnelTimeOut s =
     do { s \<leftarrow> bptraverse (tree4 s) TunnelTimeCheck s;
          add_timer (uiMaxLifeTime (GlobalCtx s) div 4) s }"

definition fire_timer :: "kstate \<Rightarrow> kstate option" where
  "fire_timer s =
     (if StorageTimer (GlobalCtx s) = None then Some s else TunnelTimeOut (del_timer s))"

section \<open>Look-up\<close>

lemma LookupTunnel_v6_ok:
  assumes "tun_inv s"
  shows "LookupTunnel_v6 s (KEY_V6 a) = Some (map_of (header (tree6 s)) (KEY_V6 a))"
  using bp.find_entries [OF tun_invD(2) [OF assms]] by (simp add: LookupTunnel_v6_def FindElement_def)

lemma LookupTunnel_v4_ok:
  assumes "tun_inv s"
  shows "LookupTunnel_v4 s k = Some (map_of (header (tree4 s)) k)"
  using bp.find_entries [OF tun_invD(1) [OF assms]] by (simp add: LookupTunnel_v4_def FindElement_def)

lemma lookup_v6_cases:
  assumes "tun_inv s"
  obtains "users s a = None" "LookupTunnel_v6 s (KEY_V6 a) = Some None"
  | p t where "users s a = Some t" "LookupTunnel_v6 s (KEY_V6 a) = Some (Some p)"
      "tun_mem s p = Some t" "(KEY_V6 a, p) \<in> set (header (tree6 s))" "ucCltIPv6 t = a"
proof (cases "users s a")
  case None
  with users_None_iff [OF assms] LookupTunnel_v6_ok [OF assms] that(1) show ?thesis
    by (simp add: map_of_eq_None_iff [THEN iffD2])
next
  case (Some t)
  then obtain p where p: "(KEY_V6 a, p) \<in> set (header (tree6 s))" "tun_mem s p = Some t"
    by (auto simp: users_Some_iff [OF assms])
  have "map_of (header (tree6 s)) (KEY_V6 a) = Some p"
    using p(1) map_of_mem_iff [OF tun_invD(2) [OF assms]] by simp
  with p Some users_addr [OF assms Some] LookupTunnel_v6_ok [OF assms] that(2) show ?thesis by simp
qed

section \<open>Creation\<close>

lemma CreateTunnel_refused:
  assumes "tun_inv s" "tun_mem s p = Some t"
    and "ports s (uiExtIP t, usStartPort t) \<noteq> None \<or> tsize (tree4 s) = MAXBPSIZE"
  shows "CreateTunnel s p = Some (s, -1)"
proof (cases "ports s (uiExtIP t, usStartPort t) = None")
  case True
  then have k: "v4key t \<notin> fst ` set (header (tree4 s))" using ports_None_iff [OF assms(1)] by auto
  then have "FindElement (pStroageCtx s) (v4key t) ELEMENT_4 = Some None"
    using bp.find_None_iff [OF tun_invD(1) [OF assms(1)]] by (simp add: FindElement_def)
  moreover have "InsertElement (pStroageCtx s) (v4key t) p ELEMENT_4 = Some (pStroageCtx s, -1)"
    using bp.ins_full [OF tun_invD(1) [OF assms(1)], of "v4key t" p] True assms(3)
    by (simp add: InsertElement_def)
  ultimately show ?thesis using assms(2) by (simp add: CreateTunnel_def)
next
  case False
  then have "v4key t \<in> fst ` set (header (tree4 s))" using ports_None_iff [OF assms(1)] by auto
  then have "FindElement (pStroageCtx s) (v4key t) ELEMENT_4 \<noteq> Some None"
    "FindElement (pStroageCtx s) (v4key t) ELEMENT_4 = Some (map_of (header (tree4 s)) (v4key t))"
    using bp.find_None_iff [OF tun_invD(1) [OF assms(1)]] bp.find_entries [OF tun_invD(1) [OF assms(1)]]
    by (auto simp: FindElement_def)
  then show ?thesis using assms(2) by (auto simp: CreateTunnel_def)
qed

definition created :: "addr \<Rightarrow> TUNNEL_CTX \<Rightarrow> kstate \<Rightarrow> kstate \<Rightarrow> bool" where
  "created p t s s' \<longleftrightarrow> bp_inv (tree4 s') \<and> bp_inv (tree6 s')
     \<and> set (header (tree4 s')) = insert (v4key t, p) (set (header (tree4 s)))
     \<and> set (header (tree6 s')) = insert (v6key t, p) (set (header (tree6 s)))
     \<and> tun_mem s' = tun_mem s \<and> GlobalCtx s' = GlobalCtx s \<and> nl_sent s' = nl_sent s"

lemma created_users:
  assumes "tun_inv s" "tun_mem s p = Some t" "users s (ucCltIPv6 t) = None"
    "ports s (uiExtIP t, usStartPort t) = None" "created p t s s'"
  shows "tun_inv s'" "users s' = (users s)(ucCltIPv6 t \<mapsto> t)"
proof -
  have b: "bp_inv (tree4 s')" "bp_inv (tree6 s')" and m: "tun_mem s' = tun_mem s"
    and h4: "set (header (tree4 s')) = insert (v4key t, p) (set (header (tree4 s)))"
    and h6: "set (header (tree6 s')) = insert (v6key t, p) (set (header (tree6 s)))"
    using assms(5) by (auto simp: created_def)
  note I = tun_invD [OF assms(1)]
  show inv: "tun_inv s'"
  proof (rule tun_invI [OF b])
    fix k q assume "(k, q) \<in> set (header (tree4 s'))"
    then consider "k = v4key t" "q = p" | "(k, q) \<in> set (header (tree4 s))" by (auto simp: h4)
    then show "\<exists>t. tun_mem s' q = Some t \<and> k = v4key t \<and> (v6key t, q) \<in> set (header (tree6 s'))"
      by cases (use assms(2) I(3) in \<open>fastforce simp: m h6\<close>)+
  next
    fix k q assume "(k, q) \<in> set (header (tree6 s'))"
    then consider "k = v6key t" "q = p" | "(k, q) \<in> set (header (tree6 s))" by (auto simp: h6)
    then show "\<exists>t. tun_mem s' q = Some t \<and> k = v6key t \<and> (v4key t, q) \<in> set (header (tree4 s'))"
      by cases (use assms(2) I(4) in \<open>fastforce simp: m h4\<close>)+
  qed
  have n6: "v6key t \<notin> fst ` set (header (tree6 s))"
    using users_None_iff [OF assms(1)] assms(3) by simp
  have u: "users s' a = Some x \<longleftrightarrow> (if a = ucCltIPv6 t then x = t else users s a = Some x)" for a x
    unfolding users_Some_iff [OF inv] users_Some_iff [OF assms(1)] h6 m
    using n6 assms(2) by (force simp: image_iff)
  show "users s' = (users s)(ucCltIPv6 t \<mapsto> t)"
    by (rule map_eqI) (auto simp: u)
qed

lemma CreateTunnel_done:
  assumes "tun_inv s" "tun_mem s p = Some t" "users s (ucCltIPv6 t) = None"
    "ports s (uiExtIP t, usStartPort t) = None" "tsize (tree4 s) \<noteq> MAXBPSIZE"
  obtains s' where "CreateTunnel s p = Some (s', 1)" "created p t s s'"
proof -
  note I = tun_invD [OF assms(1)]
  have n4: "v4key t \<notin> fst ` set (header (tree4 s))" using ports_None_iff [OF assms(1)] assms(4) by auto
  have n6: "v6key t \<notin> fst ` set (header (tree6 s))" using users_None_iff [OF assms(1)] assms(3) by simp
  have full6: "tsize (tree6 s) \<noteq> MAXBPSIZE" using tree_sizes [OF assms(1)] assms(5) by simp
  have f: "FindElement (pStroageCtx s) (v4key t) ELEMENT_4 = Some None"
    using bp.find_None_iff [OF I(1)] n4 by (simp add: FindElement_def)
  obtain t4 where t4: "bpinsert (tree4 s) (v4key t) p = Some (t4, 0)" "bp_inv t4"
    "set (header t4) = insert (v4key t, p) (set (header (tree4 s)))"
    by (rule bp.ins_set [OF I(1) assms(5) n4, of p])
  obtain t6 where t6: "bpinsert (tree6 s) (v6key t) p = Some (t6, 0)" "bp_inv t6"
    "set (header t6) = insert (v6key t, p) (set (header (tree6 s)))"
    by (rule bp.ins_set [OF I(2) full6 n6, of p])
  show ?thesis
    by (rule that [of "s\<lparr>pStroageCtx := (pStroageCtx s)(ELEMENT_4 := t4, ELEMENT_6 := t6)\<rparr>"])
      (use f t4 t6 assms(2) in \<open>simp_all add: CreateTunnel_def InsertElement_def created_def\<close>)
qed

section \<open>Deletion\<close>

lemma DeleteTunnel_ok:
  assumes "tun_inv s"
  shows "case users s a of
      None \<Rightarrow> DeleteTunnel s a = Some (s, -1, None)
    | Some t \<Rightarrow> \<exists>s' p. DeleteTunnel s a = Some (s', 1, Some (usStartPort t, uiExtIP t))
        \<and> removed p t s s' \<and> (v6key t, p) \<in> set (header (tree6 s)) \<and> tun_mem s p = Some t"
proof (rule lookup_v6_cases [OF assms, of a])
  assume "users s a = None" "LookupTunnel_v6 s (KEY_V6 a) = Some None"
  then show ?thesis by (simp add: DeleteTunnel_def)
next
  fix p t
  assume t: "users s a = Some t" "LookupTunnel_v6 s (KEY_V6 a) = Some (Some p)"
    "tun_mem s p = Some t" "(KEY_V6 a, p) \<in> set (header (tree6 s))" "ucCltIPv6 t = a"
  let ?k = "v6key t"
  obtain t6 where t6: "DeleteElement (pStroageCtx s) ?k ELEMENT_6 =
      Some ((pStroageCtx s)(ELEMENT_6 := t6), map_of (header (tree6 s)) ?k)"
    "bp_inv t6" "header t6 = filter (\<lambda>x. fst x \<noteq> ?k) (header (tree6 s))"
    using DeleteElement_ok [where c = "pStroageCtx s" and e = ELEMENT_6, OF tun_invD(2) [OF assms]]
    by metis
  let ?c = "(pStroageCtx s)(ELEMENT_6 := t6)"
  have "bp_inv (?c ELEMENT_4)" using tun_invD(1) [OF assms] by simp
  then obtain t4 where t4: "DeleteElement ?c (v4key t) ELEMENT_4 =
      Some (?c(ELEMENT_4 := t4), map_of (header (?c ELEMENT_4)) (v4key t))"
    "bp_inv t4" "header t4 = filter (\<lambda>x. fst x \<noteq> v4key t) (header (?c ELEMENT_4))"
    using DeleteElement_ok [where c = ?c and e = ELEMENT_4] by metis
  have "\<exists>s'. DeleteTunnel s a = Some (s', 1, Some (usStartPort t, uiExtIP t)) \<and> removed p t s s'"
    by (rule exI [of _ "free_tunnel p (s\<lparr>pStroageCtx := ?c(ELEMENT_4 := t4)\<rparr>)"])
      (use t t4 t6 in \<open>simp add: DeleteTunnel_def removed_def free_tunnel_def\<close>)
  then show ?thesis using t by auto
qed

section \<open>Ageing\<close>

definition age :: "u32 \<Rightarrow> TUNNEL_CTX \<Rightarrow> TUNNEL_CTX option" where
  "age q t = (if ulLiveTime t - q = 0 then None else Some (t\<lparr>ulLiveTime := ulLiveTime t - q\<rparr>))"

definition expiry_msg :: "u32 \<Rightarrow> TUNNEL_CTX \<Rightarrow> (nl_channel \<times> netlink_msg) list" where
  "expiry_msg q t =
     (if ulLiveTime t - q = 0
      then [(NL_ASYNC, ConstructTunMsg (ucCltIPv6 t) NETLINK_DELETE_NODE (uiExtIP t) (usStartPort t) 0)]
      else [])"

lemma aged_in_place:
  assumes "tun_inv s" "(v6key t, p) \<in> set (header (tree6 s))" "tun_mem s p = Some t"
    and "s' = s\<lparr>tun_mem := (tun_mem s)(p \<mapsto> t\<lparr>ulLiveTime := l\<rparr>)\<rparr>"
  shows "tun_inv s'" "users s' = (users s)(ucCltIPv6 t \<mapsto> t\<lparr>ulLiveTime := l\<rparr>)"
proof -
  note I = tun_invD [OF assms(1)]
  have m: "tun_mem s' = (tun_mem s)(p \<mapsto> t\<lparr>ulLiveTime := l\<rparr>)"
    and c: "pStroageCtx s' = pStroageCtx s" using assms(4) by simp_all
  have key: "\<exists>t'. tun_mem s' q = Some t' \<and> v4key t' = v4key u \<and> v6key t' = v6key u"
    if "tun_mem s q = Some u" for q u
    using that assms(3) by (auto simp: m)
  show inv: "tun_inv s'"
  proof (rule tun_invI)
    show "bp_inv (tree4 s')" "bp_inv (tree6 s')" using I(1,2) by (simp_all add: c)
  next
    fix k q assume "(k, q) \<in> set (header (tree4 s'))"
    then obtain u where u: "tun_mem s q = Some u" "k = v4key u" "(v6key u, q) \<in> set (header (tree6 s))"
      using I(3) [of k q] by (auto simp: c)
    then show "\<exists>t. tun_mem s' q = Some t \<and> k = v4key t \<and> (v6key t, q) \<in> set (header (tree6 s'))"
      using key [OF u(1)] by (metis c)
  next
    fix k q assume "(k, q) \<in> set (header (tree6 s'))"
    then obtain u where u: "tun_mem s q = Some u" "k = v6key u" "(v4key u, q) \<in> set (header (tree4 s))"
      using I(4) [of k q] by (auto simp: c)
    then show "\<exists>t. tun_mem s' q = Some t \<and> k = v6key t \<and> (v4key t, q) \<in> set (header (tree4 s'))"
      using key [OF u(1)] by (metis c)
  qed
  have only: "q = p \<longleftrightarrow> k = v6key t" if "(k, q) \<in> set (header (tree6 s))" for k q
  proof
    assume "q = p" with I(4) [OF that] assms(3) show "k = v6key t" by auto
  next
    assume "k = v6key t" then show "q = p" using same_key [OF I(2) that] assms(2) by simp
  qed
  have u: "users s' a = Some x \<longleftrightarrow>
      (if a = ucCltIPv6 t then x = t\<lparr>ulLiveTime := l\<rparr> else users s a = Some x)" for a x
    unfolding users_Some_iff [OF inv] users_Some_iff [OF assms(1)] c
    using only [of "KEY_V6 a"] assms(2) by (auto simp: m)
  show "users s' = (users s)(ucCltIPv6 t \<mapsto> t\<lparr>ulLiveTime := l\<rparr>)"
    by (rule map_eqI) (auto simp: u)
qed

lemma TunnelTimeCheck_ok:
  assumes "tun_inv s" "(v6key t, p) \<in> set (header (tree6 s))" "tun_mem s p = Some t"
    "(v4key t, p) \<in> set (header (tree4 s))" "uiMaxLifeTime (GlobalCtx s) div 4 = q"
  shows "\<exists>s'. TunnelTimeCheck s p = Some s' \<and> tun_inv s' \<and> users s' = (users s)(ucCltIPv6 t := age q t)
        \<and> (\<forall>q. q \<noteq> p \<longrightarrow> tun_mem s' q = tun_mem s q)
        \<and> (\<forall>k q. q \<noteq> p \<longrightarrow> (k, q) \<in> set (header (tree4 s')) \<longleftrightarrow> (k, q) \<in> set (header (tree4 s)))
        \<and> nl_sent s' = nl_sent s @ expiry_msg q t \<and> GlobalCtx s' = GlobalCtx s"
proof -
  let ?t = "t\<lparr>ulLiveTime := ulLiveTime t - q\<rparr>"
  define s1 where "s1 = s\<lparr>tun_mem := (tun_mem s)(p \<mapsto> ?t)\<rparr>"
  note a = aged_in_place [OF assms(1-3) s1_def]
  have s1: "(v6key ?t, p) \<in> set (header (tree6 s1))" "tun_mem s1 p = Some ?t"
    "pStroageCtx s1 = pStroageCtx s" "nl_sent s1 = nl_sent s" "GlobalCtx s1 = GlobalCtx s"
    "\<And>q. q \<noteq> p \<Longrightarrow> tun_mem s1 q = tun_mem s q"
    using assms(2) by (simp_all add: s1_def)
  show ?thesis
  proof (cases "ulLiveTime t - q = 0")
    case False
    then have "TunnelTimeCheck s p = Some s1"
      using assms(3,5) by (simp add: TunnelTimeCheck_def s1_def Let_def)
    then show ?thesis using a s1 False by (simp add: age_def expiry_msg_def)
  next
    case True
    obtain s2 where s2: "ClearStorage s1 p = Some s2" "removed p ?t s1 s2"
      by (rule ClearStorage_ok [OF a(1) s1(1,2)])
    note f = removed_frame [OF a(1) s1(1,2) s2(2)] removed_users(1,2) [OF a(1) s1(1,2) s2(2)]
    let ?s = "s2\<lparr>nl_sent := nl_sent s2 @ expiry_msg q t\<rparr>"
    have "TunnelTimeCheck s p = Some ?s"
    proof -
      obtain t4 where t4: "DeleteElement (pStroageCtx s) (v4key t) ELEMENT_4 =
          Some ((pStroageCtx s)(ELEMENT_4 := t4), map_of (header (tree4 s)) (v4key t))"
        using DeleteElement_ok [where c = "pStroageCtx s" and e = ELEMENT_4, OF tun_invD(1) [OF assms(1)]]
        by metis
      let ?c = "(pStroageCtx s)(ELEMENT_4 := t4)"
      have "bp_inv (?c ELEMENT_6)" using tun_invD(2) [OF assms(1)] by simp
      then obtain t6 where t6: "DeleteElement ?c (v6key t) ELEMENT_6 =
          Some (?c(ELEMENT_6 := t6), map_of (header (?c ELEMENT_6)) (v6key t))"
        using DeleteElement_ok [where c = ?c and e = ELEMENT_6] by metis
      have "ClearStorage s1 p = Some (free_tunnel p (s1\<lparr>pStroageCtx := ?c(ELEMENT_6 := t6)\<rparr>))"
        using t4 t6 s1(2,3) by (simp add: ClearStorage_def)
      then have s2eq: "s2 = free_tunnel p (s1\<lparr>pStroageCtx := ?c(ELEMENT_6 := t6)\<rparr>)"
        using s2(1) by simp
      show ?thesis
        using t4 t6 assms(3,5) True
        by (simp add: TunnelTimeCheck_def s2eq s1_def free_tunnel_def send_defs expiry_msg_def)
    qed
    then show ?thesis
      by (intro exI [of _ ?s]) (use f s1 a(2) True in \<open>simp add: age_def\<close>)
  qed
qed

interpretation ageing: tunnel_callback TunnelTimeCheck g
  "age (uiMaxLifeTime g div 4)" "expiry_msg (uiMaxLifeTime g div 4)" for g
proof
  fix s t p
  assume inv: "tun_inv s" and g: "GlobalCtx s = g"
    and kp: "(v4key t, p) \<in> set (header (tree4 s))" and t: "tun_mem s p = Some t"
  have k6: "(v6key t, p) \<in> set (header (tree6 s))" using tun_invD(3) [OF inv kp] t by auto
  show "\<exists>s'. TunnelTimeCheck s p = Some s' \<and> tun_inv s'
        \<and> users s' = (users s)(ucCltIPv6 t := age (uiMaxLifeTime g div 4) t)
        \<and> (\<forall>q. q \<noteq> p \<longrightarrow> tun_mem s' q = tun_mem s q)
        \<and> (\<forall>k q. q \<noteq> p \<longrightarrow> (k, q) \<in> set (header (tree4 s')) \<longleftrightarrow> (k, q) \<in> set (header (tree4 s)))
        \<and> nl_sent s' = nl_sent s @ expiry_msg (uiMaxLifeTime g div 4) t \<and> GlobalCtx s' = g"
    using TunnelTimeCheck_ok [OF inv k6 t kp, of "uiMaxLifeTime g div 4"] g by simp
qed

lemma TunnelTimeOut_ok:
  assumes "tun_inv s" "StorageTimer (GlobalCtx s) = None" and "q = uiMaxLifeTime (GlobalCtx s) div 4"
  obtains s' where "TunnelTimeOut s = Some s'" "tun_inv s'"
    "\<And>a. users s' a = Option.bind (users s a) (age q)"
    "nl_sent s' = nl_sent s @ concat (map (expiry_msg q) (tun_list s))"
    "GlobalCtx s' = (GlobalCtx s)\<lparr>StorageTimer := Some q\<rparr>"
proof -
  obtain s1 where s1: "bptraverse (tree4 s) TunnelTimeCheck s = Some s1" "tun_inv s1"
    "GlobalCtx s1 = GlobalCtx s" "\<And>a. users s1 a = Option.bind (users s a) (age q)"
    "nl_sent s1 = nl_sent s @ concat (map (expiry_msg q) (tun_list s))"
    using ageing.walk_ok [OF assms(1) refl] unfolding assms(3) by metis
  show ?thesis
    by (rule that [of "s1\<lparr>GlobalCtx := (GlobalCtx s1)\<lparr>StorageTimer := Some q\<rparr>\<rparr>"])
      (use s1 assms(2,3) in \<open>simp_all add: TunnelTimeOut_def add_timer_def\<close>)
qed

section \<open>Port ranges\<close>

lemma c_div_nonneg: "0 \<le> a \<Longrightarrow> 0 < b \<Longrightarrow> c_div a b = a div b"
  by (cases "a = 0") (auto simp: c_div_def)

lemma getstartport_eq:
  assumes "usPortRange g \<noteq> 0" "START_PORT \<le> unat Port"
  obtains r where "getstartport g Port = Some r"
    "unat r = START_PORT + (unat Port - START_PORT) div unat (usPortRange g) * unat (usPortRange g)"
proof -
  let ?R = "unat (usPortRange g)" and ?a = "unat Port - START_PORT"
  have u: "uint (usPortRange g) = int ?R" "uint Port - int START_PORT = int ?a"
    using assms(2) by (simp_all add: of_nat_diff)
  have R: "0 < ?R" using assms(1) by (simp add: unat_gt_0)
  have "?a div ?R * ?R \<le> ?a" by (rule div_times_less_eq_dividend)
  moreover have "unat Port < 2 ^ 16" using unsigned_less [of Port] by simp
  ultimately have lt: "START_PORT + ?a div ?R * ?R < 2 ^ LENGTH(16)"
    using assms(2) by (simp del: div_times_less_eq_dividend)
  have "c_div (int ?a) (int ?R) * int ?R + int START_PORT = int (START_PORT + ?a div ?R * ?R)"
    using c_div_nonneg [of "int ?a" "int ?R"] R by (simp only: of_nat_0_le_iff of_nat_0_less_iff
        zdiv_int of_nat_add of_nat_mult add.commute)
  then have "getstartport g Port = Some (word_of_nat (START_PORT + ?a div ?R * ?R))"
    using assms(1) unfolding getstartport_def u by (simp del: of_nat_add of_nat_mult)
  moreover have "unat (word_of_nat (START_PORT + ?a div ?R * ?R) :: u16) = START_PORT + ?a div ?R * ?R"
    by (rule of_nat_inverse [OF refl lt])
  ultimately show ?thesis using that by blast
qed

section \<open>Runs of the timer\<close>

fun timer_runs :: "nat \<Rightarrow> kstate \<Rightarrow> kstate option" where
  "timer_runs 0 s = Some s"
| "timer_runs (Suc n) s = Option.bind (fire_timer s) (timer_runs n)"

lemma fire_timer_ok:
  assumes "tun_inv s" "StorageTimer (GlobalCtx s) \<noteq> None" "q = uiMaxLifeTime (GlobalCtx s) div 4"
  obtains s' where "fire_timer s = Some s'" "tun_inv s'"
    "\<And>a. users s' a = Option.bind (users s a) (age q)"
    "nl_sent s' = nl_sent s @ concat (map (expiry_msg q) (tun_list s))"
    "GlobalCtx s' = (GlobalCtx s)\<lparr>StorageTimer := Some q\<rparr>"
proof -
  have d: "tun_inv (del_timer s)" "StorageTimer (GlobalCtx (del_timer s)) = None"
    "users (del_timer s) = users s" "nl_sent (del_timer s) = nl_sent s"
    "tun_list (del_timer s) = tun_list s"
    "GlobalCtx (del_timer s) = (GlobalCtx s)\<lparr>StorageTimer := None\<rparr>"
    using assms(1) by (simp_all add: del_timer_def tun_list_def)
  obtain s' where s': "TunnelTimeOut (del_timer s) = Some s'" "tun_inv s'"
    "\<And>a. users s' a = Option.bind (users (del_timer s) a) (age q)"
    "nl_sent s' = nl_sent (del_timer s) @ concat (map (expiry_msg q) (tun_list (del_timer s)))"
    "GlobalCtx s' = (GlobalCtx (del_timer s))\<lparr>StorageTimer := Some q\<rparr>"
    by (rule TunnelTimeOut_ok [OF d(1,2), of q]) (use assms(3) d(6) in auto)
  show ?thesis
    by (rule that [of s']) (use s' d assms(2) in \<open>auto simp: fire_timer_def\<close>)
qed

lemma timer_runs_user:
  assumes "tun_inv s" "StorageTimer (GlobalCtx s) \<noteq> None" "q = uiMaxLifeTime (GlobalCtx s) div 4"
    "users s a = Some t" "\<And>k. 0 < k \<Longrightarrow> k \<le> n \<Longrightarrow> ulLiveTime t \<noteq> of_nat k * q"
  shows "\<exists>s'. timer_runs n s = Some s' \<and> tun_inv s' \<and> StorageTimer (GlobalCtx s') \<noteq> None
    \<and> q = uiMaxLifeTime (GlobalCtx s') div 4
    \<and> users s' a = Some (t\<lparr>ulLiveTime := ulLiveTime t - of_nat n * q\<rparr>)"
  using assms
proof (induction n arbitrary: s t)
  case 0
  then show ?case by simp
next
  case (Suc n)
  obtain s1 where s1: "fire_timer s = Some s1" "tun_inv s1"
    "\<And>a. users s1 a = Option.bind (users s a) (age q)"
    "GlobalCtx s1 = (GlobalCtx s)\<lparr>StorageTimer := Some q\<rparr>"
    using fire_timer_ok [OF Suc.prems(1-3)] by metis
  have "ulLiveTime t - q \<noteq> 0" using Suc.prems(5) [of 1] by simp
  then have u1: "users s1 a = Some (t\<lparr>ulLiveTime := ulLiveTime t - q\<rparr>)"
    using s1(3) [of a] Suc.prems(4) by (simp add: age_def)
  have "ulLiveTime (t\<lparr>ulLiveTime := ulLiveTime t - q\<rparr>) \<noteq> of_nat k * q" if "0 < k" "k \<le> n" for k
    using Suc.prems(5) [of "Suc k"] that by (simp add: algebra_simps)
  then obtain s2 where "timer_runs n s1 = Some s2" "tun_inv s2" "StorageTimer (GlobalCtx s2) \<noteq> None"
    "q = uiMaxLifeTime (GlobalCtx s2) div 4"
    "users s2 a = Some (t\<lparr>ulLiveTime := ulLiveTime t - q - of_nat n * q\<rparr>)"
    using Suc.IH [OF s1(2) _ _ u1] s1(4) Suc.prems(3) by auto
  then show ?case using s1(1) by (simp add: algebra_simps)
qed

lemma timer_runs_Suc_right: "timer_runs (Suc n) s = Option.bind (timer_runs n s) fire_timer"
proof (induction n arbitrary: s)
  case 0
  show ?case by (cases "fire_timer s") simp_all
next
  case (Suc n)
  show ?case by (cases "fire_timer s") (simp_all add: Suc [simplified])
qed

section \<open>A table with one tunnel\<close>

text \<open>The state the witnesses run on: one subscriber, whose tunnel lies at address 7.\<close>

definition tunnel7 :: TUNNEL_CTX where
  "tunnel7 = \<lparr>usStartPort = 1024, usEndPort = 2047, uiExtIP = 0x01020304,
              ucCltIPv6 = replicate 16 6, ulLiveTime = 3600\<rparr>"

definition tunnel8 :: TUNNEL_CTX where
  "tunnel8 = tunnel7\<lparr>usStartPort := 2048, usEndPort := 3071, ucCltIPv6 := replicate 16 8\<rparr>"

definition global7 :: GLOBAL_CTX where
  "global7 = \<lparr>uiVersion = 1, StorageTimer = Some 900, ucTcIPv6 = replicate 16 1, usMtu = 1500,
     uiExtBeginIP = 0x01020301, uiExtEndIP = 0x010203FF, uiTunState = 1, usPortRange = 1024,
     uiOtherExtBeginIP = 0, uiOtherExtEndIP = 0, uiMaxLifeTime = 3600\<rparr>"

definition state7 :: kstate where
  "state7 = \<lparr>tun_mem = [7 \<mapsto> tunnel7, 8 \<mapsto> tunnel8],
     pStroageCtx = (\<lambda>e. let k = (case e of ELEMENT_4 \<Rightarrow> v4key tunnel7 | ELEMENT_6 \<Rightarrow> v6key tunnel7)
                        in \<lparr>root = Some (BPLeaf k [(k, 7)]), header = [(k, 7)], tsize = 1\<rparr>),
     GlobalCtx = global7, nl_sent = []\<rparr>"

lemma state7_inv: "tun_inv state7"
proof (rule tun_invI)
  show "bp_inv (tree4 state7)" "bp_inv (tree6 state7)"
    by (simp_all add: state7_def bp_inv_def wf_root_def Let_def)
qed (auto simp: state7_def Let_def tunnel7_def)

lemma state7_facts [simp]:
  "tun_mem state7 = [7 \<mapsto> tunnel7, 8 \<mapsto> tunnel8]" "GlobalCtx state7 = global7"
  "header (tree4 state7) = [(v4key tunnel7, 7)]" "header (tree6 state7) = [(v6key tunnel7, 7)]"
  "tsize (tree4 state7) = 1" "tsize (tree6 state7) = 1" "nl_sent state7 = []"
  by (simp_all add: state7_def Let_def)

lemma state7_users: "users state7 (replicate 16 6) = Some tunnel7" "users state7 (replicate 16 8) = None"
  by (auto simp: users_def tunnel7_def option_simps)

lemma CreateTunnel_shadow:
  assumes "tun_inv s" "tun_mem s p = Some t" "(v6key t, q) \<in> set (header (tree6 s))" "p \<noteq> q"
    and "ports s (uiExtIP t, usStartPort t) = None" "tsize (tree4 s) \<noteq> MAXBPSIZE"
  shows "\<exists>s'. CreateTunnel s p = Some (s', 1) \<and> LookupTunnel_v6 s' (v6key t) = Some (Some q)
    \<and> LookupTunnel_v4 s' (v4key t) = Some (Some p) \<and> \<not> tun_inv s'
    \<and> tun_mem s' = tun_mem s \<and> GlobalCtx s' = GlobalCtx s \<and> nl_sent s' = nl_sent s"
proof -
  note I = tun_invD [OF assms(1)]
  have n4: "v4key t \<notin> fst ` set (header (tree4 s))"
    using ports_None_iff [OF assms(1)] assms(5) by auto
  have f: "FindElement (pStroageCtx s) (v4key t) ELEMENT_4 = Some None"
    using bp.find_None_iff [OF I(1)] n4 by (simp add: FindElement_def)
  obtain t4 where t4: "bpinsert (tree4 s) (v4key t) p = Some (t4, 0)" "bp_inv t4"
    "set (header t4) = insert (v4key t, p) (set (header (tree4 s)))"
    by (rule bp.ins_set [OF I(1) assms(6) n4, of p])
  have full6: "tsize (tree6 s) \<noteq> MAXBPSIZE" using tree_sizes [OF assms(1)] assms(6) by simp
  have "v6key t \<in> fst ` set (header (tree6 s))" using assms(3) by force
  then have t6: "bpinsert (tree6 s) (v6key t) p = Some (tree6 s, 0)"
    by (rule bp.ins_present [OF I(2) full6])
  let ?s = "s\<lparr>pStroageCtx := (pStroageCtx s)(ELEMENT_4 := t4, ELEMENT_6 := tree6 s)\<rparr>"
  have c: "CreateTunnel s p = Some (?s, 1)"
    using f t4 t6 assms(2) by (simp add: CreateTunnel_def InsertElement_def)
  have q: "map_of (header (tree6 s)) (v6key t) = Some q"
    using assms(3) map_of_mem_iff [OF I(2)] by simp
  have p: "map_of (header t4) (v4key t) = Some p" using t4(3) map_of_mem_iff [OF t4(2)] by simp
  have "\<not> tun_inv ?s"
  proof
    assume "tun_inv ?s"
    then have "(v6key t, p) \<in> set (header (tree6 s))"
      using tun_invD(3) [of ?s "v4key t" p] t4(3) assms(2) by auto
    then show False using same_key [OF I(2) assms(3)] assms(4) by simp
  qed
  moreover have "LookupTunnel_v6 ?s (v6key t) = Some (Some q)"
    using bp.find_entries [OF I(2)] q by (simp add: LookupTunnel_v6_def FindElement_def)
  moreover have "LookupTunnel_v4 ?s (v4key t) = Some (Some p)"
    using bp.find_entries [OF t4(2)] p by (simp add: LookupTunnel_v4_def FindElement_def)
  ultimately show ?thesis using c by (intro exI [of _ ?s]) simp
qed

text \<open>The tunnel of a client that has one: the look-up by the client still finds the old one.\<close>

lemma CreateTunnel_second:
  assumes "tun_inv s" "tun_mem s p = Some t" "users s (ucCltIPv6 t) = Some u"
    and free: "ports s (uiExtIP t, usStartPort t) = None" "tsize (tree4 s) \<noteq> MAXBPSIZE"
  obtains s' q where "CreateTunnel s p = Some (s', 1)" "q \<noteq> p" "tun_mem s q = Some u"
    "LookupTunnel_v6 s' (v6key t) = Some (Some q)" "LookupTunnel_v4 s' (v4key t) = Some (Some p)" "\<not> tun_inv s'"
    "tun_mem s' = tun_mem s" "GlobalCtx s' = GlobalCtx s" "nl_sent s' = nl_sent s"
proof -
  obtain q where q: "(v6key t, q) \<in> set (header (tree6 s))" "tun_mem s q = Some u"
    using assms(3) by (auto simp: users_Some_iff [OF assms(1)])
  have "q \<noteq> p"
  proof
    assume "q = p"
    then have "(v4key t, p) \<in> set (header (tree4 s))" using tun_invD(4) [OF assms(1) q(1)] assms(2) by auto
    then show False using free(1) ports_None_iff [OF assms(1)] by force
  qed
  then obtain s' where "CreateTunnel s p = Some (s', 1)" "LookupTunnel_v6 s' (v6key t) = Some (Some q)"
    "LookupTunnel_v4 s' (v4key t) = Some (Some p)" "\<not> tun_inv s'"
    "tun_mem s' = tun_mem s" "GlobalCtx s' = GlobalCtx s" "nl_sent s' = nl_sent s"
    using CreateTunnel_shadow [OF assms(1,2) q(1) _ free] by auto
  then show ?thesis using that \<open>q \<noteq> p\<close> q(2) by blast
qed

section \<open>Properties\<close>

text \<open>C25: \<open>CreateTunnel\<close> refuses, changing nothing, exactly when the external address and start port are taken or the
  storage is full.  Otherwise it returns 1.  For a client that has no tunnel the table is the old one with this
  tunnel, reachable by both keys.  For a client that has one the new tunnel is reachable by its address and
  port, the client's key still leads to the old one, and the table is not well formed any more.\<close>

theorem CreateTunnel_stores:
  assumes "tun_inv s" "tun_mem s p = Some t"
  shows "if ports s (uiExtIP t, usStartPort t) \<noteq> None \<or> tsize (tree4 s) = MAXBPSIZE
    then CreateTunnel s p = Some (s, -1)
    else (case users s (ucCltIPv6 t) of
        None \<Rightarrow> \<exists>s'. CreateTunnel s p = Some (s', 1) \<and> tun_inv s' \<and> users s' = (users s)(ucCltIPv6 t \<mapsto> t)
          \<and> LookupTunnel_v6 s' (v6key t) = Some (Some p) \<and> LookupTunnel_v4 s' (v4key t) = Some (Some p)
      | Some u \<Rightarrow> \<exists>s' q. CreateTunnel s p = Some (s', 1) \<and> \<not> tun_inv s' \<and> q \<noteq> p \<and> tun_mem s' q = Some u
          \<and> LookupTunnel_v6 s' (v6key t) = Some (Some q) \<and> LookupTunnel_v4 s' (v4key t) = Some (Some p))"
proof (cases "ports s (uiExtIP t, usStartPort t) \<noteq> None \<or> tsize (tree4 s) = MAXBPSIZE")
  case True
  then show ?thesis using CreateTunnel_refused [OF assms] by simp
next
  case False
  then have free: "ports s (uiExtIP t, usStartPort t) = None" "tsize (tree4 s) \<noteq> MAXBPSIZE" by simp_all
  show ?thesis
  proof (cases "users s (ucCltIPv6 t)")
    case None
    obtain s' where s': "CreateTunnel s p = Some (s', 1)" "created p t s s'"
      by (rule CreateTunnel_done [OF assms None free])
    have u: "tun_inv s'" "users s' = (users s)(ucCltIPv6 t \<mapsto> t)"
      using created_users [OF assms None free(1) s'(2)] by auto
    have "map_of (header (tree6 s')) (v6key t) = Some p" "map_of (header (tree4 s')) (v4key t) = Some p"
      using s'(2) map_of_mem_iff [of "tree6 s'"] map_of_mem_iff [of "tree4 s'"] by (auto simp: created_def)
    then show ?thesis
      using None free s' u LookupTunnel_v6_ok [OF u(1)] LookupTunnel_v4_ok [OF u(1)] by auto
  next
    case (Some u)
    obtain s' q where "CreateTunnel s p = Some (s', 1)" "q \<noteq> p" "tun_mem s q = Some u"
      "LookupTunnel_v6 s' (v6key t) = Some (Some q)" "LookupTunnel_v4 s' (v4key t) = Some (Some p)" "\<not> tun_inv s'"
      "tun_mem s' = tun_mem s" by (rule CreateTunnel_second [OF assms Some free])
    then show ?thesis using Some free by auto
  qed
qed

theorem CreateTunnel_stores_witness:
  "\<exists>s'. CreateTunnel state7 8 = Some (s', 1) \<and> tun_inv s'
      \<and> users s' = (users state7)(replicate 16 8 \<mapsto> tunnel8)
      \<and> LookupTunnel_v6 s' (v6key tunnel8) = Some (Some 8)
      \<and> LookupTunnel_v4 s' (v4key tunnel8) = Some (Some 8)"
proof -
  have "ports state7 (uiExtIP tunnel8, usStartPort tunnel8) = None"
    by (simp add: ports_def tunnel8_def tunnel7_def)
  then show ?thesis
    using CreateTunnel_stores [OF state7_inv, of 8 tunnel8] state7_users
    by (simp add: tunnel8_def MAXBPSIZE_def)
qed

text \<open>A flaw.  \<open>bpinsert\<close> returns 0 for a key that is present, which \<open>InsertElement\<close> reports as
  success, so \<open>CreateTunnel\<close> for a client that already has a tunnel, on a free external
  address and port, returns 1 although the client's own key still leads to the old tunnel:
  inbound packets to the new port find a tunnel that the client look-up does not know.\<close>

theorem CreateTunnel_shadowed:
  assumes "tun_inv s" "tun_mem s p = Some t" "(v6key t, q) \<in> set (header (tree6 s))" "p \<noteq> q"
    and "ports s (uiExtIP t, usStartPort t) = None" "tsize (tree4 s) \<noteq> MAXBPSIZE"
  shows "\<exists>s'. CreateTunnel s p = Some (s', 1) \<and> LookupTunnel_v6 s' (v6key t) = Some (Some q)
    \<and> LookupTunnel_v4 s' (v4key t) = Some (Some p) \<and> \<not> tun_inv s'"
  using CreateTunnel_shadow [OF assms] by blast

definition state9 :: kstate where
  "state9 = state7\<lparr>tun_mem := (tun_mem state7)(9 \<mapsto> tunnel7\<lparr>usStartPort := 4096\<rparr>)\<rparr>"

theorem CreateTunnel_shadowed_witness:
  "\<exists>s'. CreateTunnel state9 9 = Some (s', 1) \<and> LookupTunnel_v6 s' (v6key tunnel7) = Some (Some 7)
    \<and> \<not> tun_inv s'"
proof -
  have "tun_inv state9"
    by (rule tun_invI)
      (auto simp: state9_def state7_def bp_inv_def wf_root_def Let_def tunnel7_def)
  moreover have "ports state9 (uiExtIP tunnel7, 4096) = None"
    by (simp add: ports_def state9_def state7_def Let_def tunnel7_def)
  ultimately show ?thesis
    using CreateTunnel_shadowed [of state9 9 "tunnel7\<lparr>usStartPort := 4096\<rparr>" 7]
    by (fastforce simp: state9_def state7_def Let_def MAXBPSIZE_def)
qed

text \<open>\<open>DeleteTunnel\<close> removes exactly the client's tunnel from both trees, frees it, and hands
  back the start port and external address it had; for a client without a tunnel it returns
  -1 and changes nothing.\<close>

theorem DeleteTunnel_removes:
  assumes "tun_inv s"
  shows "case users s a of
      None \<Rightarrow> DeleteTunnel s a = Some (s, -1, None)
    | Some t \<Rightarrow> \<exists>s'. DeleteTunnel s a = Some (s', 1, Some (usStartPort t, uiExtIP t))
        \<and> tun_inv s' \<and> users s' = (users s)(a := None)
        \<and> LookupTunnel_v4 s' (v4key t) = Some None"
proof (cases "users s a")
  case None
  then show ?thesis using DeleteTunnel_ok [OF assms, of a] by simp
next
  case (Some t)
  obtain s' p where s': "DeleteTunnel s a = Some (s', 1, Some (usStartPort t, uiExtIP t))"
    "removed p t s s'" "(v6key t, p) \<in> set (header (tree6 s))" "tun_mem s p = Some t"
    using DeleteTunnel_ok [OF assms, of a] Some by auto
  note r = removed_users(1,2) [OF assms s'(3,4,2)]
  have "map_of (header (tree4 s')) (v4key t) = None"
    using s'(2) by (auto simp: removed_def map_of_eq_None_iff)
  then show ?thesis
    using s' r Some users_addr [OF assms Some] LookupTunnel_v4_ok [OF r(1)] by auto
qed

theorem DeleteTunnel_removes_witness:
  "\<exists>s'. DeleteTunnel state7 (replicate 16 6) = Some (s', 1, Some (1024, 0x01020304))
    \<and> users s' = (users state7)(replicate 16 6 := None)"
  using DeleteTunnel_removes [OF state7_inv, of "replicate 16 6"] state7_users(1)
  by (auto simp: tunnel7_def)

text \<open>C26: when the storage timer fires, every tunnel's life time drops by a quarter of the longest
  life time; those that reach 0 are removed from both trees and freed and reported to the
  daemon, in the order of the v4 tree, and the timer is armed again.\<close>

theorem timer_ages_every_tunnel:
  assumes "tun_inv s" "StorageTimer (GlobalCtx s) \<noteq> None" "q = uiMaxLifeTime (GlobalCtx s) div 4"
  shows "\<exists>s'. fire_timer s = Some s' \<and> tun_inv s'
    \<and> (\<forall>a. users s' a = (case users s a of
           None \<Rightarrow> None
         | Some t \<Rightarrow> if ulLiveTime t = q then None else Some (t\<lparr>ulLiveTime := ulLiveTime t - q\<rparr>)))
    \<and> nl_sent s' = nl_sent s @ map (\<lambda>t. (NL_ASYNC, ConstructTunMsg (ucCltIPv6 t) NETLINK_DELETE_NODE
           (uiExtIP t) (usStartPort t) 0)) (filter (\<lambda>t. ulLiveTime t = q) (tun_list s))
    \<and> StorageTimer (GlobalCtx s') = Some q"
proof -
  obtain s' where s': "fire_timer s = Some s'" "tun_inv s'"
    "\<And>a. users s' a = Option.bind (users s a) (age q)"
    "nl_sent s' = nl_sent s @ concat (map (expiry_msg q) (tun_list s))"
    "GlobalCtx s' = (GlobalCtx s)\<lparr>StorageTimer := Some q\<rparr>"
    using fire_timer_ok [OF assms] by metis
  have "concat (map (expiry_msg q) ts) = map (\<lambda>t. (NL_ASYNC, ConstructTunMsg (ucCltIPv6 t)
      NETLINK_DELETE_NODE (uiExtIP t) (usStartPort t) 0)) (filter (\<lambda>t. ulLiveTime t = q) ts)" for ts
    by (induction ts) (auto simp: expiry_msg_def)
  moreover have "Option.bind (users s a) (age q) = (case users s a of None \<Rightarrow> None
      | Some t \<Rightarrow> if ulLiveTime t = q then None else Some (t\<lparr>ulLiveTime := ulLiveTime t - q\<rparr>))" for a
    by (cases "users s a") (auto simp: age_def)
  ultimately show ?thesis using s' by auto
qed

theorem timer_ages_every_tunnel_witness:
  "\<exists>s'. fire_timer state7 = Some s' \<and> users s' (replicate 16 6) = Some (tunnel7\<lparr>ulLiveTime := 2700\<rparr>)"
proof -
  have "StorageTimer (GlobalCtx state7) \<noteq> None" "900 = uiMaxLifeTime (GlobalCtx state7) div 4"
    by (simp_all add: global7_def)
  from timer_ages_every_tunnel [OF state7_inv this] obtain s' where s': "fire_timer state7 = Some s'"
    "\<forall>a. users s' a = (case users state7 a of None \<Rightarrow> None
         | Some t \<Rightarrow> if ulLiveTime t = 900 then None else Some (t\<lparr>ulLiveTime := ulLiveTime t - 900\<rparr>))"
    by blast
  have "users s' (replicate 16 6) = Some (tunnel7\<lparr>ulLiveTime := 2700\<rparr>)"
    using spec [OF s'(2), of "replicate 16 6"] unfolding state7_users(1) by (simp add: tunnel7_def)
  then show ?thesis using s'(1) by blast
qed

text \<open>C28: a subscriber whose life time is \<open>n\<close> quarters of the longest life time is in the table
  until the \<open>n\<close>-th timer and gone after it.\<close>

theorem tunnel_expires_on_time:
  assumes "tun_inv s" "StorageTimer (GlobalCtx s) \<noteq> None" "users s a = Some t"
    and "q = uiMaxLifeTime (GlobalCtx s) div 4" "0 < n" "0 < unat q"
    and "unat (ulLiveTime t) = n * unat q"
  shows "(\<forall>m < n. \<exists>s'. timer_runs m s = Some s' \<and> users s' a \<noteq> None)
    \<and> (\<exists>s'. timer_runs n s = Some s' \<and> users s' a = None)"
proof
  have "ulLiveTime t = word_of_nat (unat (ulLiveTime t))" by simp
  then have l: "ulLiveTime t = of_nat n * q" unfolding assms(7) by simp
  have ne: "ulLiveTime t \<noteq> of_nat k * q" if "k < n" for k
  proof
    assume "ulLiveTime t = of_nat k * q"
    then have "word_of_nat (k * unat q) = ulLiveTime t" by simp
    moreover have "k * unat q < 2 ^ LENGTH(32)"
      using that assms(7) unsigned_less [of "ulLiveTime t"] by (metis less_trans mult_less_mono1 assms(6))
    ultimately have "unat (ulLiveTime t) = k * unat q"
      by (rule of_nat_inverse)
    then show False using assms(6,7) that by simp
  qed
  have run: "\<exists>s'. timer_runs m s = Some s' \<and> tun_inv s' \<and> StorageTimer (GlobalCtx s') \<noteq> None
    \<and> q = uiMaxLifeTime (GlobalCtx s') div 4
    \<and> users s' a = Some (t\<lparr>ulLiveTime := ulLiveTime t - of_nat m * q\<rparr>)" if "m < n" for m
    using ne that by (intro timer_runs_user [OF assms(1,2,4,3)]) auto
  show "\<forall>m < n. \<exists>s'. timer_runs m s = Some s' \<and> users s' a \<noteq> None" using run by fastforce
  obtain k where k: "n = Suc k" using assms(5) by (cases n) auto
  obtain s1 where s1: "timer_runs k s = Some s1" "tun_inv s1" "StorageTimer (GlobalCtx s1) \<noteq> None"
    "q = uiMaxLifeTime (GlobalCtx s1) div 4"
    "users s1 a = Some (t\<lparr>ulLiveTime := ulLiveTime t - of_nat k * q\<rparr>)"
    using run [of k] k by auto
  have "ulLiveTime t - of_nat k * q = q" using l k by (simp add: algebra_simps)
  then have "Option.bind (users s1 a) (age q) = None" using s1(5) by (simp add: age_def)
  then obtain s2 where "fire_timer s1 = Some s2" "users s2 a = None"
    using fire_timer_ok [OF s1(2,3,4)] by metis
  then show "\<exists>s'. timer_runs n s = Some s' \<and> users s' a = None"
    using s1(1) by (simp only: k timer_runs_Suc_right Option.bind.simps) blast
qed

theorem tunnel_expires_on_time_witness:
  "(\<exists>s'. timer_runs 3 state7 = Some s' \<and> users s' (replicate 16 6) \<noteq> None)
    \<and> (\<exists>s'. timer_runs 4 state7 = Some s' \<and> users s' (replicate 16 6) = None)"
proof -
  have "(\<forall>m < 4. \<exists>s'. timer_runs m state7 = Some s' \<and> users s' (replicate 16 6) \<noteq> None)
    \<and> (\<exists>s'. timer_runs 4 state7 = Some s' \<and> users s' (replicate 16 6) = None)"
    by (rule tunnel_expires_on_time [OF state7_inv _ state7_users(1), of 900 4])
      (simp_all add: global7_def tunnel7_def)
  moreover have "(3 :: nat) < 4" by simp
  ultimately show ?thesis by blast
qed

text \<open>A flaw.  The life time is unsigned, so \<open>ulLiveTime <= 0\<close> only holds at exactly 0: a
  subscriber whose life time is odd, under a timer whose step is even (as with the 3600 s of
  the configuration), is never removed, however often the timer fires.\<close>

theorem odd_life_time_never_expires:
  assumes "tun_inv s" "StorageTimer (GlobalCtx s) \<noteq> None" "users s a = Some t"
    and "q = uiMaxLifeTime (GlobalCtx s) div 4" "even (unat q)" "odd (unat (ulLiveTime t))"
  shows "\<forall>n. \<exists>s'. timer_runs n s = Some s' \<and> users s' a \<noteq> None"
proof
  fix n
  have "ulLiveTime t \<noteq> of_nat k * q" for k
  proof
    assume "ulLiveTime t = of_nat k * q"
    then have "ulLiveTime t = word_of_nat (k * unat q)" by simp
    then have "bit (ulLiveTime t) 0 \<longleftrightarrow> bit (k * unat q) 0" by (simp only: bit_of_nat_iff) simp
    moreover have "bit (ulLiveTime t) 0 \<longleftrightarrow> odd (unat (ulLiveTime t))"
      by (metis bit_0 bit_unsigned_iff possible_bit_nat)
    ultimately show False using assms(5,6) by (simp add: bit_0)
  qed
  then show "\<exists>s'. timer_runs n s = Some s' \<and> users s' a \<noteq> None"
    using timer_runs_user [OF assms(1,2,4,3), of n] by auto
qed

definition state_odd :: kstate where
  "state_odd = state7\<lparr>tun_mem := [7 \<mapsto> tunnel7\<lparr>ulLiveTime := 3601\<rparr>]\<rparr>"

theorem odd_life_time_never_expires_witness:
  "\<forall>n. \<exists>s'. timer_runs n state_odd = Some s' \<and> users s' (replicate 16 6) \<noteq> None"
proof -
  have "tun_inv state_odd"
    by (rule tun_invI)
      (auto simp: state_odd_def state7_def bp_inv_def wf_root_def Let_def tunnel7_def)
  moreover have "users state_odd (replicate 16 6) = Some (tunnel7\<lparr>ulLiveTime := 3601\<rparr>)"
    by (simp add: users_def state_odd_def state7_def Let_def tunnel7_def)
  moreover have "StorageTimer (GlobalCtx state_odd) \<noteq> None" "900 = uiMaxLifeTime (GlobalCtx state_odd) div 4"
    by (simp_all add: state_odd_def state7_def global7_def)
  moreover have "even (unat (900 :: 32 word))" "odd (unat (ulLiveTime (tunnel7\<lparr>ulLiveTime := 3601\<rparr>)))"
    by simp_all
  ultimately show ?thesis
    by (intro odd_life_time_never_expires [of state_odd "replicate 16 6" "tunnel7\<lparr>ulLiveTime := 3601\<rparr>" 900])
qed

text \<open>The start port of a port from 1024 on is the start of the range the port lies in: it
  is at or below the port, less than a range away, and a whole number of ranges above 1024.\<close>

theorem getstartport_finds_range:
  assumes "usPortRange g \<noteq> 0" "START_PORT \<le> unat Port"
  shows "\<exists>r. getstartport g Port = Some r \<and> START_PORT \<le> unat r \<and> unat r \<le> unat Port
    \<and> unat Port < unat r + unat (usPortRange g) \<and> (unat r - START_PORT) mod unat (usPortRange g) = 0"
proof -
  let ?R = "unat (usPortRange g)" and ?a = "unat Port - START_PORT"
  obtain r where r: "getstartport g Port = Some r" "unat r = START_PORT + ?a div ?R * ?R"
    by (rule getstartport_eq [OF assms])
  have R: "0 < ?R" using assms(1) by (simp add: unat_gt_0)
  have "?a div ?R * ?R \<le> ?a" by (rule div_times_less_eq_dividend)
  moreover have "?a < ?a div ?R * ?R + ?R" using dividend_less_div_times [OF R, of ?a] by simp
  ultimately have "unat r \<le> unat Port \<and> unat Port < unat r + ?R"
    using r(2) assms(2) by linarith
  then show ?thesis using r by (intro exI [of _ r]) simp
qed

theorem getstartport_finds_range_witness:
  "\<exists>r. getstartport global7 3000 = Some r \<and> START_PORT \<le> unat r \<and> unat r \<le> 3000
    \<and> 3000 < unat r + 1024 \<and> (unat r - START_PORT) mod 1024 = 0"
  using getstartport_finds_range [of global7 3000] by (simp add: global7_def START_PORT_def)

end
