(* ===== verification/Mss.thy ===== *)
theory Mss
  imports Frag Tunnel
begin

text \<open>
  The clamping of the TCP maximum segment size in SYN packets: \<open>patch_tcpmss\<close> and
  \<open>fix_msscksum\<close> of \<open>src/packet.c\<close>.  The buffer is the IPv4 packet; a read or write outside it
  is \<open>None\<close>.
\<close>

section \<open>Definitions\<close>

text \<open>
  The sums are \<open>int\<close>s below \<open>2 ^ 18\<close> and never negative: natural numbers.  \<open>~sum & 0xffff\<close> is
  \<open>65535 - sum mod 65536\<close>.
\<close>

definition msscksum :: "nat \<Rightarrow> nat \<Rightarrow> nat \<Rightarrow> nat" where
  "msscksum psum m newmss =
     (let s = 65535 - psum;
          s = s + (65535 - m);
          s = s + newmss;
          s = s div 65536 + s mod 65536;
          s = s + s div 65536
      in 65535 - s mod 65536)"

definition fix_msscksum :: "u8 list \<Rightarrow> nat \<Rightarrow> nat \<Rightarrow> u16 \<Rightarrow> u8 list option" where
  "fix_msscksum buf psum pmss newmss =
     do { c \<leftarrow> get16 buf psum;
          m \<leftarrow> get16 buf pmss;
          buf \<leftarrow> put buf pmss (be16 newmss);
          put buf psum (be16 (word_of_nat (msscksum (unat c) (unat m) (unat newmss)))) }"

text \<open>
  The scan of the TCP options from offset \<open>i\<close>.  The result is \<open>None\<close> for a read outside the
  buffer, \<open>Some None\<close> for an early return, and the offset of the first MSS option, 0 when there
  is none, when the scan ends.
\<close>

function mss_scan :: "u8 list \<Rightarrow> nat \<Rightarrow> nat \<Rightarrow> nat \<Rightarrow> nat option option" where
  "mss_scan buf len i found =
     (if i < len then
        (case get8 buf i of
           None \<Rightarrow> None
         | Some k \<Rightarrow>
             if k = 0 then Some (Some found)
             else if k = 1 then mss_scan buf len (i + 1) found
             else if i + 2 > len then Some None
             else (case get8 buf (i + 1) of
                 None \<Rightarrow> None
               | Some l \<Rightarrow>
                   if unat l < 2 then Some None
                   else if i + unat l > len then Some None
                   else if k = 19 then Some None
                   else mss_scan buf len (i + unat l) (if k = 2 \<and> found = 0 then i else found)))
      else Some (Some found))"
  by pat_completeness auto
termination by (relation "measure (\<lambda>(buf, len, i, found). len - i)") auto

declare mss_scan.simps [simp del]

text \<open>\<open>usMtu\<close> and the old size are compared as \<open>int\<close>s; the new size wraps at 16 bits.\<close>

definition patch_mss :: "GLOBAL_CTX \<Rightarrow> u8 list \<Rightarrow> nat \<Rightarrow> u8 list option" where
  "patch_mss g buf4 found =
     do { l \<leftarrow> get8 buf4 (found + 1);
          if l \<noteq> 4 then Some buf4
          else do {
            mss \<leftarrow> get16 buf4 (found + 2);
            if int (unat mss) + 40 \<le> int (unat (usMtu g)) - 40 then Some buf4
            else fix_msscksum buf4 36 (found + 2) (usMtu g - 80) } }"

definition patch_tcpmss :: "GLOBAL_CTX \<Rightarrow> u8 list \<Rightarrow> nat \<Rightarrow> u8 list option" where
  "patch_tcpmss g buf4 len =
     do { p \<leftarrow> get8 buf4 9;
          if p \<noteq> 6 then Some buf4
          else do {
            flags \<leftarrow> get8 buf4 33;
            if flags AND 0x02 = 0 then Some buf4
            else do {
              off \<leftarrow> get8 buf4 32;
              let hl = unat (drop_bit 2 (off AND 0xf0));
              if hl + 20 \<noteq> len then Some buf4
              else if hl \<le> 20 then Some buf4
              else do {
                r \<leftarrow> mss_scan buf4 len 40 0;
                (case r of
                   None \<Rightarrow> Some buf4
                 | Some found \<Rightarrow> if found = 0 then Some buf4 else patch_mss g buf4 found) } } } }"

section \<open>The scan\<close>

text \<open>What the scan finds is a complete option of kind 2 behind the fixed headers.\<close>

lemma mss_scan_reads:
  "len \<le> length buf \<Longrightarrow> mss_scan buf len i found \<noteq> None"
  by (induction buf len i found rule: mss_scan.induct)
    (subst mss_scan.simps, auto simp: get8_def split: if_splits)

lemma mss_scan_found:
  assumes "mss_scan buf len i found = Some (Some j)" "j \<noteq> found" "len \<le> length buf"
  shows "i \<le> j \<and> j + 2 \<le> len \<and> buf ! j = 2 \<and> j + unat (buf ! (j + 1)) \<le> len"
  using assms
proof (induction buf len i found rule: mss_scan.induct)
  case (1 buf len i found)
  show ?case
  proof (cases "i < len")
    case False
    then show ?thesis using 1(3,4) by (simp add: mss_scan.simps)
  next
    case True
    then have k: "get8 buf i = Some (buf ! i)" using 1(5) by (simp add: get8_def)
    consider "buf ! i = 0" | "buf ! i = 1" | "buf ! i \<noteq> 0" "buf ! i \<noteq> 1" by blast
    then show ?thesis
    proof cases
      case 1
      then show ?thesis using \<open>mss_scan buf len i found = _\<close> \<open>j \<noteq> found\<close> True k by (simp add: mss_scan.simps [of buf len i])
    next
      case 2
      then show ?thesis using 1 True k by (simp add: mss_scan.simps [of buf len i])
    next
      case 3
      let ?l = "buf ! (i + 1)" and ?f = "if buf ! i = 2 \<and> found = 0 then i else found"
      have r: "i + 2 \<le> len" "\<not> unat ?l < 2" "i + unat ?l \<le> len" "buf ! i \<noteq> 19"
        using 1(3,5) True k 3 by (simp_all add: mss_scan.simps [of buf len i] get8_def split: if_splits)
      have l: "get8 buf (i + 1) = Some ?l" using r 1(5) by (simp add: get8_def)
      have s: "mss_scan buf len (i + unat ?l) ?f = Some (Some j)"
        using 1(3) True k l r 3 by (simp add: mss_scan.simps [of buf len i])
      show ?thesis
      proof (cases "j = ?f")
        case True
        then show ?thesis using 1(4) r by (auto split: if_splits)
      next
        case False
        have n: "\<not> i + 2 > len" "\<not> i + unat ?l > len" using r by simp_all
        show ?thesis
          using 1(2) [OF \<open>i < len\<close> k 3 n(1) l r(2) n(2) r(4) s False 1(5)] by simp
      qed
    qed
  qed
qed

section \<open>The checksum\<close>

lemma msscksum_range: "msscksum c m n < 65536"
  unfolding msscksum_def Let_def by (rule le_less_trans [OF diff_le_self]) simp

text \<open>The sum of old checksum and old size equals that of the new ones, in one's complement.\<close>

lemma msscksum_mod:
  assumes "c < 65536" "m < 65536" "n < 65536"
  shows "(msscksum c m n + n) mod 65535 = (c + m) mod 65535"
proof -
  define s where "s = (65535 - c) + (65535 - m) + n"
  define t where "t = s div 65536 + s mod 65536"
  define u where "u = t + t div 65536"
  have s3: "s < 3 * 65536" using assms by (simp add: s_def)
  have t: "t < 65536 + 2" "t mod 65535 = s mod 65535"
  proof -
    have "s div 65536 \<le> 2" using s3 by simp
    moreover have "s mod 65536 < 65536" by simp
    ultimately show "t < 65536 + 2" by (simp add: t_def)
    have "s = 65535 * (s div 65536) + t" unfolding t_def by simp
    then show "t mod 65535 = s mod 65535" by (metis mod_mult_self4)
  qed
  have u: "u mod 65536 mod 65535 = t mod 65535"
  proof (cases "t < 65536")
    case True
    then show ?thesis by (simp add: u_def)
  next
    case False
    then have "t = 65536 \<or> t = 65537" using t(1) by auto
    then show ?thesis by (auto simp: u_def)
  qed
  have "msscksum c m n = 65535 - u mod 65536"
    by (simp add: msscksum_def Let_def u_def t_def s_def)
  moreover have "u mod 65536 \<le> 65535" by simp
  ultimately have e: "int (msscksum c m n) = 65535 - int (u mod 65536)" by simp
  have "u mod 65536 mod 65535 = s mod 65535" using u t(2) by simp
  then have "int (u mod 65536) mod 65535 = int s mod 65535"
    by (metis zmod_int of_nat_numeral)
  then have "(65535 - int (u mod 65536) + int n) mod 65535 = (65535 - int s + int n) mod 65535"
    by (intro mod_add_cong mod_diff_cong refl)
  moreover have "65535 - int s + int n = int c + int m - 65535" using assms by (simp add: s_def)
  moreover have "(int c + int m - 65535) mod 65535 = (int c + int m) mod 65535" by simp
  ultimately have "int (msscksum c m n + n) mod 65535 = int (c + m) mod 65535"
    by (simp add: e)
  then show ?thesis by (metis of_nat_eq_iff zmod_int of_nat_numeral)
qed

lemma unat_cat: "unat (word_cat (x :: u8) (y :: u8) :: u16) = unat x * 256 + unat y"
proof -
  have "unat (word_cat x y :: u16) = unat x * 2 ^ 8 + unat y"
    using unat_u8 [of x] unat_u8 [of y]
    by (simp add: word_cat_eq unat_word_ariths unsigned_push_bit_eq unsigned_ucast_eq take_bit_nat_eq_self push_bit_eq_mult)
  then show ?thesis by simp
qed

lemma word_sum_be16 [simp]: "word_sum (be16 v @ p) = unat v + word_sum p"
proof -
  have "unat v = unat (word_cat (ucast (drop_bit 8 v) :: u8) (ucast v :: u8) :: u16)" by simp
  also have "\<dots> = unat (ucast (drop_bit 8 v) :: u8) * 256 + unat (ucast v :: u8)" by (rule unat_cat)
  finally show ?thesis by (simp add: be16_def)
qed

text \<open>Writing a 16-bit field at an even place exchanges its value in the sum.\<close>

lemma word_sum_put:
  assumes "put buf p (be16 v) = Some buf'" "get16 buf p = Some w" "even p"
  shows "word_sum buf' + unat w = word_sum buf + unat v" "get16 buf' p = Some v"
proof -
  have p: "p + 1 < length buf" and w: "w = word_cat (buf ! p) (buf ! (p + 1))"
    using assms(2) by (auto simp: get16_def split: if_splits)
  have b': "buf' = take p buf @ be16 v @ drop (p + 2) buf"
    using assms(1) by (simp add: put_def split: if_splits)
  have b: "buf = take p buf @ buf ! p # buf ! (p + 1) # drop (p + 2) buf"
    using p by (simp add: Cons_nth_drop_Suc)
  have e: "even (length (take p buf))" using assms(3) p by simp
  have "word_sum buf = word_sum (take p buf) + (unat w + word_sum (drop (p + 2) buf))"
    by (subst b, subst word_sum_append [OF e]) (simp add: w unat_cat)
  moreover have "word_sum buf' = word_sum (take p buf) + (unat v + word_sum (drop (p + 2) buf))"
    unfolding b' by (subst word_sum_append [OF e]) simp
  ultimately show "word_sum buf' + unat w = word_sum buf + unat v" by simp
  show "get16 buf' p = Some v" unfolding b' using p by (subst get16_append) simp_all
qed

lemma put_drop:
  assumes "put buf p b = Some buf'" "n \<le> p"
  shows "put (drop n buf) (p - n) b = Some (drop n buf')"
proof -
  have l: "p + length b \<le> length buf" and b': "buf' = take p buf @ b @ drop (p + length b) buf"
    using assms(1) by (auto simp: put_def split: if_splits)
  have "drop n buf' = take (p - n) (drop n buf) @ b @ drop (p + length b) buf"
    unfolding b' using l assms(2) by (simp add: drop_take)
  then show ?thesis using l assms(2) by (simp add: put_def)
qed

lemma get16_drop: "n \<le> p \<Longrightarrow> get16 (drop n buf) (p - n) = get16 buf p"
  by (auto simp: get16_def)

lemma get16_put_other:
  assumes "put buf p b = Some buf'" "q + 2 \<le> p \<or> p + length b \<le> q"
  shows "get16 buf' q = get16 buf q"
  using assms by (auto simp: put_def get16_def nth_append split: if_splits)

lemma nth_put:
  assumes "put buf p b = Some buf'" "j < length buf" "j < p \<or> p + length b \<le> j"
  shows "buf' ! j = buf ! j"
  using assms by (auto simp: put_def nth_append split: if_splits)

text \<open>At an odd place it is the value with its bytes exchanged, which is 256 times the value.\<close>

lemma word_sum_Cons: "word_sum (b # r) = unat b * 256 + word_sum (0 # r)"
  by (cases r) simp_all

lemma word_sum_put_odd:
  assumes "put buf p (be16 v) = Some buf'" "get16 buf p = Some w" "odd p"
  shows "(int (word_sum buf') + 256 * int (unat w)) mod 65535 = (int (word_sum buf) + 256 * int (unat v)) mod 65535"
proof -
  obtain q where q: "p = Suc q" "even q" using assms(3) by (cases p) auto
  have p: "p + 1 < length buf" and w: "w = word_cat (buf ! p) (buf ! (p + 1))"
    using assms(2) by (auto simp: get16_def split: if_splits)
  obtain h l where hl: "be16 v = [h, l]" by (simp add: be16_def)
  have v: "unat v = unat h * 256 + unat l" using word_sum_be16 [of v "[]"] hl by simp
  let ?r = "drop (p + 2) buf"
  have e: "even (length (take q buf))" using q p by simp
  have b': "buf' = take q buf @ buf ! q # h # l # ?r"
    using assms(1) p q(1) by (simp add: put_def hl take_Suc_conv_app_nth split: if_splits)
  have b: "buf = take q buf @ buf ! q # buf ! p # buf ! (p + 1) # ?r"
    using p q(1) by (simp add: Cons_nth_drop_Suc)
  have "word_sum buf = word_sum (take q buf) + (unat (buf ! q) * 256 + unat (buf ! p) + unat (buf ! (p + 1)) * 256 + word_sum (0 # ?r))"
    by (subst b, subst word_sum_append [OF e]) (simp only: word_sum.simps word_sum_Cons [of "buf ! (p + 1)"] add.assoc)
  moreover have "word_sum buf' = word_sum (take q buf) + (unat (buf ! q) * 256 + unat h + unat l * 256 + word_sum (0 # ?r))"
    unfolding b' by (subst word_sum_append [OF e]) (simp only: word_sum.simps word_sum_Cons [of l] add.assoc)
  moreover have "unat w = unat (buf ! p) * 256 + unat (buf ! (p + 1))" by (simp add: w unat_cat)
  ultimately have "int (word_sum buf') + 256 * int (unat w) =
      int (word_sum buf) + 256 * int (unat v) + 65535 * (int (unat (buf ! p)) - int (unat h))"
    by (simp add: v)
  then show ?thesis by (simp only: mod_mult_self2)
qed

lemma mod_swap:
  assumes "a' + x = a + y" "y mod m = x mod m"
  shows "a' mod m = a mod (m :: nat)"
proof -
  have "int y mod int m = int x mod int m" using assms(2) by (metis zmod_int)
  then have "(int a + int y - int x) mod int m = (int a + int x - int x) mod int m"
    by (intro mod_add_cong mod_diff_cong refl)
  moreover have "int a' = int a + int y - int x" using assms(1) by linarith
  ultimately have "int a' mod int m = int a mod int m" by simp
  then show ?thesis by (metis zmod_int of_nat_eq_iff)
qed

lemma fix_msscksum_ok:
  assumes "fix_msscksum buf 36 p n = Some buf'" "40 \<le> p"
  shows "length buf' = length buf" "get16 buf' p = Some n"
    "\<And>j. j < length buf \<Longrightarrow> j \<notin> {36, 37, p, p + 1} \<Longrightarrow> buf' ! j = buf ! j"
proof -
  let ?C = "\<lambda>c m. word_of_nat (msscksum (unat c) (unat m) (unat n)) :: u16"
  obtain c m b1 where f: "get16 buf 36 = Some c" "get16 buf p = Some m" "put buf p (be16 n) = Some b1"
    "put b1 36 (be16 (?C c m)) = Some buf'"
    using assms(1) by (auto simp: fix_msscksum_def option_simps)
  show "length buf' = length buf" using put_length [OF f(3)] put_length [OF f(4)] by simp
  have g: "get16 b1 36 = Some c" using get16_put_other [OF f(3), of 36] assms(2) f(1) by simp
  show "buf' ! j = buf ! j" if "j < length buf" "j \<notin> {36, 37, p, p + 1}" for j
  proof -
    have "j < p \<or> p + length (be16 n) \<le> j" "j < 36 \<or> 36 + length (be16 (?C c m)) \<le> j"
      using that(2) by auto
    then show ?thesis
      using nth_put [OF f(3) that(1)] nth_put [OF f(4), of j] put_length [OF f(3)] that(1) by simp
  qed
  have "p + 2 \<le> length buf" using f(3) by (auto simp: put_def split: if_splits)
  then have "get16 b1 p = Some n"
    using f(3) by (auto simp: put_def get16_def be16_def nth_append split: if_splits)
  then show "get16 buf' p = Some n" using get16_put_other [OF f(4), of p] assms(2) by simp
qed

text \<open>The sum of the segment after the change: that of before, but at an odd place 255 times the difference of the sizes
  is added.\<close>

lemma fix_msscksum_sum:
  assumes "fix_msscksum buf 36 p n = Some buf'" "40 \<le> p" "get16 buf p = Some m"
  shows "(\<forall>ps. (ps + word_sum (drop 20 buf')) mod 65535 = (ps + word_sum (drop 20 buf)) mod 65535)
    \<longleftrightarrow> even p \<or> 257 dvd (int (unat m) - int (unat n))"
proof -
  let ?C = "\<lambda>c. word_of_nat (msscksum (unat c) (unat m) (unat n)) :: u16"
  obtain c b1 where f: "get16 buf 36 = Some c" "put buf p (be16 n) = Some b1" "put b1 36 (be16 (?C c)) = Some buf'"
    using assms(1,3) by (auto simp: fix_msscksum_def option_simps)
  define S S1 S' where "S = int (word_sum (drop 20 buf))" "S1 = int (word_sum (drop 20 b1))" "S' = int (word_sum (drop 20 buf'))"
  define x y where "x = int (unat n)" "y = int (unat m)"
  note names = S_S1_S'_def x_y_def
  have g: "get16 b1 36 = Some c" using get16_put_other [OF f(2), of 36] assms(2) f(1) by simp
  have d: "put (drop 20 buf) (p - 20) (be16 n) = Some (drop 20 b1)"
    "put (drop 20 b1) (36 - 20) (be16 (?C c)) = Some (drop 20 buf')"
    using put_drop [OF f(2), of 20] put_drop [OF f(3), of 20] assms(2) by simp_all
  have r: "get16 (drop 20 buf) (p - 20) = Some m" "get16 (drop 20 b1) (36 - 20) = Some c"
    using get16_drop [of 20 p buf] get16_drop [of 20 36 b1] assms(2,3) g by simp_all
  have C: "unat (?C c) = msscksum (unat c) (unat m) (unat n)"
    using msscksum_range [of "unat c" "unat m" "unat n"] by (intro of_nat_inverse [OF refl]) simp
  have "(msscksum (unat c) (unat m) (unat n) + unat n) mod 65535 = (unat c + unat m) mod 65535"
    using unsigned_less [of c] unsigned_less [of m] unsigned_less [of n] by (intro msscksum_mod) simp_all
  then have "int (msscksum (unat c) (unat m) (unat n) + unat n) mod 65535 = int (unat c + unat m) mod 65535"
    by (metis zmod_int of_nat_numeral)
  moreover have "word_sum (drop 20 buf') + unat c = word_sum (drop 20 b1) + msscksum (unat c) (unat m) (unat n)"
    using word_sum_put(1) [OF d(2) r(2)] C by simp
  then have "S' + int (unat c) = S1 + int (msscksum (unat c) (unat m) (unat n))" unfolding names by linarith
  ultimately have "S' - S1 - (y - x) = int (msscksum (unat c) (unat m) (unat n) + unat n) - int (unat c + unat m)"
    "65535 dvd int (msscksum (unat c) (unat m) (unat n) + unat n) - int (unat c + unat m)"
    unfolding names mod_eq_dvd_iff by (linarith, blast)
  then have D: "65535 dvd S' - S1 - (y - x)" by simp
  have ps: "(\<forall>ps. (ps + word_sum (drop 20 buf')) mod 65535 = (ps + word_sum (drop 20 buf)) mod 65535) \<longleftrightarrow> 65535 dvd S' - S"
    (is "?A \<longleftrightarrow> ?B")
  proof
    assume ?A
    then have "(0 + word_sum (drop 20 buf')) mod 65535 = (0 + word_sum (drop 20 buf)) mod 65535" by blast
    then show ?B unfolding names mod_eq_dvd_iff [symmetric] by (metis add_0 zmod_int of_nat_numeral)
  next
    assume ?B
    then have "word_sum (drop 20 buf') mod 65535 = word_sum (drop 20 buf) mod 65535"
      unfolding names mod_eq_dvd_iff [symmetric] by (metis of_nat_eq_iff zmod_int of_nat_numeral)
    then show ?A by (metis mod_add_right_eq)
  qed
  show ?thesis
  proof (cases "even p")
    case True
    then have "even (p - 20)" using assms(2) by simp
    then have "S1 + y = S + x" using word_sum_put(1) [OF d(1) r(1)] unfolding names by linarith
    then have e: "S' - S1 - (y - x) = S' - S" by linarith
    show ?thesis using ps D [unfolded e] True by blast
  next
    case False
    then have "odd (p - 20)" using assms(2) by simp
    then have "65535 dvd S1 + 256 * y - (S + 256 * x)"
      using word_sum_put_odd [OF d(1) r(1)] unfolding names mod_eq_dvd_iff by blast
    then have "65535 dvd (S' - S1 - (y - x)) + (S1 + 256 * y - (S + 256 * x))" using D by (rule dvd_add [rotated])
    moreover have "(S' - S1 - (y - x)) + (S1 + 256 * y - (S + 256 * x)) = S' - S + 255 * (y - x)" by simp
    ultimately have E: "65535 dvd S' - S + 255 * (y - x)" by simp
    have "65535 dvd S' - S \<longleftrightarrow> 65535 dvd 255 * (y - x)" using dvd_add_right_iff [of 65535 "S' - S"] dvd_add_left_iff [of 65535 "255 * (y - x)"] E by blast
    also have "\<dots> \<longleftrightarrow> 257 dvd y - x" using dvd_mult_cancel_left [of 255 257 "y - x"] by simp
    finally show ?thesis using ps False unfolding names by simp
  qed
qed

section \<open>Properties\<close>

text \<open>What \<open>patch_tcpmss\<close> does when it returns: nothing, or one call of \<open>fix_msscksum\<close>.\<close>

lemma patch_mss_cases:
  assumes "patch_mss g buf i = Some buf'" "buf' \<noteq> buf"
  obtains mss where "get8 buf (i + 1) = Some 4" "get16 buf (i + 2) = Some mss" "unat (usMtu g) < unat mss + 80"
    "fix_msscksum buf 36 (i + 2) (usMtu g - 80) = Some buf'"
proof -
  obtain l where l: "get8 buf (i + 1) = Some l" using assms(1) by (auto simp: patch_mss_def split: bind_splits)
  then have l4: "l = 4" using assms by (auto simp: patch_mss_def split: if_splits)
  then obtain mss where m: "get16 buf (i + 2) = Some mss"
    using assms l by (auto simp: patch_mss_def split: bind_splits)
  have "\<not> int (unat mss) + 40 \<le> int (unat (usMtu g)) - 40"
    using assms l l4 m by (auto simp: patch_mss_def)
  then have "unat (usMtu g) < unat mss + 80" and "fix_msscksum buf 36 (i + 2) (usMtu g - 80) = Some buf'"
    using assms(1) l l4 m by (linarith, simp add: patch_mss_def)
  then show ?thesis using that l l4 m by blast
qed

lemma patch_cases:
  assumes "patch_tcpmss g buf len = Some buf'" "buf' \<noteq> buf"
  obtains i where "mss_scan buf len 40 0 = Some (Some i)" "i \<noteq> 0" "patch_mss g buf i = Some buf'"
  using assms unfolding patch_tcpmss_def Let_def
  by (auto simp: option_simps split: if_splits option.splits)

lemma patch_tcpmss_in_bounds_lemma:
  assumes "34 \<le> length buf"
  shows "\<exists>buf'. patch_tcpmss g buf (length buf) = Some buf'"
proof -
  have r: "get8 buf 9 \<noteq> None" "get8 buf 33 \<noteq> None" "get8 buf 32 \<noteq> None"
    using assms by (simp_all add: get8_def)
  have s: "mss_scan buf (length buf) 40 0 \<noteq> None" by (rule mss_scan_reads) simp
  have o: "patch_mss g buf i \<noteq> None" if "mss_scan buf (length buf) 40 0 = Some (Some i)" "i \<noteq> 0" for i
  proof -
    have f: "40 \<le> i" "i + 2 \<le> length buf" "i + unat (buf ! (i + 1)) \<le> length buf"
      using mss_scan_found [OF that] by simp_all
    show ?thesis
    proof (cases "buf ! (i + 1) = 4")
      case True
      then have "get16 buf (i + 2) \<noteq> None" "fix_msscksum buf 36 (i + 2) n \<noteq> None" for n
        using f by (auto simp: fix_msscksum_def get16_def put_def)
      then show ?thesis using True f by (auto simp: patch_mss_def get8_def simp del: add_2_eq_Suc')
    next
      case False
      then show ?thesis using f by (simp add: patch_mss_def get8_def)
    qed
  qed
  show ?thesis
    using r s o unfolding patch_tcpmss_def Let_def
    by (auto split: option.splits)
qed

text \<open>C38: \<open>patch_tcpmss\<close> reads or writes outside the packet exactly when the packet has fewer than 10 bytes, or says that it
  is TCP and has fewer than 34; whatever its other contents (the TCP header length, the lengths of the options), it
  stays inside.\<close>

theorem patch_tcpmss_in_bounds:
  "patch_tcpmss g buf (length buf) = None \<longleftrightarrow> length buf < 10 \<or> buf ! 9 = 6 \<and> length buf < 34"
proof (cases "34 \<le> length buf")
  case True
  then show ?thesis using patch_tcpmss_in_bounds_lemma [OF True, of g] by auto
next
  case False
  then show ?thesis by (auto simp: patch_tcpmss_def get8_def)
qed

text \<open>A SYN packet: 20 bytes of IPv4 header, 20 of TCP header with the given first byte of offset,
  and the options.\<close>

definition syn_packet :: "u8 \<Rightarrow> u8 list \<Rightarrow> u8 list" where
  "syn_packet off opts =
     replicate 9 0 @ [6] @ replicate 10 0 @ replicate 12 0 @ [off, 2] @ replicate 6 0 @ opts"

definition even_syn :: "u8 list" where "even_syn = syn_packet 0x60 [2, 4, 0x05, 0xB4]"
definition odd_syn :: "u8 list" where "odd_syn = syn_packet 0x70 [1, 2, 4, 0x05, 0xB4, 1, 1, 1]"

text \<open>C39: for an MTU that leaves room for the three headers (80 bytes), a packet that \<open>patch_tcpmss\<close> changes is one with an
  MSS option larger than the tunnel leaves room for. The option then holds the MTU less the three headers, and only it and
  the TCP checksum are changed. The sum the checksum is taken of stays congruent modulo 65535 to what it was, for every
  pseudo header, so that a correct checksum stays correct, exactly when the option lies at an even offset or the two sizes
  differ by a multiple of 257; in all other packets with the option at an odd offset a correct checksum becomes wrong.\<close>

theorem patch_tcpmss_clamps:
  assumes "patch_tcpmss g buf (length buf) = Some buf'" "buf' \<noteq> buf" "80 \<le> unat (usMtu g)"
  shows "\<exists>i mss. 40 \<le> i \<and> i + 4 \<le> length buf \<and> buf ! i = 2 \<and> buf ! (i + 1) = 4
    \<and> get16 buf (i + 2) = Some mss \<and> unat (usMtu g) - 80 < unat mss
    \<and> get16 buf' (i + 2) = Some (usMtu g - 80) \<and> length buf' = length buf
    \<and> (\<forall>j. j < length buf \<longrightarrow> j \<notin> {36, 37, i + 2, i + 3} \<longrightarrow> buf' ! j = buf ! j)
    \<and> ((\<forall>ps. (ps + word_sum (drop 20 buf')) mod 65535 = (ps + word_sum (drop 20 buf)) mod 65535)
        \<longleftrightarrow> even i \<or> 257 dvd (int (unat mss) - int (unat (usMtu g) - 80)))"
proof -
  obtain i where i: "mss_scan buf (length buf) 40 0 = Some (Some i)" "i \<noteq> 0" "patch_mss g buf i = Some buf'"
    by (rule patch_cases [OF assms(1,2)])
  obtain mss where m: "get8 buf (i + 1) = Some 4" "get16 buf (i + 2) = Some mss"
    "unat (usMtu g) < unat mss + 80" "fix_msscksum buf 36 (i + 2) (usMtu g - 80) = Some buf'"
    by (rule patch_mss_cases [OF i(3) assms(2)])
  have l: "buf ! (i + 1) = 4" using m(1) by (simp add: get8_def split: if_splits)
  have f: "40 \<le> i" "buf ! i = 2" "i + 4 \<le> length buf"
    using mss_scan_found [OF i(1,2)] l by simp_all
  then have p: "40 \<le> i + 2" by simp
  have "unat (usMtu g) - 80 < unat mss" using m(3) assms(3) by simp
  moreover have "\<forall>j. j < length buf \<longrightarrow> j \<notin> {36, 37, i + 2, i + 3} \<longrightarrow> buf' ! j = buf ! j"
    using fix_msscksum_ok(3) [OF m(4) p] by simp
  moreover have "unat (usMtu g - 80) = unat (usMtu g) - 80"
    using assms(3) by (simp add: unat_sub word_le_nat_alt)
  then have "(\<forall>ps. (ps + word_sum (drop 20 buf')) mod 65535 = (ps + word_sum (drop 20 buf)) mod 65535)
      \<longleftrightarrow> even i \<or> 257 dvd (int (unat mss) - int (unat (usMtu g) - 80))"
    using fix_msscksum_sum [OF m(4) p m(2)] by simp
  ultimately show ?thesis
    using f l m(2) fix_msscksum_ok(1,2) [OF m(4) p]
    by (intro exI [of _ i] exI [of _ mss]) simp
qed

lemma syn_bytes:
  "even_syn = [0, 0, 0, 0, 0, 0, 0, 0, 0, 6, 0, 0, 0, 0, 0, 0, 0, 0, 0, 0, 0, 0, 0, 0, 0, 0, 0, 0, 0, 0, 0, 0, 96, 2, 0, 0, 0, 0, 0, 0, 2, 4, 5, 180]"
  "odd_syn = [0, 0, 0, 0, 0, 0, 0, 0, 0, 6, 0, 0, 0, 0, 0, 0, 0, 0, 0, 0, 0, 0, 0, 0, 0, 0, 0, 0, 0, 0, 0, 0, 112, 2, 0, 0, 0, 0, 0, 0, 1, 2, 4, 5, 180, 1, 1, 1]"
  by (simp_all add: even_syn_def odd_syn_def syn_packet_def eval_nat_numeral)

lemma syn_get8:
  "get8 even_syn 40 = Some 2" "get8 even_syn 41 = Some 4"
  "get8 odd_syn 40 = Some 1" "get8 odd_syn 41 = Some 2" "get8 odd_syn 42 = Some 4"
  "get8 odd_syn 45 = Some 1" "get8 odd_syn 46 = Some 1" "get8 odd_syn 47 = Some 1"
  by (simp_all add: get8_def syn_bytes)

lemma syn_scan:
  "mss_scan even_syn 44 40 0 = Some (Some 40)" "mss_scan odd_syn 48 40 0 = Some (Some 41)"
  by (simp_all add: mss_scan.simps [of even_syn] mss_scan.simps [of odd_syn] syn_get8)

lemma syn_patched:
  "patch_tcpmss global7 even_syn 44 =
    Some [0, 0, 0, 0, 0, 0, 0, 0, 0, 6, 0, 0, 0, 0, 0, 0, 0, 0, 0, 0, 0, 0, 0, 0, 0, 0, 0, 0, 0, 0, 0, 0, 96, 2, 0, 0, 0, 40, 0, 0, 2, 4, 5, 140]"
  "patch_tcpmss global7 odd_syn 48 =
    Some [0, 0, 0, 0, 0, 0, 0, 0, 0, 6, 0, 0, 0, 0, 0, 0, 0, 0, 0, 0, 0, 0, 0, 0, 0, 0, 0, 0, 0, 0, 0, 0, 112, 2, 0, 0, 0, 40, 0, 0, 1, 2, 4, 5, 140, 1, 1, 1]"
  using syn_scan
  by (simp_all add: patch_tcpmss_def patch_mss_def fix_msscksum_def get8_def get16_def put_def be16_def
      global7_def msscksum_def syn_bytes word_cat_eq)

lemma syn_length: "length even_syn = 44" "length odd_syn = 48"
  by (simp_all add: syn_bytes)

theorem patch_tcpmss_clamps_witness:
  "\<exists>i mss buf'. patch_tcpmss global7 even_syn (length even_syn) = Some buf'
    \<and> get16 even_syn (i + 2) = Some mss \<and> 1420 < unat mss \<and> get16 buf' (i + 2) = Some 1420"
proof -
  obtain b where b: "patch_tcpmss global7 even_syn (length even_syn) = Some b" "b \<noteq> even_syn"
    unfolding syn_length using syn_patched(1) by (auto simp: syn_bytes)
  have m: "80 \<le> unat (usMtu global7)" "usMtu global7 - 80 = 1420" "unat (usMtu global7) - 80 = 1420"
    by (simp_all add: global7_def)
  show ?thesis
    using patch_tcpmss_clamps [OF b m(1)] b(1) unfolding m(2,3) by blast
qed

text \<open>A flaw. When the option lies at an odd offset (behind one NOP), the checksum is updated as if its bytes had the other
  order: the sum is no longer congruent to what it was, so that a correct checksum becomes wrong.\<close>

theorem patch_tcpmss_odd_option:
  "\<exists>buf'. patch_tcpmss global7 odd_syn (length odd_syn) = Some buf'
    \<and> get16 odd_syn 43 = Some 1460 \<and> get16 buf' 43 = Some 1420
    \<and> word_sum (drop 20 buf') mod 65535 \<noteq> word_sum (drop 20 odd_syn) mod 65535"
  unfolding syn_length
  by (intro exI conjI, rule syn_patched(2)) (simp_all add: get16_def word_cat_eq syn_bytes)

end
