(* ===== verification/Checksum.thy ===== *)
theory Checksum
  imports Mss
begin

text \<open>
  The checksums of the customer's box (\<open>TI/openwrt_cpe/src/helper.c\<close>).  The box computes on 16-bit
  fields as the little-endian processor loads them, so that its sums are sums of byte-swapped
  values; the lemmas relate them to the network-order sums of \<open>word_sum\<close> and \<open>in_cksum\<close>.
\<close>

section \<open>Native access\<close>

definition ld16 :: "u8 list \<Rightarrow> nat \<Rightarrow> u16 option" where
  "ld16 p i = (if i + 1 < length p then Some (word_cat (p ! (i + 1)) (p ! i)) else None)"

definition swap16 :: "u16 \<Rightarrow> u16" where
  "swap16 x = word_cat (ucast x :: u8) (ucast (drop_bit 8 x) :: u8)"

lemma swap16_swap16 [simp]: "swap16 (swap16 x) = x"
  by (rule bit_word_eqI) (auto simp: swap16_def bit_word_cat_iff bit_ucast_iff bit_drop_bit_eq)

lemma swap16_inject [simp]: "swap16 x = swap16 y \<longleftrightarrow> x = y"
  by (metis swap16_swap16)

lemma cat_low: "ucast (word_cat (x :: u8) (y :: u8) :: u16) = y"
  by (rule bit_word_eqI) (auto simp: bit_word_cat_iff bit_ucast_iff)

lemma cat_high: "ucast (drop_bit 8 (word_cat (x :: u8) (y :: u8) :: u16)) = x"
  by (rule bit_word_eqI) (auto simp: bit_word_cat_iff bit_ucast_iff bit_drop_bit_eq)

lemma swap16_cat: "swap16 (word_cat (x :: u8) (y :: u8)) = word_cat y x"
  by (simp add: swap16_def cat_low cat_high)

lemma le16_swap [simp]: "le16 (swap16 x) = be16 x" "be16 (swap16 x) = le16 x"
  by (simp_all add: le16_def be16_def swap16_def cat_low cat_high)

lemma ld16_get16: "ld16 p i = map_option swap16 (get16 p i)"
  by (simp add: ld16_def get16_def swap16_cat)

section \<open>Sums\<close>

text \<open>The words of a buffer as the processor loads them; an odd last byte is added as it is.\<close>

fun sum16 :: "u8 list \<Rightarrow> nat" where
  "sum16 [] = 0"
| "sum16 [x] = unat x"
| "sum16 (x # y # p) = unat x + unat y * 256 + sum16 p"

text \<open>The sum is an \<open>unsigned long\<close>; the result is the complement of its low half.\<close>

definition ip_checksum :: "u8 list \<Rightarrow> u16" where
  "ip_checksum buffer =
     (let cksum = sum16 buffer mod 2 ^ 32;
          cksum = cksum div 65536 + cksum mod 65536;
          cksum = cksum + cksum div 65536
      in NOT (word_of_nat cksum))"

definition csum_incremental_update :: "u16 \<Rightarrow> u16 \<Rightarrow> u16 \<Rightarrow> u16" where
  "csum_incremental_update old_csum old_field new_field =
     (let csum = unat (NOT old_csum) + unat (NOT old_field) + unat new_field;
          csum = csum div 65536 + csum mod 65536;
          csum = csum + csum div 65536
      in NOT (word_of_nat csum))"

subsection \<open>Folding\<close>

definition fold16 :: "nat \<Rightarrow> nat" where
  "fold16 s = (let t = s div 65536 + s mod 65536 in (t + t div 65536) mod 65536)"

lemma fold16_less: "fold16 s < 65536"
  by (simp add: fold16_def Let_def)

lemma fold16_mod:
  assumes "s < 2 ^ 32" shows "fold16 s mod 65535 = s mod 65535" "fold16 s = 0 \<longleftrightarrow> s = 0"
proof -
  define h l where "h = s div 65536" and "l = s mod 65536"
  define t where "t = h + l"
  have hl: "s = 65536 * h + l" "l < 65536" "h < 65536"
    using assms by (auto simp: h_def l_def)
  have t: "t < 131071" using hl by (simp add: t_def)
  have "s = 65535 * h + t" using hl(1) by (simp add: t_def)
  then have m: "s mod 65535 = t mod 65535" by simp
  have f: "fold16 s = (t + t div 65536) mod 65536"
    by (simp add: fold16_def Let_def t_def h_def l_def)
  have z: "t = 0 \<longleftrightarrow> s = 0" using hl by (auto simp: t_def)
  have "fold16 s mod 65535 = t mod 65535 \<and> (fold16 s = 0 \<longleftrightarrow> t = 0)"
  proof (cases "t < 65536")
    case True
    then show ?thesis by (simp add: f)
  next
    case False
    then have d: "t div 65536 = 1" using t by simp
    then have "fold16 s = t - 65535" unfolding f using False t by (simp add: mod_if)
    then show ?thesis using False by (simp add: le_mod_geq [of 65535 t])
  qed
  then show "fold16 s mod 65535 = s mod 65535" "fold16 s = 0 \<longleftrightarrow> s = 0" using m z by simp_all
qed

text \<open>Two sums below \<open>2 ^ 32\<close> fold to one value when they agree modulo 65535 and in being 0.\<close>

lemma representative:
  assumes "x < 65536" "y < 65536" "x mod 65535 = y mod 65535" "x = 0 \<longleftrightarrow> y = 0"
  shows "x = (y :: nat)"
proof -
  have "z mod 65535 = (if z = 65535 then 0 else z)" if "z < 65536" for z :: nat
    using that by (simp add: mod_if)
  then show ?thesis using assms by (metis (full_types))
qed

lemma unat_not16: "unat (NOT (x :: u16)) = 65535 - unat x"
proof -
  have "NOT x + x = - 1" by (simp add: not_eq_complement)
  then have "NOT x = - 1 - x" by (simp add: eq_diff_eq)
  moreover have "x \<le> - 1" by simp
  moreover have "unat (- 1 :: u16) = 65535" by (simp add: unsigned_minus_1_eq_mask mask_eq_exp_minus_1)
  ultimately show ?thesis by (metis unat_sub_if_size word_le_nat_alt)
qed

lemma unat_u16: "unat (x :: u16) < 65536"
  using unsigned_less [of x] by simp

lemma unat_of_nat16: "unat (word_of_nat n :: u16) = n mod 65536"
  by (simp add: unsigned_of_nat take_bit_eq_mod)

lemma unat_not_of_nat16: "unat (NOT (word_of_nat n :: u16)) = 65535 - n mod 65536"
  by (simp only: unat_not16 unat_of_nat16)

lemma ip_checksum_fold: "sum16 p < 2 ^ 32 \<Longrightarrow> unat (ip_checksum p) = 65535 - fold16 (sum16 p)"
  by (simp only: ip_checksum_def Let_def unat_not_of_nat16 fold16_def mod_less)

lemma in_cksum_fold: "word_sum p < 2 ^ 32 \<Longrightarrow> in_cksum p = 65535 - fold16 (word_sum p)"
  by (simp add: in_cksum_def Let_def fold16_def)

text \<open>Swapping the bytes of all words multiplies their sum by 256 in one's complement.\<close>

lemma sum16_swap: "sum16 p mod 65535 = (256 * word_sum p) mod 65535"
proof (induction p rule: sum16.induct)
  case (2 x)
  have "256 * (unat x * 256) = 65535 * unat x + unat x" by simp
  then show ?case by (simp only: sum16.simps word_sum.simps mod_mult_self4)
next
  case (3 x y p)
  have "256 * word_sum (x # y # p) = 65535 * unat x + (unat x + unat y * 256 + 256 * word_sum p)"
    by simp
  then have "(256 * word_sum (x # y # p)) mod 65535 = (unat x + unat y * 256 + 256 * word_sum p) mod 65535"
    by (simp only: mod_mult_self4)
  also have "\<dots> = (unat x + unat y * 256 + sum16 p) mod 65535" using 3 by (metis mod_add_right_eq)
  finally show ?case by simp
qed simp

lemma sum16_bound: "sum16 p \<le> 65535 * ((length p + 1) div 2)"
proof (induction p rule: sum16.induct)
  case (2 x)
  then show ?case using unat_u8 [of x] by simp
next
  case (3 x y p)
  then show ?case using unat_u8 [of x] unat_u8 [of y] by simp
qed simp

lemma sum16_zero: "sum16 p = 0 \<longleftrightarrow> word_sum p = 0"
  by (induction p rule: sum16.induct) auto

lemma unat_swap16: "unat (swap16 x) = unat x div 256 + unat x mod 256 * 256"
proof -
  have "unat (ucast x :: u8) = unat x mod 256"
    by (simp add: unsigned_ucast_eq take_bit_eq_mod)
  moreover have "unat (ucast (drop_bit 8 x) :: u8) = unat x div 256"
  proof -
    have "unat x div 256 < 256" using unat_u16 [of x] by simp
    then show ?thesis
      by (simp only: unsigned_ucast_eq unsigned_drop_bit_eq) (simp add: drop_bit_eq_div take_bit_eq_mod)
  qed
  ultimately show ?thesis by (simp add: swap16_def unat_cat)
qed

lemma unat_swap16_mod: "unat (swap16 x) mod 65535 = (256 * unat x) mod 65535"
proof -
  have "unat x = unat x div 256 * 256 + unat x mod 256" by simp
  then have "256 * unat x = 65535 * (unat x div 256) + unat (swap16 x)"
    unfolding unat_swap16 by linarith
  then show ?thesis by (simp only: mod_mult_self4)
qed

lemma swap16_zero: "unat (swap16 x) = 0 \<longleftrightarrow> unat x = 0"
proof -
  define a b where "a = unat x div 256" and "b = unat x mod 256"
  then have "unat x = a * 256 + b" by simp
  then show ?thesis by (simp only: unat_swap16 a_def [symmetric] b_def [symmetric]) auto
qed

section \<open>The two directions of loading agree\<close>

lemma short_sums: "length p < 65536 \<Longrightarrow> sum16 p < 2 ^ 32 \<and> word_sum p < 2 ^ 31"
proof -
  assume "length p < 65536"
  then have "(length p + 1) div 2 \<le> 32768" by simp
  then have "65535 * ((length p + 1) div 2) \<le> 65535 * 32768" by (rule mult_le_mono2)
  moreover have "65535 * 32768 < (2 :: nat) ^ 31" "(2 :: nat) ^ 31 \<le> 2 ^ 32" by simp_all
  ultimately show ?thesis
    by (meson sum16_bound word_sum_bound le_less_trans less_le_trans)
qed

text \<open>C32: The checksum the customer's box computes from natively loaded words, stored natively, is the
  checksum the tunnel concentrator computes from network-order words, stored in network order: the two
  programs agree on every packet of at most 65535 bytes.
\<close>

theorem ip_checksum_is_in_cksum:
  assumes "length p < 65536"
  shows "le16 (ip_checksum p) = be16 (word_of_nat (in_cksum p))"
proof -
  have s: "sum16 p < 2 ^ 32" and w: "word_sum p < 2 ^ 32" using short_sums [OF assms] by auto
  define x :: u16 where "x = word_of_nat (fold16 (word_sum p))"
  have x: "unat x = fold16 (word_sum p)"
    using fold16_less by (simp add: x_def unsigned_of_nat take_bit_nat_eq_self)
  have "unat (swap16 x) mod 65535 = fold16 (sum16 p) mod 65535"
    using unat_swap16_mod [of x] x fold16_mod(1) [OF w] fold16_mod(1) [OF s] sum16_swap [of p]
    by (metis mod_mult_right_eq)
  moreover have "unat (swap16 x) = 0 \<longleftrightarrow> fold16 (sum16 p) = 0"
    using fold16_mod(2) [OF w] fold16_mod(2) [OF s] x sum16_zero [of p] swap16_zero [of x] by simp
  ultimately have "unat (swap16 x) = fold16 (sum16 p)"
    by (rule representative [OF unat_u16 fold16_less])
  then have "unat (ip_checksum p) = unat (NOT (swap16 x))"
    by (simp add: ip_checksum_fold [OF s] unat_not16)
  then have "ip_checksum p = NOT (swap16 x)" by (rule unsigned_word_eqI)
  also have "NOT (swap16 x) = swap16 (NOT x)"
    by (rule bit_word_eqI) (auto simp: swap16_def bit_word_cat_iff bit_ucast_iff bit_drop_bit_eq bit_not_iff)
  also have "NOT x = word_of_nat (in_cksum p)"
  proof (rule unsigned_word_eqI)
    show "unat (NOT x) = unat (word_of_nat (in_cksum p) :: u16)"
      by (simp add: unat_not16 x in_cksum_fold [OF w] unsigned_of_nat take_bit_nat_eq_self)
  qed
  finally show ?thesis by simp
qed

theorem ip_checksum_is_in_cksum_witness:
  "le16 (ip_checksum [0x45, 0, 0, 20, 7]) = be16 (word_of_nat (in_cksum [0x45, 0, 0, 20, 7]))"
  by (rule ip_checksum_is_in_cksum) simp

section \<open>The incremental update\<close>

lemma csum_incremental_msscksum:
  "unat (csum_incremental_update c m n) = msscksum (unat c) (unat m) (unat n)"
  unfolding csum_incremental_update_def msscksum_def Let_def
  by (simp only: unat_not_of_nat16) (simp only: unat_not16)

lemma csum_incremental_mod:
  "(unat (csum_incremental_update c m n) + unat n) mod 65535 = (unat c + unat m) mod 65535"
  unfolding csum_incremental_msscksum
  by (intro msscksum_mod unat_u16)

lemma swap16_not: "NOT (swap16 x) = swap16 (NOT x)"
  by (rule bit_word_eqI) (auto simp: swap16_def bit_word_cat_iff bit_ucast_iff bit_drop_bit_eq bit_not_iff)

text \<open>On natively loaded fields the update gives the byte-swapped result.\<close>

lemma csum_incremental_swap:
  "csum_incremental_update (swap16 c) (swap16 m) (swap16 n) = swap16 (csum_incremental_update c m n)"
proof -
  have f: "csum_incremental_update a b d = NOT (word_of_nat (fold16 (unat (NOT a) + unat (NOT b) + unat d)))" for a b d
  proof -
    have "unat (csum_incremental_update a b d) = unat (NOT (word_of_nat (fold16 (unat (NOT a) + unat (NOT b) + unat d))) :: u16)"
      by (simp only: csum_incremental_update_def Let_def unat_not_of_nat16 fold16_def mod_mod_trivial)
    then show ?thesis by (rule unsigned_word_eqI)
  qed
  let ?s = "\<lambda>a b d. unat (NOT a) + unat (NOT b) + unat d"
  have b: "?s a b d < 2 ^ 32" for a b d :: u16
    using unat_u16 [of "NOT a"] unat_u16 [of "NOT b"] unat_u16 [of d] by simp
  define x :: u16 where "x = word_of_nat (fold16 (?s c m n))"
  have x: "unat x = fold16 (?s c m n)" using fold16_less by (simp add: x_def unat_of_nat16)
  have e: "?s (swap16 c) (swap16 m) (swap16 n) mod 65535 = (256 * ?s c m n) mod 65535"
    unfolding swap16_not distrib_left
    by (intro mod_add_cong unat_swap16_mod)
  have word_nat_cast: "(word_of_nat (unat v) :: u16) = v" for v :: u16 by simp
  have "unat (swap16 x) = fold16 (?s (swap16 c) (swap16 m) (swap16 n))"
  proof (rule representative [OF unat_u16 fold16_less])
    show "unat (swap16 x) mod 65535 = fold16 (?s (swap16 c) (swap16 m) (swap16 n)) mod 65535"
      using unat_swap16_mod [of x] x fold16_mod(1) [OF b] e by (metis mod_mult_right_eq)
    have z: "?s (swap16 c) (swap16 m) (swap16 n) = 0 \<longleftrightarrow> ?s c m n = 0"
      by (simp only: swap16_not add_is_0 swap16_zero)
    show "unat (swap16 x) = 0 \<longleftrightarrow> fold16 (?s (swap16 c) (swap16 m) (swap16 n)) = 0"
      by (simp only: swap16_zero x fold16_mod(2) [OF b] z)
  qed
  then have "csum_incremental_update (swap16 c) (swap16 m) (swap16 n) = NOT (swap16 x)"
    unfolding f by (metis word_nat_cast)
  then show ?thesis by (simp only: swap16_not x_def f)
qed

text \<open>
  Storing the updated checksum exchanges the old field for the new one in the sum; the field itself
  may lie in the buffer or in the pseudo header.
\<close>

lemma csum_put:
  assumes "put buf i (be16 (csum_incremental_update c m n)) = Some buf'" "get16 buf i = Some c" "even i"
  shows "(word_sum buf' + unat n) mod 65535 = (word_sum buf + unat m) mod 65535"
    "get16 buf' i = Some (csum_incremental_update c m n)"
proof -
  let ?k = "csum_incremental_update c m n"
  have "word_sum buf' + unat c = word_sum buf + unat ?k" by (rule word_sum_put(1) [OF assms])
  then have "word_sum buf' + unat n + (unat c + unat m) = word_sum buf + unat m + (unat ?k + unat n)" by simp
  then show "(word_sum buf' + unat n) mod 65535 = (word_sum buf + unat m) mod 65535"
    using csum_incremental_mod by (rule mod_swap)
  show "get16 buf' i = Some ?k" by (rule word_sum_put(2) [OF assms])
qed

end
