(* ===== verification/CpePorts.thy ===== *)
theory CpePorts
  imports Checksum
begin

text \<open>
  The port bit maps of the customer's box (\<open>TI/openwrt_cpe/src/tool.c\<close>) and the message that gives
  the box its address and its block of ports (\<open>TI/openwrt_cpe/src/netlink.c\<close>).  TCP and UDP ports are
  handed out by two copies of one algorithm; the locale \<open>port_allocator\<close> states their common contract.
\<close>

unbundle bit_operations_syntax

section \<open>State\<close>

text \<open>
  A pointer to an array of \<open>int\<close>s: null, to memory that has been released, or to the whole
  \<open>int\<close>s of a live block.  An access to released memory or outside the block is \<open>None\<close>.
\<close>

datatype intptr = Null | Freed | Ints "u32 list"

record LAFT_NAT_INFO =
  IPv6LocalAddr :: "u8 list"
  IPv6RemoteAddr :: "u8 list"
  PubIP :: "u8 list"
  LowPort :: u16
  HighPort :: u16
  tcpport :: intptr
  udpport :: intptr
  tcp_port_used :: u16
  udp_port_used :: u16

section \<open>Bits\<close>

definition set_port :: "intptr \<Rightarrow> u16 \<Rightarrow> intptr option" where
  "set_port port i =
     (case port of
        Null \<Rightarrow> Some Null
      | Freed \<Rightarrow> None
      | Ints ws \<Rightarrow>
          (let k = unat (drop_bit 5 i) in
           if k < length ws then Some (Ints (ws[k := ws ! k OR push_bit (unat (i AND 0x1F)) 1])) else None))"

text \<open>On a null pointer the function ends without a return value.\<close>

definition test_port :: "intptr \<Rightarrow> u16 \<Rightarrow> u32 option" where
  "test_port port i =
     (case port of
        Null \<Rightarrow> None
      | Freed \<Rightarrow> None
      | Ints ws \<Rightarrow>
          (let k = unat (drop_bit 5 i) in
           if k < length ws then Some (ws ! k AND push_bit (unat (i AND 0x1F)) 1) else None))"

text \<open>
  The search of both allocators.  The counter is an \<open>unsigned short\<close>, so that it wraps when
  \<open>high\<close> is 65535; the result says whether a port was taken, and where the counter stands.
\<close>

partial_function (option) port_loop :: "intptr \<Rightarrow> u16 \<Rightarrow> u16 \<Rightarrow> u16 \<Rightarrow> (intptr \<times> bool \<times> u16) option" where
  "port_loop port low high i =
     (if i \<le> high
      then do { t \<leftarrow> test_port port (i - low);
                if t = 0 then do { port \<leftarrow> set_port port (i - low); Some (port, True, i) }
                else port_loop port low high (i + 1) }
      else Some (port, False, i))"

definition get_tcp_port :: "u16 \<Rightarrow> u16 \<Rightarrow> LAFT_NAT_INFO \<Rightarrow> (LAFT_NAT_INFO \<times> int) option" where
  "get_tcp_port low high laft =
     (if int (unat (tcp_port_used laft)) \<ge> int (unat high) - int (unat low) + 1 then Some (laft, -1)
      else do { (port, taken, i) \<leftarrow> port_loop (tcpport laft) low high low;
                Some (laft\<lparr>tcpport := port, tcp_port_used := tcp_port_used laft + (if taken then 1 else 0)\<rparr>,
                      int (unat i)) })"

definition get_udp_port :: "u16 \<Rightarrow> u16 \<Rightarrow> LAFT_NAT_INFO \<Rightarrow> (LAFT_NAT_INFO \<times> int) option" where
  "get_udp_port low high laft =
     (if int (unat (udp_port_used laft)) \<ge> int (unat high) - int (unat low) + 1 then Some (laft, -1)
      else do { (port, taken, k) \<leftarrow> port_loop (udpport laft) low high low;
                Some (laft\<lparr>udpport := port, udp_port_used := udp_port_used laft + (if taken then 1 else 0)\<rparr>,
                      int (unat k)) })"

text \<open>The index is an \<open>int\<close> that can be negative; \<open>j >> SHIFT\<close> rounds down.\<close>

definition clear_port :: "intptr \<Rightarrow> int \<Rightarrow> intptr option" where
  "clear_port port j =
     (case port of
        Null \<Rightarrow> Some Null
      | Freed \<Rightarrow> None
      | Ints ws \<Rightarrow>
          (if 0 \<le> j div 32 \<and> nat (j div 32) < length ws
           then Some (Ints (ws[nat (j div 32) := ws ! nat (j div 32) AND NOT (push_bit (nat (j mod 32)) 1)]))
           else None))"

definition reset_tcp_port :: "u16 \<Rightarrow> LAFT_NAT_INFO \<Rightarrow> LAFT_NAT_INFO option" where
  "reset_tcp_port i laft =
     (let j = int (unat i) - int (unat (LowPort laft)) in
      if tcpport laft = Null then Some laft
      else do { port \<leftarrow> clear_port (tcpport laft) j;
                Some (laft\<lparr>tcpport := port,
                           tcp_port_used := if tcp_port_used laft > 0 then tcp_port_used laft - 1 else tcp_port_used laft\<rparr>) })"

definition reset_udp_port :: "u16 \<Rightarrow> LAFT_NAT_INFO \<Rightarrow> LAFT_NAT_INFO option" where
  "reset_udp_port i laft =
     (let j = int (unat i) - int (unat (LowPort laft)) in
      if udpport laft = Null then Some laft
      else do { port \<leftarrow> clear_port (udpport laft) j;
                Some (laft\<lparr>udpport := port,
                           udp_port_used := if udp_port_used laft > 0 then udp_port_used laft - 1 else udp_port_used laft\<rparr>) })"

text \<open>The two static variables of the ICMP allocator are its state.\<close>

record icmp_statics =
  last_low :: u16
  last_id :: u16

definition get_icmp_port :: "u16 \<Rightarrow> u16 \<Rightarrow> icmp_statics \<Rightarrow> icmp_statics \<times> u16" where
  "get_icmp_port low high s =
     (if last_id s = 0 then (\<lparr>last_low = low, last_id = low\<rparr>, low)
      else if last_low s \<noteq> low then (s\<lparr>last_id := low\<rparr>, low)
      else (let i = last_id s + 1; i = (if i > high then low else i) in (s\<lparr>last_id := i\<rparr>, i)))"

section \<open>The lease\<close>

text \<open>
  A netlink message: the header of 16 bytes (its length first, in host order), then the structure
  with the addresses and the ports.  The message is printed and copied; the dump that is only
  printed is left out.
\<close>

definition ld32 :: "u8 list \<Rightarrow> nat \<Rightarrow> u32 option" where
  "ld32 p i =
     (if i + 3 < length p
      then Some (word_cat (word_cat (p ! (i + 3)) (p ! (i + 2)) :: u16) (word_cat (p ! (i + 1)) (p ! i) :: u16))
      else None)"

definition kfree_ints :: "intptr \<Rightarrow> unit option" where
  "kfree_ints p = (if p = Freed then None else Some ())"

definition kmalloc_ints :: "bool \<Rightarrow> int \<Rightarrow> intptr" where
  "kmalloc_ints ok nPort = (if ok \<and> 0 \<le> nPort then Ints (replicate (nat nPort div 4) 0) else Null)"

definition nl_pcp_data_ready :: "bool \<Rightarrow> bool \<Rightarrow> u8 list \<Rightarrow> LAFT_NAT_INFO \<Rightarrow> LAFT_NAT_INFO option" where
  "nl_pcp_data_ready tcp_ok udp_ok skb laft =
     (if length skb < 16 then Some laft
      else do {
        nlmsg_len \<leftarrow> ld32 skb 0;
        if unat nlmsg_len < 16 \<or> length skb < unat nlmsg_len then Some laft
        else do {
          pub \<leftarrow> getn skb 48 4;
          low \<leftarrow> ld16 skb 52;
          high \<leftarrow> ld16 skb 54;
          local \<leftarrow> getn skb 16 16;
          remote \<leftarrow> getn skb 32 16;
          let laft = laft\<lparr>PubIP := pub, LowPort := low, HighPort := high, IPv6LocalAddr := local,
                          IPv6RemoteAddr := remote\<rparr>;
          _ \<leftarrow> kfree_ints (tcpport laft);
          _ \<leftarrow> kfree_ints (udpport laft);
          let nPort = (int (unat high) - int (unat low) + 1) div 8 + 1;
          let tcp = kmalloc_ints tcp_ok nPort;
          let udp = kmalloc_ints udp_ok nPort;
          Some (if tcp \<noteq> Null
                then if udp \<noteq> Null
                     then laft\<lparr>tcpport := tcp, tcp_port_used := 0, udpport := udp, udp_port_used := 0\<rparr>
                     else laft\<lparr>tcpport := Freed, tcp_port_used := 0, udpport := Null\<rparr>
                else laft\<lparr>tcpport := Null, udpport := if udpport laft = Null then Null else Freed\<rparr>) } })"

section \<open>Bit maps as sets of ports\<close>

definition port_bit :: "u32 list \<Rightarrow> nat \<Rightarrow> bool" where
  "port_bit ws k \<longleftrightarrow> k div 32 < length ws \<and> bit (ws ! (k div 32)) (k mod 32)"

text \<open>The ports, counted from the low end of the block, that a map marks as used.\<close>

definition taken_ports :: "intptr \<Rightarrow> nat set" where
  "taken_ports p = (case p of Ints ws \<Rightarrow> {k. port_bit ws k} | _ \<Rightarrow> {})"

text \<open>A map that has a bit for each of \<open>n\<close> ports.\<close>

definition map_for :: "intptr \<Rightarrow> nat \<Rightarrow> bool" where
  "map_for p n \<longleftrightarrow> (\<exists>ws. p = Ints ws \<and> n \<le> 32 * length ws)"

lemma word_index: "unat (drop_bit 5 (i :: u16)) = unat i div 32" "unat (i AND 0x1F) = unat i mod 32"
proof -
  show "unat (drop_bit 5 i) = unat i div 32" 
    using unat_u16 [of i] by (simp only: unsigned_drop_bit_eq) (simp add: drop_bit_eq_div take_bit_nat_eq_self)
  have "i AND 0x1F = take_bit 5 i" by (simp add: take_bit_eq_mask mask_eq_exp_minus_1)
  then show "unat (i AND 0x1F) = unat i mod 32" by (simp only: unsigned_take_bit_eq) (simp add: take_bit_eq_mod)
qed

text \<open>One bit of a word, read and changed.\<close>

definition single :: "nat \<Rightarrow> u32" where "single k = push_bit k 1"

lemma bit_single: "bit (single k) n \<longleftrightarrow> n = k \<and> n < 32"
  by (auto simp del: push_bit_of_1 simp add: single_def bit_push_bit_iff bit_1_iff)

lemma and_single: "(w AND single k) \<noteq> 0 \<longleftrightarrow> bit w k"
proof -
  have "w AND single k = (if bit w k then single k else 0)"
    by (rule bit_word_eqI) (auto simp: bit_and_iff bit_single)
  moreover have "bit w k \<Longrightarrow> single k \<noteq> 0"
  proof -
    assume "bit w k"
    then have "bit (single k) k" using bit_imp_le_length [of w k] by (simp add: bit_single)
    then show "single k \<noteq> 0" by auto
  qed
  ultimately show ?thesis by auto
qed

lemma bit_or_single: "n < 32 \<Longrightarrow> bit (w OR single k) n \<longleftrightarrow> bit w n \<or> n = k"
  by (auto simp: bit_or_iff bit_single)

lemma bit_and_not_single: "n < 32 \<Longrightarrow> bit (w AND NOT (single k)) n \<longleftrightarrow> bit w n \<and> n \<noteq> k"
  by (auto simp: bit_and_iff bit_not_iff bit_single)

lemmas port_words = set_port_def test_port_def clear_port_def single_def [symmetric] word_index Let_def

lemma test_port_bit:
  assumes "unat i < 32 * length ws"
  obtains t where "test_port (Ints ws) i = Some t" "t \<noteq> 0 \<longleftrightarrow> port_bit ws (unat i)"
proof -
  let ?k = "unat i div 32"
  have "test_port (Ints ws) i = Some (ws ! ?k AND single (unat i mod 32))"
    using assms by (simp only: port_words) simp
  moreover have "?k < length ws" using assms by simp
  ultimately show ?thesis using and_single by (intro that) (auto simp only: port_bit_def)
qed

lemma set_port_bits:
  assumes "unat i < 32 * length ws"
  obtains ws' where "set_port (Ints ws) i = Some (Ints ws')" "length ws' = length ws"
    "\<And>k. port_bit ws' k \<longleftrightarrow> port_bit ws k \<or> k = unat i"
proof (rule that)
  let ?k = "unat i div 32"
  let ?ws = "ws[?k := ws ! ?k OR single (unat i mod 32)]"
  show "set_port (Ints ws) i = Some (Ints ?ws)"
    using assms by (simp only: port_words) simp
  show "port_bit ?ws k \<longleftrightarrow> port_bit ws k \<or> k = unat i" for k
  proof (cases "k div 32 = ?k")
    case True
    then have "k = unat i \<longleftrightarrow> k mod 32 = unat i mod 32" by (metis mod_mult_div_eq)
    then show ?thesis using True assms by (auto simp: port_bit_def bit_or_single)
  next
    case False
    then show ?thesis by (auto simp: port_bit_def)
  qed
qed simp

lemma clear_port_bits:
  assumes "j < 32 * length ws"
  obtains ws' where "clear_port (Ints ws) (int j) = Some (Ints ws')" "length ws' = length ws"
    "\<And>k. port_bit ws' k \<longleftrightarrow> port_bit ws k \<and> k \<noteq> j"
proof (rule that)
  let ?k = "j div 32"
  let ?ws = "ws[?k := ws ! ?k AND NOT (single (j mod 32))]"
  have "int j div 32 = int ?k" "int j mod 32 = int (j mod 32)" by (simp_all add: zdiv_int zmod_int)
  then show "clear_port (Ints ws) (int j) = Some (Ints ?ws)"
    using assms by (simp only: port_words) simp
  show "port_bit ?ws k \<longleftrightarrow> port_bit ws k \<and> k \<noteq> j" for k
  proof (cases "k div 32 = ?k")
    case True
    then have "k = j \<longleftrightarrow> k mod 32 = j mod 32" by (metis mod_mult_div_eq)
    then show ?thesis using True assms by (auto simp: port_bit_def bit_and_not_single)
  next
    case False
    then show ?thesis by (auto simp: port_bit_def)
  qed
qed simp

section \<open>Allocation\<close>

lemma unat_step: "x < y \<Longrightarrow> unat (x + 1 :: u16) = unat x + 1"
  using unat_u16 [of y] by (simp add: unat_word_ariths word_less_nat_alt)

lemma unat_diff: "y \<le> x \<Longrightarrow> unat (x - y :: u16) = unat x - unat y"
  by (simp add: unat_sub)

text \<open>The search takes the lowest free port.\<close>

lemma port_loop_free:
  assumes "low \<le> i" "unat low + k \<le> unat high" "unat i \<le> unat low + k" "k < 32 * length ws"
    "\<not> port_bit ws k" "\<And>j. unat i - unat low \<le> j \<Longrightarrow> j < k \<Longrightarrow> port_bit ws j"
  obtains ws' where "port_loop (Ints ws) low high i = Some (Ints ws', True, low + word_of_nat k)"
    "length ws' = length ws" "\<And>j. port_bit ws' j \<longleftrightarrow> port_bit ws j \<or> j = k"
  using assms
proof (induction "unat low + k - unat i" arbitrary: i thesis)
  case 0
  then have i: "unat i = unat low + k" by simp
  then have d: "unat (i - low) = k" using 0(3) by (simp add: unat_diff)
  have "i \<le> high" using i 0(4) by (simp add: word_le_nat_alt)
  have t: "test_port (Ints ws) (i - low) = Some 0"
    by (rule test_port_bit [of "i - low" ws]) (use d 0(6,7) in auto)
  obtain ws' where s: "set_port (Ints ws) (i - low) = Some (Ints ws')" "length ws' = length ws"
    "\<And>j. port_bit ws' j \<longleftrightarrow> port_bit ws j \<or> j = k"
    by (rule set_port_bits [of "i - low" ws]) (use d 0(6) in auto)
  have "i - low = word_of_nat k" unfolding d [symmetric] by simp
  then have "i = low + word_of_nat k" by (simp add: diff_eq_eq add.commute)
  then show ?case using \<open>i \<le> high\<close> t s by (intro 0(2) [of ws']) (subst port_loop.simps, simp_all)
next
  case (Suc n)
  then have i: "unat i < unat low + k" by simp
  then have ih: "i \<le> high" "i < high" using Suc(5) by (simp_all add: word_le_nat_alt word_less_nat_alt)
  have d: "unat (i - low) = unat i - unat low" using Suc(4) by (simp add: unat_diff)
  have "unat low \<le> unat i" using Suc(4) by (simp add: word_le_nat_alt)
  then have b: "port_bit ws (unat (i - low))" using d i by (intro Suc(9)) auto
  obtain t where t: "test_port (Ints ws) (i - low) = Some t" "t \<noteq> 0"
    by (rule test_port_bit [of "i - low" ws]) (use d i b \<open>unat low \<le> unat i\<close> Suc(7) in auto)
  have i1: "unat (i + 1) = unat i + 1" by (rule unat_step [OF ih(2)])
  show ?case
  proof (rule Suc(1) [of "i + 1"])
    show "n = unat low + k - unat (i + 1)" using Suc(2) i1 by simp
    show "low \<le> i + 1" using \<open>unat low \<le> unat i\<close> i1 by (simp add: word_le_nat_alt)
    fix ws'
    assume "port_loop (Ints ws) low high (i + 1) = Some (Ints ws', True, low + word_of_nat k)"
      "length ws' = length ws" "\<And>j. port_bit ws' j \<longleftrightarrow> port_bit ws j \<or> j = k"
    then show thesis using ih t by (intro Suc(3) [of ws']) (subst port_loop.simps, simp_all)
  qed (use Suc i i1 in auto)
qed

text \<open>When no port is free it runs past the end of the block.\<close>

lemma port_loop_full:
  assumes "low \<le> i" "unat i \<le> unat high + 1" "high < - 1" "unat high - unat low < 32 * length ws"
    "\<And>j. unat i - unat low \<le> j \<Longrightarrow> unat low + j \<le> unat high \<Longrightarrow> port_bit ws j"
  shows "port_loop (Ints ws) low high i = Some (Ints ws, False, high + 1)"
  using assms
proof (induction "unat high + 1 - unat i" arbitrary: i)
  case 0
  then have "unat i = unat (high + 1)" using unat_step [OF 0(4)] by simp
  then have "i = high + 1" by (rule unsigned_word_eqI)
  then have "\<not> i \<le> high" using unat_step [OF 0(4)] by (simp add: word_le_nat_alt)
  then show ?case unfolding \<open>i = high + 1\<close> by (subst port_loop.simps) simp
next
  case (Suc n)
  then have i: "i \<le> high" by (simp add: word_le_nat_alt)
  then have i1: "unat (i + 1) = unat i + 1" using Suc(5) by (intro unat_step [of i "- 1"]) (rule le_less_trans)
  have l: "unat low \<le> unat i" "unat i \<le> unat high" using Suc(3) i by (simp_all add: word_le_nat_alt)
  have d: "unat (i - low) = unat i - unat low" using Suc(3) by (simp add: unat_diff)
  then have b: "port_bit ws (unat (i - low))" using l by (intro Suc(7)) auto
  obtain t where t: "test_port (Ints ws) (i - low) = Some t" "t \<noteq> 0"
    by (rule test_port_bit [of "i - low" ws]) (use d l b Suc(6) in auto)
  have "port_loop (Ints ws) low high (i + 1) = Some (Ints ws, False, high + 1)"
    by (rule Suc(1)) (use Suc l i1 in \<open>auto simp: word_le_nat_alt\<close>)
  then show ?case using i t by (simp add: port_loop.simps [of "Ints ws" low high i])
qed

section \<open>The contract of both allocators\<close>

text \<open>
  An allocator of a state \<open>'s\<close> keeps a bit map and a counter, which \<open>upd\<close> replaces.  It refuses
  when the counter says the block is exhausted, hands out the lowest free port otherwise, and runs past the
  block when the counter is wrong; giving a port back clears its bit and lowers the counter.
\<close>

locale port_allocator =
  fixes get :: "u16 \<Rightarrow> u16 \<Rightarrow> 's \<Rightarrow> ('s \<times> int) option"
    and reset :: "u16 \<Rightarrow> 's \<Rightarrow> 's option"
    and bits :: "'s \<Rightarrow> intptr" and used :: "'s \<Rightarrow> u16" and base :: "'s \<Rightarrow> u16"
    and upd :: "intptr \<Rightarrow> u16 \<Rightarrow> 's \<Rightarrow> 's"
  assumes bits_upd [simp]: "bits (upd p c s) = p"
    and used_upd [simp]: "used (upd p c s) = c"
    and base_upd [simp]: "base (upd p c s) = base s"
    and get_refuses: "int (unat (used s)) \<ge> int (unat high) - int (unat low) + 1 \<Longrightarrow> get low high s = Some (s, -1)"
    and get_takes: "\<lbrakk> int (unat (used s)) < int (unat high) - int (unat low) + 1;
          port_loop (bits s) low high low = Some (p, t, i) \<rbrakk>
        \<Longrightarrow> get low high s = Some (upd p (used s + (if t then 1 else 0)) s, int (unat i))"
    and reset_clears: "\<lbrakk> bits s = Ints ws; clear_port (bits s) (int (unat i) - int (unat (base s))) = Some p \<rbrakk>
        \<Longrightarrow> reset i s = Some (upd p (if used s > 0 then used s - 1 else used s) s)"
begin

definition taken :: "'s \<Rightarrow> nat set" where "taken s = taken_ports (bits s)"

lemma taken_Ints: "bits s = Ints ws \<Longrightarrow> taken s = {k. port_bit ws k}"
  by (simp add: taken_def taken_ports_def)

lemma get_lowest:
  assumes "int (unat (used s)) < int (unat high) - int (unat low) + 1" "map_for (bits s) (unat high - unat low + 1)"
    "unat low \<le> p" "p \<le> unat high" "p - unat low \<notin> taken s"
  obtains s' k where "get low high s = Some (s', int (unat low + k))" "unat low + k \<le> p" "k \<notin> taken s"
    "taken s' = insert k (taken s)" "used s' = used s + 1" "base s' = base s"
    "map_for (bits s') (unat high - unat low + 1)" "s' = upd (bits s') (used s') s"
proof -
  obtain ws where ws: "bits s = Ints ws" "unat high - unat low + 1 \<le> 32 * length ws"
    using assms(2) by (auto simp: map_for_def)
  define k where "k = (LEAST k. \<not> port_bit ws k)"
  have f: "\<not> port_bit ws (p - unat low)" using assms(5) by (simp add: taken_Ints [OF ws(1)])
  then have k: "\<not> port_bit ws k" "k \<le> p - unat low" "\<And>j. j < k \<Longrightarrow> port_bit ws j"
    unfolding k_def using LeastI [of "\<lambda>k. \<not> port_bit ws k", OF f] Least_le [of "\<lambda>k. \<not> port_bit ws k", OF f]
    by (auto dest: not_less_Least)
  obtain ws' where l: "port_loop (Ints ws) low high low = Some (Ints ws', True, low + word_of_nat k)"
      "length ws' = length ws" "\<And>j. port_bit ws' j \<longleftrightarrow> port_bit ws j \<or> j = k"
    by (rule port_loop_free [of low low k high ws]) (use k assms(3,4) ws(2) in auto)
  let ?s = "upd (Ints ws') (used s + 1) s"
  have "unat low + k < 65536" using k(2) assms(3,4) unat_u16 [of high] by linarith
  then have u: "unat (low + word_of_nat k) = unat low + k" by (simp add: unat_word_ariths unat_of_nat16)
  show ?thesis
  proof (rule that)
    have "get low high s = Some (?s, int (unat (low + word_of_nat k)))"
      using get_takes [OF assms(1), of "Ints ws'" True] l(1) ws(1) by simp
    then show "get low high s = Some (?s, int (unat low + k))" by (simp only: u)
    show "unat low + k \<le> p" using k(2) assms(3) by simp
    show "taken ?s = insert k (taken s)" using l(3) by (auto simp: taken_Ints ws(1))
    show "map_for (bits ?s) (unat high - unat low + 1)" using l(2) ws(2) by (simp add: map_for_def)
  qed (use k ws(1) in \<open>simp_all add: taken_Ints\<close>)
qed

text \<open>A refusal that changes nothing, or a port of the block that was free.\<close>

lemma get_fresh:
  assumes "low \<le> high" "map_for (bits s) n" "n = unat high - unat low + 1"
    "unat (used s) < n \<Longrightarrow> \<exists>k < n. k \<notin> taken s"
  obtains (full) "get low high s = Some (s, -1)" "n \<le> unat (used s)"
    | (port) s' p where "get low high s = Some (s', int (unat p))" "low \<le> p" "p \<le> high" "unat p - unat low \<notin> taken s"
        "taken s' = insert (unat p - unat low) (taken s)" "used s' = used s + 1" "base s' = base s" "map_for (bits s') n"
        "s' = upd (bits s') (used s') s" "unat (used s) < n"
proof -
  have le: "unat low \<le> unat high" using assms(1) by (simp add: word_le_nat_alt)
  show ?thesis
  proof (cases "unat (used s) < n")
    case False
    then have "int (unat (used s)) \<ge> int (unat high) - int (unat low) + 1" using le assms(3) by linarith
    then show ?thesis using get_refuses False by (intro full) simp_all
  next
    case True
    then have lt: "int (unat (used s)) < int (unat high) - int (unat low) + 1" using le assms(3) by linarith
    obtain k where k: "k < n" "k \<notin> taken s" using assms(4) [OF True] by blast
    obtain s' j where j: "get low high s = Some (s', int (unat low + j))" "unat low + j \<le> unat low + k" "j \<notin> taken s"
      "taken s' = insert j (taken s)" "used s' = used s + 1" "base s' = base s" "map_for (bits s') (unat high - unat low + 1)"
      "s' = upd (bits s') (used s') s"
      by (rule get_lowest [OF lt _, of "unat low + k"]) (use k le assms(2,3) in auto)
    define p :: u16 where "p = word_of_nat (unat low + j)"
    have h: "unat low + j \<le> unat high" using j(2) k(1) le assms(3) by linarith
    then have p: "unat p = unat low + j" using unat_u16 [of high] unfolding p_def unat_of_nat16 by simp
    show ?thesis
      by (rule port [of s' p]) (use j p h assms(3) True in \<open>simp_all add: word_le_nat_alt\<close>)
  qed
qed

lemma get_runs_over:
  assumes "int (unat (used s)) < int (unat high) - int (unat low) + 1" "map_for (bits s) (unat high - unat low + 1)"
    "high < - 1" "\<And>k. unat low + k \<le> unat high \<Longrightarrow> k \<in> taken s"
  shows "get low high s = Some (upd (bits s) (used s) s, int (unat high) + 1)"
proof -
  obtain ws where ws: "bits s = Ints ws" "unat high - unat low + 1 \<le> 32 * length ws"
    using assms(2) by (auto simp: map_for_def)
  have "unat low \<le> unat high + 1" using assms(1) by linarith
  then have "port_loop (Ints ws) low high low = Some (Ints ws, False, high + 1)"
    by (intro port_loop_full) (use assms(3,4) ws(2) in \<open>auto simp: taken_Ints [OF ws(1)]\<close>)
  then have "get low high s = Some (upd (Ints ws) (used s + 0) s, int (unat (high + 1)))"
    using get_takes [OF assms(1), of "Ints ws" False "high + 1"] ws(1) by simp
  then show ?thesis by (simp only: ws(1) unat_step [OF assms(3)] add_0_right of_nat_add of_nat_1)
qed

lemma reset_gives_back:
  assumes "map_for (bits s) n" "unat (base s) + k = unat i" "k < n"
  obtains s' where "reset i s = Some s'" "taken s' = taken s - {k}" "base s' = base s" "map_for (bits s') n"
    "used s' = (if used s > 0 then used s - 1 else used s)" "s' = upd (bits s') (used s') s"
proof -
  obtain ws where ws: "bits s = Ints ws" "n \<le> 32 * length ws" using assms(1) by (auto simp: map_for_def)
  obtain ws' where c: "clear_port (Ints ws) (int k) = Some (Ints ws')" "length ws' = length ws"
      "\<And>j. port_bit ws' j \<longleftrightarrow> port_bit ws j \<and> j \<noteq> k"
    by (rule clear_port_bits [of k ws]) (use assms(3) ws(2) in auto)
  have "int (unat i) - int (unat (base s)) = int k" using assms(2) by linarith
  then have r: "reset i s = Some (upd (Ints ws') (if used s > 0 then used s - 1 else used s) s)"
    using c(1) ws(1) by (intro reset_clears) simp_all
  show ?thesis
    by (rule that [OF r]) (use c ws in \<open>auto simp: taken_Ints map_for_def\<close>)
qed

text \<open>The counter is exact when it is the number of taken ports of the block.\<close>

definition exact :: "nat \<Rightarrow> 's \<Rightarrow> bool" where
  "exact n s \<longleftrightarrow> taken s \<subseteq> {..<n} \<and> unat (used s) = card (taken s)"

lemma exact_room:
  assumes "exact n s" "unat (used s) < n" obtains k where "k < n" "k \<notin> taken s"
proof -
  have "card (taken s) < card {..<n}" using assms by (simp add: exact_def)
  then have "\<not> {..<n} \<subseteq> taken s"
    using assms(1) finite_subset [of "taken s" "{..<n}"] card_mono [of "taken s" "{..<n}"] by (auto simp: exact_def)
  then show ?thesis using that by auto
qed

lemma exact_full: "exact n s \<Longrightarrow> n \<le> unat (used s) \<Longrightarrow> taken s = {..<n}"
  by (metis card_lessThan card_seteq exact_def finite_lessThan)

end

interpretation tcp: port_allocator get_tcp_port reset_tcp_port tcpport tcp_port_used LowPort
    "\<lambda>p c s. s\<lparr>tcpport := p, tcp_port_used := c\<rparr>"
  by unfold_locales (auto simp: get_tcp_port_def reset_tcp_port_def)

interpretation udp: port_allocator get_udp_port reset_udp_port udpport udp_port_used LowPort
    "\<lambda>p c s. s\<lparr>udpport := p, udp_port_used := c\<rparr>"
  by unfold_locales (auto simp: get_udp_port_def reset_udp_port_def)

end
