(* ===== verification/Defrag.thy ===== *)
theory Defrag
  imports Frag "HOL-Library.Multiset"
begin

text \<open>
  Reassembly of IPv6 fragments: the hash table of \<open>src/hash.c\<close> with the functions
  \<open>src/defrag6.c\<close> gives it, and the operations of \<open>src/defrag6.c\<close> on it.  A bucket is found by
  its key; the key identifies it, because a bucket is only added when none with its key is
  there.  Pointers to a bucket are its key here.
\<close>

section \<open>State\<close>

text \<open>The identification is kept as the four bytes of the header.\<close>

record FRAG_KEY =
  key_daddrv6 :: "u8 list"
  key_saddrv6 :: "u8 list"
  key_id :: "u8 list"

record FRAG_TUPLE =
  tuple_key :: FRAG_KEY
  tuple_len :: u32
  tuple_length :: u32
  tuple_flag :: u8
  time_out :: int

record FRAG_CB =
  cb_offset :: u16
  cb_mf :: u8
  cb_length :: u16
  cb_skb :: skbuff

record bucket_node =
  pData :: FRAG_TUPLE
  fraghdr :: "FRAG_CB list"
  cnt :: u32

type_synonym SHASHTABLE = "bucket_node list list"

record fragstate =
  pshashtable :: SHASHTABLE
  frag4buf :: "u8 list"

definition MAX_SHASH_SIZE :: nat where "MAX_SHASH_SIZE = 256"
definition FRAG_TIMEOUT :: int where "FRAG_TIMEOUT = 60"
definition MAX_FRAG_CNT :: u32 where "MAX_FRAG_CNT = 1144"
definition MAX_FRAG_PER_TIME :: int where "MAX_FRAG_PER_TIME = 5"

section \<open>Hashing\<close>

text \<open>The bytes are \<open>char\<close>, signed on the hosts the module runs on.\<close>

fun APHash_from :: "nat \<Rightarrow> u32 \<Rightarrow> u8 list \<Rightarrow> u32" where
  "APHash_from i hash [] = hash"
| "APHash_from i hash (c # str) =
     (let c = scast c;
          h = (if even i then push_bit 7 hash XOR c XOR drop_bit 3 hash
               else NOT (push_bit 11 hash XOR c XOR drop_bit 5 hash))
      in APHash_from (Suc i) (hash XOR h) str)"

definition APHash :: "u8 list \<Rightarrow> u32" where
  "APHash str = APHash_from 0 0 str AND 0x7FFFFFFF"

definition key_bytes :: "FRAG_KEY \<Rightarrow> u8 list" where
  "key_bytes k = key_daddrv6 k @ key_saddrv6 k @ key_id k"

definition bucket_index :: "FRAG_KEY \<Rightarrow> nat" where
  "bucket_index k = unat (APHash (key_bytes k)) mod MAX_SHASH_SIZE"

definition keycompare :: "FRAG_TUPLE \<Rightarrow> FRAG_KEY \<Rightarrow> bool" where
  "keycompare pfrag_tuple pfrag_key \<longleftrightarrow>
     key_id (tuple_key pfrag_tuple) = key_id pfrag_key
     \<and> key_daddrv6 (tuple_key pfrag_tuple) = key_daddrv6 pfrag_key
     \<and> key_saddrv6 (tuple_key pfrag_tuple) = key_saddrv6 pfrag_key"

definition fragcompare :: "FRAG_CB \<Rightarrow> FRAG_CB \<Rightarrow> int" where
  "fragcompare fragcb1 fragcb2 =
     (if cb_offset fragcb1 < cb_offset fragcb2 then 1
      else if cb_offset fragcb1 > cb_offset fragcb2 then -1
      else 0)"

text \<open>\<open>mem_ok\<close> says of each allocation, numbered from 0, whether it succeeds.\<close>

definition ShashCreate :: "(nat \<Rightarrow> bool) \<Rightarrow> nat \<Rightarrow> SHASHTABLE option" where
  "ShashCreate mem_ok tablesize =
     (if mem_ok 0 \<and> mem_ok 1 then Some (replicate tablesize []) else None)"

definition ShashBucketFind :: "SHASHTABLE \<Rightarrow> FRAG_KEY \<Rightarrow> bucket_node option" where
  "ShashBucketFind t pkey = find (\<lambda>b. keycompare (pData b) pkey) (t ! bucket_index pkey)"

text \<open>The writes through a bucket pointer.\<close>

fun chain_update :: "FRAG_KEY \<Rightarrow> bucket_node \<Rightarrow> bucket_node list \<Rightarrow> bucket_node list" where
  "chain_update k b [] = []"
| "chain_update k b (x # xs) = (if keycompare (pData x) k then b # xs else x # chain_update k b xs)"

definition bucket_update :: "SHASHTABLE \<Rightarrow> FRAG_KEY \<Rightarrow> bucket_node \<Rightarrow> SHASHTABLE" where
  "bucket_update t k b = t[bucket_index k := chain_update k b (t ! bucket_index k)]"

definition ShashInsert :: "bool \<Rightarrow> SHASHTABLE \<Rightarrow> FRAG_KEY \<Rightarrow> FRAG_TUPLE \<Rightarrow> SHASHTABLE option" where
  "ShashInsert mem_ok t pkey pdata =
     (if \<not> mem_ok then None
      else Some (t[bucket_index pkey :=
             \<lparr>pData = pdata, fraghdr = [], cnt = 0\<rparr> # t ! bucket_index pkey]))"

text \<open>The loop of \<open>ShashFragInsert\<close>, case by case.\<close>

fun frag_insert :: "FRAG_CB \<Rightarrow> FRAG_CB list \<Rightarrow> FRAG_CB list" where
  "frag_insert pdata [] = [pdata]"
| "frag_insert pdata [n] =
     (if fragcompare n pdata = 0 then [n]
      else if fragcompare n pdata < 0 then [pdata, n]
      else [n, pdata])"
| "frag_insert pdata (n # n' # ns) =
     (if fragcompare n pdata = 0 then n # n' # ns
      else if fragcompare n pdata < 0 then pdata # n # n' # ns
      else if fragcompare n' pdata < 0 then n # pdata # n' # ns
      else n # frag_insert pdata (n' # ns))"

definition ShashFragInsert :: "bool \<Rightarrow> FRAG_CB list \<Rightarrow> FRAG_CB \<Rightarrow> FRAG_CB list \<times> int" where
  "ShashFragInsert mem_ok fraghead pdata =
     (if \<not> mem_ok then (fraghead, -1) else (frag_insert pdata fraghead, 1))"

definition ShashFragDel :: "FRAG_CB list \<Rightarrow> FRAG_CB list \<times> int" where
  "ShashFragDel fraghead = (if fraghead = [] then (fraghead, -1) else ([], 1))"

section \<open>Collecting fragments\<close>

definition createfragkey :: "u8 list \<Rightarrow> FRAG_KEY option" where
  "createfragkey pkt =
     do { ident \<leftarrow> getn pkt 44 4;
          saddr \<leftarrow> getn pkt 8 16;
          daddr \<leftarrow> getn pkt 24 16;
          Some \<lparr>key_daddrv6 = saddr, key_saddrv6 = daddr, key_id = ident\<rparr> }"

definition createfragtuple :: "u8 list \<Rightarrow> int \<Rightarrow> FRAG_TUPLE option" where
  "createfragtuple pkt time =
     do { key \<leftarrow> createfragkey pkt;
          Some \<lparr>tuple_key = key, tuple_len = 0, tuple_length = 0, tuple_flag = 0, time_out = time\<rparr> }"

definition updatetupletimeout :: "FRAG_TUPLE \<Rightarrow> int \<Rightarrow> FRAG_TUPLE" where
  "updatetupletimeout pfragtuple time = pfragtuple\<lparr>time_out := time\<rparr>"

definition updatelength :: "FRAG_TUPLE \<Rightarrow> u8 list \<Rightarrow> (FRAG_TUPLE \<times> int) option" where
  "updatelength pfragtuple pkt =
     do { payload_len \<leftarrow> get16 pkt 4;
          frag_off \<leftarrow> get16 pkt 42;
          let size = ucast payload_len - 8;
          let t = pfragtuple\<lparr>tuple_len := tuple_len pfragtuple + size\<rparr>;
          let t = (if frag_off AND FRAG_MORE \<noteq> 1
                   then t\<lparr>tuple_length := ucast (frag_off AND FRAG_OFFSET) + size, tuple_flag := 1\<rparr>
                   else t);
          Some (t, if tuple_flag t \<noteq> 0 \<and> tuple_len t = tuple_length t then 1 else -1) }"

text \<open>
  The result's last part is the bucket whose packet is complete.  A bucket that cannot be
  allocated is used all the same: \<open>None\<close>.
\<close>

definition fragnodeinsert ::
    "(nat \<Rightarrow> bool) \<Rightarrow> SHASHTABLE \<Rightarrow> FRAG_CB \<Rightarrow> (SHASHTABLE \<times> FRAG_KEY option) option" where
  "fragnodeinsert mem_ok t pfragcb =
     do { let pkt = skb_data (cb_skb pfragcb);
          fragkey \<leftarrow> createfragkey pkt;
          let insert = (\<lambda>t b.
            do { let (frags, _) = ShashFragInsert (mem_ok 2) (fraghdr b) pfragcb;
                 (tuple, ret) \<leftarrow> updatelength (pData b) pkt;
                 Some (bucket_update t fragkey (b\<lparr>fraghdr := frags, pData := tuple\<rparr>),
                       if ret > 0 then Some fragkey else None) });
          (case ShashBucketFind t fragkey of
             None \<Rightarrow>
               if \<not> mem_ok 0 then Some (t, None)
               else do { pfragtuple \<leftarrow> createfragtuple pkt FRAG_TIMEOUT;
                         t \<leftarrow> ShashInsert (mem_ok 1) t fragkey pfragtuple;
                         b \<leftarrow> ShashBucketFind t fragkey;
                         insert t (b\<lparr>cnt := cnt b + 1\<rparr>) }
           | Some b \<Rightarrow>
               let b = b\<lparr>cnt := cnt b + 1\<rparr> in
               if cnt b > MAX_FRAG_CNT then Some (bucket_update t fragkey b, None)
               else insert t (b\<lparr>pData := updatetupletimeout (pData b) FRAG_TIMEOUT\<rparr>)) }"

section \<open>Putting the packet together\<close>

text \<open>
  \<open>frag_iphandle\<close> moves the payload over the two headers: the bytes of the buffer afterwards.
\<close>

definition frag_iphandle :: "u8 list \<Rightarrow> u8 list option" where
  "frag_iphandle pkt =
     do { payload_len \<leftarrow> get16 pkt 4;
          let payload = unat (ucast payload_len - 8 :: u32);
          moved \<leftarrow> getn pkt 48 payload;
          Some (moved @ drop payload pkt) }"

text \<open>The loop of \<open>fragprocess\<close>: the buffer and the length so far.\<close>

fun fragcopy :: "FRAG_CB list \<Rightarrow> u8 list \<Rightarrow> nat \<Rightarrow> (u8 list \<times> nat) option" where
  "fragcopy [] buf pktlen = Some (buf, pktlen)"
| "fragcopy (cb # cbs) buf pktlen =
     do { data \<leftarrow> frag_iphandle (skb_data (cb_skb cb));
          content \<leftarrow> getn data 0 (unat (cb_length cb));
          buf \<leftarrow> put buf (unat (cb_offset cb)) content;
          fragcopy cbs buf (pktlen + unat (cb_length cb)) }"

definition sndipskbuf :: "bool \<Rightarrow> u8 list \<Rightarrow> nat \<Rightarrow> u8 list \<Rightarrow> (skbuff list \<times> int) option" where
  "sndipskbuf mem_ok sndbuf pktlen mac =
     do { content \<leftarrow> getn sndbuf 0 pktlen;
          (case fragsk_bufalloc mem_ok mac ETH_P_IP content of
             None \<Rightarrow> Some ([], -1)
           | Some sdbuf \<Rightarrow> Some ([sdbuf], 1)) }"

definition fragprocess ::
    "(u8 list \<Rightarrow> u8 list) \<Rightarrow> (nat \<Rightarrow> bool) \<Rightarrow> GLOBAL_CTX \<Rightarrow> fragstate \<Rightarrow> FRAG_KEY \<Rightarrow>
     (fragstate \<times> skbuff list \<times> int) option" where
  "fragprocess ip_send_check mem_ok g st fraghead =
     do { b \<leftarrow> ShashBucketFind (pshashtable st) fraghead;
          (case fraghdr b of
             [] \<Rightarrow> Some (st, [], -1)
           | cb # cbs \<Rightarrow>
               do { let ucMac = h_dest (cb_skb cb);
                    (buf, pktlen) \<leftarrow> fragcopy (cb # cbs) (frag4buf st) 0;
                    let st = st\<lparr>frag4buf := buf,
                                pshashtable := bucket_update (pshashtable st) fraghead (b\<lparr>fraghdr := []\<rparr>)\<rparr>;
                    if pktlen > unat (usMtu g)
                    then do { pkt \<leftarrow> getn buf 0 pktlen;
                              out \<leftarrow> pkt_fraghandle ip_send_check mem_ok g ucMac pkt;
                              Some (st, out, 1) }
                    else do { (out, _) \<leftarrow> sndipskbuf (mem_ok 0) buf pktlen ucMac;
                              Some (st, out, 1) } }) }"

text \<open>
  What \<open>HandleIPv6_skbuf\<close> does with a fragment once the tunnel is found: note it, and send the
  packet when it is complete.  \<open>mem_ok\<close> is for the insertion, \<open>mem_ok'\<close> for sending.
\<close>

definition frag_arrive ::
    "(u8 list \<Rightarrow> u8 list) \<Rightarrow> (nat \<Rightarrow> bool) \<Rightarrow> (nat \<Rightarrow> bool) \<Rightarrow> GLOBAL_CTX \<Rightarrow> fragstate \<Rightarrow> FRAG_CB \<Rightarrow>
     (fragstate \<times> skbuff list) option" where
  "frag_arrive ip_send_check mem_ok mem_ok' g st pfragcb =
     do { (t, fraghead) \<leftarrow> fragnodeinsert mem_ok (pshashtable st) pfragcb;
          let st = st\<lparr>pshashtable := t\<rparr>;
          (case fraghead of
             None \<Rightarrow> Some (st, [])
           | Some k \<Rightarrow> do { (st, out, _) \<leftarrow> fragprocess ip_send_check mem_ok' g st k;
                            Some (st, out) }) }"

section \<open>Time-out\<close>

definition bucket_tick :: "bucket_node \<Rightarrow> bucket_node option" where
  "bucket_tick b =
     (let b = b\<lparr>pData := (pData b)\<lparr>time_out := time_out (pData b) - MAX_FRAG_PER_TIME\<rparr>\<rparr>
      in if time_out (pData b) \<le> 0 then None else Some b)"

definition fragtimeouthandle :: "fragstate \<Rightarrow> fragstate" where
  "fragtimeouthandle st = st\<lparr>pshashtable := map (List.map_filter bucket_tick) (pshashtable st)\<rparr>"

definition initfragmodule :: "(nat \<Rightarrow> bool) \<Rightarrow> u8 list \<Rightarrow> fragstate option" where
  "initfragmodule mem_ok buf =
     map_option (\<lambda>t. \<lparr>pshashtable = t, frag4buf = buf\<rparr>) (ShashCreate mem_ok MAX_SHASH_SIZE)"

definition ShashDestory :: "SHASHTABLE \<Rightarrow> SHASHTABLE" where
  "ShashDestory t = map (\<lambda>_. []) t"

section \<open>Finding buckets\<close>

lemma keycompare_iff [simp]: "keycompare p k \<longleftrightarrow> tuple_key p = k"
  by (cases k; cases "tuple_key p") (auto simp: keycompare_def)

lemma bucket_index_less: "length t = MAX_SHASH_SIZE \<Longrightarrow> bucket_index k < length t"
  by (simp add: bucket_index_def MAX_SHASH_SIZE_def)

lemma find_chain_update:
  "find (\<lambda>b. tuple_key (pData b) = j) (chain_update k b xs) =
    (if j = k \<and> tuple_key (pData b) = k
     then (if find (\<lambda>b. tuple_key (pData b) = k) xs = None then None else Some b)
     else find (\<lambda>b. tuple_key (pData b) = j) xs)"
  if "tuple_key (pData b) = k"
  using that by (induction xs) auto

lemma find_bucket_update:
  assumes "length t = MAX_SHASH_SIZE" "tuple_key (pData b) = k"
  shows "ShashBucketFind (bucket_update t k b) j =
    (if j = k then (if ShashBucketFind t k = None then None else Some b) else ShashBucketFind t j)"
  using assms bucket_index_less [OF assms(1)] find_chain_update [OF assms(2), of j "t ! bucket_index k"]
  by (cases "bucket_index j = bucket_index k") (auto simp: ShashBucketFind_def bucket_update_def)

lemma find_ShashInsert:
  assumes "length t = MAX_SHASH_SIZE" "ShashInsert True t k p = Some t'" "tuple_key p = k"
  shows "ShashBucketFind t' j =
    (if j = k then Some \<lparr>pData = p, fraghdr = [], cnt = 0\<rparr> else ShashBucketFind t j)"
  using assms bucket_index_less [OF assms(1)]
  by (cases "bucket_index j = bucket_index k") (auto simp: ShashBucketFind_def ShashInsert_def)

lemma length_bucket_update [simp]: "length (bucket_update t k b) = length t"
  by (simp add: bucket_update_def)

lemma length_ShashInsert: "ShashInsert m t k p = Some t' \<Longrightarrow> length t' = length t"
  by (auto simp: ShashInsert_def split: if_splits)

lemma find_key: "ShashBucketFind t k = Some b \<Longrightarrow> tuple_key (pData b) = k"
  by (auto simp: ShashBucketFind_def find_Some_iff)

section \<open>The list of fragments\<close>

abbreviation by_offset :: "FRAG_CB list \<Rightarrow> bool" where
  "by_offset ns \<equiv> sorted_wrt (\<lambda>a b. cb_offset a < cb_offset b) ns"

text \<open>\<open>ShashFragInsert\<close> keeps the fragments in the order of their offsets and drops a second
  fragment with an offset that is there.\<close>

lemma frag_insert_set:
  "by_offset ns \<Longrightarrow> by_offset (frag_insert d ns)
    \<and> set (frag_insert d ns) = (if cb_offset d \<in> cb_offset ` set ns then set ns else insert d (set ns))"
proof (induction d ns rule: frag_insert.induct)
  case (2 d n)
  then show ?case by (auto simp: fragcompare_def)
next
  case (3 d n n' ns)
  show ?case
  proof (cases "cb_offset n < cb_offset d \<and> \<not> cb_offset d < cb_offset n'")
    case True
    then have IH: "by_offset (frag_insert d (n' # ns))" "set (frag_insert d (n' # ns)) =
      (if cb_offset d \<in> cb_offset ` set (n' # ns) then set (n' # ns) else insert d (set (n' # ns)))"
      using 3 by (auto simp: fragcompare_def)
    have e: "frag_insert d (n # n' # ns) = n # frag_insert d (n' # ns)"
      using True by (simp add: fragcompare_def)
    show ?thesis
      unfolding e using IH 3(2) True by (auto split: if_splits)
  next
    case False
    then show ?thesis using 3(2) by (auto simp: fragcompare_def)
  qed
qed auto

lemma frag_insert_insort:
  assumes "by_offset ns" "cb_offset d \<notin> cb_offset ` set ns"
  shows "frag_insert d ns = insort_key cb_offset d ns"
  using assms
proof (induction d ns rule: frag_insert.induct)
  case (3 d n n' ns)
  then show ?case by (auto simp: fragcompare_def not_less_iff_gr_or_eq)
qed (auto simp: fragcompare_def not_less_iff_gr_or_eq)

section \<open>Reassembly\<close>

text \<open>
  \<open>frag_of k d f cb\<close>: the buffer \<open>cb\<close> is the fragment of packet \<open>d\<close> with offset \<open>fst f\<close> and
  length \<open>snd f\<close>, in the flow \<open>k\<close>.
\<close>

definition frag_of :: "FRAG_KEY \<Rightarrow> u8 list \<Rightarrow> nat \<times> nat \<Rightarrow> FRAG_CB \<Rightarrow> bool" where
  "frag_of k d f cb \<longleftrightarrow>
     (let pkt = skb_data (cb_skb cb); more = fst f + snd f < length d in
      createfragkey pkt = Some k
      \<and> get16 pkt 4 = Some (word_of_nat (snd f + 8))
      \<and> get16 pkt 42 = Some (if more then word_of_nat (fst f) OR 1 else word_of_nat (fst f))
      \<and> getn pkt 48 (snd f) = Some (take (snd f) (drop (fst f) d))
      \<and> cb_offset cb = word_of_nat (fst f) \<and> cb_length cb = word_of_nat (snd f))"

lemma ucast_u16: "n < 2 ^ 16 \<Longrightarrow> (ucast (word_of_nat n :: u16) :: u32) = word_of_nat n"
  by (simp add: unsigned_of_nat take_bit_nat_eq_self)

lemma payload_size:
  "l + 8 < 2 ^ 16 \<Longrightarrow> (ucast (word_of_nat (l + 8) :: u16) - 8 :: u32) = word_of_nat l"
  by (simp only: ucast_u16) simp

definition has_last :: "u8 list \<Rightarrow> (nat \<times> nat) list \<Rightarrow> bool" where
  "has_last d qs \<longleftrightarrow> (\<exists>f \<in> set qs. fst f + snd f = length d)"

text \<open>The bucket of a flow after the fragments \<open>qs\<close>, the last one first.\<close>

definition bucket_for :: "FRAG_KEY \<Rightarrow> u8 list \<Rightarrow> (nat \<times> nat \<Rightarrow> FRAG_CB) \<Rightarrow> (nat \<times> nat) list \<Rightarrow> bucket_node" where
  "bucket_for k d mk qs =
     \<lparr>pData = \<lparr>tuple_key = k, tuple_len = word_of_nat (sum_list (map snd qs)),
               tuple_length = (if has_last d qs then word_of_nat (length d) else 0),
               tuple_flag = (if has_last d qs then 1 else 0), time_out = FRAG_TIMEOUT\<rparr>,
      fraghdr = sort_key cb_offset (map mk qs), cnt = word_of_nat (length qs)\<rparr>"

definition piece_ok :: "u8 list \<Rightarrow> nat \<times> nat \<Rightarrow> bool" where
  "piece_ok d f \<longleftrightarrow> even (fst f) \<and> fst f + snd f \<le> length d \<and> length d < 2 ^ 16 - 8"

lemma updatelength_frag:
  assumes "frag_of k d f (mk f)" "piece_ok d f"
  shows "updatelength (pData (bucket_for k d mk qs)) (skb_data (cb_skb (mk f))) =
    Some (pData (bucket_for k d mk (f # qs)),
      if has_last d (f # qs) \<and> word_of_nat (sum_list (map snd (f # qs))) = (word_of_nat (length d) :: u32)
      then 1 else -1)"
proof -
  let ?pkt = "skb_data (cb_skb (mk f))" and ?more = "fst f + snd f < length d"
  have f: "get16 ?pkt 4 = Some (word_of_nat (snd f + 8))"
    "get16 ?pkt 42 = Some (if ?more then word_of_nat (fst f) OR 1 else word_of_nat (fst f))"
    using assms(1) by (simp_all add: frag_of_def Let_def)
  have p: "even (fst f)" "fst f < 2 ^ 16" "snd f + 8 < 2 ^ 16" "fst f + snd f \<le> length d"
    using assms(2) by (auto simp: piece_ok_def)
  note o = even_or_1 [OF p(1,2)]
  have uo: "(ucast (word_of_nat (fst f) :: u16) :: u32) = word_of_nat (fst f)"
    using p(2) by (rule ucast_u16)
  show ?thesis
  proof (cases ?more)
    case True
    then have "has_last d (f # qs) \<longleftrightarrow> has_last d qs" by (auto simp: has_last_def)
    then show ?thesis
      using True f o payload_size [OF p(3)]
      by (simp add: updatelength_def bucket_for_def FRAG_MORE_def FRAG_OFFSET_def algebra_simps)
  next
    case False
    then have e: "fst f + snd f = length d" using p(4) by simp
    then have hl: "has_last d (f # qs)" by (auto simp: has_last_def)
    have ln: "word_of_nat (length d) = (word_of_nat (fst f) + word_of_nat (snd f) :: u32)"
      by (simp flip: e)
    let ?t = "pData (bucket_for k d mk qs)"
    let ?t' = "?t\<lparr>tuple_len := tuple_len ?t + word_of_nat (snd f),
      tuple_length := word_of_nat (length d), tuple_flag := 1\<rparr>"
    have t': "pData (bucket_for k d mk (f # qs)) = ?t'"
      using hl by (simp add: bucket_for_def add.commute)
    have "updatelength ?t ?pkt = Some (?t', if tuple_len ?t' = tuple_length ?t' then 1 else -1)"
      unfolding ln using False f(1,2) o(2,4) payload_size [OF p(3)] uo
      by (simp only: updatelength_def option.case Option.bind.simps Let_def FRAG_MORE_def FRAG_OFFSET_def
          if_False) simp
    moreover have "tuple_len ?t' = word_of_nat (sum_list (map snd (f # qs)))"
      by (simp add: bucket_for_def add.commute)
    ultimately show ?thesis using hl t' by simp
  qed
qed

lemma bucket_for_insert:
  assumes "frag_of k d f (mk f)" "by_offset (sort_key cb_offset (map mk qs))"
    "cb_offset (mk f) \<notin> cb_offset ` set (map mk qs)"
  shows "frag_insert (mk f) (fraghdr (bucket_for k d mk qs)) = fraghdr (bucket_for k d mk (f # qs))"
  using frag_insert_insort [OF assms(2)] assms(3) by (simp add: bucket_for_def)

text \<open>One fragment of a flow, new or under way, with every allocation succeeding.\<close>

definition flow_at :: "FRAG_KEY \<Rightarrow> u8 list \<Rightarrow> (nat \<times> nat \<Rightarrow> FRAG_CB) \<Rightarrow> (nat \<times> nat) list \<Rightarrow> SHASHTABLE \<Rightarrow> bool" where
  "flow_at k d mk qs t \<longleftrightarrow> length t = MAX_SHASH_SIZE \<and>
     ShashBucketFind t k = (if qs = [] then None else Some (bucket_for k d mk qs))"

lemma fragnodeinsert_ok:
  assumes "flow_at k d mk qs t" "\<forall>i. mem_ok i" "frag_of k d f (mk f)" "piece_ok d f"
    "by_offset (sort_key cb_offset (map mk qs))" "cb_offset (mk f) \<notin> cb_offset ` set (map mk qs)"
    "length qs < 1144"
  obtains t' where "fragnodeinsert mem_ok t (mk f) = Some (t',
      if has_last d (f # qs) \<and> word_of_nat (sum_list (map snd (f # qs))) = (word_of_nat (length d) :: u32)
      then Some k else None)"
    "flow_at k d mk (f # qs) t'" "\<And>j. j \<noteq> k \<Longrightarrow> ShashBucketFind t' j = ShashBucketFind t j"
proof -
  let ?pkt = "skb_data (cb_skb (mk f))"
  let ?done = "has_last d (f # qs) \<and> word_of_nat (sum_list (map snd (f # qs))) = (word_of_nat (length d) :: u32)"
  have len: "length t = MAX_SHASH_SIZE" using assms(1) by (simp add: flow_at_def)
  have key: "createfragkey ?pkt = Some k" using assms(3) by (simp add: frag_of_def Let_def)
  note ul = updatelength_frag [where mk = mk and qs = qs, OF assms(3,4)]
  note fi = bucket_for_insert [OF assms(3,5,6)]
  have b: "(bucket_for k d mk qs)\<lparr>cnt := cnt (bucket_for k d mk qs) + 1,
      fraghdr := fraghdr (bucket_for k d mk (f # qs)), pData := pData (bucket_for k d mk (f # qs))\<rparr>
      = bucket_for k d mk (f # qs)" by (simp add: bucket_for_def)
  show ?thesis
  proof (cases "qs = []")
    case True
    have none: "ShashBucketFind t k = None" using assms(1) True by (simp add: flow_at_def)
    have tup: "createfragtuple ?pkt FRAG_TIMEOUT = Some (pData (bucket_for k d mk []))"
      using key by (simp add: createfragtuple_def bucket_for_def has_last_def)
    obtain t1 where t1: "ShashInsert True t k (pData (bucket_for k d mk [])) = Some t1"
      by (simp add: ShashInsert_def)
    have e0: "\<lparr>pData = pData (bucket_for k d mk []), fraghdr = [], cnt = 0\<rparr> = bucket_for k d mk []"
      by (simp add: bucket_for_def)
    have "tuple_key (pData (bucket_for k d mk [])) = k" by (simp add: bucket_for_def)
    note ft = find_ShashInsert [OF len t1 this]
    have f1: "ShashBucketFind t1 k = Some (bucket_for k d mk [])" using ft [of k] e0 by simp
    have len1: "length t1 = MAX_SHASH_SIZE" using length_ShashInsert [OF t1] len by simp
    let ?t = "bucket_update t1 k (bucket_for k d mk (f # qs))"
    have "fragnodeinsert mem_ok t (mk f) = Some (?t, if ?done then Some k else None)"
      using key none tup t1 f1 ul fi b True assms(2)
      by (simp add: fragnodeinsert_def ShashFragInsert_def Let_def)
    moreover have "tuple_key (pData (bucket_for k d mk (f # qs))) = k" by (simp add: bucket_for_def)
    note fu = find_bucket_update [OF len1 this]
    have "flow_at k d mk (f # qs) ?t" using len1 fu [of k] f1 by (simp add: flow_at_def)
    moreover have "\<And>j. j \<noteq> k \<Longrightarrow> ShashBucketFind ?t j = ShashBucketFind t j" using fu ft by simp
    ultimately show ?thesis using that by blast
  next
    case False
    have f1: "ShashBucketFind t k = Some (bucket_for k d mk qs)" using assms(1) False by (simp add: flow_at_def)
    let ?t = "bucket_update t k (bucket_for k d mk (f # qs))"
    have "unat (word_of_nat (Suc (length qs)) :: u32) = Suc (length qs)"
      using assms(7) by (intro of_nat_inverse [OF refl]) simp
    then have c: "\<not> MAX_FRAG_CNT < word_of_nat (Suc (length qs))"
      using assms(7) by (simp add: MAX_FRAG_CNT_def word_less_nat_alt del: of_nat_Suc)
    have upd: "updatetupletimeout (pData (bucket_for k d mk qs)) FRAG_TIMEOUT = pData (bucket_for k d mk qs)"
      by (simp add: updatetupletimeout_def bucket_for_def)
    have cn: "cnt (bucket_for k d mk qs) + 1 = word_of_nat (Suc (length qs))" by (simp add: bucket_for_def)
    have same: "(bucket_for k d mk qs)\<lparr>cnt := x, pData := pData (bucket_for k d mk qs)\<rparr>
        = (bucket_for k d mk qs)\<lparr>cnt := x\<rparr>" for x by simp
    have "fragnodeinsert mem_ok t (mk f) = Some (?t, if ?done then Some k else None)"
      using key f1 ul fi b c cn upd assms(2)
      by (simp add: fragnodeinsert_def ShashFragInsert_def Let_def del: of_nat_Suc)
    moreover have "tuple_key (pData (bucket_for k d mk (f # qs))) = k" by (simp add: bucket_for_def)
    note fu = find_bucket_update [OF len this]
    have "flow_at k d mk (f # qs) ?t" using len fu [of k] f1 by (simp add: flow_at_def)
    moreover have "\<And>j. j \<noteq> k \<Longrightarrow> ShashBucketFind ?t j = ShashBucketFind t j" using fu by simp
    ultimately show ?thesis using that by blast
  qed
qed

text \<open>Copying the fragments in order of their offsets fills the buffer with the packet.\<close>

lemma frag_iphandle_frag:
  assumes "frag_of k d f cb" "piece_ok d f"
  shows "\<exists>data. frag_iphandle (skb_data (cb_skb cb)) = Some data
    \<and> getn data 0 (unat (cb_length cb)) = Some (take (snd f) (drop (fst f) d))
    \<and> unat (cb_offset cb) = fst f \<and> unat (cb_length cb) = snd f"
proof -
  let ?pkt = "skb_data (cb_skb cb)"
  have f: "get16 ?pkt 4 = Some (word_of_nat (snd f + 8))"
    "getn ?pkt 48 (snd f) = Some (take (snd f) (drop (fst f) d))"
    "cb_offset cb = word_of_nat (fst f)" "cb_length cb = word_of_nat (snd f)"
    using assms(1) by (simp_all add: frag_of_def Let_def)
  have p: "fst f < 2 ^ 16" "snd f < 2 ^ 16" "snd f + 8 < 2 ^ 16" "snd f < 2 ^ 32"
    using assms(2) by (auto simp: piece_ok_def)
  have o: "unat (cb_offset cb) = fst f" "unat (cb_length cb) = snd f"
    unfolding f using p(1,2) by (auto intro!: of_nat_inverse [OF refl])
  have "unat (word_of_nat (snd f) :: u32) = snd f" using p(4) by (auto intro!: of_nat_inverse [OF refl])
  then have "frag_iphandle ?pkt = Some (take (snd f) (drop (fst f) d) @ drop (snd f) ?pkt)"
    using f(1,2) payload_size [OF p(3)] by (simp add: frag_iphandle_def Let_def)
  moreover have "length (take (snd f) (drop (fst f) d)) = snd f" using getn_length [OF f(2)] .
  ultimately show ?thesis using o by (simp add: getn_def)
qed

lemma fragcopy_ok:
  assumes "plan_from cap (length d) off fs" "\<And>f. f \<in> set fs \<Longrightarrow> frag_of k d f (mk f) \<and> piece_ok d f"
    "length d \<le> length buf" "take off buf = take off d" "off \<le> length d"
  shows "\<exists>buf'. fragcopy (map mk fs) buf n = Some (buf', n + (length d - off)) \<and> length buf' = length buf
    \<and> take (length d) buf' = d"
  using assms
proof (induction fs arbitrary: off buf n)
  case Nil
  then show ?case by simp
next
  case (Cons f fs)
  obtain o' l where f: "f = (o', l)" by (cases f)
  have p: "o' = off" "off + l \<le> length d" "plan_from cap (length d) (off + l) fs"
    using Cons.prems(1) by (auto simp: f)
  obtain data where data: "frag_iphandle (skb_data (cb_skb (mk f))) = Some data"
    "getn data 0 (unat (cb_length (mk f))) = Some (take l (drop off d))"
    "unat (cb_offset (mk f)) = off" "unat (cb_length (mk f)) = l"
    using frag_iphandle_frag [of k d f "mk f"] Cons.prems(2) [of f] p(1) by (auto simp: f)
  let ?c = "take l (drop off d)"
  let ?b = "take off buf @ ?c @ drop (off + l) buf"
  have lc: "length ?c = l" using p(2) by simp
  have put: "put buf off ?c = Some ?b" using p(2) Cons.prems(3) lc by (simp add: put_def)
  have lb: "length ?b = length buf" using put_length [OF put] .
  have tk: "take (off + l) ?b = take (off + l) d"
  proof -
    have "take (off + l) ?b = take off buf @ ?c" using p(2) Cons.prems(3) lc by simp
    also have "\<dots> = take (off + l) d" using Cons.prems(4) by (simp add: take_add)
    finally show ?thesis .
  qed
  obtain buf' where "fragcopy (map mk fs) ?b (n + l) = Some (buf', n + l + (length d - (off + l)))"
    "length buf' = length ?b" "take (length d) buf' = d"
    using Cons.IH [OF p(3) Cons.prems(2) _ tk p(2), of "n + l"] Cons.prems(3) lb by auto
  then show ?case using data put lb p(2) by (auto simp: f)
qed

text \<open>The pieces of a plan lie in increasing order.\<close>

lemma plan_sorted:
  "plan_from cap len off fs \<Longrightarrow> sorted_wrt (\<lambda>f g. fst f < fst g) fs \<and> (\<forall>f \<in> set fs. off \<le> fst f)"
proof (induction cap len off fs rule: plan_from.induct)
  case (2 cap len off o' l fs)
  then show ?case by force
qed simp

lemma plan_sum: "plan_from cap len off fs \<Longrightarrow> off \<le> len \<Longrightarrow> sum_list (map snd fs) = len - off"
  by (induction cap len off fs rule: plan_from.induct) auto

lemma plan_last: "plan_from cap len off fs \<Longrightarrow> fs \<noteq> [] \<Longrightarrow> fst (last fs) + snd (last fs) = len"
  by (induction cap len off fs rule: plan_from.induct) auto

fun frag_arrivals where
  "frag_arrivals c m m' g st [] = Some (st, [])"
| "frag_arrivals c m m' g st (cb # cbs) =
     do { (st, out) \<leftarrow> frag_arrive c m m' g st cb;
          (st, out') \<leftarrow> frag_arrivals c m m' g st cbs;
          Some (st, out @ out') }"

text \<open>The packet as it is sent on: whole, or in IPv4 fragments.\<close>

definition delivered ::
    "(u8 list \<Rightarrow> u8 list) \<Rightarrow> (nat \<Rightarrow> bool) \<Rightarrow> GLOBAL_CTX \<Rightarrow> u8 list \<Rightarrow> u8 list \<Rightarrow> skbuff list option" where
  "delivered c mem_ok g mac d =
     (if length d > unat (usMtu g) then pkt_fraghandle c mem_ok g mac d
      else Some [fresh_skb mac ETH_P_IP d])"

text \<open>\<open>fragmented\<close>: \<open>fs\<close> is a fragmentation of \<open>d\<close>, and \<open>mk\<close> gives each piece's fragment.\<close>

definition fragmented ::
    "FRAG_KEY \<Rightarrow> u8 list \<Rightarrow> (nat \<times> nat \<Rightarrow> FRAG_CB) \<Rightarrow> (nat \<times> nat) list \<Rightarrow> nat \<Rightarrow> bool" where
  "fragmented k d mk fs cap \<longleftrightarrow>
     plan_from cap (length d) 0 fs \<and> (\<forall>f \<in> set fs. frag_of k d f (mk f))
     \<and> 0 < length d \<and> length d < 2 ^ 16 - 8 \<and> length fs \<le> 1144"

lemma fragmentedD:
  assumes "fragmented k d mk fs cap"
  shows "plan_from cap (length d) 0 fs" "\<And>f. f \<in> set fs \<Longrightarrow> frag_of k d f (mk f)"
    "0 < length d" "length d < 2 ^ 16 - 8" "length fs \<le> 1144"
  using assms by (auto simp: fragmented_def)

lemma pieces:
  assumes "fragmented k d mk fs cap" "f \<in> set fs"
  shows "piece_ok d f" "0 < snd f" "unat (cb_offset (mk f)) = fst f"
proof -
  show p: "piece_ok d f" "0 < snd f"
    using plan_from_mem [OF fragmentedD(1) [OF assms(1)], of "fst f" "snd f"] assms(2)
      fragmentedD(4) [OF assms(1)] by (auto simp: piece_ok_def elim: dvdE)
  show "unat (cb_offset (mk f)) = fst f"
    using frag_iphandle_frag [OF fragmentedD(2) [OF assms] p(1)] by blast
qed

lemma offsets:
  assumes "fragmented k d mk fs cap"
  shows "by_offset (map mk fs)" "distinct fs" "inj_on (\<lambda>f. cb_offset (mk f)) (set fs)"
proof -
  have s: "sorted_wrt (\<lambda>f g. fst f < fst g) fs" using plan_sorted [OF fragmentedD(1) [OF assms]] by simp
  have "sorted_wrt (\<lambda>f g. cb_offset (mk f) < cb_offset (mk g)) fs"
    by (rule sorted_wrt_mono_rel [OF _ s]) (simp add: word_less_nat_alt pieces(3) [OF assms])
  then show "by_offset (map mk fs)" by (simp add: sorted_wrt_map)
  have d: "distinct (map fst fs)" using s by (simp add: strict_sorted_iff flip: sorted_wrt_map)
  then show "distinct fs" by (simp add: distinct_map)
  show "inj_on (\<lambda>f. cb_offset (mk f)) (set fs)"
    using d pieces(3) [OF assms] by (intro inj_onI) (metis distinct_map inj_onD)
qed

lemma sorted_part:
  assumes "fragmented k d mk fs cap" "set qs \<subseteq> set fs" "distinct qs"
  shows "by_offset (sort_key cb_offset (map mk qs))"
proof -
  have i: "inj_on (\<lambda>f. cb_offset (mk f)) (set qs)"
    by (rule inj_on_subset [OF offsets(3) [OF assms(1)] assms(2)])
  have "inj_on cb_offset (mk ` set qs)"
    using i by (auto simp: inj_on_def)
  moreover have "distinct (map mk qs)" using i assms(3) by (auto simp: distinct_map inj_on_def)
  ultimately have "distinct (map cb_offset (sort_key cb_offset (map mk qs)))"
    by (simp add: distinct_map)
  then have "sorted_wrt (<) (map cb_offset (sort_key cb_offset (map mk qs)))"
    by (simp add: strict_sorted_iff)
  then show ?thesis by (simp add: sorted_wrt_map)
qed

lemma sorted_all:
  assumes "fragmented k d mk fs cap" "mset qs = mset fs"
  shows "sort_key cb_offset (map mk qs) = map mk fs"
proof (rule sort_key_inj_key_eq)
  show "mset (map mk qs) = mset (map mk fs)" using assms(2) by simp
  have "set qs = set fs" by (rule mset_eq_setD [OF assms(2)])
  then show "inj_on cb_offset (set (map mk qs))"
    using offsets(3) [OF assms(1)] by (auto simp: inj_on_def)
  have "sorted_wrt (<) (map cb_offset (map mk fs))"
    using offsets(1) [OF assms(1)] by (simp only: sorted_wrt_map)
  then show "sorted (map cb_offset (map mk fs))" by (rule strict_sorted_imp_sorted)
qed

lemma fragprocess_ok:
  assumes fr: "fragmented k d mk fs cap" and "mset qs = mset fs"
    and "flow_at k d mk qs (pshashtable st)" "length d \<le> length (frag4buf st)"
    and "\<forall>i. mem_ok i" "28 \<le> unat (usMtu g)"
  shows "\<exists>st' out. fragprocess c mem_ok g st k = Some (st', out, 1)
    \<and> delivered c mem_ok g (h_dest (cb_skb (mk (hd fs)))) d = Some out
    \<and> length (frag4buf st') = length (frag4buf st) \<and> length (pshashtable st') = MAX_SHASH_SIZE
    \<and> (\<forall>j. j \<noteq> k \<longrightarrow> ShashBucketFind (pshashtable st') j = ShashBucketFind (pshashtable st) j)"
proof -
  note F = fragmentedD [OF fr]
  have ne: "fs \<noteq> []" using F(1,3) by (cases fs) auto
  then have "qs \<noteq> []" using assms(2) by auto
  then have b: "ShashBucketFind (pshashtable st) k = Some (bucket_for k d mk qs)"
    and len: "length (pshashtable st) = MAX_SHASH_SIZE"
    using assms(3) by (simp_all add: flow_at_def)
  have fh: "fraghdr (bucket_for k d mk qs) = mk (hd fs) # map mk (tl fs)"
    using sorted_all [OF fr assms(2)] ne by (cases fs) (simp_all add: bucket_for_def)
  have mk: "f \<in> set fs \<Longrightarrow> frag_of k d f (mk f) \<and> piece_ok d f" for f
    using F(2) pieces(1) [OF fr] by blast
  obtain buf where buf: "fragcopy (map mk fs) (frag4buf st) 0 = Some (buf, length d)"
    "length buf = length (frag4buf st)" "take (length d) buf = d"
    using fragcopy_ok [OF F(1) mk assms(4), of 0] by auto
  have fc: "fragcopy (mk (hd fs) # map mk (tl fs)) (frag4buf st) 0 = Some (buf, length d)"
    using buf(1) ne by (cases fs) simp_all
  have g: "getn buf 0 (length d) = Some d" using buf assms(4) by (simp add: getn_def)
  let ?b = "bucket_for k d mk qs"
  let ?st = "st\<lparr>frag4buf := buf, pshashtable := bucket_update (pshashtable st) k (?b\<lparr>fraghdr := []\<rparr>)\<rparr>"
  have k: "tuple_key (pData (?b\<lparr>fraghdr := []\<rparr>)) = k" by (simp add: bucket_for_def)
  have st: "length (frag4buf ?st) = length (frag4buf st)" "length (pshashtable ?st) = MAX_SHASH_SIZE"
    "\<forall>j. j \<noteq> k \<longrightarrow> ShashBucketFind (pshashtable ?st) j = ShashBucketFind (pshashtable st) j"
    using buf(2) len find_bucket_update [OF len k] by simp_all
  have "\<exists>out. fragprocess c mem_ok g st k = Some (?st, out, 1)
    \<and> delivered c mem_ok g (h_dest (cb_skb (mk (hd fs)))) d = Some out"
  proof (cases "unat (usMtu g) < length d")
    case True
    have l: "length d < 2 ^ 16" using F(4) by simp
    obtain out where "pkt_fraghandle c mem_ok g (h_dest (cb_skb (mk (hd fs)))) d = Some out"
      by (rule pkt_fraghandle_sent [OF assms(6) True l assms(5)])
    with True show ?thesis
      using b fh fc g by (simp add: fragprocess_def delivered_def Let_def del: fragcopy.simps)
  next
    case False
    then show ?thesis
      using b fh fc g assms(5)
      by (simp add: fragprocess_def delivered_def Let_def sndipskbuf_def fragsk_bufalloc_def fresh_skb_def
          del: fragcopy.simps)
  qed
  with st show ?thesis by blast
qed

lemma word32_eq: "(word_of_nat a :: u32) = word_of_nat b \<longleftrightarrow> a = b" if "a < 2 ^ 32" "b < 2 ^ 32"
proof
  assume e: "(word_of_nat a :: u32) = word_of_nat b"
  have "unat (word_of_nat a :: u32) = a" "unat (word_of_nat b :: u32) = b"
    by (rule of_nat_inverse [OF refl], use that in simp)+
  then show "a = b" unfolding e by (rule trans [OF sym])
qed simp

lemma arrivals_ok:
  assumes fr: "fragmented k d mk fs cap" and "\<forall>i. m i" "\<forall>i. m' i" "28 \<le> unat (usMtu g)"
  shows "flow_at k d mk qs (pshashtable st) \<Longrightarrow> mset (qs @ ps) = mset fs \<Longrightarrow> ps \<noteq> [] \<Longrightarrow>
    length d \<le> length (frag4buf st) \<Longrightarrow>
    \<exists>st' out. frag_arrivals c m m' g st (map mk ps) = Some (st', out)
      \<and> delivered c m' g (h_dest (cb_skb (mk (hd fs)))) d = Some out
      \<and> length (frag4buf st') = length (frag4buf st) \<and> length (pshashtable st') = MAX_SHASH_SIZE
      \<and> (\<forall>j. j \<noteq> k \<longrightarrow> ShashBucketFind (pshashtable st') j = ShashBucketFind (pshashtable st) j)"
proof (induction ps arbitrary: qs st)
  case (Cons f ps)
  note F = fragmentedD [OF fr] and P = pieces [OF fr] and O = offsets [OF fr]
  have sset: "set (qs @ f # ps) = set fs" by (rule mset_eq_setD [OF Cons.prems(2)])
  have f: "f \<in> set fs" and qs: "set qs \<subseteq> set fs" and dis: "distinct (qs @ f # ps)"
    using sset O(2) mset_eq_imp_distinct_iff [OF Cons.prems(2)] by auto
  have len: "length (qs @ f # ps) = length fs" by (metis Cons.prems(2) size_mset)
  have new: "cb_offset (mk f) \<notin> cb_offset ` set (map mk qs)"
    using O(3) f qs dis by (auto simp: inj_on_def)
  have cntok: "length qs < 1144" using len F(5) by simp
  obtain t' where t': "fragnodeinsert m (pshashtable st) (mk f) = Some (t',
      if has_last d (f # qs) \<and> word_of_nat (sum_list (map snd (f # qs))) = (word_of_nat (length d) :: u32)
      then Some k else None)"
    "flow_at k d mk (f # qs) t'" "\<And>j. j \<noteq> k \<Longrightarrow> ShashBucketFind t' j = ShashBucketFind (pshashtable st) j"
    using fragnodeinsert_ok [OF Cons.prems(1) assms(2) F(2) [OF f] P(1) [OF f] sorted_part [OF fr qs] new cntok]
      dis by auto
  have total: "sum_list (map snd (f # qs)) + sum_list (map snd ps) = length d"
  proof -
    have "sum_list (map snd (qs @ f # ps)) = sum_list (map snd fs)"
      using Cons.prems(2) by (metis mset_map sum_mset_sum_list)
    then show ?thesis using plan_sum [OF F(1)] by simp
  qed
  let ?st = "st\<lparr>pshashtable := t'\<rparr>"
  show ?case
  proof (cases "ps = []")
    case True
    have m: "mset (f # qs) = mset fs" using Cons.prems(2) True by simp
    have "last fs \<in> set (f # qs)" using mset_eq_setD [OF m] f by (cases fs rule: rev_cases) auto
    then have "has_last d (f # qs)"
      using plan_last [OF F(1)] f by (fastforce simp: has_last_def)
    moreover have e: "sum_list (map snd (f # qs)) = length d" using total True by simp
    ultimately have r: "fragnodeinsert m (pshashtable st) (mk f) = Some (t', Some k)"
      using t'(1) unfolding e by simp
    obtain st' out where "fragprocess c m' g ?st k = Some (st', out, 1)"
      "delivered c m' g (h_dest (cb_skb (mk (hd fs)))) d = Some out"
      "length (frag4buf st') = length (frag4buf ?st)" "length (pshashtable st') = MAX_SHASH_SIZE"
      "\<forall>j. j \<noteq> k \<longrightarrow> ShashBucketFind (pshashtable st') j = ShashBucketFind (pshashtable ?st) j"
      using fragprocess_ok [OF fr m _ _ assms(3,4), of ?st c] t'(2) Cons.prems(4) by auto
    then show ?thesis using r t'(3) True by (simp add: frag_arrive_def)
  next
    case False
    then have "0 < sum_list (map snd ps)"
      using P(2) sset by (cases ps) auto
    then have less: "sum_list (map snd (f # qs)) < length d" using total by linarith
    then have "\<not> word_of_nat (sum_list (map snd (f # qs))) = (word_of_nat (length d) :: u32)"
      using F(4) by (subst word32_eq) auto
    then have r: "frag_arrive c m m' g st (mk f) = Some (?st, [])"
      using t'(1) by (simp add: frag_arrive_def)
    have "flow_at k d mk (f # qs) (pshashtable ?st)" "mset ((f # qs) @ ps) = mset fs"
      "length d \<le> length (frag4buf ?st)" using t'(2) Cons.prems(2,4) by simp_all
    from Cons.IH [OF this(1,2) False this(3)] obtain st' out where
      "frag_arrivals c m m' g ?st (map mk ps) = Some (st', out)"
      "delivered c m' g (h_dest (cb_skb (mk (hd fs)))) d = Some out"
      "length (frag4buf st') = length (frag4buf st)" "length (pshashtable st') = MAX_SHASH_SIZE"
      "\<forall>j. j \<noteq> k \<longrightarrow> ShashBucketFind (pshashtable st') j = ShashBucketFind t' j" by auto
    then show ?thesis using r t'(3) by simp
  qed
qed simp

section \<open>Fragments of the module's own making\<close>

text \<open>The control block \<open>HandleIPv6_skbuf\<close> makes for a fragment.\<close>

definition frag_cb :: "skbuff \<Rightarrow> FRAG_CB option" where
  "frag_cb skb =
     do { (offset, mf, l) \<leftarrow> GetFragOffset (skb_data skb);
          Some \<lparr>cb_offset = offset, cb_mf = mf, cb_length = l, cb_skb = skb\<rparr> }"

definition frag6_key :: "GLOBAL_CTX \<Rightarrow> u8 list \<Rightarrow> u8 list \<Rightarrow> FRAG_KEY" where
  "frag6_key g dst pkt = \<lparr>key_daddrv6 = ucTcIPv6 g, key_saddrv6 = dst, key_id = frag_id pkt\<rparr>"

text \<open>A buffer as it arrives at the other end, in a frame to the link address \<open>mac\<close>.\<close>

definition received :: "u8 list \<Rightarrow> skbuff \<Rightarrow> skbuff" where
  "received mac b = b\<lparr>h_dest := mac\<rparr>"

definition frag6_cb :: "GLOBAL_CTX \<Rightarrow> u8 list \<Rightarrow> u8 list \<Rightarrow> skbuff \<Rightarrow> nat \<times> nat \<Rightarrow> FRAG_CB" where
  "frag6_cb g dst mac skb f =
     \<lparr>cb_offset = word_of_nat (fst f), cb_mf = (if snd f + fst f < length (skb_data skb) then 1 else 0),
      cb_length = word_of_nat (snd f),
      cb_skb = received mac (fresh_skb (h_dest skb) ETH_P_IPV6 (frag6_bytes g dst (skb_data skb) f))\<rparr>"

lemma frag6_fields:
  assumes "length (ucTcIPv6 g) = 16" "length dst = 16" "fst f + snd f \<le> length pkt"
  shows "createfragkey (frag6_bytes g dst pkt f) = Some (frag6_key g dst pkt)"
    "get16 (frag6_bytes g dst pkt f) 4 = Some (word_of_nat (snd f + 8))"
    "get16 (frag6_bytes g dst pkt f) 42 =
      Some (if fst f + snd f < length pkt then word_of_nat (fst f) OR 1 else word_of_nat (fst f))"
    "getn (frag6_bytes g dst pkt f) 48 (snd f) = Some (take (snd f) (drop (fst f) pkt))"
proof -
  let ?o = "if snd f + fst f < length pkt then word_of_nat (fst f) OR 1 else word_of_nat (fst f) :: u16"
  let ?pay = "take (snd f) (drop (fst f) pkt)"
  let ?h0 = "[0x60, 0, 0, 0] @ be16 (word_of_nat (snd f + 8)) @ [NEXTHDR_FRAGMENT, 64] :: u8 list"
  have b: "frag6_bytes g dst pkt f = ?h0 @ ucTcIPv6 g @ dst @ [IPINIP, 0] @ be16 ?o @ frag_id pkt @ ?pay"
    by (simp add: frag6_bytes_def ipv6_header_def)
  have l: "length ?h0 = 8" "length (frag_id pkt) = 4" "length ?pay = snd f"
    using assms(3) by (simp_all add: frag_id_def)
  have pre: "getn (p @ q) (length p) n = getn q 0 n" for p q :: "u8 list" and n by simp
  have s: "getn (frag6_bytes g dst pkt f) 8 16 = Some (ucTcIPv6 g)"
    unfolding b using l assms(1) getn_prefix [of "ucTcIPv6 g"] by (subst getn_append) simp_all
  have d0: "frag6_bytes g dst pkt f = (?h0 @ ucTcIPv6 g) @ dst @ [IPINIP, 0] @ be16 ?o @ frag_id pkt @ ?pay"
    by (simp only: b append_assoc)
  have d: "getn (frag6_bytes g dst pkt f) 24 16 = Some dst"
    unfolding d0 using l assms(1,2) getn_prefix [of dst] by (subst getn_append) simp_all
  have e: "frag6_bytes g dst pkt f = (?h0 @ ucTcIPv6 g @ dst @ [IPINIP, 0] @ be16 ?o) @ frag_id pkt @ ?pay"
    by (simp only: b append_assoc)
  have i: "getn (frag6_bytes g dst pkt f) 44 4 = Some (frag_id pkt)"
    unfolding e using l assms(1,2) getn_prefix [of "frag_id pkt" ?pay] by (subst getn_append) simp_all
  show "createfragkey (frag6_bytes g dst pkt f) = Some (frag6_key g dst pkt)"
    by (simp add: createfragkey_def s d i frag6_key_def)
  show "get16 (frag6_bytes g dst pkt f) 4 = Some (word_of_nat (snd f + 8))"
    unfolding b by (simp add: get16_def be16_def)
  have h: "frag6_bytes g dst pkt f = (?h0 @ ucTcIPv6 g @ dst @ [IPINIP, 0]) @ be16 ?o @ frag_id pkt @ ?pay"
    by (simp only: b append_assoc)
  show "get16 (frag6_bytes g dst pkt f) 42 =
      Some (if fst f + snd f < length pkt then word_of_nat (fst f) OR 1 else word_of_nat (fst f))"
    unfolding h using l assms(1,2) by (subst get16_append) (simp_all add: add.commute)
  have f: "frag6_bytes g dst pkt f = (?h0 @ ucTcIPv6 g @ dst @ [IPINIP, 0] @ be16 ?o @ frag_id pkt) @ ?pay"
    by (simp only: b append_assoc)
  show "getn (frag6_bytes g dst pkt f) 48 (snd f) = Some ?pay"
    unfolding f using l assms(1,2) by (subst getn_append) (simp_all add: getn_whole)
qed

lemma frag6_fragmented:
  assumes "plan_from cap (length (skb_data skb)) 0 fs" "length (ucTcIPv6 g) = 16" "length dst = 16"
    "0 < length (skb_data skb)" "length (skb_data skb) < 2 ^ 16 - 8" "length fs \<le> 1144"
  shows "fragmented (frag6_key g dst (skb_data skb)) (skb_data skb) (frag6_cb g dst mac skb) fs cap"
    "\<And>f. f \<in> set fs \<Longrightarrow>
      frag_cb (received mac (fresh_skb (h_dest skb) ETH_P_IPV6 (frag6_bytes g dst (skb_data skb) f))) =
        Some (frag6_cb g dst mac skb f)"
proof -
  have p: "fst f + snd f \<le> length (skb_data skb) \<and> even (fst f)" if "f \<in> set fs" for f
    using plan_from_mem [OF assms(1), of "fst f" "snd f"] that by (auto elim: dvdE)
  show "fragmented (frag6_key g dst (skb_data skb)) (skb_data skb) (frag6_cb g dst mac skb) fs cap"
    using assms p frag6_fields [OF assms(2,3)]
    by (auto simp: fragmented_def frag_of_def Let_def frag6_cb_def fresh_skb_def received_def)
  show "frag_cb (received mac (fresh_skb (h_dest skb) ETH_P_IPV6 (frag6_bytes g dst (skb_data skb) f))) =
        Some (frag6_cb g dst mac skb f)"
    if "f \<in> set fs" for f
    using frag6_bytes_read(4) [OF assms(2,3) _ _ assms(5), of f] p [OF that]
    by (simp add: frag_cb_def frag6_cb_def fresh_skb_def received_def)
qed

end
