(* ===== verification/Packet.thy ===== *)
theory Packet
  imports Mss Defrag
begin

text \<open>
  The path of a packet through the kernel module: the filter, the two directions and the frames
  sent (\<open>src/packet.c\<close>), the netfilter hook (\<open>src/modules.c\<close>) and the link addresses of a frame
  (\<open>src/mac.c\<close>).
\<close>

section \<open>State and surroundings\<close>

text \<open>
  \<open>xmits\<close> holds the buffers handed to \<open>SENDSKB\<close>, oldest first.
\<close>

record tcstate =
  kst :: kstate
  frg :: fragstate
  xmits :: "skbuff list"

text \<open>
  What the surroundings answer while one packet is handled: the allocations (those of a fragment's
  control block, those for messages and buffers to send), whether a paged buffer can be made linear, the
  kernel's header checksum, and the value an uninitialised \<open>usPort\<close> happens to have.
\<close>

record env =
  mem_ok :: "nat \<Rightarrow> bool"
  mem_msg :: bool
  mem_send :: "nat \<Rightarrow> bool"
  linear_ok :: bool
  csum :: "u8 list \<Rightarrow> u8 list"
  junk_port :: u16

section \<open>Filters\<close>

definition IP_DF :: u16 where "IP_DF = 0x4000"

text \<open>
  The message is built from the packet, but what is sent are the packet's own bytes, as many as the
  message has: its two fields, three bytes of padding and at most 28 bytes.
\<close>

definition IPv4LenCheck :: "env \<Rightarrow> kstate \<Rightarrow> u8 list \<Rightarrow> (kstate \<times> int) option" where
  "IPv4LenCheck e s pkt =
     do { frag_off \<leftarrow> get16 pkt 6;
          if frag_off AND IP_DF \<noteq> 0 \<and> length pkt + 40 > unat (usMtu (GlobalCtx s))
          then if mem_msg e
               then do { msg \<leftarrow> getn pkt 0 (11 + min 28 (length pkt));
                         Some (send_async_nlmsg (RawMsg msg) s, -1) }
               else Some (s, -1)
          else Some (s, 1) }"

definition IPFilter :: "GLOBAL_CTX \<Rightarrow> u8 list \<Rightarrow> u16 \<Rightarrow> int option" where
  "IPFilter g pkt protocol =
     (if protocol = ETH_P_IPV6
      then do { saddr \<leftarrow> getn pkt 8 16;
                Some (if saddr = ucTcIPv6 g then -1 else 1) }
      else if protocol = ETH_P_IP
      then do { daddr \<leftarrow> get32 pkt 16;
                if uiExtBeginIP g \<le> daddr \<and> daddr \<le> uiExtEndIP g then Some 1
                else do { saddr \<leftarrow> get32 pkt 12;
                          if uiExtBeginIP g \<le> saddr \<and> saddr \<le> uiExtEndIP g then Some (-1)
                          else Some (-1) } }
      else Some (-1))"

definition IsCrashIPinPool :: "GLOBAL_CTX \<Rightarrow> u32 \<Rightarrow> bool" where
  "IsCrashIPinPool g extip \<longleftrightarrow> uiOtherExtBeginIP g \<le> extip \<and> extip \<le> uiOtherExtEndIP g"

definition ICMP_ECHOREPLY :: u8 where "ICMP_ECHOREPLY = 0"
definition ICMP_ECHO :: u8 where "ICMP_ECHO = 8"
definition ICMP_ERR_UNREACHABLE :: u8 where "ICMP_ERR_UNREACHABLE = 3"
definition ICMP_ERR_TIME_EXCEEDED :: u8 where "ICMP_ERR_TIME_EXCEEDED = 11"
definition ICMP_ERR_BADPARAMETER :: u8 where "ICMP_ERR_BADPARAMETER = 12"
definition IPPROTO_ICMP :: u8 where "IPPROTO_ICMP = 1"
definition IPPROTO_TCP :: u8 where "IPPROTO_TCP = 6"
definition IPPROTO_UDP :: u8 where "IPPROTO_UDP = 17"

text \<open>
  The ICMP header lies at offset \<open>icmp\<close>, the packet that caused the error 8 bytes behind it.
\<close>

definition FilterIcmpErrOuter :: "u8 list \<Rightarrow> nat \<Rightarrow> nat \<Rightarrow> int option" where
  "FilterIcmpErrOuter pkt icmp len =
     do { type \<leftarrow> get8 pkt icmp;
          if type \<noteq> ICMP_ERR_UNREACHABLE \<and> type \<noteq> ICMP_ERR_TIME_EXCEEDED \<and> type \<noteq> ICMP_ERR_BADPARAMETER
          then Some (-1)
          else do {
            vi \<leftarrow> get8 pkt (icmp + 8);
            if vi AND 0x0f < 5 \<or> drop_bit 4 vi \<noteq> 4 then Some (-1)
            else do {
              iph \<leftarrow> getn pkt (icmp + 8) 20;
              if in_cksum iph \<noteq> 0 then Some (-1)
              else do {
                frag_off \<leftarrow> get16 iph 6;
                if frag_off AND 0x2000 \<noteq> 0 \<or> frag_off AND 0x001f \<noteq> 0 then Some (-1)
                else do {
                  msg \<leftarrow> getn pkt icmp len;
                  Some (if in_cksum msg \<noteq> 0 then -1 else 1) } } } } }"

text \<open>The out parameters \<open>port\<close> and \<open>extip\<close> are passed with the values they have.\<close>

definition OuterICMPErr_get :: "u8 list \<Rightarrow> nat \<Rightarrow> u16 \<Rightarrow> u32 \<Rightarrow> (int \<times> u16 \<times> u32) option" where
  "OuterICMPErr_get pkt icmp port extip =
     do { type \<leftarrow> get8 pkt icmp;
          if type = ICMP_ECHOREPLY \<or> type = ICMP_ECHO then Some (-1, port, extip)
          else do {
            let iph = icmp + 8;
            extip \<leftarrow> get32 pkt (iph + 12);
            protocol \<leftarrow> get8 pkt (iph + 9);
            if protocol = IPPROTO_TCP \<or> protocol = IPPROTO_UDP
            then do { port \<leftarrow> get16 pkt (iph + 20); Some (1, port, extip) }
            else if protocol = IPPROTO_ICMP
            then do { port \<leftarrow> get16 pkt (iph + 24); Some (1, port, extip) }
            else Some (1, port, extip) } }"

definition FetchIPAndPort_skbuf :: "u8 list \<Rightarrow> u16 \<Rightarrow> (u32 \<times> u16) option" where
  "FetchIPAndPort_skbuf pkt usport =
     do { uiaddr \<leftarrow> get32 pkt 16;
          protocol \<leftarrow> get8 pkt 9;
          if protocol = IPPROTO_TCP \<or> protocol = IPPROTO_UDP
          then do { usport \<leftarrow> get16 pkt 22; Some (uiaddr, usport) }
          else if protocol = IPPROTO_ICMP
          then do {
            r \<leftarrow> FilterIcmpErrOuter pkt 20 (length pkt - 20);
            (r, usport, uiaddr) \<leftarrow>
              (if r > 0 then OuterICMPErr_get pkt 20 usport uiaddr else Some (-1, usport, uiaddr));
            if r > 0 then Some (uiaddr, usport)
            else do { usport \<leftarrow> get16 pkt 24; Some (uiaddr, usport) } }
          else Some (uiaddr, usport) }"

definition FetchIPv6_skbuf :: "u8 list \<Rightarrow> u8 list option" where
  "FetchIPv6_skbuf pkt = getn pkt 8 16"

section \<open>Buffers\<close>

text \<open>The payload is moved over the IPv6 header, and the buffer loses 40 bytes at its end.\<close>

definition HandleIPinIP_skbuf :: "skbuff \<Rightarrow> skbuff option" where
  "HandleIPinIP_skbuf skb =
     do { let pkt = skb_data skb;
          payload_len \<leftarrow> get16 pkt 4;
          moved \<leftarrow> getn pkt 40 (unat payload_len);
          Some (skb\<lparr>h_proto := ETH_P_IP,
                    skb_data := take (length pkt - 40) (moved @ drop (unat payload_len) pkt)\<rparr>) }"

text \<open>\<open>SkbufMacSet\<close> sets the source address of the new frame.\<close>

definition SkbufMacSet :: "skbuff \<Rightarrow> u8 list \<Rightarrow> skbuff" where
  "SkbufMacSet skb mac = skb\<lparr>h_source := mac\<rparr>"

definition SendSkbuf :: "bool \<Rightarrow> skbuff \<Rightarrow> u16 \<Rightarrow> skbuff list \<times> int" where
  "SendSkbuf mem skb protocol =
     (if \<not> mem then ([], -1)
      else let new_skb_buf = \<lparr>h_dest = replicate 6 0, h_source = replicate 6 0, h_proto = protocol,
                              skb_data = skb_data skb, skb_nonlinear = False\<rparr>
           in ([SkbufMacSet new_skb_buf (h_dest skb)], 1))"

definition CreateIPinIP_skbuf :: "bool \<Rightarrow> GLOBAL_CTX \<Rightarrow> skbuff \<Rightarrow> u8 list \<Rightarrow> (skbuff list \<times> int) option" where
  "CreateIPinIP_skbuf mem g skb ipv6address =
     (let pkt = skb_data skb; usPayload = word_of_nat (length pkt) :: u16 in
      if \<not> mem then Some ([], -1)
      else if length pkt > unat usPayload then None
      else (case fragsk_bufalloc mem (h_dest skb) ETH_P_IPV6
                   (ipv6_header usPayload IPINIP (ucTcIPv6 g) ipv6address @ pkt) of
              None \<Rightarrow> Some ([], -1)
            | Some newskbbuff \<Rightarrow> Some ([newskbbuff], 1)))"

section \<open>The two directions\<close>

definition sent :: "skbuff list \<Rightarrow> tcstate \<Rightarrow> tcstate" where
  "sent out st = st\<lparr>xmits := xmits st @ out\<rparr>"

text \<open>A packet in an IPv6 tunnel: it is unpacked for a subscriber, and reported when it claims an
  address of the other pool.\<close>

definition handle_ipinip :: "env \<Rightarrow> tcstate \<Rightarrow> skbuff \<Rightarrow> (tcstate \<times> int) option" where
  "handle_ipinip e st skb =
     do { let g = GlobalCtx (kst st);
          src \<leftarrow> FetchIPv6_skbuf (skb_data skb);
          t \<leftarrow> LookupTunnel_v6 (kst st) (KEY_V6 src);
          (case t of
             Some _ \<Rightarrow>
               do { skb \<leftarrow> HandleIPinIP_skbuf skb;
                    pkt \<leftarrow> patch_tcpmss g (skb_data skb) (length (skb_data skb));
                    let (out, _) = SendSkbuf (mem_send e 0) (skb\<lparr>skb_data := pkt\<rparr>) ETH_P_IP;
                    Some (sent out st, -1) }
           | None \<Rightarrow>
               do { saddr \<leftarrow> get32 (skb_data skb) 52;
                    if IsCrashIPinPool g saddr \<and> mem_msg e
                    then Some (st\<lparr>kst := send_async_nlmsg (ConstructCrashPktMsg (skb_data skb)) (kst st)\<rparr>, -1)
                    else Some (st, -1) }) }"

text \<open>A fragment: it is copied and noted for a subscriber, and dropped for anybody else.\<close>

definition handle_fragment :: "env \<Rightarrow> tcstate \<Rightarrow> skbuff \<Rightarrow> (tcstate \<times> int) option" where
  "handle_fragment e st skb =
     do { let g = GlobalCtx (kst st);
          isfrag \<leftarrow> IsFragIPinIP (skb_data skb);
          if isfrag = 0 then Some (st, 1)
          else do {
            src \<leftarrow> FetchIPv6_skbuf (skb_data skb);
            t \<leftarrow> LookupTunnel_v6 (kst st) (KEY_V6 src);
            (case t of
               None \<Rightarrow> Some (st, -1)
             | Some _ \<Rightarrow>
                 do { pfragcb \<leftarrow> frag_cb (skb\<lparr>skb_nonlinear := False\<rparr>);
                      if \<not> mem_ok e 0 then Some (st, -1)
                      else if \<not> mem_ok e 1 then Some (st, -1)
                      else do {
                        (fs, out) \<leftarrow> frag_arrive (csum e) (\<lambda>i. mem_ok e (i + 2)) (mem_send e) g (frg st) pfragcb;
                        Some (sent out (st\<lparr>frg := fs\<rparr>), -1) } }) } }"

definition HandleIPv6_skbuf :: "env \<Rightarrow> tcstate \<Rightarrow> skbuff \<Rightarrow> (tcstate \<times> int) option" where
  "HandleIPv6_skbuf e st skb =
     do { nexthdr \<leftarrow> get8 (skb_data skb) 6;
          if nexthdr = IPINIP then handle_ipinip e st skb
          else if nexthdr = NEXTHDR_FRAGMENT then handle_fragment e st skb
          else Some (st, 0) }"

definition HandleIPv4_skbuf :: "env \<Rightarrow> tcstate \<Rightarrow> skbuff \<Rightarrow> (tcstate \<times> int) option" where
  "HandleIPv4_skbuf e st skb =
     do { let g = GlobalCtx (kst st);
          (k, r) \<leftarrow> IPv4LenCheck e (kst st) (skb_data skb);
          let st = st\<lparr>kst := k\<rparr>;
          if r < 0 then Some (st, -1)
          else do {
            (extip, port) \<leftarrow> FetchIPAndPort_skbuf (skb_data skb) (junk_port e);
            port \<leftarrow> getstartport g port;
            t \<leftarrow> LookupTunnel_v4 (kst st) (KEY_V4 extip port);
            (case t of
               None \<Rightarrow> Some (st, 1)
             | Some p \<Rightarrow>
                 do { ctx \<leftarrow> tun_mem (kst st) p;
                      let dstipv6 = ucCltIPv6 ctx;
                      pkt \<leftarrow> patch_tcpmss g (skb_data skb) (length (skb_data skb));
                      let skb = skb\<lparr>skb_data := pkt\<rparr>;
                      (out, r) \<leftarrow>
                        (if skb_nonlinear skb then IPv4FragandIPinIPExtend (linear_ok e) (mem_send e) g skb dstipv6
                         else if length pkt + 40 > unat (usMtu g) then IPv4FragandIPinIP (mem_send e) g skb dstipv6
                         else CreateIPinIP_skbuf (mem_send e 0) g skb dstipv6);
                      Some (sent out st, r) }) } }"

definition Handle_skbuf :: "env \<Rightarrow> tcstate \<Rightarrow> skbuff \<Rightarrow> (tcstate \<times> int) option" where
  "Handle_skbuf e st skb =
     do { r \<leftarrow> IPFilter (GlobalCtx (kst st)) (skb_data skb) (h_proto skb);
          if r < 0 then Some (st, 0)
          else if h_proto skb = ETH_P_IPV6 then HandleIPv6_skbuf e st skb
          else if h_proto skb = ETH_P_IP then HandleIPv4_skbuf e st skb
          else Some (st, 1) }"

datatype verdict = NF_DROP | NF_ACCEPT

definition stream_hook :: "env \<Rightarrow> tcstate \<Rightarrow> skbuff \<Rightarrow> (tcstate \<times> verdict) option" where
  "stream_hook e st skb =
     (if uiTunState (GlobalCtx (kst st)) \<noteq> 0
      then do { (st, iRet) \<leftarrow> Handle_skbuf e st skb;
                Some (st, if iRet = 1 \<or> iRet = -1 then NF_DROP else NF_ACCEPT) }
      else Some (st, NF_ACCEPT))"

section \<open>The frame on the wire\<close>

text \<open>
  The kernel's routing tables are parameters: for a destination, the neighbour's address and the
  outgoing device's own, or nothing.
\<close>

type_synonym route = "u8 list \<Rightarrow> (u8 list \<times> u8 list) option"

definition lookup_ipv6_dest_mac :: "route \<Rightarrow> skbuff \<Rightarrow> (u8 list \<times> u8 list) option option" where
  "lookup_ipv6_dest_mac ip6_route_output skb =
     do { daddr \<leftarrow> getn (skb_data skb) 24 16; Some (ip6_route_output daddr) }"

definition lookup_ipv4_dest_mac :: "route \<Rightarrow> skbuff \<Rightarrow> (u8 list \<times> u8 list) option option" where
  "lookup_ipv4_dest_mac ip_route_output_key skb =
     do { daddr \<leftarrow> getn (skb_data skb) 16 4; Some (ip_route_output_key daddr) }"

definition set_dest_mac :: "skbuff \<Rightarrow> u8 list \<Rightarrow> skbuff" where
  "set_dest_mac skb mac = skb\<lparr>h_dest := mac\<rparr>"

definition set_source_mac :: "skbuff \<Rightarrow> u8 list \<Rightarrow> skbuff" where
  "set_source_mac skb mac = skb\<lparr>h_source := mac\<rparr>"

definition Dev_queue_xmit :: "route \<Rightarrow> route \<Rightarrow> skbuff \<Rightarrow> skbuff list option" where
  "Dev_queue_xmit route6 route4 skb =
     do { dest \<leftarrow> (if h_proto skb = ETH_P_IPV6 then lookup_ipv6_dest_mac route6 skb
                   else if h_proto skb = ETH_P_IP then lookup_ipv4_dest_mac route4 skb
                   else Some None);
          (case dest of
             None \<Rightarrow> Some []
           | Some (dest_mac, dev_addr) \<Rightarrow> Some [set_source_mac (set_dest_mac skb dest_mac) dev_addr]) }"

section \<open>Start and stop\<close>

text \<open>
  \<open>None\<close> is a start that fails: without storage the function returns -1, without a fragment table
  it goes on with a \<open>pshashcb\<close> that is \<open>NULL\<close>, which the first fragment dereferences.
\<close>

definition modules_init :: "(nat \<Rightarrow> bool) \<Rightarrow> u8 list \<Rightarrow> tcstate option" where
  "modules_init mem buf =
     do { c \<leftarrow> InitStorage (mem 0);
          frag \<leftarrow> initfragmodule (\<lambda>i. mem (i + 1)) buf;
          Some \<lparr>kst = \<lparr>tun_mem = Map.empty, pStroageCtx = c,
                        GlobalCtx = \<lparr>uiVersion = 0, StorageTimer = None, ucTcIPv6 = replicate 16 0, usMtu = 0,
                          uiExtBeginIP = 0, uiExtEndIP = 0, uiTunState = 0, usPortRange = 0,
                          uiOtherExtBeginIP = 0, uiOtherExtEndIP = 0, uiMaxLifeTime = 0\<rparr>,
                        nl_sent = []\<rparr>,
                frg = frag, xmits = []\<rparr> }"

definition modules_uninit :: "tcstate \<Rightarrow> tcstate option" where
  "modules_uninit st =
     do { let st = st\<lparr>frg := (frg st)\<lparr>pshashtable := ShashDestory (pshashtable (frg st))\<rparr>\<rparr>;
          k \<leftarrow> DestroyStorage (kst st);
          Some (st\<lparr>kst := k\<rparr>) }"

end
