(* ===== verification/CpeSession.thy ===== *)
theory CpeSession
  imports DbKeyHash CpePorts Packet
begin

text \<open>
  The sessions of the customer's box: their record and keys (\<open>TI/openwrt_cpe/src/packet.h\<close>), the
  comparison of a key with a session (\<open>pktup.c\<close>), connection tracking (\<open>packet.c\<close>) and the timer that
  ages sessions (\<open>timerproc.c\<close>).  The session table is the double-key hash table of \<open>DbKeyHash\<close>; a
  session is an object of the heap, reached from both of its nodes, so that tracking it through one key
  is seen through the other.
\<close>

section \<open>Sessions\<close>

text \<open>The states of a TCP connection, by the names the transition table gives them.\<close>

datatype tcp_conntrack = sNO | sES | sSS | sSR | sFW | sTW | sCL | sCW | sLA | sLI | sIV

fun ct_number :: "tcp_conntrack \<Rightarrow> nat" where
  "ct_number sNO = 0" | "ct_number sES = 1" | "ct_number sSS = 2" | "ct_number sSR = 3" | "ct_number sFW = 4"
| "ct_number sTW = 5" | "ct_number sCL = 6" | "ct_number sCW = 7" | "ct_number sLA = 8" | "ct_number sLI = 9"
| "ct_number sIV = 10"

definition tcp_timeouts :: "int list" where
  "tcp_timeouts = [30 * 60, 8 * 60, 2 * 60, 60, 2 * 60, 2 * 60, 10, 60, 30, 2 * 60]"

definition UDP_TIMEOUT :: int where "UDP_TIMEOUT = 30"
definition UDP_STREAM_TIMEOUT :: int where "UDP_STREAM_TIMEOUT = 180"
definition ICMP_TIMEOUT :: int where "ICMP_TIMEOUT = 30"

definition IP_CT_DIR_ORIGINAL :: nat where "IP_CT_DIR_ORIGINAL = 0"
definition IP_CT_DIR_REPLY :: nat where "IP_CT_DIR_REPLY = 1"

text \<open>Direction, then kind of segment (syn, fin, ack, rst, none), then old state.\<close>

definition tcp_conntracks :: "tcp_conntrack list list list" where
  "tcp_conntracks =
     [[[sSS, sES, sSS, sSR, sSS, sSS, sSS, sSS, sSS, sLI],
       [sTW, sFW, sSS, sTW, sFW, sTW, sCL, sTW, sLA, sLI],
       [sES, sES, sSS, sES, sFW, sTW, sCL, sCW, sLA, sES],
       [sCL, sCL, sSS, sCL, sCL, sTW, sCL, sCL, sCL, sCL],
       [sIV, sIV, sIV, sIV, sIV, sIV, sIV, sIV, sIV, sIV]],
      [[sSR, sES, sSR, sSR, sSR, sSR, sSR, sSR, sSR, sSR],
       [sCL, sCW, sSS, sTW, sTW, sTW, sCL, sCW, sLA, sLI],
       [sCL, sES, sSS, sSR, sFW, sTW, sCL, sCW, sCL, sLI],
       [sCL, sCL, sCL, sCL, sCL, sCL, sCL, sCL, sLA, sLI],
       [sIV, sIV, sIV, sIV, sIV, sIV, sIV, sIV, sIV, sIV]]]"

definition IPS_SEEN_REPLY :: u8 where "IPS_SEEN_REPLY = 2"
definition IPS_ASSURED :: u8 where "IPS_ASSURED = 4"

text \<open>The fields of \<open>TCP_CB\<close> are part of the record.  \<open>icmp_seq\<close> is a \<open>short\<close>.\<close>

record SESSIONTUPLES =
  srcip :: u32
  dstip :: u32
  oldport :: u16
  newport :: u16
  prot :: u8
  icmp_seq :: u16
  tcp_state :: tcp_conntrack
  handshake_ack :: u32
  con_status :: u8
  time_out :: int

record HASH_DATA_UP =
  up_srcip :: u32
  up_dstip :: u32
  up_oldport :: u16
  up_proto :: u8

record HASH_DATA_DOWN =
  down_dstip :: u32
  down_newport :: u16
  down_proto :: u8

datatype hash_key = Up HASH_DATA_UP | Down HASH_DATA_DOWN

text \<open>The packed images of the keys in memory, and the hash of the table.\<close>

fun key_image :: "hash_key \<Rightarrow> u8 list" where
  "key_image (Up k) = le32 (up_srcip k) @ le32 (up_dstip k) @ le16 (up_oldport k) @ [up_proto k]"
| "key_image (Down k) = le32 (down_dstip k) @ le16 (down_newport k) @ [down_proto k]"

definition nat_hash :: "hash_key \<Rightarrow> nat" where
  "nat_hash k = unat (APHash (key_image k))"

definition MAX_ENTRY :: nat where "MAX_ENTRY = 1024"
definition PKT_UP :: nat where "PKT_UP = 0"
definition PKT_DOWN :: nat where "PKT_DOWN = 1"

text \<open>The NAT's memory: the lease with its port maps, and the sessions, by their addresses.\<close>

record natmem =
  laft :: LAFT_NAT_INFO
  tuples :: "nat \<Rightarrow> SESSIONTUPLES option"
  next_tuple :: nat

text \<open>A dead session, or a key of the other kind, is an access to memory the code does not own.\<close>

definition compare_session :: "hash_key \<Rightarrow> nat \<Rightarrow> nat \<Rightarrow> natmem \<Rightarrow> int option" where
  "compare_session pKey d type m =
     (case tuples m d of
        None \<Rightarrow> None
      | Some s \<Rightarrow>
          (if type = PKT_UP
           then (case pKey of
                   Up p \<Rightarrow> Some (if up_proto p = prot s \<and> up_srcip p = srcip s \<and> up_dstip p = dstip s
                                   \<and> up_oldport p = oldport s then 1 else 0)
                 | Down _ \<Rightarrow> None)
           else if type = PKT_DOWN
           then (case pKey of
                   Down q \<Rightarrow> Some (if down_proto q = prot s \<and> down_dstip q = dstip s
                                     \<and> down_newport q = newport s then 1 else 0)
                 | Up _ \<Rightarrow> None)
           else Some (-1)))"

section \<open>Disposal and ageing\<close>

definition setportbit :: "SESSIONTUPLES \<Rightarrow> LAFT_NAT_INFO \<Rightarrow> LAFT_NAT_INFO option" where
  "setportbit s l =
     (if prot s = 0x06 then reset_tcp_port (newport s) l
      else if prot s = 0x11 then reset_udp_port (newport s) l
      else Some l)"

definition DataDel :: "nat \<Rightarrow> natmem \<Rightarrow> natmem option" where
  "DataDel d m =
     do { s \<leftarrow> tuples m d;
          l \<leftarrow> setportbit s (laft m);
          Some (m\<lparr>laft := l, tuples := (tuples m)(d := None)\<rparr>) }"

definition MINI_TIMER_VALUE :: int where "MINI_TIMER_VALUE = 5"

definition sessiondatproc :: "nat \<Rightarrow> natmem \<Rightarrow> (natmem \<times> int) option" where
  "sessiondatproc d m =
     do { s \<leftarrow> tuples m d;
          if time_out s > 0
          then (let t = time_out s - MINI_TIMER_VALUE;
                    m = m\<lparr>tuples := (tuples m)(d \<mapsto> s\<lparr>time_out := t\<rparr>)\<rparr>
                in Some (m, if t \<le> 0 then -1 else 1))
          else Some (m, 1) }"

definition sessiontmrhandle :: "dbtable \<Rightarrow> natmem \<Rightarrow> (dbtable \<times> natmem) option" where
  "sessiontmrhandle T m = sweep_from sessiondatproc DataDel (length (Bucket T)) T 0 m"

section \<open>Tracking\<close>

definition TH_FIN :: u8 where "TH_FIN = 0x01"
definition TH_SYN :: u8 where "TH_SYN = 0x02"
definition TH_RST :: u8 where "TH_RST = 0x04"
definition TH_ACK :: u8 where "TH_ACK = 0x10"

definition flag :: "u8 \<Rightarrow> u8 \<Rightarrow> bool" where "flag flags f \<longleftrightarrow> flags AND f \<noteq> 0"

definition get_conntrack_index :: "u8 \<Rightarrow> nat" where
  "get_conntrack_index flags =
     (if flag flags TH_RST then 3 else if flag flags TH_SYN then 0 else if flag flags TH_FIN then 1
      else if flag flags TH_ACK then 2 else 4)"

text \<open>Changing the session at an address.\<close>

definition upd_tuple :: "nat \<Rightarrow> (SESSIONTUPLES \<Rightarrow> SESSIONTUPLES) \<Rightarrow> natmem \<Rightarrow> natmem" where
  "upd_tuple d f m = m\<lparr>tuples := (tuples m)(d := map_option f (tuples m d))\<rparr>"

definition refreshtimer :: "nat \<Rightarrow> int \<Rightarrow> natmem \<Rightarrow> natmem" where
  "refreshtimer d timer m = upd_tuple d (\<lambda>s. s\<lparr>time_out := timer\<rparr>) m"

definition up_key :: "SESSIONTUPLES \<Rightarrow> hash_key" where
  "up_key s = Up \<lparr>up_srcip = srcip s, up_dstip = dstip s, up_oldport = oldport s, up_proto = prot s\<rparr>"

definition down_key :: "SESSIONTUPLES \<Rightarrow> hash_key" where
  "down_key s = Down \<lparr>down_dstip = dstip s, down_newport = newport s, down_proto = prot s\<rparr>"

definition sessiondel :: "dbtable \<Rightarrow> SESSIONTUPLES \<Rightarrow> nat \<Rightarrow> natmem \<Rightarrow> (dbtable \<times> natmem) option" where
  "sessiondel T s type m =
     (if type = PKT_DOWN then DBKeyHashTableDelete nat_hash compare_session DataDel T (down_key s) type m
      else if type = PKT_UP then DBKeyHashTableDelete nat_hash compare_session DataDel T (up_key s) type m
      else Some (T, m))"

text \<open>\<open>htonl\<close> of the little-endian processor.\<close>

definition htonl :: "u32 \<Rightarrow> u32" where
  "htonl x = word_cat (word_cat (ucast x :: u8) (ucast (drop_bit 8 x) :: u8) :: u16)
                      (word_cat (ucast (drop_bit 16 x) :: u8) (ucast (drop_bit 24 x) :: u8) :: u16)"

text \<open>
  The TCP header is taken to follow 20 bytes of IP header.  The last condition for an assured connection
  compares the acknowledgement flag, one bit, with the acknowledgement number that is expected.
\<close>

definition tcp_pkt_track :: "u8 list \<Rightarrow> nat \<Rightarrow> nat \<Rightarrow> dbtable \<times> natmem \<Rightarrow> ((dbtable \<times> natmem) \<times> int) option" where
  "tcp_pkt_track skb d maniptype = (\<lambda>(T, m).
     do { s \<leftarrow> tuples m d;
          flags \<leftarrow> get8 skb 33;
          let newconntrack = tcp_conntracks ! maniptype ! get_conntrack_index flags ! ct_number (tcp_state s);
          if newconntrack = sIV then Some ((T, m), -1)
          else do {
            let m = upd_tuple d (\<lambda>s. s\<lparr>tcp_state := newconntrack\<rparr>) m;
            m \<leftarrow> (if tcp_state s = sSS \<and> maniptype = IP_CT_DIR_REPLY \<and> flag flags TH_SYN \<and> flag flags TH_ACK
                  then do { seq \<leftarrow> get32 skb 24; Some (upd_tuple d (\<lambda>s. s\<lparr>handshake_ack := htonl (seq + 1)\<rparr>) m) }
                  else Some m);
            s' \<leftarrow> tuples m d;
            if con_status s' AND IPS_SEEN_REPLY = 0 \<and> flag flags TH_RST
            then do { l \<leftarrow> setportbit s' (laft m);
                      (T, m) \<leftarrow> sessiondel T s' PKT_UP (m\<lparr>laft := l\<rparr>);
                      Some ((T, m), 1) }
            else (let m = (if tcp_state s = sSR \<and> maniptype = IP_CT_DIR_ORIGINAL \<and> flag flags TH_ACK
                              \<and> \<not> flag flags TH_SYN \<and> (if flag flags TH_ACK then 1 else 0) = handshake_ack s'
                           then upd_tuple d (\<lambda>s. s\<lparr>con_status := con_status s OR IPS_ASSURED\<rparr>) m else m)
                  in Some ((T, refreshtimer d (tcp_timeouts ! ct_number newconntrack) m), 1)) } })"

definition udp_pkt_track :: "nat \<Rightarrow> natmem \<Rightarrow> natmem option" where
  "udp_pkt_track d m =
     do { s \<leftarrow> tuples m d;
          Some (if con_status s AND IPS_SEEN_REPLY \<noteq> 0
                then upd_tuple d (\<lambda>s. s\<lparr>con_status := con_status s OR IPS_ASSURED\<rparr>)
                       (refreshtimer d UDP_STREAM_TIMEOUT m)
                else refreshtimer d UDP_TIMEOUT m) }"

definition icmp_pkt_track :: "nat \<Rightarrow> nat \<Rightarrow> dbtable \<times> natmem \<Rightarrow> (dbtable \<times> natmem) option" where
  "icmp_pkt_track d maniptype = (\<lambda>(T, m).
     do { s \<leftarrow> tuples m d;
          if maniptype = IP_CT_DIR_REPLY
          then (let s' = s\<lparr>icmp_seq := icmp_seq s - 1\<rparr>;
                    m = upd_tuple d (\<lambda>_. s') m
                in if sint (icmp_seq s') \<le> 0 then sessiondel T s' PKT_DOWN m else Some (T, m))
          else Some (T, refreshtimer d ICMP_TIMEOUT (upd_tuple d (\<lambda>s. s\<lparr>icmp_seq := icmp_seq s + 1\<rparr>) m)) })"

section \<open>The state of the NAT\<close>

text \<open>What identifies a session: its key towards the Internet and its port in the block.\<close>

definition flow :: "SESSIONTUPLES \<Rightarrow> HASH_DATA_UP \<times> u16" where
  "flow s = (\<lparr>up_srcip = srcip s, up_dstip = dstip s, up_oldport = oldport s, up_proto = prot s\<rparr>, newport s)"

definition flows :: "natmem \<Rightarrow> nat \<Rightarrow> (HASH_DATA_UP \<times> u16) option" where
  "flows m d = map_option flow (tuples m d)"

definition down_of :: "HASH_DATA_UP \<times> u16 \<Rightarrow> HASH_DATA_DOWN" where
  "down_of f = \<lparr>down_dstip = up_dstip (fst f), down_newport = snd f, down_proto = up_proto (fst f)\<rparr>"

lemma keys_of_flow: "up_key s = Up (fst (flow s))" "down_key s = Down (down_of (flow s))"
  by (simp_all add: up_key_def down_key_def flow_def down_of_def)

definition block :: "LAFT_NAT_INFO \<Rightarrow> nat" where
  "block L = unat (HighPort L) - unat (LowPort L) + 1"

text \<open>A block is not the whole range of ports: its counter could not hold 65536.\<close>

definition lease_ok :: "LAFT_NAT_INFO \<Rightarrow> bool" where
  "lease_ok L \<longleftrightarrow> LowPort L \<le> HighPort L \<and> block L < 65536 \<and> map_for (tcpport L) (block L) \<and> map_for (udpport L) (block L)"

text \<open>TCP and UDP take ports; ICMP identifiers are not reserved.\<close>

definition ported :: "u8 \<Rightarrow> bool" where "ported q \<longleftrightarrow> q = 0x06 \<or> q = 0x11"

definition ports_taken :: "LAFT_NAT_INFO \<Rightarrow> u8 \<Rightarrow> nat set" where
  "ports_taken L q = (if q = 0x06 then tcp.taken L else if q = 0x11 then udp.taken L else {})"

definition offset :: "LAFT_NAT_INFO \<Rightarrow> u16 \<Rightarrow> nat" where "offset L p = unat p - unat (LowPort L)"

text \<open>
  The sessions and the lease agree: every TCP and UDP session has a port of the block of its own, the
  taken ports are exactly those, no two sessions have one inner endpoint and destination, and the
  counters are at most (for UDP exactly) the numbers of taken ports.
\<close>

definition flows_ok :: "LAFT_NAT_INFO \<Rightarrow> nat \<Rightarrow> (nat \<Rightarrow> (HASH_DATA_UP \<times> u16) option) \<Rightarrow> bool" where
  "flows_ok L n F \<longleftrightarrow> lease_ok L
     \<and> (\<forall>d f. F d = Some f \<longrightarrow> d < n)
     \<and> (\<forall>d k p. F d = Some (k, p) \<longrightarrow> ported (up_proto k) \<longrightarrow> LowPort L \<le> p \<and> p \<le> HighPort L)
     \<and> (\<forall>q. ported q \<longrightarrow> ports_taken L q = {offset L p | d k p. F d = Some (k, p) \<and> up_proto k = q})
     \<and> (\<forall>d d' k k' p. F d = Some (k, p) \<longrightarrow> F d' = Some (k', p) \<longrightarrow> up_proto k = up_proto k' \<longrightarrow> ported (up_proto k) \<longrightarrow> d = d')
     \<and> (\<forall>d d' k p p'. F d = Some (k, p) \<longrightarrow> F d' = Some (k, p') \<longrightarrow> d = d')
     \<and> unat (tcp_port_used L) \<le> card (tcp.taken L) \<and> unat (udp_port_used L) = card (udp.taken L)"

text \<open>A stored TCP state is never the table's mark for an invalid segment.\<close>

definition states_ok :: "natmem \<Rightarrow> bool" where
  "states_ok m \<longleftrightarrow> (\<forall>d s. tuples m d = Some s \<longrightarrow> tcp_state s \<noteq> sIV)"

definition sessions_ok :: "natmem \<Rightarrow> bool" where
  "sessions_ok m \<longleftrightarrow> flows_ok (laft m) (next_tuple m) (flows m) \<and> states_ok m"

text \<open>The buckets of a session.\<close>

definition home_up :: "natmem \<Rightarrow> nat \<Rightarrow> nat" where
  "home_up m d = (case flows m d of None \<Rightarrow> 0 | Some f \<Rightarrow> nat_hash (Up (fst f)) mod MAX_ENTRY)"

definition home_down :: "natmem \<Rightarrow> nat \<Rightarrow> nat" where
  "home_down m d = (case flows m d of None \<Rightarrow> 0 | Some f \<Rightarrow> nat_hash (Down (down_of f)) mod MAX_ENTRY)"

definition time_left :: "natmem \<Rightarrow> nat \<Rightarrow> int" where
  "time_left m d = (case tuples m d of None \<Rightarrow> 0 | Some s \<Rightarrow> time_out s)"

definition sessions :: "natmem \<Rightarrow> nat set" where "sessions m = dom (tuples m)"

definition nat_inv :: "dbtable \<Rightarrow> natmem \<Rightarrow> bool" where
  "nat_inv T m \<longleftrightarrow> length (Bucket T) = MAX_ENTRY \<and> table_ok (home_up m) (home_down m) (sessions m) T \<and> sessions_ok m"

subsection \<open>Releasing a port\<close>

text \<open>The lease but for the maps and counters.\<close>

definition same_lease :: "LAFT_NAT_INFO \<Rightarrow> LAFT_NAT_INFO \<Rightarrow> bool" where
  "same_lease L L' \<longleftrightarrow> LowPort L' = LowPort L \<and> HighPort L' = HighPort L \<and> PubIP L' = PubIP L
     \<and> IPv6LocalAddr L' = IPv6LocalAddr L \<and> IPv6RemoteAddr L' = IPv6RemoteAddr L"

lemma offset_props:
  assumes "lease_ok L" "LowPort L \<le> p" "p \<le> HighPort L"
  shows "unat (LowPort L) + offset L p = unat p" "offset L p < block L"
  using assms by (auto simp: offset_def block_def word_le_nat_alt)

lemma same_block: "same_lease L L' \<Longrightarrow> block L' = block L" "same_lease L L' \<Longrightarrow> offset L' p = offset L p"
  by (simp_all add: same_lease_def block_def offset_def)

lemma setportbit_ok:
  assumes "lease_ok L" "ported (prot s) \<Longrightarrow> LowPort L \<le> newport s \<and> newport s \<le> HighPort L"
  obtains L' where "setportbit s L = Some L'" "same_lease L L'" "lease_ok L'"
    "\<And>q. ports_taken L' q = (if ported (prot s) \<and> q = prot s then ports_taken L q - {offset L (newport s)} else ports_taken L q)"
    "tcp_port_used L' = (if prot s = 0x06 \<and> tcp_port_used L > 0 then tcp_port_used L - 1 else tcp_port_used L)"
    "udp_port_used L' = (if prot s = 0x11 \<and> udp_port_used L > 0 then udp_port_used L - 1 else udp_port_used L)"
proof -
  have m: "map_for (tcpport L) (block L)" "map_for (udpport L) (block L)" using assms(1) by (auto simp: lease_ok_def)
  consider "prot s = 0x06" | "prot s = 0x11" | "\<not> ported (prot s)" by (auto simp: ported_def)
  then show ?thesis
  proof cases
    case 1
    then have o: "unat (LowPort L) + offset L (newport s) = unat (newport s)" "offset L (newport s) < block L"
      using offset_props [OF assms(1)] assms(2) by (auto simp: ported_def)
    obtain L' where r: "reset_tcp_port (newport s) L = Some L'" "tcp.taken L' = tcp.taken L - {offset L (newport s)}"
      "LowPort L' = LowPort L" "map_for (tcpport L') (block L)"
      "tcp_port_used L' = (if tcp_port_used L > 0 then tcp_port_used L - 1 else tcp_port_used L)"
      "L' = L\<lparr>tcpport := tcpport L', tcp_port_used := tcp_port_used L'\<rparr>"
      by (rule tcp.reset_gives_back [OF m(1) o])
    have f: "HighPort L' = HighPort L" "PubIP L' = PubIP L" "IPv6LocalAddr L' = IPv6LocalAddr L"
      "IPv6RemoteAddr L' = IPv6RemoteAddr L" "udpport L' = udpport L" "udp_port_used L' = udp_port_used L"
      by (subst r(6), simp)+
    show ?thesis
      by (rule that [of L'])
        (use r(1-5) f m 1 assms(1) in \<open>auto simp: setportbit_def same_lease_def lease_ok_def block_def ports_taken_def
          ported_def udp.taken_def\<close>)
  next
    case 2
    then have o: "unat (LowPort L) + offset L (newport s) = unat (newport s)" "offset L (newport s) < block L"
      using offset_props [OF assms(1)] assms(2) by (auto simp: ported_def)
    obtain L' where r: "reset_udp_port (newport s) L = Some L'" "udp.taken L' = udp.taken L - {offset L (newport s)}"
      "LowPort L' = LowPort L" "map_for (udpport L') (block L)"
      "udp_port_used L' = (if udp_port_used L > 0 then udp_port_used L - 1 else udp_port_used L)"
      "L' = L\<lparr>udpport := udpport L', udp_port_used := udp_port_used L'\<rparr>"
      by (rule udp.reset_gives_back [OF m(2) o])
    have f: "HighPort L' = HighPort L" "PubIP L' = PubIP L" "IPv6LocalAddr L' = IPv6LocalAddr L"
      "IPv6RemoteAddr L' = IPv6RemoteAddr L" "tcpport L' = tcpport L" "tcp_port_used L' = tcp_port_used L"
      by (subst r(6), simp)+
    show ?thesis
      by (rule that [of L'])
        (use r(1-5) f m 2 assms(1) in \<open>auto simp: setportbit_def same_lease_def lease_ok_def block_def ports_taken_def
          ported_def tcp.taken_def\<close>)
  next
    case 3
    show ?thesis by (rule that [of L]) (use 3 assms(1) in \<open>auto simp: setportbit_def same_lease_def ported_def\<close>)
  qed
qed

lemma finite_taken: "finite (tcp.taken L)" "finite (udp.taken L)"
proof -
  have "finite {k. port_bit ws k}" for ws
    by (rule finite_subset [of _ "{..<32 * length ws}"]) (auto simp: port_bit_def)
  then have "finite (taken_ports p)" for p by (cases p) (simp_all add: taken_ports_def)
  then show "finite (tcp.taken L)" "finite (udp.taken L)" by (simp_all add: tcp.taken_def udp.taken_def)
qed

lemma flows_okD:
  assumes "flows_ok L n F" "F d = Some (k, p)"
  shows "lease_ok L" "d < n" "ported (up_proto k) \<Longrightarrow> LowPort L \<le> p \<and> p \<le> HighPort L"
    "ported (up_proto k) \<Longrightarrow> offset L p \<in> ports_taken L (up_proto k)"
  using assms unfolding flows_ok_def by blast+

text \<open>Removing a session together with its port keeps the agreement.\<close>

lemma flows_ok_release:
  assumes F: "flows_ok L n F" "F d = Some (k, p)" and L': "same_lease L L'" "lease_ok L'"
    and t: "\<And>q. ports_taken L' q = (if ported (up_proto k) \<and> q = up_proto k then ports_taken L q - {offset L p} else ports_taken L q)"
    and c: "unat (tcp_port_used L') \<le> card (tcp.taken L')" "unat (udp_port_used L') = card (udp.taken L')"
  shows "flows_ok L' n (F(d := None))"
proof -
  have pt: "ports_taken L' q = {offset L' p' | d' k' p'. (F(d := None)) d' = Some (k', p') \<and> up_proto k' = q}" if q: "ported q" for q
  proof -
    have o: "ports_taken L q = {offset L p' | d' k' p'. F d' = Some (k', p') \<and> up_proto k' = q}"
      using F(1) q unfolding flows_ok_def by blast
    have *: "d' = d" if "F d' = Some (k', p')" "up_proto k' = q" "q = up_proto k" "offset L p' = offset L p" for d' k' p'
    proof -
      have "LowPort L \<le> p'" "p' \<le> HighPort L" "LowPort L \<le> p" "p \<le> HighPort L"
        using flows_okD(3) [OF F(1) that(1)] flows_okD(3) [OF F(1,2)] q that(2,3) by auto
      then have "unat p' = unat p" using offset_props(1) [OF flows_okD(1) [OF F]] that(4) by metis
      then have "p' = p" by (rule unsigned_word_eqI)
      then show ?thesis using F that(1-3) q unfolding flows_ok_def by blast
    qed
    have eq: "{offset L' p' | d' k' p'. (F(d := None)) d' = Some (k', p') \<and> up_proto k' = q} =
      {offset L p' | d' k' p'. d' \<noteq> d \<and> F d' = Some (k', p') \<and> up_proto k' = q}"
      by (auto simp: same_block(2) [OF L'(1)])
    show ?thesis
    proof (cases "q = up_proto k")
      case True
      then have "ports_taken L' q = ports_taken L q - {offset L p}" using t [of q] q by simp
      then have e: "x \<in> ports_taken L' q \<longleftrightarrow> (\<exists>d' k' p'. x = offset L p' \<and> F d' = Some (k', p') \<and> up_proto k' = q) \<and> x \<noteq> offset L p" for x
        unfolding o by blast
      have "d' \<noteq> d \<longleftrightarrow> offset L p' \<noteq> offset L p" if "F d' = Some (k', p')" "up_proto k' = q" for d' k' p'
        using * [OF that True] that(1) F(2) by auto
      then have "x \<in> ports_taken L' q \<longleftrightarrow> (\<exists>d' k' p'. x = offset L p' \<and> d' \<noteq> d \<and> F d' = Some (k', p') \<and> up_proto k' = q)" for x
        unfolding e by metis
      then show ?thesis unfolding eq by blast
    next
      case False
      then have "ports_taken L' q = ports_taken L q" using t [of q] by simp
      moreover have "d' \<noteq> d" if "F d' = Some (k', p')" "up_proto k' = q" for d' k' p'
        using that F(2) False by auto
      ultimately show ?thesis unfolding eq o by blast
    qed
  qed
  have lh: "LowPort L' = LowPort L" "HighPort L' = HighPort L" using L'(1) by (simp_all add: same_lease_def)
  note F1 = F(1) [unfolded flows_ok_def]
  have base1: "\<forall>d f. F d = Some f \<longrightarrow> d < n" using F1 by (elim conjE)
  have base2: "\<forall>d k p. F d = Some (k, p) \<longrightarrow> ported (up_proto k) \<longrightarrow> LowPort L \<le> p \<and> p \<le> HighPort L" using F1 by (elim conjE)
  have base3: "\<forall>d d' k k' p. F d = Some (k, p) \<longrightarrow> F d' = Some (k', p) \<longrightarrow> up_proto k = up_proto k' \<longrightarrow> ported (up_proto k) \<longrightarrow> d = d'" using F1 by (elim conjE)
  have base4: "\<forall>d d' k p p'. F d = Some (k, p) \<longrightarrow> F d' = Some (k, p') \<longrightarrow> d = d'" using F1 by (elim conjE)
  have upd: "(F(d := None)) d' = Some f \<longleftrightarrow> d' \<noteq> d \<and> F d' = Some f" for d' f by simp
  show ?thesis
    unfolding flows_ok_def upd
    apply (intro conjI)
    subgoal by (rule L'(2))
    subgoal using base1 by blast
    subgoal using base2 lh by metis
    subgoal using pt by (simp only: upd) blast
    subgoal using base3 by blast
    subgoal using base4 by blast
    subgoal by (rule c(1))
    subgoal by (rule c(2))
    done
qed

lemma counters_release:
  assumes "unat (tcp_port_used L) \<le> card (tcp.taken L)" "unat (udp_port_used L) = card (udp.taken L)"
    "ported q \<Longrightarrow> k \<in> ports_taken L q"
    "\<And>q'. ports_taken L' q' = (if ported q \<and> q' = q then ports_taken L q' - {k} else ports_taken L q')"
    "tcp_port_used L' = (if q = 0x06 \<and> tcp_port_used L > 0 then tcp_port_used L - 1 else tcp_port_used L)"
    "udp_port_used L' = (if q = 0x11 \<and> udp_port_used L > 0 then udp_port_used L - 1 else udp_port_used L)"
  shows "unat (tcp_port_used L') \<le> card (tcp.taken L')" "unat (udp_port_used L') = card (udp.taken L')"
proof -
  have one: "unat (x - 1 :: u16) = unat x - 1" if "x > 0" for x using that by (simp add: unat_minus_one unat_gt_0)
  have t: "tcp.taken L' = (if q = 0x06 then tcp.taken L - {k} else tcp.taken L)"
    "udp.taken L' = (if q = 0x11 then udp.taken L - {k} else udp.taken L)"
    using assms(4) [of "0x06"] assms(4) [of "0x11"] by (auto simp: ports_taken_def ported_def split: if_splits)
  have k: "q = 0x06 \<Longrightarrow> k \<in> tcp.taken L" "q = 0x11 \<Longrightarrow> k \<in> udp.taken L"
    using assms(3) by (auto simp: ports_taken_def ported_def)
  have "q = 0x06 \<Longrightarrow> card (tcp.taken L) = Suc (card (tcp.taken L - {k}))"
    using k(1) finite_taken(1) by (metis card.remove)
  then show "unat (tcp_port_used L') \<le> card (tcp.taken L')"
    using assms(1,5) one [of "tcp_port_used L"] t(1) by (auto simp: word_gt_0)
  have "q = 0x11 \<Longrightarrow> card (udp.taken L) = Suc (card (udp.taken L - {k}))"
    using k(2) finite_taken(2) by (metis card.remove)
  then show "unat (udp_port_used L') = card (udp.taken L')"
    using assms(2,6) one [of "udp_port_used L"] t(2) by (auto simp: word_gt_0 unat_eq_0)
qed

lemma flow_sel [simp]: "fst (flow s) = \<lparr>up_srcip = srcip s, up_dstip = dstip s, up_oldport = oldport s, up_proto = prot s\<rparr>"
  "snd (flow s) = newport s"
  by (simp_all add: flow_def)

text \<open>Releasing the port of a session once, or, as the tracking of a reset does, twice.\<close>

lemma release_once:
  assumes "flows_ok L n F" "F d = Some (flow s)"
  obtains L' where "setportbit s L = Some L'" "same_lease L L'" "lease_ok L'" "flows_ok L' n (F(d := None))"
    "\<And>q. ports_taken L' q = (if ported (prot s) \<and> q = prot s then ports_taken L q - {offset L (newport s)} else ports_taken L q)"
    "tcp_port_used L' = (if prot s = 0x06 \<and> tcp_port_used L > 0 then tcp_port_used L - 1 else tcp_port_used L)"
proof -
  have F: "F d = Some (fst (flow s), newport s)" using assms(2) by (simp add: flow_def)
  note D = flows_okD [OF assms(1) F]
  obtain L' where L': "setportbit s L = Some L'" "same_lease L L'" "lease_ok L'"
    "\<And>q. ports_taken L' q = (if ported (prot s) \<and> q = prot s then ports_taken L q - {offset L (newport s)} else ports_taken L q)"
    "tcp_port_used L' = (if prot s = 0x06 \<and> tcp_port_used L > 0 then tcp_port_used L - 1 else tcp_port_used L)"
    "udp_port_used L' = (if prot s = 0x11 \<and> udp_port_used L > 0 then udp_port_used L - 1 else udp_port_used L)"
    by (rule setportbit_ok [OF D(1), of s]) (use D(3) in auto)
  have c0: "unat (tcp_port_used L) \<le> card (tcp.taken L)" "unat (udp_port_used L) = card (udp.taken L)"
    using assms(1) by (auto simp: flows_ok_def)
  have o: "ported (prot s) \<Longrightarrow> offset L (newport s) \<in> ports_taken L (prot s)" using D(4) by simp
  note c = counters_release [OF c0 o L'(4-6)]
  have "flows_ok L' n (F(d := None))"
    by (rule flows_ok_release [OF assms(1) F L'(2,3) _ c]) (use L'(4) in simp)
  then show ?thesis by (rule that [OF L'(1-3) _ L'(4,5)])
qed

lemma release_twice:
  assumes "flows_ok L n F" "F d = Some (flow s)" "setportbit s L = Some L1" "prot s = 0x06"
  obtains L2 where "setportbit s L1 = Some L2" "same_lease L L2" "flows_ok L2 n (F(d := None))"
    "tcp.taken L2 = tcp.taken L1" "tcp_port_used L2 = (if tcp_port_used L1 > 0 then tcp_port_used L1 - 1 else tcp_port_used L1)"
proof -
  have F: "F d = Some (fst (flow s), newport s)" using assms(2) by (simp add: flow_def)
  note D = flows_okD [OF assms(1) F]
  obtain L' where L1: "setportbit s L = Some L'" "same_lease L L'" "lease_ok L'" "flows_ok L' n (F(d := None))"
    "\<And>q. ports_taken L' q = (if ported (prot s) \<and> q = prot s then ports_taken L q - {offset L (newport s)} else ports_taken L q)"
    by (rule release_once [OF assms(1,2)]) blast
  have e: "L' = L1" using L1(1) assms(3) by simp
  have s: "LowPort L1 = LowPort L" "HighPort L1 = HighPort L" using L1(2) e by (simp_all add: same_lease_def)
  obtain L2 where L2: "setportbit s L1 = Some L2" "same_lease L1 L2" "lease_ok L2"
    "\<And>q. ports_taken L2 q = (if ported (prot s) \<and> q = prot s then ports_taken L1 q - {offset L1 (newport s)} else ports_taken L1 q)"
    "tcp_port_used L2 = (if prot s = 0x06 \<and> tcp_port_used L1 > 0 then tcp_port_used L1 - 1 else tcp_port_used L1)"
    "udp_port_used L2 = (if prot s = 0x11 \<and> udp_port_used L1 > 0 then udp_port_used L1 - 1 else udp_port_used L1)"
    by (rule setportbit_ok [of L1 s]) (use D(3) L1(3) e s in auto)
  have p: "ports_taken L2 q = ports_taken L1 q" for q
    using L2(4) [of q] L1(5) [of q] e s by (auto simp: offset_def)
  have t: "tcp.taken L2 = tcp.taken L1" "udp.taken L2 = udp.taken L1"
    using p [of "0x06"] p [of "0x11"] by (simp_all add: ports_taken_def)
  have u: "udp_port_used L2 = udp_port_used L1" "unat (tcp_port_used L2) \<le> unat (tcp_port_used L1)"
    using L2(5,6) assms(4) by (auto simp: unat_minus_one word_gt_0)
  have l: "same_lease L L2" using L1(2) L2(2) e by (simp add: same_lease_def)
  have g: "flows_ok L1 n (F(d := None))" using L1(4) e by simp
  have "flows_ok L2 n (F(d := None))"
  proof -
    have eqs: "LowPort L2 = LowPort L1" "HighPort L2 = HighPort L1" "offset L2 = offset L1"
      using L2(2) by (auto simp: same_lease_def offset_def)
    have m: "unat (tcp_port_used L2) \<le> card (tcp.taken L1)"
      using g u(2) unfolding flows_ok_def by (elim conjE) (rule le_trans)
    show ?thesis using g unfolding flows_ok_def p t u(1) eqs
      by (elim conjE) (intro conjI; (assumption | rule L2(3) | rule m))
  qed
  then show ?thesis using L2(1,5) assms(4) t l by (intro that) simp_all
qed

subsection \<open>The laws of the sweep\<close>

lemma flows_upd [simp]:
  assumes "\<And>s. flow (f s) = flow s" shows "flows (upd_tuple d f m) = flows m"
  using assms by (auto simp: flows_def upd_tuple_def option.map_comp comp_def)

lemma upd_fields [simp]: "laft (upd_tuple d f m) = laft m" "next_tuple (upd_tuple d f m) = next_tuple m"
  by (simp_all add: upd_tuple_def)

lemma sessions_flows: "sessions m = dom (flows m)"
  by (auto simp: sessions_def flows_def)

lemma same_flows:
  assumes "flows m' = flows m"
  shows "sessions m' = sessions m" "home_up m' = home_up m" "home_down m' = home_down m"
proof -
  show "sessions m' = sessions m" by (simp only: sessions_flows assms)
  show "home_up m' = home_up m" "home_down m' = home_down m"
    by (rule ext, simp only: home_up_def home_down_def assms)+
qed

lemma DataDel_ok:
  assumes "sessions_ok m" "d \<in> sessions m"
  obtains m' where "DataDel d m = Some m'" "sessions_ok m'" "tuples m' = (tuples m)(d := None)"
    "same_lease (laft m) (laft m')" "next_tuple m' = next_tuple m"
proof -
  obtain s where s: "tuples m d = Some s" using assms(2) by (auto simp: sessions_def)
  then have f: "flows m d = Some (flow s)" by (simp add: flows_def)
  obtain L where L: "setportbit s (laft m) = Some L" "same_lease (laft m) L" "flows_ok L (next_tuple m) ((flows m)(d := None))"
    by (rule release_once [OF conjunct1 [OF assms(1) [unfolded sessions_ok_def]] f]) blast
  let ?m = "m\<lparr>laft := L, tuples := (tuples m)(d := None)\<rparr>"
  have "flows ?m = (flows m)(d := None)" by (auto simp: flows_def)
  moreover have "states_ok ?m" using assms(1) by (simp add: sessions_ok_def states_ok_def)
  ultimately show ?thesis using s L by (intro that [of ?m]) (simp_all add: DataDel_def sessions_ok_def)
qed

lemma DataDel_rest:
  assumes "tuples m' = (tuples m)(d := None)"
  shows "sessions m' = sessions m - {d}" "e \<noteq> d \<Longrightarrow> flows m' e = flows m e" "e \<noteq> d \<Longrightarrow> home_up m' e = home_up m e"
    "e \<noteq> d \<Longrightarrow> home_down m' e = home_down m e" "e \<noteq> d \<Longrightarrow> time_left m' e = time_left m e"
  using assms by (auto simp: sessions_def flows_def home_up_def home_down_def time_left_def)

lemma sessiondatproc_ok:
  assumes "tuples m d = Some s"
  obtains m' r where "sessiondatproc d m = Some (m', r)" "flows m' = flows m" "laft m' = laft m" "next_tuple m' = next_tuple m"
    "\<And>e. e \<noteq> d \<Longrightarrow> time_left m' e = time_left m e"
    "time_left m' d = (if 0 < time_left m d then time_left m d - 5 else time_left m d)"
    "r < 0 \<longleftrightarrow> 0 < time_left m d \<and> time_left m' d \<le> 0" "states_ok m \<Longrightarrow> states_ok m'"
proof (cases "time_out s > 0")
  case True
  let ?m = "m\<lparr>tuples := (tuples m)(d \<mapsto> s\<lparr>time_out := time_out s - 5\<rparr>)\<rparr>"
  have "flows ?m = flows m" using assms by (auto simp: flows_def flow_def)
  then show ?thesis
    by (rule that [of ?m "if time_out s - 5 \<le> 0 then -1 else 1", rotated])
      (use assms True in \<open>auto simp: sessiondatproc_def MINI_TIMER_VALUE_def time_left_def states_ok_def Let_def\<close>)
next
  case False
  then show ?thesis by (intro that [of m 1]) (use assms in \<open>auto simp: sessiondatproc_def time_left_def\<close>)
qed

text \<open>What tracking and ageing do to the sessions: some may go, none changes its keys or its port.\<close>

definition shrunk :: "natmem \<Rightarrow> natmem \<Rightarrow> bool" where
  "shrunk m m' \<longleftrightarrow> same_lease (laft m) (laft m') \<and> next_tuple m' = next_tuple m
     \<and> (\<forall>d. flows m' d = flows m d \<or> flows m' d = None)"

lemma same_lease_refl [simp]: "same_lease L L"
  by (simp add: same_lease_def)

lemma shrunk_refl [simp]: "shrunk m m"
  by (simp add: shrunk_def)

lemma shrunk_trans: "shrunk m m' \<Longrightarrow> shrunk m' m'' \<Longrightarrow> shrunk m m''"
  by (simp add: shrunk_def same_lease_def) metis

interpretation ageing: swept_objects sessiondatproc DataDel sessions home_up home_down
  "\<lambda>m. sessions_ok m \<and> shrunk m0 m" time_left 5 for m0
proof
  fix m d assume m: "sessions_ok m \<and> shrunk m0 m" "d \<in> sessions m"
  then obtain s where "tuples m d = Some s" by (auto simp: sessions_def)
  then obtain m' r where p: "sessiondatproc d m = Some (m', r)" "flows m' = flows m" "laft m' = laft m" "next_tuple m' = next_tuple m"
    "\<And>e. e \<noteq> d \<Longrightarrow> time_left m' e = time_left m e"
    "time_left m' d = (if 0 < time_left m d then time_left m d - 5 else time_left m d)"
    "r < 0 \<longleftrightarrow> 0 < time_left m d \<and> time_left m' d \<le> 0" "states_ok m \<Longrightarrow> states_ok m'"
    by (rule sessiondatproc_ok) blast
  have "sessions_ok m' \<and> shrunk m0 m'" using m(1) p(2-4,8) by (auto simp: sessions_ok_def shrunk_def)
  then show "\<exists>s' r. sessiondatproc d m = Some (s', r) \<and> (sessions_ok s' \<and> shrunk m0 s') \<and> sessions s' = sessions m \<and> home_up s' = home_up m
      \<and> home_down s' = home_down m \<and> (\<forall>d' \<in> sessions m. d' \<noteq> d \<longrightarrow> time_left s' d' = time_left m d')
      \<and> time_left s' d = (if 0 < time_left m d then time_left m d - 5 else time_left m d)
      \<and> (r < 0 \<longleftrightarrow> 0 < time_left m d \<and> time_left s' d \<le> 0)"
    using p same_flows [OF p(2)] by blast
next
  fix m d assume m: "sessions_ok m \<and> shrunk m0 m" "d \<in> sessions m"
  obtain m' where q: "DataDel d m = Some m'" "sessions_ok m'" "tuples m' = (tuples m)(d := None)"
    "same_lease (laft m) (laft m')" "next_tuple m' = next_tuple m"
    by (rule DataDel_ok [OF conjunct1 [OF m(1)] m(2)])
  have "shrunk m m'" using q(3-5) by (simp add: shrunk_def flows_def)
  then have "shrunk m0 m'" by (rule shrunk_trans [OF conjunct2 [OF m(1)]])
  then show "\<exists>s'. DataDel d m = Some s' \<and> (sessions_ok s' \<and> shrunk m0 s') \<and> sessions s' = sessions m - {d}
      \<and> (\<forall>d' \<in> sessions s'. home_up s' d' = home_up m d' \<and> home_down s' d' = home_down m d' \<and> time_left s' d' = time_left m d')"
    using q(1,2) DataDel_rest [OF q(3)] by (intro exI [of _ m']) auto
qed simp

end
