(* ===== verification/CpeNat.thy ===== *)
theory CpeNat
  imports CpeSession
begin

text \<open>
  The invariant of the address translation, and what tracking, expiry and lookup do to it.
\<close>

section \<open>Lookup\<close>

lemma nat_invD:
  assumes "nat_inv T m"
  shows "length (Bucket T) = MAX_ENTRY" "table_ok (home_up m) (home_down m) (sessions m) T" "sessions_ok m"
    "flows_ok (laft m) (next_tuple m) (flows m)" "states_ok m"
  using assms by (auto simp: nat_inv_def sessions_ok_def)

lemma flows_ok_unique:
  assumes "flows_ok L n F"
  shows "F d = Some (k, p) \<Longrightarrow> F d' = Some (k, p') \<Longrightarrow> d = d'"
    "F d = Some (k, p) \<Longrightarrow> F d' = Some (k', p) \<Longrightarrow> up_proto k = up_proto k' \<Longrightarrow> ported (up_proto k) \<Longrightarrow> d = d'"
proof -
  note u = assms [unfolded flows_ok_def]
  have a: "\<forall>d d' k p p'. F d = Some (k, p) \<longrightarrow> F d' = Some (k, p') \<longrightarrow> d = d'" using u by (elim conjE)
  have b: "\<forall>d d' k k' p. F d = Some (k, p) \<longrightarrow> F d' = Some (k', p) \<longrightarrow> up_proto k = up_proto k' \<longrightarrow> ported (up_proto k) \<longrightarrow> d = d'"
    using u by (elim conjE)
  show "F d = Some (k, p) \<Longrightarrow> F d' = Some (k, p') \<Longrightarrow> d = d'" using a by blast
  show "F d = Some (k, p) \<Longrightarrow> F d' = Some (k', p) \<Longrightarrow> up_proto k = up_proto k' \<Longrightarrow> ported (up_proto k) \<Longrightarrow> d = d'"
    using b by blast
qed

lemma nat_inv_flows:
  assumes "nat_inv T m" "flows m' = flows m" "laft m' = laft m" "next_tuple m' = next_tuple m" "states_ok m'"
  shows "nat_inv T m'"
  using assms(1,3-5) unfolding nat_inv_def sessions_ok_def same_flows [OF assms(2)] assms(2) by simp

text \<open>The comparison on live sessions.\<close>

definition up_match :: "natmem \<Rightarrow> HASH_DATA_UP \<Rightarrow> nat \<Rightarrow> int" where
  "up_match m k d = (if map_option fst (flows m d) = Some k then 1 else 0)"

definition down_match :: "natmem \<Rightarrow> HASH_DATA_DOWN \<Rightarrow> nat \<Rightarrow> int" where
  "down_match m k d = (if map_option down_of (flows m d) = Some k then 1 else 0)"

lemma compare_up: "d \<in> sessions m \<Longrightarrow> compare_session (Up k) d PKT_UP m = Some (up_match m k d)"
  by (cases k) (auto simp: sessions_def compare_session_def up_match_def flows_def flow_def)

lemma compare_down: "d \<in> sessions m \<Longrightarrow> compare_session (Down k) d PKT_DOWN m = Some (down_match m k d)"
  by (cases k) (auto simp: sessions_def compare_session_def down_match_def flows_def flow_def down_of_def PKT_UP_def PKT_DOWN_def)

definition find_session :: "dbtable \<Rightarrow> hash_key \<Rightarrow> nat \<Rightarrow> natmem \<Rightarrow> nat option option" where
  "find_session T key type m = DBKeyHashTableFind nat_hash compare_session T key type m"

text \<open>A search by the upstream key finds the session with that key, if there is one.\<close>

lemma find_up:
  assumes "nat_inv T m"
  shows "find_session T (Up k) PKT_UP m = Some (if \<exists>d p. flows m d = Some (k, p) then Some (THE d. \<exists>p. flows m d = Some (k, p)) else None)"
proof -
  note I = nat_invD [OF assms]
  have u: "(THE d. \<exists>p. flows m d = Some (k, p)) = d" if "flows m d = Some (k, p)" for d p
    by (rule the_equality) (use that flows_ok_unique(1) [OF I(4)] in blast)+
  show ?thesis
  proof (rule table_find [OF I(2), of compare_session "Up k" PKT_UP m "up_match m k" nat_hash])
    show "compare_session (Up k) d PKT_UP m = Some (up_match m k d)" if "d \<in> sessions m" for d
      using that by (rule compare_up)
  next
    fix d
    assume f: "DBKeyHashTableFind nat_hash compare_session T (Up k) PKT_UP m = Some (Some d)" "up_match m k d = 1"
    then obtain p where "flows m d = Some (k, p)" by (auto simp: up_match_def split: if_splits)
    then show ?thesis using f(1) u by (auto simp: find_session_def)
  next
    assume a: "DBKeyHashTableFind nat_hash compare_session T (Up k) PKT_UP m = Some None"
      "\<And>d. \<lbrakk> d \<in> sessions m; home_up m d = nat_hash (Up k) mod length (Bucket T)
          \<or> home_down m d = nat_hash (Up k) mod length (Bucket T) \<rbrakk> \<Longrightarrow> up_match m k d \<noteq> 1"
    have "flows m d \<noteq> Some (k, p)" for d p
    proof
      assume "flows m d = Some (k, p)"
      moreover from this have "d \<in> sessions m" by (auto simp: sessions_flows)
      ultimately show False using a(2) [of d] I(1) by (auto simp: home_up_def up_match_def)
    qed
    then show ?thesis using a(1) by (auto simp: find_session_def)
  qed
qed

text \<open>A search by the downstream key finds a session with that key, if there is one.\<close>

lemma find_down:
  assumes "nat_inv T m"
  obtains (found) d f where "find_session T (Down k) PKT_DOWN m = Some (Some d)" "flows m d = Some f" "down_of f = k"
    | (absent) "find_session T (Down k) PKT_DOWN m = Some None" "\<And>d f. flows m d = Some f \<Longrightarrow> down_of f \<noteq> k"
proof -
  note I = nat_invD [OF assms]
  show ?thesis
  proof (rule table_find [OF I(2), of compare_session "Down k" PKT_DOWN m "down_match m k" nat_hash])
    show "compare_session (Down k) d PKT_DOWN m = Some (down_match m k d)" if "d \<in> sessions m" for d
      using that by (rule compare_down)
  next
    fix d
    assume f: "DBKeyHashTableFind nat_hash compare_session T (Down k) PKT_DOWN m = Some (Some d)" "down_match m k d = 1"
    then obtain f' where "flows m d = Some f'" "down_of f' = k" by (auto simp: down_match_def split: if_splits)
    then show ?thesis using f(1) by (intro found) (auto simp: find_session_def)
  next
    assume a: "DBKeyHashTableFind nat_hash compare_session T (Down k) PKT_DOWN m = Some None"
      "\<And>d. \<lbrakk> d \<in> sessions m; home_up m d = nat_hash (Down k) mod length (Bucket T)
          \<or> home_down m d = nat_hash (Down k) mod length (Bucket T) \<rbrakk> \<Longrightarrow> down_match m k d \<noteq> 1"
    have "down_of f \<noteq> k" if "flows m d = Some f" for d f
    proof -
      have "d \<in> sessions m" using that by (auto simp: sessions_flows)
      then show ?thesis using a(2) [of d] I(1) that by (auto simp: home_down_def down_match_def)
    qed
    then show ?thesis using a(1) by (intro absent) (auto simp: find_session_def)
  qed
qed

text \<open>TCP and UDP sessions have ports of their own, so that the downstream key determines them.\<close>

lemma down_key_unique:
  assumes "nat_inv T m" "flows m d = Some f" "flows m d' = Some f'" "down_of f = down_of f'" "ported (up_proto (fst f))"
  shows "d = d'"
proof -
  obtain k p k' p' where f: "f = (k, p)" "f' = (k', p')" by (metis surj_pair)
  have "p = p'" "up_proto k = up_proto k'" using assms(4) f by (auto simp: down_of_def)
  then show ?thesis using flows_ok_unique(2) [OF nat_invD(4) [OF assms(1)]] assms(2,3,5) f by (metis fst_conv)
qed

section \<open>Removal of a session\<close>

text \<open>The table after an object has gone.\<close>

lemma table_gone:
  assumes "table_ok (home_up m) (home_down m) (sessions m) T" "tuples m' = (tuples m)(d := None)"
  shows "table_ok (home_up m') (home_down m') (sessions m') (T\<lparr>Bucket := detach d (Bucket T)\<rparr>)"
proof -
  have "table_ok (home_up m) (home_down m) (sessions m') (T\<lparr>Bucket := detach d (Bucket T)\<rparr>)"
    unfolding DataDel_rest(1) [OF assms(2)] by (rule table_detach [OF assms(1)])
  then show ?thesis
    by (rule table_ok_cong) (use DataDel_rest [OF assms(2)] in auto)
qed

lemma sessiondel_up:
  assumes "length (Bucket T) = MAX_ENTRY" "table_ok (home_up m) (home_down m) (sessions m) T" "tuples m d = Some s"
    "\<And>d' p. flows m d' = Some (fst (flow s), p) \<Longrightarrow> d' = d"
    "DataDel d m = Some m'" "tuples m' = (tuples m)(d := None)" "sessions_ok m'"
  shows "sessiondel T s PKT_UP m = Some (T\<lparr>Bucket := detach d (Bucket T)\<rparr>, m')"
    "nat_inv (T\<lparr>Bucket := detach d (Bucket T)\<rparr>) m'"
proof -
  let ?k = "fst (flow s)"
  have f: "flows m d = Some (flow s)" using assms(3) by (simp add: flows_def)
  have u: "d' = d" if "up_match m ?k d' = 1" for d'
  proof -
    have "map_option fst (flows m d') = Some ?k" using that by (simp add: up_match_def split: if_splits)
    then obtain f' where "flows m d' = Some f'" "fst f' = ?k" by (cases "flows m d'") auto
    then show ?thesis using assms(4) [of d' "snd f'"] by (cases f') auto
  qed
  obtain d' s' where "d' \<in> sessions m" "up_match m ?k d' = 1" "DataDel d' m = Some s'"
    "DBKeyHashTableDelete nat_hash compare_session DataDel T (Up ?k) PKT_UP m = Some (T\<lparr>Bucket := detach d' (Bucket T)\<rparr>, s')"
  proof (rule table_delete [OF assms(2), of compare_session "Up ?k" PKT_UP m "up_match m ?k" d nat_hash DataDel])
    show "compare_session (Up ?k) d' PKT_UP m = Some (up_match m ?k d')" if "d' \<in> sessions m" for d'
      using that by (rule compare_up)
    show "d \<in> sessions m" using assms(3) by (auto simp: sessions_def)
    show "up_match m ?k d = 1" using f by (simp add: up_match_def)
    show "home_up m d = nat_hash (Up ?k) mod length (Bucket T) \<or> home_down m d = nat_hash (Up ?k) mod length (Bucket T)"
      using f assms(1) by (simp add: home_up_def)
    show "\<exists>s'. DataDel d' m = Some s'" if "up_match m ?k d' = 1" for d' using u [OF that] assms(5) by blast
  qed blast
  then show "sessiondel T s PKT_UP m = Some (T\<lparr>Bucket := detach d (Bucket T)\<rparr>, m')"
    using u assms(5) by (auto simp: sessiondel_def keys_of_flow PKT_UP_def PKT_DOWN_def)
  show "nat_inv (T\<lparr>Bucket := detach d (Bucket T)\<rparr>) m'"
    using table_gone [OF assms(2,6)] assms(1,7) by (simp add: nat_inv_def)
qed

text \<open>Deletion by the downstream key removes a session with that key, for ICMP possibly another one.\<close>

lemma sessiondel_down:
  assumes "nat_inv T m" "tuples m d = Some s"
  obtains d' m' where "flows m d' \<noteq> None" "map_option down_of (flows m d') = Some (down_of (flow s))"
    "sessiondel T s PKT_DOWN m = Some (T\<lparr>Bucket := detach d' (Bucket T)\<rparr>, m')"
    "nat_inv (T\<lparr>Bucket := detach d' (Bucket T)\<rparr>) m'" "tuples m' = (tuples m)(d' := None)"
    "same_lease (laft m) (laft m')" "next_tuple m' = next_tuple m"
proof -
  note I = nat_invD [OF assms(1)]
  let ?k = "down_of (flow s)"
  have f: "flows m d = Some (flow s)" using assms(2) by (simp add: flows_def)
  obtain d' s' where d': "d' \<in> sessions m" "down_match m ?k d' = 1" "DataDel d' m = Some s'"
    "DBKeyHashTableDelete nat_hash compare_session DataDel T (Down ?k) PKT_DOWN m = Some (T\<lparr>Bucket := detach d' (Bucket T)\<rparr>, s')"
  proof (rule table_delete [OF I(2), of compare_session "Down ?k" PKT_DOWN m "down_match m ?k" d nat_hash DataDel])
    show "compare_session (Down ?k) d' PKT_DOWN m = Some (down_match m ?k d')" if "d' \<in> sessions m" for d'
      using that by (rule compare_down)
    show "d \<in> sessions m" using assms(2) by (auto simp: sessions_def)
    show "down_match m ?k d = 1" using f by (simp add: down_match_def)
    show "home_up m d = nat_hash (Down ?k) mod length (Bucket T) \<or> home_down m d = nat_hash (Down ?k) mod length (Bucket T)"
      using f I(1) by (simp add: home_down_def)
    show "\<exists>s'. DataDel d' m = Some s'" if "d' \<in> sessions m" for d'
      using DataDel_ok [OF I(3) that] by metis
  qed blast
  obtain m' where m': "DataDel d' m = Some m'" "sessions_ok m'" "tuples m' = (tuples m)(d' := None)"
    "same_lease (laft m) (laft m')" "next_tuple m' = next_tuple m"
    by (rule DataDel_ok [OF I(3) d'(1)])
  show ?thesis
  proof (rule that)
    show "flows m d' \<noteq> None" using d'(1) by (auto simp: sessions_flows)
    show "map_option down_of (flows m d') = Some ?k" using d'(2) by (simp add: down_match_def split: if_splits)
    show "sessiondel T s PKT_DOWN m = Some (T\<lparr>Bucket := detach d' (Bucket T)\<rparr>, m')"
      using d'(3,4) m'(1) by (simp add: sessiondel_def keys_of_flow PKT_DOWN_def)
    show "nat_inv (T\<lparr>Bucket := detach d' (Bucket T)\<rparr>) m'"
      using table_gone [OF I(2) m'(3)] I(1) m'(2) by (simp add: nat_inv_def)
  qed (rule m'(3-5))+
qed

section \<open>Tracking\<close>

lemma shrunk_same: "flows m' = flows m \<Longrightarrow> laft m' = laft m \<Longrightarrow> next_tuple m' = next_tuple m \<Longrightarrow> shrunk m m'"
  by (simp add: shrunk_def)

lemma flow_update [simp]: "flow (s\<lparr>tcp_state := a\<rparr>) = flow s" "flow (s\<lparr>handshake_ack := b\<rparr>) = flow s"
  "flow (s\<lparr>con_status := c\<rparr>) = flow s" "flow (s\<lparr>time_out := t\<rparr>) = flow s" "flow (s\<lparr>icmp_seq := i\<rparr>) = flow s"
  by (simp_all add: flow_def)

lemma upd_tuple_sel: "tuples (upd_tuple d f m) e = (if e = d then map_option f (tuples m d) else tuples m e)"
  by (simp add: upd_tuple_def)

lemma states_upd [simp]:
  "states_ok m \<Longrightarrow> (\<And>s. tcp_state s \<noteq> sIV \<Longrightarrow> tcp_state (f s) \<noteq> sIV) \<Longrightarrow> states_ok (upd_tuple d f m)"
  by (auto simp: states_ok_def upd_tuple_sel)

lemma states_if: "states_ok m \<Longrightarrow> (\<And>s. tcp_state (f s) = tcp_state s) \<Longrightarrow> states_ok (if b then upd_tuple d f m else m)"
  by simp

lemma states_refresh [simp]: "states_ok m \<Longrightarrow> states_ok (refreshtimer d t m)"
  by (simp add: refreshtimer_def)

lemma flows_refresh [simp]: "flows (refreshtimer d t m) = flows m" "laft (refreshtimer d t m) = laft m"
  "next_tuple (refreshtimer d t m) = next_tuple m"
  by (simp_all add: refreshtimer_def)

lemma udp_pkt_track_ok:
  assumes "nat_inv T m" "tuples m d = Some s"
  obtains m' where "udp_pkt_track d m = Some m'" "nat_inv T m'" "flows m' = flows m" "laft m' = laft m" "shrunk m m'"
    "\<And>e. e \<noteq> d \<Longrightarrow> tuples m' e = tuples m e"
proof (cases "con_status s AND IPS_SEEN_REPLY = 0")
  case True
  show ?thesis
    by (rule that [of "refreshtimer d UDP_TIMEOUT m"])
      (use True assms nat_invD(5) [OF assms(1)] in
        \<open>auto simp: udp_pkt_track_def shrunk_def refreshtimer_def upd_tuple_sel intro: nat_inv_flows\<close>)
next
  case False
  show ?thesis
    by (rule that [of "upd_tuple d (\<lambda>s. s\<lparr>con_status := con_status s OR IPS_ASSURED\<rparr>) (refreshtimer d UDP_STREAM_TIMEOUT m)"])
      (use False assms nat_invD(5) [OF assms(1)] in
        \<open>auto simp: udp_pkt_track_def shrunk_def refreshtimer_def upd_tuple_sel intro: nat_inv_flows\<close>)
qed

lemma icmp_pkt_track_ok:
  assumes "nat_inv T m" "tuples m d = Some s"
  obtains T' m' where "icmp_pkt_track d dir (T, m) = Some (T', m')" "nat_inv T' m'" "shrunk m m'"
    "dir = IP_CT_DIR_ORIGINAL \<Longrightarrow> flows m' = flows m"
proof (cases "dir = IP_CT_DIR_REPLY \<and> sint (icmp_seq s - 1) \<le> 0")
  case True
  let ?s = "s\<lparr>icmp_seq := icmp_seq s - 1\<rparr>"
  let ?m = "upd_tuple d (\<lambda>_. ?s) m"
  have f: "flows ?m = flows m" using assms(2) by (auto simp: flows_def upd_tuple_def)
  have "states_ok ?m" using nat_invD(5) [OF assms(1)] assms(2) by (auto simp: states_ok_def upd_tuple_sel)
  then have "nat_inv T ?m" by (intro nat_inv_flows [OF assms(1) f]) simp_all
  moreover have "tuples ?m d = Some ?s" using assms(2) by (simp add: upd_tuple_def)
  ultimately obtain d' m' where q: "sessiondel T ?s PKT_DOWN ?m = Some (T\<lparr>Bucket := detach d' (Bucket T)\<rparr>, m')"
    "nat_inv (T\<lparr>Bucket := detach d' (Bucket T)\<rparr>) m'" "tuples m' = (tuples ?m)(d' := None)"
    "same_lease (laft ?m) (laft m')" "next_tuple m' = next_tuple ?m"
    by (rule sessiondel_down) blast
  have "flows m' e = flows m e \<or> flows m' e = None" for e
    using DataDel_rest(2) [OF q(3)] f q(3) by (cases "e = d'") (auto simp: flows_def)
  then have "shrunk m m'" using q(4,5) by (simp add: shrunk_def)
  then show ?thesis
    by (rule that [rotated 2]) (use q True assms(2) in \<open>auto simp: icmp_pkt_track_def Let_def IP_CT_DIR_REPLY_def IP_CT_DIR_ORIGINAL_def\<close>)
next
  case False
  let ?m = "if dir = IP_CT_DIR_REPLY then upd_tuple d (\<lambda>_. s\<lparr>icmp_seq := icmp_seq s - 1\<rparr>) m
    else refreshtimer d ICMP_TIMEOUT (upd_tuple d (\<lambda>s. s\<lparr>icmp_seq := icmp_seq s + 1\<rparr>) m)"
  have f: "flows ?m = flows m" "laft ?m = laft m" "next_tuple ?m = next_tuple m"
    using assms(2) by (auto simp: flows_def upd_tuple_def refreshtimer_def)
  have "states_ok ?m" using nat_invD(5) [OF assms(1)] assms(2) by (auto simp: states_ok_def upd_tuple_sel refreshtimer_def)
  then show ?thesis
    by (intro that [of T ?m])
      (use False assms f in \<open>auto simp: icmp_pkt_track_def Let_def shrunk_def intro: nat_inv_flows\<close>)
qed

text \<open>A segment that ends a connection no reply has been seen on: its port is released twice.\<close>

lemma reset_session:
  assumes "nat_inv T m" "tuples m d = Some s" "prot s = 0x06"
  obtains L m' where "setportbit s (laft m) = Some L"
    "sessiondel T s PKT_UP (m\<lparr>laft := L\<rparr>) = Some (T\<lparr>Bucket := detach d (Bucket T)\<rparr>, m')"
    "nat_inv (T\<lparr>Bucket := detach d (Bucket T)\<rparr>) m'" "tuples m' = (tuples m)(d := None)" "next_tuple m' = next_tuple m"
    "same_lease (laft m) (laft m')"
    "tcp.taken (laft m') = tcp.taken (laft m) - {offset (laft m) (newport s)}"
    "unat (tcp_port_used (laft m')) = unat (tcp_port_used (laft m)) - 2"
proof -
  note I = nat_invD [OF assms(1)]
  have f: "flows m d = Some (flow s)" using assms(2) by (simp add: flows_def)
  obtain L where L: "setportbit s (laft m) = Some L" "same_lease (laft m) L"
    "\<And>q. ports_taken L q = (if ported (prot s) \<and> q = prot s then ports_taken (laft m) q - {offset (laft m) (newport s)} else ports_taken (laft m) q)"
    "tcp_port_used L = (if prot s = 0x06 \<and> tcp_port_used (laft m) > 0 then tcp_port_used (laft m) - 1 else tcp_port_used (laft m))"
    by (rule release_once [OF I(4) f]) blast
  obtain L2 where L2: "setportbit s L = Some L2" "same_lease (laft m) L2"
    "flows_ok L2 (next_tuple m) ((flows m)(d := None))" "tcp.taken L2 = tcp.taken L"
    "tcp_port_used L2 = (if tcp_port_used L > 0 then tcp_port_used L - 1 else tcp_port_used L)"
    by (rule release_twice [OF I(4) f L(1) assms(3)])
  let ?m1 = "m\<lparr>laft := L\<rparr>" and ?m2 = "m\<lparr>laft := L2, tuples := (tuples m)(d := None)\<rparr>"
  have f1: "flows ?m1 = flows m" by (simp add: flows_def fun_eq_iff)
  have f2: "flows ?m2 = (flows m)(d := None)" by (auto simp: flows_def)
  have del: "DataDel d ?m1 = Some ?m2" using assms(2) L2(1) by (simp add: DataDel_def)
  have t1: "table_ok (home_up ?m1) (home_down ?m1) (sessions ?m1) T" using I(2) by (simp only: same_flows [OF f1])
  have s2: "sessions_ok ?m2" using L2(3) f2 I(5) by (simp add: sessions_ok_def states_ok_def)
  have u: "d' = d" if "flows ?m1 d' = Some (fst (flow s), p)" for d' p
    using flows_ok_unique(1) [OF I(4)] that f unfolding f1 by (metis prod.collapse)
  have r: "sessiondel T s PKT_UP ?m1 = Some (T\<lparr>Bucket := detach d (Bucket T)\<rparr>, ?m2)"
    "nat_inv (T\<lparr>Bucket := detach d (Bucket T)\<rparr>) ?m2"
    using sessiondel_up [OF I(1) t1 _ u del _ s2] assms(2) by auto
  have "tcp.taken L = tcp.taken (laft m) - {offset (laft m) (newport s)}"
    using L(3) [of "0x06"] assms(3) by (simp add: ports_taken_def ported_def)
  moreover have "unat (tcp_port_used L2) = unat (tcp_port_used (laft m)) - 2"
    using L(4) L2(5) assms(3) by (auto simp: unat_minus_one word_gt_0 unat_eq_0)
  ultimately show ?thesis using L(1) L2(2,4) r by (intro that [of L ?m2]) simp_all
qed

text \<open>Every segment with one of the four flags has a next state.\<close>

lemma conntrack_valid:
  assumes "get_conntrack_index flags \<noteq> 4" "st \<noteq> sIV" "dir \<le> 1"
  shows "tcp_conntracks ! dir ! get_conntrack_index flags ! ct_number st \<noteq> sIV"
proof -
  have "get_conntrack_index flags \<in> {0, 1, 2, 3}" using assms(1) by (auto simp: get_conntrack_index_def split: if_splits)
  moreover have "dir = 0 \<or> dir = 1" using assms(3) by auto
  ultimately show ?thesis using assms(2) by (cases st) (auto simp: tcp_conntracks_def)
qed

lemma tcp_pkt_track_ok:
  assumes "nat_inv T m" "tuples m d = Some s" "prot s = 0x06" "34 \<le> length skb"
  obtains T' m' r where "tcp_pkt_track skb d dir (T, m) = Some ((T', m'), r)" "nat_inv T' m'" "shrunk m m'"
    "\<And>e. e \<noteq> d \<Longrightarrow> tuples m' e = tuples m e" "r = -1 \<and> T' = T \<and> m' = m \<or> r = 1"
    "\<And>fl. get8 skb 33 = Some fl \<Longrightarrow> get_conntrack_index fl \<noteq> 4 \<Longrightarrow> dir \<le> 1 \<Longrightarrow> r = 1"
    "\<And>fl. get8 skb 33 = Some fl \<Longrightarrow> \<not> flag fl TH_RST \<Longrightarrow> flows m' = flows m"
    "con_status s AND IPS_SEEN_REPLY \<noteq> 0 \<Longrightarrow> flows m' = flows m"
proof -
  obtain flags where fl: "get8 skb 33 = Some flags" using assms(4) by (simp add: get8_def)
  obtain seq where sq: "get32 skb 24 = Some seq" using assms(4) by (simp add: get32_def)
  let ?n = "tcp_conntracks ! dir ! get_conntrack_index flags ! ct_number (tcp_state s)"
  let ?c = "tcp_state s = sSS \<and> dir = IP_CT_DIR_REPLY \<and> flag flags TH_SYN \<and> flag flags TH_ACK"
  let ?m1 = "upd_tuple d (\<lambda>s. s\<lparr>tcp_state := ?n\<rparr>) m"
  define m2 where "m2 = (if ?c then upd_tuple d (\<lambda>s. s\<lparr>handshake_ack := htonl (seq + 1)\<rparr>) ?m1 else ?m1)"
  define s' where "s' = (if ?c then s\<lparr>tcp_state := ?n, handshake_ack := htonl (seq + 1)\<rparr> else s\<lparr>tcp_state := ?n\<rparr>)"
  have s': "tuples m2 d = Some s'" "flow s' = flow s" "prot s' = prot s" "con_status s' = con_status s"
    using assms(2) by (simp_all add: s'_def m2_def upd_tuple_sel)
  have e1: "(if ?c then do { seq \<leftarrow> get32 skb 24; Some (upd_tuple d (\<lambda>s. s\<lparr>handshake_ack := htonl (seq + 1)\<rparr>) ?m1) } else Some ?m1) = Some m2"
    by (simp add: m2_def sq)
  note track = tcp_pkt_track_def case_prod_conv assms(2) fl bind.bind_lunit Let_def e1 s'(1)
  have f2: "flows m2 = flows m" "laft m2 = laft m" "next_tuple m2 = next_tuple m" by (simp_all add: m2_def)
  have o2: "tuples m2 e = tuples m e" if "e \<noteq> d" for e using that by (simp add: m2_def upd_tuple_sel)
  show ?thesis
  proof (cases "?n = sIV")
    case True
    moreover have "tcp_state s \<noteq> sIV" using nat_invD(5) [OF assms(1)] assms(2) by (simp add: states_ok_def)
    ultimately show ?thesis using assms(1,2) fl conntrack_valid [of flags "tcp_state s" dir]
      by (intro that [of T m "-1"]) (auto simp: tcp_pkt_track_def Let_def shrunk_def)
  next
    case new: False
    have "states_ok ?m1" using nat_invD(5) [OF assms(1)] new by (intro states_upd) simp_all
    then have st2: "states_ok m2" unfolding m2_def by (rule states_if) simp
    have i2: "nat_inv T m2" by (rule nat_inv_flows [OF assms(1) f2 st2])
    show ?thesis
    proof (cases "con_status s' AND IPS_SEEN_REPLY = 0 \<and> flag flags TH_RST")
      case True
      obtain L m' where r: "setportbit s' (laft m2) = Some L"
        "sessiondel T s' PKT_UP (m2\<lparr>laft := L\<rparr>) = Some (T\<lparr>Bucket := detach d (Bucket T)\<rparr>, m')"
        "nat_inv (T\<lparr>Bucket := detach d (Bucket T)\<rparr>) m'" "tuples m' = (tuples m2)(d := None)" "next_tuple m' = next_tuple m2"
        "same_lease (laft m2) (laft m')"
        by (rule reset_session [OF i2 s'(1)]) (use s'(3) assms(3) in auto)
      have "flows m' e = (if e = d then None else flows m e)" for e
        using o2 [of e] by (simp add: flows_def r(4))
      then have "shrunk m m'" using r(5,6) f2 by (simp add: shrunk_def)
      moreover have "tcp_pkt_track skb d dir (T, m) = Some ((T\<lparr>Bucket := detach d (Bucket T)\<rparr>, m'), 1)"
        using new True by (simp only: track r(1,2) if_True if_False simp_thms)
      ultimately show ?thesis using r(3,4) o2 True fl s'(4) by (intro that [of "T\<lparr>Bucket := detach d (Bucket T)\<rparr>" m' 1]) auto
    next
      case False
      let ?a = "tcp_state s = sSR \<and> dir = IP_CT_DIR_ORIGINAL \<and> flag flags TH_ACK \<and> \<not> flag flags TH_SYN
        \<and> (if flag flags TH_ACK then 1 else 0) = handshake_ack s'"
      let ?m3 = "refreshtimer d (tcp_timeouts ! ct_number ?n)
        (if ?a then upd_tuple d (\<lambda>s. s\<lparr>con_status := con_status s OR IPS_ASSURED\<rparr>) m2 else m2)"
      have f3: "flows ?m3 = flows m" "laft ?m3 = laft m" "next_tuple ?m3 = next_tuple m" using f2 by simp_all
      have "tuples ?m3 e = tuples m e" if "e \<noteq> d" for e using that using o2 [of e] by (simp add: refreshtimer_def upd_tuple_sel)
      moreover have "tcp_pkt_track skb d dir (T, m) = Some ((T, ?m3), 1)"
        using new False by (simp only: track if_True if_False)
      moreover have "states_ok ?m3" using st2 by simp
      ultimately show ?thesis using nat_inv_flows [OF assms(1) f3] shrunk_same [OF f3] f3(1)
        by (intro that [of T ?m3 1]) simp_all
    qed
  qed
qed

section \<open>Expiry\<close>

text \<open>The timer ends, keeps the invariant, and ages every session by two ticks or more.\<close>

lemma sessiontmrhandle_ok:
  assumes "nat_inv T m"
  obtains T' m' where "sessiontmrhandle T m = Some (T', m')" "nat_inv T' m'" "ageing.aged m m' (\<lambda>d. 2)" "shrunk m m'"
proof -
  note I = nat_invD [OF assms]
  have l: "ageing.linked (next_node T) m (Bucket T)" using I(2) by (auto simp: ageing.linked_def table_ok_def)
  obtain T' m' where r: "sweep_from sessiondatproc DataDel (length (Bucket T)) T 0 m = Some (T', m')"
    "ageing.linked (next_node T) m' (Bucket T')" "sessions_ok m' \<and> shrunk m m'" "length (Bucket T') = length (Bucket T)"
    "next_node T' = next_node T" "ageing.aged m m' (\<lambda>d. 2)"
    by (rule ageing.sweep_all [where ?m0.0 = m, OF l]) (use I(3) in simp_all)
  have "Bucket T' \<noteq> []" using r(4) I(1) by (auto simp: MAX_ENTRY_def)
  then have "nat_inv T' m'" using r(2-5) I(1) by (auto simp: nat_inv_def ageing.linked_def table_ok_def)
  moreover have "sessiontmrhandle T m = Some (T', m')" using r(1) by (simp add: sessiontmrhandle_def)
  ultimately show ?thesis using that r(6) conjunct2 [OF r(3)] by blast
qed

end
