(* ===== verification/CpeUp.thy ===== *)
theory CpeUp
  imports CpeNat
begin

text \<open>
  The way up through the customer's box: the filter of destinations (\<open>TI/openwrt_cpe/src/tool.c\<close>), the
  hook and its length check (\<open>modules.c\<close>), the session of a packet (\<open>pktup.c\<close>) and the translated packet
  behind its IPv6 header, whole or in fragments (\<open>pktup.c\<close>, \<open>pktgen.c\<close>).  The box's 16-bit
  arithmetic is on fields as the little-endian processor loads them.
\<close>

section \<open>State and surroundings\<close>

text \<open>
  \<open>outq\<close> holds the buffers handed to \<open>SENDSKB\<close>, oldest first, \<open>reports\<close> the packets reported to the
  user process.
\<close>

record cpe =
  natm :: natmem
  table :: dbtable
  icmps :: icmp_statics
  outq :: "skbuff list"
  reports :: "u8 list list"

text \<open>
  What the surroundings answer while one packet is handled: the allocations (of a session, of its two
  nodes, of buffers), whether a paged buffer can be made linear, the random numbers, and the kernel's header
  checksum.
\<close>

record cpe_env =
  tuple_ok :: bool
  node1_ok :: bool
  node2_ok :: bool
  buf_ok :: "nat \<Rightarrow> bool"
  lin_ok :: bool
  random32 :: "nat \<Rightarrow> u32"
  ip_send_check :: "u8 list \<Rightarrow> u8 list"

datatype nf_verdict = nf_drop | nf_accept | nf_stolen

section \<open>Filters\<close>

text \<open>The little-endian version: the addresses are shifted as loaded.\<close>

definition ipdst_filter :: "u8 list \<Rightarrow> bool option" where
  "ipdst_filter pkt =
     do { saddr \<leftarrow> ld32 pkt 12;
          daddr \<leftarrow> ld32 pkt 16;
          let dstaddr = push_bit 24 daddr;
          let addr2 = push_bit 16 daddr;
          Some (push_bit 8 saddr = push_bit 8 daddr
            \<or> dstaddr \<ge> 0xe0000000
            \<or> addr2 = 0xa8c00000 \<or> addr2 = 0xfea90000 \<or> dstaddr = 0x0a000000
            \<or> addr2 \<ge> 0x10ac0000 \<and> addr2 \<le> 0x1fac0000) }"

definition IP6_HLEN :: nat where "IP6_HLEN = 40"
definition IP6F_HLEN :: nat where "IP6F_HLEN = 8"

text \<open>\<open>None\<close> in the result pair lets the packet go on, \<open>Some\<close> is what is reported.\<close>

definition stream_len_check :: "u8 list \<Rightarrow> (u8 list option \<times> int) option" where
  "stream_len_check pkt =
     do { frag_off \<leftarrow> get16 pkt 6;
          if frag_off AND IP_DF \<noteq> 0 \<and> length pkt + IP6_HLEN > 1280
          then do { msg \<leftarrow> getn pkt 0 28; Some (Some msg, -1) }
          else Some (None, 1) }"

section \<open>The session of a packet\<close>

text \<open>The transport header is taken to follow 20 bytes of IP header.\<close>

definition get_hash_data_up :: "u8 list \<Rightarrow> HASH_DATA_UP option option" where
  "get_hash_data_up pkt =
     do { saddr \<leftarrow> get32 pkt 12;
          daddr \<leftarrow> get32 pkt 16;
          protocol \<leftarrow> get8 pkt 9;
          if protocol = IPPROTO_TCP \<or> protocol = IPPROTO_UDP
          then do { source \<leftarrow> get16 pkt 20;
                    Some (Some \<lparr>up_srcip = saddr, up_dstip = daddr, up_oldport = source, up_proto = protocol\<rparr>) }
          else if protocol = IPPROTO_ICMP
          then do { id \<leftarrow> get16 pkt 24;
                    Some (Some \<lparr>up_srcip = saddr, up_dstip = daddr, up_oldport = id, up_proto = protocol\<rparr>) }
          else Some None }"

text \<open>The result is \<open>None\<close> in the triple when the code returns -1; \<open>port\<close> is an \<open>int\<close> cut to 16 bits.\<close>

definition get_hash_data_down ::
  "u8 list \<Rightarrow> LAFT_NAT_INFO \<Rightarrow> icmp_statics \<Rightarrow> (LAFT_NAT_INFO \<times> icmp_statics \<times> HASH_DATA_DOWN option) option" where
  "get_hash_data_down pkt l ic =
     do { daddr \<leftarrow> get32 pkt 16;
          protocol \<leftarrow> get8 pkt 9;
          let down = (\<lambda>p. \<lparr>down_dstip = daddr, down_newport = p, down_proto = protocol\<rparr>);
          if protocol = IPPROTO_TCP
          then do { (l, port) \<leftarrow> get_tcp_port (LowPort l) (HighPort l) l;
                    Some (l, ic, if port < 0 then None else Some (down (word_of_int port))) }
          else if protocol = IPPROTO_UDP
          then do { (l, port) \<leftarrow> get_udp_port (LowPort l) (HighPort l) l;
                    Some (l, ic, if port < 0 then None else Some (down (word_of_int port))) }
          else if protocol = IPPROTO_ICMP
          then (let (ic, i) = get_icmp_port (LowPort l) (HighPort l) ic in Some (l, ic, Some (down i)))
          else Some (l, ic, Some (down 0)) }"

definition get_tuple :: "HASH_DATA_UP \<Rightarrow> HASH_DATA_DOWN \<Rightarrow> SESSIONTUPLES" where
  "get_tuple up down =
     \<lparr>srcip = up_srcip up, dstip = up_dstip up, oldport = up_oldport up, newport = down_newport down,
      prot = up_proto up, icmp_seq = 0, tcp_state = sNO, handshake_ack = 0, con_status = 0, time_out = 0\<rparr>"

text \<open>
  The session found or made, as its address; \<open>None\<close> in the pair is \<open>NULL\<close>.  When an allocation
  fails the code keeps the port, and, when a node is missing, the session and the first node.
\<close>

definition search_nat_hashtable :: "cpe_env \<Rightarrow> cpe \<Rightarrow> u8 list \<Rightarrow> HASH_DATA_UP \<Rightarrow> (cpe \<times> nat option) option" where
  "search_nat_hashtable e c pkt up =
     do { found \<leftarrow> find_session (table c) (Up up) PKT_UP (natm c);
          (case found of
             Some d \<Rightarrow> Some (c, Some d)
           | None \<Rightarrow>
               do { let m = natm c;
                    (l, ic, down) \<leftarrow> get_hash_data_down pkt (laft m) (icmps c);
                    let c = c\<lparr>natm := m\<lparr>laft := l\<rparr>, icmps := ic\<rparr>;
                    (case down of
                       None \<Rightarrow> Some (c, None)
                     | Some dn \<Rightarrow>
                         if \<not> tuple_ok e then Some (c, None)
                         else (let m = natm c; d = next_tuple m;
                                   m = m\<lparr>tuples := (tuples m)(d \<mapsto> get_tuple up dn), next_tuple := d + 1\<rparr>;
                                   (T, r) = DBKeyHashTableInsert nat_hash (node1_ok e) (node2_ok e) (table c) (Up up) (Down dn) d;
                                   c = c\<lparr>natm := m, table := T\<rparr>
                               in Some (c, if r < 0 then None else Some d))) }) }"

section \<open>The translated packet\<close>

text \<open>The MSS is clamped by the code of the concentrator, for a fixed MTU of 1280.\<close>

definition mtu_1280 :: GLOBAL_CTX where
  "mtu_1280 = \<lparr>uiVersion = 0, StorageTimer = None, ucTcIPv6 = [], usMtu = 1280, uiExtBeginIP = 0, uiExtEndIP = 0,
     uiTunState = 0, usPortRange = 0, uiOtherExtBeginIP = 0, uiOtherExtEndIP = 0, uiMaxLifeTime = 0\<rparr>"

definition cpe_patch_tcpmss :: "u8 list \<Rightarrow> nat \<Rightarrow> u8 list option" where
  "cpe_patch_tcpmss buf4 len = patch_tcpmss mtu_1280 buf4 len"

definition construct_ipv6_header :: "LAFT_NAT_INFO \<Rightarrow> u16 \<Rightarrow> u8 \<Rightarrow> u8 list" where
  "construct_ipv6_header l len nexthdr = ipv6_header len nexthdr (IPv6LocalAddr l) (IPv6RemoteAddr l)"

definition construct_frag_header :: "u16 \<Rightarrow> u32 \<Rightarrow> u8 list" where
  "construct_frag_header frag_off ident = [0x04, 0] @ be16 frag_off @ be32 ident"

text \<open>The IP header lies at \<open>off\<close> in the new buffer; \<open>ip_send_check\<close> gets its \<open>ihl\<close> words.\<close>

definition update_network_header :: "cpe_env \<Rightarrow> LAFT_NAT_INFO \<Rightarrow> u8 list \<Rightarrow> nat \<Rightarrow> u8 list option" where
  "update_network_header e l new off =
     do { new \<leftarrow> put new (off + 12) (PubIP l);
          vi \<leftarrow> get8 new off;
          hdr \<leftarrow> getn new off (unat (vi AND 0x0f) * 4);
          put new off (ip_send_check e hdr) }"

text \<open>The TCP and UDP updates differ in where the checksum lies: \<open>ck\<close> bytes into the header.\<close>

definition update_checked_header :: "nat \<Rightarrow> LAFT_NAT_INFO \<Rightarrow> u8 list \<Rightarrow> u8 list \<Rightarrow> nat \<Rightarrow> u16 \<Rightarrow> u8 list option" where
  "update_checked_header ck l new skb off port =
     do { vi \<leftarrow> get8 skb 0;
          let hl = unat (vi AND 0x0f) * 4;
          let h = IP6_HLEN + hl + off;
          new \<leftarrow> put new h (le16 port);
          nlo \<leftarrow> ld16 (PubIP l) 0;
          nhi \<leftarrow> ld16 (PubIP l) 2;
          slo \<leftarrow> ld16 skb 12;
          shi \<leftarrow> ld16 skb 14;
          source \<leftarrow> ld16 skb hl;
          check \<leftarrow> ld16 new (h + ck);
          let check = csum_incremental_update check shi nhi;
          let check = csum_incremental_update check slo nlo;
          let check = csum_incremental_update check source port;
          put new (h + ck) (le16 check) }"

definition update_udp_header :: "LAFT_NAT_INFO \<Rightarrow> u8 list \<Rightarrow> u8 list \<Rightarrow> nat \<Rightarrow> u16 \<Rightarrow> u8 list option" where
  "update_udp_header = update_checked_header 6"

definition update_tcp_header :: "LAFT_NAT_INFO \<Rightarrow> u8 list \<Rightarrow> u8 list \<Rightarrow> nat \<Rightarrow> u16 \<Rightarrow> u8 list option" where
  "update_tcp_header = update_checked_header 16"

definition update_icmp_header :: "u8 list \<Rightarrow> u8 list \<Rightarrow> nat \<Rightarrow> u16 \<Rightarrow> u8 list option" where
  "update_icmp_header new skb off port =
     do { vi \<leftarrow> get8 skb 0;
          let hl = unat (vi AND 0x0f) * 4;
          let h = IP6_HLEN + hl + off;
          new \<leftarrow> put new (h + 4) (le16 port);
          check \<leftarrow> ld16 skb (hl + 2);
          id \<leftarrow> ld16 skb (hl + 4);
          put new (h + 2) (le16 (csum_incremental_update check id port)) }"

text \<open>\<open>htons\<close> of the little-endian processor is \<open>swap16\<close>.\<close>

definition update_transport_header ::
  "u8 list \<Rightarrow> u8 list \<Rightarrow> nat \<Rightarrow> nat \<Rightarrow> dbtable \<times> natmem \<Rightarrow> (u8 list \<times> (dbtable \<times> natmem) \<times> int) option" where
  "update_transport_header new skb d off = (\<lambda>(T, m).
     do { s \<leftarrow> tuples m d;
          protocol \<leftarrow> get8 skb 9;
          let port = swap16 (newport s);
          if protocol = IPPROTO_TCP
          then do { new \<leftarrow> update_tcp_header (laft m) new skb off port;
                    ((T, m), r) \<leftarrow> tcp_pkt_track skb d IP_CT_DIR_ORIGINAL (T, m);
                    Some (new, (T, m), if r < 0 then -1 else 0) }
          else if protocol = IPPROTO_UDP
          then do { new \<leftarrow> update_udp_header (laft m) new skb off port;
                    m \<leftarrow> udp_pkt_track d m;
                    Some (new, (T, m), 0) }
          else if protocol = IPPROTO_ICMP
          then do { new \<leftarrow> update_icmp_header new skb off port;
                    (T, m) \<leftarrow> icmp_pkt_track d IP_CT_DIR_ORIGINAL (T, m);
                    Some (new, (T, m), 0) }
          else Some (new, (T, m), 0) })"

text \<open>A buffer as it is handed to \<open>SENDSKB\<close>, which fills in the link addresses.\<close>

definition tunnel_skb :: "u8 list \<Rightarrow> skbuff" where
  "tunnel_skb pkt = \<lparr>h_dest = [], h_source = [], h_proto = ETH_P_IPV6, skb_data = pkt, skb_nonlinear = False\<rparr>"

section \<open>One packet, or fragments\<close>

text \<open>The result holds the buffers sent and the return value.\<close>

definition normal_packet_handl ::
  "cpe_env \<Rightarrow> u8 list \<Rightarrow> nat \<Rightarrow> dbtable \<times> natmem \<Rightarrow> ((dbtable \<times> natmem) \<times> skbuff list \<times> int) option" where
  "normal_packet_handl e skb d st =
     (if \<not> buf_ok e 0 then Some (st, [], -1)
      else do {
        let l = laft (snd st);
        let new = construct_ipv6_header l (word_of_nat (length skb)) IPINIP @ skb;
        new \<leftarrow> update_network_header e l new IP6_HLEN;
        (new, st, r) \<leftarrow> update_transport_header new skb d 0 st;
        if r = -1 then Some (st, [], -1) else Some (st, [tunnel_skb new], 0) })"

text \<open>
  The loop over the fragments: \<open>left\<close> and \<open>offset\<close> are 16 bits wide; the lengths are compared as
  unsigned 32-bit numbers.  While \<open>ident\<close> is 0 a fragment is treated as the first one.  The fragment header
  of a new buffer is written last.
\<close>

partial_function (option) frag_up_loop ::
  "cpe_env \<Rightarrow> nat \<Rightarrow> u8 list \<Rightarrow> nat \<Rightarrow> nat \<Rightarrow> u32 \<Rightarrow> u16 \<Rightarrow> u16 \<Rightarrow> dbtable \<times> natmem \<Rightarrow>
     ((dbtable \<times> natmem) \<times> skbuff list \<times> int) option" where
  "frag_up_loop e max_frag_len skb d k ident left off st =
     (if left > 0
      then (let len = (if unat left > sub32 max_frag_len 48 then word_of_nat (sub32 max_frag_len 48) else left) in
            if \<not> buf_ok e k then Some (st, [], -1)
            else do {
              let l = laft (snd st);
              payload \<leftarrow> getn skb (unat off) (unat len);
              let new = construct_ipv6_header l (len + 8) NEXTHDR_FRAGMENT @ replicate 8 0 @ payload;
              (new, st, r, ident) \<leftarrow>
                (if ident = 0
                 then do { new \<leftarrow> update_network_header e l new (IP6_HLEN + IP6F_HLEN);
                           (new, st, r) \<leftarrow> update_transport_header new skb d IP6F_HLEN st;
                           Some (new, st, r, random32 e k) }
                 else Some (new, st, 0, ident));
              if r = -1 then Some (st, [], -1)
              else do {
                let left = left - len;
                new \<leftarrow> put new IP6_HLEN (construct_frag_header (if left > 0 then off OR 1 else off) ident);
                (st, out, ret) \<leftarrow> frag_up_loop e max_frag_len skb d (Suc k) ident left (off + len) st;
                Some (st, tunnel_skb new # out, ret) } })
      else Some (st, [], 0))"

definition ipv6_frag_handl ::
  "cpe_env \<Rightarrow> u8 list \<Rightarrow> nat \<Rightarrow> nat \<Rightarrow> dbtable \<times> natmem \<Rightarrow> ((dbtable \<times> natmem) \<times> skbuff list \<times> int) option" where
  "ipv6_frag_handl e skb d mtu st =
     frag_up_loop e (mtu - mtu mod 8) skb d 0 0 (word_of_nat (length skb)) 0 st"

definition encap ::
  "cpe_env \<Rightarrow> skbuff \<Rightarrow> nat \<Rightarrow> nat \<Rightarrow> dbtable \<times> natmem \<Rightarrow> ((dbtable \<times> natmem) \<times> skbuff list \<times> int) option" where
  "encap e skb d mtu st =
     do { let max_v4packet_len = mtu - IP6_HLEN;
          pkt \<leftarrow> cpe_patch_tcpmss (skb_data skb) (length (skb_data skb));
          if \<not> skb_nonlinear skb
          then if length pkt \<le> max_v4packet_len then normal_packet_handl e pkt d st
               else ipv6_frag_handl e pkt d mtu st
          else if \<not> lin_ok e then Some (st, [], -1)
          else ipv6_frag_handl e pkt d mtu st }"

definition stream_up_hook :: "cpe_env \<Rightarrow> cpe \<Rightarrow> skbuff \<Rightarrow> (cpe \<times> nf_verdict) option" where
  "stream_up_hook e c skb =
     do { let pkt = skb_data skb;
          local \<leftarrow> ipdst_filter pkt;
          if local then Some (c, nf_accept)
          else do {
            (msg, ok) \<leftarrow> stream_len_check pkt;
            let c = (case msg of None \<Rightarrow> c | Some m \<Rightarrow> c\<lparr>reports := reports c @ [m]\<rparr>);
            if ok < 0 then Some (c, nf_drop)
            else do {
              up \<leftarrow> get_hash_data_up pkt;
              (case up of
                 None \<Rightarrow> Some (c, nf_drop)
               | Some up \<Rightarrow>
                   do { (c, session_tuple) \<leftarrow> search_nat_hashtable e c pkt up;
                        (case session_tuple of
                           None \<Rightarrow> Some (c, nf_drop)
                         | Some d \<Rightarrow>
                             do { ((T, m), out, ret) \<leftarrow> encap e skb d 1280 (table c, natm c);
                                  let c = c\<lparr>table := T, natm := m, outq := outq c @ out\<rparr>;
                                  Some (c, if ret = -1 then nf_drop else nf_stolen) }) }) } } }"

end
