(* ===== verification/CpeDown.thy ===== *)
theory CpeDown
  imports CpeUp Defrag
begin

text \<open>
  The way down through the customer's box (\<open>TI/openwrt_cpe/src/pktdown.c\<close>, the hook of \<open>modules.c\<close>, and
  \<open>fragment.c\<close>): the packet is taken out of its IPv6 header, or put together from fragments with the
  operations of \<open>Defrag\<close> (\<open>shash.c\<close> is the concentrator's \<open>hash.c\<close>), matched with its session, and its
  destination translated back.
\<close>

section \<open>Surroundings\<close>

text \<open>
  \<open>lan_ok\<close> is the buffer of a whole packet, \<open>copy_ok\<close> and \<open>cb_ok\<close> the copy of a fragment and its
  control block, \<open>tab_ok\<close> what the fragment table allocates, \<open>piece_mem\<close> the buffers of the pieces,
  \<open>psd_ok\<close> the pseudo header of an inner (\<open>True\<close>) or outer checksum.
\<close>

record down_env =
  lan_ok :: bool
  copy_ok :: bool
  cb_ok :: bool
  tab_ok :: "nat \<Rightarrow> bool"
  piece_mem :: "nat \<Rightarrow> bool"
  psd_ok :: "bool \<Rightarrow> bool"
  down_send_check :: "u8 list \<Rightarrow> u8 list"

text \<open>The fragments and the static variables of \<open>fragment.c\<close>: \<open>destip\<close> is kept between calls.\<close>

record cpefrag =
  frags :: fragstate
  destip :: "u8 list"

section \<open>ICMP errors\<close>

text \<open>An ICMP message of any type but the two echo types is taken for an error; \<open>icmp\<close> is where it lies.\<close>

definition is_echo :: "u8 \<Rightarrow> bool" where "is_echo t \<longleftrightarrow> t = ICMP_ECHOREPLY \<or> t = ICMP_ECHO"

definition cpe_OuterICMPErr_get :: "u8 list \<Rightarrow> nat \<Rightarrow> (u16 \<times> u32 \<times> u8) option option" where
  "cpe_OuterICMPErr_get pkt icmp =
     do { type \<leftarrow> get8 pkt icmp;
          if is_echo type then Some None
          else do { let ip = icmp + 8;
                    extip \<leftarrow> get32 pkt (ip + 16);
                    protocol \<leftarrow> get8 pkt (ip + 9);
                    port \<leftarrow> (if protocol = IPPROTO_TCP \<or> protocol = IPPROTO_UDP then get16 pkt (ip + 20)
                            else if protocol = IPPROTO_ICMP then get16 pkt (ip + 24) else Some 0);
                    Some (Some (port, extip, protocol)) } }"

definition IsOutICMPErrPacket :: "u8 list \<Rightarrow> int option" where
  "IsOutICMPErrPacket pkt =
     do { protocol \<leftarrow> get8 pkt 9;
          if protocol = IPPROTO_ICMP
          then do { type \<leftarrow> get8 pkt 20; Some (if is_echo type then -1 else 1) }
          else Some (-1) }"

text \<open>
  The checksums of the packet at \<open>ip\<close> are computed anew, over as many bytes as its length field says.
  The old TCP checksum takes part in the sum of the new one.
\<close>

definition head_check :: "u8 list \<Rightarrow> nat \<Rightarrow> u8 list option" where
  "head_check pkt ip =
     do { pkt \<leftarrow> put pkt (ip + 10) [0, 0];
          hdr \<leftarrow> getn pkt ip 20;
          put pkt (ip + 10) (le16 (ip_checksum hdr)) }"

definition pseudo_check :: "u8 list \<Rightarrow> nat \<Rightarrow> u8 \<Rightarrow> u16 \<Rightarrow> nat \<Rightarrow> u8 list option" where
  "pseudo_check pkt ip protocol attachsize ck =
     do { addrs \<leftarrow> getn pkt (ip + 12) 8;
          data \<leftarrow> getn pkt (ip + 20) (unat attachsize);
          put pkt (ip + 20 + ck) (le16 (ip_checksum (addrs @ [0, protocol] @ be16 attachsize @ data))) }"

definition OutICMPErrCheckSum :: "bool \<Rightarrow> u8 list \<Rightarrow> nat \<Rightarrow> u8 list option" where
  "OutICMPErrCheckSum mem pkt ip =
     do { protocol \<leftarrow> get8 pkt (ip + 9);
          tot_len \<leftarrow> get16 pkt (ip + 2);
          let attachsize = tot_len - 20;
          if protocol = IPPROTO_TCP
          then if \<not> mem then Some pkt
               else do { pkt \<leftarrow> put pkt (ip + 10) [0, 0];
                         pkt \<leftarrow> pseudo_check pkt ip protocol attachsize 16;
                         head_check pkt ip }
          else if protocol = IPPROTO_UDP
          then if \<not> mem then Some pkt
               else do { pkt \<leftarrow> put pkt (ip + 26) [0, 0];
                         pkt \<leftarrow> pseudo_check pkt ip protocol attachsize 6;
                         head_check pkt ip }
          else if protocol = IPPROTO_ICMP
          then do { pkt \<leftarrow> put pkt (ip + 22) [0, 0];
                    data \<leftarrow> getn pkt (ip + 20) (if unat tot_len < 20 then 1 else unat tot_len - 20);
                    pkt \<leftarrow> put pkt (ip + 22) (le16 (ip_checksum data));
                    head_check pkt ip }
          else head_check pkt ip }"

definition OuterICMPErr_set :: "bool \<Rightarrow> u8 list \<Rightarrow> nat \<Rightarrow> u32 \<Rightarrow> u16 \<Rightarrow> u8 list option" where
  "OuterICMPErr_set mem pkt icmp inip port =
     do { type \<leftarrow> get8 pkt icmp;
          if is_echo type then Some pkt
          else do { let ip = icmp + 8;
                    pkt \<leftarrow> put pkt (ip + 12) (be32 inip);
                    protocol \<leftarrow> get8 pkt (ip + 9);
                    pkt \<leftarrow> (if protocol = IPPROTO_TCP \<or> protocol = IPPROTO_UDP then put pkt (ip + 20) (be16 port)
                           else if protocol = IPPROTO_ICMP then put pkt (ip + 24) (be16 port) else Some pkt);
                    OutICMPErrCheckSum mem pkt ip } }"

section \<open>Translating the destination\<close>

definition createpktdownkey :: "u8 list \<Rightarrow> HASH_DATA_DOWN option" where
  "createpktdownkey pkt =
     do { protocol \<leftarrow> get8 pkt 9;
          saddr \<leftarrow> get32 pkt 12;
          let key = \<lparr>down_dstip = saddr, down_newport = 0, down_proto = protocol\<rparr>;
          if protocol = IPPROTO_TCP \<or> protocol = IPPROTO_UDP
          then do { dest \<leftarrow> get16 pkt 22; Some (key\<lparr>down_newport := dest\<rparr>) }
          else if protocol = IPPROTO_ICMP
          then do { err \<leftarrow> cpe_OuterICMPErr_get pkt 20;
                    (case err of
                       Some (port, extip, proto) \<Rightarrow> Some \<lparr>down_dstip = extip, down_newport = port, down_proto = proto\<rparr>
                     | None \<Rightarrow> do { id \<leftarrow> get16 pkt 24; Some (key\<lparr>down_newport := id\<rparr>) }) }
          else Some key }"

text \<open>Two updates of the field at \<open>at\<close>: from the box's address to the one now in the packet.\<close>

definition addr_update :: "LAFT_NAT_INFO \<Rightarrow> u8 list \<Rightarrow> nat \<Rightarrow> u16 option" where
  "addr_update l pkt at =
     do { check \<leftarrow> ld16 pkt at;
          nlo \<leftarrow> ld16 (PubIP l) 0;
          nhi \<leftarrow> ld16 (PubIP l) 2;
          dlo \<leftarrow> ld16 pkt 16;
          dhi \<leftarrow> ld16 pkt 18;
          Some (csum_incremental_update (csum_incremental_update check nhi dhi) nlo dlo) }"

definition pktchecksum :: "LAFT_NAT_INFO \<Rightarrow> u8 list \<Rightarrow> SESSIONTUPLES \<Rightarrow> u8 list option" where
  "pktchecksum l pkt s =
     do { check \<leftarrow> addr_update l pkt 10;
          pkt \<leftarrow> put pkt 10 (le16 check);
          protocol \<leftarrow> get8 pkt 9;
          vi \<leftarrow> get8 pkt 0;
          let h = unat (vi AND 0x0f) * 4;
          let old = swap16 (newport s);
          let new = swap16 (oldport s);
          if protocol = IPPROTO_TCP \<or> protocol = IPPROTO_UDP
          then do { let at = h + (if protocol = IPPROTO_TCP then 16 else 6);
                    check \<leftarrow> addr_update l pkt at;
                    put pkt at (le16 (csum_incremental_update check old new)) }
          else if protocol = IPPROTO_ICMP
          then do { check \<leftarrow> ld16 pkt (h + 2);
                    put pkt (h + 2) (le16 (csum_incremental_update check old new)) }
          else Some pkt }"

text \<open>The packet as it is left, and the return value; a packet without a session is left as it is.\<close>

definition nathandle ::
  "(bool \<Rightarrow> bool) \<Rightarrow> u8 list \<Rightarrow> dbtable \<times> natmem \<Rightarrow> ((dbtable \<times> natmem) \<times> u8 list \<times> int) option" where
  "nathandle mem pkt = (\<lambda>(T, m).
     do { key \<leftarrow> createpktdownkey pkt;
          found \<leftarrow> find_session T (Down key) PKT_DOWN m;
          (case found of
             None \<Rightarrow> Some ((T, m), pkt, -1)
           | Some d \<Rightarrow>
               do { s \<leftarrow> tuples m d;
                    pkt \<leftarrow> put pkt 16 (be32 (srcip s));
                    err \<leftarrow> IsOutICMPErrPacket pkt;
                    if err > 0
                    then do { pkt \<leftarrow> OuterICMPErr_set (mem True) pkt 20 (srcip s) (oldport s);
                              pkt \<leftarrow> OutICMPErrCheckSum (mem False) pkt 0;
                              Some ((T, m), pkt, 1) }
                    else do {
                      let m = upd_tuple d (\<lambda>s. s\<lparr>con_status := con_status s OR IPS_SEEN_REPLY\<rparr>) m;
                      let l = laft m;
                      if prot s = IPPROTO_TCP
                      then do { pkt \<leftarrow> put pkt 22 (be16 (oldport s));
                                (st, r) \<leftarrow> tcp_pkt_track pkt d IP_CT_DIR_REPLY (T, m);
                                if r < 0 then Some (st, pkt, -1)
                                else do { pkt \<leftarrow> pktchecksum l pkt s; Some (st, pkt, 1) } }
                      else if prot s = IPPROTO_UDP
                      then do { pkt \<leftarrow> put pkt 22 (be16 (oldport s));
                                m \<leftarrow> udp_pkt_track d m;
                                pkt \<leftarrow> pktchecksum l pkt s;
                                Some ((T, m), pkt, 1) }
                      else if prot s = IPPROTO_ICMP
                      then do { pkt \<leftarrow> put pkt 24 (be16 (oldport s));
                                st \<leftarrow> icmp_pkt_track d IP_CT_DIR_REPLY (T, m);
                                pkt \<leftarrow> pktchecksum l pkt s;
                                Some (st, pkt, 1) }
                      else Some ((T, m), pkt, -1) } }) })"

section \<open>Fragments\<close>

definition CPE_FRAG_TIMEOUT :: int where "CPE_FRAG_TIMEOUT = 30"
definition CPE_MAX_FRAG_CNT :: u32 where "CPE_MAX_FRAG_CNT = 1024"

definition cpe_fragnodeinsert ::
    "(nat \<Rightarrow> bool) \<Rightarrow> SHASHTABLE \<Rightarrow> FRAG_CB \<Rightarrow> (SHASHTABLE \<times> FRAG_KEY option) option" where
  "cpe_fragnodeinsert ok t pfragcb =
     do { let pkt = skb_data (cb_skb pfragcb);
          fragkey \<leftarrow> createfragkey pkt;
          let insert = (\<lambda>t b.
            do { let (frags, _) = ShashFragInsert (ok 2) (fraghdr b) pfragcb;
                 (tuple, ret) \<leftarrow> updatelength (pData b) pkt;
                 Some (bucket_update t fragkey (b\<lparr>fraghdr := frags, pData := tuple\<rparr>),
                       if ret > 0 then Some fragkey else None) });
          (case ShashBucketFind t fragkey of
             None \<Rightarrow>
               if \<not> ok 0 then Some (t, None)
               else do { pfragtuple \<leftarrow> createfragtuple pkt CPE_FRAG_TIMEOUT;
                         t \<leftarrow> ShashInsert (ok 1) t fragkey pfragtuple;
                         b \<leftarrow> ShashBucketFind t fragkey;
                         insert t (b\<lparr>cnt := cnt b + 1\<rparr>) }
           | Some b \<Rightarrow>
               let b = b\<lparr>cnt := cnt b + 1\<rparr> in
               if cnt b > CPE_MAX_FRAG_CNT then Some (bucket_update t fragkey b, None)
               else insert t (b\<lparr>pData := updatetupletimeout (pData b) CPE_FRAG_TIMEOUT\<rparr>)) }"

text \<open>\<open>ip_send_check\<close> gets the \<open>ihl\<close> words of the header.  The offset is passed as an \<open>unsigned short\<close>.\<close>

definition frag_nathandle ::
  "down_env \<Rightarrow> u8 list \<Rightarrow> nat \<Rightarrow> (dbtable \<times> natmem) \<times> u8 list
     \<Rightarrow> (((dbtable \<times> natmem) \<times> u8 list) \<times> u8 list \<times> int) option" where
  "frag_nathandle e pkt off = (\<lambda>(st, destip).
     do { let check = (\<lambda>pkt. do { vi \<leftarrow> get8 pkt 0;
                                  hdr \<leftarrow> getn pkt 0 (unat (vi AND 0x0f) * 4);
                                  put pkt 0 (down_send_check e hdr) });
          if off mod 65536 = 0
          then do { (st, pkt, r) \<leftarrow> nathandle (psd_ok e) pkt st;
                    if r < 0 then Some ((st, destip), pkt, -1)
                    else do { destip \<leftarrow> getn pkt 16 4; pkt \<leftarrow> check pkt; Some ((st, destip), pkt, 1) } }
          else do { pkt \<leftarrow> put pkt 16 destip; pkt \<leftarrow> check pkt; Some ((st, destip), pkt, 1) } })"

text \<open>A packet for the customer's network, as it is handed to \<open>SENDSKB\<close>.\<close>

definition lan_skb :: "u8 list \<Rightarrow> skbuff" where
  "lan_skb pkt = \<lparr>h_dest = [], h_source = [], h_proto = ETH_P_IP, skb_data = pkt, skb_nonlinear = False\<rparr>"

text \<open>A piece of the packet behind the common header; the result of \<open>frag_nathandle\<close> is not looked at.\<close>

definition piece :: "u8 list \<Rightarrow> u8 list \<Rightarrow> nat \<times> nat \<Rightarrow> u8 list option" where
  "piece hdr fragpkt f =
     (let (off, flen) = f in
      do { hdr \<leftarrow> put hdr 6 (be16 (if flen + off < length fragpkt then word_of_nat (off div 8) OR 0x2000
                                   else word_of_nat (off div 8)));
           hdr \<leftarrow> put hdr 2 (be16 (word_of_nat (flen + 20)));
           payload \<leftarrow> getn fragpkt off flen;
           Some (hdr @ payload) })"

fun send_pieces ::
  "down_env \<Rightarrow> nat \<Rightarrow> u8 list \<Rightarrow> u8 list \<Rightarrow> (nat \<times> nat) list \<Rightarrow> (dbtable \<times> natmem) \<times> u8 list
     \<Rightarrow> (((dbtable \<times> natmem) \<times> u8 list) \<times> skbuff list) option" where
  "send_pieces e k hdr fragpkt [] st = Some (st, [])"
| "send_pieces e k hdr fragpkt (f # fs) st =
     (if \<not> piece_mem e k then Some (st, [])
      else do { content \<leftarrow> piece hdr fragpkt f;
                (st, content, _) \<leftarrow> frag_nathandle e content (fst f) st;
                (st, out) \<leftarrow> send_pieces e (Suc k) hdr fragpkt fs st;
                Some (st, lan_skb content # out) })"

text \<open>The sizes follow the rule of \<open>frag_plan\<close>, with an MTU of 1500 and whatever the length.\<close>

definition cpe_pkt_fraghandle ::
  "down_env \<Rightarrow> u8 list \<Rightarrow> (dbtable \<times> natmem) \<times> u8 list \<Rightarrow> (((dbtable \<times> natmem) \<times> u8 list) \<times> skbuff list) option" where
  "cpe_pkt_fraghandle e pkt st =
     do { hdr \<leftarrow> getn pkt 0 20;
          let fragpkt = drop 20 pkt;
          fs \<leftarrow> frag_plan 20 1500 (length fragpkt);
          send_pieces e 0 hdr fragpkt fs st }"

definition cpe_fragprocess ::
  "down_env \<Rightarrow> FRAG_KEY \<Rightarrow> (dbtable \<times> natmem) \<times> cpefrag \<Rightarrow> (((dbtable \<times> natmem) \<times> cpefrag) \<times> skbuff list) option" where
  "cpe_fragprocess e fraghead = (\<lambda>(st, fr).
     do { let t = pshashtable (frags fr);
          b \<leftarrow> ShashBucketFind t fraghead;
          (buf, pktlen) \<leftarrow> fragcopy (fraghdr b) (frag4buf (frags fr)) 0;
          let fr = fr\<lparr>frags := \<lparr>pshashtable = bucket_update t fraghead (b\<lparr>fraghdr := []\<rparr>), frag4buf = buf\<rparr>\<rparr>;
          if fraghdr b = [] then Some ((st, fr), [])
          else do { pkt \<leftarrow> getn buf 0 pktlen;
                    ((st, dst), out) \<leftarrow> cpe_pkt_fraghandle e pkt (st, destip fr);
                    Some ((st, fr\<lparr>destip := dst\<rparr>), out) } })"

section \<open>The hook\<close>

definition ipiphandle :: "u8 list \<Rightarrow> u8 list option" where
  "ipiphandle pkt =
     do { payload \<leftarrow> get16 pkt 4;
          moved \<leftarrow> getn pkt 40 (unat payload);
          Some (take (length pkt - 40) (moved @ drop (unat payload) pkt)) }"

definition isfragipip :: "u8 list \<Rightarrow> u8 option" where
  "isfragipip pkt = do { nexthdr \<leftarrow> get8 pkt 40; Some (if nexthdr = 0x04 then 1 else 0) }"

definition getfragoffset :: "u8 list \<Rightarrow> (u16 \<times> u8 \<times> u16) option" where
  "getfragoffset pkt =
     do { frag_off \<leftarrow> get16 pkt 42;
          payload_len \<leftarrow> get16 pkt 4;
          Some (frag_off AND FRAG_OFFSET, ucast (frag_off AND FRAG_MORE), payload_len - 8) }"

text \<open>The result holds the packet as it is left, what fragments led to send, and the return value.\<close>

definition ipv6handle ::
  "down_env \<Rightarrow> skbuff \<Rightarrow> (dbtable \<times> natmem) \<times> cpefrag
     \<Rightarrow> (((dbtable \<times> natmem) \<times> cpefrag) \<times> u8 list \<times> skbuff list \<times> int) option" where
  "ipv6handle e skb = (\<lambda>(st, fr).
     do { let pkt = skb_data skb;
          let l = laft (snd st);
          saddr \<leftarrow> getn pkt 8 16;
          daddr \<leftarrow> getn pkt 24 16;
          nexthdr \<leftarrow> get8 pkt 6;
          if saddr = IPv6LocalAddr l \<and> nexthdr = IPINIP then Some ((st, fr), pkt, [], 1)
          else if daddr \<noteq> IPv6LocalAddr l then Some ((st, fr), pkt, [], 1)
          else if nexthdr = IPINIP
          then do { pkt \<leftarrow> ipiphandle pkt;
                    pkt \<leftarrow> cpe_patch_tcpmss pkt (length pkt);
                    (st, pkt, r) \<leftarrow> nathandle (psd_ok e) pkt st;
                    Some ((st, fr), pkt, [], if r < 0 then -1 else 0) }
          else if nexthdr = NEXTHDR_FRAGMENT
          then do { ipip \<leftarrow> isfragipip pkt;
                    if ipip = 0 then Some ((st, fr), pkt, [], 1)
                    else do {
                      (off, mf, len) \<leftarrow> getfragoffset pkt;
                      if \<not> copy_ok e \<or> \<not> cb_ok e then Some ((st, fr), pkt, [], -1)
                      else do {
                        (t, fraghead) \<leftarrow> cpe_fragnodeinsert (tab_ok e) (pshashtable (frags fr))
                           \<lparr>cb_offset = off, cb_mf = mf, cb_length = len, cb_skb = skb\<rparr>;
                        let fr = fr\<lparr>frags := (frags fr)\<lparr>pshashtable := t\<rparr>\<rparr>;
                        ((st, fr), out) \<leftarrow> (case fraghead of
                             None \<Rightarrow> Some ((st, fr), [])
                           | Some k \<Rightarrow> cpe_fragprocess e k (st, fr));
                        Some ((st, fr), pkt, out, -1) } } }
          else Some ((st, fr), pkt, [], 1) })"

text \<open>Only the first byte is looked at: version 6 and a traffic class below 16.\<close>

definition skbuf_handle ::
  "down_env \<Rightarrow> skbuff \<Rightarrow> (dbtable \<times> natmem) \<times> cpefrag
     \<Rightarrow> (((dbtable \<times> natmem) \<times> cpefrag) \<times> u8 list \<times> skbuff list \<times> int) option" where
  "skbuf_handle e skb st =
     do { b \<leftarrow> get8 (skb_data skb) 0;
          if b = 0x60 then ipv6handle e skb st else Some (st, skb_data skb, [], 1) }"

definition stream_down_hook ::
  "down_env \<Rightarrow> cpe \<Rightarrow> cpefrag \<Rightarrow> skbuff \<Rightarrow> (cpe \<times> cpefrag \<times> nf_verdict) option" where
  "stream_down_hook e c fr skb =
     do { (((T, m), fr), pkt, out, ret) \<leftarrow> skbuf_handle e skb ((table c, natm c), fr);
          let c = c\<lparr>table := T, natm := m, outq := outq c @ out\<rparr>;
          if ret < 0 then Some (c, fr, nf_drop)
          else if ret = 0
          then if \<not> lan_ok e then Some (c, fr, nf_drop)
               else Some (c\<lparr>outq := outq c @ [lan_skb pkt]\<rparr>, fr, nf_drop)
          else Some (c, fr, nf_accept) }"

section \<open>Starting and the timers\<close>

text \<open>What \<open>modules_init\<close> sets up of the state: the tables, and the buffer of the reassembly.\<close>

definition cpe_modules_init :: "bool \<Rightarrow> bool \<Rightarrow> (nat \<Rightarrow> bool) \<Rightarrow> natmem \<Rightarrow> icmp_statics \<Rightarrow> u8 list \<Rightarrow> (cpe \<times> cpefrag option) option" where
  "cpe_modules_init cb_mem bucket_mem frag_mem m ic buf =
     do { T \<leftarrow> DBKeyHashTableCreate cb_mem bucket_mem MAX_ENTRY;
          Some (\<lparr>natm = m, table = T, icmps = ic, outq = [], reports = []\<rparr>,
                map_option (\<lambda>f. \<lparr>frags = f, destip = replicate 4 0\<rparr>) (initfragmodule frag_mem buf)) }"

definition cpe_timer :: "cpe \<Rightarrow> cpe option" where
  "cpe_timer c = do { (T, m) \<leftarrow> sessiontmrhandle (table c) (natm c); Some (c\<lparr>table := T, natm := m\<rparr>) }"

definition cpe_fragtimeout :: "cpefrag \<Rightarrow> cpefrag" where
  "cpe_fragtimeout fr = fr\<lparr>frags := fragtimeouthandle (frags fr)\<rparr>"

end
