(* ===== verification/Rewrite.thy ===== *)
theory Rewrite
  imports Checksum
begin

text \<open>
  Rewriting fields of a packet: writes behind a prefix, the sum of a buffer after a write, and the
  effect of a rewritten address and port together with an incrementally updated checksum.  The
  translations of both directions rest on these lemmas.
\<close>

section \<open>Writes and reads behind a prefix\<close>

lemma put_append: "length h \<le> i \<Longrightarrow> put (h @ p) i b = map_option ((@) h) (put p (i - length h) b)"
  by (auto simp: put_def)

lemma ld16_append: "length h \<le> i \<Longrightarrow> ld16 (h @ p) i = ld16 p (i - length h)"
  by (simp add: ld16_get16)

lemma put_exists:
  assumes "i + length b \<le> length p" obtains q where "put p i b = Some q" "length q = length p"
  using assms put_Some_iff [of p i b] put_length [of p i b] by auto

lemma get16_exists: "i + 1 < length p \<Longrightarrow> \<exists>v. get16 p i = Some v"
  by (simp add: get16_def)

lemma put_take: "put p i b = Some q \<Longrightarrow> n \<le> i \<Longrightarrow> take n q = take n p"
  by (auto simp: put_def min_def split: if_splits)

lemma put_drop_after: "put p i b = Some q \<Longrightarrow> i + length b \<le> n \<Longrightarrow> drop n q = drop n p"
  by (auto simp: put_def split: if_splits)

lemma put_here: "put p i b = Some q \<Longrightarrow> take (length b) (drop i q) = b"
  by (auto simp: put_def split: if_splits)

lemma put_twice:
  assumes "put p i a = Some q" "length b = length a" shows "put q i b = put p i b"
  using put_take [OF assms(1), of i] put_drop_after [OF assms(1), of "i + length a"] put_length [OF assms(1)] assms(2)
  by (simp add: put_def)

lemma put_same: "i + n \<le> length p \<Longrightarrow> put p i (take n (drop i p)) = Some p"
  by (simp add: put_def) (metis append.assoc append_take_drop_id drop_drop add.commute take_add)

lemma split_at: "take n p = take n q \<Longrightarrow> drop n p = drop n q \<Longrightarrow> p = q"
  by (metis append_take_drop_id)

lemma take_pair: "i + 1 < length p \<Longrightarrow> take 2 (drop i p) = [p ! i, p ! (i + 1)]"
  by (simp add: take_Suc_conv_app_nth eval_nat_numeral nth_drop hd_drop_conv_nth)

lemma put_be16_same: "get16 p i = Some v \<Longrightarrow> put p i (be16 v) = Some p"
proof -
  assume g: "get16 p i = Some v"
  then have l: "i + 1 < length p" and v: "v = word_cat (p ! i) (p ! (i + 1))" by (auto simp: get16_def split: if_splits)
  have "be16 v = take 2 (drop i p)" unfolding v take_pair [OF l] by (simp add: be16_def cat_low cat_high)
  then show ?thesis using put_same [of i 2 p] l by simp
qed

section \<open>Sums\<close>

text \<open>Writing a field of even length at an even place exchanges its sum.\<close>

lemma word_sum_splice:
  assumes "put p i b = Some q" "even i" "even (length b)"
  shows "word_sum q + word_sum (take (length b) (drop i p)) = word_sum p + word_sum b"
proof -
  let ?n = "length b"
  have l: "i + ?n \<le> length p" and q: "q = take i p @ b @ drop (i + ?n) p"
    using assms(1) by (auto simp: put_def split: if_splits)
  have p: "p = take i p @ take ?n (drop i p) @ drop (i + ?n) p"
    by (metis append_take_drop_id drop_drop add.commute)
  have "word_sum p = word_sum (take i p) + (word_sum (take ?n (drop i p)) + word_sum (drop (i + ?n) p))"
    by (subst p) (use l assms(2,3) in \<open>simp add: word_sum_append min_absorb2\<close>)
  moreover have "word_sum q = word_sum (take i p) + (word_sum b + word_sum (drop (i + ?n) p))"
    unfolding q using l assms(2,3) by (simp add: word_sum_append min_absorb2)
  ultimately show ?thesis by simp
qed

lemma word_sum_halves:
  assumes "length a = 4" "get16 a 0 = Some h" "get16 a 2 = Some l"
  shows "word_sum a = unat h + unat l"
proof -
  obtain w x y z where "a = [w, x, y, z]"
    using assms(1) by (auto simp: length_Suc_conv eval_nat_numeral)
  then show ?thesis using assms(2,3) by (auto simp: get16_def unat_cat)
qed

text \<open>Two updates of a checksum for the two halves of an address.\<close>

definition csum_addr :: "u16 \<Rightarrow> u8 list \<Rightarrow> u8 list \<Rightarrow> u16 option" where
  "csum_addr c old new =
     do { oh \<leftarrow> get16 old 0; ol \<leftarrow> get16 old 2; nh \<leftarrow> get16 new 0; nl \<leftarrow> get16 new 2;
          Some (csum_incremental_update (csum_incremental_update c ol nl) oh nh) }"

lemma csum_addr_ok:
  assumes "length old = 4" "length new = 4"
  obtains c' where "csum_addr c old new = Some c'"
    "(unat c' + word_sum new) mod 65535 = (unat c + word_sum old) mod 65535"
proof -
  obtain oh ol nh nl where g: "get16 old 0 = Some oh" "get16 old 2 = Some ol" "get16 new 0 = Some nh" "get16 new 2 = Some nl"
    using get16_exists [of 0 old] get16_exists [of 2 old] get16_exists [of 0 new] get16_exists [of 2 new] assms by auto
  let ?c1 = "csum_incremental_update c ol nl"
  let ?c2 = "csum_incremental_update ?c1 oh nh"
  have "(unat ?c2 + (unat nh + unat nl)) mod 65535 = (unat ?c2 + unat nh + unat nl) mod 65535" by (simp add: add.assoc)
  also have "\<dots> = (unat ?c1 + unat oh + unat nl) mod 65535"
    by (intro mod_add_cong csum_incremental_mod refl)
  also have "\<dots> = (unat ?c1 + unat nl + unat oh) mod 65535" by (simp add: ac_simps)
  also have "\<dots> = (unat c + unat ol + unat oh) mod 65535"
    by (intro mod_add_cong csum_incremental_mod refl)
  finally have "(unat ?c2 + word_sum new) mod 65535 = (unat c + word_sum old) mod 65535"
    using word_sum_halves [OF assms(1) g(1,2)] word_sum_halves [OF assms(2) g(3,4)] by (simp add: ac_simps)
  then show ?thesis using that [of ?c2] g by (simp add: csum_addr_def)
qed

text \<open>
  A port and a checksum are written into a transport header; the checksum makes up for the port
  and for what the pseudo header gains.
\<close>

lemma rewrite_sum:
  assumes "put t i (be16 np) = Some t1" "put t1 j (be16 c') = Some t2" "get16 t i = Some op" "get16 t j = Some c"
    and "even i" "even j" "i + 2 \<le> j \<or> j + 2 \<le> i"
    and "(unat c' + (unat np + new)) mod 65535 = (unat c + (unat op + old)) mod 65535"
  shows "(word_sum t2 + new) mod 65535 = (word_sum t + old) mod 65535"
    "get16 t2 i = Some np" "length t2 = length t"
    "\<And>k. k < length t \<Longrightarrow> k \<notin> {i, i + 1, j, j + 1} \<Longrightarrow> t2 ! k = t ! k"
proof -
  have "get16 t1 j = Some c" using get16_put_other [OF assms(1), of j] assms(4,7) by auto
  then have "word_sum t2 + unat c = word_sum t1 + unat c'" by (rule word_sum_put(1) [OF assms(2) _ assms(6)])
  moreover have "word_sum t1 + unat op = word_sum t + unat np" by (rule word_sum_put(1) [OF assms(1,3,5)])
  ultimately have "word_sum t2 + new + (unat c + (unat op + old)) = word_sum t + old + (unat c' + (unat np + new))" by simp
  then show "(word_sum t2 + new) mod 65535 = (word_sum t + old) mod 65535" using assms(8) by (rule mod_swap)
  show "get16 t2 i = Some np"
    using get16_put_other [OF assms(2), of i] assms(7) word_sum_put(2) [OF assms(1,3,5)] by auto
  show "length t2 = length t" using put_length [OF assms(1)] put_length [OF assms(2)] by simp
  show "t2 ! k = t ! k" if "k < length t" "k \<notin> {i, i + 1, j, j + 1}" for k
  proof -
    have "k < i \<or> i + 2 \<le> k" "k < j \<or> j + 2 \<le> k" using that(2) by auto
    then show ?thesis
      using nth_put [OF assms(1), of k] nth_put [OF assms(2), of k] put_length [OF assms(1)] that(1) by auto
  qed
qed

end
