(* ===== verification/UpTranslate.thy ===== *)
theory UpTranslate
  imports CpeUp Rewrite
begin

text \<open>
  The translated packet of the way up (\<open>TI/openwrt_cpe/src/pktgen.c\<close>): it carries the box's address and
  the session's port, its other bytes are those of the original, and its checksum verifies when the old one
  did.
\<close>

section \<open>The headers\<close>

definition ip20 :: "u8 list \<Rightarrow> bool" where "ip20 p \<longleftrightarrow> 20 \<le> length p \<and> p ! 0 = 0x45"

lemma ip20_get8: "ip20 p \<Longrightarrow> get8 p 0 = Some 0x45"
  by (auto simp: ip20_def get8_def)

lemma drop_nth_eq: "length q = length p \<Longrightarrow> drop n q = drop n p \<Longrightarrow> n \<le> i \<Longrightarrow> i < length p \<Longrightarrow> q ! i = p ! i"
  by (metis le_add_diff_inverse nth_drop order_less_imp_le order_le_less_trans)

lemma update_network_ok:
  assumes "ip20 p" "length (PubIP L) = 4" "csum_ok (ip_send_check e)" "length h = off"
  obtains q where "update_network_header e L (h @ p) off = Some (h @ q)" "length q = length p" "drop 20 q = drop 20 p"
    "take 4 (drop 12 q) = PubIP L" "\<And>i. i < 20 \<Longrightarrow> i \<notin> {10..15} \<Longrightarrow> q ! i = p ! i"
proof -
  have l: "20 \<le> length p" and z: "p ! 0 = 0x45" using assms(1) by (auto simp: ip20_def)
  obtain p1 where p1: "put p 12 (PubIP L) = Some p1" "length p1 = length p"
    by (rule put_exists [of 12 "PubIP L" p]) (use l assms(2) in auto)
  have z1: "p1 ! i = p ! i" if "i < length p" "i < 12 \<or> 16 \<le> i" for i
    using nth_put [OF p1(1)] that assms(2) by simp
  let ?s = "ip_send_check e (take 20 p1)"
  have s: "length ?s = 20" "\<And>i. i < 20 \<Longrightarrow> i \<noteq> 10 \<Longrightarrow> i \<noteq> 11 \<Longrightarrow> ?s ! i = p1 ! i"
    using assms(3) l p1(2) by (auto simp: csum_ok_def)
  obtain q where q: "put p1 0 ?s = Some q" "length q = length p"
    by (rule put_exists [of 0 ?s p1]) (use s p1(2) l in auto)
  have q': "q = ?s @ drop 20 p1" using q(1) s(1) by (simp add: put_def split: if_splits)
  have b: "(0x45 :: u8) AND 0x0f = 5" by simp
  have g: "get8 p1 0 = Some 0x45" using z z1 [of 0] l p1(2) by (cases p1) (auto simp: get8_def)
  have up: "update_network_header e L (h @ p) off = Some (h @ q)"
    using assms(4) p1 g l q(1) by (simp add: update_network_header_def put_append getn_def b)
  have d: "drop 20 q = drop 20 p"
    using put_drop_after [OF p1(1), of 20] assms(2) s(1) by (simp add: q')
  have a: "take 4 (drop 12 q) = PubIP L"
  proof (rule nth_equalityI)
    fix i assume "i < length (take 4 (drop 12 q))"
    then have i: "i < 4" by simp
    have "q ! (12 + i) = p1 ! (12 + i)" using i s by (simp add: q' nth_append)
    moreover have "p1 ! (12 + i) = PubIP L ! i"
      using p1(1) i assms(2) by (auto simp: put_def nth_append split: if_splits)
    ultimately show "take 4 (drop 12 q) ! i = PubIP L ! i" using i l q(2) by simp
  qed (use assms(2) q(2) l in simp)
  have o: "q ! i = p ! i" if "i < 20" "i \<notin> {10..15}" for i
  proof -
    have "q ! i = p1 ! i" using that s(1) s(2) [of i] by (auto simp: q' nth_append)
    moreover have "p1 ! i = p ! i" by (rule z1) (use that l in auto)
    ultimately show ?thesis by simp
  qed
  show ?thesis by (rule that [OF up q(2) d a o])
qed

text \<open>Addresses are compared with what \<open>ld16\<close> reads of them.\<close>

lemma csum_addr_native:
  assumes "length old = 4" "length new = 4" "csum_addr c old new = Some c'"
    "ld16 old 0 = Some oh" "ld16 old 2 = Some ol" "ld16 new 0 = Some nh" "ld16 new 2 = Some nl"
  shows "csum_incremental_update (csum_incremental_update (swap16 c) ol nl) oh nh = swap16 c'"
  using assms(3-) by (auto simp: csum_addr_def ld16_get16 csum_incremental_swap option_simps)

lemma ld16_take: "i + 1 < n \<Longrightarrow> ld16 (take n (drop k p)) i = ld16 p (k + i)"
  by (auto simp: ld16_def)

lemma update_checked_ok:
  assumes p: "ip20 p" "22 + ck \<le> length p" "even ck" "2 \<le> ck" and L: "length (PubIP L) = 4"
    and h: "length h = IP6_HLEN + off" and q: "length q = length p" "drop 20 q = drop 20 p"
  obtains r where "update_checked_header ck L (h @ q) p off (swap16 np) = Some (h @ r)" "length r = length p"
    "take 20 r = take 20 q" "get16 r 20 = Some np"
    "\<And>i. 20 \<le> i \<Longrightarrow> i < length p \<Longrightarrow> i \<notin> {20, 21, 20 + ck, 21 + ck} \<Longrightarrow> r ! i = p ! i"
    "(word_sum (drop 20 r) + word_sum (PubIP L)) mod 65535 = (word_sum (drop 20 p) + word_sum (take 4 (drop 12 p))) mod 65535"
proof -
  have l: "20 \<le> length p" using p(1) by (simp add: ip20_def)
  let ?old = "take 4 (drop 12 p)" and ?t = "drop 20 p"
  have o4: "length ?old = 4" using l by simp
  obtain op c where g: "get16 p 20 = Some op" "get16 p (20 + ck) = Some c"
    using get16_exists [of 20 p] get16_exists [of "20 + ck" p] p by auto
  obtain c1 where c1: "csum_addr c ?old (PubIP L) = Some c1"
    "(unat c1 + word_sum (PubIP L)) mod 65535 = (unat c + word_sum ?old) mod 65535"
    by (rule csum_addr_ok [OF o4 L])
  let ?c2 = "csum_incremental_update c1 op np"
  have c2: "(unat ?c2 + (unat np + word_sum (PubIP L))) mod 65535 = (unat c + (unat op + word_sum ?old)) mod 65535"
  proof -
    have "(unat ?c2 + unat np + word_sum (PubIP L)) mod 65535 = (unat c1 + unat op + word_sum (PubIP L)) mod 65535"
      by (intro mod_add_cong csum_incremental_mod refl)
    also have "\<dots> = (unat c1 + word_sum (PubIP L) + unat op) mod 65535" by (simp add: ac_simps)
    also have "\<dots> = (unat c + word_sum ?old + unat op) mod 65535" by (intro mod_add_cong c1(2) refl)
    finally show ?thesis by (simp add: ac_simps)
  qed
  obtain t1 where t1: "put ?t 0 (be16 np) = Some t1" "length t1 = length ?t"
    by (rule put_exists [of 0 "be16 np" ?t]) (use p in auto)
  obtain t2 where t2: "put t1 ck (be16 ?c2) = Some t2" "length t2 = length ?t"
    by (rule put_exists [of ck "be16 ?c2" t1]) (use p t1 in auto)
  have gt: "get16 ?t 0 = Some op" "get16 ?t ck = Some c"
    using g get16_drop [of 20 20 p] get16_drop [of 20 "20 + ck" p] by simp_all
  have disj: "0 + 2 \<le> ck \<or> ck + 2 \<le> (0 :: nat)" using p(4) by simp
  note R = rewrite_sum [OF t1(1) t2(1) gt even_zero p(3) disj c2]
  let ?r = "take 20 q @ t2"
  have q': "q = take 20 q @ ?t" using q(2) by (metis append_take_drop_id)
  have n20: "length (take 20 q) = 20" using q(1) l by simp
  have w1: "put (h @ q) (IP6_HLEN + 20 + off) (be16 np) = Some (h @ take 20 q @ t1)"
    using h t1(1) n20 by (subst q') (simp add: put_append)
  have w2: "put (h @ take 20 q @ t1) (IP6_HLEN + 20 + off + ck) (be16 ?c2) = Some (h @ ?r)"
    using h t2(1) n20 by (simp add: put_append)
  have gc: "ld16 (h @ take 20 q @ t1) (IP6_HLEN + 20 + off + ck) = Some (swap16 c)"
    using get16_put_other [OF t1(1), of ck] gt(2) p(4) h n20 by (simp add: ld16_append ld16_get16)
  obtain oh ol nh nl where ld: "ld16 p 12 = Some oh" "ld16 p 14 = Some ol" "ld16 (PubIP L) 0 = Some nh" "ld16 (PubIP L) 2 = Some nl"
    using l L by (simp add: ld16_def)
  have ld': "ld16 ?old 0 = Some oh" "ld16 ?old 2 = Some ol"
    using ld ld16_take [of 0 4 12 p] ld16_take [of 2 4 12 p] by simp_all
  have ch: "csum_incremental_update (csum_incremental_update (csum_incremental_update (swap16 c) ol nl) oh nh) (swap16 op) (swap16 np) = swap16 ?c2"
    unfolding csum_addr_native [OF o4 L c1(1) ld' ld(3,4)] by (rule csum_incremental_swap)
  have b: "(0x45 :: u8) AND 0x0f = 5" by simp
  have lp: "ld16 p 20 = Some (swap16 op)" using g(1) by (simp add: ld16_get16)
  have u: "update_checked_header ck L (h @ q) p off (swap16 np) = Some (h @ ?r)"
    using ip20_get8 [OF p(1)] ld lp w1 gc w2 ch by (simp add: update_checked_header_def b)
  show ?thesis
  proof (rule that [OF u])
    show "length ?r = length p" using n20 t2(2) l by simp
    show "take 20 ?r = take 20 q" using n20 by simp
    show "get16 ?r 20 = Some np" using n20 R(2) by simp
    show "?r ! i = p ! i" if "20 \<le> i" "i < length p" "i \<notin> {20, 21, 20 + ck, 21 + ck}" for i
    proof -
      have "t2 ! (i - 20) = ?t ! (i - 20)"
        by (rule R(4)) (use that l in auto)
      then show ?thesis using that n20 by (simp add: nth_append)
    qed
    show "(word_sum (drop 20 ?r) + word_sum (PubIP L)) mod 65535 = (word_sum ?t + word_sum ?old) mod 65535"
      using R(1) n20 by simp
  qed
qed


text \<open>For ICMP the pseudo header has no part; the identifier is exchanged.\<close>

lemma update_icmp_ok:
  assumes p: "ip20 p" "26 \<le> length p" and h: "length h = IP6_HLEN + off" and q: "length q = length p" "drop 20 q = drop 20 p"
  obtains r where "update_icmp_header (h @ q) p off (swap16 np) = Some (h @ r)" "length r = length p"
    "take 20 r = take 20 q" "get16 r 24 = Some np"
    "\<And>i. 20 \<le> i \<Longrightarrow> i < length p \<Longrightarrow> i \<notin> {22, 23, 24, 25} \<Longrightarrow> r ! i = p ! i"
    "word_sum (drop 20 r) mod 65535 = word_sum (drop 20 p) mod 65535"
proof -
  have l: "20 \<le> length p" using p(1) by (simp add: ip20_def)
  let ?t = "drop 20 p"
  obtain op c where g: "get16 p 24 = Some op" "get16 p 22 = Some c"
    using get16_exists [of 24 p] get16_exists [of 22 p] p by auto
  let ?c2 = "csum_incremental_update c op np"
  have c2: "(unat ?c2 + (unat np + 0)) mod 65535 = (unat c + (unat op + 0)) mod 65535"
    using csum_incremental_mod by simp
  obtain t1 where t1: "put ?t 4 (be16 np) = Some t1" "length t1 = length ?t"
    by (rule put_exists [of 4 "be16 np" ?t]) (use p in auto)
  obtain t2 where t2: "put t1 2 (be16 ?c2) = Some t2" "length t2 = length ?t"
    by (rule put_exists [of 2 "be16 ?c2" t1]) (use p t1 in auto)
  have gt: "get16 ?t 4 = Some op" "get16 ?t 2 = Some c"
    using g get16_drop [of 20 24 p] get16_drop [of 20 22 p] by simp_all
  have ev: "even (4 :: nat)" "even (2 :: nat)" and disj: "4 + 2 \<le> 2 \<or> 2 + 2 \<le> (4 :: nat)" by simp_all
  note R = rewrite_sum [OF t1(1) t2(1) gt ev disj c2]
  let ?r = "take 20 q @ t2"
  have q': "q = take 20 q @ ?t" using q(2) by (metis append_take_drop_id)
  have n20: "length (take 20 q) = 20" using q(1) l by simp
  have w1: "put (h @ q) (IP6_HLEN + 20 + off + 4) (be16 np) = Some (h @ take 20 q @ t1)"
    using h t1(1) n20 by (subst q') (simp add: put_append)
  have w2: "put (h @ take 20 q @ t1) (IP6_HLEN + 20 + off + 2) (be16 ?c2) = Some (h @ ?r)"
    using h t2(1) n20 by (simp add: put_append)
  have b: "(0x45 :: u8) AND 0x0f = 5" by simp
  have lp: "ld16 p 22 = Some (swap16 c)" "ld16 p 24 = Some (swap16 op)" using g by (simp_all add: ld16_get16)
  have u: "update_icmp_header (h @ q) p off (swap16 np) = Some (h @ ?r)"
    using ip20_get8 [OF p(1)] lp w1 w2 by (simp add: update_icmp_header_def b csum_incremental_swap)
  show ?thesis
  proof (rule that [OF u])
    show "length ?r = length p" using n20 t2(2) l by simp
    show "take 20 ?r = take 20 q" using n20 by simp
    show "get16 ?r 24 = Some np" using n20 R(2) by simp
    show "?r ! i = p ! i" if "20 \<le> i" "i < length p" "i \<notin> {22, 23, 24, 25}" for i
    proof -
      have "t2 ! (i - 20) = ?t ! (i - 20)"
        by (rule R(4)) (use that l in auto)
      then show ?thesis using that n20 by (simp add: nth_append)
    qed
    show "word_sum (drop 20 ?r) mod 65535 = word_sum ?t mod 65535"
      using R(1) n20 by simp
  qed
qed


section \<open>The packet\<close>

text \<open>Where a protocol has its port or identifier on the way up, and its checksum.\<close>

definition port_at :: "u8 \<Rightarrow> nat" where "port_at q = (if q = IPPROTO_ICMP then 24 else 20)"
definition check_at :: "u8 \<Rightarrow> nat" where
  "check_at q = (if q = IPPROTO_TCP then 36 else if q = IPPROTO_UDP then 26 else 22)"

definition handled :: "u8 \<Rightarrow> bool" where
  "handled q \<longleftrightarrow> q = IPPROTO_TCP \<or> q = IPPROTO_UDP \<or> q = IPPROTO_ICMP"

text \<open>What the code reads and writes of a packet without options in its IP header.\<close>

definition packet_ok :: "u8 list \<Rightarrow> bool" where
  "packet_ok p \<longleftrightarrow> ip20 p \<and> handled (p ! 9) \<and> check_at (p ! 9) + 2 \<le> length p \<and> port_at (p ! 9) + 2 \<le> length p"

text \<open>
  The translation of \<open>p\<close>: its source address is the box's, its source port (or identifier) \<open>np\<close>, and
  nothing else but the two checksums has changed.  The sum the transport checksum is taken of (with the
  addresses of the pseudo header, which ICMP has none of) is congruent to what it was.
\<close>

definition translated :: "LAFT_NAT_INFO \<Rightarrow> u16 \<Rightarrow> u8 list \<Rightarrow> u8 list \<Rightarrow> bool" where
  "translated L np p r \<longleftrightarrow> (let q = p ! 9; n = if q = IPPROTO_ICMP then 20 else 12 in
     length r = length p \<and> take 4 (drop 12 r) = PubIP L \<and> get16 r (port_at q) = Some np
     \<and> (\<forall>i < length p. i \<notin> {10..15} \<union> {port_at q, port_at q + 1, check_at q, check_at q + 1} \<longrightarrow> r ! i = p ! i)
     \<and> word_sum (drop n r) mod 65535 = word_sum (drop n p) mod 65535)"

lemma word_sum_addresses:
  assumes "20 \<le> length p"
  shows "word_sum (drop 12 p) = word_sum (take 4 (drop 12 p)) + (word_sum (take 4 (drop 16 p)) + word_sum (drop 20 p))"
proof -
  have "word_sum (drop 12 p) = word_sum (take 4 (drop 12 p)) + word_sum (drop 16 p)"
    using word_sum_append [of "take 4 (drop 12 p)" "drop 4 (drop 12 p)"] assms unfolding append_take_drop_id by simp
  moreover have "word_sum (drop 16 p) = word_sum (take 4 (drop 16 p)) + word_sum (drop 20 p)"
    using word_sum_append [of "take 4 (drop 16 p)" "drop 4 (drop 16 p)"] assms unfolding append_take_drop_id by simp
  ultimately show ?thesis by simp
qed

lemma translated_parts:
  assumes "20 \<le> length p" "length r = length p" "take 4 (drop 12 r) = a" "\<And>i. 16 \<le> i \<Longrightarrow> i < 20 \<Longrightarrow> r ! i = p ! i"
    and "(word_sum (drop 20 r) + word_sum a) mod 65535 = (word_sum (drop 20 p) + word_sum (take 4 (drop 12 p))) mod 65535"
  shows "word_sum (drop 12 r) mod 65535 = word_sum (drop 12 p) mod 65535"
proof -
  have t: "take 4 (drop 16 r) = take 4 (drop 16 p)"
    by (rule nth_equalityI) (use assms(1,2,4) in auto)
  have "word_sum (drop 12 r) mod 65535 = (word_sum (drop 20 r) + word_sum a + word_sum (take 4 (drop 16 p))) mod 65535"
    using word_sum_addresses [of r] assms(1-3) t by (simp add: ac_simps)
  also have "\<dots> = (word_sum (drop 20 p) + word_sum (take 4 (drop 12 p)) + word_sum (take 4 (drop 16 p))) mod 65535"
    by (intro mod_add_cong assms(5) refl)
  also have "\<dots> = word_sum (drop 12 p) mod 65535"
    using word_sum_addresses [of p] assms(1) by (simp add: ac_simps)
  finally show ?thesis .
qed

lemma protos: "IPPROTO_TCP \<noteq> IPPROTO_UDP" "IPPROTO_TCP \<noteq> IPPROTO_ICMP" "IPPROTO_UDP \<noteq> IPPROTO_ICMP"
  "IPPROTO_UDP \<noteq> IPPROTO_TCP" "IPPROTO_ICMP \<noteq> IPPROTO_TCP" "IPPROTO_ICMP \<noteq> IPPROTO_UDP"
  by (simp_all add: IPPROTO_TCP_def IPPROTO_UDP_def IPPROTO_ICMP_def)

text \<open>The header of the protocol is rewritten by one of the three routines.\<close>

definition update_header :: "LAFT_NAT_INFO \<Rightarrow> u8 list \<Rightarrow> u8 list \<Rightarrow> nat \<Rightarrow> u16 \<Rightarrow> u8 list option" where
  "update_header L new p off port =
     (if p ! 9 = IPPROTO_TCP then update_tcp_header L new p off port
      else if p ! 9 = IPPROTO_UDP then update_udp_header L new p off port else update_icmp_header new p off port)"

lemma update_header_ok:
  assumes p: "packet_ok p" and L: "length (PubIP L) = 4" and c: "csum_ok (ip_send_check e)"
    and h: "length h = IP6_HLEN + off"
  obtains new r where "update_network_header e L (h @ p) (IP6_HLEN + off) = Some new"
    "update_header L new p off (swap16 np) = Some (h @ r)" "translated L np p r"
proof -
  have i: "ip20 p" "20 \<le> length p" using p by (auto simp: packet_ok_def ip20_def)
  obtain q where q: "update_network_header e L (h @ p) (IP6_HLEN + off) = Some (h @ q)" "length q = length p"
    "drop 20 q = drop 20 p" "take 4 (drop 12 q) = PubIP L" "\<And>i. i < 20 \<Longrightarrow> i \<notin> {10..15} \<Longrightarrow> q ! i = p ! i"
    by (rule update_network_ok [OF i(1) L c h]) blast
  have addr: "take 4 (drop 12 r) = PubIP L" if "take 20 r = take 20 q" for r
  proof -
    have "take 4 (drop 12 r) = drop 12 (take 16 (take 20 r))" by (simp add: take_drop min_def)
    also have "\<dots> = take 4 (drop 12 q)" unfolding that by (simp add: take_drop min_def)
    finally show ?thesis using q(4) by simp
  qed
  have front: "r ! i = p ! i" if "take 20 r = take 20 q" "i < 20" "i \<notin> {10..15}" for r i
    using that q(5) by (metis nth_take)
  consider (ck) ck :: nat where "p ! 9 = IPPROTO_TCP \<and> ck = 16 \<or> p ! 9 = IPPROTO_UDP \<and> ck = 6" | (i) "p ! 9 = IPPROTO_ICMP"
    using p by (auto simp: packet_ok_def handled_def)
  then show ?thesis
  proof cases
    case (ck ck)
    have k: "22 + ck \<le> length p" "even ck" "2 \<le> ck" "check_at (p ! 9) = 20 + ck" "port_at (p ! 9) = 20" "p ! 9 \<noteq> IPPROTO_ICMP"
      using ck p protos by (auto simp: packet_ok_def check_at_def port_at_def)
    obtain r where r: "update_checked_header ck L (h @ q) p off (swap16 np) = Some (h @ r)" "length r = length p"
      "take 20 r = take 20 q" "get16 r 20 = Some np"
      "\<And>i. 20 \<le> i \<Longrightarrow> i < length p \<Longrightarrow> i \<notin> {20, 21, 20 + ck, 21 + ck} \<Longrightarrow> r ! i = p ! i"
      "(word_sum (drop 20 r) + word_sum (PubIP L)) mod 65535 = (word_sum (drop 20 p) + word_sum (take 4 (drop 12 p))) mod 65535"
      by (rule update_checked_ok [OF i(1) k(1-3) L h q(2,3)]) blast
    have s: "word_sum (drop 12 r) mod 65535 = word_sum (drop 12 p) mod 65535"
      by (rule translated_parts [OF i(2) r(2) addr [OF r(3)] _ r(6)]) (use front [OF r(3)] in auto)
    have "r ! j = p ! j" if "j < length p" "j \<notin> {10..15} \<union> {20, 21, 20 + ck, 21 + ck}" for j
      using front [OF r(3), of j] r(5) [of j] that by (cases "j < 20") auto
    then have "translated L np p r"
      using r(2,4) addr [OF r(3)] s k(4-6) by (simp add: translated_def)
    moreover have "update_header L (h @ q) p off (swap16 np) = Some (h @ r)"
      using ck r(1) protos by (auto simp: update_header_def update_tcp_header_def update_udp_header_def)
    ultimately show ?thesis by (intro that [OF q(1)])
  next
    case icmp: i
    have k: "26 \<le> length p" "check_at (p ! 9) = 22" "port_at (p ! 9) = 24"
      using icmp p protos by (auto simp: packet_ok_def check_at_def port_at_def)
    obtain r where r: "update_icmp_header (h @ q) p off (swap16 np) = Some (h @ r)" "length r = length p"
      "take 20 r = take 20 q" "get16 r 24 = Some np"
      "\<And>i. 20 \<le> i \<Longrightarrow> i < length p \<Longrightarrow> i \<notin> {22, 23, 24, 25} \<Longrightarrow> r ! i = p ! i"
      "word_sum (drop 20 r) mod 65535 = word_sum (drop 20 p) mod 65535"
      by (rule update_icmp_ok [OF i(1) k(1) h q(2,3)]) blast
    have "r ! j = p ! j" if "j < length p" "j \<notin> {10..15} \<union> {24, 25, 22, 23}" for j
      using front [OF r(3), of j] r(5) [of j] that by (cases "j < 20") auto
    then have "translated L np p r"
      using r(2,4,6) addr [OF r(3)] icmp k by (simp add: translated_def)
    moreover have "update_header L (h @ q) p off (swap16 np) = Some (h @ r)"
      using icmp r(1) protos by (auto simp: update_header_def)
    ultimately show ?thesis by (intro that [OF q(1)])
  qed
qed

end
