(* ===== verification/DownTranslate.thy ===== *)
theory DownTranslate
  imports CpeDown UpTranslate
begin

text \<open>
  The translation back (\<open>nathandle\<close> and \<open>pktchecksum\<close> of \<open>TI/openwrt_cpe/src/pktdown.c\<close>): a packet
  for a session's port leaves for the address and port the session was made for, with its other bytes
  unchanged and checksums that verify when the old ones did.
\<close>

section \<open>The checksums\<close>

lemma put_front: "i + length b \<le> length h \<Longrightarrow> put (h @ t) i b = map_option (\<lambda>h. h @ t) (put h i b)"
  by (auto simp: put_def)

lemma get16_front: "i + 1 < length h \<Longrightarrow> get16 (h @ t) i = get16 h i"
  by (auto simp: get16_def nth_append)

lemma addr_update_ok:
  assumes "get16 pkt at = Some c" "length (PubIP l) = 4" "20 \<le> length pkt"
  obtains c' where "addr_update l pkt at = Some (swap16 c')"
    "(unat c' + word_sum (take 4 (drop 16 pkt))) mod 65535 = (unat c + word_sum (PubIP l)) mod 65535"
proof -
  let ?new = "take 4 (drop 16 pkt)"
  have n4: "length ?new = 4" using assms(3) by simp
  obtain c' where c': "csum_addr c (PubIP l) ?new = Some c'"
    "(unat c' + word_sum ?new) mod 65535 = (unat c + word_sum (PubIP l)) mod 65535"
    by (rule csum_addr_ok [OF assms(2) n4])
  obtain oh ol nh nl where ld: "ld16 (PubIP l) 0 = Some oh" "ld16 (PubIP l) 2 = Some ol" "ld16 pkt 16 = Some nh" "ld16 pkt 18 = Some nl"
    using assms(2,3) by (simp add: ld16_def)
  have ld': "ld16 ?new 0 = Some nh" "ld16 ?new 2 = Some nl"
    using ld(3,4) ld16_take [of 0 4 16 pkt] ld16_take [of 2 4 16 pkt] by simp_all
  have "ld16 pkt at = Some (swap16 c)" using assms(1) by (simp add: ld16_get16)
  then have "addr_update l pkt at = Some (swap16 c')"
    using csum_addr_native [OF assms(2) n4 c'(1) ld(1,2) ld'] ld by (simp add: addr_update_def)
  then show ?thesis using c'(2) by (rule that)
qed

text \<open>Where a protocol has its destination port or identifier on the way down.\<close>

definition dport_at :: "u8 \<Rightarrow> nat" where "dport_at q = (if q = IPPROTO_ICMP then 24 else 22)"

definition reply_ok :: "u8 list \<Rightarrow> bool" where
  "reply_ok p \<longleftrightarrow> ip20 p \<and> handled (p ! 9) \<and> check_at (p ! 9) + 2 \<le> length p \<and> dport_at (p ! 9) + 2 \<le> length p
     \<and> (p ! 9 = IPPROTO_ICMP \<longrightarrow> is_echo (p ! 20))"

text \<open>
  \<open>r\<close> is \<open>p\<close> sent on to the session's own address and port.  The sums of the transport part (with the
  addresses, but for ICMP) and of the IP header are congruent to what they were, if \<open>p\<close> was addressed to
  the box and the session's port.
\<close>

definition restored :: "LAFT_NAT_INFO \<Rightarrow> SESSIONTUPLES \<Rightarrow> u8 list \<Rightarrow> u8 list \<Rightarrow> bool" where
  "restored L s p r \<longleftrightarrow> (let q = p ! 9; n = if q = IPPROTO_ICMP then 20 else 12 in
     length r = length p \<and> take 4 (drop 16 r) = be32 (srcip s) \<and> get16 r (dport_at q) = Some (oldport s)
     \<and> (\<forall>i < length p. i \<notin> {10, 11} \<union> {16..19} \<union> {dport_at q, dport_at q + 1, check_at q, check_at q + 1} \<longrightarrow> r ! i = p ! i)
     \<and> (take 4 (drop 16 p) = PubIP L \<longrightarrow> get16 p (dport_at q) = Some (newport s) \<longrightarrow>
          word_sum (drop n r) mod 65535 = word_sum (drop n p) mod 65535
          \<and> word_sum (take 20 r) mod 65535 = word_sum (take 20 p) mod 65535))"

text \<open>The header: a new address, and the checksum updated for it.\<close>

lemma header_back:
  assumes h: "length h = 20" and a: "length a = 4" and L: "length (PubIP L) = 4"
  obtains h1 h2 c' where "put h 16 a = Some h1" "length h1 = 20" "h1 ! 0 = h ! 0" "h1 ! 9 = h ! 9"
    "addr_update L (h1 @ t) 10 = Some (swap16 c')" "put h1 10 (be16 c') = Some h2" "length h2 = 20"
    "take 4 (drop 16 h2) = a" "\<And>i. i < 20 \<Longrightarrow> i \<notin> {10, 11} \<union> {16..19} \<Longrightarrow> h2 ! i = h ! i"
    "take 4 (drop 16 h) = PubIP L \<Longrightarrow> word_sum h2 mod 65535 = word_sum h mod 65535"
proof -
  obtain h1 where h1: "put h 16 a = Some h1" "length h1 = length h"
    by (rule put_exists [of 16 a h]) (use h a in auto)
  obtain c where c: "get16 h1 10 = Some c" using get16_exists [of 10 h1] h h1 by auto
  have c': "get16 (h1 @ t) 10 = Some c" using c h h1(2) by (simp add: get16_front)
  have l: "20 \<le> length (h1 @ t)" using h h1 by simp
  obtain c' where u: "addr_update L (h1 @ t) 10 = Some (swap16 c')"
    "(unat c' + word_sum (take 4 (drop 16 (h1 @ t)))) mod 65535 = (unat c + word_sum (PubIP L)) mod 65535"
    by (rule addr_update_ok [OF c' L l])
  obtain h2 where h2: "put h1 10 (be16 c') = Some h2" "length h2 = length h1"
    by (rule put_exists [of 10 "be16 c'" h1]) (use h h1 in auto)
  have a1: "take 4 (drop 16 h1) = a" using put_here [OF h1(1)] a by simp
  have a2: "take 4 (drop 16 h2) = a" using put_drop_after [OF h2(1), of 16] a1 by simp
  have n1: "h1 ! i = h ! i" if "i < 16" for i using nth_put [OF h1(1), of i] that h by simp
  have n2: "h2 ! i = h1 ! i" if "i < 20" "i \<notin> {10, 11}" for i
  proof -
    have "i < 10 \<or> 10 + length (be16 c') \<le> i" using that(2) by auto
    then show ?thesis using nth_put [OF h2(1), of i] that(1) h h1(2) by simp
  qed
  have s: "word_sum h2 mod 65535 = word_sum h mod 65535" if d: "take 4 (drop 16 h) = PubIP L"
  proof -
    have "word_sum h1 + word_sum (PubIP L) = word_sum h + word_sum a"
      using word_sum_splice [OF h1(1)] a d by simp
    moreover have "word_sum h2 + unat c = word_sum h1 + unat c'" by (rule word_sum_put(1) [OF h2(1) c]) simp
    ultimately have e: "word_sum h2 + (unat c + word_sum (PubIP L)) = word_sum h + (unat c' + word_sum a)" by simp
    have ta: "take 4 (drop 16 (h1 @ t)) = a" using a1 a h h1(2) by simp
    show ?thesis by (rule mod_swap [OF e u(2) [unfolded ta]])
  qed
  have n: "h2 ! i = h ! i" if "i < 20" "i \<notin> {10, 11} \<union> {16..19}" for i
    using n2 [of i] n1 [of i] that by auto
  have len: "length h1 = 20" "length h2 = 20" "h1 ! 0 = h ! 0" "h1 ! 9 = h ! 9" using h h1(2) h2(2) n1 by simp_all
  show ?thesis by (rule that [OF h1(1) len(1,3,4) u(1) h2(1) len(2) a2 n s])
qed

text \<open>The sum with both addresses, when only the destination has changed.\<close>

lemma restored_parts:
  assumes "length h = 20" "length h2 = 20" "take 4 (drop 16 h2) = a" "take 4 (drop 16 h) = b"
    "\<And>i. 12 \<le> i \<Longrightarrow> i < 16 \<Longrightarrow> h2 ! i = h ! i"
    and "(word_sum t2 + word_sum a) mod 65535 = (word_sum t + word_sum b) mod 65535"
  shows "word_sum (drop 12 (h2 @ t2)) mod 65535 = word_sum (drop 12 (h @ t)) mod 65535"
proof -
  have e: "take 4 (drop 12 h2) = take 4 (drop 12 h)"
    by (rule nth_equalityI) (use assms(1,2,5) in auto)
  have p: "word_sum (drop 12 (g @ u)) = word_sum (take 4 (drop 12 g)) + (word_sum u + word_sum (take 4 (drop 16 g)))"
    if "length g = 20" for g u :: "u8 list"
    using word_sum_addresses [of "g @ u"] that by simp
  show ?thesis
    unfolding p [OF assms(1)] p [OF assms(2)] assms(3,4) e by (intro mod_add_cong assms(6) refl)
qed

lemma pktchecksum_ok:
  assumes p: "reply_ok p" and L: "length (PubIP L) = 4"
  obtains p1 p2 r where "put p 16 (be32 (srcip s)) = Some p1" "put p1 (dport_at (p ! 9)) (be16 (oldport s)) = Some p2"
    "pktchecksum L p2 s = Some r" "restored L s p r" "p1 ! 9 = p ! 9" "\<And>i. 20 \<le> i \<Longrightarrow> i < length p \<Longrightarrow> p1 ! i = p ! i" "length p1 = length p"
    "\<And>i. 26 \<le> i \<Longrightarrow> i < length p \<Longrightarrow> p2 ! i = p ! i" "length p2 = length p"
proof -
  let ?q = "p ! 9" and ?a = "be32 (srcip s)" and ?d = "dport_at (p ! 9) - 20" and ?k = "check_at (p ! 9) - 20"
  let ?np = "newport s" and ?op = "oldport s"
  have i: "20 \<le> length p" "p ! 0 = 0x45" "check_at ?q + 2 \<le> length p" "dport_at ?q + 2 \<le> length p" "handled ?q"
    using p by (auto simp: reply_ok_def ip20_def)
  have at: "20 \<le> dport_at ?q" "20 \<le> check_at ?q" "even ?d" "even ?k" "?d + 2 \<le> ?k \<or> ?k + 2 \<le> ?d" "dport_at ?q \<le> 24"
    using protos i(5) by (auto simp: dport_at_def check_at_def handled_def)
  define h t where "h = take 20 p" and "t = drop 20 p"
  have pt: "p = h @ t" by (simp add: h_def t_def)
  have h: "length h = 20" "h ! 0 = 0x45" "h ! 9 = ?q" using i by (simp_all add: h_def)
  have a4: "length ?a = 4" by simp
  have lt: "?d + 2 \<le> length t" "?k + 2 \<le> length t" using i at by (auto simp: t_def)
  obtain t1 where t1: "put t ?d (be16 ?op) = Some t1" "length t1 = length t"
    by (rule put_exists [of ?d "be16 ?op" t]) (use lt in auto)
  obtain h1 h2 hc where H: "put h 16 ?a = Some h1" "length h1 = 20" "h1 ! 0 = h ! 0" "h1 ! 9 = h ! 9"
    "addr_update L (h1 @ t1) 10 = Some (swap16 hc)" "put h1 10 (be16 hc) = Some h2" "length h2 = 20"
    "take 4 (drop 16 h2) = ?a" "\<And>i. i < 20 \<Longrightarrow> i \<notin> {10, 11} \<union> {16..19} \<Longrightarrow> h2 ! i = h ! i"
    "take 4 (drop 16 h) = PubIP L \<Longrightarrow> word_sum h2 mod 65535 = word_sum h mod 65535"
    by (rule header_back [OF h(1) a4 L, where t = t1]) blast
  obtain np0 c where g: "get16 t ?d = Some np0" "get16 t ?k = Some c"
    using get16_exists [of ?d t] get16_exists [of ?k t] lt by auto
  have gc: "get16 t1 ?k = Some c" using get16_put_other [OF t1(1), of ?k] at(5) g(2) by auto
  have b: "(0x45 :: u8) AND 0x0f = 5" by simp
  have z: "get8 (h2 @ t1) 9 = Some ?q" "get8 (h2 @ t1) 0 = Some 0x45"
    using H(7) H(9) [of 9] H(9) [of 0] h by (simp_all add: get8_def nth_append)
  have w1: "put (h1 @ t1) 10 (be16 hc) = Some (h2 @ t1)" using H(2,6) by (simp add: put_front)
  have nports: "unat (csum_incremental_update c' ?np ?op) mod 65535 + 0 = unat (csum_incremental_update c' ?np ?op) mod 65535" for c' by simp
  obtain t2 where t2: "pktchecksum L (h1 @ t1) s = Some (h2 @ t2)" "length t2 = length t" "get16 t2 ?d = Some ?op"
    "\<And>k. k < length t \<Longrightarrow> k \<notin> {?d, ?d + 1, ?k, ?k + 1} \<Longrightarrow> t2 ! k = t ! k"
    "np0 = ?np \<Longrightarrow> (if ?q = IPPROTO_ICMP then word_sum t2 mod 65535 = word_sum t mod 65535
       else (word_sum t2 + word_sum ?a) mod 65535 = (word_sum t + word_sum (PubIP L)) mod 65535)"
  proof (cases "?q = IPPROTO_ICMP")
    case True
    let ?c = "csum_incremental_update c ?np ?op"
    have k: "?k = 2" using True protos by (simp add: check_at_def)
    obtain t2 where t2: "put t1 ?k (be16 ?c) = Some t2" "length t2 = length t1"
      by (rule put_exists [of ?k "be16 ?c" t1]) (use lt t1 in auto)
    have "ld16 (h2 @ t1) 22 = Some (swap16 c)" using gc k H(7) by (simp add: ld16_get16)
    moreover have "put (h2 @ t1) 22 (be16 ?c) = Some (h2 @ t2)" using t2(1) k H(7) by (simp add: put_append)
    ultimately have e: "pktchecksum L (h1 @ t1) s = Some (h2 @ t2)"
      using H(5) w1 z True protos by (simp add: pktchecksum_def b csum_incremental_swap)
    note R = rewrite_sum [OF t1(1) t2(1) g at(3,4,5)]
    have s: "(unat ?c + (unat ?op + 0)) mod 65535 = (unat c + (unat ?np + 0)) mod 65535" using csum_incremental_mod by simp
    show ?thesis
    proof (rule that [OF e])
      show "length t2 = length t" using t1(2) t2(2) by simp
      show "get16 t2 ?d = Some ?op"
        using get16_put_other [OF t2(1), of ?d] at(5) word_sum_put(2) [OF t1(1) g(1) at(3)] by auto
      show "t2 ! k = t ! k" if "k < length t" "k \<notin> {?d, ?d + 1, ?k, ?k + 1}" for k
      proof -
        have "k < ?d \<or> ?d + 2 \<le> k" "k < ?k \<or> ?k + 2 \<le> k" using that(2) by auto
        then show ?thesis using nth_put [OF t1(1), of k] nth_put [OF t2(1), of k] t1(2) that(1) by auto
      qed
      show "if ?q = IPPROTO_ICMP then word_sum t2 mod 65535 = word_sum t mod 65535
       else (word_sum t2 + word_sum ?a) mod 65535 = (word_sum t + word_sum (PubIP L)) mod 65535" if "np0 = ?np"
        using R(1) [of 0 0] s that True by simp
    qed
  next
    case False
    have cat: "get16 (h2 @ t1) (check_at ?q) = Some c" using gc H(7) at(2) by simp
    have l: "20 \<le> length (h2 @ t1)" using H(7) by simp
    obtain c1 where c1: "addr_update L (h2 @ t1) (check_at ?q) = Some (swap16 c1)"
      "(unat c1 + word_sum (take 4 (drop 16 (h2 @ t1)))) mod 65535 = (unat c + word_sum (PubIP L)) mod 65535"
      by (rule addr_update_ok [OF cat L l])
    let ?c = "csum_incremental_update c1 ?np ?op"
    obtain t2 where t2: "put t1 ?k (be16 ?c) = Some t2" "length t2 = length t1"
      by (rule put_exists [of ?k "be16 ?c" t1]) (use lt t1 in auto)
    have "put (h2 @ t1) (check_at ?q) (be16 ?c) = Some (h2 @ t2)" using t2(1) H(7) at(2) by (simp add: put_append)
    then have e: "pktchecksum L (h1 @ t1) s = Some (h2 @ t2)"
      using H(5) w1 z False i(5) c1(1) protos
      by (auto simp: pktchecksum_def b csum_incremental_swap handled_def check_at_def)
    have aa: "take 4 (drop 16 (h2 @ t1)) = ?a" using H(7,8) by simp
    have s: "(unat ?c + (unat ?op + word_sum ?a)) mod 65535 = (unat c + (unat ?np + word_sum (PubIP L))) mod 65535"
    proof -
      have "(unat ?c + unat ?op + word_sum ?a) mod 65535 = (unat c1 + unat ?np + word_sum ?a) mod 65535"
        by (intro mod_add_cong csum_incremental_mod refl)
      also have "\<dots> = (unat c1 + word_sum ?a + unat ?np) mod 65535" by (simp add: ac_simps)
      also have "\<dots> = (unat c + word_sum (PubIP L) + unat ?np) mod 65535" by (rule mod_add_cong [OF c1(2) [unfolded aa] refl])
      finally show ?thesis by (simp add: ac_simps)
    qed
    note R = rewrite_sum [OF t1(1) t2(1) g at(3,4,5)]
    show ?thesis
    proof (rule that [OF e])
      show "length t2 = length t" using t1(2) t2(2) by simp
      show "get16 t2 ?d = Some ?op"
        using get16_put_other [OF t2(1), of ?d] at(5) word_sum_put(2) [OF t1(1) g(1) at(3)] by auto
      show "t2 ! k = t ! k" if "k < length t" "k \<notin> {?d, ?d + 1, ?k, ?k + 1}" for k
      proof -
        have "k < ?d \<or> ?d + 2 \<le> k" "k < ?k \<or> ?k + 2 \<le> k" using that(2) by auto
        then show ?thesis using nth_put [OF t1(1), of k] nth_put [OF t2(1), of k] t1(2) that(1) by auto
      qed
      show "if ?q = IPPROTO_ICMP then word_sum t2 mod 65535 = word_sum t mod 65535
       else (word_sum t2 + word_sum ?a) mod 65535 = (word_sum t + word_sum (PubIP L)) mod 65535" if "np0 = ?np"
        using R(1) [of "word_sum ?a" "word_sum (PubIP L)"] s that False by simp
    qed
  qed
  have q1: "put p 16 ?a = Some (h1 @ t)" using H(1) h(1) by (simp add: pt put_front)
  have q2: "put (h1 @ t) (dport_at ?q) (be16 ?op) = Some (h1 @ t1)" using t1(1) H(2) at(1) by (simp add: put_append)
  have rs: "restored L s p (h2 @ t2)"
  proof -
    have "length (h2 @ t2) = length p" using H(7) t2(2) h(1) by (simp add: pt)
    moreover have "take 4 (drop 16 (h2 @ t2)) = ?a" using H(7,8) by simp
    moreover have "get16 (h2 @ t2) (dport_at ?q) = Some ?op" using t2(3) H(7) at(1) by simp
    moreover have "(h2 @ t2) ! j = p ! j"
      if "j < length p" "j \<notin> {10, 11} \<union> {16..19} \<union> {dport_at ?q, dport_at ?q + 1, check_at ?q, check_at ?q + 1}" for j
    proof (cases "j < 20")
      case True
      then show ?thesis using H(7) H(9) [of j] that h(1) by (auto simp: pt nth_append)
    next
      case False
      then have "t2 ! (j - 20) = t ! (j - 20)"
        by (intro t2(4)) (use that at h(1) in \<open>auto simp: pt\<close>)
      then show ?thesis using False H(7) h(1) by (simp add: pt nth_append)
    qed
    moreover have "word_sum (drop (if ?q = IPPROTO_ICMP then 20 else 12) (h2 @ t2)) mod 65535
          = word_sum (drop (if ?q = IPPROTO_ICMP then 20 else 12) p) mod 65535
          \<and> word_sum (take 20 (h2 @ t2)) mod 65535 = word_sum (take 20 p) mod 65535"
      if d: "take 4 (drop 16 p) = PubIP L" "get16 p (dport_at ?q) = Some ?np"
    proof -
      have dh: "take 4 (drop 16 h) = PubIP L" using d(1) h(1) L by (simp add: pt)
      have "np0 = ?np" using d(2) g(1) h(1) at(1) by (simp add: pt)
      note S = t2(5) [OF this]
      have "word_sum (drop 12 (h2 @ t2)) mod 65535 = word_sum (drop 12 (h @ t)) mod 65535" if "?q \<noteq> IPPROTO_ICMP"
        by (rule restored_parts [OF h(1) H(7,8) dh]) (use H(9) S that in auto)
      then show ?thesis using S H(7) H(10) [OF dh] h(1) by (auto simp: pt)
    qed
    ultimately show ?thesis unfolding restored_def Let_def by blast
  qed
  have o1: "(h1 @ t) ! i = p ! i" if "20 \<le> i" "i < length p" for i using that H(2) h(1) by (simp add: pt nth_append)
  have n9: "(h1 @ t) ! 9 = p ! 9" using H(2,4) h by (simp add: nth_append)
  have o2: "(h1 @ t1) ! i = p ! i" if "26 \<le> i" "i < length p" for i
  proof -
    have "t1 ! (i - 20) = t ! (i - 20)"
      by (rule nth_put [OF t1(1)]) (use that h(1) at(1,6) in \<open>auto simp: pt\<close>)
    then show ?thesis using that H(2) h(1) by (simp add: pt nth_append)
  qed
  have ls: "length (h1 @ t) = length p" "length (h1 @ t1) = length p" using H(2) h(1) t1(2) by (simp_all add: pt)
  show ?thesis by (rule that [OF q1 q2 t2(1) rs n9 o1 ls(1) o2 ls(2)])
qed

end
