(* ===== verification/Reassembly.thy ===== *)
theory Reassembly
  imports Defrag
begin

text \<open>
  What reassembly promises: the packet comes out whatever the order of its fragments, what one
  side of a tunnel fragments the other puts together, the hash table stays well formed, and a
  silent flow is forgotten after a minute.  Two theorems show inputs on which the code does
  not keep the promise.
\<close>

section \<open>Arrival in any order\<close>

text \<open>When every allocation succeeds, the fragments of a packet, arriving in any order in a flow the
  table does not have, have the packet sent on, whole when it fits the MTU and in IPv4 fragments when it
  does not.  No other flow changes.\<close>

theorem reassembly_any_order:
  assumes "fragmented k d mk fs cap" "mset ps = mset fs"
    "\<forall>i. m i" "\<forall>i. m' i" "28 \<le> unat (usMtu g)"
    "length (pshashtable st) = MAX_SHASH_SIZE" "ShashBucketFind (pshashtable st) k = None"
    "length d \<le> length (frag4buf st)"
  shows "\<exists>st' out. frag_arrivals c m m' g st (map mk ps) = Some (st', out)
    \<and> delivered c m' g (h_dest (cb_skb (mk (hd fs)))) d = Some out
    \<and> (\<forall>j. j \<noteq> k \<longrightarrow> ShashBucketFind (pshashtable st') j = ShashBucketFind (pshashtable st) j)"
proof -
  have "fs \<noteq> []" using fragmentedD(1,3) [OF assms(1)] by (cases fs) auto
  then have "ps \<noteq> []" using assms(2) by auto
  moreover have "flow_at k d mk [] (pshashtable st)" using assms(6,7) by (simp add: flow_at_def)
  moreover have "mset ([] @ ps) = mset fs" using assms(2) by simp
  ultimately show ?thesis
    using arrivals_ok [OF assms(1,3-5), where qs = "[]" and ps = ps and st = st and c = c] assms(8) by auto
qed

lemma frag_sample:
  "56 \<le> unat (usMtu frag_global)" "28 \<le> unat (usMtu frag_global)"
  "unat (usMtu frag_global) < length (skb_data frag_skb) + 48"
  "20 \<le> length (skb_data frag_skb)" "length (skb_data frag_skb) < 2 ^ 16 - 8" "0 < length (skb_data frag_skb)"
  "length (ucTcIPv6 frag_global) = 16" "length (replicate 16 (3 :: u8)) = 16"
  "\<forall>k. all_ok k" "skb_data frag_skb = replicate 30 7"
  by (simp_all add: frag_global_def frag_skb_def fresh_skb_def all_ok_def)

definition empty_state :: fragstate where
  "empty_state = \<lparr>pshashtable = replicate MAX_SHASH_SIZE [], frag4buf = replicate 66000 0\<rparr>"

lemma empty_state [simp]:
  "length (pshashtable empty_state) = MAX_SHASH_SIZE" "ShashBucketFind (pshashtable empty_state) k = None"
  "frag4buf empty_state = replicate 66000 0"
  using bucket_index_less [of "replicate MAX_SHASH_SIZE []" k]
  by (simp_all add: empty_state_def ShashBucketFind_def)

definition sample_cb :: "nat \<times> nat \<Rightarrow> FRAG_CB" where
  "sample_cb = frag6_cb frag_global (replicate 16 3) (replicate 6 9) frag_skb"

lemma sample_fragmented:
  "fragmented (frag6_key frag_global (replicate 16 3) (replicate 30 7)) (replicate 30 7) sample_cb
    [(0, 8), (8, 8), (16, 8), (24, 6)] 8"
  unfolding sample_cb_def frag_sample(10) [symmetric]
  by (rule frag6_fragmented [OF _ frag_sample(7,8,6,5)]) (simp_all add: frag_sample(10))

theorem reassembly_any_order_witness:
  "\<exists>st' out. frag_arrivals (\<lambda>h. h) all_ok all_ok frag_global empty_state
      (map sample_cb [(24, 6), (0, 8), (16, 8), (8, 8)]) = Some (st', out)
    \<and> out = [fresh_skb (replicate 6 9) ETH_P_IP (replicate 30 7)]"
proof -
  have p: "mset [(24, 6), (0, 8), (16, 8), (8, 8 :: nat)] = mset [(0 :: nat, 8), (8, 8), (16, 8), (24, 6)]" by simp
  have b: "length (replicate 30 (7 :: u8)) \<le> length (frag4buf empty_state)" by simp
  have d: "delivered (\<lambda>h. h) all_ok frag_global (h_dest (cb_skb (sample_cb (0, 8)))) (replicate 30 7) =
    Some [fresh_skb (replicate 6 9) ETH_P_IP (replicate 30 7)]"
    by (simp add: delivered_def frag_global_def sample_cb_def frag6_cb_def received_def)
  show ?thesis
    using reassembly_any_order [OF sample_fragmented p frag_sample(9,9,2) empty_state(1,2) b, of "\<lambda>h. h"]
    unfolding list.sel d by blast
qed

section \<open>Fragmented here, put together there\<close>

lemma mset_map_inv:
  "mset ys = mset (map h fs) \<Longrightarrow> \<exists>ps. ys = map h ps \<and> mset ps = mset fs"
proof (induction ys arbitrary: fs)
  case (Cons y ys)
  then have "y \<in> set (map h fs)" using mset_eq_setD [OF Cons.prems] by auto
  then obtain f where f: "f \<in> set fs" "y = h f" by auto
  then have "mset ys = mset (map h (remove1 f fs))"
    using Cons.prems by (simp add: image_mset_Diff) (metis add_mset_remove_trivial)
  then obtain ps where "ys = map h ps" "mset ps = mset (remove1 f fs)" using Cons.IH by blast
  then show ?case using f by (intro exI [of _ "f # ps"]) simp
qed simp

lemma those_map: "(\<And>x. x \<in> set xs \<Longrightarrow> f x = Some (h x)) \<Longrightarrow> those (map f xs) = Some (map h xs)"
  by (induction xs) auto

text \<open>C35: what one module sends for an IPv4 packet that is too long for the tunnel, another module puts together, in whatever order the
  fragments arrive, and sends on the packet.\<close>

theorem fragments_reassemble:
  assumes "56 \<le> unat (usMtu g)" "unat (usMtu g) < length (skb_data skb) + 48"
    "20 \<le> length (skb_data skb)" "length (skb_data skb) < 2 ^ 16 - 8"
    "length (ucTcIPv6 g) = 16" "length dst = 16"
    "IPv4FragandIPinIP mem_ok g skb dst = Some (out, 1)" "length out \<le> 1144" "mset out' = mset out"
    "\<forall>i. m i" "\<forall>i. m' i" "28 \<le> unat (usMtu g')"
    "length (pshashtable st) = MAX_SHASH_SIZE" "length (frag4buf st) = 66000"
    "ShashBucketFind (pshashtable st) (frag6_key g dst (skb_data skb)) = None"
  shows "\<exists>cbs st' sent. those (map (frag_cb \<circ> received mac) out') = Some cbs
    \<and> frag_arrivals c m m' g' st cbs = Some (st', sent)
    \<and> delivered c m' g' mac (skb_data skb) = Some sent"
proof -
  let ?d = "skb_data skb" and ?k = "frag6_key g dst (skb_data skb)" and ?mk = "frag6_cb g dst mac skb"
  let ?h = "\<lambda>f. fresh_skb (h_dest skb) ETH_P_IPV6 (frag6_bytes g dst ?d f)"
  have len: "length ?d < 2 ^ 16" "0 < length ?d" using assms(3,4) by auto
  obtain fs n fin where f: "plan_from (unat (usMtu g) - 48) (length ?d) 0 fs"
    "IPv4FragandIPinIP mem_ok g skb dst = Some (map ?h (take n fs), if fin then 1 else -1)"
    "fin \<longleftrightarrow> length fs \<le> n"
    by (rule IPv4FragandIPinIP_sent [OF assms(1-3) len(1), where mem_ok = mem_ok and dst = dst]) blast
  have fin: "fin" using f(2) assms(7) by (cases fin) auto
  then have o: "out = map ?h fs" using f(2,3) assms(7) by simp
  obtain ps where ps: "out' = map ?h ps" "mset ps = mset fs"
    using mset_map_inv [of out' ?h fs] assms(9) o by auto
  have n: "length fs \<le> 1144" using assms(8) o by simp
  note ff = frag6_fragmented [OF f(1) assms(5,6) len(2) assms(4) n]
  have set: "set ps = set fs" by (rule mset_eq_setD [OF ps(2)])
  have t: "those (map (frag_cb \<circ> received mac) out') = Some (map ?mk ps)"
    unfolding ps(1) map_map by (rule those_map) (simp add: ff(2) set comp_def)
  have "fs \<noteq> []" using f(1) len(2) by (cases fs) auto
  then have "ps \<noteq> []" using ps(2) by auto
  have mac: "h_dest (cb_skb (?mk (hd fs))) = mac" by (simp add: frag6_cb_def fresh_skb_def received_def)
  have fl: "flow_at ?k ?d ?mk [] (pshashtable st)" using assms(13,15) by (simp add: flow_at_def)
  have "mset ([] @ ps) = mset fs" "length ?d \<le> length (frag4buf st)" using ps(2) assms(4,14) by simp_all
  from arrivals_ok [OF ff(1) assms(10-12) fl this(1) \<open>ps \<noteq> []\<close> this(2), of c] t show ?thesis
    unfolding mac by blast
qed

lemma plan_length: "plan_from cap len off fs \<Longrightarrow> off \<le> len \<Longrightarrow> length fs \<le> len - off"
  by (induction cap len off fs rule: plan_from.induct) auto

theorem fragments_reassemble_witness:
  "\<exists>out cbs st' sent. IPv4FragandIPinIP all_ok frag_global frag_skb (replicate 16 3) = Some (out, 1)
    \<and> those (map (frag_cb \<circ> received (replicate 6 9)) (rev out)) = Some cbs
    \<and> frag_arrivals (\<lambda>h. h) all_ok all_ok frag_global empty_state cbs = Some (st', sent)
    \<and> sent = [fresh_skb (replicate 6 9) ETH_P_IP (replicate 30 7)]"
proof -
  note F = frag_sample
  have len: "length (skb_data frag_skb) < 2 ^ 16" using F(5) by simp
  obtain fs n fin where f: "plan_from (unat (usMtu frag_global) - 48) (length (skb_data frag_skb)) 0 fs"
    "IPv4FragandIPinIP all_ok frag_global frag_skb (replicate 16 3) =
      Some (map (\<lambda>f. fresh_skb (h_dest frag_skb) ETH_P_IPV6
        (frag6_bytes frag_global (replicate 16 3) (skb_data frag_skb) f)) (take n fs), if fin then 1 else -1)"
    "fin \<longleftrightarrow> length fs \<le> n" "(\<forall>k. all_ok k) \<Longrightarrow> length fs \<le> n"
    by (rule IPv4FragandIPinIP_sent [OF F(1,3,4) len, where mem_ok = all_ok and dst = "replicate 16 3"]) blast
  have fin: fin using f(3,4) F(9) by blast
  let ?out = "map (\<lambda>f. fresh_skb (h_dest frag_skb) ETH_P_IPV6
        (frag6_bytes frag_global (replicate 16 3) (skb_data frag_skb) f)) (take n fs)"
  have o: "IPv4FragandIPinIP all_ok frag_global frag_skb (replicate 16 3) = Some (?out, 1)"
    using f(2) fin by simp
  have l: "length ?out \<le> 1144" using plan_length [OF f(1)] F(10) by simp
  have r: "mset (rev ?out) = mset ?out" by simp
  have b: "length (frag4buf empty_state) = 66000" by simp
  have d: "delivered (\<lambda>h. h) all_ok frag_global (replicate 6 9) (skb_data frag_skb) =
    Some [fresh_skb (replicate 6 9) ETH_P_IP (replicate 30 7)]"
    by (simp add: delivered_def frag_global_def F(10))
  show ?thesis
    using o fragments_reassemble [OF F(1,3,4,5,7,8) o l r F(9,9,2) empty_state(1) b empty_state(2),
        of "replicate 6 9" "\<lambda>h. h"]
    unfolding d by blast
qed

section \<open>Well-formed tables\<close>

text \<open>
  Buckets lie in the chain of their key, no two in a chain have the same key, and each keeps its
  fragments in the order of their offsets.
\<close>

definition chain_ok :: "nat \<Rightarrow> bucket_node list \<Rightarrow> bool" where
  "chain_ok i c \<longleftrightarrow> distinct (map (\<lambda>b. tuple_key (pData b)) c)
     \<and> (\<forall>b \<in> set c. bucket_index (tuple_key (pData b)) = i \<and> by_offset (fraghdr b))"

definition hash_inv :: "SHASHTABLE \<Rightarrow> bool" where
  "hash_inv t \<longleftrightarrow> length t = MAX_SHASH_SIZE \<and> (\<forall>i < MAX_SHASH_SIZE. chain_ok i (t ! i))"

lemma hash_invD: "hash_inv t \<Longrightarrow> length t = MAX_SHASH_SIZE"
  "hash_inv t \<Longrightarrow> chain_ok (bucket_index k) (t ! bucket_index k)"
  using bucket_index_less [of t k] by (auto simp: hash_inv_def)

lemma hash_inv_upd: "hash_inv t \<Longrightarrow> chain_ok i c \<Longrightarrow> hash_inv (t[i := c])"
  unfolding hash_inv_def by (metis length_list_update nth_list_update_eq nth_list_update_neq)

lemma chain_update_keys:
  "tuple_key (pData b) = k \<Longrightarrow>
    map (\<lambda>b. tuple_key (pData b)) (chain_update k b c) = map (\<lambda>b. tuple_key (pData b)) c"
  by (induction c) auto

lemma set_chain_update: "set (chain_update k b c) \<subseteq> insert b (set c)"
  by (induction c) auto

lemma hash_inv_bucket_update:
  assumes "hash_inv t" "tuple_key (pData b) = k" "by_offset (fraghdr b)"
  shows "hash_inv (bucket_update t k b)"
proof -
  have "chain_ok (bucket_index k) (chain_update k b (t ! bucket_index k))"
    using hash_invD(2) [OF assms(1), of k] chain_update_keys [OF assms(2)] assms(2,3)
      set_chain_update [of k b "t ! bucket_index k"] by (auto simp: chain_ok_def)
  then show ?thesis using hash_inv_upd [OF assms(1)] by (simp add: bucket_update_def)
qed

lemma chain_ok_Cons:
  "chain_ok i c \<Longrightarrow> find (\<lambda>x. tuple_key (pData x) = tuple_key (pData b)) c = None \<Longrightarrow>
    bucket_index (tuple_key (pData b)) = i \<Longrightarrow> by_offset (fraghdr b) \<Longrightarrow> chain_ok i (b # c)"
  unfolding chain_ok_def find_None_iff by (metis (no_types, lifting) distinct.simps(2) imageE list.set_map list.simps(9) set_ConsD)

lemma hash_inv_ShashInsert:
  assumes "hash_inv t" "ShashBucketFind t k = None" "tuple_key p = k" "ShashInsert m t k p = Some t'"
  shows "hash_inv t'"
proof -
  have c: "chain_ok (bucket_index k) (\<lparr>pData = p, fraghdr = [], cnt = 0\<rparr> # t ! bucket_index k)"
    using chain_ok_Cons [OF hash_invD(2) [OF assms(1), of k], of "\<lparr>pData = p, fraghdr = [], cnt = 0\<rparr>"] assms(2,3)
    by (simp add: ShashBucketFind_def)
  then show ?thesis
    using hash_inv_upd [OF assms(1) c] assms(4) by (simp add: ShashInsert_def split: if_splits)
qed

lemma find_inv:
  assumes "hash_inv t" "ShashBucketFind t k = Some b"
  shows "tuple_key (pData b) = k" "by_offset (fraghdr b)"
proof -
  show "tuple_key (pData b) = k" by (rule find_key [OF assms(2)])
  have "b \<in> set (t ! bucket_index k)" using assms(2) by (auto simp: ShashBucketFind_def find_Some_iff)
  then show "by_offset (fraghdr b)" using hash_invD(2) [OF assms(1)] by (auto simp: chain_ok_def)
qed

lemma ShashFragInsert_order: "by_offset ns \<Longrightarrow> by_offset (fst (ShashFragInsert m ns d))"
  using frag_insert_set [of ns d] by (simp add: ShashFragInsert_def)

lemma updatelength_key: "updatelength p pkt = Some (p', r) \<Longrightarrow> tuple_key p' = tuple_key p"
  by (auto simp: updatelength_def Let_def split: bind_splits if_splits)

lemma fragnodeinsert_inv:
  assumes "hash_inv t" "fragnodeinsert m t cb = Some (t', r)"
  shows "hash_inv t'"
proof (cases "ShashBucketFind t (the (createfragkey (skb_data (cb_skb cb))))")
  case None
  note n = this
  obtain k where k: "createfragkey (skb_data (cb_skb cb)) = Some k"
    using assms(2) by (auto simp: fragnodeinsert_def Let_def split: bind_splits)
  show ?thesis
  proof (cases "m 0")
    case False
    then show ?thesis using assms k n by (auto simp: fragnodeinsert_def Let_def)
  next
    case True
    let ?p = "\<lparr>tuple_key = k, tuple_len = 0, tuple_length = 0, tuple_flag = 0, time_out = FRAG_TIMEOUT\<rparr>"
    obtain t1 where t1: "ShashInsert (m 1) t k ?p = Some t1"
      using assms(2) k n True by (auto simp: fragnodeinsert_def Let_def createfragtuple_def split: bind_splits)
    have m1: "m 1" using t1 by (simp add: ShashInsert_def split: if_splits)
    have h1: "hash_inv t1" using hash_inv_ShashInsert [OF assms(1) _ _ t1] n k by simp
    have f1: "ShashBucketFind t1 k = Some \<lparr>pData = ?p, fraghdr = [], cnt = 0\<rparr>"
      using find_ShashInsert [OF hash_invD(1) [OF assms(1)], of k ?p t1 k] t1 m1 by simp
    show ?thesis
      using assms(2) k n True t1 f1 h1
      by (auto simp: fragnodeinsert_def Let_def createfragtuple_def ShashFragInsert_def
          split: bind_splits if_splits prod.splits
          intro!: hash_inv_bucket_update dest!: updatelength_key)
  qed
next
  case (Some b)
  obtain k where k: "createfragkey (skb_data (cb_skb cb)) = Some k"
    using assms(2) by (auto simp: fragnodeinsert_def Let_def split: bind_splits)
  have b: "ShashBucketFind t k = Some b" using Some k by simp
  note fi = find_inv [OF assms(1) b]
  show ?thesis
    using assms k b fi ShashFragInsert_order [OF fi(2), of "m 2" cb]
    by (auto simp: fragnodeinsert_def Let_def updatetupletimeout_def
        split: bind_splits if_splits prod.splits
        intro!: hash_inv_bucket_update dest!: updatelength_key)
qed

lemma fragprocess_inv:
  assumes "hash_inv (pshashtable st)" "fragprocess c m g st k = Some (st', out, r)"
  shows "hash_inv (pshashtable st')"
proof -
  obtain b where b: "ShashBucketFind (pshashtable st) k = Some b"
    using assms(2) by (auto simp: fragprocess_def split: bind_splits)
  show ?thesis
    using assms b find_inv [OF assms(1) b]
    by (auto simp: fragprocess_def Let_def split: bind_splits list.splits if_splits prod.splits
        intro!: hash_inv_bucket_update)
qed

lemma frag_arrive_inv:
  assumes "hash_inv (pshashtable st)" "frag_arrive c m m' g st cb = Some (st', out)"
  shows "hash_inv (pshashtable st')"
proof -
  obtain t r where t: "fragnodeinsert m (pshashtable st) cb = Some (t, r)"
    using assms(2) by (auto simp: frag_arrive_def split: bind_splits)
  have h: "hash_inv t" by (rule fragnodeinsert_inv [OF assms(1) t])
  show ?thesis
  proof (cases r)
    case None
    then show ?thesis using assms(2) t h by (auto simp: frag_arrive_def)
  next
    case (Some k)
    then obtain s where "fragprocess c m' g (st\<lparr>pshashtable := t\<rparr>) k = Some (st', out, s)"
      using assms(2) t by (auto simp: frag_arrive_def split: bind_splits)
    from fragprocess_inv [OF _ this] h show ?thesis by simp
  qed
qed

lemma bucket_tick_key:
  "bucket_tick b = Some b' \<Longrightarrow> tuple_key (pData b') = tuple_key (pData b) \<and> fraghdr b' = fraghdr b"
  by (auto simp: bucket_tick_def Let_def split: if_splits)

lemma tick_mem:
  "x \<in> set (List.map_filter bucket_tick c) \<Longrightarrow>
    \<exists>b \<in> set c. tuple_key (pData x) = tuple_key (pData b) \<and> fraghdr x = fraghdr b"
  by (induction c) (auto split: option.splits dest: bucket_tick_key)

lemma tick_chain_ok: "chain_ok i c \<Longrightarrow> chain_ok i (List.map_filter bucket_tick c)"
proof (induction c)
  case (Cons b c)
  from Cons.prems have c: "chain_ok i c" by (simp add: chain_ok_def)
  have new: "tuple_key (pData b) \<noteq> tuple_key (pData x)" if x: "x \<in> set (List.map_filter bucket_tick c)" for x
  proof -
    obtain y where "y \<in> set c" "tuple_key (pData x) = tuple_key (pData y)" using tick_mem [OF x] by blast
    then show ?thesis using Cons.prems by (force simp: chain_ok_def)
  qed
  show ?case
  proof (cases "bucket_tick b")
    case None
    then show ?thesis using Cons.IH [OF c] by (simp add: map_filter_simps)
  next
    case (Some b')
    have "chain_ok i (b' # List.map_filter bucket_tick c)"
      using Cons.prems Cons.IH [OF c] new bucket_tick_key [OF Some] by (auto simp: chain_ok_def)
    then show ?thesis using Some by (simp add: map_filter_simps)
  qed
qed (simp add: chain_ok_def map_filter_simps)

lemma tick_inv: "hash_inv (pshashtable st) \<Longrightarrow> hash_inv (pshashtable (fragtimeouthandle st))"
  by (simp add: hash_inv_def fragtimeouthandle_def tick_chain_ok)

lemma init_inv: "initfragmodule m buf = Some st \<Longrightarrow> hash_inv (pshashtable st)"
  by (auto simp: initfragmodule_def ShashCreate_def hash_inv_def chain_ok_def split: if_splits)

text \<open>What happens to the module's state: a fragment is noted, or five seconds pass.\<close>

inductive frag_step :: "(u8 list \<Rightarrow> u8 list) \<Rightarrow> fragstate \<Rightarrow> fragstate \<Rightarrow> bool" for c where
  arrive: "frag_arrive c m m' g st cb = Some (st', out) \<Longrightarrow> frag_step c st st'"
| tick: "frag_step c st (fragtimeouthandle st)"

inductive_cases frag_stepE: "frag_step c st st'"

lemma fragcopy_length: "fragcopy cbs buf n = Some (buf', n') \<Longrightarrow> length buf' = length buf"
  by (induction cbs buf n rule: fragcopy.induct) (auto split: bind_splits dest: put_length)

lemma frag_arrive_buf:
  "frag_arrive c m m' g st cb = Some (st', out) \<Longrightarrow> length (frag4buf st') = length (frag4buf st)"
  by (auto simp: frag_arrive_def fragprocess_def Let_def dest!: fragcopy_length put_length
      split: bind_splits list.splits option.splits if_splits prod.splits)

text \<open>C36: whatever fragments arrive and whenever the timer fires, every bucket lies in the chain its key hashes to, no two buckets have
  the same key, and the fragments of each are in strictly increasing order of their
  offsets; the reassembly buffer keeps its size.\<close>

theorem fragment_table_invariant:
  assumes "initfragmodule m buf = Some st" "(frag_step c)\<^sup>*\<^sup>* st st'"
  shows "hash_inv (pshashtable st') \<and> length (frag4buf st') = length buf"
  using assms(2)
proof (induction rule: rtranclp_induct)
  case base
  show ?case using assms(1) init_inv [OF assms(1)] by (auto simp: initfragmodule_def)
next
  case (step s s')
  from step.hyps(2) step.IH show ?case
    by (cases rule: frag_step.cases)
      (auto simp: fragtimeouthandle_def dest: frag_arrive_buf intro: frag_arrive_inv tick_inv [unfolded fragtimeouthandle_def, simplified])
qed

text \<open>One tick, seen through the look-up of a key.\<close>

lemma find_tick_chain:
  "distinct (map (\<lambda>b. tuple_key (pData b)) c) \<Longrightarrow>
    find (\<lambda>b. tuple_key (pData b) = k) (List.map_filter bucket_tick c) =
    Option.bind (find (\<lambda>b. tuple_key (pData b) = k) c) bucket_tick"
proof (induction c)
  case (Cons b c)
  have d: "distinct (map (\<lambda>b. tuple_key (pData b)) c)" using Cons.prems by simp
  note IH = Cons.IH [OF d]
  have none: "find (\<lambda>b. tuple_key (pData b) = k) c = None" if "tuple_key (pData b) = k"
    using Cons.prems that unfolding find_None_iff by (auto simp: image_iff)
  show ?case
  proof (cases "bucket_tick b")
    case None
    then show ?thesis using IH none by auto
  next
    case (Some b')
    then show ?thesis using IH none bucket_tick_key [OF Some] by auto
  qed
qed simp

lemma find_tick:
  assumes "hash_inv (pshashtable st)"
  shows "ShashBucketFind (pshashtable (fragtimeouthandle st)) k =
    Option.bind (ShashBucketFind (pshashtable st) k) bucket_tick"
  using hash_invD(1) [OF assms] hash_invD(2) [OF assms, of k] bucket_index_less [of "pshashtable st" k]
    find_tick_chain [where c = "pshashtable st ! bucket_index k" and k = k]
  by (simp add: ShashBucketFind_def fragtimeouthandle_def chain_ok_def)

definition aged :: "nat \<Rightarrow> bucket_node \<Rightarrow> bucket_node" where
  "aged n b = b\<lparr>pData := (pData b)\<lparr>time_out := time_out (pData b) - 5 * int n\<rparr>\<rparr>"

lemma ticks_inv: "hash_inv (pshashtable st) \<Longrightarrow> hash_inv (pshashtable ((fragtimeouthandle ^^ n) st))"
  by (induction n) (simp_all add: tick_inv)

text \<open>A flow that no fragment arrives for is kept, with its fragments, as long as its time-out has not passed, and is gone, with its
  fragments, from the tick at which it has; the flow just created or renewed lives for eleven
  ticks of five seconds and is gone at the twelfth.\<close>

theorem silent_flow_forgotten:
  assumes "hash_inv (pshashtable st)" "ShashBucketFind (pshashtable st) k = Some b" "0 < time_out (pData b)"
  shows "ShashBucketFind (pshashtable ((fragtimeouthandle ^^ n) st)) k =
    (if 5 * int n < time_out (pData b) then Some (aged n b) else None)"
proof (induction n)
  case 0
  then show ?case using assms by (simp add: aged_def)
next
  case (Suc n)
  show ?case
    using find_tick [OF ticks_inv [OF assms(1), of n], of k] Suc
    by (auto simp: bucket_tick_def aged_def MAX_FRAG_PER_TIME_def)
qed

theorem fragment_table_invariant_witness:
  "hash_inv (pshashtable (fragtimeouthandle empty_state)) \<and> length (frag4buf (fragtimeouthandle empty_state)) = 66000"
proof -
  have "initfragmodule all_ok (replicate 66000 0) = Some empty_state"
    by (simp add: initfragmodule_def ShashCreate_def all_ok_def empty_state_def)
  moreover have "(frag_step (\<lambda>h. h))\<^sup>*\<^sup>* empty_state (fragtimeouthandle empty_state)"
    by (rule r_into_rtranclp, rule frag_step.tick)
  ultimately show ?thesis using fragment_table_invariant by fastforce
qed

definition one_flow :: fragstate where
  "one_flow = empty_state\<lparr>pshashtable := (pshashtable empty_state)[bucket_index (frag6_key frag_global (replicate 16 3) (replicate 30 7)) :=
     [bucket_for (frag6_key frag_global (replicate 16 3) (replicate 30 7)) (replicate 30 7) sample_cb [(0, 8)]]]\<rparr>"

theorem silent_flow_forgotten_witness:
  "ShashBucketFind (pshashtable ((fragtimeouthandle ^^ 11) one_flow)) (frag6_key frag_global (replicate 16 3) (replicate 30 7)) \<noteq> None
    \<and> ShashBucketFind (pshashtable ((fragtimeouthandle ^^ 12) one_flow)) (frag6_key frag_global (replicate 16 3) (replicate 30 7)) = None"
proof -
  let ?k = "frag6_key frag_global (replicate 16 3) (replicate 30 7)"
  let ?b = "bucket_for ?k (replicate 30 7) sample_cb [(0, 8)]"
  have e: "hash_inv (pshashtable empty_state)"
    by (auto simp: hash_inv_def empty_state_def chain_ok_def)
  have i: "hash_inv (pshashtable one_flow)"
    using hash_inv_upd [OF e, of "bucket_index ?k" "[?b]"]
    by (simp add: one_flow_def chain_ok_def bucket_for_def)
  have f: "ShashBucketFind (pshashtable one_flow) ?k = Some ?b"
    using bucket_index_less [OF empty_state(1), of ?k]
    by (simp add: one_flow_def ShashBucketFind_def bucket_for_def)
  have t: "0 < time_out (pData ?b)" "time_out (pData ?b) = 60" by (simp_all add: bucket_for_def FRAG_TIMEOUT_def)
  show ?thesis
    using silent_flow_forgotten [OF i f t(1), of 11] silent_flow_forgotten [OF i f t(1), of 12] t(2) by simp
qed

section \<open>Where the promise is not kept\<close>

abbreviation new_tuple :: "FRAG_KEY \<Rightarrow> FRAG_TUPLE" where
  "new_tuple k \<equiv> \<lparr>tuple_key = k, tuple_len = 0, tuple_length = 0, tuple_flag = 0, time_out = FRAG_TIMEOUT\<rparr>"

lemma fragnodeinsert_new:
  assumes "length t = MAX_SHASH_SIZE" "ShashBucketFind t k = None" "\<forall>i. m i"
    "createfragkey (skb_data (cb_skb cb)) = Some k"
    "updatelength (new_tuple k) (skb_data (cb_skb cb)) = Some (p, r)"
  shows "\<exists>t'. fragnodeinsert m t cb = Some (t', if 0 < r then Some k else None) \<and> length t' = MAX_SHASH_SIZE
    \<and> ShashBucketFind t' k = Some \<lparr>pData = p, fraghdr = [cb], cnt = 1\<rparr>"
proof -
  obtain t1 where t1: "ShashInsert True t k (new_tuple k) = Some t1" by (simp add: ShashInsert_def)
  have l: "length t1 = MAX_SHASH_SIZE" using length_ShashInsert [OF t1] assms(1) by simp
  have f: "ShashBucketFind t1 k = Some \<lparr>pData = new_tuple k, fraghdr = [], cnt = 0\<rparr>"
    using find_ShashInsert [OF assms(1) t1, of k] by simp
  let ?b = "\<lparr>pData = p, fraghdr = [cb], cnt = 1 :: u32\<rparr>"
  have "ShashBucketFind (bucket_update t1 k ?b) k = Some ?b"
    using find_bucket_update [OF l, of ?b k k] updatelength_key [OF assms(5)] f by simp
  then show ?thesis
    using assms t1 f l by (simp add: fragnodeinsert_def createfragtuple_def ShashFragInsert_def)
qed

lemma fragnodeinsert_more:
  assumes "length t = MAX_SHASH_SIZE" "ShashBucketFind t k = Some b" "\<forall>i. m i" "cnt b + 1 \<le> MAX_FRAG_CNT"
    "createfragkey (skb_data (cb_skb cb)) = Some k"
    "updatelength (updatetupletimeout (pData b) FRAG_TIMEOUT) (skb_data (cb_skb cb)) = Some (p, r)"
  shows "\<exists>t'. fragnodeinsert m t cb = Some (t', if 0 < r then Some k else None) \<and> length t' = MAX_SHASH_SIZE
    \<and> ShashBucketFind t' k = Some \<lparr>pData = p, fraghdr = frag_insert cb (fraghdr b), cnt = cnt b + 1\<rparr>"
proof -
  let ?b = "\<lparr>pData = p, fraghdr = frag_insert cb (fraghdr b), cnt = cnt b + 1\<rparr>"
  obtain pd fh c where b: "b = \<lparr>pData = pd, fraghdr = fh, cnt = c\<rparr>" by (cases b)
  have "ShashBucketFind (bucket_update t k ?b) k = Some ?b"
    using find_bucket_update [OF assms(1), of ?b k k] updatelength_key [OF assms(6)] find_key [OF assms(2)]
      assms(2) by (simp add: updatetupletimeout_def)
  moreover have "\<not> cnt b + 1 > MAX_FRAG_CNT" using assms(4) by simp
  ultimately show ?thesis
    using assms by (simp add: fragnodeinsert_def ShashFragInsert_def b)
qed

text \<open>The size of a fragment's payload and its place, from its headers.\<close>

definition says :: "FRAG_KEY \<Rightarrow> FRAG_CB \<Rightarrow> nat \<Rightarrow> nat \<Rightarrow> bool \<Rightarrow> bool" where
  "says k cb o' l mf \<longleftrightarrow> createfragkey (skb_data (cb_skb cb)) = Some k
     \<and> get16 (skb_data (cb_skb cb)) 4 = Some (word_of_nat (l + 8))
     \<and> get16 (skb_data (cb_skb cb)) 42 = Some (if mf then word_of_nat o' OR 1 else word_of_nat o')
     \<and> cb_offset cb = word_of_nat o' \<and> cb_length cb = word_of_nat l
     \<and> even o' \<and> o' < 2 ^ 16 \<and> l + 8 < 2 ^ 16"

lemma updatelength_says:
  assumes "says k cb o' l mf"
  shows "updatelength p (skb_data (cb_skb cb)) =
    (let p = p\<lparr>tuple_len := tuple_len p + word_of_nat l\<rparr>;
         p = (if mf then p else p\<lparr>tuple_length := word_of_nat (o' + l), tuple_flag := 1\<rparr>)
     in Some (p, if tuple_flag p \<noteq> 0 \<and> tuple_len p = tuple_length p then 1 else -1))"
proof -
  have a: "get16 (skb_data (cb_skb cb)) 4 = Some (word_of_nat (l + 8))"
    "get16 (skb_data (cb_skb cb)) 42 = Some (if mf then word_of_nat o' OR 1 else word_of_nat o')"
    "even o'" "o' < 2 ^ 16" "l + 8 < 2 ^ 16"
    using assms by (simp_all add: says_def)
  note o = even_or_1 [OF a(3,4)]
  show ?thesis
    using a(1,2) o payload_size [OF a(5)] ucast_u16 [OF a(4)]
    by (cases mf) (simp_all add: updatelength_def FRAG_MORE_def FRAG_OFFSET_def Let_def)
qed

text \<open>C37: two fragments are enough to have the module write behind its reassembly buffer: one that claims a place reaching past the
  buffer's end, and a last fragment whose offset is the first one's length, so that
  the lengths add up to the length of the packet.\<close>

theorem defrag_overflow:
  assumes "says k a o1 l1 True" "says k b l1 l2 False" "l1 < o1" "66000 < o1 + l1"
    "length (pshashtable st) = MAX_SHASH_SIZE" "length (frag4buf st) = 66000"
    "ShashBucketFind (pshashtable st) k = None" "\<forall>i. m i"
  shows "frag_arrivals c m m' g st [a, b] = None"
proof -
  have s: "createfragkey (skb_data (cb_skb a)) = Some k" "createfragkey (skb_data (cb_skb b)) = Some k"
    "cb_offset a = word_of_nat o1" "cb_offset b = word_of_nat l1" "cb_length a = word_of_nat l1"
    "o1 < 2 ^ 16" "l1 < 2 ^ 16"
    using assms(1,2) by (simp_all add: says_def)
  have u: "unat (cb_offset a) = o1" "unat (cb_length a) = l1" "unat (cb_offset b) = l1"
    unfolding s(3,4,5) using s(6,7) by (auto intro!: of_nat_inverse [OF refl])
  let ?p = "(new_tuple k)\<lparr>tuple_len := word_of_nat l1\<rparr>"
  have ua: "updatelength (new_tuple k) (skb_data (cb_skb a)) = Some (?p, -1)"
    by (simp add: updatelength_says [OF assms(1)])
  obtain t1 where t1: "fragnodeinsert m (pshashtable st) a = Some (t1, None)" "length t1 = MAX_SHASH_SIZE"
    "ShashBucketFind t1 k = Some \<lparr>pData = ?p, fraghdr = [a], cnt = 1\<rparr>"
    using fragnodeinsert_new [OF assms(5,7,8) s(1) ua] by auto
  let ?b = "\<lparr>pData = ?p, fraghdr = [a], cnt = 1 :: u32\<rparr>"
  let ?p2 = "(new_tuple k)\<lparr>tuple_len := word_of_nat (l1 + l2), tuple_length := word_of_nat (l1 + l2), tuple_flag := 1\<rparr>"
  have ub: "updatelength (updatetupletimeout (pData ?b) FRAG_TIMEOUT) (skb_data (cb_skb b)) = Some (?p2, 1)"
    by (simp add: updatelength_says [OF assms(2)] updatetupletimeout_def)
  have c1: "cnt ?b + 1 \<le> MAX_FRAG_CNT" by (simp add: MAX_FRAG_CNT_def)
  obtain t2 where t2: "fragnodeinsert m t1 b = Some (t2, Some k)"
    "ShashBucketFind t2 k = Some \<lparr>pData = ?p2, fraghdr = frag_insert b [a], cnt = 2\<rparr>"
    using fragnodeinsert_more [OF t1(2,3) assms(8) c1 s(2) ub] by auto
  have lt: "cb_offset b < cb_offset a" using assms(3) u by (simp add: word_less_nat_alt)
  then have i: "frag_insert b [a] = [b, a]" by (auto simp: fragcompare_def)
  have over: False if "getn p 0 l1 = Some x" "put buf o1 x = Some y" "length buf = 66000" for p buf x y
    using that assms(4) getn_length [OF that(1)] by (auto simp: put_def split: if_splits)
  have "fragcopy [b, a] buf n = None" if l: "length buf = 66000" for buf n
    by (auto simp: u split: bind_splits) (metis over put_length l)
  then show ?thesis
    using t1(1) t2 assms(6) by (simp add: frag_arrive_def fragprocess_def i del: fragcopy.simps frag_insert.simps)
qed

definition huge_packet :: "u8 list" where
  "huge_packet = replicate 70000 0"

definition forged :: "nat \<times> nat \<Rightarrow> bool \<Rightarrow> FRAG_CB" where
  "forged f mf = \<lparr>cb_offset = word_of_nat (fst f), cb_mf = (if mf then 1 else 0), cb_length = word_of_nat (snd f),
     cb_skb = fresh_skb (replicate 6 2) ETH_P_IPV6 (frag6_bytes frag_global (replicate 16 3)
       (if mf then huge_packet else take (fst f + snd f) huge_packet) f)\<rparr>"

lemma forged_says:
  assumes "fst f + snd f < 70000" "even (fst f)" "fst f < 2 ^ 16" "snd f + 8 < 2 ^ 16" "5 < fst f + snd f"
  shows "says (frag6_key frag_global (replicate 16 3) huge_packet) (forged f mf) (fst f) (snd f) mf"
proof -
  let ?p = "if mf then huge_packet else take (fst f + snd f) huge_packet"
  have l: "fst f + snd f \<le> length ?p" "fst f + snd f < length ?p \<longleftrightarrow> mf"
    using assms(1) by (auto simp: huge_packet_def)
  have i: "frag_id ?p = frag_id huge_packet"
    using assms(1,5) by (auto simp: frag_id_def huge_packet_def)
  show ?thesis
    using frag6_fields(1-3) [OF frag_sample(7,8) l(1)] i assms(2-4) l(2)
    by (simp add: says_def forged_def fresh_skb_def frag6_key_def)
qed

theorem defrag_overflow_witness:
  "frag_arrivals (\<lambda>h. h) all_ok all_ok frag_global empty_state [forged (65000, 1400) True, forged (1400, 8) False] = None"
proof -
  let ?k = "frag6_key frag_global (replicate 16 3) huge_packet"
  have a: "says ?k (forged (65000, 1400) True) 65000 1400 True"
    using forged_says [of "(65000, 1400)" True] by simp
  have b: "says ?k (forged (1400, 8) False) 1400 8 False"
    using forged_says [of "(1400, 8)" False] by simp
  have l: "length (frag4buf empty_state) = 66000" by simp
  show ?thesis
    by (rule defrag_overflow [OF a b _ _ empty_state(1) l empty_state(2) frag_sample(9)]) simp_all
qed

text \<open>A fragment that arrives twice is not stored twice, but its length is counted twice: the packet of three pieces of \<open>l\<close> bytes counts as
  complete when the first piece came twice and the second never.  What is sent then is only \<open>2 * l\<close> bytes
  long, ends in what the buffer held before, and lacks the last piece.\<close>

theorem duplicate_completes_early:
  assumes "fragmented k d mk [(0, l), (l, l), (2 * l, l)] cap"
    "3 * l \<le> length (frag4buf st)" "2 * l \<le> unat (usMtu g)"
    "length (pshashtable st) = MAX_SHASH_SIZE" "ShashBucketFind (pshashtable st) k = None"
    "\<forall>i. m i" "\<forall>i. m' i"
  shows "\<exists>st'. frag_arrivals c m m' g st [mk (0, l), mk (0, l), mk (2 * l, l)] =
    Some (st', [fresh_skb (h_dest (cb_skb (mk (0, l)))) ETH_P_IP (take l d @ take l (drop l (frag4buf st)))])"
proof -
  note F = fragmentedD [OF assms(1)] and P = pieces [OF assms(1)]
  have d: "length d = 3 * l" "0 < l" using F(1) by auto
  let ?a = "mk (0, l)" and ?z = "mk (2 * l, l)"
  have fo: "frag_of k d (0, l) ?a" "frag_of k d (2 * l, l) ?z" by (rule F(2), simp)+
  have po: "piece_ok d (0, l)" "piece_ok d (2 * l, l)" by (rule P(1), simp)+
  have ka: "createfragkey (skb_data (cb_skb ?a)) = Some k" and kz: "createfragkey (skb_data (cb_skb ?z)) = Some k"
    using fo by (simp_all add: frag_of_def Let_def)
  have sm: "says k ?a 0 l True" "says k ?z (2 * l) l False"
    using fo po d by (auto simp: frag_of_def Let_def says_def piece_ok_def)
  have ne: "(word_of_nat l :: u32) + word_of_nat l + word_of_nat l = word_of_nat (3 * l)" by simp
  let ?p1 = "(new_tuple k)\<lparr>tuple_len := word_of_nat l\<rparr>"
  let ?p2 = "(new_tuple k)\<lparr>tuple_len := word_of_nat l + word_of_nat l\<rparr>"
  let ?p3 = "(new_tuple k)\<lparr>tuple_len := word_of_nat (3 * l), tuple_length := word_of_nat (3 * l), tuple_flag := 1\<rparr>"
  have ua: "updatelength (new_tuple k) (skb_data (cb_skb ?a)) = Some (?p1, -1)"
    by (simp add: updatelength_says [OF sm(1)])
  obtain t1 where t1: "fragnodeinsert m (pshashtable st) ?a = Some (t1, None)" "length t1 = MAX_SHASH_SIZE"
    "ShashBucketFind t1 k = Some \<lparr>pData = ?p1, fraghdr = [?a], cnt = 1\<rparr>"
    using fragnodeinsert_new [OF assms(4,5,6) ka ua] by auto
  let ?b1 = "\<lparr>pData = ?p1, fraghdr = [?a], cnt = 1 :: u32\<rparr>"
  have ub: "updatelength (updatetupletimeout (pData ?b1) FRAG_TIMEOUT) (skb_data (cb_skb ?a)) = Some (?p2, -1)"
    by (simp add: updatelength_says [OF sm(1)] updatetupletimeout_def)
  have c1: "cnt ?b1 + 1 \<le> MAX_FRAG_CNT" by (simp add: MAX_FRAG_CNT_def)
  have dup: "frag_insert ?a [?a] = [?a]" by (simp add: fragcompare_def)
  obtain t2 where t2: "fragnodeinsert m t1 ?a = Some (t2, None)" "length t2 = MAX_SHASH_SIZE"
    "ShashBucketFind t2 k = Some \<lparr>pData = ?p2, fraghdr = [?a], cnt = 2\<rparr>"
    using fragnodeinsert_more [OF t1(2,3) assms(6) c1 ka ub] dup by auto
  let ?b2 = "\<lparr>pData = ?p2, fraghdr = [?a], cnt = 2 :: u32\<rparr>"
  have uc: "updatelength (updatetupletimeout (pData ?b2) FRAG_TIMEOUT) (skb_data (cb_skb ?z)) = Some (?p3, 1)"
    unfolding updatelength_says [OF sm(2)] by (simp add: updatetupletimeout_def)
  have c2: "cnt ?b2 + 1 \<le> MAX_FRAG_CNT" by (simp add: MAX_FRAG_CNT_def)
  obtain ia iz where
    ia: "frag_iphandle (skb_data (cb_skb ?a)) = Some ia" "getn ia 0 (unat (cb_length ?a)) = Some (take l d)"
      "unat (cb_offset ?a) = 0" "unat (cb_length ?a) = l" and
    iz: "frag_iphandle (skb_data (cb_skb ?z)) = Some iz" "getn iz 0 (unat (cb_length ?z)) = Some (take l (drop (2 * l) d))"
      "unat (cb_offset ?z) = 2 * l" "unat (cb_length ?z) = l"
    using frag_iphandle_frag [OF fo(1) po(1)] frag_iphandle_frag [OF fo(2) po(2)] by auto
  have lt: "cb_offset ?a < cb_offset ?z" using ia(3) iz(3) d(2) by (simp add: word_less_nat_alt)
  then have i: "frag_insert ?z [?a] = [?a, ?z]" by (auto simp: fragcompare_def)
  obtain t3 where t3: "fragnodeinsert m t2 ?z = Some (t3, Some k)"
    "ShashBucketFind t3 k = Some \<lparr>pData = ?p3, fraghdr = [?a, ?z], cnt = 3\<rparr>"
    using fragnodeinsert_more [OF t2(2,3) assms(6) c2 kz uc] i by auto
  let ?buf = "frag4buf st"
  let ?buf1 = "take l d @ drop l ?buf"
  let ?buf2 = "take (2 * l) ?buf1 @ take l (drop (2 * l) d) @ drop (3 * l) ?buf1"
  have b: "put ?buf 0 (take l d) = Some ?buf1" "put ?buf1 (2 * l) (take l (drop (2 * l) d)) = Some ?buf2"
    using assms(2) d(1) by (simp_all add: put_def)
  have g: "getn ?buf2 0 (l + l) = Some (take l d @ take l (drop l ?buf))"
    using assms(2) d(1) by (simp add: getn_def)
  have cp: "fragcopy [?a, ?z] ?buf 0 = Some (?buf2, l + l)"
    using ia iz b by simp
  show ?thesis
    using t1(1) t2(1) t3 cp g assms(3,7)
    by (simp add: frag_arrive_def fragprocess_def sndipskbuf_def fragsk_bufalloc_def fresh_skb_def
        del: fragcopy.simps frag_insert.simps)
qed

definition short_skb :: skbuff where
  "short_skb = fresh_skb (replicate 6 2) ETH_P_IP (replicate 24 7)"

theorem duplicate_completes_early_witness:
  "\<exists>st' (mk :: nat \<times> nat \<Rightarrow> FRAG_CB). frag_arrivals (\<lambda>h. h) all_ok all_ok frag_global empty_state [mk (0, 8), mk (0, 8), mk (2 * 8, 8)] =
    Some (st', [fresh_skb (replicate 6 9) ETH_P_IP (replicate 8 7 @ replicate 8 0)])"
proof -
  let ?k = "frag6_key frag_global (replicate 16 3) (replicate 24 7)"
  let ?mk = "frag6_cb frag_global (replicate 16 3) (replicate 6 9) short_skb"
  have s: "skb_data short_skb = replicate 24 7" by (simp add: short_skb_def fresh_skb_def)
  have f: "fragmented ?k (replicate 24 7) ?mk [(0, 8), (8, 8), (2 * 8, 8)] 8"
    unfolding s [symmetric] by (rule frag6_fragmented [OF _ frag_sample(7,8)]) (simp_all add: s)
  have h: "h_dest (cb_skb (?mk (0, 8))) = replicate 6 9" by (simp add: frag6_cb_def received_def)
  have b: "3 * 8 \<le> length (frag4buf empty_state)" "2 * 8 \<le> unat (usMtu frag_global)"
    by (simp_all add: frag_global_def)
  have t: "take 8 (replicate 24 (7 :: u8)) = replicate 8 7"
    "take 8 (drop 8 (frag4buf empty_state)) = replicate 8 0" by simp_all
  show ?thesis
    using duplicate_completes_early [OF f b empty_state(1,2) frag_sample(9,9), of "\<lambda>h. h"]
    unfolding h t by blast
qed

end
