(* ===== verification/Path.thy ===== *)
theory Path
  imports Packet Reassembly
begin

text \<open>
  What the packet path promises: the packets of a subscriber are packed and unpacked, nobody else's
  are, and packets that are none of the module's business pass it untouched.
\<close>

section \<open>Look-ups and patches\<close>

lemma patch_other: "get8 buf 9 = Some p \<Longrightarrow> p \<noteq> 6 \<Longrightarrow> patch_tcpmss g buf n = Some buf"
  by (simp add: patch_tcpmss_def)

lemma patch_length: "patch_tcpmss g buf n = Some buf' \<Longrightarrow> length buf' = length buf"
proof (cases "buf' = buf")
  case False
  assume "patch_tcpmss g buf n = Some buf'"
  then obtain i where "patch_mss g buf i = Some buf'" using False by (rule patch_cases)
  then obtain mss where "fix_msscksum buf 36 (i + 2) (usMtu g - 80) = Some buf'"
    using False by (rule patch_mss_cases)
  then show ?thesis by (auto simp: fix_msscksum_def option_simps dest!: put_length)
qed simp

lemma lookup_v4_cases:
  assumes "tun_inv s"
  obtains "ports s (ip, port) = None" "LookupTunnel_v4 s (KEY_V4 ip port) = Some None"
  | p t where "ports s (ip, port) = Some t" "LookupTunnel_v4 s (KEY_V4 ip port) = Some (Some p)"
      "tun_mem s p = Some t" "users s (ucCltIPv6 t) = Some t" "uiExtIP t = ip" "usStartPort t = port"
proof (cases "ports s (ip, port)")
  case None
  with ports_None_iff [OF assms] LookupTunnel_v4_ok [OF assms] that(1) show ?thesis
    by (simp add: map_of_eq_None_iff [THEN iffD2])
next
  case (Some t)
  then obtain p where p: "(KEY_V4 ip port, p) \<in> set (header (tree4 s))" "tun_mem s p = Some t"
    by (auto simp: ports_Some_iff [OF assms])
  have "map_of (header (tree4 s)) (KEY_V4 ip port) = Some p"
    using p(1) map_of_mem_iff [OF tun_invD(1) [OF assms]] by simp
  moreover have "users s (ucCltIPv6 t) = Some t" "uiExtIP t = ip" "usStartPort t = port"
    using Some ports_users [OF assms] by simp_all
  ultimately show ?thesis using p Some LookupTunnel_v4_ok [OF assms] that(2) by simp
qed

section \<open>The buffers sent\<close>

text \<open>The frame \<open>CreateIPinIP_skbuf\<close> makes.\<close>

lemma CreateIPinIP_ok:
  assumes "length (skb_data skb) < 2 ^ 16"
  shows "CreateIPinIP_skbuf True g skb a = Some ([fresh_skb (h_dest skb) ETH_P_IPV6
    (ipv6_header (word_of_nat (length (skb_data skb))) IPINIP (ucTcIPv6 g) a @ skb_data skb)], 1)"
proof -
  have "unat (word_of_nat (length (skb_data skb)) :: u16) = length (skb_data skb)"
    using assms by (intro of_nat_inverse [OF refl]) simp
  then show ?thesis by (simp add: CreateIPinIP_skbuf_def fragsk_bufalloc_def fresh_skb_def Let_def)
qed

lemma unpack_ok:
  assumes "get16 (skb_data skb) 4 = Some n" "length (skb_data skb) = unat n + 40"
  shows "HandleIPinIP_skbuf skb = Some (skb\<lparr>h_proto := ETH_P_IP, skb_data := drop 40 (skb_data skb)\<rparr>)"
  using assms by (simp add: HandleIPinIP_skbuf_def getn_def)

lemma ipv6_header_fields:
  assumes "length saddr = 16" "length daddr = 16"
  shows "get16 (ipv6_header n nh saddr daddr @ p) 4 = Some n"
    "get8 (ipv6_header n nh saddr daddr @ p) 6 = Some nh"
    "getn (ipv6_header n nh saddr daddr @ p) 8 16 = Some saddr"
    "getn (ipv6_header n nh saddr daddr @ p) 24 16 = Some daddr"
    "length (ipv6_header n nh saddr daddr) = 40"
proof -
  let ?h = "[0x60, 0, 0, 0] @ be16 n @ [nh, 64]"
  have b: "ipv6_header n nh saddr daddr @ p = ?h @ saddr @ daddr @ p"
    "ipv6_header n nh saddr daddr @ p = (?h @ saddr) @ daddr @ p"
    by (simp_all add: ipv6_header_def)
  show "get16 (ipv6_header n nh saddr daddr @ p) 4 = Some n"
    by (simp add: ipv6_header_def get16_def be16_def)
  show "get8 (ipv6_header n nh saddr daddr @ p) 6 = Some nh"
    by (simp add: ipv6_header_def get8_def be16_def)
  show "getn (ipv6_header n nh saddr daddr @ p) 8 16 = Some saddr"
    unfolding b(1) using assms getn_prefix [of saddr] by (subst getn_append) simp_all
  show "getn (ipv6_header n nh saddr daddr @ p) 24 16 = Some daddr"
    unfolding b(2) using assms getn_prefix [of daddr] by (subst getn_append) simp_all
  show "length (ipv6_header n nh saddr daddr) = 40" using assms by (simp add: ipv6_header_def)
qed

text \<open>What \<open>CreateIPinIP_skbuf\<close> packs for a client, \<open>HandleIPinIP_skbuf\<close> of a peer unpacks to the same packet, and the frame in between carries the
  module's address as its source and the client's as its destination.\<close>

theorem ipinip_roundtrip:
  assumes "length (skb_data skb) < 2 ^ 16" "length (ucTcIPv6 g) = 16" "length a = 16"
  shows "\<exists>b b'. CreateIPinIP_skbuf True g skb a = Some ([b], 1)
    \<and> FetchIPv6_skbuf (skb_data b) = Some (ucTcIPv6 g) \<and> getn (skb_data b) 24 16 = Some a
    \<and> HandleIPinIP_skbuf (received mac b) = Some b'
    \<and> skb_data b' = skb_data skb \<and> h_proto b' = ETH_P_IP"
proof -
  let ?n = "word_of_nat (length (skb_data skb)) :: u16"
  let ?b = "fresh_skb (h_dest skb) ETH_P_IPV6 (ipv6_header ?n IPINIP (ucTcIPv6 g) a @ skb_data skb)"
  note h = ipv6_header_fields [OF assms(2,3), of ?n IPINIP]
  have n: "unat ?n = length (skb_data skb)"
    using assms(1) by (intro of_nat_inverse [OF refl]) simp
  have "HandleIPinIP_skbuf (received mac ?b) =
    Some ((received mac ?b)\<lparr>h_proto := ETH_P_IP, skb_data := drop 40 (skb_data (received mac ?b))\<rparr>)"
    by (rule unpack_ok [where n = ?n]) (simp_all add: received_def fresh_skb_def h n)
  then show ?thesis
    using CreateIPinIP_ok [OF assms(1)] h
    by (intro exI [of _ ?b] exI) (auto simp: received_def fresh_skb_def FetchIPv6_skbuf_def)
qed

theorem ipinip_roundtrip_witness:
  "\<exists>b b'. CreateIPinIP_skbuf True frag_global frag_skb (replicate 16 3) = Some ([b], 1)
    \<and> HandleIPinIP_skbuf (received (replicate 6 9) b) = Some b' \<and> skb_data b' = replicate 30 7"
  using ipinip_roundtrip [of frag_skb frag_global "replicate 16 3" "replicate 6 9"] frag_sample(5,7,8,10) by auto

section \<open>Towards a subscriber\<close>

lemma port_of_other:
  "get8 pkt 9 = Some 6 \<or> get8 pkt 9 = Some 17 \<Longrightarrow> get32 pkt 16 = Some ip \<Longrightarrow> get16 pkt 22 = Some port \<Longrightarrow>
    FetchIPAndPort_skbuf pkt junk = Some (ip, port)"
  by (auto simp: FetchIPAndPort_skbuf_def IPPROTO_TCP_def IPPROTO_UDP_def)

lemma len_check_ok:
  "get16 pkt 6 \<noteq> None \<Longrightarrow> length pkt + 40 \<le> unat (usMtu (GlobalCtx s)) \<Longrightarrow> IPv4LenCheck e s pkt = Some (s, 1)"
  by (auto simp: IPv4LenCheck_def)

lemma get16_some: "get16 p i = Some x \<Longrightarrow> j \<le> i \<Longrightarrow> get16 p j \<noteq> None"
  by (auto simp: get16_def split: if_splits)

lemma downstream_ok:
  assumes "tun_inv (kst st)" "g = GlobalCtx (kst st)" "uiTunState g \<noteq> 0"
    "h_proto skb = ETH_P_IP" "\<not> skb_nonlinear skb" "pkt = skb_data skb"
    "get8 pkt 9 = Some 6 \<and> 34 \<le> length pkt \<or> get8 pkt 9 = Some 17"
    "length pkt + 40 \<le> unat (usMtu g)" "get32 pkt 16 = Some ip" "get16 pkt 22 = Some port"
    "uiExtBeginIP g \<le> ip" "ip \<le> uiExtEndIP g"
    "getstartport g port = Some sp" "ports (kst st) (ip, sp) = Some t" "mem_send e 0"
  shows "\<exists>pkt'. patch_tcpmss g pkt (length pkt) = Some pkt' \<and> length pkt' = length pkt
    \<and> stream_hook e st skb = Some (sent [fresh_skb (h_dest skb) ETH_P_IPV6
        (ipv6_header (word_of_nat (length pkt)) IPINIP (ucTcIPv6 g) (ucCltIPv6 t) @ pkt')] st, NF_DROP)"
proof -
  obtain p where p: "LookupTunnel_v4 (kst st) (KEY_V4 ip sp) = Some (Some p)" "tun_mem (kst st) p = Some t"
    using lookup_v4_cases [OF assms(1), of ip sp] assms(14) by (metis option.distinct(1) option.inject)
  obtain pkt' where pkt': "patch_tcpmss g pkt (length pkt) = Some pkt'"
    using assms(7) patch_tcpmss_in_bounds_lemma [of pkt g] patch_other [of pkt 17 g] by auto
  have l: "length pkt' = length pkt" by (rule patch_length [OF pkt'])
  have "unat (usMtu g) < 2 ^ 16" using unsigned_less [of "usMtu g"] by simp
  then have lt: "length (skb_data (skb\<lparr>skb_data := pkt'\<rparr>)) < 2 ^ 16" using l assms(8) by simp
  have c: "IPv4LenCheck e (kst st) pkt = Some (kst st, 1)"
    using len_check_ok [OF get16_some [OF assms(10)]] assms(2,8) by simp
  have f: "FetchIPAndPort_skbuf pkt (junk_port e) = Some (ip, port)"
    using port_of_other assms(7,9,10) by blast
  have ne: "ETH_P_IP \<noteq> ETH_P_IPV6" by (simp add: ETH_P_IP_def ETH_P_IPV6_def)
  have "HandleIPv4_skbuf e st skb = Some (sent [fresh_skb (h_dest skb) ETH_P_IPV6
        (ipv6_header (word_of_nat (length pkt)) IPINIP (ucTcIPv6 g) (ucCltIPv6 t) @ pkt')] st, 1)"
    using c f p pkt' assms(2,5,6,8,13,15) l CreateIPinIP_ok [OF lt, of g "ucCltIPv6 t"]
    by (simp add: HandleIPv4_skbuf_def Let_def not_less)
  then have "Handle_skbuf e st skb = Some (sent [fresh_skb (h_dest skb) ETH_P_IPV6
        (ipv6_header (word_of_nat (length pkt)) IPINIP (ucTcIPv6 g) (ucCltIPv6 t) @ pkt')] st, 1)"
    using assms(2,4,6,9,11,12) ne by (simp add: Handle_skbuf_def IPFilter_def)
  then show ?thesis using pkt' l assms(2,3) by (simp add: stream_hook_def)
qed

text \<open>A TCP or UDP packet to a subscriber's public address and to a port of his range, short enough for the tunnel, leaves the hook as one IPv6 packet
  to the subscriber that carries it, with its MSS clamped, behind an IPv6 header; the original is dropped, and nothing
  else changes.\<close>

theorem downstream_encapsulated:
  assumes "tun_inv (kst st)" "g = GlobalCtx (kst st)" "uiTunState g \<noteq> 0"
    "h_proto skb = ETH_P_IP" "\<not> skb_nonlinear skb" "pkt = skb_data skb"
    "get8 pkt 9 = Some 6 \<and> 34 \<le> length pkt \<or> get8 pkt 9 = Some 17"
    "length pkt + 40 \<le> unat (usMtu g)" "get32 pkt 16 = Some ip" "get16 pkt 22 = Some port"
    "uiExtBeginIP g \<le> ip" "ip \<le> uiExtEndIP g"
    "getstartport g port = Some sp" "ports (kst st) (ip, sp) = Some t" "mem_send e 0"
  shows "\<exists>pkt'. patch_tcpmss g pkt (length pkt) = Some pkt' \<and> length pkt' = length pkt
    \<and> stream_hook e st skb = Some (sent [fresh_skb (h_dest skb) ETH_P_IPV6
        (ipv6_header (word_of_nat (length pkt)) IPINIP (ucTcIPv6 g) (ucCltIPv6 t) @ pkt')] st, NF_DROP)"
  by (rule downstream_ok [OF assms])

section \<open>From a subscriber\<close>

lemma handle_ipinip_user:
  assumes "tun_inv (kst st)" "getn (skb_data skb) 8 16 = Some a" "users (kst st) a = Some t"
    "get16 (skb_data skb) 4 = Some n" "length (skb_data skb) = unat n + 40"
    "patch_tcpmss (GlobalCtx (kst st)) (drop 40 (skb_data skb)) (unat n) = Some pkt'" "mem_send e 0"
  shows "handle_ipinip e st skb = Some (sent [fresh_skb (h_dest skb) ETH_P_IP pkt'] st, -1)"
proof -
  obtain p where "LookupTunnel_v6 (kst st) (KEY_V6 a) = Some (Some p)"
    using lookup_v6_cases [OF assms(1), of a] assms(3) by (metis option.distinct(1))
  then show ?thesis
    using unpack_ok [OF assms(4,5)] assms(2,5,6,7)
    by (simp add: handle_ipinip_def FetchIPv6_skbuf_def SendSkbuf_def SkbufMacSet_def fresh_skb_def)
qed

lemma upstream_ok:
  assumes "tun_inv (kst st)" "g = GlobalCtx (kst st)" "uiTunState g \<noteq> 0"
    "h_proto skb = ETH_P_IPV6" "pkt = skb_data skb" "get8 pkt 6 = Some IPINIP"
    "getn pkt 8 16 = Some a" "a \<noteq> ucTcIPv6 g" "users (kst st) a = Some t"
    "get16 pkt 4 = Some n" "length pkt = unat n + 40" "34 \<le> unat n" "mem_send e 0"
  shows "\<exists>pkt'. patch_tcpmss g (drop 40 pkt) (unat n) = Some pkt' \<and> length pkt' = unat n
    \<and> stream_hook e st skb = Some (sent [fresh_skb (h_dest skb) ETH_P_IP pkt'] st, NF_DROP)"
proof -
  have len: "length (drop 40 pkt) = unat n" using assms(11) by simp
  obtain pkt' where pkt': "patch_tcpmss g (drop 40 pkt) (unat n) = Some pkt'"
    using patch_tcpmss_in_bounds_lemma [of "drop 40 pkt" g] assms(12) unfolding len by blast
  have "handle_ipinip e st skb = Some (sent [fresh_skb (h_dest skb) ETH_P_IP pkt'] st, -1)"
    using handle_ipinip_user [OF assms(1)] assms pkt' by blast
  then have "Handle_skbuf e st skb = Some (sent [fresh_skb (h_dest skb) ETH_P_IP pkt'] st, -1)"
    using assms(2,4,5,6,7,8) by (simp add: Handle_skbuf_def IPFilter_def HandleIPv6_skbuf_def)
  then show ?thesis using pkt' patch_length [OF pkt'] len assms(2,3) by (simp add: stream_hook_def)
qed

text \<open>One subscriber, no fragments, nothing sent; everything succeeds.\<close>

definition net7 :: tcstate where
  "net7 = \<lparr>kst = state7, frg = empty_state, xmits = []\<rparr>"

definition env7 :: env where
  "env7 = \<lparr>mem_ok = all_ok, mem_msg = True, mem_send = all_ok, linear_ok = True, csum = (\<lambda>h. h), junk_port = 0\<rparr>"

definition up_skb :: "u8 \<Rightarrow> skbuff" where
  "up_skb a = fresh_skb (replicate 6 2) ETH_P_IPV6
     (ipv6_header 40 IPINIP (replicate 16 a) (replicate 16 1) @ replicate 40 0)"

lemma up_skb_fields:
  "h_proto (up_skb a) = ETH_P_IPV6" "get8 (skb_data (up_skb a)) 6 = Some IPINIP"
  "getn (skb_data (up_skb a)) 8 16 = Some (replicate 16 a)" "get16 (skb_data (up_skb a)) 4 = Some 40"
  "length (skb_data (up_skb a)) = unat (40 :: u16) + 40" "34 \<le> unat (40 :: u16)"
  "get32 (skb_data (up_skb a)) 52 = Some 0"
  using ipv6_header_fields(1-4) [of "replicate 16 a" "replicate 16 1" 40 IPINIP "replicate 40 0"]
    ipv6_header_fields(5) [of "replicate 16 a" "replicate 16 1" 40 IPINIP]
    get32_append [of "ipv6_header 40 IPINIP (replicate 16 a) (replicate 16 1)" 52 "replicate 40 0"]
  by (simp_all add: up_skb_def fresh_skb_def get32_def word_cat_eq)

lemma net7_facts:
  "tun_inv (kst net7)" "global7 = GlobalCtx (kst net7)" "uiTunState global7 \<noteq> 0"
  "users (kst net7) (replicate 16 6) = Some tunnel7" "users (kst net7) (replicate 16 8) = None"
  "ucTcIPv6 global7 = replicate 16 1" "mem_send env7 0" "mem_msg env7" "xmits net7 = []"
  by (simp_all add: net7_def state7_inv state7_users env7_def all_ok_def global7_def)

lemma net7_up:
  "\<exists>pkt'. stream_hook env7 net7 (up_skb 6) = Some (sent [fresh_skb (h_dest (up_skb 6)) ETH_P_IP pkt'] net7, NF_DROP)"
proof -
  have ne: "replicate 16 6 \<noteq> ucTcIPv6 global7" by (simp add: global7_def)
  show ?thesis
    using upstream_ok [OF net7_facts(1-3) up_skb_fields(1) refl up_skb_fields(2,3) ne net7_facts(4)
        up_skb_fields(4-6) net7_facts(7)] by blast
qed

text \<open>A tunnel packet whose outer source is a subscriber's address leaves the hook as its inner IPv4 packet, with its MSS
  clamped; the original is dropped, and nothing else changes.\<close>

theorem upstream_decapsulated:
  assumes "tun_inv (kst st)" "g = GlobalCtx (kst st)" "uiTunState g \<noteq> 0"
    "h_proto skb = ETH_P_IPV6" "pkt = skb_data skb" "get8 pkt 6 = Some IPINIP"
    "getn pkt 8 16 = Some a" "a \<noteq> ucTcIPv6 g" "users (kst st) a = Some t"
    "get16 pkt 4 = Some n" "length pkt = unat n + 40" "34 \<le> unat n" "mem_send e 0"
  shows "\<exists>pkt'. patch_tcpmss g (drop 40 pkt) (unat n) = Some pkt' \<and> length pkt' = unat n
    \<and> stream_hook e st skb = Some (sent [fresh_skb (h_dest skb) ETH_P_IP pkt'] st, NF_DROP)"
  by (rule upstream_ok [OF assms])

theorem upstream_decapsulated_witness:
  "\<exists>pkt'. length pkt' = 40
    \<and> stream_hook env7 net7 (up_skb 6) = Some (sent [fresh_skb (h_dest (up_skb 6)) ETH_P_IP pkt'] net7, NF_DROP)"
proof -
  have ne: "replicate 16 6 \<noteq> ucTcIPv6 global7" by (simp add: global7_def)
  have n: "unat (40 :: u16) = 40" by simp
  show ?thesis
    using upstream_decapsulated [OF net7_facts(1-3) up_skb_fields(1) refl up_skb_fields(2,3) ne net7_facts(4)
        up_skb_fields(4-6) net7_facts(7)] unfolding n by blast
qed

section \<open>Nobody else\<close>

text \<open>A frame to a client from the module's own address.\<close>

definition frame_to :: "GLOBAL_CTX \<Rightarrow> u8 list \<Rightarrow> skbuff \<Rightarrow> bool" where
  "frame_to g a b \<longleftrightarrow> h_proto b = ETH_P_IPV6
     \<and> getn (skb_data b) 8 16 = Some (ucTcIPv6 g) \<and> getn (skb_data b) 24 16 = Some a"

lemma send_frags_frames:
  "send_frags m mk mac proto k fs = Some (out, fin) \<Longrightarrow> b \<in> set out \<Longrightarrow>
    h_proto b = proto \<and> (\<exists>f. mk f = Some (skb_data b))"
  by (induction m mk mac proto k fs arbitrary: out fin rule: send_frags.induct)
    (auto simp: option_simps fragsk_bufalloc_def simp del: split_paired_Ex split: if_splits, metis)

lemma frag6_packet_form:
  "frag6_packet g a ident pkt f = Some c \<Longrightarrow> \<exists>n p. c = ipv6_header n NEXTHDR_FRAGMENT (ucTcIPv6 g) a @ p"
  by (intro exI [of _ "word_of_nat (snd f + 8)"]) (auto simp: frag6_packet_def Let_def option_simps split: prod.splits)

lemma frag6_frames:
  assumes "IPv4FragandIPinIP m g skb a = Some (out, r)" "length (ucTcIPv6 g) = 16" "length a = 16" "b \<in> set out"
  shows "frame_to g a b"
proof -
  obtain ident fs fin where s: "send_frags m (frag6_packet g a ident (skb_data skb)) (h_dest skb) ETH_P_IPV6 0 fs = Some (out, fin)"
    using assms(1) by (auto simp: IPv4FragandIPinIP_def Let_def option_simps)
  obtain f where "h_proto b = ETH_P_IPV6" "frag6_packet g a ident (skb_data skb) f = Some (skb_data b)"
    using send_frags_frames [OF s assms(4)] by blast
  moreover from this obtain n p where "skb_data b = ipv6_header n NEXTHDR_FRAGMENT (ucTcIPv6 g) a @ p"
    using frag6_packet_form by blast
  ultimately show ?thesis
    using ipv6_header_fields [OF assms(2,3)] by (simp add: frame_to_def)
qed

lemma CreateIPinIP_frames:
  assumes "CreateIPinIP_skbuf m g skb a = Some (out, r)" "length (ucTcIPv6 g) = 16" "length a = 16" "b \<in> set out"
  shows "frame_to g a b"
proof -
  have "h_proto b = ETH_P_IPV6 \<and> (\<exists>n. skb_data b = ipv6_header n IPINIP (ucTcIPv6 g) a @ skb_data skb)"
    using assms(1,4) by (auto simp: CreateIPinIP_skbuf_def fragsk_bufalloc_def Let_def split: if_splits)
  then show ?thesis using ipv6_header_fields [OF assms(2,3)] by (auto simp: frame_to_def)
qed

text \<open>The tunnel table and the configuration are not the packet path's to change.\<close>

definition same_table :: "kstate \<Rightarrow> kstate \<Rightarrow> bool" where
  "same_table s s' \<longleftrightarrow> tun_mem s' = tun_mem s \<and> pStroageCtx s' = pStroageCtx s \<and> GlobalCtx s' = GlobalCtx s"

lemma same_table_refl [simp]: "same_table s s"
  by (simp add: same_table_def)

lemma send_same_table [simp]: "same_table s (send_async_nlmsg m s)"
  by (simp add: same_table_def send_defs)

lemma IPv4LenCheck_same: "IPv4LenCheck e s pkt = Some (s', r) \<Longrightarrow> same_table s s'"
  by (auto simp: IPv4LenCheck_def option_simps split: if_splits)

lemma same_table_eqs:
  assumes "same_table s s'"
  shows "tun_inv s' = tun_inv s" "users s' = users s" "GlobalCtx s' = GlobalCtx s"
  using assms tun_inv_cong [of s' s] by (auto simp: same_table_def users_def)

lemma HandleIPv4_frames:
  assumes "tun_inv (kst st)" "HandleIPv4_skbuf e st skb = Some (st', r)"
    "length (ucTcIPv6 (GlobalCtx (kst st))) = 16" "\<And>a t. users (kst st) a = Some t \<Longrightarrow> length a = 16"
  shows "same_table (kst st) (kst st') \<and> frg st' = frg st
    \<and> (\<exists>out. xmits st' = xmits st @ out
      \<and> (out \<noteq> [] \<longrightarrow> (\<exists>a t. users (kst st) a = Some t \<and> (\<forall>b \<in> set out. frame_to (GlobalCtx (kst st)) a b))))"
proof -
  let ?g = "GlobalCtx (kst st)"
  obtain k r0 where l: "IPv4LenCheck e (kst st) (skb_data skb) = Some (k, r0)"
    using assms(2) by (auto simp: HandleIPv4_skbuf_def Let_def option_simps)
  note same = IPv4LenCheck_same [OF l] and eqs = same_table_eqs [OF IPv4LenCheck_same [OF l]]
  show ?thesis
  proof (cases "r0 < 0")
    case True
    then show ?thesis using assms(2) l same by (auto simp: HandleIPv4_skbuf_def Let_def option_simps)
  next
    case False
    obtain ip port sp where f: "FetchIPAndPort_skbuf (skb_data skb) (junk_port e) = Some (ip, port)"
      "getstartport ?g port = Some sp"
      using assms(2) l False by (auto simp: HandleIPv4_skbuf_def Let_def option_simps)
    have "tun_inv k" using assms(1) eqs(1) by simp
    then show ?thesis
    proof (cases rule: lookup_v4_cases [of k ip sp])
      case 1
      then show ?thesis using assms(2) l f False same by (auto simp: HandleIPv4_skbuf_def Let_def option_simps)
    next
      case (2 p t)
      have u: "users (kst st) (ucCltIPv6 t) = Some t" using 2(4) eqs(2) by simp
      have la: "length (ucCltIPv6 t) = 16" by (rule assms(4) [OF u])
      obtain pkt' out r1 where s: "st' = sent out (st\<lparr>kst := k\<rparr>)"
        "(if skb_nonlinear skb then IPv4FragandIPinIPExtend (linear_ok e) (mem_send e) ?g (skb\<lparr>skb_data := pkt'\<rparr>) (ucCltIPv6 t)
          else if length pkt' + 40 > unat (usMtu ?g)
          then IPv4FragandIPinIP (mem_send e) ?g (skb\<lparr>skb_data := pkt'\<rparr>) (ucCltIPv6 t)
          else CreateIPinIP_skbuf (mem_send e 0) ?g (skb\<lparr>skb_data := pkt'\<rparr>) (ucCltIPv6 t)) = Some (out, r1)"
        using assms(2) l f False 2(2,3) by (auto simp: HandleIPv4_skbuf_def Let_def option_simps)
      have "frame_to ?g (ucCltIPv6 t) b" if "b \<in> set out" for b
        using s(2) that frag6_frames [OF _ assms(3) la] CreateIPinIP_frames [OF _ assms(3) la]
        by (auto simp: IPv4FragandIPinIPExtend_def split: if_splits)
      then show ?thesis using s(1) same u by (auto simp: sent_def)
    qed
  qed
qed

lemma HandleIPv6_frames:
  assumes "tun_inv (kst st)" "HandleIPv6_skbuf e st skb = Some (st', r)"
  shows "same_table (kst st) (kst st')
    \<and> (xmits st' = xmits st \<and> frg st' = frg st
      \<or> (\<exists>a t. getn (skb_data skb) 8 16 = Some a \<and> users (kst st) a = Some t
          \<and> (\<exists>out. xmits st' = xmits st @ out)))"
proof -
  obtain nh where n: "get8 (skb_data skb) 6 = Some nh"
    using assms(2) by (auto simp: HandleIPv6_skbuf_def option_simps)
  have ipip: ?thesis if h: "handle_ipinip e st skb = Some (st', r)"
  proof -
    obtain a where a: "getn (skb_data skb) 8 16 = Some a"
      using h by (auto simp: handle_ipinip_def FetchIPv6_skbuf_def Let_def option_simps)
    show ?thesis
    proof (cases rule: lookup_v6_cases [OF assms(1), of a])
      case 1
      then show ?thesis
        using h a by (auto simp: handle_ipinip_def FetchIPv6_skbuf_def Let_def option_simps split: if_splits)
    next
      case (2 p t)
      then show ?thesis
        using h a
        by (auto simp: handle_ipinip_def FetchIPv6_skbuf_def SendSkbuf_def Let_def option_simps sent_def
            split: if_splits)
    qed
  qed
  have frag: ?thesis if h: "handle_fragment e st skb = Some (st', r)"
  proof -
    obtain i where i: "IsFragIPinIP (skb_data skb) = Some i"
      using h by (auto simp: handle_fragment_def Let_def option_simps)
    show ?thesis
    proof (cases "i = 0")
      case True
      then show ?thesis using h i by (auto simp: handle_fragment_def Let_def)
    next
      case False
      then obtain a where a: "getn (skb_data skb) 8 16 = Some a"
        using h i by (auto simp: handle_fragment_def FetchIPv6_skbuf_def Let_def option_simps)
      show ?thesis
      proof (cases rule: lookup_v6_cases [OF assms(1), of a])
        case 1
        then show ?thesis
          using h a i False by (auto simp: handle_fragment_def FetchIPv6_skbuf_def Let_def option_simps)
      next
        case (2 p t)
        then show ?thesis
          using h a i False
          by (auto simp: handle_fragment_def FetchIPv6_skbuf_def Let_def option_simps sent_def split: if_splits)
      qed
    qed
  qed
  show ?thesis
    using assms(2) n ipip frag by (auto simp: HandleIPv6_skbuf_def split: if_splits)
qed

text \<open>C40: whatever packet the hook is given, the tunnel table and the configuration stay as they are, and frames are only sent for subscribers: for an IPv6 packet only when its source is a subscriber's address, and for
  an IPv4 packet only IPv6 frames from the module's own address to the address of one subscriber.\<close>

theorem frames_only_for_subscribers:
  assumes "tun_inv (kst st)" "g = GlobalCtx (kst st)" "length (ucTcIPv6 g) = 16"
    "\<forall>a t. users (kst st) a = Some t \<longrightarrow> length a = 16" "stream_hook e st skb = Some (st', v)"
  shows "same_table (kst st) (kst st') \<and> (\<exists>out. xmits st' = xmits st @ out \<and> (out \<noteq> [] \<longrightarrow>
    (\<exists>a t. users (kst st) a = Some t
      \<and> (h_proto skb = ETH_P_IPV6 \<and> getn (skb_data skb) 8 16 = Some a
         \<or> h_proto skb = ETH_P_IP \<and> (\<forall>b \<in> set out. frame_to g a b)))))"
proof (cases "\<exists>r. Handle_skbuf e st skb = Some (st', r)
    \<and> (h_proto skb = ETH_P_IPV6 \<and> HandleIPv6_skbuf e st skb = Some (st', r)
       \<or> h_proto skb = ETH_P_IP \<and> HandleIPv4_skbuf e st skb = Some (st', r))")
  case True
  then show ?thesis
    using HandleIPv6_frames [OF assms(1), of e skb st'] HandleIPv4_frames [OF assms(1), of e skb st'] assms(2-4)
    by (elim exE conjE disjE) fastforce+
next
  case False
  then have "st' = st"
    using assms(5) by (auto simp: stream_hook_def Handle_skbuf_def option_simps split: if_splits)
  then show ?thesis by simp
qed

text \<open>A packet that is none of the module's business passes: with the service off, an IPv4 packet to an address outside the pool, an IPv6
  packet from the module itself, and an IPv6 packet that is neither a tunnel packet nor a fragment are accepted, and nothing changes.\<close>

theorem others_pass:
  assumes "g = GlobalCtx (kst st)" "40 \<le> length (skb_data skb)"
    "uiTunState g = 0
      \<or> h_proto skb = ETH_P_IP \<and> \<not> (\<exists>d. get32 (skb_data skb) 16 = Some d \<and> uiExtBeginIP g \<le> d \<and> d \<le> uiExtEndIP g)
      \<or> h_proto skb = ETH_P_IPV6 \<and> getn (skb_data skb) 8 16 = Some (ucTcIPv6 g)
      \<or> h_proto skb = ETH_P_IPV6 \<and> get8 (skb_data skb) 6 \<notin> {Some IPINIP, Some NEXTHDR_FRAGMENT}"
  shows "stream_hook e st skb = Some (st, NF_ACCEPT)"
proof -
  obtain d s a n where f: "get32 (skb_data skb) 16 = Some d" "get32 (skb_data skb) 12 = Some s"
    "getn (skb_data skb) 8 16 = Some a" "get8 (skb_data skb) 6 = Some n"
    using assms(2) by (simp add: get32_def getn_def get8_def)
  have ne: "ETH_P_IP \<noteq> ETH_P_IPV6" by (simp add: ETH_P_IP_def ETH_P_IPV6_def)
  show ?thesis
    using assms(1,3) f ne
    by (auto simp: stream_hook_def Handle_skbuf_def IPFilter_def HandleIPv6_skbuf_def)
qed

lemma stranger_ok:
  assumes "tun_inv (kst st)" "g = GlobalCtx (kst st)" "uiTunState g \<noteq> 0" "pkt = skb_data skb" "mem_msg e"
    "h_proto skb = ETH_P_IPV6" "get8 pkt 6 = Some IPINIP" "getn pkt 8 16 = Some a" "a \<noteq> ucTcIPv6 g"
    "users (kst st) a = None" "get32 pkt 52 = Some saddr"
  shows "stream_hook e st skb = Some
    (if uiOtherExtBeginIP g \<le> saddr \<and> saddr \<le> uiOtherExtEndIP g
     then st\<lparr>kst := (kst st)\<lparr>nl_sent := nl_sent (kst st) @ [(NL_ASYNC, PktMsg NETLINK_CRASH_MSG (take 68 pkt))]\<rparr>\<rparr>
     else st, NF_DROP)"
proof -
  have l: "LookupTunnel_v6 (kst st) (KEY_V6 a) = Some None"
    using lookup_v6_cases [OF assms(1), of a] assms(10) by (metis option.distinct(1))
  have t: "take (if length pkt > 68 then 68 else length pkt) pkt = take 68 pkt" by simp
  show ?thesis
    using assms(2-9,11) l t
    by (auto simp: stream_hook_def Handle_skbuf_def IPFilter_def HandleIPv6_skbuf_def handle_ipinip_def
        FetchIPv6_skbuf_def IsCrashIPinPool_def ConstructCrashPktMsg_def send_defs Let_def)
qed

text \<open>A tunnel packet from a stranger is dropped, and nothing is sent on. The stranger is reported to the daemon, with the first 68 bytes of his packet, exactly when the inner source
  address is one of the other pool.\<close>

theorem strangers_dropped:
  assumes "tun_inv (kst st)" "g = GlobalCtx (kst st)" "uiTunState g \<noteq> 0" "pkt = skb_data skb" "mem_msg e"
    "h_proto skb = ETH_P_IPV6" "get8 pkt 6 = Some IPINIP" "getn pkt 8 16 = Some a" "a \<noteq> ucTcIPv6 g"
    "users (kst st) a = None" "get32 pkt 52 = Some saddr"
  shows "stream_hook e st skb = Some
    (if uiOtherExtBeginIP g \<le> saddr \<and> saddr \<le> uiOtherExtEndIP g
     then st\<lparr>kst := (kst st)\<lparr>nl_sent := nl_sent (kst st) @ [(NL_ASYNC, PktMsg NETLINK_CRASH_MSG (take 68 pkt))]\<rparr>\<rparr>
     else st, NF_DROP)"
  by (rule stranger_ok [OF assms])

theorem frames_only_for_subscribers_witness:
  "\<exists>st' out. stream_hook env7 net7 (up_skb 6) = Some (st', NF_DROP) \<and> same_table (kst net7) (kst st')
    \<and> xmits st' = out \<and> out \<noteq> []"
proof -
  obtain pkt' where h: "stream_hook env7 net7 (up_skb 6) =
      Some (sent [fresh_skb (h_dest (up_skb 6)) ETH_P_IP pkt'] net7, NF_DROP)"
    using net7_up by blast
  have u: "\<forall>a t. users (kst net7) a = Some t \<longrightarrow> length a = 16"
    by (auto simp: net7_def users_def tunnel7_def KEY_V6_def split: if_splits)
  have l: "length (ucTcIPv6 global7) = 16" by (simp add: global7_def)
  show ?thesis
    using frames_only_for_subscribers [OF net7_facts(1,2) l u h] h by (auto simp: sent_def net7_facts(9))
qed

theorem others_pass_witness:
  "stream_hook env7 net7 (up_skb 1) = Some (net7, NF_ACCEPT)"
  by (rule others_pass [OF net7_facts(2)]) (simp_all add: up_skb_fields net7_facts(6))

theorem strangers_dropped_witness:
  "\<exists>st'. stream_hook env7 net7 (up_skb 8) = Some (st', NF_DROP)
    \<and> nl_sent (kst st') = [(NL_ASYNC, PktMsg NETLINK_CRASH_MSG (take 68 (skb_data (up_skb 8))))]"
proof -
  have ne: "replicate 16 8 \<noteq> ucTcIPv6 global7" by (simp add: global7_def)
  have p: "uiOtherExtBeginIP global7 = 0" "uiOtherExtEndIP global7 = 0" "nl_sent (kst net7) = []"
    by (simp_all add: global7_def net7_def)
  show ?thesis
    using strangers_dropped [OF net7_facts(1-3) refl net7_facts(8) up_skb_fields(1-3) ne net7_facts(5)
        up_skb_fields(7)] p by simp
qed

definition down_skb :: skbuff where
  "down_skb = fresh_skb (replicate 6 2) ETH_P_IP
     (replicate 9 0 @ [17] @ replicate 6 0 @ [1, 2, 3, 4] @ [0, 0] @ [0x05, 0xDC] @ replicate 4 0)"

theorem downstream_encapsulated_witness:
  "\<exists>pkt'. length pkt' = 28 \<and> stream_hook env7 net7 down_skb = Some (sent [fresh_skb (h_dest down_skb) ETH_P_IPV6
      (ipv6_header 28 IPINIP (replicate 16 1) (replicate 16 6) @ pkt')] net7, NF_DROP)"
proof -
  let ?p = "skb_data down_skb"
  have f: "h_proto down_skb = ETH_P_IP" "\<not> skb_nonlinear down_skb" "length ?p = 28"
    "get8 ?p 9 = Some 6 \<and> 34 \<le> length ?p \<or> get8 ?p 9 = Some 17"
    "get32 ?p 16 = Some 0x01020304" "get16 ?p 22 = Some 1500"
    by (simp_all add: down_skb_def fresh_skb_def get8_def get16_def get32_def nth_append word_cat_eq)
  have m: "length ?p + 40 \<le> unat (usMtu global7)" "uiExtBeginIP global7 \<le> 0x01020304" "0x01020304 \<le> uiExtEndIP global7"
    using f(3) by (simp_all add: global7_def)
  have s: "getstartport global7 1500 = Some 1024" by (simp add: getstartport_def c_div_def START_PORT_def global7_def)
  have t: "ports (kst net7) (0x01020304, 1024) = Some tunnel7"
    using ports_users [OF net7_facts(1)] net7_facts(4) by (simp add: tunnel7_def)
  have c: "ucCltIPv6 tunnel7 = replicate 16 6" by (simp add: tunnel7_def)
  show ?thesis
    using downstream_encapsulated [OF net7_facts(1-3) f(1,2) refl f(4) m(1) f(5,6) m(2,3) s t net7_facts(7)]
    unfolding f(3) c net7_facts(6) by auto
qed

section \<open>Messages and fragments\<close>

text \<open>A flaw. A packet for a subscriber that may not be fragmented and does not fit the tunnel is dropped, and the daemon is to answer it with an
  ICMP error; but what the daemon gets are the packet's own first bytes, not the message with the packet's prefix that was built for it.\<close>

theorem df_reports_raw_packet:
  assumes "g = GlobalCtx (kst st)" "uiTunState g \<noteq> 0" "h_proto skb = ETH_P_IP" "pkt = skb_data skb"
    "get32 pkt 16 = Some ip" "uiExtBeginIP g \<le> ip" "ip \<le> uiExtEndIP g"
    "get16 pkt 6 = Some fo" "fo AND IP_DF \<noteq> 0" "unat (usMtu g) < length pkt + 40" "39 \<le> length pkt" "mem_msg e"
  shows "stream_hook e st skb =
      Some (st\<lparr>kst := (kst st)\<lparr>nl_sent := nl_sent (kst st) @ [(NL_ASYNC, RawMsg (take 39 pkt))]\<rparr>\<rparr>, NF_DROP)
    \<and> RawMsg (take 39 pkt) \<noteq> ConstructIcmpErrMsg pkt"
proof -
  have ne: "ETH_P_IP \<noteq> ETH_P_IPV6" by (simp add: ETH_P_IP_def ETH_P_IPV6_def)
  have "IPv4LenCheck e (kst st) pkt = Some (send_async_nlmsg (RawMsg (take 39 pkt)) (kst st), -1)"
    using assms(1,8-12) by (simp add: IPv4LenCheck_def getn_def)
  then have "Handle_skbuf e st skb = Some (st\<lparr>kst := send_async_nlmsg (RawMsg (take 39 pkt)) (kst st)\<rparr>, -1)"
    using assms(1,3-7) ne by (simp add: Handle_skbuf_def IPFilter_def HandleIPv4_skbuf_def)
  then show ?thesis
    using assms(1,2) by (simp add: stream_hook_def send_defs ConstructIcmpErrMsg_def Let_def)
qed

definition df_skb :: skbuff where
  "df_skb = fresh_skb (replicate 6 2) ETH_P_IP (replicate 6 0 @ [0x40, 0] @ replicate 8 0 @ [1, 2, 3, 4] @ replicate 1480 0)"

theorem df_reports_raw_packet_witness:
  "\<exists>st'. stream_hook env7 net7 df_skb = Some (st', NF_DROP)
    \<and> nl_sent (kst st') = [(NL_ASYNC, RawMsg (take 39 (skb_data df_skb)))]"
proof -
  let ?p = "skb_data df_skb"
  have f: "h_proto df_skb = ETH_P_IP" "get32 ?p 16 = Some 0x01020304" "get16 ?p 6 = Some 0x4000" "length ?p = 1500"
    by (simp_all add: df_skb_def fresh_skb_def get16_def get32_def nth_append word_cat_eq)
  have m: "uiExtBeginIP global7 \<le> 0x01020304" "0x01020304 \<le> uiExtEndIP global7"
    "unat (usMtu global7) < length ?p + 40" "39 \<le> length ?p" "0x4000 AND IP_DF \<noteq> 0"
    using f(4) by (simp_all add: global7_def IP_DF_def)
  have n: "nl_sent (kst net7) = []" by (simp add: net7_def)
  show ?thesis
    using df_reports_raw_packet [OF net7_facts(2,3) f(1) refl f(2) m(1,2) f(3) m(5,3,4) net7_facts(8)] n by simp
qed

text \<open>A fragment that does not carry a tunnelled packet is dropped without a trace, whoever sent it, while an unfragmented packet of
  the same protocol passes.\<close>

theorem foreign_fragment_dropped:
  assumes "g = GlobalCtx (kst st)" "uiTunState g \<noteq> 0" "h_proto skb = ETH_P_IPV6" "pkt = skb_data skb"
    "getn pkt 8 16 = Some a" "a \<noteq> ucTcIPv6 g" "get8 pkt 6 = Some NEXTHDR_FRAGMENT" "get8 pkt 40 = Some p" "p \<noteq> IPINIP"
  shows "stream_hook e st skb = Some (st, NF_DROP)"
proof -
  have ne: "NEXTHDR_FRAGMENT \<noteq> IPINIP" by (simp add: NEXTHDR_FRAGMENT_def IPINIP_def)
  have "IsFragIPinIP pkt = Some 0" using assms(8,9) by (simp add: IsFragIPinIP_def IPINIP_def)
  then show ?thesis
    using assms(1-7) ne
    by (simp add: stream_hook_def Handle_skbuf_def IPFilter_def HandleIPv6_skbuf_def handle_fragment_def)
qed

definition udp_fragment :: skbuff where
  "udp_fragment = fresh_skb (replicate 6 2) ETH_P_IPV6
     (ipv6_header 16 NEXTHDR_FRAGMENT (replicate 16 8) (replicate 16 9) @ [17, 0] @ replicate 14 0)"

theorem foreign_fragment_dropped_witness:
  "stream_hook env7 net7 udp_fragment = Some (net7, NF_DROP)"
proof -
  let ?p = "skb_data udp_fragment"
  have f: "h_proto udp_fragment = ETH_P_IPV6" "getn ?p 8 16 = Some (replicate 16 8)" "get8 ?p 6 = Some NEXTHDR_FRAGMENT"
    "get8 ?p 40 = Some 17"
    using ipv6_header_fields(1-4) [of "replicate 16 8" "replicate 16 9" 16 NEXTHDR_FRAGMENT "[17, 0] @ replicate 14 0"]
      ipv6_header_fields(5) [of "replicate 16 8" "replicate 16 9" 16 NEXTHDR_FRAGMENT]
      get8_append [of "ipv6_header 16 NEXTHDR_FRAGMENT (replicate 16 8) (replicate 16 9)" 40 "[17, 0] @ replicate 14 0"]
    by (simp_all add: udp_fragment_def fresh_skb_def get8_def)
  have m: "replicate 16 8 \<noteq> ucTcIPv6 global7" "(17 :: u8) \<noteq> IPINIP" by (simp_all add: global7_def IPINIP_def)
  show ?thesis
    by (rule foreign_fragment_dropped [OF net7_facts(2,3) f(1) refl f(2) m(1) f(3,4) m(2)])
qed

section \<open>Start and stop\<close>

lemma modules_init_ok:
  assumes "modules_init m buf = Some st"
  shows "tun_inv (kst st)" "users (kst st) = Map.empty" "hash_inv (pshashtable (frg st))"
    "frag4buf (frg st) = buf" "uiTunState (GlobalCtx (kst st)) = 0" "StorageTimer (GlobalCtx (kst st)) = None"
    "xmits st = []"
proof -
  have i: "initfragmodule (\<lambda>i. m (i + 1)) buf = Some (frg st)"
    using assms by (auto simp: modules_init_def option_simps)
  show "hash_inv (pshashtable (frg st))" by (rule init_inv [OF i])
  show "frag4buf (frg st) = buf" using i by (cases "frg st") (auto simp: initfragmodule_def)
  show "tun_inv (kst st)" "users (kst st) = Map.empty" "uiTunState (GlobalCtx (kst st)) = 0"
    "StorageTimer (GlobalCtx (kst st)) = None" "xmits st = []"
    using assms bp_inv_init [where 'a = addr]
    by (auto simp: modules_init_def option_simps InitStorage_def tun_inv_def entry_ok_def users_def bpinit_def
        split: if_splits)
qed

text \<open>Unloading the module removes every tunnel and every fragment, from whatever state; but a storage timer that is pending stays
  pending, and will run code that is no longer there.\<close>

theorem unload_leaves_timer:
  assumes "tun_inv (kst st)"
  shows "\<exists>st'. modules_uninit st = Some st' \<and> users (kst st') = Map.empty
    \<and> (\<forall>i < length (pshashtable (frg st')). pshashtable (frg st') ! i = [])
    \<and> StorageTimer (GlobalCtx (kst st')) = StorageTimer (GlobalCtx (kst st))"
proof -
  obtain k where "DestroyStorage (kst st) = Some k" "users k = Map.empty" "GlobalCtx k = GlobalCtx (kst st)"
    using DestroyStorage_empties [OF assms] by metis
  then show ?thesis by (simp add: modules_uninit_def ShashDestory_def)
qed

theorem unload_leaves_timer_witness:
  "\<exists>st'. modules_uninit net7 = Some st' \<and> users (kst st') = Map.empty \<and> StorageTimer (GlobalCtx (kst st')) = Some 900"
  using unload_leaves_timer [OF net7_facts(1)] by (auto simp: net7_def global7_def)

end
