(* ===== verification/Upstream.thy ===== *)
theory Upstream
  imports CpeUp Path
begin

text \<open>
  What the way up does: a new session gets a port of its own, the invariant of the address
  translation survives every packet, and the packet that leaves carries the box's address and the
  session's port with a checksum that verifies when the old one did.
\<close>

section \<open>New sessions\<close>

text \<open>The counter of TCP ports does not say there is room when there is none.\<close>

definition tcp_room :: "LAFT_NAT_INFO \<Rightarrow> bool" where
  "tcp_room L \<longleftrightarrow> unat (tcp_port_used L) < block L \<longrightarrow> (\<exists>k < block L. k \<notin> tcp.taken L)"

lemma udp_room:
  assumes "flows_ok L n F" "unat (udp_port_used L) < block L" obtains k where "k < block L" "k \<notin> udp.taken L"
proof -
  have "unat (udp_port_used L) = card (udp.taken L)" using assms(1) by (simp add: flows_ok_def)
  then have "card (udp.taken L) < card {..<block L}" using assms(2) by simp
  then have "\<not> {..<block L} \<subseteq> udp.taken L"
    using card_mono [OF finite_taken(2) [of L], of "{..<block L}"] by auto
  then show ?thesis using that by auto
qed

lemma flows_ok_insert:
  assumes F: "flows_ok L n F" "\<And>d p. F d \<noteq> Some (k, p)"
    and L': "same_lease L L'" "lease_ok L'"
    and p: "ported (up_proto k) \<Longrightarrow> LowPort L \<le> p \<and> p \<le> HighPort L \<and> offset L p \<notin> ports_taken L (up_proto k)"
    and t: "\<And>q. ports_taken L' q = (if ported (up_proto k) \<and> q = up_proto k then insert (offset L p) (ports_taken L q) else ports_taken L q)"
    and c: "unat (tcp_port_used L') \<le> card (tcp.taken L')" "unat (udp_port_used L') = card (udp.taken L')"
  shows "flows_ok L' (n + 1) (F(n \<mapsto> (k, p)))"
proof -
  note F1 = F(1) [unfolded flows_ok_def]
  have b1: "\<forall>d f. F d = Some f \<longrightarrow> d < n" using F1 by (elim conjE)
  have b2: "\<forall>d k p. F d = Some (k, p) \<longrightarrow> ported (up_proto k) \<longrightarrow> LowPort L \<le> p \<and> p \<le> HighPort L" using F1 by (elim conjE)
  have b3: "\<forall>q. ported q \<longrightarrow> ports_taken L q = {offset L p | d k p. F d = Some (k, p) \<and> up_proto k = q}" using F1 by (elim conjE)
  have s: "LowPort L' = LowPort L" "HighPort L' = HighPort L" "offset L' = offset L"
    using L'(1) by (auto simp: same_lease_def offset_def)
  have fresh: "F n = None" using b1 by (metis less_irrefl not_None_eq)
  have u: "(F(n \<mapsto> (k, p))) d = Some (k', p') \<longleftrightarrow> d = n \<and> k' = k \<and> p' = p \<or> F d = Some (k', p')" for d k' p'
    using fresh by auto
  have new: "p' \<noteq> p" if "F d = Some (k', p')" "up_proto k' = up_proto k" "ported (up_proto k)" for d k' p'
    using b3 that p by blast
  have pt: "ports_taken L' q = {offset L' p' | d k' p'. (F(n \<mapsto> (k, p))) d = Some (k', p') \<and> up_proto k' = q}" if "ported q" for q
  proof -
    have "{offset L p' | d k' p'. (F(n \<mapsto> (k, p))) d = Some (k', p') \<and> up_proto k' = q} =
      (if q = up_proto k then {offset L p} else {}) \<union> {offset L p' | d k' p'. F d = Some (k', p') \<and> up_proto k' = q}"
      unfolding u by auto
    also have "{offset L p' | d k' p'. F d = Some (k', p') \<and> up_proto k' = q} = ports_taken L q"
      using b3 that by simp
    finally have "{offset L' p' | d k' p'. (F(n \<mapsto> (k, p))) d = Some (k', p') \<and> up_proto k' = q} =
      (if q = up_proto k then {offset L p} else {}) \<union> ports_taken L q" unfolding s .
    then show ?thesis using t [of q] that by (cases "q = up_proto k") simp_all
  qed
  show ?thesis
    unfolding flows_ok_def
    apply (intro conjI)
    subgoal by (rule L'(2))
    subgoal using b1 by (auto simp: less_Suc_eq)
    subgoal unfolding u s using b2 p by blast
    subgoal using pt by blast
    subgoal unfolding u using flows_ok_unique(2) [OF F(1)] new by metis
    subgoal unfolding u using flows_ok_unique(1) [OF F(1)] F(2) by metis
    subgoal by (rule c(1))
    subgoal by (rule c(2))
    done
qed

text \<open>The counter of the protocol says that all ports are taken.\<close>

definition used_up :: "LAFT_NAT_INFO \<Rightarrow> u8 \<Rightarrow> bool" where
  "used_up L q \<longleftrightarrow> q = IPPROTO_TCP \<and> block L \<le> unat (tcp_port_used L) \<or> q = IPPROTO_UDP \<and> block L \<le> unat (udp_port_used L)"

text \<open>What the allocation for a packet yields: a refusal that changes nothing, or a fresh port.\<close>

definition packet_proto :: "u8 list \<Rightarrow> u8 option" where "packet_proto pkt = get8 pkt 9"

lemma proto_ported: "ported IPPROTO_TCP" "ported IPPROTO_UDP" "\<not> ported IPPROTO_ICMP"
  by (simp_all add: ported_def IPPROTO_TCP_def IPPROTO_UDP_def IPPROTO_ICMP_def)

lemma get_tcp_ok:
  assumes "flows_ok L n F" "tcp_room L"
  obtains (full) "get_tcp_port (LowPort L) (HighPort L) L = Some (L, -1)" "block L \<le> unat (tcp_port_used L)"
    | (port) L' p where "get_tcp_port (LowPort L) (HighPort L) L = Some (L', int (unat p))" "same_lease L L'" "lease_ok L'"
        "LowPort L \<le> p" "p \<le> HighPort L" "offset L p \<notin> tcp.taken L" "tcp.taken L' = insert (offset L p) (tcp.taken L)"
        "udp.taken L' = udp.taken L" "unat (tcp_port_used L') \<le> card (tcp.taken L')" "udp_port_used L' = udp_port_used L"
proof -
  have l: "LowPort L \<le> HighPort L" "map_for (tcpport L) (block L)" "map_for (udpport L) (block L)" "block L < 65536"
    and c: "unat (tcp_port_used L) \<le> card (tcp.taken L)" using assms(1) by (auto simp: flows_ok_def lease_ok_def)
  show ?thesis
  proof (rule tcp.get_fresh [OF l(1,2) block_def])
    show "\<exists>k < block L. k \<notin> tcp.taken L" if "unat (tcp_port_used L) < block L" using assms(2) that by (simp add: tcp_room_def)
  next
    fix L' p
    assume j: "get_tcp_port (LowPort L) (HighPort L) L = Some (L', int (unat p))" "LowPort L \<le> p" "p \<le> HighPort L"
      "unat p - unat (LowPort L) \<notin> tcp.taken L" "tcp.taken L' = insert (unat p - unat (LowPort L)) (tcp.taken L)"
      "tcp_port_used L' = tcp_port_used L + 1" "LowPort L' = LowPort L" "map_for (tcpport L') (block L)"
      "L' = L\<lparr>tcpport := tcpport L', tcp_port_used := tcp_port_used L'\<rparr>"
    have f: "HighPort L' = HighPort L" "PubIP L' = PubIP L" "IPv6LocalAddr L' = IPv6LocalAddr L"
      "IPv6RemoteAddr L' = IPv6RemoteAddr L" "udpport L' = udpport L" "udp_port_used L' = udp_port_used L"
      by (subst j(9), simp)+
    have "unat (tcp_port_used L') \<le> unat (tcp_port_used L) + 1" unfolding j(6) by (simp add: unat_word_ariths)
    moreover have "card (tcp.taken L') = Suc (card (tcp.taken L))" using j(4,5) finite_taken(1) by simp
    ultimately show ?thesis using j(2-5,7,8) l f c
      by (intro port [OF j(1)]) (simp_all add: same_lease_def lease_ok_def block_def offset_def udp.taken_def)
  qed (use full in blast)
qed

lemma get_udp_ok:
  assumes "flows_ok L n F"
  obtains (full) "get_udp_port (LowPort L) (HighPort L) L = Some (L, -1)" "block L \<le> unat (udp_port_used L)"
    | (port) L' p where "get_udp_port (LowPort L) (HighPort L) L = Some (L', int (unat p))" "same_lease L L'" "lease_ok L'"
        "LowPort L \<le> p" "p \<le> HighPort L" "offset L p \<notin> udp.taken L" "udp.taken L' = insert (offset L p) (udp.taken L)"
        "tcp.taken L' = tcp.taken L" "unat (udp_port_used L') = card (udp.taken L')" "tcp_port_used L' = tcp_port_used L"
proof -
  have l: "LowPort L \<le> HighPort L" "map_for (tcpport L) (block L)" "map_for (udpport L) (block L)" "block L < 65536"
    and c: "unat (udp_port_used L) = card (udp.taken L)" using assms(1) by (auto simp: flows_ok_def lease_ok_def)
  show ?thesis
  proof (rule udp.get_fresh [OF l(1,3) block_def])
    show "\<exists>k < block L. k \<notin> udp.taken L" if "unat (udp_port_used L) < block L" using udp_room [OF assms that] by blast
  next
    fix L' p
    assume j: "get_udp_port (LowPort L) (HighPort L) L = Some (L', int (unat p))" "LowPort L \<le> p" "p \<le> HighPort L"
      "unat p - unat (LowPort L) \<notin> udp.taken L" "udp.taken L' = insert (unat p - unat (LowPort L)) (udp.taken L)"
      "udp_port_used L' = udp_port_used L + 1" "LowPort L' = LowPort L" "map_for (udpport L') (block L)"
      "L' = L\<lparr>udpport := udpport L', udp_port_used := udp_port_used L'\<rparr>" "unat (udp_port_used L) < block L"
    have f: "HighPort L' = HighPort L" "PubIP L' = PubIP L" "IPv6LocalAddr L' = IPv6LocalAddr L"
      "IPv6RemoteAddr L' = IPv6RemoteAddr L" "tcpport L' = tcpport L" "tcp_port_used L' = tcp_port_used L"
      by (subst j(9), simp)+
    have "unat (udp_port_used L') = unat (udp_port_used L) + 1"
    proof -
      have "unat (udp_port_used L) + 1 < 65536" using j(10) assms(1) by (simp add: flows_ok_def lease_ok_def)
      then show ?thesis unfolding j(6) by (simp add: unat_word_ariths)
    qed
    moreover have "card (udp.taken L') = Suc (card (udp.taken L))" using j(4,5) finite_taken(2) by simp
    ultimately show ?thesis using j(2-5,7,8) l f c
      by (intro port [OF j(1)]) (simp_all add: same_lease_def lease_ok_def block_def offset_def tcp.taken_def)
  qed (use full in blast)
qed

section \<open>Finding or making the session\<close>

definition cpe_inv :: "cpe \<Rightarrow> bool" where
  "cpe_inv c \<longleftrightarrow> nat_inv (table c) (natm c)"

text \<open>There is memory for a session: its tuple and the two nodes of the table.\<close>

definition session_mem :: "cpe_env \<Rightarrow> bool" where
  "session_mem e \<longleftrightarrow> tuple_ok e \<and> node1_ok e \<and> node2_ok e"

definition env_ok :: "cpe_env \<Rightarrow> bool" where
  "env_ok e \<longleftrightarrow> session_mem e \<and> (\<forall>k. buf_ok e k) \<and> lin_ok e"

lemma up_dataE:
  assumes "get_hash_data_up pkt = Some (Some up)"
  obtains "get32 pkt 16 = Some (up_dstip up)" "get8 pkt 9 = Some (up_proto up)"
    "ported (up_proto up) \<or> up_proto up = IPPROTO_ICMP"
  using assms
  by (auto simp: get_hash_data_up_def ported_def IPPROTO_TCP_def IPPROTO_UDP_def bind_eq_Some_conv split: if_splits)

text \<open>What the allocation for a packet yields: a refusal that changes nothing, or a fresh port.\<close>

lemma get_down_ok:
  assumes F: "flows_ok L n F" and r: "up_proto up = IPPROTO_TCP \<Longrightarrow> tcp_room L" and u: "get_hash_data_up pkt = Some (Some up)"
  obtains (full) "get_hash_data_down pkt L ic = Some (L, ic, None)" "used_up L (up_proto up)"
    | (port) L' ic' p where "get_hash_data_down pkt L ic = Some (L', ic', Some (down_of (up, p)))"
        "same_lease L L'" "lease_ok L'"
        "ported (up_proto up) \<Longrightarrow> LowPort L \<le> p \<and> p \<le> HighPort L \<and> offset L p \<notin> ports_taken L (up_proto up)"
        "\<And>q. ports_taken L' q = (if ported (up_proto up) \<and> q = up_proto up then insert (offset L p) (ports_taken L q) else ports_taken L q)"
        "unat (tcp_port_used L') \<le> card (tcp.taken L')" "unat (udp_port_used L') = card (udp.taken L')"
proof -
  have c: "unat (tcp_port_used L) \<le> card (tcp.taken L)" "unat (udp_port_used L) = card (udp.taken L)" "lease_ok L"
    using F by (simp_all add: flows_ok_def)
  have k: "get32 pkt 16 = Some (up_dstip up)" "get8 pkt 9 = Some (up_proto up)"
    "ported (up_proto up) \<or> up_proto up = IPPROTO_ICMP" by (rule up_dataE [OF u], blast)+
  consider (t) "up_proto up = IPPROTO_TCP" | (u) "up_proto up = IPPROTO_UDP" | (i) "up_proto up = IPPROTO_ICMP"
    using k(3) by (auto simp: ported_def IPPROTO_TCP_def IPPROTO_UDP_def)
  then show ?thesis
  proof cases
    case t
    show ?thesis
    proof (rule get_tcp_ok [OF F r [OF t]])
      assume "get_tcp_port (LowPort L) (HighPort L) L = Some (L, -1)" "block L \<le> unat (tcp_port_used L)"
      then show ?thesis using t k(1,2) by (intro full) (simp_all add: get_hash_data_down_def used_up_def)
    next
      fix L' p
      assume g: "get_tcp_port (LowPort L) (HighPort L) L = Some (L', int (unat p))" "same_lease L L'" "lease_ok L'"
        "LowPort L \<le> p" "p \<le> HighPort L" "offset L p \<notin> tcp.taken L" "tcp.taken L' = insert (offset L p) (tcp.taken L)"
        "udp.taken L' = udp.taken L" "unat (tcp_port_used L') \<le> card (tcp.taken L')" "udp_port_used L' = udp_port_used L"
      have "get_hash_data_down pkt L ic = Some (L', ic, Some (down_of (up, p)))"
        using g(1) k(1,2) t by (simp add: get_hash_data_down_def down_of_def)
      then show ?thesis using g(2-) c t
        by (intro port [of L' ic p]) (auto simp: ports_taken_def ported_def IPPROTO_TCP_def)
    qed
  next
    case u
    have n: "IPPROTO_UDP \<noteq> IPPROTO_TCP" by (simp add: IPPROTO_TCP_def IPPROTO_UDP_def)
    show ?thesis
    proof (rule get_udp_ok [OF F])
      assume "get_udp_port (LowPort L) (HighPort L) L = Some (L, -1)" "block L \<le> unat (udp_port_used L)"
      then show ?thesis using u n k(1,2) by (intro full) (simp_all add: get_hash_data_down_def used_up_def)
    next
      fix L' p
      assume g: "get_udp_port (LowPort L) (HighPort L) L = Some (L', int (unat p))" "same_lease L L'" "lease_ok L'"
        "LowPort L \<le> p" "p \<le> HighPort L" "offset L p \<notin> udp.taken L" "udp.taken L' = insert (offset L p) (udp.taken L)"
        "tcp.taken L' = tcp.taken L" "unat (udp_port_used L') = card (udp.taken L')" "tcp_port_used L' = tcp_port_used L"
      have "get_hash_data_down pkt L ic = Some (L', ic, Some (down_of (up, p)))"
        using g(1) k(1,2) u n by (simp add: get_hash_data_down_def down_of_def)
      then show ?thesis using g(2-) c u
        by (intro port [of L' ic p]) (auto simp: ports_taken_def ported_def IPPROTO_UDP_def)
    qed
  next
    case i
    obtain ic' p where g: "get_icmp_port (LowPort L) (HighPort L) ic = (ic', p)" by fastforce
    have n: "IPPROTO_ICMP \<noteq> IPPROTO_TCP" "IPPROTO_ICMP \<noteq> IPPROTO_UDP"
      by (simp_all add: IPPROTO_TCP_def IPPROTO_UDP_def IPPROTO_ICMP_def)
    have "get_hash_data_down pkt L ic = Some (L, ic', Some (down_of (up, p)))"
      using g k(1,2) i n by (simp add: get_hash_data_down_def down_of_def)
    then show ?thesis using c i proto_ported by (intro port [of L ic' p]) simp_all
  qed
qed

text \<open>Storing a new session with the port that was given out for it.\<close>

lemma insert_session:
  assumes I: "nat_inv T m" and n: "\<And>d p. flows m d \<noteq> Some (up, p)" and L: "same_lease (laft m) L'" "lease_ok L'"
    and p: "ported (up_proto up) \<Longrightarrow> LowPort (laft m) \<le> p \<and> p \<le> HighPort (laft m) \<and> offset (laft m) p \<notin> ports_taken (laft m) (up_proto up)"
      "\<And>q. ports_taken L' q = (if ported (up_proto up) \<and> q = up_proto up then insert (offset (laft m) p) (ports_taken (laft m) q)
          else ports_taken (laft m) q)"
    and u: "unat (tcp_port_used L') \<le> card (tcp.taken L')" "unat (udp_port_used L') = card (udp.taken L')"
  obtains T' m' where "DBKeyHashTableInsert nat_hash True True T (Up up) (Down (down_of (up, p))) (next_tuple m) = (T', 1)"
    "m' = m\<lparr>laft := L', tuples := (tuples m)(next_tuple m \<mapsto> get_tuple up (down_of (up, p))), next_tuple := next_tuple m + 1\<rparr>"
    "nat_inv T' m'" "flows m' = (flows m)(next_tuple m \<mapsto> (up, p))" "tuples m (next_tuple m) = None"
proof -
  let ?n = "next_tuple m" and ?L = "laft m"
  note J = nat_invD [OF I]
  have none: "tuples m ?n = None"
  proof -
    have "\<forall>d f. flows m d = Some f \<longrightarrow> d < ?n" using J(4) [unfolded flows_ok_def] by (elim conjE)
    then have "flows m ?n = None" by (meson less_irrefl not_Some_eq)
    then show ?thesis by (simp add: flows_def)
  qed
  define t where "t = get_tuple up (down_of (up, p))"
  define m' where "m' = m\<lparr>laft := L', tuples := (tuples m)(?n \<mapsto> t), next_tuple := ?n + 1\<rparr>"
  have ft: "flow t = (up, p)" by (simp add: t_def flow_def get_tuple_def down_of_def)
  have fl: "flows m' = (flows m)(?n \<mapsto> (up, p))" by (rule ext) (simp add: m'_def flows_def ft)
  have se: "sessions m' = insert ?n (sessions m)" "?n \<notin> sessions m" using none by (auto simp: sessions_def m'_def)
  have F': "flows_ok (laft m') (next_tuple m') (flows m')"
    using flows_ok_insert [OF J(4) _ L(1,2) p u] n fl by (simp add: m'_def)
  have h: "home_up m' ?n = nat_hash (Up up) mod length (Bucket T)"
    "home_down m' ?n = nat_hash (Down (down_of (up, p))) mod length (Bucket T)"
    by (simp_all add: home_up_def home_down_def fl J(1))
  have old: "table_ok (home_up m') (home_down m') (sessions m) T"
    by (rule table_ok_cong [OF J(2)]) (use se(2) in \<open>auto simp: home_up_def home_down_def fl\<close>)
  obtain T' where T': "DBKeyHashTableInsert nat_hash True True T (Up up) (Down (down_of (up, p))) ?n = (T', 1)"
    "table_ok (home_up m') (home_down m') (insert ?n (sessions m)) T'" "length (Bucket T') = length (Bucket T)"
    by (rule table_insert [where hf = nat_hash and ?k1.0 = "Up up" and ?k2.0 = "Down (down_of (up, p))", OF old se(2) h])
  have "states_ok m'"
    using J(5) by (auto simp: states_ok_def m'_def t_def get_tuple_def)
  then have "nat_inv T' m'"
    using T'(2,3) F' J(1) unfolding nat_inv_def se(1) sessions_ok_def by simp
  then show ?thesis using T'(1) fl none by (intro that [of T' m']) (simp_all add: m'_def t_def)
qed

text \<open>The state after a packet without a session was given one.\<close>

definition new_session :: "cpe \<Rightarrow> cpe \<Rightarrow> HASH_DATA_UP \<Rightarrow> u16 \<Rightarrow> bool" where
  "new_session c c' up p \<longleftrightarrow> (let m = natm c; m' = natm c'; d = next_tuple m in
     tuples m' = (tuples m)(d \<mapsto> get_tuple up (down_of (up, p))) \<and> tuples m d = None
     \<and> same_lease (laft m) (laft m') \<and> (\<forall>d p'. flows m d \<noteq> Some (up, p'))
     \<and> (ported (up_proto up) \<longrightarrow> LowPort (laft m) \<le> p \<and> p \<le> HighPort (laft m)
          \<and> offset (laft m) p \<notin> ports_taken (laft m) (up_proto up))
     \<and> outq c' = outq c \<and> reports c' = reports c)"

lemma search_ok:
  assumes I: "cpe_inv c"
    and r: "find_session (table c) (Up up) PKT_UP (natm c) = Some None \<Longrightarrow> up_proto up = IPPROTO_TCP \<Longrightarrow> tcp_room (laft (natm c))"
    and e: "find_session (table c) (Up up) PKT_UP (natm c) = Some None \<Longrightarrow> session_mem e"
    and u: "get_hash_data_up pkt = Some (Some up)"
  obtains (found) d p where "search_nat_hashtable e c pkt up = Some (c, Some d)" "flows (natm c) d = Some (up, p)"
    | (full) "search_nat_hashtable e c pkt up = Some (c, None)" "used_up (laft (natm c)) (up_proto up)"
        "\<forall>d p. flows (natm c) d \<noteq> Some (up, p)"
    | (fresh) c' p where "search_nat_hashtable e c pkt up = Some (c', Some (next_tuple (natm c)))" "cpe_inv c'"
        "flows (natm c') (next_tuple (natm c)) = Some (up, p)" "new_session c c' up p"
proof (cases "\<exists>d p. flows (natm c) d = Some (up, p)")
  case True
  have I1: "nat_inv (table c) (natm c)" using I by (simp add: cpe_inv_def)
  obtain d p where f: "flows (natm c) d = Some (up, p)" using True by blast
  have "(THE d. \<exists>p. flows (natm c) d = Some (up, p)) = d"
    by (rule the_equality) (use f flows_ok_unique(1) [OF nat_invD(4) [OF I1]] in blast)+
  then show ?thesis using found [of d p] f find_up [OF I1, of up] True
    by (simp add: search_nat_hashtable_def)
next
  case False
  let ?m = "natm c" and ?L = "laft (natm c)" and ?n = "next_tuple (natm c)"
  have I1: "nat_inv (table c) ?m" using I by (simp add: cpe_inv_def)
  note J = nat_invD [OF I1]
  have s: "find_session (table c) (Up up) PKT_UP ?m = Some None" using find_up [OF I1, of up] False by simp
  show ?thesis
  proof (rule get_down_ok [OF J(4) r [OF s] u, of "icmps c"])
    assume "get_hash_data_down pkt ?L (icmps c) = Some (?L, icmps c, None)" "used_up ?L (up_proto up)"
    then show ?thesis using False s by (intro full) (simp_all add: search_nat_hashtable_def)
  next
    fix L' ic' p
    assume g: "get_hash_data_down pkt ?L (icmps c) = Some (L', ic', Some (down_of (up, p)))" "same_lease ?L L'" "lease_ok L'"
        "ported (up_proto up) \<Longrightarrow> LowPort ?L \<le> p \<and> p \<le> HighPort ?L \<and> offset ?L p \<notin> ports_taken ?L (up_proto up)"
        "\<And>q. ports_taken L' q = (if ported (up_proto up) \<and> q = up_proto up then insert (offset ?L p) (ports_taken ?L q) else ports_taken ?L q)"
        "unat (tcp_port_used L') \<le> card (tcp.taken L')" "unat (udp_port_used L') = card (udp.taken L')"
    obtain T' m' where n: "DBKeyHashTableInsert nat_hash True True (table c) (Up up) (Down (down_of (up, p))) ?n = (T', 1)"
      "m' = ?m\<lparr>laft := L', tuples := (tuples ?m)(?n \<mapsto> get_tuple up (down_of (up, p))), next_tuple := ?n + 1\<rparr>"
      "nat_inv T' m'" "flows m' = (flows ?m)(?n \<mapsto> (up, p))" "tuples ?m ?n = None"
      by (rule insert_session [OF I1 _ g(2-7)]) (use False in blast)+
    then show ?thesis
      using e [OF s] s g(1,2,4) False
      by (intro fresh [of "c\<lparr>natm := m', icmps := ic', table := T'\<rparr>" p])
        (simp_all add: search_nat_hashtable_def session_mem_def cpe_inv_def new_session_def Let_def)
  qed
qed

end
