(* ===== verification/UpHook.thy ===== *)
theory UpHook
  imports Upstream UpTranslate
begin

text \<open>
  The way up as a whole: a packet from the customer's network gets its session, is translated, and leaves
  in the tunnel; the state of the address translation stays consistent whatever the packet.
\<close>

section \<open>Translation and tracking\<close>

definition has_flags :: "u8 list \<Rightarrow> bool" where
  "has_flags p \<longleftrightarrow> (p ! 9 = IPPROTO_TCP \<longrightarrow> get_conntrack_index (p ! 33) \<noteq> 4)"

definition resets :: "u8 list \<Rightarrow> bool" where
  "resets p \<longleftrightarrow> p ! 9 = IPPROTO_TCP \<and> flag (p ! 33) TH_RST"

text \<open>Tracking the packet \<open>p\<close> of session \<open>d\<close>: a TCP segment has flags, and the session, unless reset,
  has its life time set anew.\<close>

definition track_ok :: "u8 list \<Rightarrow> natmem \<Rightarrow> natmem \<Rightarrow> nat \<Rightarrow> bool" where
  "track_ok p m m' d \<longleftrightarrow> shrunk m m' \<and> (\<forall>e. e \<noteq> d \<longrightarrow> flows m' e = flows m e)
     \<and> has_flags p \<and> (\<not> resets p \<longrightarrow> 0 < time_left m' d)"

lemma timeouts_positive: "q \<noteq> sIV \<Longrightarrow> 0 < tcp_timeouts ! ct_number q"
  by (cases q) (simp_all add: tcp_timeouts_def)

lemma flagless_invalid:
  "q \<noteq> sIV \<Longrightarrow> get_conntrack_index fl = 4 \<Longrightarrow> tcp_conntracks ! IP_CT_DIR_ORIGINAL ! get_conntrack_index fl ! ct_number q = sIV"
  by (cases q) (simp_all add: tcp_conntracks_def IP_CT_DIR_ORIGINAL_def)

lemma tracked_up:
  assumes I: "nat_inv T m" and s: "tuples m d = Some s" and f: "get8 p 33 = Some fl"
    and t: "tcp_pkt_track p d IP_CT_DIR_ORIGINAL (T, m) = Some ((T', m'), 1)"
  shows "get_conntrack_index fl \<noteq> 4" "\<not> flag fl TH_RST \<Longrightarrow> 0 < time_left m' d"
proof -
  have st: "tcp_state s \<noteq> sIV" using nat_invD(5) [OF I] s by (simp add: states_ok_def)
  let ?n = "tcp_conntracks ! IP_CT_DIR_ORIGINAL ! get_conntrack_index fl ! ct_number (tcp_state s)"
  have n: "?n \<noteq> sIV" using t s f by (auto simp: tcp_pkt_track_def)
  then show "get_conntrack_index fl \<noteq> 4" using flagless_invalid [OF st] by blast
  assume r: "\<not> flag fl TH_RST"
  have "time_left m' d = tcp_timeouts ! ct_number ?n"
    using t s f n r
    by (auto simp: tcp_pkt_track_def Let_def upd_tuple_def time_left_def refreshtimer_def IP_CT_DIR_ORIGINAL_def IP_CT_DIR_REPLY_def)
  then show "0 < time_left m' d" using timeouts_positive [OF n] by simp
qed

lemma transport_ok:
  assumes I: "nat_inv T m" and s: "tuples m d = Some s" "prot s = p ! 9" and p: "packet_ok p"
    and u: "update_header (laft m) new p off (swap16 (newport s)) = Some new'"
  obtains (sent) T' m' where "update_transport_header new p d off (T, m) = Some (new', (T', m'), 0)"
      "nat_inv T' m'" "track_ok p m m' d" "\<not> resets p \<Longrightarrow> flows m' = flows m"
    | (invalid) "update_transport_header new p d off (T, m) = Some (new', (T, m), -1)" "\<not> has_flags p"
proof -
  have g9: "get8 p 9 = Some (p ! 9)" using p by (simp add: packet_ok_def ip20_def get8_def)
  note t = update_transport_header_def case_prod_conv s(1) bind.bind_lunit g9 Let_def
  consider (t) "p ! 9 = IPPROTO_TCP" | (u) "p ! 9 = IPPROTO_UDP" | (i) "p ! 9 = IPPROTO_ICMP"
    using p by (auto simp: packet_ok_def handled_def)
  then show ?thesis
  proof cases
    case t
    have l: "38 \<le> length p" using p t by (simp add: packet_ok_def check_at_def)
    have g33: "get8 p 33 = Some (p ! 33)" using l by (simp add: get8_def)
    have pr: "prot s = 0x06" using s(2) t by (simp add: IPPROTO_TCP_def)
    have l34: "34 \<le> length p" using l by simp
    obtain T' m' r where k: "tcp_pkt_track p d IP_CT_DIR_ORIGINAL (T, m) = Some ((T', m'), r)" "nat_inv T' m'" "shrunk m m'"
      "\<And>e. e \<noteq> d \<Longrightarrow> tuples m' e = tuples m e" "r = -1 \<and> T' = T \<and> m' = m \<or> r = 1"
      "get_conntrack_index (p ! 33) \<noteq> 4 \<Longrightarrow> r = 1" "\<not> flag (p ! 33) TH_RST \<Longrightarrow> flows m' = flows m"
    proof (rule tcp_pkt_track_ok [OF I s(1) pr l34, where dir = IP_CT_DIR_ORIGINAL])
      fix T' m' r
      assume j: "tcp_pkt_track p d IP_CT_DIR_ORIGINAL (T, m) = Some ((T', m'), r)" "nat_inv T' m'" "shrunk m m'"
        "\<And>e. e \<noteq> d \<Longrightarrow> tuples m' e = tuples m e" "r = -1 \<and> T' = T \<and> m' = m \<or> r = 1"
        "\<And>fl. get8 p 33 = Some fl \<Longrightarrow> get_conntrack_index fl \<noteq> 4 \<Longrightarrow> IP_CT_DIR_ORIGINAL \<le> 1 \<Longrightarrow> r = 1"
        "\<And>fl. get8 p 33 = Some fl \<Longrightarrow> \<not> flag fl TH_RST \<Longrightarrow> flows m' = flows m"
        "con_status s AND IPS_SEEN_REPLY \<noteq> 0 \<Longrightarrow> flows m' = flows m"
      show ?thesis
        by (rule that [OF j(1-5)]) (use j(6,7) [OF g33] in \<open>simp_all add: IP_CT_DIR_ORIGINAL_def\<close>)
    qed
    have u': "update_tcp_header (laft m) new p off (swap16 (newport s)) = Some new'"
      using u t by (simp add: update_header_def)
    have e: "update_transport_header new p d off (T, m) = Some (new', (T', m'), if r < 0 then -1 else 0)"
      using t u' k(1) g9 s(1) by (simp add: update_transport_header_def)
    show ?thesis
    proof (cases "r = 1")
      case True
      then show ?thesis
        using e k(2,3,4,7) tracked_up [OF I s(1) g33 k(1) [unfolded True]]
        by (intro sent [of T' m']) (auto simp: track_ok_def flows_def resets_def has_flags_def t)
    next
      case False
      then have "\<not> has_flags p" using k(6) t by (auto simp: has_flags_def IP_CT_DIR_ORIGINAL_def)
      then show ?thesis using False e k(5) by (intro invalid) auto
    qed
  next
    case u2: u
    obtain m' where k: "udp_pkt_track d m = Some m'" "nat_inv T m'" "flows m' = flows m" "laft m' = laft m" "shrunk m m'"
      "\<And>e. e \<noteq> d \<Longrightarrow> tuples m' e = tuples m e"
      by (rule udp_pkt_track_ok [OF I s(1)]) blast
    have "update_udp_header (laft m) new p off (swap16 (newport s)) = Some new'"
      using u u2 protos by (simp add: update_header_def)
    then have "update_transport_header new p d off (T, m) = Some (new', (T, m'), 0)"
      using u2 k(1) g9 s(1) protos by (simp add: update_transport_header_def)
    moreover have "0 < time_left m' d" using k(1) s(1)
      by (auto simp: udp_pkt_track_def time_left_def refreshtimer_def upd_tuple_def UDP_TIMEOUT_def UDP_STREAM_TIMEOUT_def)
    ultimately show ?thesis using k u2 protos by (intro sent [of T m']) (simp_all add: track_ok_def has_flags_def)
  next
    case i
    obtain T' m' where k: "icmp_pkt_track d IP_CT_DIR_ORIGINAL (T, m) = Some (T', m')" "nat_inv T' m'" "shrunk m m'"
      "flows m' = flows m"
      by (rule icmp_pkt_track_ok [OF I s(1), where dir = IP_CT_DIR_ORIGINAL]) blast
    have "update_icmp_header new p off (swap16 (newport s)) = Some new'"
      using u i protos by (simp add: update_header_def)
    then have "update_transport_header new p d off (T, m) = Some (new', (T', m'), 0)"
      using i k(1) g9 s(1) protos by (simp add: update_transport_header_def)
    moreover have "0 < time_left m' d" using k(1) s(1)
      by (auto simp: icmp_pkt_track_def time_left_def refreshtimer_def upd_tuple_def ICMP_TIMEOUT_def IP_CT_DIR_ORIGINAL_def IP_CT_DIR_REPLY_def)
    ultimately show ?thesis using k i protos by (intro sent [of T' m']) (simp_all add: track_ok_def has_flags_def)
  qed
qed

text \<open>The packet behind its new IPv6 header.\<close>

definition tunnelled :: "LAFT_NAT_INFO \<Rightarrow> u8 list \<Rightarrow> u8 list" where
  "tunnelled L r = ipv6_header (word_of_nat (length r)) IPINIP (IPv6LocalAddr L) (IPv6RemoteAddr L) @ r"

definition lease_bytes :: "LAFT_NAT_INFO \<Rightarrow> bool" where
  "lease_bytes L \<longleftrightarrow> length (PubIP L) = 4 \<and> length (IPv6LocalAddr L) = 16 \<and> length (IPv6RemoteAddr L) = 16"

lemma normal_packet_ok:
  assumes I: "nat_inv T m" and s: "tuples m d = Some s" "prot s = p ! 9" and p: "packet_ok p"
    and L: "lease_bytes (laft m)" and e: "csum_ok (ip_send_check e)" "buf_ok e 0"
  obtains (sent) T' m' r where
      "normal_packet_handl e p d (T, m) = Some ((T', m'), [tunnel_skb (tunnelled (laft m) r)], 0)"
      "translated (laft m) (newport s) p r" "nat_inv T' m'" "track_ok p m m' d" "\<not> resets p \<Longrightarrow> flows m' = flows m"
    | (invalid) "normal_packet_handl e p d (T, m) = Some ((T, m), [], -1)" "\<not> has_flags p"
proof -
  let ?h = "construct_ipv6_header (laft m) (word_of_nat (length p)) IPINIP"
  have h: "length ?h = IP6_HLEN + 0"
    using L by (simp add: construct_ipv6_header_def ipv6_header_def lease_bytes_def IP6_HLEN_def)
  have L4: "length (PubIP (laft m)) = 4" using L by (simp add: lease_bytes_def)
  obtain new r where n: "update_network_header e (laft m) (?h @ p) (IP6_HLEN + 0) = Some new"
    "update_header (laft m) new p 0 (swap16 (newport s)) = Some (?h @ r)" "translated (laft m) (newport s) p r"
    by (rule update_header_ok [OF p L4 e(1) h])
  have t: "?h @ r = tunnelled (laft m) r"
    using n(3) by (simp add: tunnelled_def construct_ipv6_header_def translated_def Let_def)
  show ?thesis
  proof (rule transport_ok [OF I s p n(2)])
    fix T' m'
    assume "update_transport_header new p d 0 (T, m) = Some (?h @ r, (T', m'), 0)" "nat_inv T' m'" "track_ok p m m' d"
      "\<not> resets p \<Longrightarrow> flows m' = flows m"
    then show ?thesis using n(1,3) e(2) t by (intro sent [of T' m' r]) (simp_all add: normal_packet_handl_def)
  next
    assume "update_transport_header new p d 0 (T, m) = Some (?h @ r, (T, m), - 1)" "\<not> has_flags p"
    then show ?thesis using n(1) e(2) by (intro invalid) (simp_all add: normal_packet_handl_def)
  qed
qed


section \<open>Fragments\<close>

text \<open>The first fragment is translated by what the routines read of the whole packet: its first bytes.\<close>

lemma ld16_prefix: "i + 2 \<le> n \<Longrightarrow> ld16 (take n p) i = ld16 p i"
  by (auto simp: ld16_def)

lemma get8_prefix: "i < n \<Longrightarrow> get8 (take n p) i = get8 p i"
  by (auto simp: get8_def)

lemma update_header_prefix:
  assumes "26 \<le> n" "n \<le> length p" "p ! 0 = 0x45"
  shows "update_header L new p off port = update_header L new (take n p) off port"
proof -
  have g: "get8 (take n p) 0 = Some 0x45" "get8 p 0 = Some 0x45"
    using assms by (cases p; auto simp: get8_def)+
  have b: "(0x45 :: u8) AND 0x0f = 5" by simp
  have l: "ld16 (take n p) i = ld16 p i" if "i \<le> 24" for i using assms(1) that by (intro ld16_prefix) simp
  show ?thesis
    using assms(1) by (simp add: update_header_def update_tcp_header_def update_udp_header_def update_checked_header_def
        update_icmp_header_def g b l)
qed

text \<open>The piece \<open>f\<close> (offset and length) of a packet as a fragment.\<close>

definition up_frag :: "LAFT_NAT_INFO \<Rightarrow> u32 \<Rightarrow> u8 list \<Rightarrow> nat \<times> nat \<Rightarrow> u8 list" where
  "up_frag L ident r f =
     ipv6_header (word_of_nat (snd f + 8)) NEXTHDR_FRAGMENT (IPv6LocalAddr L) (IPv6RemoteAddr L) @ [IPINIP, 0]
     @ be16 (if snd f + fst f < length r then word_of_nat (fst f) OR 1 else word_of_nat (fst f))
     @ be32 ident @ take (snd f) (drop (fst f) r)"

lemma up_frag_lease: "same_lease L L' \<Longrightarrow> up_frag L' ident r f = up_frag L ident r f"
  by (simp add: up_frag_def same_lease_def)

lemma put_frag_header:
  assumes "length h = IP6_HLEN" "length b = 8" shows "put (h @ replicate 8 0 @ x) IP6_HLEN b = Some (h @ b @ x)"
  using assms by (simp add: put_append) (simp add: put_def)

lemma tunnel_header_length:
  "lease_bytes L \<Longrightarrow> length (construct_ipv6_header L n nh) = IP6_HLEN"
  by (simp add: construct_ipv6_header_def ipv6_header_def lease_bytes_def IP6_HLEN_def)

lemma up_frag_step:
  assumes "lease_bytes L" "o' + l \<le> length p" "length p < 2 ^ 16 - 8"
  shows "put (construct_ipv6_header L (word_of_nat l + 8) NEXTHDR_FRAGMENT @ replicate 8 0 @ take l (drop o' p)) IP6_HLEN
     (construct_frag_header (if word_of_nat (length p - o') - word_of_nat l > (0 :: u16) then word_of_nat o' OR 1 else word_of_nat o') ident)
   = Some (up_frag L ident p (o', l))"
proof -
  have "(word_of_nat (length p - o') - word_of_nat l :: u16) = word_of_nat (length p - o' - l)"
    using assms(2) by (simp add: of_nat_diff)
  also have "(\<dots> > 0) \<longleftrightarrow> l + o' < length p"
  proof -
    have "unat (word_of_nat (length p - o' - l) :: u16) = length p - o' - l"
      using assms(3) by (intro of_nat_inverse [OF refl]) simp
    then show ?thesis using assms(2) by (auto simp: word_less_nat_alt)
  qed
  finally have m: "((word_of_nat (length p - o') - word_of_nat l :: u16) > 0) = (l + o' < length p)" .
  show ?thesis
    unfolding m
    by (subst put_frag_header [OF tunnel_header_length [OF assms(1)]])
      (simp_all add: construct_frag_header_def up_frag_def construct_ipv6_header_def IPINIP_def)
qed

lemma frag_rest:
  assumes "\<forall>k. buf_ok e k" "ident \<noteq> 0" "lease_bytes (laft (snd st))" "length p < 2 ^ 16 - 8"
  shows "off \<le> length p \<Longrightarrow> 8 dvd off \<Longrightarrow>
    \<exists>fs. frag_up_loop e 1280 p d k ident (word_of_nat (length p - off)) (word_of_nat off) st
        = Some (st, map (\<lambda>f. tunnel_skb (up_frag (laft (snd st)) ident p f)) fs, 0)
      \<and> plan_from 1232 (length p) off fs"
proof (induction "length p - off" arbitrary: off k rule: less_induct)
  case less
  have u: "unat (word_of_nat n :: u16) = n" if "n \<le> length p" for n
    using that assms(4) by (intro of_nat_inverse [OF refl]) simp
  show ?case
  proof (cases "off < length p")
    case False
    then show ?thesis using less.prems by (intro exI [of _ "[]"]) (simp add: frag_up_loop.simps [of e 1280])
  next
    case True
    define l where "l = min 1232 (length p - off)"
    have l: "0 < l" "l \<le> 1232" "off + l \<le> length p" "off + l < length p \<longrightarrow> 8 dvd l"
      using True by (auto simp: l_def min_def)
    have pos: "(word_of_nat (length p - off) :: u16) > 0" using u [of "length p - off"] True by (simp add: word_less_nat_alt)
    have len: "(if unat (word_of_nat (length p - off) :: u16) > sub32 1280 48 then word_of_nat (sub32 1280 48) else word_of_nat (length p - off))
      = (word_of_nat l :: u16)"
      using u [of "length p - off"] by (auto simp: sub32_def l_def min_def)
    have pay: "getn p (unat (word_of_nat off :: u16)) (unat (word_of_nat l :: u16)) = Some (take l (drop off p))"
      using u [of off] u [of l] l less.prems by (simp add: getn_def)
    have "8 dvd off + l" if "off + l < length p" using l(4) less.prems(2) that by auto
    obtain fs where fs: "frag_up_loop e 1280 p d (Suc k) ident (word_of_nat (length p - (off + l))) (word_of_nat (off + l)) st
        = Some (st, map (\<lambda>f. tunnel_skb (up_frag (laft (snd st)) ident p f)) fs, 0)"
      "plan_from 1232 (length p) (off + l) fs"
    proof (cases "off + l < length p")
      case True
      have "\<exists>fs. frag_up_loop e 1280 p d (Suc k) ident (word_of_nat (length p - (off + l))) (word_of_nat (off + l)) st
        = Some (st, map (\<lambda>f. tunnel_skb (up_frag (laft (snd st)) ident p f)) fs, 0) \<and> plan_from 1232 (length p) (off + l) fs"
        by (rule less.hyps) (use True l less.prems(2) in auto)
      then show ?thesis using that by blast
    next
      case False
      then show ?thesis using l by (intro that [of "[]"]) (simp_all add: frag_up_loop.simps [of e 1280])
    qed
    have d: "(word_of_nat (length p - off) - word_of_nat l :: u16) = word_of_nat (length p - (off + l))"
      using l(3) by (simp add: of_nat_diff)
    have s: "(word_of_nat off + word_of_nat l :: u16) = word_of_nat (off + l)" by simp
    have fr: "put (construct_ipv6_header (laft (snd st)) (word_of_nat l + 8) NEXTHDR_FRAGMENT @ replicate 8 0 @ take l (drop off p)) IP6_HLEN
       (construct_frag_header (if word_of_nat (length p - (off + l)) > (0 :: u16) then word_of_nat off OR 1 else word_of_nat off) ident)
      = Some (up_frag (laft (snd st)) ident p (off, l))"
      using up_frag_step [OF assms(3) l(3) assms(4), of ident] unfolding d .
    have "frag_up_loop e 1280 p d k ident (word_of_nat (length p - off)) (word_of_nat off) st
      = Some (st, tunnel_skb (up_frag (laft (snd st)) ident p (off, l)) # map (\<lambda>f. tunnel_skb (up_frag (laft (snd st)) ident p f)) fs, 0)"
      apply (subst frag_up_loop.simps)
      apply (simp only: pos if_True len Let_def assms(1) [rule_format] not_True_eq_False if_False pay bind.bind_lunit
          assms(2) case_prod_conv d s fr fs(1))
      apply simp
      done
    then show ?thesis using fs(2) l by (intro exI [of _ "(off, l) # fs"]) simp
  qed
qed


lemma translated_append:
  assumes "translated L np (take n p) r" "even n" "20 \<le> n" "n \<le> length p"
  shows "translated L np p (r @ drop n p)"
proof -
  let ?q = "p ! 9" and ?m = "if p ! 9 = IPPROTO_ICMP then 20 else 12"
  have q: "take n p ! 9 = ?q" using assms(3) by simp
  have t: "length r = n" "take 4 (drop 12 r) = PubIP L" "get16 r (port_at ?q) = Some np"
    "\<And>i. i < n \<Longrightarrow> i \<notin> {10..15} \<union> {port_at ?q, port_at ?q + 1, check_at ?q, check_at ?q + 1} \<Longrightarrow> r ! i = p ! i"
    "word_sum (drop ?m r) mod 65535 = word_sum (drop ?m (take n p)) mod 65535"
    using assms(1,4) unfolding translated_def q Let_def by auto
  have a: "drop ?m (r @ drop n p) = drop ?m r @ drop n p" "drop ?m p = drop ?m (take n p) @ drop n p"
    using t(1) assms(3,4) drop_append [of ?m "take n p" "drop n p"] by (auto simp: min_absorb2)
  have e: "even (length (drop ?m r))" "even (length (drop ?m (take n p)))" using assms(2-4) t(1) by simp_all
  have s: "word_sum (drop ?m (r @ drop n p)) mod 65535 = word_sum (drop ?m p) mod 65535"
    unfolding a word_sum_append [OF e(1)] word_sum_append [OF e(2)] by (intro mod_add_cong t(5) refl)
  have g: "get16 (r @ drop n p) (port_at ?q) = Some np"
    using t(3) by (auto simp: get16_def nth_append split: if_splits)
  have b: "(r @ drop n p) ! i = p ! i"
    if "i < length p" "i \<notin> {10..15} \<union> {port_at ?q, port_at ?q + 1, check_at ?q, check_at ?q + 1}" for i
    using t(1) t(4) [of i] that assms(4) by (cases "i < n") (auto simp: nth_append)
  have "take 4 (drop 12 (r @ drop n p)) = PubIP L" using t(1,2) assms(3) by simp
  then show ?thesis using t(1) g b s assms(4) unfolding translated_def Let_def by auto
qed

lemma up_frag_rest:
  assumes "length r = n" "n \<le> fst f" "n \<le> length p"
  shows "up_frag L ident (r @ drop n p) f = up_frag L ident p f"
  using assms by (simp add: up_frag_def)

lemma plan_from_offsets: "plan_from cap len off fs \<Longrightarrow> f \<in> set fs \<Longrightarrow> off \<le> fst f"
  by (induction cap len off fs rule: plan_from.induct) auto

lemma ipv6_frag_ok:
  assumes I: "nat_inv T m" and s: "tuples m d = Some s" "prot s = p ! 9" and p: "packet_ok p" "length p < 2 ^ 16 - 8"
    and L: "lease_bytes (laft m)" and e: "csum_ok (ip_send_check e)" "\<forall>k. buf_ok e k" "random32 e 0 \<noteq> 0"
  obtains (sent) T' m' r fs where
      "ipv6_frag_handl e p d 1280 (T, m)
        = Some ((T', m'), map (\<lambda>f. tunnel_skb (up_frag (laft m) (random32 e 0) r f)) fs, 0)"
      "plan_from 1232 (length p) 0 fs" "translated (laft m) (newport s) p r"
      "nat_inv T' m'" "track_ok p m m' d" "\<not> resets p \<Longrightarrow> flows m' = flows m"
    | (invalid) "ipv6_frag_handl e p d 1280 (T, m) = Some ((T, m), [], -1)" "\<not> has_flags p"
proof -
  let ?L = "laft m" and ?id = "random32 e 0"
  define n where "n = min 1232 (length p)"
  have c: "check_at (p ! 9) + 2 \<le> length p" "port_at (p ! 9) + 2 \<le> length p" "20 \<le> length p" "p ! 0 = 0x45"
    "check_at (p ! 9) \<le> 36" "port_at (p ! 9) \<le> 24" "26 \<le> length p"
    using p(1) protos by (auto simp: packet_ok_def ip20_def check_at_def port_at_def handled_def split: if_splits)
  have n: "26 \<le> n" "n \<le> length p" "n \<le> 1232" "n < length p \<longrightarrow> n = 1232" using c(7) by (auto simp: n_def)
  have pn: "packet_ok (take n p)"
  proof -
    have "(take n p) ! 9 = p ! 9" "(take n p) ! 0 = p ! 0" "length (take n p) = n" using n(1,2) by simp_all
    moreover have "check_at (p ! 9) + 2 \<le> n" "port_at (p ! 9) + 2 \<le> n"
      using c(1,2,5,6) n(4) by (cases "n < length p"; linarith)+
    ultimately show ?thesis using p(1) n(1) by (simp add: packet_ok_def ip20_def)
  qed
  define h where "h = construct_ipv6_header ?L (word_of_nat n + 8) NEXTHDR_FRAGMENT @ replicate 8 0"
  have h: "length h = IP6_HLEN + IP6F_HLEN" using tunnel_header_length [OF L] by (simp add: h_def IP6F_HLEN_def)
  have L4: "length (PubIP ?L) = 4" using L by (simp add: lease_bytes_def)
  obtain new r1 where r1: "update_network_header e ?L (h @ take n p) (IP6_HLEN + IP6F_HLEN) = Some new"
    "update_header ?L new (take n p) IP6F_HLEN (swap16 (newport s)) = Some (h @ r1)"
    "translated ?L (newport s) (take n p) r1"
    by (rule update_header_ok [OF pn L4 e(1) h])
  have u: "update_header ?L new p IP6F_HLEN (swap16 (newport s)) = Some (h @ r1)"
    using r1(2) update_header_prefix [OF n(1,2) c(4)] by simp
  define r where "r = r1 @ drop n p"
  have l1: "length r1 = n" "length r = length p" using r1(3) n(2) by (simp_all add: translated_def Let_def r_def)
  have l8: "n + 8 < 2 ^ 16" using n(3) by simp
  have un: "unat (word_of_nat k :: u16) = k" if "k \<le> length p" for k
    using that p(2) by (intro of_nat_inverse [OF refl]) simp
  have pos: "(word_of_nat (length p) :: u16) > 0" using un [of "length p"] c(7) by (auto simp: word_less_nat_alt)
  have len: "(if unat (word_of_nat (length p) :: u16) > sub32 1280 48 then word_of_nat (sub32 1280 48) else word_of_nat (length p))
      = (word_of_nat n :: u16)"
    using un [of "length p"] by (auto simp: sub32_def n_def min_def)
  have pay: "getn p (unat (0 :: u16)) (unat (word_of_nat n :: u16)) = Some (take n p)"
    using un [of n] n(2) by (simp add: getn_def)
  have d: "(word_of_nat (length p) - word_of_nat n :: u16) = word_of_nat (length p - n)"
    using n(2) by (simp add: of_nat_diff)
  have fr: "put (h @ r1) IP6_HLEN (construct_frag_header (if word_of_nat (length p - n) > (0 :: u16) then 0 OR 1 else 0) ?id)
    = Some (up_frag ?L ?id r (0, n))"
  proof -
    have b: "0 + n \<le> length r" "length r < 2 ^ 16 - 8" using p(2) n(2) l1(2) by simp_all
    have "take n (drop 0 r) = r1" by (simp add: r_def l1(1))
    then show ?thesis
      using up_frag_step [OF L b, of ?id] unfolding diff_zero l1(2) d h_def append_assoc
      by (simp only: semiring_1_class.of_nat_0)
  qed
  have unf: "ipv6_frag_handl e p d 1280 (T, m) = frag_up_loop e 1280 p d 0 0 (word_of_nat (length p)) 0 (T, m)"
    by (simp add: ipv6_frag_handl_def)
  have m8: "1280 - 1280 mod 8 = (1280 :: nat)" by simp
  have hd: "construct_ipv6_header ?L (word_of_nat n + 8) NEXTHDR_FRAGMENT @ replicate 8 0 @ take n p = h @ take n p"
    by (simp add: h_def)
  note step = frag_up_loop.simps [of e 1280 p d 0 0] pos if_True len Let_def e(2) [rule_format] not_True_eq_False if_False
    pay bind.bind_lunit snd_conv hd r1(1) case_prod_conv
  show ?thesis
  proof (rule transport_ok [OF I s p(1) u])
    assume t: "update_transport_header new p d IP6F_HLEN (T, m) = Some (h @ r1, (T, m), - 1)" "\<not> has_flags p"
    have "ipv6_frag_handl e p d 1280 (T, m) = Some ((T, m), [], -1)"
      unfolding unf by (simp only: step t(1)) simp
    then show ?thesis using t(2) by (intro invalid)
  next
    fix T' m'
    assume t: "update_transport_header new p d IP6F_HLEN (T, m) = Some (h @ r1, (T', m'), 0)" "nat_inv T' m'" "track_ok p m m' d"
      "\<not> resets p \<Longrightarrow> flows m' = flows m"
    have sl: "same_lease ?L (laft m')" using t(3) by (simp add: track_ok_def shrunk_def)
    have lb: "lease_bytes (laft (snd (T', m')))" using L sl by (simp add: lease_bytes_def same_lease_def)
    have "\<exists>fs. frag_up_loop e 1280 p d 1 ?id (word_of_nat (length p - n)) (word_of_nat n) (T', m')
        = Some ((T', m'), map (\<lambda>f. tunnel_skb (up_frag (laft m') ?id p f)) fs, 0) \<and> plan_from 1232 (length p) n fs"
    proof (cases "n < length p")
      case True
      then show ?thesis using frag_rest [OF e(2,3) lb p(2), of n d 1] n(4) by simp
    next
      case False
      then show ?thesis using n(2) by (intro exI [of _ "[]"]) (simp add: frag_up_loop.simps [of e 1280])
    qed
    then obtain fs where fs: "frag_up_loop e 1280 p d 1 ?id (word_of_nat (length p - n)) (word_of_nat n) (T', m')
        = Some ((T', m'), map (\<lambda>f. tunnel_skb (up_frag (laft m') ?id p f)) fs, 0)" "plan_from 1232 (length p) n fs" by blast
    have eq: "map (\<lambda>f. tunnel_skb (up_frag (laft m') ?id p f)) fs = map (\<lambda>f. tunnel_skb (up_frag ?L ?id r f)) fs"
      unfolding up_frag_lease [OF sl] r_def
      by (rule map_cong [OF refl]) (use up_frag_rest [OF l1(1) _ n(2)] plan_from_offsets [OF fs(2)] in simp)
    have "ipv6_frag_handl e p d 1280 (T, m)
      = Some ((T', m'), map (\<lambda>f. tunnel_skb (up_frag ?L ?id r f)) ((0, n) # fs), 0)"
      unfolding unf
      apply (simp only: step t(1) d add_0 One_nat_def [symmetric] fs(1))
      apply (simp add: fr eq fs(1) [unfolded One_nat_def])
      done
    moreover have "plan_from 1232 (length p) 0 ((0, n) # fs)" using fs(2) n by auto
    moreover have "translated ?L (newport s) p r"
    proof -
      have "translated ?L (newport s) p (r1 @ drop n p)" if "n < length p"
        using translated_append [OF r1(3)] that n by simp
      then show ?thesis using r1(3) n(2) by (cases "n < length p") (simp_all add: r_def)
    qed
    ultimately show ?thesis using t(2-4) by (intro sent)
  qed
qed


section \<open>The hook\<close>

lemma patch_keeps:
  assumes "34 \<le> length p"
  obtains p' where "patch_tcpmss g p (length p) = Some p'" "length p' = length p" "\<And>i. i < 36 \<Longrightarrow> i < length p \<Longrightarrow> p' ! i = p ! i"
proof -
  obtain p' where p': "patch_tcpmss g p (length p) = Some p'" using patch_tcpmss_in_bounds_lemma [OF assms] by blast
  have "length p' = length p \<and> (\<forall>i < 36. i < length p \<longrightarrow> p' ! i = p ! i)"
  proof (cases "p' = p")
    case False
    obtain i where i: "mss_scan p (length p) 40 0 = Some (Some i)" "i \<noteq> 0" "patch_mss g p i = Some p'"
      by (rule patch_cases [OF p' False])
    obtain mss where m: "fix_msscksum p 36 (i + 2) (usMtu g - 80) = Some p'"
      by (rule patch_mss_cases [OF i(3) False])
    have "40 \<le> i + 2" using mss_scan_found [OF i(1,2)] by simp
    note F = fix_msscksum_ok(1,3) [OF m this]
    have "p' ! j = p ! j" if "j < 36" "j < length p" for j
      by (rule F(2)) (use that \<open>40 \<le> i + 2\<close> in auto)
    then show ?thesis using F(1) by blast
  qed simp
  then show ?thesis using that p' by simp
qed

lemmas cpe_patch_ok = patch_keeps [of _ mtu_1280, folded cpe_patch_tcpmss_def]

text \<open>The packet in one piece if it fits, else in fragments of at most 1280 bytes; a paged buffer is always fragmented.\<close>

definition fits :: "skbuff \<Rightarrow> bool" where
  "fits skb \<longleftrightarrow> \<not> skb_nonlinear skb \<and> length (skb_data skb) \<le> 1240"

definition in_tunnel :: "LAFT_NAT_INFO \<Rightarrow> u32 \<Rightarrow> bool \<Rightarrow> u8 list \<Rightarrow> skbuff list \<Rightarrow> bool" where
  "in_tunnel L ident whole r out \<longleftrightarrow>
     (if whole then out = [tunnel_skb (tunnelled L r)] \<and> length r \<le> 1240
      else \<exists>fs. out = map (\<lambda>f. tunnel_skb (up_frag L ident r f)) fs \<and> plan_from 1232 (length r) 0 fs)"

definition surroundings_ok :: "cpe_env \<Rightarrow> bool" where
  "surroundings_ok e \<longleftrightarrow> env_ok e \<and> csum_ok (ip_send_check e) \<and> random32 e 0 \<noteq> 0"

lemma encap_ok:
  assumes I: "nat_inv T m" and s: "flows m d = Some (up, np)" "up_proto up = skb_data skb ! 9"
    and p: "packet_ok (skb_data skb)" "34 \<le> length (skb_data skb)" "length (skb_data skb) < 2 ^ 16 - 8"
    and L: "lease_bytes (laft m)" and e: "surroundings_ok e"
  obtains (sent) T' m' p' r out where "encap e skb d 1280 (T, m) = Some ((T', m'), out, 0)"
      "cpe_patch_tcpmss (skb_data skb) (length (skb_data skb)) = Some p'" "translated (laft m) np p' r"
      "in_tunnel (laft m) (random32 e 0) (fits skb) r out" "nat_inv T' m'" "track_ok (skb_data skb) m m' d" "\<not> resets (skb_data skb) \<Longrightarrow> flows m' = flows m"
    | (invalid) "encap e skb d 1280 (T, m) = Some ((T, m), [], -1)" "\<not> has_flags (skb_data skb)"
proof -
  let ?p = "skb_data skb"
  obtain s where t: "tuples m d = Some s" "prot s = ?p ! 9" "newport s = np"
    using s by (auto simp: flows_def flow_def)
  obtain p' where p': "cpe_patch_tcpmss ?p (length ?p) = Some p'" "length p' = length ?p"
    "\<And>i. i < 36 \<Longrightarrow> i < length ?p \<Longrightarrow> p' ! i = ?p ! i"
    by (rule cpe_patch_ok [OF p(2)]) blast
  have b: "p' ! 0 = ?p ! 0" "p' ! 9 = ?p ! 9" "p' ! 33 = ?p ! 33"
    by (rule p'(3); use p(2) in linarith)+
  have q: "packet_ok p'" "has_flags p' = has_flags ?p" "resets p' = resets ?p"
    using p(1) p'(2) b by (simp_all add: packet_ok_def ip20_def has_flags_def resets_def)
  have tk: "track_ok p' m m' d = track_ok ?p m m' d" for m' using q(2,3) by (simp add: track_ok_def)
  have k: "prot s = p' ! 9" using t(2) b(2) by simp
  have ee: "csum_ok (ip_send_check e)" "\<forall>k. buf_ok e k" "buf_ok e 0" "random32 e 0 \<noteq> 0" "lin_ok e"
    using e by (auto simp: surroundings_ok_def env_ok_def)
  show ?thesis
  proof (cases "\<not> skb_nonlinear skb \<and> length ?p \<le> 1240")
    case True
    show ?thesis
    proof (rule normal_packet_ok [OF I t(1) k q(1) L ee(1,3)])
      fix T' m' r
      assume n: "normal_packet_handl e p' d (T, m) = Some ((T', m'), [tunnel_skb (tunnelled (laft m) r)], 0)"
        "translated (laft m) (newport s) p' r" "nat_inv T' m'" "track_ok p' m m' d" "\<not> resets p' \<Longrightarrow> flows m' = flows m"
      have "length r \<le> 1240" using n(2) True p'(2) by (simp add: translated_def Let_def)
      then have "in_tunnel (laft m) (random32 e 0) (fits skb) r [tunnel_skb (tunnelled (laft m) r)]" using True by (simp add: in_tunnel_def fits_def)
      moreover have en: "encap e skb d 1280 (T, m) = Some ((T', m'), [tunnel_skb (tunnelled (laft m) r)], 0)"
        using True p'(1,2) n(1) by (simp add: encap_def IP6_HLEN_def)
      ultimately show ?thesis using n(2-5) t(3) q(3) tk by (intro sent [OF en p'(1)]) auto
    next
      assume "normal_packet_handl e p' d (T, m) = Some ((T, m), [], - 1)" "\<not> has_flags p'"
      then show ?thesis using True p'(1,2) q(2) by (intro invalid) (simp_all add: encap_def IP6_HLEN_def)
    qed
  next
    case False
    have en: "encap e skb d 1280 (T, m) = ipv6_frag_handl e p' d 1280 (T, m)"
      using False p'(1,2) ee(5) by (auto simp: encap_def IP6_HLEN_def)
    have lp: "length p' < 2 ^ 16 - 8" using p(3) p'(2) by simp
    show ?thesis
    proof (rule ipv6_frag_ok [OF I t(1) k q(1) lp L ee(1,2,4)])
      fix T' m' r fs
      assume n: "ipv6_frag_handl e p' d 1280 (T, m)
          = Some ((T', m'), map (\<lambda>f. tunnel_skb (up_frag (laft m) (random32 e 0) r f)) fs, 0)"
        "plan_from 1232 (length p') 0 fs" "translated (laft m) (newport s) p' r" "nat_inv T' m'" "track_ok p' m m' d"
        "\<not> resets p' \<Longrightarrow> flows m' = flows m"
      have "length r = length p'" using n(3) by (simp add: translated_def Let_def)
      then have "in_tunnel (laft m) (random32 e 0) (fits skb) r (map (\<lambda>f. tunnel_skb (up_frag (laft m) (random32 e 0) r f)) fs)"
        using n(2) False by (auto simp: in_tunnel_def fits_def)
      then show ?thesis using n(3-6) t(3) q(3) tk by (intro sent [OF en [unfolded n(1)] p'(1)]) auto
    next
      assume "ipv6_frag_handl e p' d 1280 (T, m) = Some ((T, m), [], - 1)" "\<not> has_flags p'"
      then show ?thesis using en q(2) by (intro invalid) simp_all
    qed
  qed
qed

text \<open>The key of a packet.\<close>

definition key_of :: "u8 list \<Rightarrow> HASH_DATA_UP option" where
  "key_of p = Option.bind (get_hash_data_up p) id"

lemma key_of_ok:
  assumes "packet_ok p" obtains up where "get_hash_data_up p = Some (Some up)" "key_of p = Some up" "up_proto up = p ! 9"
proof -
  have l: "20 \<le> length p" "port_at (p ! 9) + 2 \<le> length p" using assms by (auto simp: packet_ok_def ip20_def)
  have g: "get8 p 9 = Some (p ! 9)" using l by (simp add: get8_def)
  obtain s d where a: "get32 p 12 = Some s" "get32 p 16 = Some d" using l by (simp add: get32_def)
  obtain o' where o': "get16 p (port_at (p ! 9)) = Some o'" using get16_exists [of "port_at (p ! 9)" p] l by auto
  let ?up = "\<lparr>up_srcip = s, up_dstip = d, up_oldport = o', up_proto = p ! 9\<rparr>"
  have "get_hash_data_up p = Some (Some ?up)"
    using g a o' assms protos by (auto simp: get_hash_data_up_def packet_ok_def handled_def port_at_def)
  then show ?thesis by (intro that [of ?up]) (simp_all add: key_of_def)
qed

lemma stream_up_ok:
  assumes I: "cpe_inv c" "tcp_room (laft (natm c))" and L: "lease_bytes (laft (natm c))" and e: "surroundings_ok e"
    and p: "packet_ok (skb_data skb)" "34 \<le> length (skb_data skb)" "length (skb_data skb) < 2 ^ 16 - 8" "key_of (skb_data skb) = Some up"
    and f: "ipdst_filter (skb_data skb) = Some False" "stream_len_check (skb_data skb) = Some (None, 1)"
  obtains (sent) c' d np p' r out where "stream_up_hook e c skb = Some (c', nf_stolen)" "cpe_inv c'"
      "cpe_patch_tcpmss (skb_data skb) (length (skb_data skb)) = Some p'" "translated (laft (natm c)) np p' r"
      "in_tunnel (laft (natm c)) (random32 e 0) (fits skb) r out" "outq c' = outq c @ out" "reports c' = reports c"
      "ported (up_proto up) \<Longrightarrow> LowPort (laft (natm c)) \<le> np \<and> np \<le> HighPort (laft (natm c))"
      "same_lease (laft (natm c)) (laft (natm c'))"
      "\<not> resets (skb_data skb) \<Longrightarrow> flows (natm c') d = Some (up, np)"
      "\<And>np'. flows (natm c) d = Some (up, np') \<Longrightarrow> np' = np"
      "\<And>d'. d' \<noteq> d \<Longrightarrow> flows (natm c') d' = flows (natm c) d'"
      "has_flags (skb_data skb)" "\<not> resets (skb_data skb) \<Longrightarrow> 0 < time_left (natm c') d"
    | (full) "stream_up_hook e c skb = Some (c, nf_drop)" "used_up (laft (natm c)) (up_proto up)" "\<forall>d p. flows (natm c) d \<noteq> Some (up, p)"
    | (invalid) c' d np where "stream_up_hook e c skb = Some (c', nf_drop)" "cpe_inv c'" "\<not> has_flags (skb_data skb)" "outq c' = outq c"
      "flows (natm c') d = Some (up, np)"
      "flows (natm c) d \<noteq> Some (up, np) \<Longrightarrow> time_left (natm c') d = 0"
proof -
  let ?p = "skb_data skb" and ?L = "laft (natm c)"
  obtain up' where u: "get_hash_data_up ?p = Some (Some up')" "key_of ?p = Some up'" "up_proto up' = ?p ! 9"
    by (rule key_of_ok [OF p(1)])
  have u1: "get_hash_data_up ?p = Some (Some up)" "up_proto up = ?p ! 9" using u p(4) by simp_all
  have eo: "session_mem e" using e by (simp add: surroundings_ok_def env_ok_def)
  have go: "thesis" if s: "search_nat_hashtable e c ?p up = Some (c1, Some d)" "cpe_inv c1" "flows (natm c1) d = Some (up, np)"
      "same_lease ?L (laft (natm c1))" "outq c1 = outq c" "reports c1 = reports c"
      "\<And>np'. flows (natm c) d = Some (up, np') \<Longrightarrow> np' = np" "\<And>d'. d' \<noteq> d \<Longrightarrow> flows (natm c1) d' = flows (natm c) d'"
      "flows (natm c) d \<noteq> Some (up, np) \<Longrightarrow> time_left (natm c1) d = 0" for c1 d np
  proof -
    have I1: "nat_inv (table c1) (natm c1)" using s(2) by (simp add: cpe_inv_def)
    have L1: "lease_bytes (laft (natm c1))" using L s(4) by (simp add: lease_bytes_def same_lease_def)
    have LL: "translated (laft (natm c1)) np p' r = translated ?L np p' r" "in_tunnel (laft (natm c1)) i w r out = in_tunnel ?L i w r out" for p' r i w out
      using s(4) by (simp_all add: translated_def in_tunnel_def tunnelled_def up_frag_def same_lease_def)
    have port: "LowPort ?L \<le> np \<and> np \<le> HighPort ?L" if "ported (up_proto up)"
    proof -
      have "\<forall>d k p. flows (natm c1) d = Some (k, p) \<longrightarrow> ported (up_proto k)
          \<longrightarrow> LowPort (laft (natm c1)) \<le> p \<and> p \<le> HighPort (laft (natm c1))"
        using nat_invD(4) [OF I1, unfolded flows_ok_def] by (elim conjE)
      then show ?thesis using s(3,4) that by (auto simp: same_lease_def)
    qed
    show thesis
    proof (rule encap_ok [OF I1 s(3) u1(2) p(1,2,3) L1 e])
      fix T' m' p' r out
      assume n: "encap e skb d 1280 (table c1, natm c1) = Some ((T', m'), out, 0)"
        "cpe_patch_tcpmss ?p (length ?p) = Some p'" "translated (laft (natm c1)) np p' r"
        "in_tunnel (laft (natm c1)) (random32 e 0) (fits skb) r out" "nat_inv T' m'" "track_ok ?p (natm c1) m' d" "\<not> resets ?p \<Longrightarrow> flows m' = flows (natm c1)"
      let ?c = "c1\<lparr>table := T', natm := m', outq := outq c1 @ out\<rparr>"
      have h: "stream_up_hook e c skb = Some (?c, nf_stolen)"
        using f u1(1) s(1) n(1) by (simp add: stream_up_hook_def)
      have sl: "same_lease ?L (laft m')" using s(4) n(6) by (auto simp: track_ok_def shrunk_def same_lease_def)
      have hf: "has_flags ?p" and tl: "\<not> resets ?p \<Longrightarrow> 0 < time_left m' d" using n(6) by (simp_all add: track_ok_def)
      have ot: "flows m' d' = flows (natm c) d'" if "d' \<noteq> d" for d'
        using n(6) s(8) [OF that] that by (simp add: track_ok_def)
      show thesis
        by (rule sent [OF h]) (use n(2-5,7) hf tl s(3,5-7) port sl ot LL in \<open>auto simp: cpe_inv_def\<close>)
    next
      assume "encap e skb d 1280 (table c1, natm c1) = Some ((table c1, natm c1), [], - 1)" "\<not> has_flags ?p"
      then have "stream_up_hook e c skb = Some (c1\<lparr>table := table c1, natm := natm c1, outq := outq c1 @ []\<rparr>, nf_drop)"
        using f u1(1) s(1) by (simp add: stream_up_hook_def)
      then show thesis by (rule invalid) (use s \<open>\<not> has_flags ?p\<close> in \<open>simp_all add: cpe_inv_def\<close>)
    qed
  qed
  show ?thesis
  proof (rule search_ok [OF I eo u1(1)])
    fix d np
    assume a: "search_nat_hashtable e c ?p up = Some (c, Some d)" "flows (natm c) d = Some (up, np)"
    show ?thesis by (rule go [OF a(1) I(1) a(2)]) (use a(2) in simp_all)
  next
    assume a: "search_nat_hashtable e c ?p up = Some (c, None)" "used_up ?L (up_proto up)" "\<forall>d p. flows (natm c) d \<noteq> Some (up, p)"
    show ?thesis by (rule full) (use a f u1(1) in \<open>simp_all add: stream_up_hook_def\<close>)
  next
    fix c1 np
    assume a: "search_nat_hashtable e c ?p up = Some (c1, Some (next_tuple (natm c)))" "cpe_inv c1"
      "flows (natm c1) (next_tuple (natm c)) = Some (up, np)" "new_session c c1 up np"
    have n: "tuples (natm c1) = (tuples (natm c))(next_tuple (natm c) \<mapsto> get_tuple up (down_of (up, np)))"
      "tuples (natm c) (next_tuple (natm c)) = None" "same_lease ?L (laft (natm c1))" "outq c1 = outq c" "reports c1 = reports c"
      using a(4) by (simp_all add: new_session_def Let_def)
    show ?thesis
      by (rule go [OF a(1-3) n(3-5)])
        (use n(1,2) in \<open>auto simp: flows_def time_left_def get_tuple_def split: if_splits\<close>)
  qed
qed

end
