(* ===== verification/DownHook.thy ===== *)
theory DownHook
  imports DownTranslate UpHook
begin

text \<open>
  The way down as a whole, and the state of the box between packets: every packet and every timer
  keeps the address translation consistent; a reply is given back to the host it is for.
\<close>

section \<open>The session of a reply\<close>

lemma down_keyE:
  assumes "reply_ok p"
  obtains k where "createpktdownkey p = Some k" "get32 p 12 = Some (down_dstip k)"
    "get16 p (dport_at (p ! 9)) = Some (down_newport k)" "down_proto k = p ! 9"
proof -
  have l: "20 \<le> length p" "dport_at (p ! 9) + 2 \<le> length p" "handled (p ! 9)" "p ! 9 = IPPROTO_ICMP \<longrightarrow> is_echo (p ! 20)"
    using assms by (auto simp: reply_ok_def ip20_def)
  obtain sa where g1: "get32 p 12 = Some sa" using l(1) by (simp add: get32_def)
  obtain port where g2: "get16 p (dport_at (p ! 9)) = Some port"
    using l(2) get16_exists [of "dport_at (p ! 9)" p] by auto
  note g = g1 g2
  have g9: "get8 p 9 = Some (p ! 9)" using l by (simp add: get8_def)
  have "createpktdownkey p = Some \<lparr>down_dstip = sa, down_newport = port, down_proto = p ! 9\<rparr>"
  proof (cases "p ! 9 = IPPROTO_ICMP")
    case True
    have "get8 p 20 = Some (p ! 20)" using l True by (simp add: get8_def dport_at_def)
    then show ?thesis using True l(4) g g9 protos
      by (simp add: createpktdownkey_def cpe_OuterICMPErr_get_def dport_at_def)
  next
    case False
    then show ?thesis using l(3) g g9 protos by (auto simp: createpktdownkey_def dport_at_def handled_def)
  qed
  then show ?thesis by (rule that) (use g in simp_all)
qed

text \<open>Noting that a reply has been seen.\<close>

definition seen :: "nat \<Rightarrow> natmem \<Rightarrow> natmem" where
  "seen d m = upd_tuple d (\<lambda>s. s\<lparr>con_status := con_status s OR IPS_SEEN_REPLY\<rparr>) m"

lemma seen_ok:
  assumes "nat_inv T m" "tuples m d = Some s"
  shows "nat_inv T (seen d m)" "flows (seen d m) = flows m" "laft (seen d m) = laft m" "next_tuple (seen d m) = next_tuple m"
    "tuples (seen d m) d = Some (s\<lparr>con_status := con_status s OR IPS_SEEN_REPLY\<rparr>)"
proof -
  show f: "flows (seen d m) = flows m"
    by (rule ext) (simp add: seen_def flows_def upd_tuple_sel option.map_comp comp_def)
  show r: "laft (seen d m) = laft m" "next_tuple (seen d m) = next_tuple m" by (simp_all add: seen_def upd_tuple_def)
  have "states_ok (seen d m)" unfolding seen_def using nat_invD(5) [OF assms(1)] by (rule states_upd) simp
  then show "nat_inv T (seen d m)" by (rule nat_inv_flows [OF assms(1) f r])
  show "tuples (seen d m) d = Some (s\<lparr>con_status := con_status s OR IPS_SEEN_REPLY\<rparr>)"
    using assms(2) by (simp add: seen_def upd_tuple_sel)
qed

lemma or_seen: "(c OR IPS_SEEN_REPLY) AND IPS_SEEN_REPLY \<noteq> 0"
proof
  assume z: "(c OR IPS_SEEN_REPLY) AND IPS_SEEN_REPLY = 0"
  have "bit IPS_SEEN_REPLY 1" by (simp add: IPS_SEEN_REPLY_def)
  then have "bit ((c OR IPS_SEEN_REPLY) AND IPS_SEEN_REPLY) 1" by (simp only: bit_and_iff bit_or_iff simp_thms)
  then show False unfolding z by simp
qed

lemma nathandle_ok:
  assumes I: "nat_inv T m" and p: "reply_ok p" and L: "length (PubIP (laft m)) = 4"
    and k: "createpktdownkey p = Some k"
  obtains (returned) T' m' d s r where "nathandle mem p (T, m) = Some ((T', m'), r, 1)" "tuples m d = Some s"
      "down_of (flow s) = k" "restored (laft m) s p r" "nat_inv T' m'" "shrunk m m'"
      "p ! 9 \<noteq> IPPROTO_ICMP \<Longrightarrow> flows m' = flows m"
    | (unknown) "nathandle mem p (T, m) = Some ((T, m), p, -1)" "\<And>d f. flows m d = Some f \<Longrightarrow> down_of f \<noteq> k"
    | (invalid) T' m' r where "nathandle mem p (T, m) = Some ((T', m'), r, -1)" "nat_inv T' m'" "shrunk m m'"
      "flows m' = flows m" "\<not> has_flags p"
proof (rule find_down [OF I, of k])
  assume "find_session T (Down k) PKT_DOWN m = Some None" "\<And>d f. flows m d = Some f \<Longrightarrow> down_of f \<noteq> k"
  then show ?thesis using k by (intro unknown) (simp_all add: nathandle_def)
next
  fix d f
  assume f: "find_session T (Down k) PKT_DOWN m = Some (Some d)" "flows m d = Some f" "down_of f = k"
  obtain s where s: "tuples m d = Some s" "flow s = f" using f(2) by (auto simp: flows_def)
  obtain k' where k': "createpktdownkey p = Some k'" "get32 p 12 = Some (down_dstip k')"
    "get16 p (dport_at (p ! 9)) = Some (down_newport k')" "down_proto k' = p ! 9"
    by (rule down_keyE [OF p])
  have pr: "prot s = p ! 9" using k' k s(2) f(3) by (auto simp: down_of_def flow_def)
  have hp: "handled (p ! 9)" "20 \<le> length p" "check_at (p ! 9) + 2 \<le> length p" "p ! 9 = IPPROTO_ICMP \<longrightarrow> is_echo (p ! 20) \<and> 26 \<le> length p"
    using p by (auto simp: reply_ok_def ip20_def dport_at_def)
  obtain p1 p2 r where r: "put p 16 (be32 (srcip s)) = Some p1" "put p1 (dport_at (p ! 9)) (be16 (oldport s)) = Some p2"
    "pktchecksum (laft m) p2 s = Some r" "restored (laft m) s p r" "p1 ! 9 = p ! 9"
    "\<And>i. 20 \<le> i \<Longrightarrow> i < length p \<Longrightarrow> p1 ! i = p ! i" "length p1 = length p"
    "\<And>i. 26 \<le> i \<Longrightarrow> i < length p \<Longrightarrow> p2 ! i = p ! i" "length p2 = length p"
    by (rule pktchecksum_ok [OF p L, where s = s]) blast
  have g1: "get8 p1 9 = Some (p ! 9)" using r(5,7) hp(2) by (simp add: get8_def)
  have noerr: "IsOutICMPErrPacket p1 = Some (-1)"
  proof (cases "p ! 9 = IPPROTO_ICMP")
    case True
    then have "get8 p1 20 = Some (p ! 20)" using hp(4) r(6) [of 20] r(7) by (auto simp: get8_def)
    then show ?thesis using g1 True hp(4) by (simp add: IsOutICMPErrPacket_def)
  next
    case False
    then show ?thesis using g1 by (simp add: IsOutICMPErrPacket_def)
  qed
  note S = seen_ok [OF I s(1)]
  let ?s = "s\<lparr>con_status := con_status s OR IPS_SEEN_REPLY\<rparr>"
  have via: "shrunk m m'" if "shrunk (seen d m) m'" for m' using that S(2-4) by (simp add: shrunk_def)
  have u: "upd_tuple d (\<lambda>s. s\<lparr>con_status := con_status s OR IPS_SEEN_REPLY\<rparr>) m = seen d m" by (simp add: seen_def)
  note nh = nathandle_def case_prod_conv k f(1) bind.bind_lunit s(1) r(1) noerr u S(3) Let_def option.case
  have neg: "\<not> (-1 :: int) > 0" by simp
  consider (t) "p ! 9 = IPPROTO_TCP" | (u) "p ! 9 = IPPROTO_UDP" | (i) "p ! 9 = IPPROTO_ICMP"
    using hp(1) by (auto simp: handled_def)
  then show ?thesis
  proof cases
    case t
    have l38: "38 \<le> length p" using hp(3) t by (simp add: check_at_def)
    have l: "34 \<le> length p2" using l38 r(9) by simp
    have g33: "get8 p2 33 = Some (p ! 33)" using l38 r(8) [of 33] r(9) by (simp add: get8_def)
    have pt: "prot ?s = 0x06" using pr t by (simp add: IPPROTO_TCP_def)
    have w: "put p1 22 (be16 (oldport s)) = Some p2" using r(2) t protos by (simp add: dport_at_def)
    show ?thesis
    proof (rule tcp_pkt_track_ok [OF S(1,5) pt l, where dir = IP_CT_DIR_REPLY])
      fix T' m' x
      assume j: "tcp_pkt_track p2 d IP_CT_DIR_REPLY (T, seen d m) = Some ((T', m'), x)" "nat_inv T' m'" "shrunk (seen d m) m'"
        "\<And>e. e \<noteq> d \<Longrightarrow> tuples m' e = tuples (seen d m) e" "x = -1 \<and> T' = T \<and> m' = seen d m \<or> x = 1"
        "\<And>fl. get8 p2 33 = Some fl \<Longrightarrow> get_conntrack_index fl \<noteq> 4 \<Longrightarrow> IP_CT_DIR_REPLY \<le> 1 \<Longrightarrow> x = 1"
        "\<And>fl. get8 p2 33 = Some fl \<Longrightarrow> \<not> flag fl TH_RST \<Longrightarrow> flows m' = flows (seen d m)"
        "con_status ?s AND IPS_SEEN_REPLY \<noteq> 0 \<Longrightarrow> flows m' = flows (seen d m)"
      have fl: "flows m' = flows m" using j(8) or_seen S(2) by simp
      have e: "nathandle mem p (T, m) = (if x < 0 then Some ((T', m'), p2, -1) else Some ((T', m'), r, 1))"
        using r(3) w pr t j(1) by (simp only: nh) (simp add: w)
      show ?thesis
      proof (cases "x = 1")
        case True
        then show ?thesis using e s(1) f(3) s(2) r(4) j(2) via [OF j(3)] fl by (intro returned [of T' m' r d s]) simp_all
      next
        case False
        then have "\<not> has_flags p" using j(6) [OF g33] t by (auto simp: has_flags_def IP_CT_DIR_REPLY_def)
        then show ?thesis using False j(2,5) e via [OF j(3)] fl by (intro invalid [of T' m' p2]) auto
      qed
    qed
  next
    case u2: u
    have w: "put p1 22 (be16 (oldport s)) = Some p2" using r(2) u2 protos by (simp add: dport_at_def)
    obtain m' where j: "udp_pkt_track d (seen d m) = Some m'" "nat_inv T m'" "flows m' = flows (seen d m)" "shrunk (seen d m) m'"
      by (rule udp_pkt_track_ok [OF S(1,5)]) blast
    have "nathandle mem p (T, m) = Some ((T, m'), r, 1)"
      using r(3) w pr u2 j(1) protos by (simp only: nh) (simp add: w)
    then show ?thesis using s f(3) r(4) j(2,3) via [OF j(4)] S(2) by (intro returned [of T m' r d s]) simp_all
  next
    case i
    have w: "put p1 24 (be16 (oldport s)) = Some p2" using r(2) i protos by (simp add: dport_at_def)
    obtain T' m' where j: "icmp_pkt_track d IP_CT_DIR_REPLY (T, seen d m) = Some (T', m')" "nat_inv T' m'" "shrunk (seen d m) m'"
      by (rule icmp_pkt_track_ok [OF S(1,5), where dir = IP_CT_DIR_REPLY]) blast
    have "nathandle mem p (T, m) = Some ((T', m'), r, 1)"
      using r(3) w pr i j(1) protos by (simp only: nh) (simp add: w)
    then show ?thesis using s f(3) r(4) j(2) via [OF j(3)] i by (intro returned [of T' m' r d s]) simp_all
  qed
qed


section \<open>Every packet keeps the state consistent\<close>

lemma nathandle_inv:
  assumes I: "nat_inv T m" and n: "nathandle mem p (T, m) = Some ((T', m'), r, x)"
  shows "nat_inv T' m' \<and> shrunk m m'"
proof -
  obtain k found where k: "createpktdownkey p = Some k" "find_session T (Down k) PKT_DOWN m = Some found"
    using n by (auto simp: nathandle_def option_simps)
  show ?thesis
  proof (cases found)
    case None
    then show ?thesis using n k I by (simp add: nathandle_def)
  next
    case (Some d)
    obtain s p1 e where s: "tuples m d = Some s" "put p 16 (be32 (srcip s)) = Some p1" "IsOutICMPErrPacket p1 = Some e"
      using n k Some by (auto simp: nathandle_def option_simps)
    note S = seen_ok [OF I s(1)]
    let ?s = "s\<lparr>con_status := con_status s OR IPS_SEEN_REPLY\<rparr>"
    have via: "nat_inv T' m' \<and> shrunk m m'" if "nat_inv T' m'" "shrunk (seen d m) m'"
      using that S(2-4) by (simp add: shrunk_def)
    have u: "upd_tuple d (\<lambda>s. s\<lparr>con_status := con_status s OR IPS_SEEN_REPLY\<rparr>) m = seen d m" by (simp add: seen_def)
    note n' = n [unfolded nathandle_def case_prod_conv k Some bind.bind_lunit option.case s u Let_def S(3)]
    show ?thesis
    proof (cases "e > 0")
      case True
      then show ?thesis using n' I by (auto simp: option_simps)
    next
      case False
      consider (t) "prot s = IPPROTO_TCP" | (u) "prot s = IPPROTO_UDP" | (i) "prot s = IPPROTO_ICMP"
        | (n) "prot s \<notin> {IPPROTO_TCP, IPPROTO_UDP, IPPROTO_ICMP}" by blast
      then show ?thesis
      proof cases
        case t
        obtain p2 x2 where p2: "tcp_pkt_track p2 d IP_CT_DIR_REPLY (T, seen d m) = Some ((T', m'), x2)"
          using n' False t by (auto simp: option_simps split: if_splits)
        have pt: "prot ?s = 0x06" using t by (simp add: IPPROTO_TCP_def)
        have l: "34 \<le> length p2"
          using p2 S(5) by (auto simp: tcp_pkt_track_def option_simps get8_def split: if_splits)
        show ?thesis
          by (rule tcp_pkt_track_ok [OF S(1,5) pt l, where dir = IP_CT_DIR_REPLY]) (use p2 via in auto)
      next
        case u
        obtain m2 where m2: "udp_pkt_track d (seen d m) = Some m2" "nat_inv T m2" "shrunk (seen d m) m2"
          by (rule udp_pkt_track_ok [OF S(1,5)]) blast
        then show ?thesis using n' False u protos via by (auto simp: option_simps)
      next
        case i
        obtain T2 m2 where m2: "icmp_pkt_track d IP_CT_DIR_REPLY (T, seen d m) = Some (T2, m2)" "nat_inv T2 m2" "shrunk (seen d m) m2"
          by (rule icmp_pkt_track_ok [OF S(1,5), where dir = IP_CT_DIR_REPLY]) blast
        then show ?thesis using n' False i protos via by (auto simp: option_simps)
      next
        case n
        have "shrunk (seen d m) (seen d m)" by simp
        then show ?thesis using n' False n S(1) via by auto
      qed
    qed
  qed
qed

lemma send_pieces_inv:
  "send_pieces e k hdr fragpkt fs ((T, m), dst) = Some (((T', m'), dst'), out) \<Longrightarrow> nat_inv T m
    \<Longrightarrow> nat_inv T' m' \<and> shrunk m m'"
proof (induction fs arbitrary: k T m dst out)
  case (Cons f fs)
  show ?case
  proof (cases "piece_mem e k")
    case True
    obtain content T1 m1 dst1 c1 x out1 where s: "frag_nathandle e content (fst f) ((T, m), dst) = Some (((T1, m1), dst1), c1, x)"
      "send_pieces e (Suc k) hdr fragpkt fs ((T1, m1), dst1) = Some (((T', m'), dst'), out1)"
      using Cons.prems(1) True by (auto simp: option_simps)
    have "nat_inv T1 m1 \<and> shrunk m m1"
      using s(1) Cons.prems(2) by (auto simp: frag_nathandle_def Let_def option_simps split: if_splits dest: nathandle_inv)
    then show ?thesis using Cons.IH [OF s(2)] shrunk_trans by blast
  next
    case False
    then show ?thesis using Cons.prems by simp
  qed
qed simp

lemma cpe_fragprocess_inv:
  assumes "cpe_fragprocess e k ((T, m), fr) = Some (((T', m'), fr'), out)" "nat_inv T m"
  shows "nat_inv T' m' \<and> shrunk m m'"
  using assms
  by (auto simp: cpe_fragprocess_def cpe_pkt_fraghandle_def Let_def option_simps split: if_splits dest: send_pieces_inv)

lemma ipv6handle_inv:
  assumes h: "ipv6handle e skb ((T, m), fr) = Some (((T', m'), fr'), pkt, out, ret)" and I: "nat_inv T m"
  shows "nat_inv T' m' \<and> shrunk m m'"
proof -
  let ?p = "skb_data skb"
  obtain sa da nx where g: "getn ?p 8 16 = Some sa" "getn ?p 24 16 = Some da" "get8 ?p 6 = Some nx"
    using h by (auto simp: ipv6handle_def Let_def option_simps)
  note h1 = h [unfolded ipv6handle_def case_prod_conv Let_def g bind.bind_lunit]
  consider (pass) "sa = IPv6LocalAddr (laft m) \<and> nx = IPINIP \<or> da \<noteq> IPv6LocalAddr (laft m)"
    | (ip) "\<not> (sa = IPv6LocalAddr (laft m) \<and> nx = IPINIP)" "da = IPv6LocalAddr (laft m)" "nx = IPINIP"
    | (frag) "da = IPv6LocalAddr (laft m)" "nx \<noteq> IPINIP" by blast
  then show ?thesis
  proof cases
    case pass
    then show ?thesis using h1 I by (auto split: if_splits)
  next
    case ip
    then obtain p1 p2 r where "nathandle (psd_ok e) p1 (T, m) = Some ((T', m'), p2, r)"
      using h1 by (auto simp: option_simps)
    then show ?thesis using nathandle_inv [OF I] by blast
  next
    case frag
    show ?thesis
    proof (cases "nx = NEXTHDR_FRAGMENT")
      case True
      obtain ipip where i: "isfragipip ?p = Some ipip" using h1 frag True by (auto simp: option_simps)
      show ?thesis
      proof (cases "ipip = 0 \<or> \<not> copy_ok e \<or> \<not> cb_ok e")
        case True
        then show ?thesis using h1 frag \<open>nx = NEXTHDR_FRAGMENT\<close> i I by (auto simp: option_simps split: if_splits)
      next
        case False
        obtain off mf len where o': "getfragoffset ?p = Some (off, mf, len)"
          using h1 frag True i False by (auto simp: option_simps)
        obtain t fh where n: "cpe_fragnodeinsert (tab_ok e) (pshashtable (frags fr))
             \<lparr>cb_offset = off, cb_mf = mf, cb_length = len, cb_skb = skb\<rparr> = Some (t, fh)"
          using h1 frag True i False o' by (auto simp: option_simps)
        show ?thesis
        proof (cases fh)
          case None
          then show ?thesis using h1 frag True i False o' n I by auto
        next
          case (Some k)
          obtain f1 o1 where "cpe_fragprocess e k ((T, m), f1) = Some (((T', m'), fr'), o1)"
            using h1 frag True i False o' n Some by (auto simp: option_simps)
          then show ?thesis using cpe_fragprocess_inv I by blast
        qed
      qed
    next
      case False
      then show ?thesis using h1 frag I by auto
    qed
  qed
qed

lemma stream_down_inv:
  assumes "stream_down_hook e c fr skb = Some (c', fr', v)" "cpe_inv c"
  shows "cpe_inv c' \<and> shrunk (natm c) (natm c')"
proof -
  have I: "nat_inv (table c) (natm c)" using assms(2) by (simp add: cpe_inv_def)
  obtain T m pkt out ret where h: "skbuf_handle e skb ((table c, natm c), fr) = Some (((T, m), fr'), pkt, out, ret)"
    "table c' = T" "natm c' = m"
    using assms(1) by (auto simp: stream_down_hook_def Let_def option_simps split: if_splits)
  obtain b where b: "get8 (skb_data skb) 0 = Some b" using h(1) by (auto simp: skbuf_handle_def option_simps)
  have "nat_inv T m \<and> shrunk (natm c) m"
  proof (cases "b = 0x60")
    case True
    then have "ipv6handle e skb ((table c, natm c), fr) = Some (((T, m), fr'), pkt, out, ret)" using h(1) b by (simp add: skbuf_handle_def)
    then show ?thesis using I by (rule ipv6handle_inv)
  next
    case False
    then show ?thesis using h(1) b I by (auto simp: skbuf_handle_def)
  qed
  then show ?thesis using h(2,3) by (simp add: cpe_inv_def)
qed


section \<open>A reply through the hook\<close>

lemma ipiphandle_tunnelled:
  assumes "length src = 16" "length dst = 16" "length p < 2 ^ 16"
  shows "ipiphandle (ipv6_header (word_of_nat (length p)) IPINIP src dst @ p) = Some p"
proof -
  let ?h = "ipv6_header (word_of_nat (length p)) IPINIP src dst"
  have l: "length ?h = 40" and g: "get16 (?h @ p) 4 = Some (word_of_nat (length p))"
    using ipv6_header_fields(1,5) [OF assms(1,2)] by auto
  have u: "unat (word_of_nat (length p) :: u16) = length p" using assms(3) by (intro of_nat_inverse [OF refl]) simp
  have "getn (?h @ p) 40 (length p) = Some p" using l by (simp add: getn_whole)
  then show ?thesis using l g u by (simp add: ipiphandle_def)
qed

lemma patch_keeps_reply:
  assumes "reply_ok p" "34 \<le> length p" "createpktdownkey p = Some k"
  obtains p' where "patch_tcpmss g p (length p) = Some p'" "reply_ok p'" "length p' = length p" "createpktdownkey p' = Some k"
    "has_flags p' = has_flags p" "\<And>i. i < 36 \<Longrightarrow> i < length p \<Longrightarrow> p' ! i = p ! i"
proof -
  obtain p' where p': "patch_tcpmss g p (length p) = Some p'" "length p' = length p"
    "\<And>i. i < 36 \<Longrightarrow> i < length p \<Longrightarrow> p' ! i = p ! i"
    by (rule patch_keeps [OF assms(2), of g]) blast
  have b: "p' ! i = p ! i" if "i < 34" for i by (rule p'(3); use assms(2) that in linarith)
  have r: "reply_ok p'" using assms(1) p'(2) b [of 0] b [of 9] b [of 20] by (simp add: reply_ok_def ip20_def)
  have g: "get32 p' 12 = get32 p 12" "get16 p' (dport_at (p ! 9)) = get16 p (dport_at (p ! 9))"
    using b p'(2) by (auto simp: get32_def get16_def dport_at_def)
  obtain k1 where k1: "createpktdownkey p = Some k1" "get32 p 12 = Some (down_dstip k1)"
    "get16 p (dport_at (p ! 9)) = Some (down_newport k1)" "down_proto k1 = p ! 9"
    by (rule down_keyE [OF assms(1)])
  obtain k2 where k2: "createpktdownkey p' = Some k2" "get32 p' 12 = Some (down_dstip k2)"
    "get16 p' (dport_at (p' ! 9)) = Some (down_newport k2)" "down_proto k2 = p' ! 9"
    by (rule down_keyE [OF r])
  have "k2 = k" using k1 k2 g b [of 9] assms(3) by simp
  then show ?thesis using p' r k2(1) b [of 9] b [of 33] by (intro that [of p']) (simp_all add: has_flags_def)
qed

lemmas patched_reply = patch_keeps_reply [where g = mtu_1280, folded cpe_patch_tcpmss_def]

definition from_tunnel :: "LAFT_NAT_INFO \<Rightarrow> u8 list \<Rightarrow> skbuff \<Rightarrow> bool" where
  "from_tunnel L p skb \<longleftrightarrow> (\<exists>src. skb_data skb = ipv6_header (word_of_nat (length p)) IPINIP src (IPv6LocalAddr L) @ p
     \<and> length src = 16 \<and> src \<noteq> IPv6LocalAddr L)"

lemma ipv6handle_tunnelled:
  assumes "from_tunnel (laft m) p skb" "lease_bytes (laft m)" "length p < 2 ^ 16"
    and "cpe_patch_tcpmss p (length p) = Some p'" "nathandle (psd_ok e) p' (T, m) = Some (st', r, x)"
  shows "skbuf_handle e skb ((T, m), fr) = Some ((st', fr), r, [], if x < 0 then -1 else 0)"
proof -
  obtain src where s: "skb_data skb = ipv6_header (word_of_nat (length p)) IPINIP src (IPv6LocalAddr (laft m)) @ p"
    "length src = 16" "src \<noteq> IPv6LocalAddr (laft m)" using assms(1) by (auto simp: from_tunnel_def)
  have d: "length (IPv6LocalAddr (laft m)) = 16" using assms(2) by (simp add: lease_bytes_def)
  have b: "get8 (skb_data skb) 0 = Some 0x60" by (simp add: s(1) get8_def ipv6_header_def)
  show ?thesis
    using b ipv6_header_fields(2-4) [OF s(2) d] s(3) ipiphandle_tunnelled [OF s(2) d assms(3)] assms(4,5)
    by (simp add: skbuf_handle_def ipv6handle_def s(1))
qed

text \<open>A packet of a session, found by what it is for.\<close>

lemma stream_down_ok:
  assumes I: "cpe_inv c" and L: "lease_bytes (laft (natm c))" and e: "lan_ok e"
    and t: "from_tunnel (laft (natm c)) p skb" and p: "reply_ok p" "34 \<le> length p" "length p < 2 ^ 16" "p ! 9 \<noteq> IPPROTO_ICMP"
    and k: "createpktdownkey p = Some (down_of f)" "flows (natm c) d = Some f"
  obtains (delivered) c' p' s r where "stream_down_hook e c fr skb = Some (c', fr, nf_drop)"
      "cpe_patch_tcpmss p (length p) = Some p'" "tuples (natm c) d = Some s" "flow s = f"
      "restored (laft (natm c)) s p' r" "outq c' = outq c @ [lan_skb r]" "cpe_inv c'" "flows (natm c') = flows (natm c)"
      "shrunk (natm c) (natm c')"
    | (invalid) c' where "stream_down_hook e c fr skb = Some (c', fr, nf_drop)" "outq c' = outq c" "\<not> has_flags p"
proof -
  have I1: "nat_inv (table c) (natm c)" using I by (simp add: cpe_inv_def)
  have L4: "length (PubIP (laft (natm c))) = 4" using L by (simp add: lease_bytes_def)
  obtain p' where p': "cpe_patch_tcpmss p (length p) = Some p'" "reply_ok p'" "length p' = length p" "createpktdownkey p' = Some (down_of f)"
    "has_flags p' = has_flags p" "\<And>i. i < 36 \<Longrightarrow> i < length p \<Longrightarrow> p' ! i = p ! i"
    by (rule patched_reply [OF p(1,2) k(1)]) blast
  have n9: "p' ! 9 = p ! 9" by (rule p'(6); use p(2) in linarith)
  have pf: "down_proto (down_of f) = p ! 9"
    by (rule down_keyE [OF p(1)]) (use k(1) in simp)
  have po: "ported (up_proto (fst f))"
    using p(1,4) pf by (auto simp: reply_ok_def handled_def ported_def down_of_def IPPROTO_TCP_def IPPROTO_UDP_def)
  show ?thesis
  proof (rule nathandle_ok [OF I1 p'(2) L4 p'(4), where mem = "psd_ok e"])
    fix T' m' d' s r
    assume n: "nathandle (psd_ok e) p' (table c, natm c) = Some ((T', m'), r, 1)" "tuples (natm c) d' = Some s"
      "down_of (flow s) = down_of f" "restored (laft (natm c)) s p' r" "nat_inv T' m'" "shrunk (natm c) m'"
      "p' ! 9 \<noteq> IPPROTO_ICMP \<Longrightarrow> flows m' = flows (natm c)"
    have "flows (natm c) d' = Some (flow s)" using n(2) by (simp add: flows_def)
    then have "d' = d"
      using down_key_unique [OF I1 k(2) _ _ po, of d' "flow s"] n(3) by simp
    then have sf: "tuples (natm c) d = Some s" "flow s = f" using n(2) k(2) by (simp_all add: flows_def)
    let ?c = "c\<lparr>table := T', natm := m', outq := outq c @ [lan_skb r]\<rparr>"
    have "stream_down_hook e c fr skb = Some (?c, fr, nf_drop)"
      using ipv6handle_tunnelled [OF t L p(3) p'(1) n(1)] e by (simp add: stream_down_hook_def)
    then show ?thesis
      by (rule delivered [OF _ p'(1) sf n(4)]) (use n(5-7) n9 p(4) in \<open>simp_all add: cpe_inv_def\<close>)
  next
    assume "nathandle (psd_ok e) p' (table c, natm c) = Some ((table c, natm c), p', - 1)"
      "\<And>d f'. flows (natm c) d = Some f' \<Longrightarrow> down_of f' \<noteq> down_of f"
    then show ?thesis using k(2) by blast
  next
    fix T' m' r
    assume n: "nathandle (psd_ok e) p' (table c, natm c) = Some ((T', m'), r, - 1)" "\<not> has_flags p'"
    have "stream_down_hook e c fr skb = Some (c\<lparr>table := T', natm := m', outq := outq c @ []\<rparr>, fr, nf_drop)"
      using ipv6handle_tunnelled [OF t L p(3) p'(1) n(1)] by (simp add: stream_down_hook_def)
    then show ?thesis by (rule invalid) (use n(2) p'(5) in simp_all)
  qed
qed

end
