(* ===== verification/CpeSteps.thy ===== *)
theory CpeSteps
  imports DownHook
begin

text \<open>
  The box as a whole: packets in both directions, the two timers, in any order.  The theorems say
  that its address translation stays consistent, what becomes of a packet and of the reply to it,
  and how long a session lives.
\<close>

section \<open>The way up keeps the state consistent\<close>

definition session_proto :: "natmem \<Rightarrow> nat \<Rightarrow> u8 \<Rightarrow> bool" where
  "session_proto m d q \<longleftrightarrow> (\<forall>f. flows m d = Some f \<longrightarrow> up_proto (fst f) = q)"

lemma session_proto_shrunk: "session_proto m d q \<Longrightarrow> shrunk m m' \<Longrightarrow> session_proto m' d q"
  unfolding session_proto_def shrunk_def by (metis option.distinct(1))

lemma transport_inv:
  assumes I: "nat_inv T m" and t: "update_transport_header new skb d off (T, m) = Some (new', (T', m'), r)"
    and q: "get8 skb 9 = Some q" "session_proto m d q"
  shows "nat_inv T' m' \<and> shrunk m m'"
proof -
  obtain s where s: "tuples m d = Some s" using t by (auto simp: update_transport_header_def option_simps)
  have pr: "prot s = q" using q(2) s by (auto simp: session_proto_def flows_def flow_def)
  consider (t) "q = IPPROTO_TCP" | (u) "q = IPPROTO_UDP" | (i) "q = IPPROTO_ICMP" | (n) "q \<notin> {IPPROTO_TCP, IPPROTO_UDP, IPPROTO_ICMP}" by blast
  then show ?thesis
  proof cases
    case t': t
    obtain x where x: "tcp_pkt_track skb d IP_CT_DIR_ORIGINAL (T, m) = Some ((T', m'), x)"
      using t s q(1) t' by (auto simp: update_transport_header_def option_simps)
    have pt: "prot s = 0x06" using pr t' by (simp add: IPPROTO_TCP_def)
    have l: "34 \<le> length skb" using x s by (auto simp: tcp_pkt_track_def option_simps get8_def split: if_splits)
    show ?thesis
      by (rule tcp_pkt_track_ok [OF I s pt l, where dir = IP_CT_DIR_ORIGINAL]) (use x in auto)
  next
    case u
    obtain m2 where m2: "udp_pkt_track d m = Some m2" "nat_inv T m2" "shrunk m m2"
      by (rule udp_pkt_track_ok [OF I s]) blast
    then show ?thesis using t s q(1) u protos by (auto simp: update_transport_header_def option_simps)
  next
    case i
    obtain T2 m2 where m2: "icmp_pkt_track d IP_CT_DIR_ORIGINAL (T, m) = Some (T2, m2)" "nat_inv T2 m2" "shrunk m m2"
      by (rule icmp_pkt_track_ok [OF I s, where dir = IP_CT_DIR_ORIGINAL]) blast
    then show ?thesis using t s q(1) i protos by (auto simp: update_transport_header_def option_simps)
  next
    case n
    then show ?thesis using t s q(1) I by (auto simp: update_transport_header_def option_simps)
  qed
qed

definition kept_by :: "u8 \<Rightarrow> u8 list \<Rightarrow> nat \<Rightarrow> dbtable \<times> natmem \<Rightarrow> (dbtable \<times> natmem) \<times> skbuff list \<times> int \<Rightarrow> bool" where
  "kept_by q skb d st y \<longleftrightarrow> (get8 skb 9 = Some q \<longrightarrow> nat_inv (fst st) (snd st) \<longrightarrow> session_proto (snd st) d q \<longrightarrow>
     nat_inv (fst (fst y)) (snd (fst y)) \<and> shrunk (snd st) (snd (fst y)))"

lemma frag_up_kept:
  assumes "frag_up_loop e cap skb d k ident left off st = Some y"
  shows "kept_by q skb d st y"
proof (rule frag_up_loop.raw_induct [where P = "\<lambda>e cap skb d k ident left off st y. kept_by q skb d st y", OF _ assms], goal_cases)
  case (1 loop e cap skb d k ident left off st y)
  show ?case unfolding kept_by_def
  proof (intro impI)
    assume q: "get8 skb 9 = Some q" and I: "nat_inv (fst st) (snd st)" and sp: "session_proto (snd st) d q"
    note IH = 1(1) and eq = 1(2)
    obtain st' out ret where y: "y = (st', out, ret)" by (cases y)
    show "nat_inv (fst (fst y)) (snd (fst y)) \<and> shrunk (snd st) (snd (fst y))"
    proof (cases "left > 0 \<and> buf_ok e k")
      case False
      then have "fst y = st" using eq by (auto simp: Let_def split: if_splits)
      then show ?thesis using I by simp
    next
      case True
      define len where "len = (if unat left > sub32 cap 48 then word_of_nat (sub32 cap 48) else left)"
      obtain payload where pl: "getn skb (unat off) (unat len) = Some payload"
        using eq True by (auto simp: Let_def len_def option_simps)
      define new where "new = construct_ipv6_header (laft (snd st)) (len + 8) NEXTHDR_FRAGMENT @ replicate 8 0 @ payload"
      define first where "first = (if ident = 0
                   then do { new \<leftarrow> update_network_header e (laft (snd st)) new (IP6_HLEN + IP6F_HLEN);
                             (new, st, r) \<leftarrow> update_transport_header new skb d IP6F_HLEN st;
                             Some (new, st, r, random32 e k) }
                   else Some (new, st, 0, ident))"
      have eq': "(do { (new, st, r, ident) \<leftarrow> first;
          if r = -1 then Some (st, [], -1)
          else do { let left = left - len;
                    new \<leftarrow> put new IP6_HLEN (construct_frag_header (if left > 0 then off OR 1 else off) ident);
                    (st, out, ret) \<leftarrow> loop e cap skb d (Suc k) ident left (off + len) st;
                    Some (st, tunnel_skb new # out, ret) } }) = Some (st', out, ret)"
        using eq [unfolded y] True pl unfolding first_def new_def len_def Let_def by simp
      obtain n1 st1 r1 id1 where f: "first = Some (n1, st1, r1, id1)"
        using eq' by (cases first) auto
      have s1: "nat_inv (fst st1) (snd st1) \<and> shrunk (snd st) (snd st1)"
      proof (cases "ident = 0")
        case True
        obtain new1 where "update_transport_header new1 skb d IP6F_HLEN (fst st, snd st) = Some (n1, (fst st1, snd st1), r1)"
          using f True by (auto simp: first_def option_simps)
        then show ?thesis by (rule transport_inv [OF I _ q sp])
      next
        case False
        then show ?thesis using f I by (simp add: first_def)
      qed
      show ?thesis
      proof (cases "r1 = -1")
        case True
        then show ?thesis using eq' f s1 y by auto
      next
        case False
        obtain n2 out2 ret2 where l: "loop e cap skb d (Suc k) id1 (left - len) (off + len) st1 = Some (st', out2, ret2)"
          using eq' f False by (auto simp: Let_def option_simps)
        have "nat_inv (fst st') (snd st') \<and> shrunk (snd st1) (snd st')"
          using IH [OF l] s1 sp session_proto_shrunk q by (auto simp: kept_by_def)
        then show ?thesis using s1 y shrunk_trans by auto
      qed
    qed
  qed
qed

lemma frag_up_inv:
  assumes "frag_up_loop e cap skb d k ident left off st = Some y" "get8 skb 9 = Some q"
    and "nat_inv (fst st) (snd st)" "session_proto (snd st) d q"
  shows "nat_inv (fst (fst y)) (snd (fst y)) \<and> shrunk (snd st) (snd (fst y))"
  using frag_up_kept [OF assms(1), of q] assms(2-4) by (simp add: kept_by_def)

text \<open>
  What a packet that opens a session needs: memory for the session, and, when it is TCP, a counter of ports that does not
  say there is a port when there is none.
\<close>

definition session_room :: "cpe_env \<Rightarrow> cpe \<Rightarrow> skbuff \<Rightarrow> bool" where
  "session_room e c skb =
     (case get_hash_data_up (skb_data skb) of
        Some (Some up) \<Rightarrow> find_session (table c) (Up up) PKT_UP (natm c) = Some None
          \<longrightarrow> session_mem e \<and> (up_proto up = IPPROTO_TCP \<longrightarrow> tcp_room (laft (natm c)))
      | _ \<Rightarrow> True)"

lemma stream_up_inv:
  assumes h: "stream_up_hook e c skb = Some (c', v)" and I: "cpe_inv c" and r: "session_room e c skb"
  shows "cpe_inv c' \<and> same_lease (laft (natm c)) (laft (natm c'))"
proof -
  let ?p = "skb_data skb"
  obtain local where f: "ipdst_filter ?p = Some local" using h by (auto simp: stream_up_hook_def Let_def option_simps)
  show ?thesis
  proof (cases local)
    case True
    then show ?thesis using h f I by (simp add: stream_up_hook_def)
  next
    case False
    obtain msg ok where l: "stream_len_check ?p = Some (msg, ok)"
      using h f False by (auto simp: stream_up_hook_def Let_def option_simps)
    define c0 where "c0 = (case msg of None \<Rightarrow> c | Some m \<Rightarrow> c\<lparr>reports := reports c @ [m]\<rparr>)"
    have c0: "cpe_inv c0" "natm c0 = natm c" "table c0 = table c"
      using I by (simp_all add: c0_def cpe_inv_def split: option.splits)
    show ?thesis
    proof (cases "ok < 0")
      case True
      then show ?thesis using h f False l c0(1,2) by (simp add: stream_up_hook_def c0_def [symmetric])
    next
      case ok: False
      obtain ku where u: "get_hash_data_up ?p = Some ku"
        using h f False l ok by (auto simp: stream_up_hook_def Let_def option_simps)
      show ?thesis
      proof (cases ku)
        case None
        then show ?thesis using h f False l ok u c0(1,2) by (simp add: stream_up_hook_def c0_def [symmetric])
      next
        case (Some up)
        have u': "get_hash_data_up ?p = Some (Some up)" using u Some by simp
        have g9: "get8 ?p 9 = Some (up_proto up)" by (rule up_dataE [OF u'])
        have room: "up_proto up = IPPROTO_TCP \<Longrightarrow> tcp_room (laft (natm c0))" "session_mem e"
          if "find_session (table c0) (Up up) PKT_UP (natm c0) = Some None"
          using r u' that c0(2,3) by (simp_all add: session_room_def)
        have go: "cpe_inv c' \<and> same_lease (laft (natm c)) (laft (natm c'))"
          if s: "search_nat_hashtable e c0 ?p up = Some (c1, Some d)" "cpe_inv c1" "flows (natm c1) d = Some (up, np)"
            "same_lease (laft (natm c)) (laft (natm c1))" for c1 d np
        proof -
          obtain T m out ret where e: "encap e skb d 1280 (table c1, natm c1) = Some ((T, m), out, ret)"
            "table c' = T" "natm c' = m"
            using h f False l ok u' s(1)
            by (auto simp: stream_up_hook_def c0_def [symmetric] option_simps Let_def split: if_splits)
          have I1: "nat_inv (table c1) (natm c1)" using s(2) by (simp add: cpe_inv_def)
          obtain p' where p': "cpe_patch_tcpmss ?p (length ?p) = Some p'" using e(1) by (auto simp: encap_def option_simps)
          have n9: "get8 p' 9 = Some (up_proto up)"
          proof (cases "p' = ?p")
            case False
            obtain i where i: "mss_scan ?p (length ?p) 40 0 = Some (Some i)" "i \<noteq> 0" "patch_mss mtu_1280 ?p i = Some p'"
              by (rule patch_cases [OF p' [unfolded cpe_patch_tcpmss_def] False])
            obtain mss where m: "fix_msscksum ?p 36 (i + 2) (usMtu mtu_1280 - 80) = Some p'"
              by (rule patch_mss_cases [OF i(3) False])
            have i40: "40 \<le> i + 2" using mss_scan_found [OF i(1,2)] by simp
            show ?thesis
              using fix_msscksum_ok(1) [OF m i40] fix_msscksum_ok(3) [OF m i40, of 9] g9 i40 by (auto simp: get8_def split: if_splits)
          qed (use g9 in simp)
          have sp: "session_proto (natm c1) d (up_proto up)" using s(3) by (simp add: session_proto_def)
          have "nat_inv T m \<and> shrunk (natm c1) m"
          proof (cases "normal_packet_handl e p' d (table c1, natm c1) = Some ((T, m), out, ret)")
            case True
            then show ?thesis using I1 transport_inv [OF I1 _ n9 sp]
              by (auto simp: normal_packet_handl_def Let_def option_simps split: if_splits)
          next
            case False
            have r: "ipv6_frag_handl e p' d 1280 (table c1, natm c1) = Some ((T, m), out, ret)
              \<or> T = table c1 \<and> m = natm c1"
              using e(1) p' False by (auto simp: encap_def split: if_splits)
            then show ?thesis
              using I1 frag_up_inv [where e = e and cap = 1280 and skb = p' and d = d and st = "(table c1, natm c1)" and y = "((T, m), out, ret)"] n9 sp
              by (auto simp: ipv6_frag_handl_def)
          qed
          then show ?thesis using s(4) e(2,3) by (auto simp: cpe_inv_def shrunk_def same_lease_def)
        qed
        show ?thesis
        proof (rule search_ok [OF c0(1) room u'])
          fix d p
          assume "search_nat_hashtable e c0 ?p up = Some (c0, Some d)" "flows (natm c0) d = Some (up, p)"
          then show ?thesis using go c0(1,2) by simp
        next
          assume "search_nat_hashtable e c0 ?p up = Some (c0, None)"
          then show ?thesis using h f False l ok u' c0(1,2) by (simp add: stream_up_hook_def c0_def [symmetric])
        next
          fix c1 p
          assume "search_nat_hashtable e c0 ?p up = Some (c1, Some (next_tuple (natm c0)))" "cpe_inv c1"
            "flows (natm c1) (next_tuple (natm c0)) = Some (up, p)" "new_session c0 c1 up p"
          then show ?thesis using go c0(2) by (simp add: new_session_def Let_def)
        qed
      qed
    qed
  qed
qed

end
