(* ===== verification/CpeService.thy ===== *)
theory CpeService
  imports CpeSteps
begin

text \<open>
  The customer's box from its start, driven by packets, timers and netlink messages in any order, and what it promises:
  its sessions have ports of their own as long as the run is orderly, and idle sessions are forgotten.
\<close>

section \<open>The box and its steps\<close>

text \<open>In \<open>netlink.c\<close> the lease is zero until the first message sets it.\<close>

definition no_lease :: LAFT_NAT_INFO where
  "no_lease = \<lparr>IPv6LocalAddr = replicate 16 0, IPv6RemoteAddr = replicate 16 0, PubIP = replicate 4 0, LowPort = 0,
     HighPort = 0, tcpport = Null, udpport = Null, tcp_port_used = 0, udp_port_used = 0\<rparr>"

text \<open>The module is loaded, and gets its lease by one netlink message.\<close>

definition cpe_boot :: "(nat \<Rightarrow> bool) \<Rightarrow> u8 list \<Rightarrow> u8 list \<Rightarrow> (cpe \<times> cpefrag) option" where
  "cpe_boot frag_mem buf msg =
     do { (c, fr) \<leftarrow> cpe_modules_init True True frag_mem \<lparr>laft = no_lease, tuples = Map.empty, next_tuple = 0\<rparr>
                       \<lparr>last_low = 0, last_id = 0\<rparr> buf;
          fr \<leftarrow> fr;
          l \<leftarrow> nl_pcp_data_ready True True msg (laft (natm c));
          Some (c\<lparr>natm := (natm c)\<lparr>laft := l\<rparr>\<rparr>, fr) }"

text \<open>
  What then happens to the box, in any order: packets from the hosts and from the tunnel, the two timers, and further
  netlink messages, each with what its surroundings give it.
\<close>

datatype cpe_event =
    PacketUp cpe_env skbuff
  | PacketDown down_env skbuff
  | SessionTimer
  | FragTimer
  | LeaseMessage bool bool "u8 list"

fun cpe_do :: "cpe_event \<Rightarrow> cpe \<times> cpefrag \<Rightarrow> (cpe \<times> cpefrag) option" where
  "cpe_do (PacketUp e skb) (c, fr) = do { (c, v) \<leftarrow> stream_up_hook e c skb; Some (c, fr) }"
| "cpe_do (PacketDown e skb) (c, fr) = do { (c, fr, v) \<leftarrow> stream_down_hook e c fr skb; Some (c, fr) }"
| "cpe_do SessionTimer (c, fr) = do { c \<leftarrow> cpe_timer c; Some (c, fr) }"
| "cpe_do FragTimer (c, fr) = Some (c, cpe_fragtimeout fr)"
| "cpe_do (LeaseMessage tcp_ok udp_ok msg) (c, fr) =
     do { l \<leftarrow> nl_pcp_data_ready tcp_ok udp_ok msg (laft (natm c));
          Some (c\<lparr>natm := (natm c)\<lparr>laft := l\<rparr>\<rparr>, fr) }"

primrec cpe_run :: "cpe_event list \<Rightarrow> cpe \<times> cpefrag \<Rightarrow> (cpe \<times> cpefrag) option" where
  "cpe_run [] s = Some s"
| "cpe_run (ev # evs) s = do { s \<leftarrow> cpe_do ev s; cpe_run evs s }"

text \<open>
  The two things that can break the sharing of ports, at the event where they happen.  A packet opens a session without
  memory for it, or, for TCP, when every port is taken and the counter of ports has fallen below their number (a reset of
  a session makes it fall, and the ports run over the end of the lease).  A netlink message replaces the lease under the
  sessions there are.
\<close>

fun undisturbed :: "cpe_event \<Rightarrow> cpe \<Rightarrow> bool" where
  "undisturbed (PacketUp e skb) c = session_room e c skb"
| "undisturbed (LeaseMessage tcp_ok udp_ok msg) c = (nl_pcp_data_ready tcp_ok udp_ok msg (laft (natm c)) = Some (laft (natm c)))"
| "undisturbed _ c = True"

primrec orderly :: "cpe_event list \<Rightarrow> cpe \<times> cpefrag \<Rightarrow> bool" where
  "orderly [] s = True"
| "orderly (ev # evs) s =
     (undisturbed ev (fst s) \<and> (case cpe_do ev s of None \<Rightarrow> True | Some s' \<Rightarrow> orderly evs s'))"

lemma cpe_timer_ok:
  assumes "cpe_inv c"
  obtains c' where "cpe_timer c = Some c'" "cpe_inv c'" "ageing.aged (natm c) (natm c') (\<lambda>d. 2)"
    "shrunk (natm c) (natm c')" "outq c' = outq c" "reports c' = reports c" "icmps c' = icmps c"
proof -
  obtain T' m' where t: "sessiontmrhandle (table c) (natm c) = Some (T', m')" "nat_inv T' m'" "ageing.aged (natm c) m' (\<lambda>d. 2)"
    "shrunk (natm c) m'" by (rule sessiontmrhandle_ok [OF assms [unfolded cpe_inv_def]]) blast
  show ?thesis
    by (rule that [of "c\<lparr>table := T', natm := m'\<rparr>"]) (use t in \<open>simp_all add: cpe_timer_def cpe_inv_def\<close>)
qed

lemma same_lease_trans: "same_lease a b \<Longrightarrow> same_lease b c \<Longrightarrow> same_lease a c"
  by (simp add: same_lease_def)

lemma cpe_do_ok:
  assumes "cpe_do ev (c, fr) = Some (c', fr')" "undisturbed ev c" "cpe_inv c"
  shows "cpe_inv c' \<and> same_lease (laft (natm c)) (laft (natm c'))"
proof (cases ev)
  case (PacketUp e skb)
  then show ?thesis using assms stream_up_inv [of e c skb c'] by (auto simp: option_simps)
next
  case (PacketDown d skb)
  then show ?thesis using assms stream_down_inv [of d c fr skb c' fr'] by (auto simp: option_simps shrunk_def)
next
  case SessionTimer
  then show ?thesis using assms cpe_timer_ok [of c] by (auto simp: option_simps shrunk_def)
next
  case (LeaseMessage a b msg)
  then have "c' = c" using assms(1,2) by (auto simp: option_simps)
  then show ?thesis using assms(3) by simp
qed (use assms in simp)

lemma cpe_run_ok:
  assumes "cpe_run evs s = Some (c', fr')" "orderly evs s" "cpe_inv (fst s)"
  shows "cpe_inv c' \<and> same_lease (laft (natm (fst s))) (laft (natm c'))"
  using assms
proof (induction evs arbitrary: s)
  case (Cons ev evs)
  obtain c fr c1 fr1 where s: "s = (c, fr)" "cpe_do ev (c, fr) = Some (c1, fr1)" "cpe_run evs (c1, fr1) = Some (c', fr')"
    using Cons.prems(1) by (cases s) (auto simp: option_simps)
  have "cpe_inv c1 \<and> same_lease (laft (natm c)) (laft (natm c1))"
    using cpe_do_ok [OF s(2)] Cons.prems(2,3) s(1) by simp
  moreover have "orderly evs (c1, fr1)" using Cons.prems(2) s(1,2) by simp
  ultimately show ?case using Cons.IH [OF s(3)] s(1) same_lease_trans by auto
qed simp

section \<open>The start\<close>

lemma lease_message:
  assumes "nl_pcp_data_ready True True msg no_lease = Some L" "tcpport L \<noteq> Null" "LowPort L \<le> HighPort L"
    "32 dvd block L" "block L < 65536"
  shows "lease_ok L \<and> lease_bytes L \<and> tcp_port_used L = 0 \<and> udp_port_used L = 0 \<and> tcp.taken L = {} \<and> udp.taken L = {}"
proof -
  define n where "n = (int (unat (HighPort L)) - int (unat (LowPort L)) + 1) div 8 + 1"
  have b: "int (unat (HighPort L)) - int (unat (LowPort L)) + 1 = int (block L)"
    using assms(3) by (simp add: block_def word_le_nat_alt)
  have n: "n = int (block L div 8) + 1" unfolding n_def b by simp
  have m: "tcpport L = kmalloc_ints True n" "udpport L = kmalloc_ints True n" "tcp_port_used L = 0" "udp_port_used L = 0"
    "length (PubIP L) = 4" "length (IPv6LocalAddr L) = 16" "length (IPv6RemoteAddr L) = 16"
    using assms(1,2) by (auto simp: nl_pcp_data_ready_def no_lease_def n_def Let_def option_simps getn_def kmalloc_ints_def split: if_splits)
  have w: "kmalloc_ints True n = Ints (replicate ((block L div 8 + 1) div 4) 0)"
    unfolding n by (simp add: kmalloc_ints_def nat_add_distrib)
  obtain k where k: "block L = 32 * k" using assms(4) by (rule dvdE)
  have "map_for (kmalloc_ints True n) (block L)" unfolding w map_for_def using k by simp
  moreover have "taken_ports (kmalloc_ints True n) = {}" unfolding w by (simp add: taken_ports_def port_bit_def)
  ultimately show ?thesis using m assms(3,5) by (simp add: lease_ok_def lease_bytes_def tcp.taken_def udp.taken_def)
qed

lemma empty_nat_inv:
  assumes "lease_ok L" "tcp_port_used L = 0" "udp_port_used L = 0" "tcp.taken L = {}" "udp.taken L = {}"
  shows "nat_inv \<lparr>Bucket = replicate MAX_ENTRY [], next_node = 0\<rparr> \<lparr>laft = L, tuples = Map.empty, next_tuple = 0\<rparr>"
proof -
  have "flows \<lparr>laft = L, tuples = Map.empty, next_tuple = 0\<rparr> = Map.empty" by (auto simp: flows_def)
  moreover have "flows_ok L 0 Map.empty" using assms by (auto simp: flows_ok_def ports_taken_def)
  moreover have "links_ok (\<lambda>_. 0) (\<lambda>_. 0) h1 h2 {} (replicate MAX_ENTRY [])" for h1 h2
    by (auto simp: links_ok_def)
  ultimately show ?thesis
    by (auto simp: nat_inv_def sessions_ok_def states_ok_def sessions_def table_ok_def MAX_ENTRY_def)
qed

text \<open>A lease of whole words of ports.\<close>

definition whole_block :: "LAFT_NAT_INFO \<Rightarrow> bool" where
  "whole_block L \<longleftrightarrow> tcpport L \<noteq> Null \<and> LowPort L \<le> HighPort L \<and> 32 dvd block L \<and> block L < 65536"

lemma cpe_boot_ok:
  assumes "cpe_boot frag_mem buf msg = Some (c, fr)" "whole_block (laft (natm c))"
  shows "cpe_inv c" "lease_bytes (laft (natm c))" "flows (natm c) = Map.empty"
    "nl_pcp_data_ready True True msg no_lease = Some (laft (natm c))"
proof -
  obtain L where L: "nl_pcp_data_ready True True msg no_lease = Some L"
    "c = \<lparr>natm = \<lparr>laft = L, tuples = Map.empty, next_tuple = 0\<rparr>, table = \<lparr>Bucket = replicate MAX_ENTRY [], next_node = 0\<rparr>,
       icmps = \<lparr>last_low = 0, last_id = 0\<rparr>, outq = [], reports = []\<rparr>"
    using assms(1) by (auto simp: cpe_boot_def cpe_modules_init_def DBKeyHashTableCreate_def option_simps)
  have l: "laft (natm c) = L" using L(2) by simp
  note w = lease_message [OF L(1)] and b = assms(2) [unfolded l whole_block_def]
  show "cpe_inv c" using empty_nat_inv [of L] w b L(2) by (simp add: cpe_inv_def)
  show "lease_bytes (laft (natm c))" using w b l by simp
  show "flows (natm c) = Map.empty" using L(2) by (auto simp: flows_def)
  show "nl_pcp_data_ready True True msg no_lease = Some (laft (natm c))" using L(1) l by simp
qed

section \<open>Ports are never shared\<close>

definition ports_apart :: "natmem \<Rightarrow> bool" where
  "ports_apart m \<longleftrightarrow>
     (\<forall>d d' f f'. flows m d = Some f \<longrightarrow> flows m d' = Some f' \<longrightarrow> up_proto (fst f) = up_proto (fst f')
        \<longrightarrow> ported (up_proto (fst f)) \<longrightarrow> snd f = snd f' \<longrightarrow> d = d')
     \<and> (\<forall>d f. flows m d = Some f \<longrightarrow> ported (up_proto (fst f)) \<longrightarrow> LowPort (laft m) \<le> snd f \<and> snd f \<le> HighPort (laft m))"

definition sessions_found :: "cpe \<Rightarrow> bool" where
  "sessions_found c \<longleftrightarrow> (\<forall>d f. flows (natm c) d = Some f \<longrightarrow> ported (up_proto (fst f)) \<longrightarrow>
     find_session (table c) (Up (fst f)) PKT_UP (natm c) = Some (Some d)
     \<and> find_session (table c) (Down (down_of f)) PKT_DOWN (natm c) = Some (Some d))"

lemma inv_ports_apart: "cpe_inv c \<Longrightarrow> ports_apart (natm c)"
proof -
  assume "cpe_inv c"
  then have F: "flows_ok (laft (natm c)) (next_tuple (natm c)) (flows (natm c))"
    by (simp add: cpe_inv_def nat_inv_def sessions_ok_def)
  note u = flows_ok_unique(2) [OF F]
  have "\<forall>d k p. flows (natm c) d = Some (k, p) \<longrightarrow> ported (up_proto k) \<longrightarrow> LowPort (laft (natm c)) \<le> p \<and> p \<le> HighPort (laft (natm c))"
    using F [unfolded flows_ok_def] by (elim conjE)
  then show ?thesis using u by (fastforce simp: ports_apart_def)
qed

lemma inv_sessions_found:
  assumes "cpe_inv c" shows "sessions_found c"
  unfolding sessions_found_def
proof (intro allI impI conjI)
  fix d f assume f: "flows (natm c) d = Some f" "ported (up_proto (fst f))"
  have I: "nat_inv (table c) (natm c)" using assms by (simp add: cpe_inv_def)
  have f': "flows (natm c) d = Some (fst f, snd f)" using f(1) by simp
  have "(THE d. \<exists>p. flows (natm c) d = Some (fst f, p)) = d"
    by (rule the_equality) (use f' flows_ok_unique(1) [OF nat_invD(4) [OF I]] in blast)+
  then show "find_session (table c) (Up (fst f)) PKT_UP (natm c) = Some (Some d)"
    using find_up [OF I, of "fst f"] f' by (simp (no_asm_simp)) blast
  show "find_session (table c) (Down (down_of f)) PKT_DOWN (natm c) = Some (Some d)"
  proof (rule find_down [OF I, of "down_of f"])
    fix d' f' assume r: "find_session (table c) (Down (down_of f)) PKT_DOWN (natm c) = Some (Some d')"
      "flows (natm c) d' = Some f'" "down_of f' = down_of f"
    have "d = d'" by (rule down_key_unique [OF I f(1) r(2) r(3) [symmetric] f(2)])
    then show ?thesis using r(1) by simp
  next
    assume "\<And>d f'. flows (natm c) d = Some f' \<Longrightarrow> down_of f' \<noteq> down_of f"
    then show ?thesis using f(1) by blast
  qed
qed

text \<open>C5: The box has got a lease of whole words of ports (a multiple of 32).  Then, whatever packets in both directions, timers
  and netlink messages follow, in any order, no two of its TCP sessions, and no two of its UDP sessions, have the same port,
  every port is one of the lease, and each of these sessions is found by both of its keys; as long as every packet that opens
  a session finds memory for it, and, for TCP, a counter of ports that has not fallen below the number of
  taken ports with none free (there the next session gets a port outside the lease), and no later message replaces the lease.\<close>

theorem ports_never_shared:
  assumes "cpe_boot frag_mem buf msg = Some (c0, fr0)" "whole_block (laft (natm c0))"
    "cpe_run evs (c0, fr0) = Some (c, fr)" "orderly evs (c0, fr0)"
  shows "ports_apart (natm c) \<and> sessions_found c \<and> same_lease (laft (natm c0)) (laft (natm c))"
proof -
  have "cpe_inv (fst (c0, fr0))" using cpe_boot_ok(1) [OF assms(1,2)] by simp
  then have "cpe_inv c" "same_lease (laft (natm c0)) (laft (natm c))" using cpe_run_ok [OF assms(3,4)] by simp_all
  then show ?thesis using inv_ports_apart inv_sessions_found by blast
qed

section \<open>Idle sessions\<close>

primrec cpe_timers :: "nat \<Rightarrow> cpe \<Rightarrow> cpe option" where
  "cpe_timers 0 c = Some c"
| "cpe_timers (Suc n) c = do { c \<leftarrow> cpe_timer c; cpe_timers n c }"

lemma shrunk_sessions: "shrunk m m' \<Longrightarrow> sessions m' \<subseteq> sessions m"
proof
  fix d assume a: "shrunk m m'" "d \<in> sessions m'"
  have "flows m' d = flows m d \<or> flows m' d = None" using a(1) by (simp add: shrunk_def)
  then show "d \<in> sessions m" using a(2) by (auto simp: sessions_flows)
qed

lemma cpe_timers_ok:
  assumes "cpe_inv c"
  shows "\<exists>c'. cpe_timers n c = Some c' \<and> cpe_inv c' \<and> shrunk (natm c) (natm c')
    \<and> (\<forall>d \<in> sessions (natm c'). 0 < time_left (natm c) d \<longrightarrow>
         0 < time_left (natm c') d \<and> time_left (natm c') d \<le> time_left (natm c) d - 10 * int n)
    \<and> (\<forall>d \<in> sessions (natm c). time_left (natm c) d \<le> 0 \<longrightarrow>
         d \<in> sessions (natm c') \<and> time_left (natm c') d = time_left (natm c) d)"
  using assms
proof (induction n arbitrary: c)
  case 0
  then show ?case by simp
next
  case (Suc n)
  obtain c1 where c1: "cpe_timer c = Some c1" "cpe_inv c1" "ageing.aged (natm c) (natm c1) (\<lambda>d. 2)" "shrunk (natm c) (natm c1)"
    by (rule cpe_timer_ok [OF Suc.prems]) blast
  note a = c1(3) [unfolded ageing.aged_def]
  obtain c2 where c2: "cpe_timers n c1 = Some c2" "cpe_inv c2" "shrunk (natm c1) (natm c2)"
    "\<forall>d \<in> sessions (natm c2). 0 < time_left (natm c1) d \<longrightarrow>
       0 < time_left (natm c2) d \<and> time_left (natm c2) d \<le> time_left (natm c1) d - 10 * int n"
    "\<forall>d \<in> sessions (natm c1). time_left (natm c1) d \<le> 0 \<longrightarrow>
       d \<in> sessions (natm c2) \<and> time_left (natm c2) d = time_left (natm c1) d"
    using Suc.IH [OF c1(2)] by blast
  have s: "sessions (natm c2) \<subseteq> sessions (natm c1)"
    using c2(3) by (rule shrunk_sessions)
  have "0 < time_left (natm c2) d \<and> time_left (natm c2) d \<le> time_left (natm c) d - 10 * int (Suc n)"
    if d: "d \<in> sessions (natm c2)" "0 < time_left (natm c) d" for d
  proof -
    have d1: "d \<in> sessions (natm c1)" using d(1) s by blast
    then have "0 < time_left (natm c1) d \<and> time_left (natm c1) d \<le> time_left (natm c) d - 10" using a d(2) by simp
    then show ?thesis using c2(4) d(1) by fastforce
  qed
  moreover have "d \<in> sessions (natm c2) \<and> time_left (natm c2) d = time_left (natm c) d"
    if "d \<in> sessions (natm c)" "time_left (natm c) d \<le> 0" for d
    using a c2(5) that by simp
  ultimately show ?case using c1 c2(1-3) shrunk_trans by auto
qed

text \<open>C31: A session with life time that nothing refreshes is gone, and its port free again, once the timer has run
  once for every ten seconds of it: the timer of five seconds counts twice.\<close>

theorem idle_session_forgotten:
  assumes "cpe_inv c" "flows (natm c) d = Some f" "0 < time_left (natm c) d" "time_left (natm c) d \<le> 10 * int n"
  shows "\<exists>c'. cpe_timers n c = Some c' \<and> cpe_inv c' \<and> flows (natm c') d = None
    \<and> (ported (up_proto (fst f)) \<longrightarrow> offset (laft (natm c)) (snd f) \<notin> ports_taken (laft (natm c')) (up_proto (fst f)))"
proof -
  obtain c' where c': "cpe_timers n c = Some c'" "cpe_inv c'" "shrunk (natm c) (natm c')"
    "\<forall>d \<in> sessions (natm c'). 0 < time_left (natm c) d \<longrightarrow>
         0 < time_left (natm c') d \<and> time_left (natm c') d \<le> time_left (natm c) d - 10 * int n"
    using cpe_timers_ok [OF assms(1)] by blast
  have "d \<notin> sessions (natm c')" using c'(4) assms(3,4) by force
  then have gone: "flows (natm c') d = None" by (auto simp: sessions_def flows_def)
  let ?m = "natm c" and ?m' = "natm c'" and ?q = "up_proto (fst f)"
  have F: "flows_ok (laft ?m) (next_tuple ?m) (flows ?m)" "flows_ok (laft ?m') (next_tuple ?m') (flows ?m')"
    using assms(1) c'(2) by (simp_all add: cpe_inv_def nat_inv_def sessions_ok_def)
  have "offset (laft ?m) (snd f) \<notin> ports_taken (laft ?m') ?q" if po: "ported ?q"
  proof
    assume "offset (laft ?m) (snd f) \<in> ports_taken (laft ?m') ?q"
    moreover have "\<forall>q. ported q \<longrightarrow> ports_taken (laft ?m') q = {offset (laft ?m') p | d k p. flows ?m' d = Some (k, p) \<and> up_proto k = q}"
      using F(2) [unfolded flows_ok_def] by (elim conjE)
    ultimately obtain d' k p where k: "flows ?m' d' = Some (k, p)" "up_proto k = ?q" "offset (laft ?m') p = offset (laft ?m) (snd f)"
      using po by auto
    have m: "flows ?m d' = Some (k, p)" and l: "same_lease (laft ?m) (laft ?m')"
      using c'(3) k(1) unfolding shrunk_def by (metis option.distinct(1))+
    have "\<forall>d f. flows ?m d = Some f \<longrightarrow> ported (up_proto (fst f)) \<longrightarrow> LowPort (laft ?m) \<le> snd f \<and> snd f \<le> HighPort (laft ?m)"
      using inv_ports_apart [OF assms(1)] unfolding ports_apart_def by (rule conjunct2)
    then have r: "LowPort (laft ?m) \<le> p" "LowPort (laft ?m) \<le> snd f"
      using m assms(2) po k(2) by (metis fst_conv snd_conv)+
    have "unat p - unat (LowPort (laft ?m)) = unat (snd f) - unat (LowPort (laft ?m))"
      using k(3) same_block(2) [OF l, of p] by (simp add: offset_def)
    then have "unat p = unat (snd f)" using r unfolding word_le_nat_alt by linarith
    then have "p = snd f" by (rule word_unat_eq_iff [THEN iffD2])
    then have "d' = d" using flows_ok_unique(2) [OF F(1) m, of d "fst f"] assms(2) k(2) po by simp
    then show False using gone k(1) by simp
  qed
  then show ?thesis using c'(1,2) gone by blast
qed

section \<open>A box and a packet\<close>

text \<open>A box with the ports 1024 to 2047 of 1.2.3.4, as it is when the message has come, and a UDP packet of a host.\<close>

definition msg6 :: "u8 list" where
  "msg6 = [56, 0, 0, 0] @ replicate 12 0 @ replicate 16 6 @ replicate 16 1 @ [1, 2, 3, 4] @ [0, 4] @ [255, 7]"

definition lease6 :: LAFT_NAT_INFO where
  "lease6 = \<lparr>IPv6LocalAddr = replicate 16 6, IPv6RemoteAddr = replicate 16 1, PubIP = [1, 2, 3, 4], LowPort = 1024,
     HighPort = 2047, tcpport = Ints (replicate 32 0), udpport = Ints (replicate 32 0), tcp_port_used = 0, udp_port_used = 0\<rparr>"

definition box6 :: cpe where
  "box6 = \<lparr>natm = \<lparr>laft = lease6, tuples = Map.empty, next_tuple = 0\<rparr>,
     table = \<lparr>Bucket = replicate MAX_ENTRY [], next_node = 0\<rparr>, icmps = \<lparr>last_low = 0, last_id = 0\<rparr>, outq = [], reports = []\<rparr>"

definition env6 :: cpe_env where
  "env6 = \<lparr>tuple_ok = True, node1_ok = True, node2_ok = True, buf_ok = (\<lambda>_. True), lin_ok = True,
     random32 = (\<lambda>_. 7), ip_send_check = (\<lambda>h. h)\<rparr>"

definition host_packet :: "u8 \<Rightarrow> u8 \<Rightarrow> u8 list" where
  "host_packet q fl = [0x45, 0, 0, 40, 0, 0, 0, 0, 64, q, 0, 0, 192, 168, 1, 2, 9, 9, 9, 9]
     @ [0x13, 0x88, 0, 53] @ [0, 20, 0, 0] @ [0, 0, 0, 0] @ [0x50, fl, 0, 0] @ [0, 0, 0, 0]"

definition host_skb :: "u8 \<Rightarrow> u8 \<Rightarrow> skbuff" where
  "host_skb q fl = lan_skb (host_packet q fl)"

definition host_key :: "u8 \<Rightarrow> HASH_DATA_UP" where
  "host_key q = \<lparr>up_srcip = 0xC0A80102, up_dstip = 0x09090909, up_oldport = 5000, up_proto = q\<rparr>"

lemma msg6_lease: "nl_pcp_data_ready True True msg6 no_lease = Some lease6"
  by (simp add: nl_pcp_data_ready_def msg6_def no_lease_def lease6_def getn_def ld32_def ld16_def get32_def get16_def nth_append word_cat_eq
     kmalloc_ints_def kfree_ints_def Let_def)

lemma block6: "block lease6 = 1024" by (simp add: block_def lease6_def)

lemma lease6_facts:
  "lease_ok lease6" "lease_bytes lease6" "tcp.taken lease6 = {}" "udp.taken lease6 = {}" "tcp_port_used lease6 = 0" "udp_port_used lease6 = 0"
  "whole_block lease6"
proof -
  show w: "whole_block lease6" using block6 by (simp add: whole_block_def) (simp add: lease6_def)
  show "lease_ok lease6" "lease_bytes lease6" "tcp.taken lease6 = {}" "udp.taken lease6 = {}" "tcp_port_used lease6 = 0" "udp_port_used lease6 = 0"
    using lease_message [OF msg6_lease] w by (simp_all add: whole_block_def)
qed

lemma box6_facts: "cpe_inv box6" "tcp_room (laft (natm box6))" "lease_bytes (laft (natm box6))" "flows (natm box6) = Map.empty"
  "laft (natm box6) = lease6" "outq box6 = []"
  using empty_nat_inv [OF lease6_facts(1)] lease6_facts block6
  by (auto simp: box6_def cpe_inv_def tcp_room_def flows_def intro: exI [of _ 0])

lemma boot6: obtains fr where "cpe_boot (\<lambda>_. True) (replicate 66000 0) msg6 = Some (box6, fr)"
  using msg6_lease
  by (simp add: cpe_boot_def cpe_modules_init_def DBKeyHashTableCreate_def initfragmodule_def ShashCreate_def box6_def Let_def)

lemma env6_ok: "surroundings_ok env6" by (simp add: surroundings_ok_def env_ok_def session_mem_def env6_def csum_ok_def)

lemma host_packet_facts:
  assumes "q = IPPROTO_TCP \<or> q = IPPROTO_UDP" "p = host_packet q fl"
  shows "packet_ok p" "34 \<le> length p" "length p < 2 ^ 16 - 8" "key_of p = Some (host_key q)" "ipdst_filter p = Some False"
    "stream_len_check p = Some (None, 1)" "p ! 9 = q" "p ! 33 = fl" "length p = 40"
  using assms(1) unfolding assms(2)
  by (auto simp: host_packet_def packet_ok_def ip20_def handled_def check_at_def port_at_def key_of_def get_hash_data_up_def
    get8_def get16_def get32_def ld32_def word_cat_eq host_key_def ipdst_filter_def stream_len_check_def Let_def
    IPPROTO_TCP_def IPPROTO_UDP_def IPPROTO_ICMP_def nth_append)

lemma not_used_up: "\<not> used_up (laft (natm box6)) q"
  using block6 by (simp add: box6_facts(5) used_up_def lease6_facts)

text \<open>The first packet of a connection, with a flag of TCP set that the code knows, opens a session.\<close>

lemma first_packet:
  assumes "q = IPPROTO_TCP \<or> q = IPPROTO_UDP" "q = IPPROTO_TCP \<longrightarrow> get_conntrack_index fl \<noteq> 4 \<and> \<not> flag fl TH_RST"
  obtains c d np where "stream_up_hook env6 box6 (host_skb q fl) = Some (c, nf_stolen)" "cpe_inv c" "flows (natm c) d = Some (host_key q, np)"
    "0 < time_left (natm c) d" "LowPort lease6 \<le> np" "np \<le> HighPort lease6" "same_lease lease6 (laft (natm c))"
proof -
  have s: "skb_data (host_skb q fl) = host_packet q fl" by (simp add: host_skb_def lan_skb_def)
  note p = host_packet_facts [OF assms(1) s]
  have h: "has_flags (skb_data (host_skb q fl))" "\<not> resets (skb_data (host_skb q fl))"
    using assms(2) unfolding has_flags_def resets_def p(7,8) by simp_all
  have q: "ported (up_proto (host_key q))" using assms(1) by (auto simp: host_key_def ported_def IPPROTO_TCP_def IPPROTO_UDP_def)
  show ?thesis
  proof (rule stream_up_ok [OF box6_facts(1-3) env6_ok p(1-6)], goal_cases)
    case (1 c d np p' r out)
    show ?case by (rule that [OF 1(1,2)]) (use 1 h q box6_facts(5) in auto)
  next
    case 2
    then show ?case using not_used_up by simp
  next
    case (3 c' d np)
    then show ?case using h by simp
  qed
qed

theorem ports_never_shared_witness:
  "\<exists>fr c fr' d. cpe_boot (\<lambda>_. True) (replicate 66000 0) msg6 = Some (box6, fr)
    \<and> cpe_run [PacketUp env6 (host_skb IPPROTO_UDP 0), LeaseMessage True True [], FragTimer] (box6, fr) = Some (c, fr')
    \<and> flows (natm c) d \<noteq> None \<and> ports_apart (natm c) \<and> sessions_found c"
proof -
  let ?evs = "[PacketUp env6 (host_skb IPPROTO_UDP 0), LeaseMessage True True [], FragTimer]"
  obtain fr where b: "cpe_boot (\<lambda>_. True) (replicate 66000 0) msg6 = Some (box6, fr)" by (rule boot6)
  obtain c d np where c: "stream_up_hook env6 box6 (host_skb IPPROTO_UDP 0) = Some (c, nf_stolen)"
    "flows (natm c) d = Some (host_key IPPROTO_UDP, np)"
    by (rule first_packet [of IPPROTO_UDP 0]) (simp_all add: IPPROTO_UDP_def IPPROTO_TCP_def)
  have n: "nl_pcp_data_ready True True [] (laft (natm c)) = Some (laft (natm c))" by (simp add: nl_pcp_data_ready_def)
  have r: "cpe_run ?evs (box6, fr) = Some (c, cpe_fragtimeout fr)" using c(1) n by simp
  have "session_room env6 box6 (host_skb IPPROTO_UDP 0)"
    using env6_ok box6_facts(2) by (auto simp: session_room_def surroundings_ok_def env_ok_def split: option.splits)
  then have o: "orderly ?evs (box6, fr)" using c(1) n by simp
  have w: "whole_block (laft (natm box6))" using lease6_facts(7) box6_facts(5) by simp
  show ?thesis using ports_never_shared [OF b w r o] b r c(2) by blast
qed

theorem idle_session_forgotten_witness:
  "\<exists>c d np n c'. stream_up_hook env6 box6 (host_skb IPPROTO_TCP 2) = Some (c, nf_stolen)
    \<and> flows (natm c) d = Some (host_key IPPROTO_TCP, np) \<and> cpe_timers n c = Some c' \<and> flows (natm c') d = None"
proof -
  obtain c d np where c: "stream_up_hook env6 box6 (host_skb IPPROTO_TCP 2) = Some (c, nf_stolen)" "cpe_inv c"
    "flows (natm c) d = Some (host_key IPPROTO_TCP, np)" "0 < time_left (natm c) d"
    by (rule first_packet [of IPPROTO_TCP 2]) (simp_all add: get_conntrack_index_def flag_def TH_RST_def TH_SYN_def TH_ACK_def TH_FIN_def)
  have n: "time_left (natm c) d \<le> 10 * int (nat (time_left (natm c) d))" using c(4) by simp
  show ?thesis using idle_session_forgotten [OF c(2,3,4) n] c(1,3) by blast
qed

end
