(* ===== verification/CpeTraffic.thy ===== *)
theory CpeTraffic
  imports CpeService
begin

text \<open>
  What becomes of a packet of a host behind the box, and of the reply to it: the theorems about one packet
  up and one packet down, from the hooks' point of view.
\<close>

section \<open>The packet up\<close>

lemma key_fields:
  assumes "packet_ok p" "key_of p = Some up"
  shows "get32 p 12 = Some (up_srcip up)" "get32 p 16 = Some (up_dstip up)" "get16 p (port_at (p ! 9)) = Some (up_oldport up)"
    "up_proto up = p ! 9"
proof -
  obtain up' where u: "get_hash_data_up p = Some (Some up')" "key_of p = Some up'" "up_proto up' = p ! 9"
    by (rule key_of_ok [OF assms(1)])
  have g: "get8 p 9 = Some (p ! 9)" using assms(1) by (simp add: packet_ok_def ip20_def get8_def)
  have e: "up' = up" using u(2) assms(2) by simp
  note h = u(1) [unfolded e get_hash_data_up_def]
  show "get32 p 12 = Some (up_srcip up)" "get32 p 16 = Some (up_dstip up)"
    using h g by (auto simp: option_simps split: if_splits)
  show "get16 p (port_at (p ! 9)) = Some (up_oldport up)"
    using h g protos by (auto simp: option_simps port_at_def split: if_splits)
  show "up_proto up = p ! 9" using u(3) e by simp
qed

text \<open>A packet the hook has to handle: without options, long enough, for the Internet, and not too long if it must not
  be fragmented.\<close>

definition outbound :: "u8 list \<Rightarrow> bool" where
  "outbound p \<longleftrightarrow> packet_ok p \<and> 34 \<le> length p \<and> length p < 2 ^ 16 - 8
     \<and> ipdst_filter p = Some False \<and> stream_len_check p = Some (None, 1)"

text \<open>
  A box that is ready for a packet: its invariant, the bytes of its lease, and a TCP port free whenever the counter says so.
  The last is no test of the code.  It fails when resets have let the counter fall below the number of ports taken and
  none is free; what the code does then is in \<open>CpeFlaws\<close>.
\<close>

definition box_ready :: "cpe \<Rightarrow> bool" where
  "box_ready c \<longleftrightarrow> cpe_inv c \<and> tcp_room (laft (natm c)) \<and> lease_bytes (laft (natm c))"

text \<open>C6: A packet up is translated by a ready box: its source becomes the box's address and a port of the lease (for ICMP, an
  identifier), its checksum stays right, nothing else changes but the MSS of a SYN; what is sent is that packet in the
  tunnel, whole or in fragments; and the session is kept, except by a reset.  Otherwise all ports of the packet's protocol are in
  use, and the packet is dropped; or it is a TCP segment that has none of the flags SYN, ACK, FIN, RST, and is dropped.\<close>

theorem upstream_translated:
  assumes "box_ready c" "surroundings_ok e" "outbound (skb_data skb)" "key_of (skb_data skb) = Some up"
  shows "(\<exists>c' p' np r out. stream_up_hook e c skb = Some (c', nf_stolen) \<and> cpe_inv c'
      \<and> cpe_patch_tcpmss (skb_data skb) (length (skb_data skb)) = Some p' \<and> translated (laft (natm c)) np p' r
      \<and> in_tunnel (laft (natm c)) (random32 e 0) (fits skb) r out \<and> outq c' = outq c @ out
      \<and> (ported (up_proto up) \<longrightarrow> LowPort (laft (natm c)) \<le> np \<and> np \<le> HighPort (laft (natm c)))
      \<and> (\<not> resets (skb_data skb) \<longrightarrow> (\<exists>d. flows (natm c') d = Some (up, np))))
    \<or> stream_up_hook e c skb = Some (c, nf_drop) \<and> used_up (laft (natm c)) (up_proto up)
    \<or> (\<exists>c'. stream_up_hook e c skb = Some (c', nf_drop) \<and> cpe_inv c' \<and> \<not> has_flags (skb_data skb) \<and> outq c' = outq c)"
proof -
  note b = assms(1) [unfolded box_ready_def] and o = assms(3) [unfolded outbound_def]
  have I: "cpe_inv c" "tcp_room (laft (natm c))" "lease_bytes (laft (natm c))" using b by simp_all
  have p: "packet_ok (skb_data skb)" "34 \<le> length (skb_data skb)" "length (skb_data skb) < 2 ^ 16 - 8"
    and f: "ipdst_filter (skb_data skb) = Some False" "stream_len_check (skb_data skb) = Some (None, 1)"
    using o by simp_all
  show ?thesis
  proof (rule stream_up_ok [OF I assms(2) p assms(4) f], goal_cases)
    case (1 c' d np p' r out)
    then show ?case by blast
  next
    case 2
    then show ?case by blast
  next
    case (3 c')
    then show ?case by blast
  qed
qed

section \<open>The reply\<close>

text \<open>A reply to the packet \<open>p\<close> that left with port \<open>np\<close>: from \<open>p\<close>'s destination to the box's
  address and that port.\<close>

definition replies_to :: "LAFT_NAT_INFO \<Rightarrow> u8 list \<Rightarrow> u16 \<Rightarrow> u8 list \<Rightarrow> bool" where
  "replies_to L p np q \<longleftrightarrow> reply_ok q \<and> 34 \<le> length q \<and> length q < 2 ^ 16 \<and> q ! 9 = p ! 9
     \<and> get32 q 12 = get32 p 16 \<and> take 4 (drop 16 q) = PubIP L \<and> get16 q 22 = Some np \<and> has_flags q"

text \<open>\<open>r\<close> is the reply \<open>q\<close> sent on to \<open>p\<close>'s source.\<close>

definition returned :: "u8 list \<Rightarrow> u8 list \<Rightarrow> u8 list \<Rightarrow> bool" where
  "returned p q r \<longleftrightarrow> length r = length q \<and> get32 r 16 = get32 p 12 \<and> get16 r 22 = get16 p 20
     \<and> (\<forall>i < length q. i \<notin> {10, 11} \<union> {16..19} \<union> {22, 23, check_at (q ! 9), check_at (q ! 9) + 1} \<longrightarrow> r ! i = q ! i)
     \<and> word_sum (drop 12 r) mod 65535 = word_sum (drop 12 q) mod 65535
     \<and> word_sum (take 20 r) mod 65535 = word_sum (take 20 q) mod 65535"

lemma get32_at:
  assumes "take 4 (drop i p) = be32 x" "i + 4 \<le> length p" shows "get32 p i = Some x"
proof -
  have "p = take i p @ (be32 x @ drop (i + 4) p)"
    using assms(1) by (metis append_take_drop_id drop_drop add.commute)
  moreover have "length (take i p) = i" using assms(2) by simp
  ultimately show ?thesis using get32_append [of "take i p" i] get32_be32 by (metis diff_self_eq_0 order_refl)
qed

lemma restored_returned:
  assumes r: "restored L s q r" and q: "q ! 9 \<noteq> IPPROTO_ICMP" "20 \<le> length q" "take 4 (drop 16 q) = PubIP L"
    "get16 q 22 = Some (newport s)" and p: "get32 p 12 = Some (srcip s)" "get16 p 20 = Some (oldport s)"
  shows "returned p q r"
proof -
  have d: "dport_at (q ! 9) = 22" using q(1) by (simp add: dport_at_def)
  note R = r [unfolded restored_def Let_def d if_not_P [OF q(1)]]
  have l: "length r = length q" and a: "take 4 (drop 16 r) = be32 (srcip s)" and o: "get16 r 22 = Some (oldport s)"
    using R by simp_all
  have "get32 r 16 = Some (srcip s)" by (rule get32_at [OF a]) (use l q(2) in simp)
  then show ?thesis using R q(3,4) p l o by (simp add: returned_def)
qed

lemma reply_back:
  assumes I: "cpe_inv c" "lease_bytes (laft (natm c))" and f: "flows (natm c) d = Some (up, np)" "lan_ok e"
    and p: "packet_ok p" "key_of p = Some up" "p ! 9 \<noteq> IPPROTO_ICMP"
    and q: "replies_to (laft (natm c)) p np q" "from_tunnel (laft (natm c)) q skb"
  obtains c' q' r where "stream_down_hook e c fr skb = Some (c', fr, nf_drop)" "cpe_patch_tcpmss q (length q) = Some q'"
    "returned p q' r" "outq c' = outq c @ [lan_skb r]" "cpe_inv c'" "flows (natm c') = flows (natm c)"
proof -
  note R = q(1) [unfolded replies_to_def]
  have ro: "reply_ok q" "34 \<le> length q" "length q < 2 ^ 16" "q ! 9 \<noteq> IPPROTO_ICMP" "has_flags q"
    and q9: "q ! 9 = p ! 9" using R p(3) by auto
  note k = key_fields [OF p(1,2)]
  have pa: "port_at (p ! 9) = 20" "dport_at (q ! 9) = 22" using p(3) ro(4) by (simp_all add: port_at_def dport_at_def)
  obtain kd where kd: "createpktdownkey q = Some kd" "get32 q 12 = Some (down_dstip kd)"
    "get16 q (dport_at (q ! 9)) = Some (down_newport kd)" "down_proto kd = q ! 9"
    by (rule down_keyE [OF ro(1)])
  have "kd = down_of (up, np)" using kd(2-4) R k pa by (simp add: down_of_def q9)
  then have key: "createpktdownkey q = Some (down_of (up, np))" using kd(1) by simp
  show ?thesis
  proof (rule stream_down_ok [OF I f(2) q(2) ro(1-4) key f(1), where fr = fr])
    fix c' q' s r
    assume h: "stream_down_hook e c fr skb = Some (c', fr, nf_drop)" "cpe_patch_tcpmss q (length q) = Some q'"
      "tuples (natm c) d = Some s" "flow s = (up, np)" "restored (laft (natm c)) s q' r" "outq c' = outq c @ [lan_skb r]"
      "cpe_inv c'" "flows (natm c') = flows (natm c)"
    obtain q2 where q2: "cpe_patch_tcpmss q (length q) = Some q2" "length q2 = length q"
      "\<And>i. i < 36 \<Longrightarrow> i < length q \<Longrightarrow> q2 ! i = q ! i"
      by (rule patched_reply [OF ro(1,2) kd(1)]) blast
    have e: "q2 = q'" using q2(1) h(2) by simp
    have b: "q' ! i = q ! i" if "i < 34" for i using q2(3) [of i] that ro(2) e by simp
    have l: "length q' = length q" using q2(2) e by simp
    have t: "take 4 (drop 16 q') = take 4 (drop 16 q)" by (rule nth_equalityI) (use l b ro(2) in auto)
    have g: "get16 q' 22 = get16 q 22" using b l ro(2) by (simp add: get16_def)
    have s: "srcip s = up_srcip up" "oldport s = up_oldport up" "newport s = np" using h(4) by (auto simp: flow_def)
    have "returned p q' r"
    proof (rule restored_returned [OF h(5)])
      show "q' ! 9 \<noteq> IPPROTO_ICMP" "20 \<le> length q'" using b [of 9] ro(2,4) l by simp_all
      show "take 4 (drop 16 q') = PubIP (laft (natm c))" using t R by simp
      show "get16 q' 22 = Some (newport s)" using g R s(3) by simp
      show "get32 p 12 = Some (srcip s)" "get16 p 20 = Some (oldport s)" using k(1,3) pa(1) s by simp_all
    qed
    then show ?thesis using that h by blast
  next
    fix c' assume "\<not> has_flags q"
    then show ?thesis using ro(5) by simp
  qed
qed

text \<open>C7: What comes back to a host: a packet of a host, TCP but no reset or UDP, that the hook of a ready box takes, leaves with
  a port to which a reply, arriving in the state the packet has left, is sent back to the host: to the address and the port the packet
  came from, with the sums its checksums are taken of unchanged, and changed in nothing else but the MSS.\<close>

theorem reply_reaches_host:
  assumes "box_ready c" "surroundings_ok e" "outbound p" "p = skb_data skb" "key_of p = Some up" "p ! 9 \<noteq> IPPROTO_ICMP"
    "\<not> resets p" "stream_up_hook e c skb = Some (c', nf_stolen)"
  shows "\<exists>np p' r out. cpe_patch_tcpmss p (length p) = Some p' \<and> translated (laft (natm c)) np p' r
    \<and> in_tunnel (laft (natm c)) (random32 e 0) (fits skb) r out \<and> outq c' = outq c @ out
    \<and> (\<forall>e' q skb' fr. lan_ok e' \<longrightarrow> replies_to (laft (natm c)) p np q \<longrightarrow> from_tunnel (laft (natm c)) q skb' \<longrightarrow>
        (\<exists>c'' q' r'. stream_down_hook e' c' fr skb' = Some (c'', fr, nf_drop) \<and> cpe_patch_tcpmss q (length q) = Some q'
           \<and> returned p q' r' \<and> outq c'' = outq c' @ [lan_skb r'] \<and> cpe_inv c''))"
proof -
  note b = assms(1) [unfolded box_ready_def] and o = assms(3) [unfolded outbound_def]
  have I: "cpe_inv c" "tcp_room (laft (natm c))" "lease_bytes (laft (natm c))" using b by simp_all
  have p: "packet_ok p" "34 \<le> length p" "length p < 2 ^ 16 - 8" "ipdst_filter p = Some False"
    "stream_len_check p = Some (None, 1)" using o by simp_all
  show ?thesis
  proof (rule stream_up_ok [OF I assms(2) p(1-3) [unfolded assms(4)] assms(5) [unfolded assms(4)] p(4,5) [unfolded assms(4)]], goal_cases)
    case (1 c1 d np p' r out)
    have c1: "c1 = c'" using 1(1) assms(8) by simp
    have l: "same_lease (laft (natm c)) (laft (natm c'))" and f: "flows (natm c') d = Some (up, np)" and i: "cpe_inv c'"
      using 1 assms(4,7) c1 by simp_all
    have L: "lease_bytes (laft (natm c'))" using I(3) l by (simp add: lease_bytes_def same_lease_def)
    have e: "replies_to (laft (natm c)) p np q = replies_to (laft (natm c')) p np q"
      "from_tunnel (laft (natm c)) q skb' = from_tunnel (laft (natm c')) q skb'" for q skb'
      using l by (simp_all add: replies_to_def from_tunnel_def same_lease_def)
    have "\<exists>c'' q' r'. stream_down_hook e' c' fr skb' = Some (c'', fr, nf_drop) \<and> cpe_patch_tcpmss q (length q) = Some q'
           \<and> returned p q' r' \<and> outq c'' = outq c' @ [lan_skb r'] \<and> cpe_inv c''"
      if "lan_ok e'" "replies_to (laft (natm c')) p np q" "from_tunnel (laft (natm c')) q skb'" for e' q skb' fr
      by (rule reply_back [OF i L f that(1) p(1) assms(5,6) that(2,3), where fr = fr]) blast
    then show ?case using 1(3-6) c1 assms(4) e by blast
  next
    case 2
    then show ?case using assms(8) by simp
  next
    case (3 c1)
    then show ?case using assms(8) by simp
  qed
qed

section \<open>Witnesses\<close>

lemma box6_ready: "box_ready box6" using box6_facts by (simp add: box_ready_def)

lemma host_outbound: "q = IPPROTO_TCP \<or> q = IPPROTO_UDP \<Longrightarrow> outbound (skb_data (host_skb q fl))"
  using host_packet_facts [of q "skb_data (host_skb q fl)" fl] by (simp add: outbound_def host_skb_def lan_skb_def)

lemma host_skb_facts:
  assumes "q = IPPROTO_TCP \<or> q = IPPROTO_UDP"
  shows "key_of (skb_data (host_skb q fl)) = Some (host_key q)" "skb_data (host_skb q fl) ! 9 = q" "skb_data (host_skb q fl) ! 33 = fl"
    "fits (host_skb q fl)" "skb_data (host_skb q fl) = host_packet q fl"
  using host_packet_facts [of q "skb_data (host_skb q fl)" fl] assms by (simp_all add: fits_def host_skb_def lan_skb_def)

theorem upstream_translated_witness:
  "\<exists>c np p' r. stream_up_hook env6 box6 (host_skb IPPROTO_TCP 2) = Some (c, nf_stolen)
    \<and> cpe_patch_tcpmss (host_packet IPPROTO_TCP 2) 40 = Some p' \<and> translated lease6 np p' r
    \<and> outq c = [tunnel_skb (tunnelled lease6 r)] \<and> 1024 \<le> np \<and> np \<le> 2047"
proof -
  let ?q = IPPROTO_TCP
  note h = host_skb_facts [of ?q 2]
  have f: "has_flags (skb_data (host_skb ?q 2))"
    using h by (simp add: has_flags_def get_conntrack_index_def flag_def TH_RST_def TH_SYN_def)
  have po: "ported (up_proto (host_key ?q))" by (simp add: host_key_def ported_def IPPROTO_TCP_def)
  have l: "length (host_packet ?q 2) = 40" "LowPort lease6 = 1024" "HighPort lease6 = 2047" by (simp_all add: host_packet_def lease6_def)
  show ?thesis
    using upstream_translated [OF box6_ready env6_ok host_outbound h(1)] f po not_used_up h(4,5) box6_facts(5,6) l
    by (auto simp: in_tunnel_def)
qed

theorem reply_reaches_host_witness:
  "\<exists>c np. stream_up_hook env6 box6 (host_skb IPPROTO_UDP 0) = Some (c, nf_stolen)
    \<and> (\<forall>e' q skb' fr. lan_ok e' \<longrightarrow> replies_to lease6 (host_packet IPPROTO_UDP 0) np q \<longrightarrow> from_tunnel lease6 q skb' \<longrightarrow>
        (\<exists>c'' q' r'. stream_down_hook e' c fr skb' = Some (c'', fr, nf_drop) \<and> returned (host_packet IPPROTO_UDP 0) q' r'
           \<and> outq c'' = outq c @ [lan_skb r']))"
proof -
  let ?q = IPPROTO_UDP
  note h = host_skb_facts [of ?q 0]
  obtain c d np where c: "stream_up_hook env6 box6 (host_skb ?q 0) = Some (c, nf_stolen)"
    by (rule first_packet [of ?q 0]) (simp_all add: IPPROTO_UDP_def IPPROTO_TCP_def)
  have r: "skb_data (host_skb ?q 0) ! 9 \<noteq> IPPROTO_ICMP" "\<not> resets (skb_data (host_skb ?q 0))"
    using h by (simp_all add: resets_def IPPROTO_UDP_def IPPROTO_TCP_def IPPROTO_ICMP_def)
  show ?thesis
    using reply_reaches_host [OF box6_ready env6_ok host_outbound refl h(1) r c] c h(5) box6_facts(5) by auto blast
qed

end
