(* ===== verification/CpeFlaws.thy ===== *)
theory CpeFlaws
  imports CpeTraffic
begin

text \<open>
  Where the box does not do what it is there for: ports that are never given back or given out twice, and
  fragmented packets that leave untranslated or stop the kernel.
\<close>

section \<open>Ports lost and ports not owned\<close>

text \<open>A TCP segment without any of the flags SYN, ACK, FIN, RST from a new connection is dropped, but a session was
  opened for it, and that has no life time: it stays, and its port with it, however often the timer runs.\<close>

theorem dropped_segment_keeps_port:
  assumes "box_ready c" "surroundings_ok e" "outbound (skb_data skb)" "key_of (skb_data skb) = Some up"
    "\<not> has_flags (skb_data skb)" "\<not> used_up (laft (natm c)) (up_proto up)" "\<And>d np. flows (natm c) d \<noteq> Some (up, np)"
  shows "\<exists>c' d np. stream_up_hook e c skb = Some (c', nf_drop) \<and> flows (natm c) d \<noteq> Some (up, np)
    \<and> (\<forall>n. \<exists>c''. cpe_timers n c' = Some c'' \<and> flows (natm c'') d = Some (up, np))"
proof -
  note b = assms(1) [unfolded box_ready_def] and o = assms(3) [unfolded outbound_def]
  have I: "cpe_inv c" "tcp_room (laft (natm c))" "lease_bytes (laft (natm c))" using b by simp_all
  have p: "packet_ok (skb_data skb)" "34 \<le> length (skb_data skb)" "length (skb_data skb) < 2 ^ 16 - 8"
    and g: "ipdst_filter (skb_data skb) = Some False" "stream_len_check (skb_data skb) = Some (None, 1)"
    using o by simp_all
  show ?thesis
  proof (rule stream_up_ok [OF I assms(2) p assms(4) g], goal_cases)
    case (1 c1 d1 np p' r out)
    then show ?case using assms(5) by simp
  next
    case 2
    then show ?case using assms(6) by simp
  next
    case (3 c' d np)
    have "\<exists>c''. cpe_timers n c' = Some c'' \<and> flows (natm c'') d = Some (up, np)" for n
    proof -
      have t: "time_left (natm c') d \<le> 0" using 3(6) assms(7) by simp
      obtain c2 where c2: "cpe_timers n c' = Some c2" "shrunk (natm c') (natm c2)"
        "\<forall>d \<in> sessions (natm c'). time_left (natm c') d \<le> 0 \<longrightarrow> d \<in> sessions (natm c2)"
        using cpe_timers_ok [OF 3(2)] by blast
      have "d \<in> sessions (natm c')" using 3(5) by (simp add: sessions_flows domI)
      then have "d \<in> dom (flows (natm c2))" using c2(3) t unfolding sessions_flows by simp
      then show ?thesis using c2(1,2) 3(5) unfolding shrunk_def by (metis domIff)
    qed
    then show ?case using 3(1) assms(7) by blast
  qed
qed

text \<open>C34: A reset of a session that has not been answered gives its port back twice.  If all ports were in use, the second
  of the next two connections gets the first port behind the lease, which is another customer's.\<close>

theorem reset_gives_foreign_port:
  assumes "nat_inv T m" "tuples m d = Some s" "prot s = IPPROTO_TCP" "con_status s AND IPS_SEEN_REPLY = 0"
    "get8 p 33 = Some fl" "flag fl TH_RST" "L = laft m" "tcp.taken L = {..<block L}" "2 \<le> block L"
    "unat (tcp_port_used L) = block L" "HighPort L < - 1"
  shows "\<exists>T' m' L1 np. tcp_pkt_track p d IP_CT_DIR_ORIGINAL (T, m) = Some ((T', m'), 1) \<and> nat_inv T' m'
    \<and> get_tcp_port (LowPort L) (HighPort L) (laft m') = Some (L1, int (unat np)) \<and> LowPort L \<le> np \<and> np \<le> HighPort L
    \<and> (\<exists>L2. get_tcp_port (LowPort L) (HighPort L) L1 = Some (L2, int (unat (HighPort L)) + 1))"
proof -
  note I = nat_invD [OF assms(1)]
  have ix: "get_conntrack_index fl = 3" using assms(6) by (simp add: get_conntrack_index_def)
  let ?n = "tcp_conntracks ! 0 ! 3 ! ct_number (tcp_state s)"
  have st: "tcp_state s \<noteq> sIV" using I(5) assms(2) by (simp add: states_ok_def)
  have n: "?n \<noteq> sIV" using conntrack_valid [of fl "tcp_state s" 0] st ix by auto
  let ?m2 = "upd_tuple d (\<lambda>s. s\<lparr>tcp_state := ?n\<rparr>) m" and ?s = "s\<lparr>tcp_state := ?n\<rparr>"
  have s': "tuples ?m2 d = Some ?s" using assms(2) by (simp add: upd_tuple_sel)
  have f2: "flows ?m2 = flows m" "laft ?m2 = laft m" "next_tuple ?m2 = next_tuple m" by simp_all
  have "states_ok ?m2" using I(5) n by (intro states_upd) simp_all
  then have i2: "nat_inv T ?m2" by (rule nat_inv_flows [OF assms(1) f2])
  obtain L' m' where r: "setportbit ?s (laft ?m2) = Some L'"
    "sessiondel T ?s PKT_UP (?m2\<lparr>laft := L'\<rparr>) = Some (T\<lparr>Bucket := detach d (Bucket T)\<rparr>, m')"
    "nat_inv (T\<lparr>Bucket := detach d (Bucket T)\<rparr>) m'" "same_lease (laft ?m2) (laft m')"
    "tcp.taken (laft m') = tcp.taken (laft ?m2) - {offset (laft ?m2) (newport ?s)}"
    "unat (tcp_port_used (laft m')) = unat (tcp_port_used (laft ?m2)) - 2"
    by (rule reset_session [OF i2 s']) (use assms(3) in \<open>auto simp: IPPROTO_TCP_def\<close>)
  have t: "tcp_pkt_track p d IP_CT_DIR_ORIGINAL (T, m) = Some ((T\<lparr>Bucket := detach d (Bucket T)\<rparr>, m'), 1)"
    using assms(2,4-6) n s' r(1,2) ix by (simp add: tcp_pkt_track_def IP_CT_DIR_ORIGINAL_def IP_CT_DIR_REPLY_def)
  have b: "block (laft m') = block L" "LowPort (laft m') = LowPort L" "HighPort (laft m') = HighPort L"
    using r(4) same_block(1) [OF r(4)] assms(7) by (simp_all add: same_lease_def)
  have used: "unat (tcp_port_used (laft m')) = block L - 2" using r(6) assms(7,10) by simp
  have lo: "LowPort (laft m') \<le> HighPort (laft m')" "map_for (tcpport (laft m')) (block (laft m'))" "block L < 65536"
    using nat_invD(4) [OF r(3)] b(1) by (auto simp: flows_ok_def lease_ok_def)
  have own: "LowPort L \<le> newport s" "newport s \<le> HighPort L"
    using I(4) [unfolded flows_ok_def] assms(2,3,7) by (fastforce simp: flows_def flow_def ported_def IPPROTO_TCP_def)+
  have o: "offset L (newport s) < block L" using offset_props(2) [of L "newport s"] own I(4) assms(7) by (simp add: flows_ok_def)
  have room: "\<exists>k < block (laft m'). k \<notin> tcp.taken (laft m')" using o r(5) assms(7) b(1) by auto
  show ?thesis
  proof (rule tcp.get_fresh [OF lo(1,2) block_def])
    show "\<exists>k < block (laft m'). k \<notin> tcp.taken (laft m')" by (rule room)
  next
    assume "block (laft m') \<le> unat (tcp_port_used (laft m'))"
    then show ?thesis using used b(1) assms(9) by simp
  next
    fix L1 np
    assume j: "get_tcp_port (LowPort (laft m')) (HighPort (laft m')) (laft m') = Some (L1, int (unat np))"
      "LowPort (laft m') \<le> np" "np \<le> HighPort (laft m')"
      "unat np - unat (LowPort (laft m')) \<notin> tcp.taken (laft m')"
      "tcp.taken L1 = insert (unat np - unat (LowPort (laft m'))) (tcp.taken (laft m'))"
      "tcp_port_used L1 = tcp_port_used (laft m') + 1" "map_for (tcpport L1) (block (laft m'))"
    have k: "unat np - unat (LowPort L) < block L" using j(2,3) b by (auto simp: block_def word_le_nat_alt)
    have all: "tcp.taken L1 = {..<block L}"
      using j(4,5) r(5) assms(7,8) k o b by auto
    have u1: "unat (tcp_port_used L1) = block L - 1"
      using used assms(9) lo(3) unfolding j(6) by (simp add: unat_word_ariths)
    have "get_tcp_port (LowPort L) (HighPort L) L1 = Some (L1\<lparr>tcpport := tcpport L1, tcp_port_used := tcp_port_used L1\<rparr>, int (unat (HighPort L)) + 1)"
    proof (rule tcp.get_runs_over)
      show "int (unat (tcp_port_used L1)) < int (unat (HighPort L)) - int (unat (LowPort L)) + 1"
        using u1 assms(9) lo(1) b by (auto simp: block_def word_le_nat_alt)
      show "map_for (tcpport L1) (unat (HighPort L) - unat (LowPort L) + 1)" using j(7) b by (simp add: block_def)
      show "k \<in> tcp.taken L1" if "unat (LowPort L) + k \<le> unat (HighPort L)" for k
        using that all by (auto simp: block_def)
    qed (rule assms(11))
    then show ?thesis using t r(3) j(1-3) b by auto
  qed
qed

section \<open>Fragmented packets nobody asked for\<close>

lemma piece_ok:
  assumes "length hdr = 20" "off + l \<le> length frag"
  obtains h where "piece hdr frag (off, l) = Some (h @ take l (drop off frag))" "length h = 20"
    "\<And>i. i < 20 \<Longrightarrow> i \<notin> {2, 3, 6, 7} \<Longrightarrow> h ! i = hdr ! i"
proof -
  let ?x = "be16 (if l + off < length frag then word_of_nat (off div 8) OR 0x2000 else word_of_nat (off div 8))"
  obtain h1 where h1: "put hdr 6 ?x = Some h1" "length h1 = 20"
    by (rule put_exists [of 6 ?x hdr]) (use assms(1) in auto)
  obtain h2 where h2: "put h1 2 (be16 (word_of_nat (l + 20))) = Some h2" "length h2 = 20"
    by (rule put_exists [of 2 "be16 (word_of_nat (l + 20))" h1]) (use h1(2) in auto)
  have "h2 ! i = hdr ! i" if "i < 20" "i \<notin> {2, 3, 6, 7}" for i
  proof -
    have "i < 2 \<or> 4 \<le> i" "i < 6 \<or> 8 \<le> i" using that(2) by (simp_all, presburger+)
    then show ?thesis using nth_put [OF h2(1), of i] nth_put [OF h1(1), of i] that(1) assms(1) h1(2) by simp
  qed
  then show ?thesis using h1(1) h2 assms(2) by (intro that [of h2]) (auto simp: piece_def getn_def)
qed

text \<open>A piece that is not the first is sent to the address the static variable holds.\<close>

lemma later_piece:
  assumes "length h = 20" "h ! 0 = 0x45" "0 < off" "off < 65536" "length dst = 4" "csum_ok (down_send_check e)"
  obtains h' where "frag_nathandle e (h @ t) off (st, dst) = Some ((st, dst), h' @ t, 1)" "length h' = 20" "take 4 (drop 16 h') = dst"
proof -
  let ?h = "take 16 h @ dst"
  have "put (h @ t) 16 dst = Some (?h @ t)" using assms(1,5) by (simp add: put_def)
  moreover have l: "length ?h = 20" "?h ! 0 = 0x45" using assms by (simp_all add: nth_append)
  let ?h' = "down_send_check e ?h"
  have c: "length ?h' = 20" "\<And>i. i < 20 \<Longrightarrow> i \<noteq> 10 \<Longrightarrow> i \<noteq> 11 \<Longrightarrow> ?h' ! i = ?h ! i"
    using assms(6) l(1) by (simp_all add: csum_ok_def)
  have "get8 (?h @ t) 0 = Some 0x45" using l by (simp add: get8_def nth_append del: append_assoc)
  moreover have "getn (?h @ t) 0 20 = Some ?h" using l(1) by (simp add: getn_def)
  moreover have "put (?h @ t) 0 ?h' = Some (?h' @ t)" using l(1) c(1) by (simp add: put_def)
  ultimately have "frag_nathandle e (h @ t) off (st, dst) = Some ((st, dst), ?h' @ t, 1)"
    using assms(3,4) by (simp add: frag_nathandle_def Let_def del: append_assoc)
  moreover have "take 4 (drop 16 ?h') = dst"
    by (rule nth_equalityI) (use c assms(1,5) in \<open>auto simp: nth_append\<close>)
  ultimately show ?thesis using c(1) that by blast
qed

lemma later_pieces:
  assumes "length hdr = 20" "hdr ! 0 = 0x45" "length dst = 4" "csum_ok (down_send_check e)" "\<And>k. piece_mem e k"
    "length frag < 65536"
  shows "plan_from cap (length frag) off fs \<Longrightarrow> 0 < off \<Longrightarrow>
    \<exists>out. send_pieces e k hdr frag fs (st, dst) = Some ((st, dst), out) \<and> length out = length fs
      \<and> (\<forall>b \<in> set out. getn (skb_data b) 16 4 = Some dst)"
proof (induction fs arbitrary: off k)
  case (Cons f fs)
  obtain l where f: "f = (off, l)" "off + l \<le> length frag" "plan_from cap (length frag) (off + l) fs"
    using Cons.prems(1) by (cases f) auto
  obtain h where h: "piece hdr frag f = Some (h @ take l (drop off frag))" "length h = 20" "h ! 0 = hdr ! 0"
    unfolding f(1) by (rule piece_ok [OF assms(1) f(2)]) auto
  obtain h' where h': "frag_nathandle e (h @ take l (drop off frag)) off (st, dst) = Some ((st, dst), h' @ take l (drop off frag), 1)"
    "length h' = 20" "take 4 (drop 16 h') = dst"
    by (rule later_piece [OF h(2) _ Cons.prems(2) _ assms(3,4)]) (use h(3) assms(2,6) f(2) in simp_all)
  obtain out where out: "send_pieces e (Suc k) hdr frag fs (st, dst) = Some ((st, dst), out)" "length out = length fs"
    "\<forall>b \<in> set out. getn (skb_data b) 16 4 = Some dst"
    using Cons.IH [OF f(3), of "Suc k"] Cons.prems(2) by auto
  have "getn (h' @ take l (drop off frag)) 16 4 = Some dst" using h'(2,3) assms(3) by (simp add: getn_def)
  then show ?case using h(1) h'(1) out assms(5) f(1) by (simp add: lan_skb_def)
qed simp

text \<open>The first piece of a packet looks for the session the whole packet would look for.\<close>

lemma piece_key:
  assumes "length hdr = 20" "length h = 20" "h ! 9 = hdr ! 9" "\<And>i. i \<in> {12..15} \<Longrightarrow> h ! i = hdr ! i" "4 \<le> l" "l \<le> length frag"
    "hdr ! 9 = IPPROTO_TCP \<or> hdr ! 9 = IPPROTO_UDP"
  shows "createpktdownkey (h @ take l frag) = createpktdownkey (hdr @ frag)"
proof -
  have "get8 (h @ take l frag) 9 = get8 (hdr @ frag) 9" using assms(1-3) by (simp add: get8_def nth_append)
  moreover have "get32 (h @ take l frag) 12 = get32 (hdr @ frag) 12" using assms(1,2,4) by (simp add: get32_def nth_append)
  moreover have "get16 (h @ take l frag) 22 = get16 (hdr @ frag) 22" using assms(1,2,5,6) by (simp add: get16_def nth_append)
  moreover have "get8 (hdr @ frag) 9 = Some (hdr ! 9)" using assms(1) by (simp add: get8_def nth_append)
  ultimately show ?thesis using assms(7) by (auto simp: createpktdownkey_def)
qed

text \<open>A TCP or UDP packet no session belongs to is dropped when it arrives whole.  Arriving in fragments it is put
  together and sent on in pieces all the same: the first with the destination it came with, the others to the host the last
  fragmented packet was for.\<close>

theorem unknown_fragments_delivered:
  assumes "nat_inv T m" "createpktdownkey pkt = Some k" "\<And>d f. flows m d = Some f \<Longrightarrow> down_of f \<noteq> k"
    "pkt ! 0 = 0x45" "pkt ! 9 = IPPROTO_TCP \<or> pkt ! 9 = IPPROTO_UDP" "1500 < length pkt" "length pkt < 2 ^ 16"
    "\<And>k. piece_mem e k" "csum_ok (down_send_check e)" "length dst = 4"
  shows "nathandle mem pkt (T, m) = Some ((T, m), pkt, -1)
    \<and> (\<exists>fs b out. cpe_pkt_fraghandle e pkt ((T, m), dst) = Some (((T, m), dst), b # out)
         \<and> plan_from 1480 (length pkt - 20) 0 fs \<and> length out + 1 = length fs
         \<and> getn (skb_data b) 16 4 = getn pkt 16 4 \<and> (\<forall>b \<in> set out. getn (skb_data b) 16 4 = Some dst))"
proof
  have no: "find_session T (Down k) PKT_DOWN m = Some None"
    by (rule find_down [OF assms(1), of k]) (use assms(3) in blast)+
  have drop: "nathandle mem p (T, m) = Some ((T, m), p, -1)" if "createpktdownkey p = Some k" for p mem
    using that no by (simp add: nathandle_def)
  show "nathandle mem pkt (T, m) = Some ((T, m), pkt, -1)" by (rule drop [OF assms(2)])
  let ?hdr = "take 20 pkt" and ?frag = "drop 20 pkt"
  have l: "length ?hdr = 20" "length ?frag = length pkt - 20" "pkt = ?hdr @ ?frag" using assms(6) by simp_all
  have b: "?hdr ! i = pkt ! i" if "i < 20" for i using that by simp
  obtain fs where fs: "frag_plan 20 1500 (length ?frag) = Some fs" "plan_from (1500 - 20) (length ?frag) 0 fs"
    by (rule frag_plan_ok [of 20 1500 "length ?frag"]) (use assms(6,7) in auto)
  obtain n fs' where f: "fs = (0, n) # fs'" "0 < n" "n \<le> 1480" "n \<le> length ?frag" "8 dvd n" "plan_from 1480 (length ?frag) n fs'"
    using fs(2) assms(6) by (cases fs) auto
  have n8: "4 \<le> n" using f(2,5) by (auto elim!: dvdE)
  obtain h where h: "piece ?hdr ?frag (0, n) = Some (h @ take n (drop 0 ?frag))" "length h = 20"
    "\<And>i. i < 20 \<Longrightarrow> i \<notin> {2, 3, 6, 7} \<Longrightarrow> h ! i = ?hdr ! i"
    by (rule piece_ok [OF l(1), of 0 n ?frag]) (use f(4) in auto)
  have "createpktdownkey (h @ take n ?frag) = createpktdownkey (?hdr @ ?frag)"
    by (rule piece_key) (use l(1) h(2,3) n8 f(4) assms(5) in \<open>auto simp: b\<close>)
  then have k: "createpktdownkey (h @ take n (drop 0 ?frag)) = Some k" using assms(2) by simp
  have first: "frag_nathandle e (h @ take n (drop 0 ?frag)) 0 ((T, m), dst) = Some (((T, m), dst), h @ take n (drop 0 ?frag), -1)"
    using drop [OF k] by (simp add: frag_nathandle_def Let_def)
  obtain out where out: "send_pieces e 1 ?hdr ?frag fs' ((T, m), dst) = Some (((T, m), dst), out)" "length out = length fs'"
    "\<forall>b \<in> set out. getn (skb_data b) 16 4 = Some dst"
    using later_pieces [OF l(1) _ assms(10,9,8) _ f(6,2), of 1 "(T, m)"] assms(4,7) b [of 0] l(2) by fastforce
  have "take 4 (drop 16 h) = take 4 (drop 16 ?hdr)" by (rule nth_equalityI) (use h(2,3) l(1) in auto)
  then have "getn (h @ take n (drop 0 ?frag)) 16 4 = getn pkt 16 4"
    using h(2) l(1) assms(6) by (simp add: getn_def) (simp add: take_drop)
  moreover have "cpe_pkt_fraghandle e pkt ((T, m), dst) = Some (((T, m), dst), lan_skb (h @ take n (drop 0 ?frag)) # out)"
    using fs(1) f(1) h(1) first out(1) assms(6,8) by (simp add: cpe_pkt_fraghandle_def getn_def)
  ultimately show "\<exists>fs b out. cpe_pkt_fraghandle e pkt ((T, m), dst) = Some (((T, m), dst), b # out)
         \<and> plan_from 1480 (length pkt - 20) 0 fs \<and> length out + 1 = length fs
         \<and> getn (skb_data b) 16 4 = getn pkt 16 4 \<and> (\<forall>b \<in> set out. getn (skb_data b) 16 4 = Some dst)"
    using fs(2) f(1) l(2) out(2,3) by (intro exI [of _ fs] exI [of _ "lan_skb (h @ take n (drop 0 ?frag))"] exI [of _ out]) (simp add: lan_skb_def)
qed

text \<open>The IPv6 packet that holds, as its only fragment, an IPv4 header with nothing behind it.\<close>

definition bare_fragment :: "u8 list \<Rightarrow> u8 list \<Rightarrow> u32 \<Rightarrow> u8 list \<Rightarrow> u8 list" where
  "bare_fragment src dst ident h = ipv6_header 28 NEXTHDR_FRAGMENT src dst @ [4, 0, 0, 0] @ be32 ident @ h"

lemma bare_fragment_fields:
  assumes "length src = 16" "length dst = 16" "length h = 20"
  shows "get8 (bare_fragment src dst ident h) 0 = Some 0x60" "get16 (bare_fragment src dst ident h) 4 = Some 28"
    "get8 (bare_fragment src dst ident h) 6 = Some NEXTHDR_FRAGMENT" "getn (bare_fragment src dst ident h) 8 16 = Some src"
    "getn (bare_fragment src dst ident h) 24 16 = Some dst" "get8 (bare_fragment src dst ident h) 40 = Some 4"
    "get16 (bare_fragment src dst ident h) 42 = Some 0" "getn (bare_fragment src dst ident h) 44 4 = Some (be32 ident)"
    "getn (bare_fragment src dst ident h) 48 20 = Some h" "length (bare_fragment src dst ident h) = 68"
proof -
  let ?p = "[4, 0, 0, 0] @ be32 ident @ h" and ?h = "ipv6_header 28 NEXTHDR_FRAGMENT src dst"
  note f = ipv6_header_fields(1-4) [OF assms(1,2), of 28 NEXTHDR_FRAGMENT ?p]
  show "get16 (bare_fragment src dst ident h) 4 = Some 28" "get8 (bare_fragment src dst ident h) 6 = Some NEXTHDR_FRAGMENT"
    "getn (bare_fragment src dst ident h) 8 16 = Some src" "getn (bare_fragment src dst ident h) 24 16 = Some dst"
    unfolding bare_fragment_def by (rule f)+
  show "get8 (bare_fragment src dst ident h) 0 = Some 0x60"
    by (simp add: bare_fragment_def ipv6_header_def get8_def)
  have l: "length ?h = 40" by (rule ipv6_header_fields(5) [OF assms(1,2)])
  show "get8 (bare_fragment src dst ident h) 40 = Some 4" "get16 (bare_fragment src dst ident h) 42 = Some 0"
    using l by (simp_all add: bare_fragment_def get8_def get16_def nth_append)
  show "getn (bare_fragment src dst ident h) 44 4 = Some (be32 ident)" "getn (bare_fragment src dst ident h) 48 20 = Some h"
    "length (bare_fragment src dst ident h) = 68"
    using l assms(3) by (simp_all add: bare_fragment_def getn_def)
qed

text \<open>C33: An IPv6 packet to the box whose only fragment is a bare IPv4 header completes at once, and the code divides by
  the number of pieces it is to be sent in, which is zero: one packet from anywhere stops the kernel.\<close>

theorem bare_fragment_divides_by_zero:
  assumes "length src = 16" "dst = IPv6LocalAddr (laft (natm c))" "length dst = 16" "length h = 20" "src \<noteq> dst"
    "skb_data skb = bare_fragment src dst ident h" "copy_ok e" "cb_ok e" "\<And>k. tab_ok e k"
    "length (pshashtable (frags fr)) = MAX_SHASH_SIZE" "length (frag4buf (frags fr)) = 66000"
    "ShashBucketFind (pshashtable (frags fr)) \<lparr>key_daddrv6 = src, key_saddrv6 = dst, key_id = be32 ident\<rparr> = None"
  shows "stream_down_hook e c fr skb = None"
proof -
  let ?p = "skb_data skb" and ?t = "pshashtable (frags fr)" and ?k = "\<lparr>key_daddrv6 = src, key_saddrv6 = dst, key_id = be32 ident\<rparr>"
  let ?cb = "\<lparr>cb_offset = 0, cb_mf = 0, cb_length = 20, cb_skb = skb\<rparr>"
  note g = bare_fragment_fields [OF assms(1,3,4), of ident, folded assms(6)]
  have k: "createfragkey ?p = Some ?k" using g by (simp add: createfragkey_def)
  let ?u = "\<lparr>tuple_key = ?k, tuple_len = 0, tuple_length = 0, tuple_flag = 0, time_out = CPE_FRAG_TIMEOUT\<rparr>"
  have u: "createfragtuple ?p CPE_FRAG_TIMEOUT = Some ?u" using k by (simp add: createfragtuple_def)
  obtain u' where u': "updatelength ?u ?p = Some (u', 1)" "tuple_key u' = ?k"
    using g by (simp add: updatelength_def FRAG_MORE_def)
  obtain t1 where t1: "ShashInsert True ?t ?k ?u = Some t1" by (simp add: ShashInsert_def)
  have l: "length t1 = MAX_SHASH_SIZE" using length_ShashInsert [OF t1] assms(10) by simp
  have b: "ShashBucketFind t1 ?k = Some \<lparr>pData = ?u, fraghdr = [], cnt = 0\<rparr>"
    using find_ShashInsert [OF assms(10) t1, of ?k] by simp
  let ?b = "\<lparr>pData = u', fraghdr = [?cb], cnt = 1 :: u32\<rparr>"
  have ins: "cpe_fragnodeinsert (tab_ok e) ?t ?cb = Some (bucket_update t1 ?k ?b, Some ?k)"
    using k u u'(1) t1 b assms(9,12) by (simp add: cpe_fragnodeinsert_def ShashFragInsert_def)
  have find: "ShashBucketFind (bucket_update t1 ?k ?b) ?k = Some ?b"
    using find_bucket_update [OF l, of ?b ?k ?k] u'(2) b by simp
  obtain data where d: "frag_iphandle ?p = Some data" "getn data 0 20 = Some h"
    using g(2,9) assms(4) by (simp add: frag_iphandle_def getn_def)
  obtain buf where buf: "put (frag4buf (frags fr)) 0 h = Some buf" "length buf = 66000"
    by (rule put_exists [of 0 h "frag4buf (frags fr)"]) (use assms(4,11) in auto)
  have copy: "fragcopy [?cb] (frag4buf (frags fr)) 0 = Some (buf, 20)" using d buf by simp
  obtain pkt where pkt: "getn buf 0 20 = Some pkt" "length pkt = 20" using buf(2) by (simp add: getn_def)
  have none: "cpe_pkt_fraghandle e pkt st = None" for st
    using pkt(2) by (simp add: cpe_pkt_fraghandle_def getn_def frag_plan_def frag_sizes_def Let_def)
  have proc: "cpe_fragprocess e ?k (st, fr\<lparr>frags := (frags fr)\<lparr>pshashtable := bucket_update t1 ?k ?b\<rparr>\<rparr>) = None" for st
    using find copy none pkt(1) by (simp add: cpe_fragprocess_def Let_def)
  have off: "getfragoffset ?p = Some (0, 0, 20)" using g by (simp add: getfragoffset_def FRAG_OFFSET_def FRAG_MORE_def)
  have "ipv6handle e skb ((table c, natm c), fr) = None"
    using g assms(2,5,7,8) off ins proc
    by (simp add: ipv6handle_def isfragipip_def NEXTHDR_FRAGMENT_def IPINIP_def Let_def)
  then show ?thesis using g(1) by (simp add: stream_down_hook_def skbuf_handle_def)
qed

section \<open>Witnesses\<close>

theorem dropped_segment_keeps_port_witness:
  "\<exists>c d np. stream_up_hook env6 box6 (host_skb IPPROTO_TCP 0) = Some (c, nf_drop)
    \<and> (\<forall>n. \<exists>c'. cpe_timers n c = Some c' \<and> flows (natm c') d = Some (host_key IPPROTO_TCP, np))"
proof -
  let ?q = IPPROTO_TCP
  note h = host_skb_facts [of ?q 0]
  have f: "\<not> has_flags (skb_data (host_skb ?q 0))"
    using h by (simp add: has_flags_def get_conntrack_index_def flag_def)
  show ?thesis
    using dropped_segment_keeps_port [OF box6_ready env6_ok host_outbound h(1) f not_used_up] box6_facts(4) by auto
qed


text \<open>A lease of the ports 1024 and 1025, with the TCP ports of \<open>w\<close> taken.\<close>

definition lease2 :: "u32 \<Rightarrow> u16 \<Rightarrow> LAFT_NAT_INFO" where
  "lease2 w n = lease6\<lparr>HighPort := 1025, tcpport := Ints [w], udpport := Ints [0], tcp_port_used := n\<rparr>"

lemma lease2_facts:
  "LowPort (lease2 w n) = 1024" "HighPort (lease2 w n) = 1025" "block (lease2 w n) = 2" "lease_ok (lease2 w n)"
  "tcp.taken (lease2 w n) = {k. k < 32 \<and> bit w k}" "udp.taken (lease2 w n) = {}" "tcp_port_used (lease2 w n) = n" "udp_port_used (lease2 w n) = 0"
  "same_lease (lease2 w n) (lease2 w' n')"
proof -
  show b: "block (lease2 w n) = 2" by (simp add: block_def lease2_def lease6_def)
  show "lease_ok (lease2 w n)" by (simp add: lease_ok_def b) (simp add: map_for_def lease2_def lease6_def)
  show "tcp.taken (lease2 w n) = {k. k < 32 \<and> bit w k}" "udp.taken (lease2 w n) = {}"
    by (auto simp: tcp.taken_def udp.taken_def taken_ports_def port_bit_def lease2_def)
qed (simp_all add: same_lease_def lease2_def lease6_def)

lemma lease2_taken: "tcp.taken (lease2 0 n) = {}" "tcp.taken (lease2 1 n) = {0}" "tcp.taken (lease2 3 n) = {0, 1}"
proof -
  have m: "(3 :: u32) = mask 2" by (simp add: mask_eq_exp_minus_1)
  show "tcp.taken (lease2 3 n) = {0, 1}" unfolding lease2_facts(5) m by (auto simp: bit_mask_iff)
qed (auto simp: lease2_facts(5) bit_1_iff)

lemma full_box:
  obtains T m s where "nat_inv T m" "laft m = lease2 3 2" "tuples m 0 = Some s" "prot s = IPPROTO_TCP" "con_status s = 0"
proof -
  define u1 where "u1 = host_key IPPROTO_TCP"
  define u2 where "u2 = u1\<lparr>up_oldport := 5001\<rparr>"
  have q: "ported (up_proto u1)" "ported (up_proto u2)" "up_proto u1 = IPPROTO_TCP" "up_proto u2 = IPPROTO_TCP" "u1 \<noteq> u2"
    by (simp_all add: u1_def u2_def host_key_def ported_def IPPROTO_TCP_def)
  let ?T0 = "\<lparr>Bucket = replicate MAX_ENTRY [], next_node = 0\<rparr>" and ?m0 = "\<lparr>laft = lease2 0 0, tuples = Map.empty, next_tuple = 0\<rparr>"
  have I0: "nat_inv ?T0 ?m0" by (rule empty_nat_inv) (simp_all add: lease2_facts(1-4,6-) lease2_taken)
  have pt: "ports_taken (lease2 w n) r = (if r = IPPROTO_TCP then tcp.taken (lease2 w n) else {})" for w n r
    using lease2_facts(6) by (simp add: ports_taken_def IPPROTO_TCP_def)
  show ?thesis
  proof (rule insert_session [OF I0, of u1 "lease2 1 1" 1024])
    fix T1 m1
    assume a: "m1 = ?m0\<lparr>laft := lease2 1 1, tuples := (tuples ?m0)(next_tuple ?m0 \<mapsto> get_tuple u1 (down_of (u1, 1024))), next_tuple := next_tuple ?m0 + 1\<rparr>"
      "nat_inv T1 m1" "flows m1 = (flows ?m0)(next_tuple ?m0 \<mapsto> (u1, 1024))"
    show ?thesis
    proof (rule insert_session [OF a(2), of u2 "lease2 3 2" 1025])
      fix T2 m2
      assume b: "m2 = m1\<lparr>laft := lease2 3 2, tuples := (tuples m1)(next_tuple m1 \<mapsto> get_tuple u2 (down_of (u2, 1025))), next_tuple := next_tuple m1 + 1\<rparr>"
        "nat_inv T2 m2"
      show ?thesis
        by (rule that [OF b(2), of "get_tuple u1 (down_of (u1, 1024))"]) (use b(1) a(1) q in \<open>simp_all add: get_tuple_def\<close>)
    qed (use a(1,3) q in \<open>simp_all add: lease2_facts(1-4,6-) lease2_taken flows_def pt offset_def insert_commute\<close>)
  qed (use q in \<open>simp_all add: lease2_facts(1-4,6-) lease2_taken flows_def pt offset_def insert_commute\<close>)
qed

theorem reset_gives_foreign_port_witness:
  "\<exists>T m T' m' L1 L2 (np :: u16). nat_inv T m \<and> laft m = lease2 3 2
    \<and> tcp_pkt_track (host_packet IPPROTO_TCP 4) 0 IP_CT_DIR_ORIGINAL (T, m) = Some ((T', m'), 1)
    \<and> get_tcp_port 1024 1025 (laft m') = Some (L1, int (unat np)) \<and> get_tcp_port 1024 1025 L1 = Some (L2, 1026)"
proof -
  obtain T m s where f: "nat_inv T m" "laft m = lease2 3 2" "tuples m 0 = Some s" "prot s = IPPROTO_TCP" "con_status s = 0"
    by (rule full_box)
  have p: "get8 (host_packet IPPROTO_TCP 4) 33 = Some 4" "flag 4 TH_RST" by (simp_all add: host_packet_def get8_def flag_def TH_RST_def)
  have c: "con_status s AND IPS_SEEN_REPLY = 0" using f(5) by simp
  have L: "tcp.taken (lease2 3 2) = {..<block (lease2 3 2)}" "2 \<le> block (lease2 3 2)"
    "unat (tcp_port_used (lease2 3 2)) = block (lease2 3 2)" "HighPort (lease2 3 2) < - 1"
    by (auto simp: lease2_facts(1-4,6-) lease2_taken)
  have n: "int (unat (1025 :: u16)) + 1 = 1026" by simp
  obtain T' m' L1 L2 and np :: u16 where "tcp_pkt_track (host_packet IPPROTO_TCP 4) 0 IP_CT_DIR_ORIGINAL (T, m) = Some ((T', m'), 1)"
    "get_tcp_port 1024 1025 (laft m') = Some (L1, int (unat np))" "get_tcp_port 1024 1025 L1 = Some (L2, 1026)"
    using reset_gives_foreign_port [OF f(1,3,4) c p f(2) [symmetric] L] unfolding lease2_facts(1,2) n by blast
  then show ?thesis using f(1,2) by (intro exI conjI)
qed

definition home_env :: down_env where
  "home_env = \<lparr>lan_ok = True, copy_ok = True, cb_ok = True, tab_ok = (\<lambda>_. True), piece_mem = (\<lambda>_. True), psd_ok = (\<lambda>_. True),
     down_send_check = (\<lambda>h. h)\<rparr>"

text \<open>A UDP packet of 1600 bytes to the box.\<close>

definition stray_packet :: "u8 list" where
  "stray_packet = [0x45, 0, 6, 64, 0, 0, 0, 0, 64, 17, 0, 0, 9, 9, 9, 9, 1, 2, 3, 4] @ [0, 53, 4, 0] @ replicate 1576 0"

theorem unknown_fragments_delivered_witness:
  "nathandle (\<lambda>_. True) stray_packet (table box6, natm box6) = Some ((table box6, natm box6), stray_packet, -1)
    \<and> (\<exists>b out. cpe_pkt_fraghandle home_env stray_packet ((table box6, natm box6), [192, 168, 1, 7]) =
           Some (((table box6, natm box6), [192, 168, 1, 7]), b # out)
         \<and> out \<noteq> [] \<and> (\<forall>b \<in> set out. getn (skb_data b) 16 4 = Some [192, 168, 1, 7]))"
proof -
  have I: "nat_inv (table box6) (natm box6)" using box6_facts(1) by (simp add: cpe_inv_def)
  let ?k = "\<lparr>down_dstip = 0x09090909, down_newport = 1024, down_proto = 17\<rparr>"
  have k: "createpktdownkey stray_packet = Some ?k"
    by (simp add: createpktdownkey_def stray_packet_def get8_def get16_def get32_def nth_append word_cat_eq IPPROTO_UDP_def)
  have p: "stray_packet ! 0 = 0x45" "stray_packet ! 9 = IPPROTO_TCP \<or> stray_packet ! 9 = IPPROTO_UDP" "length stray_packet = 1600"
    by (simp_all add: stray_packet_def IPPROTO_UDP_def nth_append)
  have l: "1500 < length stray_packet" "length stray_packet < 2 ^ 16" unfolding p(3) by simp_all
  have e: "piece_mem home_env j" "csum_ok (down_send_check home_env)" for j by (simp_all add: home_env_def csum_ok_def)
  obtain fs b out where r: "nathandle (\<lambda>_. True) stray_packet (table box6, natm box6) = Some ((table box6, natm box6), stray_packet, -1)"
    "cpe_pkt_fraghandle home_env stray_packet ((table box6, natm box6), [192, 168, 1, 7]) =
       Some (((table box6, natm box6), [192, 168, 1, 7]), b # out)"
    "plan_from 1480 (length stray_packet - 20) 0 fs" "length out + 1 = length fs"
    "\<forall>b \<in> set out. getn (skb_data b) 16 4 = Some [192, 168, 1, 7]"
    using unknown_fragments_delivered [OF I k _ p(1,2) l e, where dst = "[192, 168, 1, 7]" and mem = "\<lambda>_. True"]
    by (simp add: box6_facts(4)) blast
  have "out \<noteq> []"
  proof
    assume "out = []"
    then obtain f where "fs = [f]" using r(4) by (cases fs) auto
    then show False using r(3) p(3) by (cases f) auto
  qed
  then show ?thesis using r(1,2,5) by blast
qed

theorem bare_fragment_divides_by_zero_witness:
  "stream_down_hook home_env box6 \<lparr>frags = empty_state, destip = replicate 4 0\<rparr>
     (tunnel_skb (bare_fragment (replicate 16 3) (replicate 16 6) 5 (0x45 # replicate 19 0))) = None"
proof -
  let ?fr = "\<lparr>frags = empty_state, destip = replicate 4 0\<rparr>" and ?h = "0x45 # replicate 19 (0 :: u8)"
  have l: "length (replicate 16 (3 :: u8)) = 16" "replicate 16 6 = IPv6LocalAddr (laft (natm box6))" "length (replicate 16 (6 :: u8)) = 16"
    "length ?h = 20" "replicate 16 (3 :: u8) \<noteq> replicate 16 6"
    using box6_facts(5) by (simp_all add: lease6_def)
  have e: "copy_ok home_env" "cb_ok home_env" "tab_ok home_env j" for j by (simp_all add: home_env_def)
  have f: "length (pshashtable (frags ?fr)) = MAX_SHASH_SIZE" "length (frag4buf (frags ?fr)) = 66000"
    "ShashBucketFind (pshashtable (frags ?fr)) k = None" for k
    by (simp_all add: empty_state_def ShashBucketFind_def bucket_index_def MAX_SHASH_SIZE_def)
  have s: "skb_data (tunnel_skb (bare_fragment (replicate 16 3) (replicate 16 6) 5 ?h)) = bare_fragment (replicate 16 3) (replicate 16 6) 5 ?h"
    by (simp add: tunnel_skb_def)
  show ?thesis by (rule bare_fragment_divides_by_zero [OF l s e f])
qed

end
