(* ===== verification/PcpClient.thy ===== *)
theory PcpClient
  imports CpePorts
begin

text \<open>
  The user process of the customer's box that asks the carrier for a lease
  (\<open>TI/mess-handle/src/pcpportsetentity.c\<close>), renews it, and hands it to the kernel module of the box
  (\<open>entry.c\<close>, \<open>commit.c\<close>).  What the sockets, the clock and the routes of packets do is a list of events.
\<close>

section \<open>The context\<close>

definition PCP_VER :: u8 where "PCP_VER = 0x01"
definition PCP_RESP :: u8 where "PCP_RESP = 0x01"
definition PCP_OP_CODE :: u8 where "PCP_OP_CODE = 100"
definition PCP_PORT :: u16 where "PCP_PORT = 5351"
definition MAX_RETRANSTIME :: nat where "MAX_RETRANSTIME = 512"
definition INIT_RETRANSITME :: nat where "INIT_RETRANSITME = 2"
definition MAX_PCPPORTSET_MSG_LEN :: nat where "MAX_PCPPORTSET_MSG_LEN = 1024"
definition RET_DORP :: int where "RET_DORP = -1"
definition RET_INVAILD_EPOCH :: int where "RET_INVAILD_EPOCH = -2"
definition RET_MSG_ERR :: int where "RET_MSG_ERR = -3"

text \<open>The socket is not part of it.  \<open>uiExternIPv4\<close> is the value the processor sees in the four bytes.\<close>

record PCPPORTSET_CTX =
  uiExternIPv4 :: u32
  ctx_start :: u16
  ctx_end :: u16
  usValue :: u16
  usMask :: u16
  uiLeftTime :: u32
  uiSrvLastEpochTime :: u32
  uiCltCurEpochTime :: u32
  uiCltPreEpochTIme :: u32
  aucCltIPv6 :: "u8 list"
  aucSrvIPv6 :: "u8 list"
  usPcpPort :: u16

text \<open>\<open>None\<close>: when there is no memory for it, the error path reads the socket in the context that is not there.\<close>

definition PCPPortSetContextInit :: "bool \<Rightarrow> bool \<Rightarrow> u8 list \<Rightarrow> u8 list \<Rightarrow> u16 \<Rightarrow> PCPPORTSET_CTX option option" where
  "PCPPortSetContextInit malloc_ok socket_ok clt srv port =
     (if \<not> malloc_ok then None
      else Some (if \<not> socket_ok then None
                 else Some \<lparr>uiExternIPv4 = 0, ctx_start = 0, ctx_end = 0, usValue = 0, usMask = 0,
                        uiLeftTime = 24 * 60 * 60, uiSrvLastEpochTime = 0, uiCltCurEpochTime = 0, uiCltPreEpochTIme = 0,
                        aucCltIPv6 = clt, aucSrvIPv6 = srv, usPcpPort = port\<rparr>))"

definition PCPPortSetSrvAddr :: "PCPPORTSET_CTX \<Rightarrow> u8 list \<Rightarrow> PCPPORTSET_CTX" where
  "PCPPortSetSrvAddr c SrvAddress = c\<lparr>aucSrvIPv6 := SrvAddress\<rparr>"

section \<open>The answer\<close>

text \<open>The epoch of the server against the clock: the context with the times noted, and whether they do not fit.\<close>

definition update_epoch :: "u32 \<Rightarrow> u32 \<Rightarrow> PCPPORTSET_CTX \<Rightarrow> PCPPORTSET_CTX \<times> bool" where
  "update_epoch now uiSrvCurEpoch c =
     (let c = (if uiCltCurEpochTime c = 0 then c\<lparr>uiCltCurEpochTime := now, uiCltPreEpochTIme := now\<rparr>
               else c\<lparr>uiCltCurEpochTime := now\<rparr>)
      in if uiSrvLastEpochTime c = 0 then (c\<lparr>uiSrvLastEpochTime := uiSrvCurEpoch\<rparr>, False)
         else let uiCltEpochDelt = uiCltCurEpochTime c - uiCltPreEpochTIme c;
                  uiSrvEpochDelt = uiSrvCurEpoch - uiSrvLastEpochTime c;
                  bInvaild = (if uiSrvLastEpochTime c > uiSrvCurEpoch then True
                              else uiCltEpochDelt + 2 < uiSrvEpochDelt - uiSrvEpochDelt div 16
                                \<or> uiSrvEpochDelt + 2 < uiCltEpochDelt - uiCltEpochDelt div 16)
              in (c\<lparr>uiCltPreEpochTIme := uiCltCurEpochTime c, uiSrvLastEpochTime := uiSrvCurEpoch\<rparr>, bInvaild))"

text \<open>The range and the address of a successful answer.\<close>

definition store_lease :: "u16 \<Rightarrow> u16 \<Rightarrow> u32 \<Rightarrow> PCPPORTSET_CTX \<Rightarrow> PCPPORTSET_CTX" where
  "store_lease pmask val ext_ip c =
     (let usPortRange = not pmask + 1
      in c\<lparr>usMask := pmask, usValue := val, uiExternIPv4 := ext_ip, ctx_start := val, ctx_end := val + usPortRange - 1\<rparr>)"

text \<open>
  \<open>buf\<close> is the whole receive buffer, of which the last \<open>uiLen\<close> bytes received are the answer.  With the
  result comes the error code that is printed.
\<close>

definition PCPResponseHandle ::
  "u32 \<Rightarrow> PCPPORTSET_CTX \<Rightarrow> u8 list \<Rightarrow> nat \<Rightarrow> (PCPPORTSET_CTX \<times> int \<times> u8 option) option" where
  "PCPResponseHandle now c buf uiLen =
     (if uiLen < 3 \<or> uiLen > 1024 \<or> uiLen mod 4 \<noteq> 0 then Some (c, RET_DORP, None)
      else do {
        b \<leftarrow> get8 buf 1;
        if drop_bit 7 b OR PCP_RESP = 0 then Some (c, RET_DORP, None)
        else if take_bit 7 b \<noteq> PCP_OP_CODE then Some (c, RET_DORP, None)
        else do {
          life \<leftarrow> get32 buf 4;
          epoch \<leftarrow> get32 buf 8;
          let (c, bInvaild) = update_epoch now epoch (c\<lparr>uiLeftTime := life\<rparr>);
          if bInvaild then Some (c, RET_INVAILD_EPOCH, None)
          else do {
            ucResultCode \<leftarrow> get8 buf 3;
            if ucResultCode \<noteq> 0 then Some (c, RET_MSG_ERR, Some ucResultCode)
            else do {
              pmask \<leftarrow> get16 buf 50;
              val \<leftarrow> get16 buf 48;
              ext_ip \<leftarrow> ld32 buf 40;
              Some (store_lease pmask val ext_ip c, 0, None) } } } })"

section \<open>The request\<close>

text \<open>The suggested address is the last one, its bytes turned round by \<open>htonl\<close>.\<close>

definition pcp_request :: "PCPPORTSET_CTX \<Rightarrow> u32 \<Rightarrow> u8 list" where
  "pcp_request c lt =
     [PCP_VER, PCP_OP_CODE] @ [0, 0] @ be32 lt @ aucCltIPv6 c
     @ replicate 4 0 @ replicate 10 0 @ [0xff, 0xff] @ be32 (uiExternIPv4 c)
     @ [0, 0] @ be16 4 @ be16 (usValue c) @ be16 (usMask c)"

text \<open>
  A receive fails, with \<open>errno\<close> being \<open>EAGAIN\<close> or not, or yields a datagram and its source; for an empty one
  \<open>errno\<close> is looked at too.  An event of the loop: whether the send succeeds, the time, and the receive.
\<close>

datatype rcv = Failed bool | Datagram bool "u8 list" u16 "u8 list"

type_synonym event = "bool \<times> u32 \<times> rcv"

text \<open>What the loop does outside: datagrams sent to an address and port, and seconds slept.\<close>

datatype act = Sent "u8 list" u16 "u8 list" | Slept nat

definition next_retransmit :: "nat \<Rightarrow> nat" where
  "next_retransmit t = (if 2 * t > MAX_RETRANSTIME then MAX_RETRANSTIME else 2 * t)"

text \<open>\<open>None\<close> when the events end before the loop does.\<close>

fun pcp_loop ::
  "u8 list \<Rightarrow> u8 list \<times> u16 \<Rightarrow> u8 list \<Rightarrow> nat \<Rightarrow> event list \<Rightarrow> PCPPORTSET_CTX \<Rightarrow> (PCPPORTSET_CTX \<times> int \<times> act list) option" where
  "pcp_loop req addr buf t [] c = None"
| "pcp_loop req addr buf t ((snd_ok, now, ev) # evs) c =
     (if \<not> snd_ok then Some (c, -1, [])
      else let sent = Sent (fst addr) (snd addr) req;
               again = (\<lambda>eagain addr. if \<not> eagain then Some (c, -1, [sent])
                          else map_option (\<lambda>(c, r, as). (c, r, sent # Slept (next_retransmit t) # as))
                                 (pcp_loop req addr buf (next_retransmit t) evs c))
           in case ev of
                Failed eagain \<Rightarrow> again eagain addr
              | Datagram eagain src port d \<Rightarrow>
                  if d = [] then again eagain (src, port)
                  else if src \<noteq> aucSrvIPv6 c then Some (c, -1, [sent])
                  else do {
                    let d = take MAX_PCPPORTSET_MSG_LEN d;
                    buf \<leftarrow> put buf 0 d;
                    (c, iRet, _) \<leftarrow> PCPResponseHandle now c buf (length d);
                    if iRet = RET_INVAILD_EPOCH
                    then map_option (\<lambda>(c, r, as). (c, r, sent # as)) (pcp_loop req (src, port) buf INIT_RETRANSITME evs c)
                    else if iRet < 0 \<and> iRet \<noteq> RET_MSG_ERR then Some (c, -1, [sent])
                    else Some (c, 1, [sent]) })"

text \<open>The port is \<open>PCP_PORT\<close>, whatever the configuration says.\<close>

definition PCPRequestHandle :: "PCPPORTSET_CTX \<Rightarrow> u32 \<Rightarrow> event list \<Rightarrow> (PCPPORTSET_CTX \<times> int \<times> act list) option" where
  "PCPRequestHandle c lt evs =
     pcp_loop (pcp_request c lt) (aucSrvIPv6 c, PCP_PORT) (replicate MAX_PCPPORTSET_MSG_LEN 0) INIT_RETRANSITME evs c"

section \<open>The lease for the kernel module\<close>

record NATINFO =
  IPv6Local :: "u8 list"
  IPv6Remote :: "u8 list"
  nat_PubIP :: "u8 list"
  nat_LowPort :: u16
  nat_HighPort :: u16

definition natinfo_bytes :: "NATINFO \<Rightarrow> u8 list" where
  "natinfo_bytes n = IPv6Local n @ IPv6Remote n @ nat_PubIP n @ le16 (nat_LowPort n) @ le16 (nat_HighPort n)"

text \<open>\<open>SendMessage\<close>: the netlink header, with the number of the process, and the structure.\<close>

definition commit_message :: "u32 \<Rightarrow> u8 list \<Rightarrow> u8 list" where
  "commit_message pid mes = le32 (word_of_nat (16 + length mes)) @ le16 0 @ le16 0 @ le32 0 @ le32 pid @ mes"

definition set_natinfo :: "PCPPORTSET_CTX \<Rightarrow> NATINFO \<Rightarrow> NATINFO" where
  "set_natinfo c n = n\<lparr>nat_LowPort := ctx_start c, nat_HighPort := ctx_end c, nat_PubIP := le32 (uiExternIPv4 c),
                       IPv6Local := aucCltIPv6 c\<rparr>"

text \<open>One round of \<open>PCPWorkThread\<close>: the message to the kernel module, unless the lease is the one it has.\<close>

definition work_round ::
  "u32 \<Rightarrow> NATINFO \<Rightarrow> PCPPORTSET_CTX \<Rightarrow> event list \<Rightarrow> (NATINFO \<times> PCPPORTSET_CTX \<times> int \<times> act list \<times> u8 list option) option" where
  "work_round pid n c evs =
     do { (c, iRet, as) \<leftarrow> PCPRequestHandle c (uiLeftTime c) evs;
          if iRet < 0 then Some (n, c, iRet, as, None)
          else if nat_LowPort n = ctx_start c \<and> nat_HighPort n = ctx_end c \<and> nat_PubIP n = le32 (uiExternIPv4 c)
          then Some (n, c, iRet, as @ [Slept (unat (uiLeftTime c div 2))], None)
          else let n = set_natinfo c n
               in Some (n, c, iRet, as @ [Slept (unat (uiLeftTime c div 2))], Some (commit_message pid (natinfo_bytes n))) }"

text \<open>The rounds, one for each list of events, with the messages sent to the kernel module; a failure ends them.\<close>

fun PCPWorkThread ::
  "u32 \<Rightarrow> NATINFO \<Rightarrow> PCPPORTSET_CTX \<Rightarrow> event list list \<Rightarrow> (NATINFO \<times> PCPPORTSET_CTX \<times> u8 list list) option" where
  "PCPWorkThread pid n c [] = Some (n, c, [])"
| "PCPWorkThread pid n c (evs # rounds) =
     do { (n, c, iRet, as, msg) \<leftarrow> work_round pid n c evs;
          if iRet < 0 then Some (n, c, [])
          else do { (n, c, ms) \<leftarrow> PCPWorkThread pid n c rounds;
                    Some (n, c, (case msg of None \<Rightarrow> ms | Some m \<Rightarrow> m # ms)) } }"

text \<open>\<open>newPcpRequest\<close>, with the structure as the configuration file fills it.\<close>

definition newPcpRequest ::
  "u32 \<Rightarrow> NATINFO \<Rightarrow> PCPPORTSET_CTX \<Rightarrow> event list \<Rightarrow> (PCPPORTSET_CTX \<times> act list \<times> u8 list option) option" where
  "newPcpRequest pid n c evs =
     do { (c, iRet, as) \<leftarrow> PCPRequestHandle c (uiLeftTime c) evs;
          Some (c, as, if iRet < 0 then None else Some (commit_message pid (natinfo_bytes (set_natinfo c n)))) }"

text \<open>One packet of \<open>handleIcmp6Error\<close>.\<close>

definition icmp6_error ::
  "u32 \<Rightarrow> NATINFO \<Rightarrow> PCPPORTSET_CTX \<Rightarrow> u8 list \<Rightarrow> u8 list \<Rightarrow> event list \<Rightarrow> (PCPPORTSET_CTX \<times> act list \<times> u8 list option) option" where
  "icmp6_error pid n c src pkt evs =
     (if length pkt < 8 then Some (c, [], None)
      else if getn pkt 4 4 = Some [0xff, 0xff, 0xff, 0xff] then newPcpRequest pid n (PCPPortSetSrvAddr c src) evs
      else Some (c, [], None))"


section \<open>Bytes\<close>

lemma le_rev: "le16 x = rev (be16 x)" "le32 y = rev (be32 y)"
  by (simp_all add: le16_def be16_def le32_def be32_def)

lemma cat_bytes:
  fixes a b c d :: u8
  shows "be16 (word_cat a b) = [a, b]" "be32 (word_cat (word_cat a b :: u16) (word_cat c d :: u16)) = [a, b, c, d]"
proof -
  have "bit (ucast (drop_bit 8 (word_cat a b :: u16)) :: u8) n = bit a n" "bit (ucast (word_cat a b :: u16) :: u8) n = bit b n"
    if "n < 8" for n using that by (auto simp: bit_simps bit_word_cat_iff)
  then show "be16 (word_cat a b) = [a, b]" by (auto simp: be16_def intro!: bit_word_eqI)
  let ?w = "word_cat (word_cat a b :: u16) (word_cat c d :: u16) :: u32"
  have "bit (ucast (drop_bit 24 ?w) :: u8) n = bit a n" "bit (ucast (drop_bit 16 ?w) :: u8) n = bit b n"
    "bit (ucast (drop_bit 8 ?w) :: u8) n = bit c n" "bit (ucast ?w :: u8) n = bit d n"
    if "n < 8" for n using that by (auto simp: bit_simps bit_word_cat_iff)
  then show "be32 ?w = [a, b, c, d]" by (auto simp: be32_def intro!: bit_word_eqI)
qed

lemma take4: "i + 3 < length p \<Longrightarrow> take 4 (drop i p) = [p ! i, p ! (i + 1), p ! (i + 2), p ! (i + 3)]"
  by (rule nth_equalityI) (auto simp: less_Suc_eq numeral_eq_Suc)

lemma field_bytes:
  "get32 p i = Some x \<Longrightarrow> getn p i 4 = Some (be32 x)"
  "ld32 p i = Some x \<Longrightarrow> getn p i 4 = Some (le32 x)"
  by (auto simp: get32_def ld32_def getn_def take4 cat_bytes le_rev split: if_splits)

lemma le_fields:
  "ld32 (p @ le32 x @ q) (length p) = Some x" "ld16 (p @ le16 y @ q) (length p) = Some y"
  by (simp_all add: ld32_def ld16_def le32_def le16_def be32_def be16_def nth_append)

section \<open>Waiting\<close>

text \<open>Receives that time out.\<close>

definition timeouts :: "u32 list \<Rightarrow> event list" where
  "timeouts ts = map (\<lambda>now. (True, now, Failed True)) ts"

definition waits :: "act \<Rightarrow> nat \<Rightarrow> nat \<Rightarrow> act list" where
  "waits a t n = concat (map (\<lambda>i. [a, Slept ((next_retransmit ^^ Suc i) t)]) [0..<n])"

lemma waits_Suc: "waits a t (Suc n) = [a, Slept (next_retransmit t)] @ waits a (next_retransmit t) n"
  unfolding waits_def by (simp add: upt_conv_Cons map_Suc_upt [symmetric] funpow_swap1 o_def del: upt_Suc)

lemma pcp_loop_timeouts:
  "pcp_loop m addr buf t (timeouts ts @ evs) c
    = map_option (\<lambda>(c, r, as). (c, r, waits (Sent (fst addr) (snd addr) m) t (length ts) @ as))
        (pcp_loop m addr buf ((next_retransmit ^^ length ts) t) evs c)"
proof (induction ts arbitrary: t)
  case Nil
  show ?case by (simp add: timeouts_def waits_def option.map_ident case_prod_unfold)
next
  case (Cons x ts)
  have "pcp_loop m addr buf t (timeouts (x # ts) @ evs) c
    = map_option (\<lambda>(c, r, as). (c, r, Sent (fst addr) (snd addr) m # Slept (next_retransmit t) # as))
        (pcp_loop m addr buf (next_retransmit t) (timeouts ts @ evs) c)"
    by (simp add: timeouts_def Let_def)
  then show ?case
    by (simp add: Cons.IH waits_Suc funpow_swap1 option.map_comp o_def case_prod_unfold)
qed

lemma retransmit_time: "(next_retransmit ^^ n) 2 = min 512 (2 ^ (n + 1))"
proof (induction n)
  case (Suc n)
  have "(256 :: nat) \<le> 2 ^ n \<or> 2 ^ n < (256 :: nat)" by linarith
  then show ?case using Suc by (auto simp: next_retransmit_def MAX_RETRANSTIME_def)
qed simp

text \<open>C20: A request that is not answered is sent again, each time after twice the time, from 4 seconds up to 512, until an
  answer comes.\<close>

theorem retransmissions_back_off:
  "PCPRequestHandle c lt (timeouts ts @ evs)
    = map_option (\<lambda>(c', r, as). (c', r, concat (map (\<lambda>i. [Sent (aucSrvIPv6 c) PCP_PORT (pcp_request c lt), Slept (min 512 (2 ^ (i + 2)))])
          [0..<length ts]) @ as))
        (pcp_loop (pcp_request c lt) (aucSrvIPv6 c, PCP_PORT) (replicate 1024 0) (min 512 (2 ^ (length ts + 1))) evs c)"
proof -
  have "waits a INIT_RETRANSITME n = concat (map (\<lambda>i. [a, Slept (min 512 (2 ^ (i + 2)))]) [0..<n])" for a n
    using retransmit_time [of "Suc i" for i] by (simp add: waits_def INIT_RETRANSITME_def del: funpow.simps)
  then show ?thesis
    using retransmit_time [of "length ts"]
    by (simp add: PCPRequestHandle_def pcp_loop_timeouts INIT_RETRANSITME_def MAX_PCPPORTSET_MSG_LEN_def)
qed

section \<open>The epoch\<close>

text \<open>C19: The test of the epoch is the one of the protocol on the true differences: time must not run backwards on the server,
  and neither clock may be ahead of the other by more than a sixteenth and two seconds; if the client's
  clock does not run backwards and neither difference is within two seconds of the largest value.\<close>

theorem epoch_check_exact:
  assumes "uiCltCurEpochTime c \<noteq> 0" "uiSrvLastEpochTime c \<noteq> 0" "uiCltPreEpochTIme c \<le> now"
    "unat now - unat (uiCltPreEpochTIme c) < 2 ^ 32 - 2" "unat srv - unat (uiSrvLastEpochTime c) < 2 ^ 32 - 2"
  shows "snd (update_epoch now srv c) \<longleftrightarrow>
    (let cd = int (unat now) - int (unat (uiCltPreEpochTIme c)); sd = int (unat srv) - int (unat (uiSrvLastEpochTime c))
     in sd < 0 \<or> cd + 2 < sd - sd div 16 \<or> sd + 2 < cd - cd div 16)"
proof (cases "uiSrvLastEpochTime c > srv")
  case True
  then have "uint srv < uint (uiSrvLastEpochTime c)" by (simp add: word_less_def)
  then show ?thesis using assms(1,2) True by (simp add: update_epoch_def Let_def)
next
  case False
  define cd sd where d: "cd = now - uiCltPreEpochTIme c" "sd = srv - uiSrvLastEpochTime c"
  have le: "uiSrvLastEpochTime c \<le> srv" using False by simp
  have n: "unat cd = unat now - unat (uiCltPreEpochTIme c)" "unat sd = unat srv - unat (uiSrvLastEpochTime c)"
    unfolding d using assms(3) le by (simp_all add: unat_sub)
  have z: "int (unat cd) = int (unat now) - int (unat (uiCltPreEpochTIme c))"
    "int (unat sd) = int (unat srv) - int (unat (uiSrvLastEpochTime c))"
    using n assms(3) le by (simp_all add: word_le_nat_alt of_nat_diff)
  have step: "(x + 2 < y - y div 16) = (int (unat x) + 2 < int (unat y) - int (unat y) div 16)"
    if "unat x < 2 ^ 32 - 2" for x y :: u32
  proof -
    have "unat (x + 2) = unat x + 2" using that by (simp add: unat_word_ariths)
    moreover have "unat (y - y div 16) = unat y - unat y div 16"
      by (subst unat_sub) (simp_all add: word_le_nat_alt unat_div)
    ultimately have "(x + 2 < y - y div 16) = (unat x + 2 < unat y - unat y div 16)" by (simp add: word_less_nat_alt)
    moreover have "(m + 2 < n - n div 16) = (int m + 2 < int n - int n div 16)" for m n :: nat
    proof -
      have "int (n - n div 16) = int n - int n div 16" by (simp add: of_nat_diff zdiv_int)
      then show ?thesis by linarith
    qed
    ultimately show ?thesis by metis
  qed
  have "snd (update_epoch now srv c) \<longleftrightarrow> cd + 2 < sd - sd div 16 \<or> sd + 2 < cd - cd div 16"
    using assms(1,2) False by (simp add: update_epoch_def Let_def d)
  moreover have "\<not> uint srv < uint (uiSrvLastEpochTime c)" using le by (simp add: word_le_def)
  ultimately show ?thesis
    using step [of cd sd] step [of sd cd] assms(4,5) n unfolding z Let_def by simp
qed

theorem epoch_check_exact_witness:
  "snd (update_epoch 1000 900 \<lparr>uiExternIPv4 = 0, ctx_start = 0, ctx_end = 0, usValue = 0, usMask = 0, uiLeftTime = 120,
      uiSrvLastEpochTime = 100, uiCltCurEpochTime = 900, uiCltPreEpochTIme = 900, aucCltIPv6 = [], aucSrvIPv6 = [], usPcpPort = 5351\<rparr>)"
proof -
  let ?c = "\<lparr>uiExternIPv4 = 0, ctx_start = 0, ctx_end = 0, usValue = 0, usMask = 0, uiLeftTime = 120,
      uiSrvLastEpochTime = 100, uiCltCurEpochTime = 900, uiCltPreEpochTIme = 900, aucCltIPv6 = [], aucSrvIPv6 = [], usPcpPort = 5351\<rparr>"
  have "uiCltCurEpochTime ?c \<noteq> 0" "uiSrvLastEpochTime ?c \<noteq> 0" "uiCltPreEpochTIme ?c \<le> 1000"
    "unat (1000 :: u32) - unat (uiCltPreEpochTIme ?c) < 2 ^ 32 - 2" "unat (900 :: u32) - unat (uiSrvLastEpochTime ?c) < 2 ^ 32 - 2"
    by simp_all
  from epoch_check_exact [OF this] show ?thesis by simp
qed

section \<open>An answer\<close>

lemma request_fields:
  assumes "length (aucCltIPv6 c) = 16"
  shows "length (pcp_request c lt) = 52" "get8 (pcp_request c lt) 0 = Some 1" "get8 (pcp_request c lt) 1 = Some 100"
    "get32 (pcp_request c lt) 4 = Some lt" "getn (pcp_request c lt) 8 16 = Some (aucCltIPv6 c)"
    "get8 (pcp_request c lt) 44 = Some 0" "get16 (pcp_request c lt) 46 = Some 4"
proof -
  let ?h = "[PCP_VER, PCP_OP_CODE, 0, 0]" and ?t = "replicate 4 0 @ replicate 10 0 @ [0xff, 0xff] @ be32 (uiExternIPv4 c)"
  let ?o = "[0, 0] @ be16 4 @ be16 (usValue c) @ be16 (usMask c)"
  have e: "pcp_request c lt = ?h @ be32 lt @ aucCltIPv6 c @ ?t @ ?o" by (simp add: pcp_request_def)
  have s: "pcp_request c lt = (?h @ be32 lt @ aucCltIPv6 c @ ?t) @ ?o" by (simp add: pcp_request_def)
  show "length (pcp_request c lt) = 52" using assms by (simp add: pcp_request_def)
  show "get8 (pcp_request c lt) 0 = Some 1" "get8 (pcp_request c lt) 1 = Some 100"
    by (simp_all add: pcp_request_def get8_def PCP_VER_def PCP_OP_CODE_def)
  show "get32 (pcp_request c lt) 4 = Some lt" unfolding e by (subst get32_append) simp_all
  have g: "getn (x @ y) 0 16 = Some x" if "length x = 16" for x y :: "u8 list" using that by (simp add: getn_def)
  have "pcp_request c lt = (?h @ be32 lt) @ aucCltIPv6 c @ ?t @ ?o" using e by simp
  then show "getn (pcp_request c lt) 8 16 = Some (aucCltIPv6 c)"
    using getn_append [of "?h @ be32 lt" 8 "aucCltIPv6 c @ ?t @ ?o" 16] g [OF assms] by simp
  have l: "length (?h @ be32 lt @ aucCltIPv6 c @ ?t) = 44" using assms by simp
  have "get8 ?o 0 = Some 0" "get16 ?o 2 = Some 4" by (simp_all add: get8_def get16_def be16_def word_cat_eq)
  then show "get8 (pcp_request c lt) 44 = Some 0" "get16 (pcp_request c lt) 46 = Some 4"
    unfolding s using get8_append [OF eq_refl [OF l]] get16_append [of "?h @ be32 lt @ aucCltIPv6 c @ ?t" 46 ?o] l by simp_all
qed

text \<open>What \<open>update_epoch\<close> leaves alone.\<close>

lemma update_epoch_sel [simp]:
  "aucSrvIPv6 (fst (update_epoch now e c)) = aucSrvIPv6 c" "aucCltIPv6 (fst (update_epoch now e c)) = aucCltIPv6 c"
  "uiLeftTime (fst (update_epoch now e c)) = uiLeftTime c" "ctx_start (fst (update_epoch now e c)) = ctx_start c"
  "ctx_end (fst (update_epoch now e c)) = ctx_end c" "uiExternIPv4 (fst (update_epoch now e c)) = uiExternIPv4 c"
  by (simp_all add: update_epoch_def Let_def)

text \<open>The first answer, of any length the client takes, read from the buffer it lies in.\<close>

definition in_buffer :: "u8 list \<Rightarrow> u8 list" where
  "in_buffer d = d @ replicate (1024 - length d) 0"

definition taken_answer :: "u32 \<Rightarrow> PCPPORTSET_CTX \<Rightarrow> u8 list \<Rightarrow> PCPPORTSET_CTX \<Rightarrow> bool" where
  "taken_answer now c d c1 \<longleftrightarrow> 3 \<le> length d \<and> length d \<le> 1024 \<and> 4 dvd length d \<and> take_bit 7 (d ! 1) = PCP_OP_CODE
     \<and> (\<exists>life e. get32 (in_buffer d) 4 = Some life \<and> get32 (in_buffer d) 8 = Some e
          \<and> update_epoch now e (c\<lparr>uiLeftTime := life\<rparr>) = (c1, False))"

lemma answer_handled:
  assumes "taken_answer now c d c1"
  shows "PCPRequestHandle c lt ((True, now, Datagram ea (aucSrvIPv6 c) p d) # evs) =
    (do { rc \<leftarrow> get8 (in_buffer d) 3;
          c2 \<leftarrow> (if rc \<noteq> 0 then Some c1
                 else do { pmask \<leftarrow> get16 (in_buffer d) 50; val \<leftarrow> get16 (in_buffer d) 48; ip \<leftarrow> ld32 (in_buffer d) 40;
                           Some (store_lease pmask val ip c1) });
          Some (c2, 1, [Sent (aucSrvIPv6 c) PCP_PORT (pcp_request c lt)]) })"
proof -
  note A = assms [unfolded taken_answer_def]
  obtain life e where g: "get32 (in_buffer d) 4 = Some life" "get32 (in_buffer d) 8 = Some e"
    "update_epoch now e (c\<lparr>uiLeftTime := life\<rparr>) = (c1, False)" using A by blast
  have l: "3 \<le> length d" "length d \<le> 1024" "length d mod 4 = 0" "d \<noteq> []" "take 1024 d = d"
    using A by (auto elim: dvdE)
  have b: "get8 (in_buffer d) 1 = Some (d ! 1)" using l(1) by (simp add: in_buffer_def get8_def nth_append)
  have r: "drop_bit 7 (d ! 1) OR PCP_RESP \<noteq> 0"
  proof
    assume "drop_bit 7 (d ! 1) OR PCP_RESP = 0"
    then have "\<not> bit (drop_bit 7 (d ! 1) OR 1) 0" by (simp add: PCP_RESP_def)
    then show False by (simp add: bit_or_iff)
  qed
  have p: "put (replicate 1024 0) 0 d = Some (in_buffer d)" using l(2) by (simp add: put_def in_buffer_def)
  have t: "take_bit 7 (d ! 1) = PCP_OP_CODE" using A by simp
  have h: "PCPResponseHandle now c (in_buffer d) (length d) =
    do { rc \<leftarrow> get8 (in_buffer d) 3;
         if rc \<noteq> 0 then Some (c1, RET_MSG_ERR, Some rc)
         else do { pmask \<leftarrow> get16 (in_buffer d) 50; val \<leftarrow> get16 (in_buffer d) 48; ip \<leftarrow> ld32 (in_buffer d) 40;
                   Some (store_lease pmask val ip c1, 0, None) } }"
    using l b r t g by (simp add: PCPResponseHandle_def)
  show ?thesis
    using l(4,5) p
    by (simp add: PCPRequestHandle_def MAX_PCPPORTSET_MSG_LEN_def Let_def h RET_INVAILD_EPOCH_def RET_MSG_ERR_def
      option_simps split: Option.bind_splits)
qed

lemma store_lease_sel [simp]:
  "ctx_start (store_lease m v ip c) = v" "ctx_end (store_lease m v ip c) = v + (not m + 1) - 1" "uiExternIPv4 (store_lease m v ip c) = ip"
  "uiLeftTime (store_lease m v ip c) = uiLeftTime c" "aucCltIPv6 (store_lease m v ip c) = aucCltIPv6 c"
  by (simp_all add: store_lease_def Let_def)

text \<open>An answer that grants the range \<open>val\<close> with the mask \<open>m\<close> of the address \<open>ip\<close>, in network order.\<close>

definition granting :: "u8 list \<Rightarrow> u16 \<Rightarrow> u16 \<Rightarrow> u8 list \<Rightarrow> bool" where
  "granting d val m ip \<longleftrightarrow> get8 (in_buffer d) 3 = Some 0 \<and> get16 (in_buffer d) 48 = Some val
     \<and> get16 (in_buffer d) 50 = Some m \<and> getn (in_buffer d) 40 4 = Some ip"

lemma granting_handled:
  assumes "taken_answer now c d c1" "granting d val m ip"
  obtains x where "le32 x = ip"
    "PCPRequestHandle c lt ((True, now, Datagram ea (aucSrvIPv6 c) p d) # evs) =
       Some (store_lease m val x c1, 1, [Sent (aucSrvIPv6 c) PCP_PORT (pcp_request c lt)])"
proof -
  note G = assms(2) [unfolded granting_def]
  have "40 + 3 < length (in_buffer d)" using G by (auto simp: get16_def split: if_splits)
  then obtain x where x: "ld32 (in_buffer d) 40 = Some x" by (simp add: ld32_def)
  then have "le32 x = ip" using field_bytes(2) G by fastforce
  then show ?thesis using that answer_handled [OF assms(1)] G x by simp
qed

text \<open>A context as it is made.\<close>

definition new_ctx :: "u8 list \<Rightarrow> u8 list \<Rightarrow> u16 \<Rightarrow> PCPPORTSET_CTX" where
  "new_ctx clt srv port = \<lparr>uiExternIPv4 = 0, ctx_start = 0, ctx_end = 0, usValue = 0, usMask = 0,
     uiLeftTime = 24 * 60 * 60, uiSrvLastEpochTime = 0, uiCltCurEpochTime = 0, uiCltPreEpochTIme = 0,
     aucCltIPv6 = clt, aucSrvIPv6 = srv, usPcpPort = port\<rparr>"

lemma new_ctx: "PCPPortSetContextInit True True clt srv port = Some (Some (new_ctx clt srv port))"
  by (simp add: PCPPortSetContextInit_def new_ctx_def)

lemma new_ctx_sel [simp]: "aucSrvIPv6 (new_ctx clt srv port) = srv" "aucCltIPv6 (new_ctx clt srv port) = clt"
  "uiExternIPv4 (new_ctx clt srv port) = 0" "ctx_start (new_ctx clt srv port) = 0" "ctx_end (new_ctx clt srv port) = 0"
  by (simp_all add: new_ctx_def)

text \<open>A new client takes any first answer, whatever its epoch.\<close>

lemma first_answer:
  assumes "3 \<le> length d" "length d \<le> 1024" "4 dvd length d" "take_bit 7 (d ! 1) = PCP_OP_CODE" "get32 (in_buffer d) 4 = Some life"
  obtains c1 where "taken_answer now (new_ctx clt srv port) d c1" "uiLeftTime c1 = life" "aucCltIPv6 c1 = clt" "aucSrvIPv6 c1 = srv"
    "uiExternIPv4 c1 = 0" "ctx_start c1 = 0" "ctx_end c1 = 0"
proof -
  let ?c = "(new_ctx clt srv port)\<lparr>uiLeftTime := life\<rparr>"
  have "12 \<le> length (in_buffer d)" using assms(2) by (simp add: in_buffer_def)
  then obtain e where e: "get32 (in_buffer d) 8 = Some e" by (simp add: get32_def)
  have "update_epoch now e ?c = (fst (update_epoch now e ?c), False)"
    by (simp add: update_epoch_def new_ctx_def Let_def)
  then have "taken_answer now (new_ctx clt srv port) d (fst (update_epoch now e ?c))"
    using assms e by (simp add: taken_answer_def)
  then show ?thesis by (rule that) (simp_all add: new_ctx_def)
qed

section \<open>Properties of the client\<close>

lemma le32_zero: "le32 0 = [0, 0, 0, 0]" by (simp add: le32_def be32_def)

text \<open>An answer that carries the lease the kernel module has is not sent to it again, which would clear its
  maps of ports under the sessions.\<close>

theorem unchanged_lease_not_sent:
  assumes "taken_answer now c d c1" "granting d val m ip" "nat_LowPort n = val" "nat_HighPort n = val + not m" "nat_PubIP n = ip"
  shows "\<exists>c2. work_round pid n c ((True, now, Datagram ea (aucSrvIPv6 c) p d) # evs) =
      Some (n, c2, 1, [Sent (aucSrvIPv6 c) PCP_PORT (pcp_request c (uiLeftTime c)), Slept (unat (uiLeftTime c2 div 2))], None)
    \<and> uiLeftTime c2 = uiLeftTime c1"
proof -
  obtain x where "le32 x = ip" "PCPRequestHandle c (uiLeftTime c) ((True, now, Datagram ea (aucSrvIPv6 c) p d) # evs) =
       Some (store_lease m val x c1, 1, [Sent (aucSrvIPv6 c) PCP_PORT (pcp_request c (uiLeftTime c))])"
    by (rule granting_handled [OF assms(1,2)])
  then show ?thesis using assms(3-5) by (simp add: work_round_def)
qed

definition answer6 :: "u8 list" where
  "answer6 = [1, 0xE4, 0, 0] @ be32 120 @ be32 77 @ replicate 28 0 @ [1, 2, 3, 4] @ replicate 4 0 @ be16 1024 @ be16 0xfc00"

definition nat6 :: NATINFO where
  "nat6 = \<lparr>IPv6Local = replicate 16 6, IPv6Remote = replicate 16 1, nat_PubIP = [1, 2, 3, 4], nat_LowPort = 1024, nat_HighPort = 2047\<rparr>"

lemma answer6_facts:
  "3 \<le> length answer6" "length answer6 \<le> 1024" "4 dvd length answer6" "take_bit 7 (answer6 ! 1) = PCP_OP_CODE"
  "get32 (in_buffer answer6) 4 = Some 120" "granting answer6 1024 0xfc00 [1, 2, 3, 4]"
proof -
  have l: "length answer6 = 52" by (simp add: answer6_def)
  then show "3 \<le> length answer6" "length answer6 \<le> 1024" "4 dvd length answer6" by simp_all
  show "take_bit 7 (answer6 ! 1) = PCP_OP_CODE" by (simp add: answer6_def PCP_OP_CODE_def)
  show "get32 (in_buffer answer6) 4 = Some 120" "granting answer6 1024 0xfc00 [1, 2, 3, 4]"
    by (simp_all add: in_buffer_def answer6_def granting_def get8_def get16_def get32_def getn_def be16_def be32_def nth_append word_cat_eq)
qed

theorem unchanged_lease_not_sent_witness:
  "\<exists>c2 as. work_round 9 nat6 (new_ctx (replicate 16 6) (replicate 16 1) 5351) [(True, 50, Datagram False (replicate 16 1) 5351 answer6)]
    = Some (nat6, c2, 1, as, None)"
proof -
  obtain c1 where c1: "taken_answer 50 (new_ctx (replicate 16 6) (replicate 16 1) 5351) answer6 c1"
    by (rule first_answer [OF answer6_facts(1-5)])
  have n: "nat_LowPort nat6 = 1024" "nat_HighPort nat6 = 1024 + not 0xfc00" "nat_PubIP nat6 = [1, 2, 3, 4]" by (simp_all add: nat6_def)
  show ?thesis using unchanged_lease_not_sent [OF c1 answer6_facts(6) n, of 9 False 5351 "[]"] by auto
qed

text \<open>C18: A datagram of four bytes is taken for an answer; the fields behind it are those of the empty buffer.  The kernel module is
  given all ports of the address 0.0.0.0, and the next request, at once, is one to delete the lease.\<close>

theorem short_answer_leases_everything:
  assumes "take_bit 7 b = PCP_OP_CODE" "nat_HighPort n \<noteq> 0xffff" "length clt = 16"
  shows "\<exists>n' c'. work_round pid n (new_ctx clt srv port) ((True, now, Datagram ea srv p [v, b, x, 0]) # evs)
      = Some (n', c', 1, [Sent srv PCP_PORT (pcp_request (new_ctx clt srv port) 86400), Slept 0], Some (commit_message pid (natinfo_bytes n')))
    \<and> nat_LowPort n' = 0 \<and> nat_HighPort n' = 0xffff \<and> nat_PubIP n' = [0, 0, 0, 0] \<and> get32 (pcp_request c' (uiLeftTime c')) 4 = Some 0"
proof -
  let ?d = "[v, b, x, 0]"
  have f0: "length ?d = 4" by simp
  have f: "3 \<le> length ?d" "length ?d \<le> 1024" "4 dvd length ?d" unfolding f0 by simp_all
  have op: "take_bit 7 (?d ! 1) = PCP_OP_CODE" using assms(1) by simp
  have z: "in_buffer ?d = ?d @ replicate 1020 0" by (simp add: in_buffer_def)
  have g: "get32 (in_buffer ?d) 4 = Some 0" "granting ?d 0 0 [0, 0, 0, 0]"
    by (simp_all add: z granting_def get8_def get16_def get32_def getn_def nth_append numeral_eq_Suc word_cat_eq)
  obtain c1 where c1: "taken_answer now (new_ctx clt srv port) ?d c1" "uiLeftTime c1 = 0" "aucCltIPv6 c1 = clt"
    by (rule first_answer [OF f op g(1)])
  obtain y where y: "le32 y = [0, 0, 0, 0]"
    "PCPRequestHandle (new_ctx clt srv port) (uiLeftTime (new_ctx clt srv port)) ((True, now, Datagram ea srv p ?d) # evs) =
       Some (store_lease 0 0 y c1, 1, [Sent srv PCP_PORT (pcp_request (new_ctx clt srv port) (uiLeftTime (new_ctx clt srv port)))])"
    by (rule granting_handled [OF c1(1) g(2)]) simp
  let ?c = "store_lease 0 0 y c1"
  have m1: "(- 1 :: u16) = 0xffff" by simp
  have t: "uiLeftTime (new_ctx clt srv port) = 86400" by (simp add: new_ctx_def)
  have r: "get32 (pcp_request ?c (uiLeftTime ?c)) 4 = Some 0" using request_fields(4) [of ?c "uiLeftTime ?c"] c1(2,3) assms(3) by simp
  have "work_round pid n (new_ctx clt srv port) ((True, now, Datagram ea srv p ?d) # evs)
      = Some (set_natinfo ?c n, ?c, 1, [Sent srv PCP_PORT (pcp_request (new_ctx clt srv port) 86400), Slept 0],
              Some (commit_message pid (natinfo_bytes (set_natinfo ?c n))))"
    using y(2) assms(2) c1(2) unfolding t by (simp add: work_round_def t m1 Let_def)
  then show ?thesis using r y(1) by (intro exI [of _ "set_natinfo ?c n"] exI [of _ ?c]) (simp add: set_natinfo_def)
qed

theorem short_answer_leases_everything_witness:
  "\<exists>n' c' as. work_round 9 nat6 (new_ctx (replicate 16 6) (replicate 16 1) 5351) [(True, 50, Datagram False (replicate 16 1) 5351 [1, 100, 0, 0])]
      = Some (n', c', 1, as, Some (commit_message 9 (natinfo_bytes n'))) \<and> nat_LowPort n' = 0 \<and> nat_HighPort n' = 0xffff"
proof -
  have h: "take_bit 7 (100 :: u8) = PCP_OP_CODE" "nat_HighPort nat6 \<noteq> 0xffff" "length (replicate 16 (6 :: u8)) = 16"
    by (simp_all add: PCP_OP_CODE_def nat6_def)
  show ?thesis using short_answer_leases_everything [OF h, of 9 "replicate 16 1" 5351 50 False 5351 1 0 "[]"] by blast
qed

text \<open>An answer that reports an error counts as done: a new client gives the kernel module the port 0 of 0.0.0.0.\<close>

theorem error_answer_sent_on:
  assumes "taken_answer now (new_ctx clt srv port) d c1" "get8 (in_buffer d) 3 = Some rc" "rc \<noteq> 0" "nat_HighPort n \<noteq> 0"
  shows "\<exists>n' as. work_round pid n (new_ctx clt srv port) ((True, now, Datagram ea srv p d) # evs)
      = Some (n', c1, 1, as, Some (commit_message pid (natinfo_bytes n')))
    \<and> nat_LowPort n' = 0 \<and> nat_HighPort n' = 0 \<and> nat_PubIP n' = [0, 0, 0, 0]"
proof -
  obtain life e where "update_epoch now e ((new_ctx clt srv port)\<lparr>uiLeftTime := life\<rparr>) = (c1, False)"
    using assms(1) by (auto simp: taken_answer_def)
  then have c: "c1 = fst (update_epoch now e ((new_ctx clt srv port)\<lparr>uiLeftTime := life\<rparr>))" by simp
  have z: "ctx_start c1 = 0" "ctx_end c1 = 0" "uiExternIPv4 c1 = 0" unfolding c by simp_all
  show ?thesis
    using answer_handled [OF assms(1), of "uiLeftTime (new_ctx clt srv port)" ea p evs] assms(2-4) z
    by (intro exI [of _ "set_natinfo c1 n"]) (simp add: work_round_def set_natinfo_def le32_zero Let_def)
qed

theorem error_answer_sent_on_witness:
  "\<exists>n' c1 as. work_round 9 nat6 (new_ctx (replicate 16 6) (replicate 16 1) 5351) [(True, 50, Datagram False (replicate 16 1) 5351 [1, 0xE4, 0, 11])]
      = Some (n', c1, 1, as, Some (commit_message 9 (natinfo_bytes n'))) \<and> nat_HighPort n' = 0"
proof -
  let ?d = "[1, 0xE4, 0, 11] :: u8 list"
  have f0: "length ?d = 4" by simp
  have f: "3 \<le> length ?d" "length ?d \<le> 1024" "4 dvd length ?d" unfolding f0 by simp_all
  have op: "take_bit 7 (?d ! 1) = PCP_OP_CODE" by (simp add: PCP_OP_CODE_def)
  have g: "get32 (in_buffer ?d) 4 = Some 0" "get8 (in_buffer ?d) 3 = Some 11"
    by (simp_all add: in_buffer_def get8_def get32_def nth_append numeral_eq_Suc word_cat_eq)
  obtain c1 where c1: "taken_answer 50 (new_ctx (replicate 16 6) (replicate 16 1) 5351) ?d c1"
    by (rule first_answer [OF f op g(1)])
  have n: "(11 :: u8) \<noteq> 0" "nat_HighPort nat6 \<noteq> 0" by (simp_all add: nat6_def)
  show ?thesis using error_answer_sent_on [OF c1 g(2) n, of 9 False 5351 "[]"] by blast
qed

text \<open>C17: An ICMPv6 packet from anywhere whose second word is all ones makes its sender the PCP server, and the lease it answers
  with goes to the kernel module.\<close>

theorem any_host_becomes_server:
  assumes "8 \<le> length pkt" "getn pkt 4 4 = Some [0xff, 0xff, 0xff, 0xff]"
    "taken_answer now (PCPPortSetSrvAddr c src) d c1" "granting d val m ip"
  shows "\<exists>c2. icmp6_error pid n c src pkt ((True, now, Datagram ea src p d) # evs) =
      Some (c2, [Sent src PCP_PORT (pcp_request c (uiLeftTime c))], Some (commit_message pid (natinfo_bytes (set_natinfo c2 n))))
    \<and> nat_LowPort (set_natinfo c2 n) = val \<and> nat_HighPort (set_natinfo c2 n) = val + not m \<and> nat_PubIP (set_natinfo c2 n) = ip"
proof -
  let ?c = "PCPPortSetSrvAddr c src"
  have s: "aucSrvIPv6 ?c = src" "pcp_request ?c lt = pcp_request c lt" "uiLeftTime ?c = uiLeftTime c" for lt
    by (simp_all add: PCPPortSetSrvAddr_def pcp_request_def)
  obtain x where x: "le32 x = ip" "PCPRequestHandle ?c (uiLeftTime c) ((True, now, Datagram ea src p d) # evs) =
       Some (store_lease m val x c1, 1, [Sent src PCP_PORT (pcp_request c (uiLeftTime c))])"
    by (rule granting_handled [OF assms(3,4)]) (simp add: s)
  then show ?thesis using assms(1,2)
    by (intro exI [of _ "store_lease m val x c1"]) (simp add: icmp6_error_def newPcpRequest_def s set_natinfo_def)
qed

theorem any_host_becomes_server_witness:
  "\<exists>c2. icmp6_error 9 nat6 (new_ctx (replicate 16 6) (replicate 16 1) 5351) (replicate 16 9) ([3, 0, 0, 0] @ replicate 4 0xff)
      [(True, 50, Datagram False (replicate 16 9) 5351 answer6)] =
      Some (c2, [Sent (replicate 16 9) PCP_PORT (pcp_request (new_ctx (replicate 16 6) (replicate 16 1) 5351) 86400)],
        Some (commit_message 9 (natinfo_bytes (set_natinfo c2 nat6))))"
proof -
  let ?c = "new_ctx (replicate 16 6) (replicate 16 1) 5351" and ?pkt = "[3, 0, 0, 0] @ replicate 4 0xff :: u8 list"
  have e: "PCPPortSetSrvAddr ?c (replicate 16 9) = new_ctx (replicate 16 6) (replicate 16 9) 5351" by (simp add: PCPPortSetSrvAddr_def new_ctx_def)
  have p: "8 \<le> length ?pkt" "getn ?pkt 4 4 = Some [0xff, 0xff, 0xff, 0xff]" by (simp_all add: getn_def numeral_eq_Suc)
  obtain c1 where c1: "taken_answer 50 (PCPPortSetSrvAddr ?c (replicate 16 9)) answer6 c1"
    unfolding e by (rule first_answer [OF answer6_facts(1-5)])
  have t: "uiLeftTime ?c = 86400" by (simp add: new_ctx_def)
  show ?thesis using any_host_becomes_server [OF p c1 answer6_facts(6), of 9 nat6 False 5351 "[]"] unfolding t by blast
qed

end
