(* ===== verification/KernelNetlink.thy ===== *)
theory KernelNetlink
  imports Tunnel
begin

text \<open>
  The netlink handlers of the kernel module (\<open>src/netlink.c\<close>): requests on the tunnel table
  with their replies, and the configuration messages of the daemon.
\<close>

section \<open>Requests\<close>

text \<open>
  \<open>kmalloc\<close> is the kernel's: \<open>None\<close> when memory runs out.  \<open>kmalloc_ok\<close> is its contract, a
  fresh address.  A message whose structure is not the one of its type would be read at the
  wrong offsets: \<open>None\<close>.  \<open>TC_STAT_DEF\<close> is 0, so \<open>NETLINK_TC_STATE\<close> does nothing.
\<close>

definition kmalloc_ok :: "(kstate \<Rightarrow> addr option) \<Rightarrow> bool" where
  "kmalloc_ok kmalloc \<longleftrightarrow> (\<forall>s p. kmalloc s = Some p \<longrightarrow> tun_mem s p = None)"

definition handle_detect :: "kstate \<Rightarrow> NETLINK_MSG_INIT \<Rightarrow> (kstate \<times> int) option" where
  "handle_detect s pnlmsg =
     do { ptun \<leftarrow> LookupTunnel_v6 s (KEY_V6 (cli_addr pnlmsg));
          (case ptun of
             Some p \<Rightarrow>
               do { ctx \<leftarrow> tun_mem s p;
                    let s = s\<lparr>tun_mem := (tun_mem s)(p \<mapsto> ctx\<lparr>ulLiveTime := lefttime pnlmsg\<rparr>)\<rparr>;
                    Some (send_nlmsg (ConstructTunMsg (ucCltIPv6 ctx) NETLINK_UPDATE_MSG
                            (uiExtIP ctx) (usStartPort ctx) (usEndPort ctx)) s, 0) }
           | None \<Rightarrow>
               Some (send_nlmsg (ConstructIntMsg (cli_addr pnlmsg) NETLINK_ALLOC_ADDR 0
                       (lefttime pnlmsg)) s, 0)) }"

definition handle_alloc ::
    "(kstate \<Rightarrow> addr option) \<Rightarrow> kstate \<Rightarrow> NETLINK_MSG_TUNCONFIG \<Rightarrow> (kstate \<times> int) option" where
  "handle_alloc kmalloc s ptun_msg =
     (let reply = (\<lambda>r. ConstructIntMsg (user_addr ptun_msg) NETLINK_RESULT r (tun_lefttime ptun_msg))
      in case kmalloc s of
           None \<Rightarrow> Some (send_nlmsg (reply 1) s, -1)
         | Some ptun \<Rightarrow>
             do { let ctx = \<lparr>usStartPort = start_port ptun_msg, usEndPort = end_port ptun_msg,
                             uiExtIP = public_ip ptun_msg, ucCltIPv6 = user_addr ptun_msg,
                             ulLiveTime = tun_lefttime ptun_msg\<rparr>;
                  (s, ret) \<leftarrow> CreateTunnel (s\<lparr>tun_mem := (tun_mem s)(ptun \<mapsto> ctx)\<rparr>) ptun;
                  if ret < 0 then Some (send_nlmsg (reply 1) s, -1)
                  else Some (send_nlmsg (reply 0) s, 0) })"

definition handle_delete :: "kstate \<Rightarrow> NETLINK_MSG_INIT \<Rightarrow> (kstate \<times> int) option" where
  "handle_delete s pnlmsg =
     do { (s, ret, out) \<leftarrow> DeleteTunnel s (cli_addr pnlmsg);
          let (usStartPort, uiPublicIP) = (case out of Some x \<Rightarrow> x | None \<Rightarrow> (0, 0));
          if ret = 1
          then Some (send_nlmsg (ConstructTunMsg (cli_addr pnlmsg) NETLINK_DELETE_NODE
                       uiPublicIP usStartPort 0) s, 0)
          else Some (send_nlmsg (ConstructIntMsg (cli_addr pnlmsg) NETLINK_RESULT 1
                       (lefttime pnlmsg)) s, -1) }"

definition HandlMessage ::
    "(kstate \<Rightarrow> addr option) \<Rightarrow> kstate \<Rightarrow> netlink_msg \<Rightarrow> (kstate \<times> int) option" where
  "HandlMessage kmalloc s msg =
     (case msgdef msg of
        None \<Rightarrow> None
      | Some NETLINK_DETECT_MSG \<Rightarrow>
          (case msg of InitMsg _ m \<Rightarrow> handle_detect s m | _ \<Rightarrow> None)
      | Some NETLINK_ALLOC_ADDR \<Rightarrow>
          (case msg of TunMsg _ m \<Rightarrow> handle_alloc kmalloc s m | _ \<Rightarrow> None)
      | Some NETLINK_DELETE_NODE \<Rightarrow>
          (case msg of InitMsg _ m \<Rightarrow> handle_delete s m | _ \<Rightarrow> None)
      | Some NETLINK_TC_STATE \<Rightarrow> Some (s, 0)
      | Some _ \<Rightarrow>
          Some (send_nlmsg (ConstructIntMsg (replicate 16 0) NETLINK_RESULT 1 0) s, -1))"

text \<open>A buffer shorter than a netlink header (16 bytes) is dropped.\<close>

definition nl_data_ready :: "(kstate \<Rightarrow> addr option) \<Rightarrow> kstate \<Rightarrow> nat \<Rightarrow> netlink_msg \<Rightarrow> kstate option" where
  "nl_data_ready kmalloc s skb_len msg =
     (if 16 \<le> skb_len then map_option fst (HandlMessage kmalloc s msg) else Some s)"

section \<open>Configuration\<close>

definition set_config :: "NETLINK_MSG_TCCONFIG \<Rightarrow> GLOBAL_CTX \<Rightarrow> GLOBAL_CTX" where
  "set_config c g = g\<lparr>uiVersion := uiversion c, usMtu := usmtu c, uiExtBeginIP := uibeginIP c,
     uiExtEndIP := uiEndIP c, usPortRange := cfg_usPortRange c, uiOtherExtBeginIP := uiOtherBeginIP c,
     uiOtherExtEndIP := uiOtherEndIP c, uiMaxLifeTime := cfg_uiMaxLifeTime c, ucTcIPv6 := tc_addr c\<rparr>"

definition handle_init_config :: "kstate \<Rightarrow> NETLINK_MSG_TCCONFIG \<Rightarrow> kstate option" where
  "handle_init_config s c =
     do { s \<leftarrow> (if uiTunState (GlobalCtx s) = 1
                then DestroyStorage (del_timer (s\<lparr>GlobalCtx := (GlobalCtx s)\<lparr>uiTunState := 0\<rparr>\<rparr>))
                else Some s);
          let s = s\<lparr>GlobalCtx := set_config c (GlobalCtx s)\<rparr>;
          s \<leftarrow> add_timer (uiMaxLifeTime (GlobalCtx s) div 4) s;
          Some (s\<lparr>GlobalCtx := (GlobalCtx s)\<lparr>uiTunState := cfg_uiTunState c\<rparr>\<rparr>) }"

definition handle_uninit_config :: "kstate \<Rightarrow> NETLINK_MSG_TCCONFIG \<Rightarrow> kstate option" where
  "handle_uninit_config s c =
     (if cfg_uiTunState c = 0
      then DestroyStorage (del_timer (s\<lparr>GlobalCtx := (GlobalCtx s)\<lparr>uiTunState := cfg_uiTunState c\<rparr>\<rparr>))
      else Some s)"

definition HandlAsyncMessage :: "kstate \<Rightarrow> netlink_msg \<Rightarrow> kstate option" where
  "HandlAsyncMessage s msg =
     (case msgdef msg of
        Some NETLINK_INIT_CONFIG \<Rightarrow>
          (case msg of ConfigMsg _ c \<Rightarrow> handle_init_config s c | _ \<Rightarrow> None)
      | Some NETLINK_UNINIT_CONFIG \<Rightarrow>
          (case msg of ConfigMsg _ c \<Rightarrow> handle_uninit_config s c | _ \<Rightarrow> None)
      | _ \<Rightarrow> Some s)"

definition async_nl_data_ready :: "kstate \<Rightarrow> nat \<Rightarrow> netlink_msg \<Rightarrow> kstate option" where
  "async_nl_data_ready s skb_len msg =
     (if 16 \<le> skb_len then HandlAsyncMessage s msg else Some s)"

section \<open>What a request does to the table\<close>

text \<open>
  The contract of the requests on the abstract table, the map from client addresses to
  tunnels: the new table and the one reply.
\<close>

definition new_tunnel :: "NETLINK_MSG_TUNCONFIG \<Rightarrow> TUNNEL_CTX" where
  "new_tunnel m = \<lparr>usStartPort = start_port m, usEndPort = end_port m, uiExtIP = public_ip m,
                   ucCltIPv6 = user_addr m, ulLiveTime = tun_lefttime m\<rparr>"

definition spec_detect ::
    "(u8 list \<rightharpoonup> TUNNEL_CTX) \<Rightarrow> NETLINK_MSG_INIT \<Rightarrow> (u8 list \<rightharpoonup> TUNNEL_CTX) \<times> netlink_msg" where
  "spec_detect U m =
     (case U (cli_addr m) of
        Some t \<Rightarrow> (U(cli_addr m \<mapsto> t\<lparr>ulLiveTime := lefttime m\<rparr>),
                   ConstructTunMsg (cli_addr m) NETLINK_UPDATE_MSG (uiExtIP t) (usStartPort t) (usEndPort t))
      | None \<Rightarrow> (U, ConstructIntMsg (cli_addr m) NETLINK_ALLOC_ADDR 0 (lefttime m)))"

definition spec_delete ::
    "(u8 list \<rightharpoonup> TUNNEL_CTX) \<Rightarrow> NETLINK_MSG_INIT \<Rightarrow> (u8 list \<rightharpoonup> TUNNEL_CTX) \<times> netlink_msg" where
  "spec_delete U m =
     (case U (cli_addr m) of
        Some t \<Rightarrow> (U(cli_addr m := None),
                   ConstructTunMsg (cli_addr m) NETLINK_DELETE_NODE (uiExtIP t) (usStartPort t) 0)
      | None \<Rightarrow> (U, ConstructIntMsg (cli_addr m) NETLINK_RESULT 1 (lefttime m)))"

text \<open>\<open>taken\<close>: the external address and start port have a tunnel, or nothing more can be stored.\<close>

definition spec_alloc ::
    "bool \<Rightarrow> (u8 list \<rightharpoonup> TUNNEL_CTX) \<Rightarrow> NETLINK_MSG_TUNCONFIG \<Rightarrow> (u8 list \<rightharpoonup> TUNNEL_CTX) \<times> netlink_msg" where
  "spec_alloc taken U m =
     (if taken then (U, ConstructIntMsg (user_addr m) NETLINK_RESULT 1 (tun_lefttime m))
      else (U(user_addr m \<mapsto> new_tunnel m),
            ConstructIntMsg (user_addr m) NETLINK_RESULT 0 (tun_lefttime m)))"

definition replies :: "kstate \<Rightarrow> (u8 list \<rightharpoonup> TUNNEL_CTX) \<times> netlink_msg \<Rightarrow> kstate \<Rightarrow> bool" where
  "replies s out s' \<longleftrightarrow> tun_inv s' \<and> users s' = fst out \<and> nl_sent s' = nl_sent s @ [(NL_TEST, snd out)]
     \<and> GlobalCtx s' = GlobalCtx s"

lemma handle_detect_ok:
  assumes "tun_inv s"
  shows "\<exists>s'. handle_detect s m = Some (s', 0) \<and> replies s (spec_detect (users s) m) s'"
proof (rule lookup_v6_cases [OF assms, of "cli_addr m"])
  assume "users s (cli_addr m) = None" "LookupTunnel_v6 s (KEY_V6 (cli_addr m)) = Some None"
  then show ?thesis
    using assms by (simp add: handle_detect_def replies_def spec_detect_def send_defs)
next
  fix p t
  assume t: "users s (cli_addr m) = Some t" "LookupTunnel_v6 s (KEY_V6 (cli_addr m)) = Some (Some p)"
    "tun_mem s p = Some t" "(KEY_V6 (cli_addr m), p) \<in> set (header (tree6 s))" "ucCltIPv6 t = cli_addr m"
  define s1 where "s1 = s\<lparr>tun_mem := (tun_mem s)(p \<mapsto> t\<lparr>ulLiveTime := lefttime m\<rparr>)\<rparr>"
  have k6: "(v6key t, p) \<in> set (header (tree6 s))" using t(4,5) by simp
  note a = aged_in_place [OF assms k6 t(3) s1_def]
  have "handle_detect s m = Some (send_nlmsg (ConstructTunMsg (cli_addr m) NETLINK_UPDATE_MSG
                            (uiExtIP t) (usStartPort t) (usEndPort t)) s1, 0)"
    using t by (simp add: handle_detect_def s1_def)
  moreover have "nl_sent s1 = nl_sent s" "GlobalCtx s1 = GlobalCtx s" by (simp_all add: s1_def)
  ultimately show ?thesis
    using a t(1,5) by (simp add: replies_def spec_detect_def send_defs)
qed

lemma handle_delete_ok:
  assumes "tun_inv s"
  shows "\<exists>s'. handle_delete s m = Some (s', if users s (cli_addr m) = None then -1 else 0)
    \<and> replies s (spec_delete (users s) m) s'"
proof (cases "users s (cli_addr m)")
  case None
  then show ?thesis
    using DeleteTunnel_ok [OF assms, of "cli_addr m"] assms
    by (simp add: handle_delete_def replies_def spec_delete_def send_defs)
next
  case (Some t)
  then obtain s1 p where s1: "DeleteTunnel s (cli_addr m) = Some (s1, 1, Some (usStartPort t, uiExtIP t))"
    "removed p t s s1" "(v6key t, p) \<in> set (header (tree6 s))" "tun_mem s p = Some t"
    using DeleteTunnel_ok [OF assms, of "cli_addr m"] by auto
  note r = removed_users(1,2) [OF assms s1(3,4,2)] removed_frame(3,4) [OF assms s1(3,4,2)]
  show ?thesis
    using s1(1) r Some users_addr [OF assms Some]
    by (simp add: handle_delete_def replies_def spec_delete_def send_defs)
qed

text \<open>Adding a tunnel that is in no tree changes neither the table nor its invariant.\<close>

lemma tun_mem_fresh:
  assumes "tun_inv s" "tun_mem s p = None" and s1: "s1 = s\<lparr>tun_mem := (tun_mem s)(p \<mapsto> t)\<rparr>"
  shows "tun_inv s1" "users s1 = users s" "ports s1 = ports s"
proof -
  note I = tun_invD [OF assms(1)]
  have c: "pStroageCtx s1 = pStroageCtx s" and m: "\<And>q. q \<noteq> p \<Longrightarrow> tun_mem s1 q = tun_mem s q"
    using s1 by simp_all
  have n6: "(k, q) \<in> set (header (tree6 s)) \<Longrightarrow> q \<noteq> p" for k q using I(4) assms(2) by fastforce
  have n4: "(k, q) \<in> set (header (tree4 s)) \<Longrightarrow> q \<noteq> p" for k q using I(3) assms(2) by fastforce
  show inv: "tun_inv s1"
  proof (rule tun_invI)
    show "bp_inv (tree4 s1)" "bp_inv (tree6 s1)" using I(1,2) c by simp_all
    show "\<exists>t. tun_mem s1 q = Some t \<and> k = v4key t \<and> (v6key t, q) \<in> set (header (tree6 s1))"
      if "(k, q) \<in> set (header (tree4 s1))" for k q
      using I(3) [of k q] that n4 [of k q] m c by simp
    show "\<exists>t. tun_mem s1 q = Some t \<and> k = v6key t \<and> (v4key t, q) \<in> set (header (tree4 s1))"
      if "(k, q) \<in> set (header (tree6 s1))" for k q
      using I(4) [of k q] that n6 [of k q] m c by simp
  qed
  show "users s1 = users s"
    by (rule map_eqI) (use n6 m c in \<open>auto simp: users_Some_iff inv assms(1)\<close>)
  show "ports s1 = ports s"
    by (rule map_eqI) (use n4 m c in \<open>auto simp: ports_Some_iff inv assms(1)\<close>)
qed

lemma handle_alloc_ok:
  assumes "tun_inv s" "kmalloc_ok kmalloc" "users s (user_addr m) = None \<or> taken"
    and taken: "taken \<longleftrightarrow> kmalloc s = None \<or> ports s (public_ip m, start_port m) \<noteq> None
                 \<or> tsize (tree4 s) = MAXBPSIZE"
  shows "\<exists>s'. handle_alloc kmalloc s m = Some (s', if taken then -1 else 0)
    \<and> replies s (spec_alloc taken (users s) m) s'"
proof (cases "kmalloc s")
  case None
  then show ?thesis using taken assms(1) by (simp add: handle_alloc_def replies_def spec_alloc_def send_defs)
next
  case (Some p)
  then have fresh: "tun_mem s p = None" using assms(2) by (simp add: kmalloc_ok_def)
  define s1 where "s1 = s\<lparr>tun_mem := (tun_mem s)(p \<mapsto> new_tunnel m)\<rparr>"
  note f = tun_mem_fresh [OF assms(1) fresh s1_def]
  have s1: "tun_mem s1 p = Some (new_tunnel m)" "pStroageCtx s1 = pStroageCtx s"
    "nl_sent s1 = nl_sent s" "GlobalCtx s1 = GlobalCtx s"
    by (simp_all add: s1_def)
  have nt: "uiExtIP (new_tunnel m) = public_ip m" "usStartPort (new_tunnel m) = start_port m"
    "ucCltIPv6 (new_tunnel m) = user_addr m" by (simp_all add: new_tunnel_def)
  have h: "handle_alloc kmalloc s m = do { (s, ret) \<leftarrow> CreateTunnel s1 p;
      if ret < 0 then Some (send_nlmsg (ConstructIntMsg (user_addr m) NETLINK_RESULT 1 (tun_lefttime m)) s, -1)
      else Some (send_nlmsg (ConstructIntMsg (user_addr m) NETLINK_RESULT 0 (tun_lefttime m)) s, 0) }"
    using Some by (simp add: handle_alloc_def s1_def new_tunnel_def)
  show ?thesis
  proof (cases taken)
    case True
    then have "CreateTunnel s1 p = Some (s1, -1)"
      using CreateTunnel_refused [OF f(1) s1(1)] Some taken by (simp add: nt f s1)
    then show ?thesis using True h f s1 by (simp add: replies_def spec_alloc_def send_defs)
  next
    case False
    have u: "users s1 (ucCltIPv6 (new_tunnel m)) = None" "tsize (tree4 s1) \<noteq> MAXBPSIZE"
      "ports s1 (uiExtIP (new_tunnel m), usStartPort (new_tunnel m)) = None"
      using assms(3) taken False by (auto simp: nt f s1)
    obtain s2 where s2: "CreateTunnel s1 p = Some (s2, 1)" "created p (new_tunnel m) s1 s2"
      by (rule CreateTunnel_done [OF f(1) s1(1) u(1,3,2)])
    have "tun_inv s2" "users s2 = (users s)(user_addr m \<mapsto> new_tunnel m)"
      using created_users [OF f(1) s1(1) u(1,3) s2(2)] by (simp_all add: nt f)
    then show ?thesis
      using s2 h False s1 by (simp add: replies_def spec_alloc_def send_defs created_def)
  qed
qed

text \<open>For a client that has a tunnel a second one gets in by its port alone, and the answer is that of success.\<close>

lemma handle_alloc_second:
  assumes "tun_inv s" "kmalloc s = Some p" "tun_mem s p = None" "users s (user_addr m) = Some u"
    and free: "ports s (public_ip m, start_port m) = None" "tsize (tree4 s) \<noteq> MAXBPSIZE"
  obtains s' q where "handle_alloc kmalloc s m = Some (s', 0)"
    "nl_sent s' = nl_sent s @ [(NL_TEST, ConstructIntMsg (user_addr m) NETLINK_RESULT 0 (tun_lefttime m))]" "\<not> tun_inv s'"
    "LookupTunnel_v6 s' (KEY_V6 (user_addr m)) = Some (Some q)" "tun_mem s' q = Some u"
    "LookupTunnel_v4 s' (KEY_V4 (public_ip m) (start_port m)) = Some (Some p)" "tun_mem s' p = Some (new_tunnel m)"
proof -
  define s1 where "s1 = s\<lparr>tun_mem := (tun_mem s)(p \<mapsto> new_tunnel m)\<rparr>"
  note f = tun_mem_fresh [OF assms(1,3) s1_def]
  have s1: "tun_mem s1 p = Some (new_tunnel m)" "nl_sent s1 = nl_sent s" "tree4 s1 = tree4 s" by (simp_all add: s1_def)
  have u1: "users s1 (ucCltIPv6 (new_tunnel m)) = Some u" "ports s1 (uiExtIP (new_tunnel m), usStartPort (new_tunnel m)) = None"
    "tsize (tree4 s1) \<noteq> MAXBPSIZE" using assms(4) free f(2,3) s1(3) by (simp_all add: new_tunnel_def)
  obtain s2 q where c: "CreateTunnel s1 p = Some (s2, 1)" "q \<noteq> p" "tun_mem s1 q = Some u"
    "LookupTunnel_v6 s2 (v6key (new_tunnel m)) = Some (Some q)" "LookupTunnel_v4 s2 (v4key (new_tunnel m)) = Some (Some p)"
    "\<not> tun_inv s2" "tun_mem s2 = tun_mem s1" "nl_sent s2 = nl_sent s1"
    by (rule CreateTunnel_second [OF f(1) s1(1) u1])
  let ?m = "ConstructIntMsg (user_addr m) NETLINK_RESULT 0 (tun_lefttime m)"
  have "handle_alloc kmalloc s m = Some (send_nlmsg ?m s2, 0)"
    using assms(2) c(1) by (simp add: handle_alloc_def s1_def new_tunnel_def)
  then show ?thesis
    by (rule that [of _ q]) (use c s1 in \<open>simp_all add: send_defs tun_inv_def new_tunnel_def LookupTunnel_v6_def LookupTunnel_v4_def\<close>)
qed

section \<open>What a configuration message does\<close>

lemma handle_init_config_ok:
  assumes "tun_inv s" "uiTunState (GlobalCtx s) = 1 \<or> StorageTimer (GlobalCtx s) = None"
  obtains s' where "handle_init_config s c = Some s'" "tun_inv s'"
    "users s' = (if uiTunState (GlobalCtx s) = 1 then Map.empty else users s)"
    "GlobalCtx s' = (set_config c (GlobalCtx s))\<lparr>StorageTimer := Some (cfg_uiMaxLifeTime c div 4),
       uiTunState := cfg_uiTunState c\<rparr>" "nl_sent s' = nl_sent s"
proof (cases "uiTunState (GlobalCtx s) = 1")
  case True
  let ?s = "del_timer (s\<lparr>GlobalCtx := (GlobalCtx s)\<lparr>uiTunState := 0\<rparr>\<rparr>)"
  have inv: "tun_inv ?s" using assms(1) by (simp add: del_timer_def)
  obtain s1 where s1: "DestroyStorage ?s = Some s1" "tun_inv s1" "users s1 = Map.empty"
    "GlobalCtx s1 = GlobalCtx ?s" "nl_sent s1 = nl_sent ?s"
    by (rule DestroyStorage_empties [OF inv])
  show ?thesis
    by (rule that [of "s1\<lparr>GlobalCtx := (set_config c (GlobalCtx s1))\<lparr>StorageTimer := Some (cfg_uiMaxLifeTime c div 4), uiTunState := cfg_uiTunState c\<rparr>\<rparr>"])
      (use True s1 in \<open>simp_all add: handle_init_config_def del_timer_def set_config_def add_timer_def\<close>)
next
  case False
  show ?thesis
    by (rule that [of "s\<lparr>GlobalCtx := (set_config c (GlobalCtx s))\<lparr>StorageTimer := Some (cfg_uiMaxLifeTime c div 4), uiTunState := cfg_uiTunState c\<rparr>\<rparr>"])
      (use False assms in \<open>simp_all add: handle_init_config_def set_config_def add_timer_def\<close>)
qed

lemma handle_uninit_config_ok:
  assumes "tun_inv s" "cfg_uiTunState c = 0"
  obtains s' where "handle_uninit_config s c = Some s'" "tun_inv s'" "users s' = Map.empty"
    "StorageTimer (GlobalCtx s') = None" "uiTunState (GlobalCtx s') = 0" "nl_sent s' = nl_sent s"
proof -
  let ?s = "del_timer (s\<lparr>GlobalCtx := (GlobalCtx s)\<lparr>uiTunState := 0\<rparr>\<rparr>)"
  have inv: "tun_inv ?s" using assms(1) by (simp add: del_timer_def)
  obtain s1 where s1: "DestroyStorage ?s = Some s1" "tun_inv s1" "users s1 = Map.empty"
    "GlobalCtx s1 = GlobalCtx ?s" "nl_sent s1 = nl_sent ?s"
    by (rule DestroyStorage_empties [OF inv])
  show ?thesis
    by (rule that [of s1]) (use assms(2) s1 in \<open>simp_all add: handle_uninit_config_def del_timer_def\<close>)
qed

section \<open>Properties\<close>

definition sample_kmalloc :: "kstate \<Rightarrow> addr option" where
  "sample_kmalloc s = (if tun_mem s 9 = None then Some 9 else None)"

lemma sample_kmalloc_ok: "kmalloc_ok sample_kmalloc"
  by (simp add: kmalloc_ok_def sample_kmalloc_def)

text \<open>A detection request is answered once.  If the client has a tunnel its life time is set
  to the one requested and the reply carries the tunnel's address and ports; otherwise the
  table is unchanged and the reply asks the daemon to allocate.\<close>

theorem detect_refines:
  assumes "tun_inv s"
  shows "\<exists>s'. HandlMessage kmalloc s (InitMsg NETLINK_DETECT_MSG m) = Some (s', 0) \<and> tun_inv s'
    \<and> (users s', [(NL_TEST, snd (spec_detect (users s) m))])
      = (fst (spec_detect (users s) m), drop (length (nl_sent s)) (nl_sent s'))"
  using handle_detect_ok [OF assms, of m] by (auto simp: HandlMessage_def replies_def)

theorem detect_refines_witness:
  "\<exists>s'. HandlMessage sample_kmalloc state7
      (InitMsg NETLINK_DETECT_MSG \<lparr>ucResult = 0, cli_addr = replicate 16 6, lefttime = 60\<rparr>) = Some (s', 0)
    \<and> users s' (replicate 16 6) = Some (tunnel7\<lparr>ulLiveTime := 60\<rparr>)"
  using detect_refines [OF state7_inv, of sample_kmalloc
      "\<lparr>ucResult = 0, cli_addr = replicate 16 6, lefttime = 60\<rparr>"] state7_users(1)
  by (auto simp: spec_detect_def)

text \<open>C29: an allocation request is answered once.  The answer is 1, and the table unchanged, exactly when memory or storage
  is out or the external address and start port are taken.  Otherwise it is 0: for a client without a tunnel the tunnel
  is added; but for a client that has one, the old one remains the one of the client, and the new
  one is found by its address and port only, so that the table is not well formed any more.\<close>

theorem alloc_refines:
  assumes "tun_inv s" "kmalloc_ok kmalloc"
    and "taken \<longleftrightarrow> kmalloc s = None \<or> ports s (public_ip m, start_port m) \<noteq> None
                 \<or> tsize (tree4 s) = MAXBPSIZE"
  shows "\<exists>s'. HandlMessage kmalloc s (TunMsg NETLINK_ALLOC_ADDR m) = Some (s', if taken then -1 else 0)
    \<and> nl_sent s' = nl_sent s @ [(NL_TEST, snd (spec_alloc taken (users s) m))]
    \<and> (if taken \<or> users s (user_addr m) = None
       then tun_inv s' \<and> users s' = fst (spec_alloc taken (users s) m)
       else \<not> tun_inv s' \<and> (\<exists>q p. LookupTunnel_v6 s' (KEY_V6 (user_addr m)) = Some (Some q) \<and> tun_mem s' q = users s (user_addr m)
         \<and> LookupTunnel_v4 s' (KEY_V4 (public_ip m) (start_port m)) = Some (Some p) \<and> tun_mem s' p = Some (new_tunnel m)))"
proof (cases "taken \<or> users s (user_addr m) = None")
  case True
  then show ?thesis
    using handle_alloc_ok [OF assms(1,2) _ assms(3)] by (auto simp: HandlMessage_def replies_def)
next
  case False
  obtain p u where p: "kmalloc s = Some p" "users s (user_addr m) = Some u" using False assms(3) by auto
  then have m: "tun_mem s p = None" using assms(2) by (simp add: kmalloc_ok_def)
  have free: "ports s (public_ip m, start_port m) = None" "tsize (tree4 s) \<noteq> MAXBPSIZE" using False assms(3) by auto
  obtain s' q where "handle_alloc kmalloc s m = Some (s', 0)"
    "nl_sent s' = nl_sent s @ [(NL_TEST, ConstructIntMsg (user_addr m) NETLINK_RESULT 0 (tun_lefttime m))]" "\<not> tun_inv s'"
    "LookupTunnel_v6 s' (KEY_V6 (user_addr m)) = Some (Some q)" "tun_mem s' q = Some u"
    "LookupTunnel_v4 s' (KEY_V4 (public_ip m) (start_port m)) = Some (Some p)" "tun_mem s' p = Some (new_tunnel m)"
    by (rule handle_alloc_second [where kmalloc = kmalloc and s = s and m = m and p = p and u = u, OF assms(1) p(1) m p(2) free])
  then show ?thesis using False p(2) by (auto simp: HandlMessage_def spec_alloc_def)
qed

theorem alloc_refines_witness:
  "\<exists>s'. HandlMessage sample_kmalloc state7 (TunMsg NETLINK_ALLOC_ADDR
      \<lparr>user_addr = replicate 16 9, public_ip = 5, start_port = 1024, end_port = 2047, tun_lefttime = 60\<rparr>)
      = Some (s', 0)
    \<and> tun_inv s' \<and> users s' (replicate 16 9) \<noteq> None"
proof -
  let ?m = "\<lparr>user_addr = replicate 16 9, public_ip = 5, start_port = 1024, end_port = 2047, tun_lefttime = 60\<rparr>"
  have "users state7 (user_addr ?m) = None" "ports state7 (public_ip ?m, start_port ?m) = None"
    by (simp_all add: users_def ports_def tunnel7_def)
  then show ?thesis
    using alloc_refines [OF state7_inv sample_kmalloc_ok, of False ?m]
    by (auto simp: sample_kmalloc_def MAXBPSIZE_def spec_alloc_def)
qed

text \<open>C30: a deletion request removes the client's tunnel and answers with its address and start
  port, or answers with result 1 when there is none.\<close>

theorem delete_refines:
  assumes "tun_inv s"
  shows "\<exists>s'. HandlMessage kmalloc s (InitMsg NETLINK_DELETE_NODE m)
      = Some (s', if users s (cli_addr m) = None then -1 else 0)
    \<and> tun_inv s' \<and> users s' = fst (spec_delete (users s) m)
    \<and> nl_sent s' = nl_sent s @ [(NL_TEST, snd (spec_delete (users s) m))]"
  using handle_delete_ok [OF assms, of m] by (auto simp: HandlMessage_def replies_def)

theorem delete_refines_witness:
  "\<exists>s'. HandlMessage sample_kmalloc state7
      (InitMsg NETLINK_DELETE_NODE \<lparr>ucResult = 0, cli_addr = replicate 16 6, lefttime = 0\<rparr>) = Some (s', 0)
    \<and> users s' (replicate 16 6) = None"
  using delete_refines [OF state7_inv, of sample_kmalloc
      "\<lparr>ucResult = 0, cli_addr = replicate 16 6, lefttime = 0\<rparr>"] state7_users(1)
  by (auto simp: spec_delete_def)

text \<open>A configuration message.  When the tunnel service is on it is torn down first: every
  tunnel is removed and freed.  Then the new configuration is in place, the timer is armed for
  a quarter of the new longest life time and the service is in the state configured.  When the
  service is off but its timer is still pending, the kernel stops in \<open>add_timer\<close>.\<close>

theorem init_config_restarts:
  assumes "tun_inv s"
  shows "if uiTunState (GlobalCtx s) = 1 \<or> StorageTimer (GlobalCtx s) = None
    then \<exists>s'. HandlAsyncMessage s (ConfigMsg NETLINK_INIT_CONFIG c) = Some s' \<and> tun_inv s'
      \<and> users s' = (if uiTunState (GlobalCtx s) = 1 then Map.empty else users s)
      \<and> GlobalCtx s' = (set_config c (GlobalCtx s))\<lparr>StorageTimer := Some (cfg_uiMaxLifeTime c div 4),
                          uiTunState := cfg_uiTunState c\<rparr>
      \<and> nl_sent s' = nl_sent s
    else HandlAsyncMessage s (ConfigMsg NETLINK_INIT_CONFIG c) = None"
proof (cases "uiTunState (GlobalCtx s) = 1 \<or> StorageTimer (GlobalCtx s) = None")
  case True
  obtain s' where "handle_init_config s c = Some s'" "tun_inv s'"
    "users s' = (if uiTunState (GlobalCtx s) = 1 then Map.empty else users s)"
    "GlobalCtx s' = (set_config c (GlobalCtx s))\<lparr>StorageTimer := Some (cfg_uiMaxLifeTime c div 4),
       uiTunState := cfg_uiTunState c\<rparr>" "nl_sent s' = nl_sent s"
    by (rule handle_init_config_ok [OF assms True, of c])
  with True show ?thesis by (simp add: HandlAsyncMessage_def)
next
  case False
  then show ?thesis
    by (auto simp: HandlAsyncMessage_def handle_init_config_def add_timer_def set_config_def)
qed

definition config7 :: NETLINK_MSG_TCCONFIG where
  "config7 = \<lparr>uiversion = 2, usmtu = 1400, tc_addr = replicate 16 1, uibeginIP = 1, uiEndIP = 2,
     cfg_uiTunState = 1, cfg_usPortRange = 512, uiOtherBeginIP = 0, uiOtherEndIP = 0,
     cfg_uiMaxLifeTime = 1200\<rparr>"

theorem init_config_restarts_witness:
  "\<exists>s'. HandlAsyncMessage state7 (ConfigMsg NETLINK_INIT_CONFIG config7) = Some s'
    \<and> users s' = Map.empty"
proof -
  have c: "uiTunState (GlobalCtx state7) = 1" by (simp add: global7_def)
  show ?thesis
    using init_config_restarts [OF state7_inv, of config7]
    unfolding c by (simp only: simp_thms if_True) blast
qed

end
