(* ===== verification/TcUserInfo.thy ===== *)
theory TcUserInfo
  imports KernelNetlink
begin

text \<open>
  The listing of the subscribers (\<open>src/tcuserinfo.c\<close>) and the statistics counters
  (\<open>src/tccorestat.c\<close>) of the kernel module.  The listing is sent in batches of 50 through one
  static buffer whose fill count survives between requests; \<open>offset\<close> is the fill count times
  \<open>sizeof(USERINFO)\<close> throughout.  A \<open>USERINFO\<close> is the copy of a tunnel, whose fields it repeats.
\<close>

section \<open>The listing\<close>

definition sizeof_USERINFO :: int where "sizeof_USERINFO = 28"

record uistate =
  flag :: int
  nelem :: int
  fill :: nat \<comment> \<open>the static \<open>i\<close> of \<open>send_user_info\<close>\<close>
  msg_user :: "TUNNEL_CTX list" \<comment> \<open>\<open>msg.user\<close>, 50 entries\<close>

definition send_user_info :: "uistate \<times> kstate \<Rightarrow> TUNNEL_CTX \<Rightarrow> uistate \<times> kstate" where
  "send_user_info us rec =
     (let (u, s) = us;
          u = (if flag u = 1 then u\<lparr>fill := 0, flag := 0\<rparr> else u);
          u = u\<lparr>msg_user := (msg_user u)[fill u := rec]\<rparr>
      in if fill u < 49 then (u\<lparr>fill := fill u + 1\<rparr>, s)
         else (u\<lparr>fill := 0\<rparr>,
               send_tc_info_nlmsg (UserInfoMsg NETLINK_TC_USER_INFO (50 * sizeof_USERINFO)
                 (take (fill u + 1) (msg_user u))) s))"

definition user_info_callback :: "uistate \<times> kstate \<Rightarrow> addr \<Rightarrow> (uistate \<times> kstate) option" where
  "user_info_callback us p = map_option (send_user_info us) (tun_mem (snd us) p)"

definition BPTravUserInfo :: "addr bptree \<Rightarrow> uistate \<times> kstate \<Rightarrow> (uistate \<times> kstate) option" where
  "BPTravUserInfo up us =
     (if root up = None \<or> header up = [] then Some us
      else traverse_from user_info_callback (header up) us)"

text \<open>
  The remainder is C's.  A negative one would make the copied length huge: \<open>None\<close>.
\<close>

definition process_user_info :: "uistate \<times> kstate \<Rightarrow> netlink_msg \<Rightarrow> (uistate \<times> kstate) option" where
  "process_user_info us req =
     (case msgdef req of
        Some NETLINK_TC_USER_TOTAL \<Rightarrow>
          (let (u, s) = us; n = SizeOfElement (pStroageCtx s)
           in Some (u\<lparr>nelem := n\<rparr>, send_tc_info_nlmsg (TotalMsg NETLINK_TC_USER_TOTAL n) s))
      | Some NETLINK_TC_USER_INFO \<Rightarrow>
          do { (u, s) \<leftarrow> BPTravUserInfo (tree4 (snd us)) us;
               let nleft = nelem u - c_div (nelem u) 50 * 50;
               if nleft < 0 then None
               else (let (u, s) =
                       (if nleft \<noteq> 0
                        then (u\<lparr>flag := 1\<rparr>,
                              send_tc_info_nlmsg (UserInfoMsg NETLINK_TC_USER_INFO (nleft * sizeof_USERINFO)
                                (take (nat nleft) (msg_user u))) s)
                        else (u, s))
                     in Some (u, send_tc_info_nlmsg (HdrMsg NETLINK_RESULT) s)) }
      | _ \<Rightarrow> Some us)"

definition tc_user_data_ready :: "uistate \<times> kstate \<Rightarrow> nat \<Rightarrow> netlink_msg \<Rightarrow> (uistate \<times> kstate) option" where
  "tc_user_data_ready us skb_len msg =
     (if 16 \<le> skb_len then process_user_info us msg else Some us)"

section \<open>Statistics\<close>

datatype STAT_TYPE =
    USER_SIZE | TX_BYTE | RX_BYTE | TX_PACKET | RX_PACKET
  | DROP_TX_BYTE | DROP_RX_BYTE | DROP_TX_PACKET | DROP_RX_PACKET

type_synonym TCCORESTATINFO_T = "STAT_TYPE \<Rightarrow> u64"

definition InitTCCoreStatInfo :: TCCORESTATINFO_T where "InitTCCoreStatInfo = (\<lambda>_. 0)"

definition SetTCCoreStatInfo :: "TCCORESTATINFO_T \<Rightarrow> STAT_TYPE \<Rightarrow> u32 \<Rightarrow> TCCORESTATINFO_T" where
  "SetTCCoreStatInfo st stat_type sz = st(stat_type := st stat_type + ucast sz)"

definition GetTCCoreStatInfo :: "TCCORESTATINFO_T \<Rightarrow> STAT_TYPE \<Rightarrow> int" where
  "GetTCCoreStatInfo st stat_type = sint (st stat_type)"

definition DelTCCoreStatInfo :: "TCCORESTATINFO_T \<Rightarrow> STAT_TYPE \<Rightarrow> u32 \<Rightarrow> TCCORESTATINFO_T" where
  "DelTCCoreStatInfo st stat_type sz = st(stat_type := st stat_type - ucast sz)"

section \<open>Batches\<close>

definition user_batch :: "TUNNEL_CTX list \<Rightarrow> nl_channel \<times> netlink_msg" where
  "user_batch b = (NL_USER_INFO, UserInfoMsg NETLINK_TC_USER_INFO (int (length b) * sizeof_USERINFO) b)"

text \<open>The full batches of 50 of a list, and what is left over.\<close>

fun full_batches :: "TUNNEL_CTX list \<Rightarrow> TUNNEL_CTX list list \<times> TUNNEL_CTX list" where
  "full_batches ts = (if length ts < 50 then ([], ts)
                      else let (bs, r) = full_batches (drop 50 ts) in (take 50 ts # bs, r))"

declare full_batches.simps [simp del]

lemma full_short: "length ts < 50 \<Longrightarrow> full_batches ts = ([], ts)"
  by (simp add: full_batches.simps)

lemma full_long:
  "\<not> length ts < 50 \<Longrightarrow> full_batches ts =
     (take 50 ts # fst (full_batches (drop 50 ts)), snd (full_batches (drop 50 ts)))"
  by (subst full_batches.simps) (simp add: case_prod_unfold Let_def)

lemmas full_rules = full_short full_long

definition batches :: "TUNNEL_CTX list \<Rightarrow> TUNNEL_CTX list list" where
  "batches ts = (let (bs, r) = full_batches ts in bs @ (if r = [] then [] else [r]))"

lemma concat_full_batches: "concat (fst (full_batches ts)) @ snd (full_batches ts) = ts"
proof (induction ts rule: full_batches.induct)
  case (1 ts)
  show ?case
  proof (cases "length ts < 50")
    case False
    with 1 [OF this] show ?thesis by (simp add: full_long)
  qed (simp add: full_short)
qed

lemma concat_batches: "concat (batches ts) = ts"
  using concat_full_batches [of ts]
  by (cases "snd (full_batches ts) = []") (simp_all add: batches_def case_prod_unfold Let_def)

lemma full_batches_rest: "length (snd (full_batches ts)) = length ts mod 50"
proof (induction ts rule: full_batches.induct)
  case (1 ts)
  show ?case
  proof (cases "length ts < 50")
    case False
    with 1 [OF this] show ?thesis by (simp add: full_long le_mod_geq)
  qed (simp add: full_short)
qed

lemma full_batches_len: "b \<in> set (fst (full_batches ts)) \<Longrightarrow> length b = 50"
proof (induction ts rule: full_batches.induct)
  case (1 ts)
  show ?case
  proof (cases "length ts < 50")
    case False
    with 1 show ?thesis by (auto simp: full_long)
  qed (use 1 in \<open>simp add: full_short\<close>)
qed

lemma batches_length: "b \<in> set (batches ts) \<Longrightarrow> 0 < length b \<and> length b \<le> 50"
  using full_batches_len [of b ts] full_batches_rest [of ts]
  by (auto simp: batches_def case_prod_unfold Let_def split: if_splits)

lemma full_batches_snoc:
  "full_batches (ts @ [t]) =
    (if length (snd (full_batches ts)) < 49
     then (fst (full_batches ts), snd (full_batches ts) @ [t])
     else (fst (full_batches ts) @ [snd (full_batches ts) @ [t]], []))"
proof (induction ts rule: full_batches.induct)
  case (1 ts)
  show ?case
  proof (cases "length ts < 50")
    case True
    then show ?thesis
      by (cases "length ts < 49") (simp_all add: full_rules)
  next
    case False
    have l: "full_batches (ts @ [t]) = (take 50 ts # fst (full_batches (drop 50 ts @ [t])), snd (full_batches (drop 50 ts @ [t])))"
      using False by (simp add: full_long)
    have r: "full_batches ts = (take 50 ts # fst (full_batches (drop 50 ts)), snd (full_batches (drop 50 ts)))"
      using False by (simp add: full_long)
    show ?thesis unfolding l r using 1 [OF False] by simp
  qed
qed

text \<open>
  The walk keeps: what was sent since the start are the full batches of the tunnels seen, and
  the buffer starts with the rest.  \<open>idle\<close> is the state between two listings.
\<close>

definition idle :: "uistate \<Rightarrow> bool" where
  "idle u \<longleftrightarrow> length (msg_user u) = 50 \<and> (flag u = 1 \<or> fill u = 0)"

definition filling :: "TUNNEL_CTX list \<Rightarrow> uistate \<Rightarrow> bool" where
  "filling ts u \<longleftrightarrow> length (msg_user u) = 50 \<and>
     (if ts = [] then flag u = 1 \<or> fill u = 0
      else flag u \<noteq> 1 \<and> fill u = length (snd (full_batches ts))
        \<and> take (fill u) (msg_user u) = snd (full_batches ts))"

lemma send_user_info_ok:
  assumes "filling ts u"
  shows "\<exists>u'. send_user_info (u, s) t = (u', s\<lparr>nl_sent := nl_sent s @
      map user_batch (drop (length (fst (full_batches ts))) (fst (full_batches (ts @ [t]))))\<rparr>)
    \<and> filling (ts @ [t]) u' \<and> nelem u' = nelem u"
proof -
  define f where "f = (if flag u = 1 then 0 else fill u)"
  let ?r = "snd (full_batches ts)"
  have lr: "length ?r < 50" by (simp add: full_batches_rest)
  have f: "f = length ?r" "take f (msg_user u) = ?r" "length (msg_user u) = 50"
    using assms by (auto simp: filling_def f_def full_short split: if_splits)
  have tk: "take (Suc f) ((msg_user u)[f := t]) = ?r @ [t]"
    using f lr by (simp add: take_Suc_conv_app_nth)
  define u1 where "u1 = (if flag u = 1 then u\<lparr>fill := 0, flag := 0\<rparr> else u)
      \<lparr>msg_user := (msg_user u)[f := t]\<rparr>"
  have u1: "fill u1 = f" "flag u1 \<noteq> 1" "msg_user u1 = (msg_user u)[f := t]" "nelem u1 = nelem u"
    by (simp_all add: u1_def f_def)
  have e: "send_user_info (u, s) t =
      (if f < 49 then (u1\<lparr>fill := Suc f\<rparr>, s)
       else (u1\<lparr>fill := 0\<rparr>, s\<lparr>nl_sent := nl_sent s @ [user_batch (?r @ [t])]\<rparr>))"
  proof -
    have "send_user_info (u, s) t =
        (if fill u1 < 49 then (u1\<lparr>fill := fill u1 + 1\<rparr>, s)
         else (u1\<lparr>fill := 0\<rparr>, send_tc_info_nlmsg (UserInfoMsg NETLINK_TC_USER_INFO (50 * sizeof_USERINFO)
                 (take (fill u1 + 1) (msg_user u1))) s))"
      by (simp add: send_user_info_def Let_def u1_def f_def)
    then show ?thesis using tk f(1) lr u1 by (auto simp: send_defs user_batch_def)
  qed
  show ?thesis
  proof (cases "f < 49")
    case True
    then show ?thesis
      using e f tk u1 by (simp add: filling_def full_batches_snoc)
  next
    case False
    then show ?thesis
      using e f tk u1 lr by (simp add: filling_def full_batches_snoc)
  qed
qed

lemma traverse_user_info:
  assumes "filling ts u" "\<And>v. v \<in> set xs \<Longrightarrow> tun_mem s (snd v) \<noteq> None"
  shows "\<exists>u'. traverse_from user_info_callback xs (u, s) = Some (u', s\<lparr>nl_sent := nl_sent s @
      map user_batch (drop (length (fst (full_batches ts)))
        (fst (full_batches (ts @ map (\<lambda>v. the (tun_mem s (snd v))) xs))))\<rparr>)
    \<and> filling (ts @ map (\<lambda>v. the (tun_mem s (snd v))) xs) u' \<and> nelem u' = nelem u"
  using assms
proof (induction xs arbitrary: ts u s)
  case Nil
  then show ?case by simp
next
  case (Cons v xs)
  obtain t where t: "tun_mem s (snd v) = Some t" using Cons.prems(2) [of v] by auto
  let ?F = "\<lambda>ts. fst (full_batches ts)" and ?n = "\<lambda>ts. length (fst (full_batches ts))"
  let ?s = "s\<lparr>nl_sent := nl_sent s @ map user_batch (drop (?n ts) (?F (ts @ [t])))\<rparr>"
  let ?m = "map (\<lambda>v. the (tun_mem s (snd v))) xs"
  obtain u1 where u1: "send_user_info (u, s) t = (u1, ?s)" "filling (ts @ [t]) u1" "nelem u1 = nelem u"
    using send_user_info_ok [OF Cons.prems(1), of s t] by auto
  obtain u2 where u2: "traverse_from user_info_callback xs (u1, ?s) = Some (u2, ?s\<lparr>nl_sent := nl_sent ?s @
      map user_batch (drop (?n (ts @ [t])) (?F ((ts @ [t]) @ ?m)))\<rparr>)"
    "filling ((ts @ [t]) @ ?m) u2" "nelem u2 = nelem u1"
    using Cons.IH [OF u1(2), of ?s] Cons.prems(2) by auto
  have E: "drop (?n ts) (?F (ts @ [t])) @ drop (?n (ts @ [t])) (?F ((ts @ [t]) @ ?m))
      = drop (?n ts) (?F (ts @ t # ?m))"
  proof -
    have g: "\<exists>zs. ?F (xs @ ys) = ?F xs @ zs" for xs ys
    proof (induction ys rule: rev_induct)
      case (snoc y ys)
      then show ?case using full_batches_snoc [of "xs @ ys" y] by auto
    qed simp
    obtain a b where "?F (ts @ [t]) = ?F ts @ a" "?F ((ts @ [t]) @ ?m) = ?F (ts @ [t]) @ b"
      using g by metis
    then show ?thesis by simp
  qed
  have s: "?s\<lparr>nl_sent := nl_sent ?s @ map user_batch (drop (?n (ts @ [t])) (?F ((ts @ [t]) @ ?m)))\<rparr>
      = s\<lparr>nl_sent := nl_sent s @ map user_batch (drop (?n ts) (?F (ts @ t # ?m)))\<rparr>"
    unfolding E [symmetric] map_append by simp
  have "user_info_callback (u, s) (snd v) = Some (u1, ?s)"
    using u1(1) t by (simp add: user_info_callback_def)
  then have "traverse_from user_info_callback (v # xs) (u, s) =
      Some (u2, s\<lparr>nl_sent := nl_sent s @ map user_batch (drop (?n ts) (?F (ts @ t # ?m)))\<rparr>)"
    using u2(1) unfolding s by simp
  then show ?case using u1(3) u2(2,3) t by simp
qed

lemma BPTravUserInfo_ok:
  assumes "tun_inv s" "idle u"
  obtains u' where "BPTravUserInfo (tree4 s) (u, s) = Some (u', s\<lparr>nl_sent := nl_sent s @
      map user_batch (fst (full_batches (tun_list s)))\<rparr>)" "filling (tun_list s) u'" "nelem u' = nelem u"
proof -
  have f: "filling [] u" using assms(2) by (simp add: filling_def idle_def)
  have m: "tun_mem s (snd v) \<noteq> None" if "v \<in> set (header (tree4 s))" for v
    using tun_invD(3) [OF assms(1), of "fst v" "snd v"] that by auto
  have ne: "root (tree4 s) = None \<Longrightarrow> header (tree4 s) = []"
    using tun_invD(1) [OF assms(1)] by (simp add: bp_inv_def)
  have "\<exists>u'. traverse_from user_info_callback (header (tree4 s)) (u, s) = Some (u', s\<lparr>nl_sent := nl_sent s @
      map user_batch (fst (full_batches (tun_list s)))\<rparr>) \<and> filling (tun_list s) u' \<and> nelem u' = nelem u"
    using traverse_user_info [OF f m] by (simp add: tun_list_def full_short)
  then obtain u' where u': "traverse_from user_info_callback (header (tree4 s)) (u, s) =
      Some (u', s\<lparr>nl_sent := nl_sent s @ map user_batch (fst (full_batches (tun_list s)))\<rparr>)"
    "filling (tun_list s) u'" "nelem u' = nelem u" by blast
  have "BPTravUserInfo (tree4 s) (u, s) = traverse_from user_info_callback (header (tree4 s)) (u, s)"
    using ne by (auto simp: BPTravUserInfo_def)
  then show ?thesis using that [of u'] u' by simp
qed

lemma length_tun_list: "tun_inv s \<Longrightarrow> int (length (tun_list s)) = tsize (tree4 s)"
  using tree_sizes(2) by (simp add: tun_list_def)

lemma SizeOfElement_ok: "tun_inv s \<Longrightarrow> SizeOfElement (pStroageCtx s) = tsize (tree4 s)"
  using tree_sizes(1) [of s] tree_sizes(2) [of s] by (auto simp: SizeOfElement_def bptreesize_def)

lemma c_rem_nonneg: "0 \<le> a \<Longrightarrow> 0 < b \<Longrightarrow> a - c_div a b * b = a mod b"
  by (simp add: c_div_nonneg minus_div_mult_eq_mod)

lemma listing_ok:
  assumes "tun_inv s" "idle u" "nelem u = SizeOfElement (pStroageCtx s)"
  shows "\<exists>u'. process_user_info (u, s) (HdrMsg NETLINK_TC_USER_INFO) = Some (u', s\<lparr>nl_sent := nl_sent s @
      map user_batch (batches (tun_list s)) @ [(NL_USER_INFO, HdrMsg NETLINK_RESULT)]\<rparr>)
    \<and> idle u' \<and> nelem u' = nelem u"
proof -
  let ?fb = "full_batches (tun_list s)"
  obtain u1 where u1: "BPTravUserInfo (tree4 s) (u, s) = Some (u1, s\<lparr>nl_sent := nl_sent s @
      map user_batch (fst ?fb)\<rparr>)" "filling (tun_list s) u1" "nelem u1 = nelem u"
    by (rule BPTravUserInfo_ok [OF assms(1,2)])
  have n: "nelem u1 = int (length (tun_list s))"
    using u1(3) assms(3) SizeOfElement_ok [OF assms(1)] length_tun_list [OF assms(1)] by simp
  have left: "nelem u1 - c_div (nelem u1) 50 * 50 = int (length (snd ?fb))"
    using c_rem_nonneg [of "nelem u1" 50] by (simp add: n full_batches_rest zmod_int)
  show ?thesis
  proof (cases "snd ?fb = []")
    case True
    then have "idle u1" using u1(2) by (cases "tun_list s = []") (auto simp: idle_def filling_def)
    then show ?thesis
      using u1 left True
      by (simp add: process_user_info_def send_defs batches_def case_prod_unfold Let_def)
  next
    case False
    then have "tun_list s \<noteq> []" by (auto simp: full_short)
    then have tk: "take (length (snd ?fb)) (msg_user u1) = snd ?fb" "length (msg_user u1) = 50"
      using u1(2) by (auto simp: filling_def)
    then show ?thesis
      using u1 left False
      by (simp add: process_user_info_def send_defs batches_def case_prod_unfold Let_def idle_def
          user_batch_def)
  qed
qed

section \<open>Properties\<close>

text \<open>Asking for the number of subscribers and then for the list, with no change in between,
  gets the number of tunnels and then every tunnel exactly once, in the order of the v4 tree,
  in messages of at most 50, followed by the end mark; and the module is ready for the next
  listing.\<close>

theorem user_listing_complete:
  assumes "tun_inv s" "idle u"
  shows "\<exists>u1 s1 u2 s2 bs. process_user_info (u, s) (HdrMsg NETLINK_TC_USER_TOTAL) = Some (u1, s1)
    \<and> process_user_info (u1, s1) (HdrMsg NETLINK_TC_USER_INFO) = Some (u2, s2)
    \<and> nl_sent s2 = nl_sent s @ [(NL_USER_INFO, TotalMsg NETLINK_TC_USER_TOTAL (int (length (tun_list s))))]
        @ map user_batch bs @ [(NL_USER_INFO, HdrMsg NETLINK_RESULT)]
    \<and> concat bs = tun_list s \<and> (\<forall>b \<in> set bs. 0 < length b \<and> length b \<le> 50) \<and> idle u2"
proof -
  let ?n = "SizeOfElement (pStroageCtx s)"
  let ?u = "u\<lparr>nelem := ?n\<rparr>" and ?s = "s\<lparr>nl_sent := nl_sent s @ [(NL_USER_INFO, TotalMsg NETLINK_TC_USER_TOTAL ?n)]\<rparr>"
  have 1: "process_user_info (u, s) (HdrMsg NETLINK_TC_USER_TOTAL) = Some (?u, ?s)"
    by (simp add: process_user_info_def Let_def send_defs)
  have n: "?n = int (length (tun_list s))"
    using SizeOfElement_ok [OF assms(1)] length_tun_list [OF assms(1)] by simp
  have "tun_inv ?s" "idle ?u" "nelem ?u = SizeOfElement (pStroageCtx ?s)" "tun_list ?s = tun_list s"
    using assms by (simp_all add: idle_def tun_list_def)
  then obtain u2 where "process_user_info (?u, ?s) (HdrMsg NETLINK_TC_USER_INFO) =
      Some (u2, ?s\<lparr>nl_sent := nl_sent ?s @ map user_batch (batches (tun_list s))
        @ [(NL_USER_INFO, HdrMsg NETLINK_RESULT)]\<rparr>)" "idle u2"
    using listing_ok [of ?s ?u] by auto
  then show ?thesis
    using 1 n concat_batches batches_length
    by (intro exI [of _ ?u] exI [of _ ?s] exI [of _ u2] exI [of _ "batches (tun_list s)"] exI) auto
qed

theorem user_listing_complete_witness:
  "\<exists>u1 s1 u2 s2. process_user_info (\<lparr>flag = 0, nelem = 0, fill = 0, msg_user = replicate 50 tunnel7\<rparr>, state7)
        (HdrMsg NETLINK_TC_USER_TOTAL) = Some (u1, s1)
    \<and> process_user_info (u1, s1) (HdrMsg NETLINK_TC_USER_INFO) = Some (u2, s2) \<and> idle u2"
  using user_listing_complete [OF state7_inv, of "\<lparr>flag = 0, nelem = 0, fill = 0, msg_user = replicate 50 tunnel7\<rparr>"]
  by (auto simp: idle_def)

end
