(* ===== verification/System.thy ===== *)
theory System
  imports Path KernelNetlink TcUserInfo
begin

text \<open>
  The kernel module as a whole: packets, the requests and configuration messages of the daemon,
  and the two timers, as steps of one state machine, and what holds of every state it reaches.
\<close>

section \<open>Steps\<close>

text \<open>
  The daemon sends an allocation only for a client the module told it has none, or to renew a
  tunnel, with that tunnel's address and port (\<open>asked\<close>, which \<open>Daemon\<close> proves of it): any other
  allocation for a client with a tunnel breaks the table (\<open>CreateTunnel_shadowed\<close>).
\<close>

definition asked :: "kstate \<Rightarrow> netlink_msg \<Rightarrow> bool" where
  "asked s msg \<longleftrightarrow> (case msg of TunMsg NETLINK_ALLOC_ADDR m \<Rightarrow>
     users s (user_addr m) = None \<or> ports s (public_ip m, start_port m) \<noteq> None | _ \<Rightarrow> True)"

inductive tc_step :: "(kstate \<Rightarrow> addr option) \<Rightarrow> tcstate \<Rightarrow> tcstate \<Rightarrow> bool" for kmalloc where
  packet: "stream_hook e st skb = Some (st', v) \<Longrightarrow> tc_step kmalloc st st'"
| request: "asked (kst st) msg \<Longrightarrow> nl_data_ready kmalloc (kst st) n msg = Some k \<Longrightarrow>
    tc_step kmalloc st (st\<lparr>kst := k\<rparr>)"
| config: "async_nl_data_ready (kst st) n msg = Some k \<Longrightarrow> tc_step kmalloc st (st\<lparr>kst := k\<rparr>)"
| listing: "tc_user_data_ready (u, kst st) n msg = Some (u', k) \<Longrightarrow> tc_step kmalloc st (st\<lparr>kst := k\<rparr>)"
| life_time: "fire_timer (kst st) = Some k \<Longrightarrow> tc_step kmalloc st (st\<lparr>kst := k\<rparr>)"
| frag_time: "tc_step kmalloc st (st\<lparr>frg := fragtimeouthandle (frg st)\<rparr>)"

inductive_cases tc_stepE: "tc_step kmalloc st st'"

section \<open>The invariant\<close>

text \<open>The tables are well formed, and while the service is on its timer is armed.\<close>

definition tc_inv :: "tcstate \<Rightarrow> bool" where
  "tc_inv st \<longleftrightarrow> tun_inv (kst st) \<and> hash_inv (pshashtable (frg st)) \<and> length (frag4buf (frg st)) = 66000
     \<and> (uiTunState (GlobalCtx (kst st)) \<noteq> 0 \<longrightarrow> StorageTimer (GlobalCtx (kst st)) \<noteq> None)"

lemma IPv6_frg_inv:
  assumes "HandleIPv6_skbuf e st skb = Some (st', r)" "hash_inv (pshashtable (frg st))"
  shows "hash_inv (pshashtable (frg st')) \<and> length (frag4buf (frg st')) = length (frag4buf (frg st))"
  using assms
  by (auto simp: HandleIPv6_skbuf_def handle_ipinip_def SendSkbuf_def handle_fragment_def Let_def option_simps sent_def
      split: if_splits option.splits dest: frag_arrive_buf intro: frag_arrive_inv)

lemma IPv4_same:
  assumes "HandleIPv4_skbuf e st skb = Some (st', r)"
  shows "same_table (kst st) (kst st') \<and> frg st' = frg st"
proof -
  obtain k r0 where l: "IPv4LenCheck e (kst st) (skb_data skb) = Some (k, r0)"
    using assms by (auto simp: HandleIPv4_skbuf_def Let_def option_simps)
  have "kst st' = k \<and> frg st' = frg st"
    using assms l
    by (auto simp: HandleIPv4_skbuf_def Let_def option_simps sent_def split: if_splits option.splits)
  then show ?thesis using IPv4LenCheck_same [OF l] by simp
qed

lemma stream_hook_same:
  assumes "stream_hook e st skb = Some (st', v)" "hash_inv (pshashtable (frg st))" "tun_inv (kst st)"
  shows "same_table (kst st) (kst st') \<and> hash_inv (pshashtable (frg st'))
    \<and> length (frag4buf (frg st')) = length (frag4buf (frg st))"
proof -
  have "st' = st \<or> (\<exists>r. HandleIPv6_skbuf e st skb = Some (st', r) \<or> HandleIPv4_skbuf e st skb = Some (st', r))"
    using assms(1) by (auto simp: stream_hook_def Handle_skbuf_def option_simps split: if_splits)
  then show ?thesis
    using assms(2) HandleIPv6_frames [OF assms(3)] IPv4_same IPv6_frg_inv by (metis same_table_refl)
qed

lemma stream_hook_inv:
  assumes "tc_inv st" "stream_hook e st skb = Some (st', v)"
  shows "tc_inv st'"
  using stream_hook_same [OF assms(2)] assms(1) same_table_eqs [of "kst st" "kst st'"] by (auto simp: tc_inv_def)

section \<open>The daemon's messages and the timer\<close>

text \<open>What a step on the kernel state has to keep.\<close>

definition k_inv :: "kstate \<Rightarrow> bool" where
  "k_inv s \<longleftrightarrow> tun_inv s \<and> (uiTunState (GlobalCtx s) \<noteq> 0 \<longrightarrow> StorageTimer (GlobalCtx s) \<noteq> None)"

lemma k_inv_same: "tun_inv s' \<Longrightarrow> GlobalCtx s' = GlobalCtx s \<Longrightarrow> k_inv s \<Longrightarrow> k_inv s'"
  by (simp add: k_inv_def)

lemma replies_inv: "\<exists>s1. h = Some (s1, r1) \<and> replies s out s1 \<Longrightarrow> h = Some (s', r) \<Longrightarrow> k_inv s \<Longrightarrow> k_inv s'"
  unfolding replies_def by (metis k_inv_same option.inject prod.inject)

lemma HandlMessage_inv:
  assumes "k_inv s" "kmalloc_ok kmalloc" "asked s msg" "HandlMessage kmalloc s msg = Some (s', r)"
  shows "k_inv s'"
proof -
  have inv: "tun_inv s" using assms(1) by (simp add: k_inv_def)
  have snd: "k_inv (send_nlmsg m s)" for m using assms(1) by (simp add: k_inv_def send_defs)
  have d: "k_inv s'" if "handle_detect s m = Some (s', r)" for m
    by (rule replies_inv [OF handle_detect_ok [OF inv] that assms(1)])
  have x: "k_inv s'" if "handle_delete s m = Some (s', r)" for m
    by (rule replies_inv [OF handle_delete_ok [OF inv] that assms(1)])
  have a: "k_inv s'" if h: "handle_alloc kmalloc s m = Some (s', r)"
    and k: "users s (user_addr m) = None \<or> ports s (public_ip m, start_port m) \<noteq> None" for m
  proof -
    let ?taken = "kmalloc s = None \<or> ports s (public_ip m, start_port m) \<noteq> None \<or> tsize (tree4 s) = MAXBPSIZE"
    have "users s (user_addr m) = None \<or> ?taken" using k by blast
    from replies_inv [OF handle_alloc_ok [OF inv assms(2) this refl] h assms(1)] show ?thesis .
  qed
  show ?thesis
    using assms(1,3,4) d x a snd
    by (cases msg) (auto simp: HandlMessage_def asked_def split: NETLINK_MSG_DEF.splits)
qed

lemma HandlAsyncMessage_inv:
  assumes "k_inv s" "HandlAsyncMessage s msg = Some s'"
  shows "k_inv s'"
proof -
  have inv: "tun_inv s" using assms(1) by (simp add: k_inv_def)
  have i: "k_inv s'" if h: "handle_init_config s c = Some s'" for c
  proof -
    have on: "uiTunState (GlobalCtx s) = 1 \<or> StorageTimer (GlobalCtx s) = None"
      using h by (auto simp: handle_init_config_def add_timer_def set_config_def Let_def split: if_splits)
    show ?thesis
      by (rule handle_init_config_ok [OF inv on, of c]) (use h in \<open>simp add: k_inv_def\<close>)
  qed
  have u: "k_inv s'" if h: "handle_uninit_config s c = Some s'" for c
  proof (cases "cfg_uiTunState c = 0")
    case True
    then obtain s1 where "handle_uninit_config s c = Some s1" "tun_inv s1" "uiTunState (GlobalCtx s1) = 0"
      using handle_uninit_config_ok [OF inv True] by metis
    then show ?thesis using h by (simp add: k_inv_def)
  next
    case False
    then show ?thesis using h assms(1) by (simp add: handle_uninit_config_def)
  qed
  show ?thesis
    using assms i u by (cases msg) (auto simp: HandlAsyncMessage_def split: NETLINK_MSG_DEF.splits)
qed

lemma fire_timer_inv:
  assumes "k_inv s" "fire_timer s = Some s'"
  shows "k_inv s'"
proof (cases "StorageTimer (GlobalCtx s) = None")
  case True
  then show ?thesis using assms by (simp add: fire_timer_def)
next
  case False
  have inv: "tun_inv s" using assms(1) by (simp add: k_inv_def)
  show ?thesis
    by (rule fire_timer_ok [OF inv False refl]) (use assms(2) in \<open>simp add: k_inv_def\<close>)
qed

lemma traverse_from_keeps:
  assumes "\<And>x p y. P x \<Longrightarrow> f x p = Some y \<Longrightarrow> P y"
  shows "traverse_from f vs x = Some y \<Longrightarrow> P x \<Longrightarrow> P y"
  using assms by (induction vs arbitrary: x) (auto simp: option_simps)

lemma send_user_info_same: "same_table s (snd (send_user_info us r)) = same_table s (snd us)"
  by (cases us) (simp add: send_user_info_def send_defs same_table_def Let_def)

lemma user_info_callback_same:
  "same_table s (snd us) \<Longrightarrow> user_info_callback us p = Some us' \<Longrightarrow> same_table s (snd us')"
  by (auto simp: user_info_callback_def send_user_info_same)

lemma BPTravUserInfo_same:
  assumes "BPTravUserInfo t us = Some x" shows "same_table (snd us) (snd x)"
proof -
  have "traverse_from user_info_callback vs us = Some x \<Longrightarrow> same_table (snd us) (snd x)" for vs
    by (rule traverse_from_keeps [where P = "\<lambda>x. same_table (snd us) (snd x)" and f = user_info_callback])
      (auto intro: user_info_callback_same)
  then show ?thesis using assms by (auto simp: BPTravUserInfo_def split: if_splits)
qed

lemma listing_same:
  assumes "tc_user_data_ready (u, s) n msg = Some (u', s')"
  shows "same_table s s'"
proof -
  have "same_table s s'" if p: "process_user_info (u, s) msg = Some (u', s')"
  proof (cases "msgdef msg = Some NETLINK_TC_USER_INFO")
    case True
    then obtain u1 s1 where b: "BPTravUserInfo (tree4 s) (u, s) = Some (u1, s1)"
      using p by (auto simp: process_user_info_def option_simps)
    have "same_table s1 s'"
      using p b True
      by (auto simp: process_user_info_def send_defs same_table_def Let_def split: if_splits)
    then show ?thesis using BPTravUserInfo_same [OF b] by (simp add: same_table_def)
  next
    case False
    then show ?thesis
      using p by (auto simp: process_user_info_def send_defs same_table_def Let_def
          split: option.splits NETLINK_MSG_DEF.splits)
  qed
  then show ?thesis using assms by (auto simp: tc_user_data_ready_def split: if_splits)
qed

section \<open>Every reachable state\<close>

lemma tc_inv_k: "tc_inv st \<longleftrightarrow> k_inv (kst st) \<and> hash_inv (pshashtable (frg st)) \<and> length (frag4buf (frg st)) = 66000"
  by (auto simp: tc_inv_def k_inv_def)

lemma tc_step_inv:
  assumes "tc_step kmalloc st st'" "kmalloc_ok kmalloc" "tc_inv st"
  shows "tc_inv st'"
  using assms(1)
proof (cases rule: tc_step.cases)
  case (packet e skb v)
  then show ?thesis using stream_hook_inv [OF assms(3)] by blast
next
  case (request msg n k)
  then have "k_inv k"
    using assms(2,3) HandlMessage_inv [of "kst st" kmalloc msg k]
    by (auto simp: nl_data_ready_def tc_inv_k split: if_splits)
  then show ?thesis using request assms(3) by (simp add: tc_inv_k)
next
  case (config n msg k)
  then have "k_inv k"
    using assms(3) HandlAsyncMessage_inv [of "kst st" msg k]
    by (auto simp: async_nl_data_ready_def tc_inv_k split: if_splits)
  then show ?thesis using config assms(3) by (simp add: tc_inv_k)
next
  case (listing u n msg u' k)
  then have "same_table (kst st) k" using listing_same by fastforce
  then show ?thesis using listing assms(3) same_table_eqs by (simp add: tc_inv_def)
next
  case (life_time k)
  then show ?thesis using assms(3) fire_timer_inv [of "kst st" k] by (simp add: tc_inv_k)
next
  case frag_time
  then show ?thesis using assms(3) tick_inv [of "frg st"] by (simp add: tc_inv_def fragtimeouthandle_def)
qed

lemma reachable_inv:
  assumes "modules_init m buf = Some st" "length buf = 66000" "kmalloc_ok kmalloc" "(tc_step kmalloc)\<^sup>*\<^sup>* st st'"
  shows "tc_inv st'"
  using assms(4)
proof (induction rule: rtranclp_induct)
  case base
  show ?case using modules_init_ok [OF assms(1)] assms(2) by (simp add: tc_inv_def)
next
  case (step s s')
  then show ?case using tc_step_inv assms(3) by blast
qed

definition started :: "tcstate option" where
  "started = modules_init all_ok (replicate 66000 0)"

lemma started_Some: "started = Some (the started)"
  by (simp add: started_def modules_init_def InitStorage_def initfragmodule_def ShashCreate_def all_ok_def)

end
