(* ===== verification/AddrPool.thy ===== *)
theory AddrPool
  imports Prelude
begin

text \<open>
  The port pool of the user daemon (\<open>user_module/src/portmap.c\<close>, \<open>addrpoolentity.c\<close>): a ring of
  external addresses, each with a bitmap of 64 blocks of 1024 ports, from which ranges of
  \<open>uiRange\<close> blocks are granted and to which they are given back.
\<close>

section \<open>Bitmaps (\<open>portmap.c\<close>)\<close>

text \<open>
  A bitmap is 8 bytes, \<open>char bitmap[8]\<close>.  Bits and loop counters are \<open>int\<close>; the callers pass no
  negative bit, for which \<open>bitmaparray\<close> would be read before its start.
\<close>

definition bitmaparray :: "u8 list" where
  "bitmaparray = concat (replicate 8 [0x80, 0x40, 0x20, 0x10, 0x08, 0x04, 0x02, 0x01])"

definition bitmap_empty :: "u8 list \<Rightarrow> nat \<Rightarrow> int" where
  "bitmap_empty bm n = (if list_all (\<lambda>x. x = 0) (take n bm) then 1 else 0)"

definition bitmap_full :: "u8 list \<Rightarrow> nat \<Rightarrow> int" where
  "bitmap_full bm n = (if list_all (\<lambda>x. x = 255) (take n bm) then 1 else 0)"

definition bitmap_get :: "u8 list \<Rightarrow> int \<Rightarrow> int" where
  "bitmap_get bm b =
     (let n = c_div b 8
      in if n < 0 \<or> 7 < n then -1 else sint (and (bm ! nat n) (bitmaparray ! nat b)))"

definition bitmap_set :: "u8 list \<Rightarrow> int \<Rightarrow> int \<Rightarrow> u8 list" where
  "bitmap_set bm b value =
     (let n = c_div b 8
      in if n < 0 \<or> 7 < n then bm
         else if value = 1 then bm[nat n := or (bm ! nat n) (bitmaparray ! nat b)]
         else if value = 0 then bm[nat n := and (bm ! nat n) (not (bitmaparray ! nat b))]
         else bm)"

function portrange_test :: "u8 list \<Rightarrow> int \<Rightarrow> int \<Rightarrow> int" where
  "portrange_test bm i endbit =
     (if i \<le> endbit then (if bitmap_get bm i \<noteq> 0 then 0 else portrange_test bm (i + 1) endbit) else 1)"
  by auto
termination by (relation "measure (\<lambda>(_, i, e). nat (e - i + 1))") auto

function portrange_set :: "u8 list \<Rightarrow> int \<Rightarrow> int \<Rightarrow> int \<Rightarrow> u8 list" where
  "portrange_set bm i endbit value =
     (if i \<le> endbit then portrange_set (bitmap_set bm i value) (i + 1) endbit value else bm)"
  by auto
termination by (relation "measure (\<lambda>(_, i, e, _). nat (e - i + 1))") auto

declare portrange_test.simps [simp del] portrange_set.simps [simp del]

section \<open>The pool (\<open>addrpoolentity.c\<close>)\<close>

text \<open>
  \<open>validbit\<close> is an \<open>int\<close> in two's complement.  The ring is the list of its nodes from \<open>header\<close> on,
  \<open>next\<close> of a node the following one, of the last one the header; \<open>curnode\<close> is a position in it.
\<close>

definition MINI_RANGE_VALUE :: u32 where "MINI_RANGE_VALUE = 1024"

record ADDRPOOLNODE =
  node_ip :: u32
  validbit :: u32
  bitmap :: "u8 list"

record ADDRPOOLLIST =
  ring :: "ADDRPOOLNODE list"
  curnode :: nat
  ring_length :: nat

record ADDR_POOL =
  uiStartIp :: u32
  uiEndIp :: u32
  usPortMask :: u16
  usUserQutoa :: u32
  usRequestQutoa :: u32

text \<open>Allocations of nodes are taken to succeed.\<close>

definition AllocAddrPoolNode :: "u32 \<Rightarrow> ADDRPOOLNODE" where
  "AllocAddrPoolNode addr = \<lparr>node_ip = addr, validbit = 0, bitmap = replicate 8 0\<rparr>"

definition AddAddrPoolNode :: "ADDRPOOLLIST \<Rightarrow> ADDRPOOLNODE \<Rightarrow> ADDRPOOLLIST" where
  "AddAddrPoolNode pl n =
     pl\<lparr>ring := ring pl @ [n], curnode := length (ring pl), ring_length := ring_length pl + 1\<rparr>"

text \<open>
  The comparison with \<open>uiEndIp\<close> is unsigned, so a range that ends at 255.255.255.255 never ends
  the loop: \<open>None\<close>.
\<close>

partial_function (option) init_pool_loop :: "u32 \<Rightarrow> u32 \<Rightarrow> ADDRPOOLLIST \<Rightarrow> ADDRPOOLLIST option" where
  "init_pool_loop i e pl =
     (if i \<le> e then init_pool_loop (i + 1) e (AddAddrPoolNode pl (AllocAddrPoolNode i)) else Some pl)"

definition InitAddrPool :: "ADDR_POOL \<Rightarrow> ADDRPOOLLIST option" where
  "InitAddrPool p =
     do { pl \<leftarrow> init_pool_loop (uiStartIp p) (uiEndIp p) \<lparr>ring = [], curnode = 0, ring_length = 0\<rparr>;
          Some (pl\<lparr>curnode := 0\<rparr>) }"

text \<open>
  One attempt at the range that starts at \<open>validbit\<close>: past the end or taken, it is skipped; otherwise
  it is marked, and granted unless its last port wraps around.
\<close>

definition try_node :: "u32 \<Rightarrow> ADDRPOOLNODE \<Rightarrow> ADDRPOOLNODE \<times> (u16 \<times> u16 \<times> u32) option" where
  "try_node uiRange n =
     (let v = validbit n; e = v + uiRange - 1
      in if 64 \<le> e \<or> portrange_test (bitmap n) (sint v) (sint e) = 0
         then (n\<lparr>validbit := v + uiRange\<rparr>, None)
         else
           let usStartPort = (ucast (v * MINI_RANGE_VALUE + MINI_RANGE_VALUE) :: u16);
               usStopPort = (ucast ((ucast usStartPort :: u32) + MINI_RANGE_VALUE - 1
                               + (uiRange - 1) * MINI_RANGE_VALUE) :: u16);
               n' = n\<lparr>bitmap := portrange_set (bitmap n) (sint v) (sint e) 1, validbit := v + uiRange\<rparr>
           in (n', if usStopPort < usStartPort then None else Some (usStartPort, usStopPort, node_ip n)))"

definition ring_next :: "nat \<Rightarrow> ADDRPOOLNODE list \<Rightarrow> nat" where
  "ring_next c ns = (c + 1) mod length ns"

text \<open>
  The loop of \<open>AllocAddrPort\<close>.  Outer \<open>None\<close>: it does not end; inner \<open>None\<close>: it returns -1.
\<close>

partial_function (option) alloc_loop ::
    "nat \<Rightarrow> u32 \<Rightarrow> u32 \<Rightarrow> nat \<Rightarrow> ADDRPOOLNODE list \<Rightarrow> (ADDRPOOLNODE list \<times> (u16 \<times> u16 \<times> u32) option) option" where
  "alloc_loop pBegin pBit uiRange c ns =
     (if c = pBegin \<and> pBit = validbit (ns ! c) then Some (ns, None)
      else if 64 \<le> sint (validbit (ns ! c))
      then alloc_loop pBegin pBit uiRange (ring_next c ns) (ns[c := (ns ! c)\<lparr>validbit := 0\<rparr>])
      else (case try_node uiRange (ns ! c) of
              (n, None) \<Rightarrow> alloc_loop pBegin pBit uiRange c (ns[c := n])
            | (n, Some g) \<Rightarrow> Some (ns[c := n], Some g)))"

declare alloc_loop.simps [code] init_pool_loop.simps [code]

text \<open>
  The first attempt comes before the loop and its test.  An empty pool has no \<open>curnode\<close>: \<open>None\<close>.
  The out parameters are read by the callers only after a success; the inner option is they.
\<close>

definition AllocAddrPort ::
    "ADDRPOOLLIST \<Rightarrow> u32 \<Rightarrow> (ADDRPOOLLIST \<times> (u16 \<times> u16 \<times> u32) option) option" where
  "AllocAddrPort pl uiRange =
     (if ring pl = [] then None
      else
        let pBegin = curnode pl; ns = ring pl; pBit = validbit (ns ! pBegin);
            (c, ns) = (if 64 \<le> sint pBit
                       then (ring_next pBegin ns, ns[pBegin := (ns ! pBegin)\<lparr>validbit := 0\<rparr>])
                       else (pBegin, ns));
            (n, g) = try_node uiRange (ns ! c);
            ns = ns[c := n]
        in map_option (\<lambda>(ns, g). (pl\<lparr>ring := ns\<rparr>, g))
             (case g of Some x \<Rightarrow> Some (ns, Some x) | None \<Rightarrow> alloc_loop pBegin pBit uiRange c ns))"

text \<open>The nodes are searched from the header on; \<open>None\<close> is the return value -1.\<close>

fun clear_in_ring :: "u32 \<Rightarrow> int \<Rightarrow> int \<Rightarrow> ADDRPOOLNODE list \<Rightarrow> ADDRPOOLNODE list option" where
  "clear_in_ring Addr b e [] = None"
| "clear_in_ring Addr b e (n # ns) =
     (if node_ip n = Addr then Some (n\<lparr>bitmap := portrange_set (bitmap n) b e 0\<rparr> # ns)
      else map_option ((#) n) (clear_in_ring Addr b e ns))"

definition DeallocAddrPort :: "ADDRPOOLLIST \<Rightarrow> u32 \<Rightarrow> u16 \<Rightarrow> u32 \<Rightarrow> ADDRPOOLLIST option" where
  "DeallocAddrPort pl uiRange usStartPort Addr =
     (let b = c_div (uint usStartPort - 1024) 1024
      in if b < 0 \<or> 64 \<le> b then None
         else map_option (\<lambda>ns. pl\<lparr>ring := ns\<rparr>)
                (clear_in_ring Addr b (sint (word_of_int b + uiRange - 1)) (ring pl)))"

section \<open>Bits\<close>

text \<open>\<open>taken bm b\<close>: block \<open>b\<close> is marked.\<close>

definition taken :: "u8 list \<Rightarrow> nat \<Rightarrow> bool" where
  "taken bm b \<longleftrightarrow> bit (bm ! (b div 8)) (7 - b mod 8)"

lemma length_bitmaparray: "length bitmaparray = 64"
  by (simp add: bitmaparray_def eval_nat_numeral)

lemma bitmaparray_nth: "b < 64 \<Longrightarrow> bitmaparray ! b = 2 ^ (7 - b mod 8)"
proof -
  have "list_all (\<lambda>b. bitmaparray ! b = 2 ^ (7 - b mod 8)) [0..<64]" by code_simp
  then show "b < 64 \<Longrightarrow> ?thesis" by (simp add: list_all_iff)
qed

lemma c_div_nat8: "c_div (int b) 8 = int (b div 8)"
  by (simp add: c_div_def zdiv_int sgn_if)

lemma bit_mask1: "bit (2 ^ k :: u8) j \<longleftrightarrow> j = k \<and> k < 8"
  by (auto simp: bit_exp_iff)

lemma sint_zero_iff: "sint (w :: 'a::len word) = 0 \<longleftrightarrow> w = 0"
  by (metis signed_0 signed_word_eqI)

lemma bitmap_get_iff:
  assumes "length bm = 8" "b < 64"
  shows "bitmap_get bm (int b) \<noteq> 0 \<longleftrightarrow> taken bm b"
proof -
  let ?w = "bm ! (b div 8)" and ?k = "7 - b mod 8"
  have "and ?w (2 ^ ?k) = 0 \<longleftrightarrow> \<not> bit ?w ?k" by (rule and_exp_eq_0_iff_not_bit)
  moreover have "b div 8 < 8" using assms(2) by linarith
  ultimately show ?thesis
    using assms by (simp add: bitmap_get_def c_div_nat8 bitmaparray_nth sint_zero_iff taken_def Let_def)
qed

lemma bitmap_get_above:
  assumes "64 \<le> b" shows "bitmap_get bm (int b) \<noteq> 0"
proof -
  have "8 \<le> b div 8" using assms by linarith
  then show ?thesis by (simp add: bitmap_get_def c_div_nat8 Let_def)
qed

lemma bitmap_set_length [simp]: "length (bitmap_set bm b v) = length bm"
  by (simp add: bitmap_set_def Let_def)

lemma bitmap_set_taken:
  assumes "length bm = 8" "b < 64" "v = 0 \<or> v = 1"
  shows "taken (bitmap_set bm (int i) v) b \<longleftrightarrow> (if b = i then v = 1 else taken bm b)"
proof (cases "i < 64")
  case False
  then have "8 \<le> i div 8" by linarith
  then show ?thesis using False assms(2) by (auto simp: bitmap_set_def c_div_nat8 Let_def)
next
  case True
  have n: "i div 8 < 8" "b div 8 < 8" using True assms(2) by linarith+
  have eq: "b = i \<longleftrightarrow> b div 8 = i div 8 \<and> 7 - b mod 8 = 7 - i mod 8"
  proof
    assume a: "b div 8 = i div 8 \<and> 7 - b mod 8 = 7 - i mod 8"
    have "b mod 8 < 8" "i mod 8 < 8" by simp_all
    then have "b mod 8 = i mod 8" using a by linarith
    then show "b = i" using a by (metis mod_mult_div_eq)
  qed simp
  show ?thesis
    using n assms(1,3) True unfolding eq
    by (auto simp: bitmap_set_def c_div_nat8 Let_def taken_def nth_list_update bitmaparray_nth
        bit_or_iff bit_and_iff bit_not_iff bit_mask1)
qed

lemma portrange_set_length [simp]: "length (portrange_set bm i e v) = length bm"
  by (induction bm i e v rule: portrange_set.induct) (subst portrange_set.simps, simp)

lemma portrange_set_taken:
  assumes "length bm = 8" "b < 64" "v = 0 \<or> v = 1" "0 \<le> i"
  shows "taken (portrange_set bm i e v) b \<longleftrightarrow> (if i \<le> int b \<and> int b \<le> e then v = 1 else taken bm b)"
  using assms
proof (induction bm i e v rule: portrange_set.induct)
  case (1 bm i e v)
  show ?case
  proof (cases "i \<le> e")
    case True
    obtain j where j: "i = int j" using 1(5) nonneg_int_cases by blast
    have "taken (portrange_set (bitmap_set bm i v) (i + 1) e v) b
        \<longleftrightarrow> (if i + 1 \<le> int b \<and> int b \<le> e then v = 1 else taken (bitmap_set bm i v) b)"
      using 1 True by simp
    then show ?thesis
      using bitmap_set_taken [OF 1(2,3,4), of j] True j by (subst portrange_set.simps) auto
  qed (use 1 in \<open>subst portrange_set.simps, auto\<close>)
qed

lemma portrange_test_iff:
  assumes "length bm = 8" "0 \<le> i" "e < 64"
  shows "portrange_test bm i e = (if \<exists>b. i \<le> int b \<and> int b \<le> e \<and> taken bm b then 0 else 1)"
  using assms
proof (induction bm i e rule: portrange_test.induct)
  case (1 bm i e)
  show ?case
  proof (cases "i \<le> e")
    case True
    obtain j where j: "i = int j" using 1(3) nonneg_int_cases by blast
    have g: "bitmap_get bm i \<noteq> 0 \<longleftrightarrow> taken bm j"
      using bitmap_get_iff [OF 1(2), of j] True j 1(4) by simp
    have s: "(\<exists>b. i \<le> int b \<and> int b \<le> e \<and> taken bm b)
        \<longleftrightarrow> taken bm j \<or> (\<exists>b. i + 1 \<le> int b \<and> int b \<le> e \<and> taken bm b)"
      using True unfolding j by (metis add1_zle_eq dual_order.order_iff_strict nat_int_comparison(1) zless_imp_add1_zle)
    show ?thesis
      using 1 True g s by (subst portrange_test.simps) auto
  qed (use 1 in \<open>subst portrange_test.simps, auto\<close>)
qed

section \<open>One attempt\<close>

text \<open>
  \<open>free_range\<close>: the blocks from \<open>v\<close> on are free; \<open>unserv\<close>: a block of the last range of a
  bitmap that \<open>r\<close> divides, whose ports would wrap around: it may be marked, and is never granted.
\<close>

definition free_range :: "ADDRPOOLNODE \<Rightarrow> nat \<Rightarrow> nat \<Rightarrow> bool" where
  "free_range n v r \<longleftrightarrow> (\<forall>b. v \<le> b \<and> b < v + r \<longrightarrow> \<not> taken (bitmap n) b)"

definition unserv :: "nat \<Rightarrow> nat \<Rightarrow> bool" where
  "unserv r b \<longleftrightarrow> r dvd 64 \<and> 64 \<le> b + r"

definition port_of :: "nat \<Rightarrow> u16" where
  "port_of v = word_of_nat ((v + 1) * 1024)"

definition node_ok :: "nat \<Rightarrow> nat \<Rightarrow> ADDRPOOLNODE \<Rightarrow> bool" where
  "node_ok m r n \<longleftrightarrow> length (bitmap n) = 8 \<and> r dvd unat (validbit n) \<and> unat (validbit n) < m"

lemma unat_plus32: "unat a + unat b < 2 ^ 32 \<Longrightarrow> unat (a + b :: u32) = unat a + unat b"
  by (simp add: unat_plus_if')

lemma sint_small:
  assumes "unat (w :: u32) < 2 ^ 31" shows "sint w = int (unat w)"
proof -
  have "int (unat w) < int (2 ^ 31)" using assms by (simp only: of_nat_less_iff)
  then have "uint w < 2 ^ 31" by simp
  then have "signed_take_bit 31 (uint w) = uint w"
    by (intro signed_take_bit_int_eq_self) (auto intro: order_trans [OF _ uint_ge_0])
  then show ?thesis by (simp add: sint_uint)
qed

lemma try_bounds:
  assumes "2 \<le> unat r" "unat r \<le> 63" "unat v < 256"
  shows "unat (v + r) = unat v + unat r" "unat (v + r - 1) = unat v + unat r - 1"
    "sint v = int (unat v)" "sint (v + r - 1 :: u32) = int (unat v + unat r - 1)"
    "64 \<le> v + r - 1 \<longleftrightarrow> 64 < unat v + unat r"
proof -
  show p: "unat (v + r) = unat v + unat r" using assms by (simp add: unat_plus32)
  have "1 \<le> v + r" using p assms(1) by (simp add: word_le_nat_alt)
  then show m: "unat (v + r - 1) = unat v + unat r - 1" using p by (simp add: unat_sub)
  show "sint v = int (unat v)" "sint (v + r - 1) = int (unat v + unat r - 1)"
    using assms m by (simp_all add: sint_small)
  show "64 \<le> v + r - 1 \<longleftrightarrow> 64 < unat v + unat r"
    using m assms(1) by (auto simp: word_le_nat_alt)
qed

lemma try_ports:
  assumes "2 \<le> unat r" "unat v + unat r \<le> 64"
    and s: "s = (ucast (v * MINI_RANGE_VALUE + MINI_RANGE_VALUE) :: u16)"
    and e: "e = (ucast ((ucast s :: u32) + MINI_RANGE_VALUE - 1 + (r - 1) * MINI_RANGE_VALUE) :: u16)"
  shows "s = port_of (unat v)" "e = s + word_of_nat (unat r * 1024 - 1)"
    "e < s \<longleftrightarrow> unat v + unat r = 64"
proof -
  have v: "v = word_of_nat (unat v)" and r: "r = word_of_nat (unat r)" by simp_all
  have "v * MINI_RANGE_VALUE + MINI_RANGE_VALUE = word_of_nat ((unat v + 1) * 1024)"
    by (simp add: MINI_RANGE_VALUE_def algebra_simps)
  moreover have b16: "(unat v + 1) * 1024 < 65536" using assms(1,2) by simp
  ultimately have us: "unat s = (unat v + 1) * 1024"
    unfolding s by (simp only: unsigned_ucast_eq unsigned_of_nat) (simp add: take_bit_nat_eq_self)
  then show "s = port_of (unat v)"
    unfolding port_of_def us [symmetric] by simp
  have "(ucast s :: u32) + MINI_RANGE_VALUE - 1 + (r - 1) * MINI_RANGE_VALUE
      = ucast s + word_of_nat (unat r * 1024 - 1)"
    using assms(1) by (simp add: MINI_RANGE_VALUE_def algebra_simps of_nat_diff)
  then have e2: "e = ucast (ucast s + word_of_nat (unat r * 1024 - 1) :: u32)" by (simp only: e)
  have us16: "unat s < 65536" using us b16 by simp
  have N: "unat r * 1024 - 1 < 2 ^ 16" using assms(2) by simp
  then have b: "unat (word_of_nat (unat r * 1024 - 1) :: u16) = unat r * 1024 - 1"
    "unat (word_of_nat (unat r * 1024 - 1) :: u32) = unat r * 1024 - 1"
    by (simp_all add: unsigned_of_nat take_bit_nat_eq_self)
  have "unat (ucast s + word_of_nat (unat r * 1024 - 1) :: u32) = unat s + (unat r * 1024 - 1)"
    using N us16 by (subst unat_plus32) (simp_all add: b(2) [simplified] unsigned_ucast_eq take_bit_nat_eq_self)
  then have "unat e = unat (s + word_of_nat (unat r * 1024 - 1))"
    unfolding e2 by (simp only: unsigned_ucast_eq) (simp add: unat_word_ariths b(1) [simplified] take_bit_eq_mod)
  then show e': "e = s + word_of_nat (unat r * 1024 - 1)" by (rule unsigned_word_eqI)
  show "e < s \<longleftrightarrow> unat v + unat r = 64"
    using assms(1,2) us b unfolding e' word_less_nat_alt unat_plus_if' by auto
qed

text \<open>
  What an attempt does to its node: \<open>r\<close> further in any case; refused, nothing but unservable
  blocks change; granted, the range was free and is marked.
\<close>

definition same_bits :: "nat \<Rightarrow> ADDRPOOLNODE \<Rightarrow> ADDRPOOLNODE \<Rightarrow> bool" where
  "same_bits r n n' \<longleftrightarrow> node_ip n' = node_ip n \<and> length (bitmap n') = length (bitmap n)
     \<and> (\<forall>b<64. \<not> unserv r b \<longrightarrow> taken (bitmap n') b = taken (bitmap n) b)"

definition granted :: "nat \<Rightarrow> nat \<Rightarrow> ADDRPOOLNODE \<Rightarrow> ADDRPOOLNODE \<Rightarrow> bool" where
  "granted r v n n' \<longleftrightarrow> node_ip n' = node_ip n \<and> length (bitmap n') = length (bitmap n) \<and> r dvd v
     \<and> v + r < 64 \<and> free_range n v r
     \<and> (\<forall>b<64. \<not> unserv r b \<longrightarrow> taken (bitmap n') b = (taken (bitmap n) b \<or> v \<le> b \<and> b < v + r))"

definition grant_of :: "nat \<Rightarrow> nat \<Rightarrow> u32 \<Rightarrow> u16 \<times> u16 \<times> u32" where
  "grant_of r v a = (port_of v, port_of v + word_of_nat (r * 1024 - 1), a)"

lemma try_node_ok:
  assumes "node_ok 256 (unat r) n" "2 \<le> unat r" "unat r \<le> 63" and k: "k = unat r" and v: "v = unat (validbit n)"
  obtains n' g where "try_node r n = (n', g)" "unat (validbit n') = v + k"
    "g = None \<Longrightarrow> same_bits k n n' \<and> (v + k < 64 \<longrightarrow> \<not> free_range n v k)"
    "g \<noteq> None \<Longrightarrow> g = Some (grant_of k v (node_ip n)) \<and> granted k v n n'"
proof -
  note ok = assms(1) [unfolded node_ok_def]
  note b = try_bounds [of r "validbit n", OF assms(2,3)]
  have b': "unat (validbit n + r) = v + k" "sint (validbit n) = int v"
    "sint (validbit n + r - 1) = int (v + k - 1)" "64 \<le> validbit n + r - 1 \<longleftrightarrow> 64 < v + k"
    using b ok v k by simp_all
  have iff: "int v \<le> int b \<and> int b \<le> int (v + k - 1) \<longleftrightarrow> v \<le> b \<and> b < v + k" for b
    using assms(2) unfolding k [symmetric] by linarith
  show thesis
  proof (cases "64 < v + k")
    case True
    then show thesis
      by (intro that [of "n\<lparr>validbit := validbit n + r\<rparr>" None])
        (use b' ok in \<open>auto simp: try_node_def Let_def same_bits_def\<close>)
  next
    case False
    have t: "portrange_test (bitmap n) (int v) (int (v + k - 1)) = (if free_range n v k then 1 else 0)"
    proof -
      have ex: "(\<exists>b. int v \<le> int b \<and> int b \<le> int (v + k - 1) \<and> taken (bitmap n) b) \<longleftrightarrow> \<not> free_range n v k"
        unfolding free_range_def conj_assoc [symmetric] iff by auto
      have l: "length (bitmap n) = 8" "0 \<le> int v" "int (v + k - 1) < 64"
        using ok False assms(2) unfolding k [symmetric] by simp_all
      show ?thesis unfolding portrange_test_iff [OF l] ex by simp
    qed
    show thesis
    proof (cases "free_range n v k")
      case nf: False
      then show thesis
        by (intro that [of "n\<lparr>validbit := validbit n + r\<rparr>" None])
          (use b' ok t in \<open>auto simp: try_node_def Let_def same_bits_def\<close>)
    next
      case fr: True
      define s where "s = (ucast (validbit n * MINI_RANGE_VALUE + MINI_RANGE_VALUE) :: u16)"
      define e where "e = (ucast ((ucast s :: u32) + MINI_RANGE_VALUE - 1 + (r - 1) * MINI_RANGE_VALUE) :: u16)"
      define n' where "n' = n\<lparr>bitmap := portrange_set (bitmap n) (int v) (int (v + k - 1)) 1, validbit := validbit n + r\<rparr>"
      have le: "unat (validbit n) + unat r \<le> 64" using False v k by simp
      note p = try_ports [OF assms(2) le s_def e_def]
      have tr: "try_node r n = (n', if e < s then None else Some (s, e, node_ip n))"
        using False fr t b' by (simp add: try_node_def Let_def n'_def s_def e_def)
      have tk: "taken (bitmap n') b = (taken (bitmap n) b \<or> v \<le> b \<and> b < v + k)" if "b < 64" for b
        using portrange_set_taken [of "bitmap n" b 1 "int v" "int (v + k - 1)"] that ok unfolding iff by (auto simp: n'_def)
      have f: "node_ip n' = node_ip n" "length (bitmap n') = length (bitmap n)" "unat (validbit n') = v + k"
        using b' by (simp_all add: n'_def)
      show thesis
      proof (cases "v + k = 64")
        case True
        have u: "k dvd v" using ok v k by simp
        then have "k dvd 64" using True by (metis dvd_add dvd_refl)
        then have "same_bits k n n'" using f tk True by (auto simp: same_bits_def unserv_def)
        then show thesis using True p(3) tr f v k by (intro that [of n' None]) auto
      next
        case lt: False
        then have "granted k v n n'" using f tk fr ok v k False by (auto simp: granted_def)
        then show thesis
          using lt False p tr f v k
          by (intro that [of n' "Some (s, e, node_ip n)"]) (auto simp: grant_of_def)
      qed
    qed
  qed
qed

lemma try_node_ex:
  assumes "node_ok 256 (unat r) n" "2 \<le> unat r" "unat r \<le> 63" "k = unat r" "v = unat (validbit n)"
  shows "\<exists>n' g. try_node r n = (n', g) \<and> unat (validbit n') = v + k
    \<and> (g = None \<longrightarrow> same_bits k n n' \<and> (v + k < 64 \<longrightarrow> \<not> free_range n v k))
    \<and> (g \<noteq> None \<longrightarrow> g = Some (grant_of k v (node_ip n)) \<and> granted k v n n')"
  by (rule try_node_ok [OF assms]) blast

lemma not_unserv:
  assumes "k dvd v" "v + k < 64" "v \<le> b" "b < v + k" shows "\<not> unserv k b"
proof
  assume "unserv k b"
  then have "64 < v + k + k" "k dvd 64" using assms(4) by (auto simp: unserv_def)
  moreover have "k dvd 64 - (v + k)" using assms(1) \<open>k dvd 64\<close> by (metis dvd_add dvd_diff_nat dvd_refl)
  ultimately show False
    using assms(2) by (metis dvd_imp_le less_diff_conv2 add.commute less_or_eq_imp_le not_less zero_less_diff)
qed

lemma same_bits_free: "same_bits r n n' \<Longrightarrow> v + r < 64 \<Longrightarrow> r dvd v \<Longrightarrow> free_range n' v r = free_range n v r"
  using not_unserv [of r v] by (auto simp: same_bits_def free_range_def)

section \<open>The loop\<close>

definition pool_rel ::
    "nat \<Rightarrow> ADDRPOOLNODE list \<Rightarrow> ADDRPOOLNODE list \<Rightarrow> (u16 \<times> u16 \<times> u32) option \<Rightarrow> bool" where
  "pool_rel k ns ns' g \<longleftrightarrow> length ns' = length ns \<and>
     (case g of
        None \<Rightarrow> \<forall>j<length ns. same_bits k (ns ! j) (ns' ! j)
      | Some x \<Rightarrow> \<exists>j v. j < length ns \<and> x = grant_of k v (node_ip (ns ! j)) \<and> granted k v (ns ! j) (ns' ! j)
          \<and> (\<forall>i<length ns. i \<noteq> j \<longrightarrow> same_bits k (ns ! i) (ns' ! i)))"

text \<open>No range that starts in \<open>[lo, hi)\<close> could be granted.\<close>

definition all_taken :: "nat \<Rightarrow> ADDRPOOLNODE \<Rightarrow> nat \<Rightarrow> nat \<Rightarrow> bool" where
  "all_taken k n lo hi \<longleftrightarrow> (\<forall>v. lo \<le> v \<and> v < hi \<and> k dvd v \<and> v + k < 64 \<longrightarrow> \<not> free_range n v k)"

lemma same_bits_refl [simp]: "same_bits k n n"
  by (simp add: same_bits_def)

lemma same_bits_trans: "same_bits k a b \<Longrightarrow> same_bits k b c \<Longrightarrow> same_bits k a c"
  by (simp add: same_bits_def)

lemma same_bits_validbit [simp]: "same_bits k n (n\<lparr>validbit := v\<rparr>)"
  by (simp add: same_bits_def)

lemma granted_trans:
  assumes "same_bits k a b" "granted k v b c" shows "granted k v a c"
proof -
  have "free_range a v k"
    using assms same_bits_free [OF assms(1), of v] by (simp add: granted_def)
  then show ?thesis using assms by (auto simp: granted_def same_bits_def)
qed

lemma pool_rel_trans:
  assumes "pool_rel k ns1 ns2 g" "length ns1 = length ns" "\<And>j. j < length ns \<Longrightarrow> same_bits k (ns ! j) (ns1 ! j)"
  shows "pool_rel k ns ns2 g"
proof (cases g)
  case None
  then show ?thesis
    using assms by (auto simp: pool_rel_def intro: same_bits_trans)
next
  case (Some x)
  then obtain j v where j: "j < length ns" "x = grant_of k v (node_ip (ns1 ! j))" "granted k v (ns1 ! j) (ns2 ! j)"
    "\<And>i. i < length ns \<Longrightarrow> i \<noteq> j \<Longrightarrow> same_bits k (ns1 ! i) (ns2 ! i)" "length ns2 = length ns"
    using assms(1,2) by (auto simp: pool_rel_def)
  have "node_ip (ns1 ! j) = node_ip (ns ! j)" using assms(3) [OF j(1)] by (simp add: same_bits_def)
  then show ?thesis
    using j granted_trans [OF assms(3) [OF j(1)] j(3)] same_bits_trans [OF assms(3)] Some
    unfolding pool_rel_def by simp blast
qed

lemma pool_rel_grant:
  assumes "c < length ns" "granted k v (ns ! c) n" "x = grant_of k v (node_ip (ns ! c))"
  shows "pool_rel k ns (ns[c := n]) (Some x)"
  unfolding pool_rel_def option.case
  by (rule conjI, simp, rule exI [of _ c], rule exI [of _ v]) (use assms in auto)

lemma all_taken_same: "same_bits k n n' \<Longrightarrow> all_taken k n' lo hi \<longleftrightarrow> all_taken k n lo hi"
  using same_bits_free by (auto simp: all_taken_def)

lemma all_taken_extend:
  assumes "all_taken k n (v + k) hi" "v + k < 64 \<longrightarrow> \<not> free_range n v k" "k dvd v"
  shows "all_taken k n v hi"
  unfolding all_taken_def
proof (intro allI impI)
  fix w assume w: "v \<le> w \<and> w < hi \<and> k dvd w \<and> w + k < 64"
  have "w = v \<or> v + k \<le> w"
  proof -
    have "k dvd w - v" using w assms(3) by (simp add: dvd_diff_nat)
    then show ?thesis using w by (cases "w = v") (auto dest: dvd_imp_le)
  qed
  then show "\<not> free_range n w k" using w assms(1,2) by (auto simp: all_taken_def)
qed

lemma node_ok_mono: "node_ok m k n \<Longrightarrow> m \<le> m' \<Longrightarrow> node_ok m' k n"
  by (simp add: node_ok_def)

lemma node_ok_reset [simp]: "0 < m \<Longrightarrow> node_ok m k (n\<lparr>validbit := 0\<rparr>) \<longleftrightarrow> length (bitmap n) = 8"
  by (simp add: node_ok_def)

lemma ring_pos:
  assumes "b < N" "i < N" "j < N" shows "(b + i) mod N = (b + j) mod N \<longleftrightarrow> i = (j :: nat)"
  using assms by (auto simp: mod_if split: if_splits)

lemma ring_pos0:
  assumes "b < N" "i \<le> N" shows "(b + i) mod N = b \<longleftrightarrow> i = 0 \<or> i = (N :: nat)"
  using assms by (auto simp: mod_if split: if_splits)

text \<open>
  \<open>scan\<close>: what the loop assumes with the node \<open>i\<close> steps after \<open>pBegin\<close> current; \<open>i = N\<close> is
  \<open>pBegin\<close> again, at the end.
\<close>

definition scan :: "nat \<Rightarrow> nat \<Rightarrow> nat \<Rightarrow> nat \<Rightarrow> ADDRPOOLNODE list \<Rightarrow> bool" where
  "scan k b p i ns \<longleftrightarrow>
     (let N = length ns; c = (b + i) mod N; vb = unat (validbit (ns ! b))
      in b < N \<and> i \<le> N \<and> node_ok (64 + 2 * k) k (ns ! c) \<and> (\<forall>j<N. j \<noteq> c \<longrightarrow> node_ok (64 + k) k (ns ! j))
         \<and> (if i = 0 then p < vb else if i < N then vb = 0 else vb \<le> p))"

definition scanned ::
    "nat \<Rightarrow> nat \<Rightarrow> nat \<Rightarrow> nat \<Rightarrow> ADDRPOOLNODE list \<Rightarrow> ADDRPOOLNODE list \<Rightarrow> (u16 \<times> u16 \<times> u32) option \<Rightarrow> bool" where
  "scanned k b p i ns ns' g \<longleftrightarrow>
     (let N = length ns; at = (\<lambda>ns j. ns ! ((b + j) mod N))
      in pool_rel k ns ns' g \<and> (\<forall>j<N. node_ok (64 + k) k (ns' ! j))
         \<and> (\<forall>j. 0 < j \<and> j < i \<longrightarrow> at ns' j = at ns j)
         \<and> (g = None \<longrightarrow> unat (validbit (ns' ! b)) = p
              \<and> (\<forall>j. 0 < j \<and> i \<le> j \<and> j < N \<longrightarrow> validbit (at ns' j) = 0)
              \<and> (\<forall>j. i \<le> j \<and> j < N \<longrightarrow> all_taken k (at ns j) (unat (validbit (at ns j))) 64)
              \<and> all_taken k (ns ! b) (if i = N then unat (validbit (ns ! b)) else 0) p))"

lemma scan_reset:
  assumes "scan k b p i ns" "64 \<le> unat (validbit (ns ! c))" "c = (b + i) mod length ns"
    "\<not> (c = b \<and> p = unat (validbit (ns ! c)))" "k dvd p" "p < 64 + k" "0 < k"
    "ns1 = ns[c := (ns ! c)\<lparr>validbit := 0\<rparr>]"
  shows "i < length ns" "scan k b p (i + 1) ns1" "ring_next c ns = (b + (i + 1)) mod length ns1"
proof -
  let ?N = "length ns"
  have N: "b < ?N" "i \<le> ?N" "c < ?N" using assms(1,3) by (auto simp: scan_def Let_def intro!: mod_less_divisor)
  have cb: "c = b \<longleftrightarrow> i = 0 \<or> i = ?N" using ring_pos0 [OF N(1,2)] assms(3) by simp
  have okc: "length (bitmap (ns ! c)) = 8" "k dvd unat (validbit (ns ! c))"
    using assms(1,3) by (auto simp: scan_def Let_def node_ok_def)
  show i: "i < ?N"
  proof (rule ccontr)
    assume "\<not> i < ?N"
    then have iN: "i = ?N" "c = b" using N cb by auto
    then have "unat (validbit (ns ! c)) < p" using assms(1,4) N(1) by (auto simp: scan_def Let_def split: if_splits)
    then have "unat (validbit (ns ! c)) + k \<le> p"
      using okc(2) assms(5) by (metis dvd_diff_nat dvd_imp_le less_diff_conv2 nat_less_le
          add.commute le_diff_conv2 less_imp_le_nat zero_less_diff)
    then show False using assms(2,6) by simp
  qed
  show nx: "ring_next c ns = (b + (i + 1)) mod length ns1"
    using assms(3,8) by (simp add: ring_next_def mod_Suc_eq)
  let ?c = "(b + (i + 1)) mod ?N"
  have c1: "?c < ?N" using N(1) by (intro mod_less_divisor) auto
  have l: "length ns1 = ?N" using assms(8) by simp
  have o: "node_ok (64 + k) k (ns1 ! j)" if "j < ?N" for j
    using that assms(1,3,7,8) okc N by (cases "j = c") (auto simp: scan_def Let_def)
  have vb: "unat (validbit (ns1 ! b)) = 0"
    using assms(1,8) cb i N by (cases "i = 0") (auto simp: scan_def Let_def)
  show "scan k b p (i + 1) ns1"
    unfolding scan_def Let_def l
    using N i o [OF c1] o vb by (auto intro: node_ok_mono)
qed

lemma scanned_reset:
  assumes "scanned k b p (i + 1) ns1 ns' g" "scan k b p i ns" "i < length ns" "64 \<le> unat (validbit (ns ! c))"
    "c = (b + i) mod length ns" "ns1 = ns[c := (ns ! c)\<lparr>validbit := 0\<rparr>]" "0 < k"
  shows "scanned k b p i ns ns' g"
proof -
  let ?N = "length ns"
  let ?at = "\<lambda>ns j. ns ! ((b + j) mod ?N)"
  have N: "b < ?N" "c < ?N" using assms(2,5) by (auto simp: scan_def Let_def intro!: mod_less_divisor)
  have l: "length ns1 = ?N" using assms(6) by simp
  have s: "same_bits k (ns ! j) (ns1 ! j)" if "j < ?N" for j
    using that assms(6) by (cases "j = c") auto
  have o: "?at ns1 j = ?at ns j" if "j \<noteq> i" "j < ?N" for j
    using that ring_pos [OF N(1) assms(3) that(2)] assms(5,6) by simp
  have c: "validbit (?at ns1 i) = 0" using assms(5,6) N by simp
  have vb: "unat (validbit (ns1 ! b)) = 0"
    using assms(2,3,5,6) N by (cases "i = 0") (auto simp: scan_def Let_def nth_list_update)
  note I = assms(1) [unfolded scanned_def Let_def l]
  have top: "all_taken k (?at ns i) (unat (validbit (?at ns i))) 64"
    using assms(4,5) by (auto simp: all_taken_def)
  have fr: "?at ns' j = ?at ns j" if "0 < j" "j < i" for j
    using I that o [of j] assms(3) by auto
  have z: "validbit (?at ns' j) = 0" if "g = None" "0 < j" "i \<le> j" "j < ?N" for j
    using I that c by (cases "j = i") auto
  have at: "all_taken k (?at ns j) (unat (validbit (?at ns j))) 64" if "g = None" "i \<le> j" "j < ?N" for j
  proof (cases "j = i")
    case False
    then have "all_taken k (?at ns1 j) (unat (validbit (?at ns1 j))) 64" using I that by simp
    then show ?thesis using False o [of j] that by simp
  qed (use top in simp)
  have ab: "all_taken k (ns ! b) 0 p" if "g = None"
    using I that vb all_taken_same [OF s [OF N(1)]] by (auto split: if_splits)
  show ?thesis
    unfolding scanned_def Let_def
    using I pool_rel_trans [OF _ l s] fr z at ab assms(3) by (auto split: if_splits)
qed

lemma scan_skip:
  assumes "scan k b p i ns" "unat (validbit (ns ! c)) < 64" "c = (b + i) mod length ns"
    "\<not> (c = b \<and> p = unat (validbit (ns ! c)))" "k dvd p" "0 < k"
    "same_bits k (ns ! c) n" "unat (validbit n) = unat (validbit (ns ! c)) + k" "ns1 = ns[c := n]"
  shows "scan k b p i ns1"
proof -
  let ?N = "length ns"
  have N: "b < ?N" "i \<le> ?N" "c < ?N" using assms(1,3) by (auto simp: scan_def Let_def intro!: mod_less_divisor)
  have cb: "c = b \<longleftrightarrow> i = 0 \<or> i = ?N" using ring_pos0 [OF N(1,2)] assms(3) by simp
  have okc: "length (bitmap (ns ! c)) = 8" "k dvd unat (validbit (ns ! c))"
    using assms(1,3) by (auto simp: scan_def Let_def node_ok_def)
  have "node_ok (64 + k) k n"
    using okc assms(2,7,8) by (simp add: node_ok_def same_bits_def)
  then have o: "node_ok (64 + 2 * k) k (ns1 ! c)" using assms(9) N(3) by (auto intro: node_ok_mono)
  have le: "unat (validbit (ns ! c)) + k \<le> p" if "unat (validbit (ns ! c)) < p"
    using that okc(2) assms(5) by (metis dvd_diff_nat dvd_imp_le nat_less_le add.commute le_diff_conv2
        less_imp_le_nat zero_less_diff)
  have l: "length ns1 = ?N" using assms(9) by simp
  show ?thesis
    unfolding scan_def Let_def l
    using assms(1,3,4,8,9) N o cb le by (auto simp: scan_def Let_def)
qed

lemma scanned_skip:
  assumes "scanned k b p i ns1 ns' g" "scan k b p i ns" "c = (b + i) mod length ns"
    "same_bits k (ns ! c) n" "unat (validbit n) = unat (validbit (ns ! c)) + k" "ns1 = ns[c := n]"
    "unat (validbit (ns ! c)) + k < 64 \<longrightarrow> \<not> free_range (ns ! c) (unat (validbit (ns ! c))) k"
  shows "scanned k b p i ns ns' g"
proof -
  let ?N = "length ns"
  let ?at = "\<lambda>ns j. ns ! ((b + j) mod ?N)"
  have N: "b < ?N" "i \<le> ?N" "c < ?N" using assms(2,3) by (auto simp: scan_def Let_def intro!: mod_less_divisor)
  have cb: "c = b \<longleftrightarrow> i = 0 \<or> i = ?N" using ring_pos0 [OF N(1,2)] assms(3) by simp
  have l: "length ns1 = ?N" using assms(6) by simp
  have s: "same_bits k (ns ! j) (ns1 ! j)" if "j < ?N" for j
    using that assms(4,6) by (cases "j = c") auto
  have o: "?at ns1 j = ?at ns j" if "j \<noteq> i" "j < ?N" "0 < j" for j
  proof -
    have "(b + j) mod ?N \<noteq> c"
      using that assms(3) N ring_pos [OF N(1) _ that(2), of i] ring_pos0 [OF N(1), of j]
      by (cases "i = ?N") auto
    then show ?thesis using assms(6) by simp
  qed
  have dv: "k dvd unat (validbit (ns ! c))" using assms(2,3) by (auto simp: scan_def Let_def node_ok_def)
  have ext: "all_taken k (ns ! c) (unat (validbit (ns ! c))) hi"
    if "all_taken k (ns1 ! c) (unat (validbit (ns1 ! c))) hi" for hi
    by (rule all_taken_extend [OF _ assms(7) dv])
      (use that all_taken_same [OF s [OF N(3)]] assms(5,6) N in simp)
  note I = assms(1) [unfolded scanned_def Let_def l]
  have fr: "?at ns' j = ?at ns j" if "0 < j" "j < i" for j
    using I that o [of j] N by auto
  have at: "all_taken k (?at ns j) (unat (validbit (?at ns j))) 64" if g: "g = None" "i \<le> j" "j < ?N" for j
  proof (cases "j = i")
    case True
    then show ?thesis using I g ext assms(3) by simp
  next
    case False
    then have "all_taken k (?at ns1 j) (unat (validbit (?at ns1 j))) 64" using I g by simp
    then show ?thesis using False o [of j] g by simp
  qed
  have ab: "all_taken k (ns ! b) (if i = ?N then unat (validbit (ns ! b)) else 0) p" if g: "g = None"
    using I g ext [of p] cb all_taken_same [OF s [OF N(1)]] by (auto split: if_splits)
  show ?thesis
    unfolding scanned_def Let_def
    using I pool_rel_trans [OF _ l s] fr at ab by auto
qed

lemma alloc_loop_ok:
  assumes "2 \<le> unat r" "unat r \<le> 63" "k = unat r" "k dvd p" "p < 64 + k" "p = unat pBit"
    "scan k b p i ns" "c = (b + i) mod length ns"
  shows "\<exists>ns' g. alloc_loop b pBit r c ns = Some (ns', g) \<and> scanned k b p i ns ns' g"
  using assms(7,8)
proof (induction "(length ns - i) * 256 + (255 - unat (validbit (ns ! c)))" arbitrary: i ns c rule: less_induct)
  case less
  let ?N = "length ns" and ?v = "unat (validbit (ns ! c))"
  note sc = less.prems(1)
  have N: "b < ?N" "i \<le> ?N" "c < ?N" using sc less.prems(2) by (auto simp: scan_def Let_def intro!: mod_less_divisor)
  have k0: "0 < k" using assms(1,3) by simp
  have okc: "node_ok (64 + 2 * k) k (ns ! c)" using sc less.prems(2) by (simp add: scan_def Let_def)
  have v: "?v < 64 + 2 * k" "k dvd ?v" using okc by (simp_all add: node_ok_def)
  have sv: "64 \<le> sint (validbit (ns ! c)) \<longleftrightarrow> 64 \<le> ?v"
    using v(1) assms(2,3) by (subst sint_small) (simp, linarith)
  have cb: "c = b \<longleftrightarrow> i = 0 \<or> i = ?N" using ring_pos0 [OF N(1,2)] less.prems(2) by simp
  have pv: "pBit = validbit (ns ! c) \<longleftrightarrow> p = ?v" using assms(6) by (simp add: word_eq_iff_unsigned)
  show ?case
  proof (cases "c = b \<and> p = ?v")
    case True
    then have iN: "i = ?N" using sc cb N by (auto simp: scan_def Let_def)
    have "node_ok (64 + k) k (ns ! j)" if "j < ?N" for j
      using that sc less.prems(2) True assms(4,5) okc by (cases "j = c") (auto simp: scan_def Let_def node_ok_def)
    then have "scanned k b p i ns ns None"
      using True iN by (auto simp: scanned_def Let_def pool_rel_def all_taken_def)
    then show ?thesis using True pv by (subst alloc_loop.simps) auto
  next
    case go: False
    show ?thesis
    proof (cases "64 \<le> ?v")
      case True
      define ns1 where "ns1 = ns[c := (ns ! c)\<lparr>validbit := 0\<rparr>]"
      note R = scan_reset [OF sc True less.prems(2) go assms(4,5) k0 ns1_def]
      have "(length ns1 - (i + 1)) * 256 + (255 - unat (validbit (ns1 ! ring_next c ns)))
          < (?N - i) * 256 + (255 - ?v)"
        using R(1) by (simp add: ns1_def)
      from less.hyps [OF this R(2,3)] obtain ns' g where
        r: "alloc_loop b pBit r (ring_next c ns) ns1 = Some (ns', g)" "scanned k b p (i + 1) ns1 ns' g" by blast
      have "alloc_loop b pBit r c ns = Some (ns', g)"
        using go pv sv True r(1) by (subst alloc_loop.simps) (auto simp: ns1_def)
      then show ?thesis
        using scanned_reset [OF r(2) sc R(1) True less.prems(2) ns1_def k0] by blast
    next
      case lt: False
      have nok: "node_ok 256 (unat r) (ns ! c)" using okc assms(2,3) by (auto intro: node_ok_mono)
      obtain n g where n: "try_node r (ns ! c) = (n, g)" "unat (validbit n) = ?v + k"
        "g = None \<Longrightarrow> same_bits k (ns ! c) n \<and> (?v + k < 64 \<longrightarrow> \<not> free_range (ns ! c) ?v k)"
        "g \<noteq> None \<Longrightarrow> g = Some (grant_of k ?v (node_ip (ns ! c))) \<and> granted k ?v (ns ! c) n"
        using try_node_ex [OF nok assms(1,2,3) refl] by blast
      show ?thesis
      proof (cases g)
        case None
        define ns1 where "ns1 = ns[c := n]"
        have v64: "?v < 64" using lt by simp
        note sb = conjunct1 [OF n(3) [OF None]] conjunct2 [OF n(3) [OF None]]
        note S = scan_skip [OF sc v64 less.prems(2) go assms(4) k0 sb(1) n(2) ns1_def]
        have c1: "c = (b + i) mod length ns1" using less.prems(2) by (simp add: ns1_def)
        have "(length ns1 - i) * 256 + (255 - unat (validbit (ns1 ! c))) < (?N - i) * 256 + (255 - ?v)"
          using N(3) n(2) lt k0 by (simp add: ns1_def)
        from less.hyps [OF this S c1] obtain ns' g' where
          r: "alloc_loop b pBit r c ns1 = Some (ns', g')" "scanned k b p i ns1 ns' g'" by blast
        have "alloc_loop b pBit r c ns = Some (ns', g')"
          using go pv sv lt n(1) None r(1) by (subst alloc_loop.simps) (auto simp: ns1_def)
        then show ?thesis
          using scanned_skip [OF r(2) sc less.prems(2) sb(1) n(2) ns1_def sb(2)] by blast
      next
        case (Some x)
        note G = n(4) [unfolded Some, simplified]
        have "alloc_loop b pBit r c ns = Some (ns[c := n], Some x)"
          using go pv sv lt n(1) Some by (subst alloc_loop.simps) auto
        moreover have "scanned k b p i ns (ns[c := n]) (Some x)"
        proof -
          have n_ok: "node_ok (64 + k) k n"
            using G okc n(2) lt v(2) by (simp add: node_ok_def granted_def)
          have ok: "node_ok (64 + k) k (ns[c := n] ! j)" if "j < ?N" for j
            using that n_ok sc less.prems(2) by (cases "j = c") (auto simp: scan_def Let_def)
          have fr: "ns[c := n] ! ((b + j) mod ?N) = ns ! ((b + j) mod ?N)" if "0 < j" "j < i" for j
          proof -
            have "(b + j) mod ?N \<noteq> c"
              using that less.prems(2) N ring_pos [OF N(1), of i j] ring_pos0 [OF N(1), of j]
              by (cases "i = ?N") auto
            then show ?thesis by simp
          qed
          have "pool_rel k ns (ns[c := n]) (Some x)"
            using G by (intro pool_rel_grant [OF N(3)]) auto
          then show ?thesis using ok fr by (simp add: scanned_def Let_def)
        qed
        ultimately show ?thesis by blast
      qed
    qed
  qed
qed

section \<open>Allocation\<close>

text \<open>
  The pool with ranges of \<open>r\<close> blocks.  Ranges of one block are left out: their last one is
  granted as the ports 0 to 1023, which cannot be given back (\<open>last_block_lost\<close>).
\<close>

definition pool_inv :: "u32 \<Rightarrow> ADDRPOOLLIST \<Rightarrow> bool" where
  "pool_inv r pl \<longleftrightarrow> 2 \<le> unat r \<and> unat r \<le> 63 \<and> curnode pl < length (ring pl)
     \<and> distinct (map node_ip (ring pl)) \<and> (\<forall>n\<in>set (ring pl). node_ok (64 + unat r) (unat r) n)"

text \<open>What a refusal says: \<open>curnode\<close> has no free range, the others none from their \<open>validbit\<close> on.\<close>

definition refused :: "nat \<Rightarrow> ADDRPOOLLIST \<Rightarrow> ADDRPOOLLIST \<Rightarrow> bool" where
  "refused k pl pl' \<longleftrightarrow> all_taken k (ring pl ! curnode pl) 0 64
     \<and> (\<forall>j<length (ring pl). j \<noteq> curnode pl \<longrightarrow> validbit (ring pl' ! j) = 0
          \<and> all_taken k (ring pl ! j) (unat (validbit (ring pl ! j))) 64)"

lemma pool_rel_ip: "pool_rel k ns ns' g \<Longrightarrow> map node_ip ns' = map node_ip ns"
proof (rule nth_equalityI)
  fix j assume a: "pool_rel k ns ns' g" "j < length (map node_ip ns')"
  then show "map node_ip ns' ! j = map node_ip ns ! j"
    by (cases g) (auto simp: pool_rel_def same_bits_def granted_def)
qed (simp add: pool_rel_def)

lemma all_taken_join: "all_taken k n a b \<Longrightarrow> all_taken k n b c \<Longrightarrow> all_taken k n a c"
  unfolding all_taken_def by (meson not_less)

lemma all_taken_mono: "all_taken k n a b \<Longrightarrow> a \<le> a' \<Longrightarrow> b' \<le> b \<Longrightarrow> all_taken k n a' b'"
  unfolding all_taken_def by (meson less_le_trans order_trans)

text \<open>The part before the loop, as far as the current node it leaves.\<close>

lemma alloc_start:
  assumes "pool_inv r pl" "k = unat r" "ns = ring pl" "b = curnode pl" "p = unat (validbit (ns ! b))"
    "i = (if 64 \<le> p then 1 else 0)" "c = (b + i) mod length ns"
    "ns0 = (if 64 \<le> p then ns[b := (ns ! b)\<lparr>validbit := 0\<rparr>] else ns)"
  shows "AllocAddrPort pl r = map_option (\<lambda>(ns, g). (pl\<lparr>ring := ns\<rparr>, g))
      (case try_node r (ns0 ! c) of
         (n, Some x) \<Rightarrow> Some (ns0[c := n], Some x)
       | (n, None) \<Rightarrow> alloc_loop b (validbit (ns ! b)) r c (ns0[c := n]))"
    "b < length ns" "c < length ns" "length ns0 = length ns" "k dvd p" "p < 64 + k" "i \<le> length ns"
    "\<And>j. j < length ns \<Longrightarrow> node_ok (64 + k) k (ns0 ! j)" "\<And>j. j < length ns \<Longrightarrow> same_bits k (ns ! j) (ns0 ! j)"
proof -
  note I = assms(1) [unfolded pool_inv_def]
  show b: "b < length ns" using I assms by simp
  then show c: "c < length ns" using assms(7) by (auto intro!: mod_less_divisor)
  show "length ns0 = length ns" using assms(8) by simp
  have ok: "node_ok (64 + k) k (ns ! j)" if "j < length ns" for j using I that assms(2,3) by simp
  show p: "k dvd p" "p < 64 + k" using ok [OF b] assms(5) by (simp_all add: node_ok_def)
  show "i \<le> length ns" using b assms(6) by simp
  show "node_ok (64 + k) k (ns0 ! j)" if "j < length ns" for j
    using ok [OF that] that assms(8) by (cases "j = b") (auto simp: node_ok_def)
  show "same_bits k (ns ! j) (ns0 ! j)" if "j < length ns" for j
    using that assms(8) by (cases "j = b") auto
  have "p < 2 ^ 31" using p(2) I assms(2) by simp
  then have s: "64 \<le> sint (validbit (ns ! b)) \<longleftrightarrow> 64 \<le> p"
    unfolding assms(5) by (subst sint_small) (assumption, linarith)
  have sp: "(if 64 \<le> sint (validbit (ns ! b)) then (ring_next b ns, ns[b := (ns ! b)\<lparr>validbit := 0\<rparr>]) else (b, ns)) = (c, ns0)"
    using s assms(6,7,8) b by (auto simp: ring_next_def)
  have "ring pl \<noteq> []" using b assms(3) by auto
  then show "AllocAddrPort pl r = map_option (\<lambda>(ns, g). (pl\<lparr>ring := ns\<rparr>, g))
      (case try_node r (ns0 ! c) of
         (n, Some x) \<Rightarrow> Some (ns0[c := n], Some x)
       | (n, None) \<Rightarrow> alloc_loop b (validbit (ns ! b)) r c (ns0[c := n]))"
    unfolding AllocAddrPort_def Let_def assms(3) [symmetric] assms(4) [symmetric] sp
    by (simp split: prod.split option.split)
qed

lemma AllocAddrPort_ok:
  assumes "pool_inv r pl" "k = unat r"
  shows "\<exists>pl' g. AllocAddrPort pl r = Some (pl', g) \<and> pool_inv r pl' \<and> curnode pl' = curnode pl
    \<and> pool_rel k (ring pl) (ring pl') g \<and> (g = None \<longrightarrow> refused k pl pl')"
proof -
  define ns b p i c ns0 where "ns = ring pl" and "b = curnode pl" and "p = unat (validbit (ns ! b))"
    and "i = (if 64 \<le> p then 1 else 0 :: nat)" and "c = (b + i) mod length ns"
    and "ns0 = (if 64 \<le> p then ns[b := (ns ! b)\<lparr>validbit := 0\<rparr>] else ns)"
  note S = alloc_start [OF assms ns_def b_def p_def i_def c_def ns0_def]
  have r: "2 \<le> unat r" "unat r \<le> 63" "0 < k" using assms by (auto simp: pool_inv_def)
  let ?N = "length ns"
  define v where "v = unat (validbit (ns0 ! c))"
  have nok: "node_ok 256 (unat r) (ns0 ! c)"
    using S(8) [OF S(3)] r assms(2) by (auto intro: node_ok_mono)
  have v: "v < 64 + k" "k dvd v" using S(8) [OF S(3)] by (simp_all add: node_ok_def v_def)
  obtain n g where n: "try_node r (ns0 ! c) = (n, g)" "unat (validbit n) = v + k"
    "g = None \<Longrightarrow> same_bits k (ns0 ! c) n \<and> (v + k < 64 \<longrightarrow> \<not> free_range (ns0 ! c) v k)"
    "g \<noteq> None \<Longrightarrow> g = Some (grant_of k v (node_ip (ns0 ! c))) \<and> granted k v (ns0 ! c) n"
    using try_node_ex [OF nok r(1,2) assms(2) v_def] by blast
  have inv: "pool_inv r (pl\<lparr>ring := ns'\<rparr>)" if "pool_rel k ns ns' g'" "\<forall>j<?N. node_ok (64 + k) k (ns' ! j)" for ns' g'
  proof -
    have "length ns' = ?N" using that(1) by (simp add: pool_rel_def)
    then show ?thesis
      using that(2) assms pool_rel_ip [OF that(1)] by (auto simp: pool_inv_def ns_def in_set_conv_nth)
  qed
  show ?thesis
  proof (cases g)
    case (Some x)
    note G = n(4) [unfolded Some, simplified]
    have ok: "\<forall>j<?N. node_ok (64 + k) k (ns0[c := n] ! j)"
      using S(3,4,8) G n(2) v by (auto simp: nth_list_update node_ok_def granted_def)
    have "pool_rel k ns0 (ns0[c := n]) (Some x)"
      using G S(3,4) by (intro pool_rel_grant) auto
    then have "pool_rel k ns (ns0[c := n]) (Some x)" by (rule pool_rel_trans [OF _ S(4,9)])
    then show ?thesis using S(1) n(1) Some inv [OF _ ok] by (auto simp: ns_def)
  next
    case None
    note sb = conjunct1 [OF n(3) [OF None]] conjunct2 [OF n(3) [OF None]]
    define ns1 where "ns1 = ns0[c := n]"
    have l: "length ns1 = ?N" using S(4) by (simp add: ns1_def)
    have s1: "same_bits k (ns ! j) (ns1 ! j)" if "j < ?N" for j
      using that S(4) S(9) [OF that] sb(1) by (cases "j = c") (auto simp: ns1_def intro: same_bits_trans)
    have okn: "node_ok (64 + 2 * k) k n"
      using sb(1) nok v n(2) by (simp add: node_ok_def same_bits_def)
    have cb: "c = b \<longleftrightarrow> i = 0 \<or> i = ?N" using ring_pos0 [OF S(2,7)] by (simp add: c_def)
    have vbk: "unat (validbit (ns1 ! b)) = (if c = b then v + k else if 64 \<le> p then 0 else p)"
      using S(2,3) n(2) by (auto simp: ns1_def ns0_def p_def)
    have vb: "if i = 0 then p < unat (validbit (ns1 ! b)) else if i < ?N then unat (validbit (ns1 ! b)) = 0
        else unat (validbit (ns1 ! b)) \<le> p"
    proof (cases "64 \<le> p")
      case False
      then have "v = p" using cb by (simp add: v_def ns0_def p_def i_def)
      then show ?thesis using False cb vbk r(3) by (simp add: i_def)
    next
      case True
      then have "c = b \<Longrightarrow> v = 0" using S(2) by (simp add: v_def ns0_def)
      then show ?thesis using True cb vbk r assms(2) by (auto simp: i_def)
    qed
    have "scan k b p i ns1"
      unfolding scan_def Let_def l
      using S(2,3,4,7,8) okn vb by (auto simp: ns1_def c_def [symmetric])
    from alloc_loop_ok [OF r(1,2) assms(2) S(5,6) p_def this, of c]
    obtain ns' g' where A: "alloc_loop b (validbit (ns ! b)) r c ns1 = Some (ns', g')" "scanned k b p i ns1 ns' g'"
      using c_def l by auto
    note R = A(2) [unfolded scanned_def Let_def l]
    have rel: "pool_rel k ns ns' g'" using R by (intro pool_rel_trans [OF _ l s1]) auto
    have ok: "\<forall>j<?N. node_ok (64 + k) k (ns' ! j)" using R by blast
    have ext: "all_taken k (ns ! c) v hi" if "all_taken k (ns1 ! c) (unat (validbit (ns1 ! c))) hi" for hi
    proof -
      have "all_taken k (ns0 ! c) (v + k) hi"
        using that sb(1) n(2) S(3,4) all_taken_same by (simp add: ns1_def)
      then have "all_taken k (ns0 ! c) v hi" by (rule all_taken_extend [OF _ sb(2) v(2)])
      then show ?thesis using all_taken_same [OF S(9) [OF S(3)]] by simp
    qed
    have "refused k pl (pl\<lparr>ring := ns'\<rparr>)" if g: "g' = None"
    proof -
      have a2: "all_taken k (ns1 ! ((b + j) mod ?N)) (unat (validbit (ns1 ! ((b + j) mod ?N)))) 64"
        if "i \<le> j" "j < ?N" for j using R g that by blast
      have a3: "all_taken k (ns1 ! b) (if i = ?N then unat (validbit (ns1 ! b)) else 0) p" using R g by blast
      have hd: "all_taken k (ns ! b) 0 64"
      proof (cases "64 \<le> p")
        case False
        then have c: "i = 0" "c = b" "v = p" using cb by (simp_all add: v_def ns0_def p_def i_def)
        have ne: "ns \<noteq> []" using S(2) by auto
        have "all_taken k (ns ! b) p 64" using ext [of 64] a2 [of 0] c S(2) by fastforce
        moreover have "all_taken k (ns ! b) 0 p"
          using a3 c(1) ne all_taken_same [OF s1 [OF S(2)]] by simp
        ultimately show ?thesis using all_taken_join by blast
      next
        case True
        have "all_taken k (ns ! b) 0 p"
        proof (cases "i = ?N")
          case iN: True
          then have "c = b" "v = 0" using cb True S(2) by (simp_all add: v_def ns0_def)
          then show ?thesis using ext [of p] a3 iN by simp
        next
          case False
          then show ?thesis using a3 all_taken_same [OF s1 [OF S(2)]] by simp
        qed
        then show ?thesis by (rule all_taken_mono) (use True in simp_all)
      qed
      have tl: "validbit (ns' ! j) = 0 \<and> all_taken k (ns ! j) (unat (validbit (ns ! j))) 64"
        if j: "j < ?N" "j \<noteq> b" for j
      proof -
        define d where "d = (if b \<le> j then j - b else j + ?N - b)"
        have d: "0 < d" "i \<le> d" "d < ?N" "(b + d) mod ?N = j"
          using j S(2) by (auto simp: d_def i_def)
        have "all_taken k (ns ! j) (unat (validbit (ns ! j))) 64"
        proof (cases "j = c")
          case True
          then show ?thesis using ext [of 64] a2 [OF d(2,3)] d(4) j by (simp add: v_def ns0_def split: if_splits)
        next
          case False
          then have "ns1 ! j = ns ! j" using j by (simp add: ns1_def ns0_def)
          then show ?thesis using a2 [OF d(2,3)] d(4) by simp
        qed
        moreover have "validbit (ns' ! j) = 0" using R g d by blast
        ultimately show ?thesis by simp
      qed
      show ?thesis using hd tl by (simp add: refused_def ns_def [symmetric] b_def [symmetric])
    qed
    then show ?thesis
      using S(1) n(1) None A(1) inv [OF rel ok] rel by (auto simp: ns_def ns1_def)
  qed
qed

section \<open>The contract of a range allocator\<close>

text \<open>
  What a client needs of the pool: a grant is of blocks nobody holds, and giving it back frees
  exactly them.  \<open>holding s G\<close>: the clients hold the grants \<open>G\<close> of the pool \<open>s\<close>.
\<close>

locale range_allocator =
  fixes okay :: "'s \<Rightarrow> bool"
    and alloc :: "'s \<Rightarrow> ('s \<times> 'g option) option"
    and release :: "'s \<Rightarrow> 'g \<Rightarrow> 's option"
    and used :: "'s \<Rightarrow> 'b set"
    and blocks :: "'g \<Rightarrow> 'b set"
    and valid :: "'g \<Rightarrow> bool"
  assumes alloc_ends: "okay s \<Longrightarrow> \<exists>s' g. alloc s = Some (s', g)"
    and alloc_none: "okay s \<Longrightarrow> alloc s = Some (s', None) \<Longrightarrow> okay s' \<and> used s' = used s"
    and alloc_some: "okay s \<Longrightarrow> alloc s = Some (s', Some g) \<Longrightarrow>
          okay s' \<and> valid g \<and> blocks g \<inter> used s = {} \<and> used s' = used s \<union> blocks g"
    and release_ok: "okay s \<Longrightarrow> valid g \<Longrightarrow> blocks g \<subseteq> used s \<Longrightarrow>
          \<exists>s'. release s g = Some s' \<and> okay s' \<and> used s' = used s - blocks g"
    and blocks_nonempty: "valid g \<Longrightarrow> blocks g \<noteq> {}"

definition holding ::
    "('s \<Rightarrow> bool) \<Rightarrow> ('s \<Rightarrow> 'b set) \<Rightarrow> ('g \<Rightarrow> 'b set) \<Rightarrow> ('g \<Rightarrow> bool) \<Rightarrow> 's \<Rightarrow> 'g set \<Rightarrow> bool" where
  "holding okay used blocks valid s G \<longleftrightarrow> okay s \<and> (\<forall>g\<in>G. valid g \<and> blocks g \<subseteq> used s)
     \<and> (\<forall>g\<in>G. \<forall>h\<in>G. g \<noteq> h \<longrightarrow> blocks g \<inter> blocks h = {})"

context range_allocator
begin

abbreviation "holds \<equiv> holding okay used blocks valid"

lemma alloc_fresh:
  assumes "holds s G" "alloc s = Some (s', Some g)"
  shows "g \<notin> G \<and> holds s' (insert g G)"
proof -
  have "okay s" using assms(1) by (simp add: holding_def)
  note a = alloc_some [OF this assms(2)]
  then obtain x where "x \<in> blocks g" using blocks_nonempty by blast
  then have "g \<notin> G" using a assms(1) unfolding holding_def by blast
  then show ?thesis using a assms(1) unfolding holding_def by blast
qed

lemma alloc_refusal: "holds s G \<Longrightarrow> alloc s = Some (s', None) \<Longrightarrow> holds s' G"
  using alloc_none [of s s'] by (auto simp: holding_def)

lemma release_held:
  assumes "holds s G" "g \<in> G"
  shows "\<exists>s'. release s g = Some s' \<and> holds s' (G - {g})"
proof -
  have "okay s" "valid g" "blocks g \<subseteq> used s" using assms by (auto simp: holding_def)
  from release_ok [OF this] obtain s' where
    "release s g = Some s'" "okay s'" "used s' = used s - blocks g" by blast
  then show ?thesis using assms unfolding holding_def by (intro exI [of _ s']) blast
qed

lemma holds_subset: "holds s G \<Longrightarrow> H \<subseteq> G \<Longrightarrow> holds s H"
  unfolding holding_def by blast

end

section \<open>Blocks of the pool\<close>

definition used_blocks :: "u32 \<Rightarrow> ADDRPOOLLIST \<Rightarrow> (u32 \<times> nat) set" where
  "used_blocks r pl = {(node_ip n, b) | n b. n \<in> set (ring pl) \<and> b < 64 \<and> \<not> unserv (unat r) b \<and> taken (bitmap n) b}"

definition grant_blocks :: "u32 \<Rightarrow> u16 \<times> u16 \<times> u32 \<Rightarrow> (u32 \<times> nat) set" where
  "grant_blocks r = (\<lambda>(s, e, a). {(a, b) | b. unat s div 1024 \<le> b + 1 \<and> b + 1 < unat s div 1024 + unat r})"

definition grant_valid :: "u32 \<Rightarrow> u16 \<times> u16 \<times> u32 \<Rightarrow> bool" where
  "grant_valid r g \<longleftrightarrow> (\<exists>v a. unat r dvd v \<and> 2 \<le> unat r \<and> v + unat r < 64 \<and> g = grant_of (unat r) v a)"

definition give_back :: "u32 \<Rightarrow> ADDRPOOLLIST \<Rightarrow> u16 \<times> u16 \<times> u32 \<Rightarrow> ADDRPOOLLIST option" where
  "give_back r pl = (\<lambda>(s, e, a). DeallocAddrPort pl r s a)"

lemma unat_port_of: "v < 63 \<Longrightarrow> unat (port_of v) = (v + 1) * 1024"
  unfolding port_of_def by (simp only: unsigned_of_nat) (simp add: take_bit_nat_eq_self)

lemma grant_of_blocks:
  "v + unat r < 64 \<Longrightarrow> 2 \<le> unat r \<Longrightarrow> grant_blocks r (grant_of (unat r) v a) = {(a, b) | b. v \<le> b \<and> b < v + unat r}"
  by (auto simp: grant_blocks_def grant_of_def unat_port_of)


lemma used_iff:
  "(a, b) \<in> used_blocks r pl \<longleftrightarrow> (\<exists>j<length (ring pl). a = node_ip (ring pl ! j) \<and> b < 64 \<and> \<not> unserv (unat r) b
     \<and> taken (bitmap (ring pl ! j)) b)"
  by (auto simp: used_blocks_def in_set_conv_nth)

lemma used_same:
  assumes "pool_rel (unat r) (ring pl) (ring pl') None"
  shows "used_blocks r pl' = used_blocks r pl"
proof (intro set_eqI, clarify)
  fix a b
  show "(a, b) \<in> used_blocks r pl' \<longleftrightarrow> (a, b) \<in> used_blocks r pl"
    using assms unfolding used_iff pool_rel_def option.case same_bits_def by (metis (no_types, lifting))
qed

lemma used_granted:
  assumes "pool_inv r pl" "pool_rel (unat r) (ring pl) (ring pl') (Some x)"
  shows "grant_valid r x" "grant_blocks r x \<inter> used_blocks r pl = {}"
    "used_blocks r pl' = used_blocks r pl \<union> grant_blocks r x"
proof -
  let ?k = "unat r" and ?ns = "ring pl" and ?ns' = "ring pl'"
  obtain j v where j: "j < length ?ns" "x = grant_of ?k v (node_ip (?ns ! j))" "granted ?k v (?ns ! j) (?ns' ! j)"
    "\<And>i. i < length ?ns \<Longrightarrow> i \<noteq> j \<Longrightarrow> same_bits ?k (?ns ! i) (?ns' ! i)" "length ?ns' = length ?ns"
    using assms(2) by (auto simp: pool_rel_def)
  note I = assms(1) [unfolded pool_inv_def]
  have g: "?k dvd v" "v + ?k < 64" "free_range (?ns ! j) v ?k" using j(3) by (simp_all add: granted_def)
  have gb: "grant_blocks r x = {(node_ip (?ns ! j), b) | b. v \<le> b \<and> b < v + ?k}"
    using grant_of_blocks g(2) I j(2) by simp
  have eq: "node_ip (?ns ! i) = node_ip (?ns ! j) \<longleftrightarrow> i = j" if "i < length ?ns" for i
    using that j(1) I nth_eq_iff_index_eq [of "map node_ip ?ns" i j] by simp
  show "grant_valid r x" using g I j(2) by (auto simp: grant_valid_def)
  show "grant_blocks r x \<inter> used_blocks r pl = {}"
    using g(3) eq j(1) unfolding gb by (force simp: used_iff free_range_def)
  have tk: "taken (bitmap (?ns' ! i)) b \<longleftrightarrow> taken (bitmap (?ns ! i)) b \<or> i = j \<and> v \<le> b \<and> b < v + ?k"
    if "i < length ?ns" "b < 64" "\<not> unserv ?k b" for i b
    using that j by (cases "i = j") (auto simp: granted_def same_bits_def)
  have ip: "node_ip (?ns' ! i) = node_ip (?ns ! i)" if "i < length ?ns" for i
    using that j by (cases "i = j") (auto simp: granted_def same_bits_def)
  have gu: "\<not> unserv ?k b \<and> b < 64" if "v \<le> b" "b < v + ?k" for b
    using not_unserv [OF g(1,2) that] that g(2) by simp
  show "used_blocks r pl' = used_blocks r pl \<union> grant_blocks r x"
  proof (intro set_eqI, clarify)
    fix a b
    have "(a, b) \<in> used_blocks r pl' \<longleftrightarrow> (\<exists>i<length ?ns. a = node_ip (?ns ! i) \<and> b < 64 \<and> \<not> unserv ?k b
        \<and> (taken (bitmap (?ns ! i)) b \<or> i = j \<and> v \<le> b \<and> b < v + ?k))"
      unfolding used_iff j(5) using tk ip by metis
    also have "\<dots> \<longleftrightarrow> (a, b) \<in> used_blocks r pl \<union> grant_blocks r x"
      unfolding gb Un_iff used_iff using j(1) gu by auto
    finally show "(a, b) \<in> used_blocks r pl' \<longleftrightarrow> (a, b) \<in> used_blocks r pl \<union> grant_blocks r x" .
  qed
qed

section \<open>Giving back\<close>

lemma clear_in_ring_nth:
  "distinct (map node_ip ns) \<Longrightarrow> j < length ns \<Longrightarrow> node_ip (ns ! j) = a \<Longrightarrow>
   clear_in_ring a b e ns = Some (ns[j := (ns ! j)\<lparr>bitmap := portrange_set (bitmap (ns ! j)) b e 0\<rparr>])"
proof (induction ns arbitrary: j)
  case (Cons n ns)
  show ?case
  proof (cases j)
    case (Suc i)
    then have i: "i < length ns" "node_ip (ns ! i) = a" using Cons.prems by simp_all
    then have "a \<in> node_ip ` set ns" using nth_mem by blast
    then have "node_ip n \<noteq> a" using Cons.prems(1) by auto
    then show ?thesis using Cons.IH [OF _ i] Cons.prems(1) Suc by simp
  qed (use Cons.prems in simp)
qed simp

lemma DeallocAddrPort_ok:
  assumes "pool_inv r pl" "unat r dvd v" "v + unat r < 64" "a \<in> node_ip ` set (ring pl)"
  obtains pl' where "DeallocAddrPort pl r (port_of v) a = Some pl'" "pool_inv r pl'" "curnode pl' = curnode pl"
    "used_blocks r pl' = used_blocks r pl - {(a, b) | b. v \<le> b \<and> b < v + unat r}"
    "map node_ip (ring pl') = map node_ip (ring pl)" "map validbit (ring pl') = map validbit (ring pl)"
proof -
  let ?k = "unat r" and ?ns = "ring pl"
  note I = assms(1) [unfolded pool_inv_def]
  obtain j where j: "j < length ?ns" "node_ip (?ns ! j) = a"
    using assms(4) by (auto simp: in_set_conv_nth)
  have d: "distinct (map node_ip ?ns)" using I by simp
  have "v < 63" using assms(3) I by linarith
  from unat_port_of [OF this] have "uint (port_of v) = int ((v + 1) * 1024)"
    by (simp only: uint_nat)
  then have b: "c_div (uint (port_of v) - 1024) 1024 = int v" by (simp add: c_div_def sgn_if)
  let ?e = "sint (word_of_int (int v) + r - 1)"
  have vw: "unat (word_of_int (int v) :: u32) = v"
    using assms(3) by (simp add: unsigned_of_nat take_bit_nat_eq_self)
  have e: "?e = int (v + ?k - 1)"
    using try_bounds(4) [of r "word_of_int (int v)"] I assms(3) unfolding vw by simp
  define n where "n = (?ns ! j)\<lparr>bitmap := portrange_set (bitmap (?ns ! j)) (int v) ?e 0\<rparr>"
  define pl' where "pl' = pl\<lparr>ring := ?ns[j := n]\<rparr>"
  have D: "DeallocAddrPort pl r (port_of v) a = Some pl'"
    using b assms(3) clear_in_ring_nth [OF d j] by (simp add: DeallocAddrPort_def Let_def pl'_def n_def)
  have iff: "int v \<le> int b \<and> int b \<le> int (v + ?k - 1) \<longleftrightarrow> v \<le> b \<and> b < v + ?k" for b
    using I by linarith
  have okj: "node_ok (64 + ?k) ?k (?ns ! j)" using I j(1) by simp
  have tk: "taken (bitmap n) b \<longleftrightarrow> taken (bitmap (?ns ! j)) b \<and> \<not> (v \<le> b \<and> b < v + ?k)" if "b < 64" for b
  proof -
    have "length (bitmap (?ns ! j)) = 8" using okj by (simp add: node_ok_def)
    from portrange_set_taken [OF this that, of 0 "int v" ?e] show ?thesis
      unfolding e iff by (simp add: n_def e [simplified])
  qed
  have n: "node_ip n = a" "validbit n = validbit (?ns ! j)" "node_ok (64 + ?k) ?k n"
    using j okj by (simp_all add: n_def node_ok_def)
  have ips: "map node_ip (ring pl') = map node_ip ?ns" "map validbit (ring pl') = map validbit ?ns"
    using n j by (simp_all add: pl'_def map_update list_update_same_conv)
  have "\<forall>m\<in>set (ring pl'). node_ok (64 + ?k) ?k m"
    using n(3) I by (auto simp: pl'_def dest!: set_update_subset_insert [THEN subsetD])
  then have inv: "pool_inv r pl'" using I ips by (simp add: pool_inv_def pl'_def)
  have eq: "node_ip (?ns ! i) = a \<longleftrightarrow> i = j" if "i < length ?ns" for i
    using that j d nth_eq_iff_index_eq [of "map node_ip ?ns" i j] by auto
  have l: "length (ring pl') = length ?ns" by (simp add: pl'_def)
  have tki: "taken (bitmap (ring pl' ! i)) b \<longleftrightarrow> taken (bitmap (?ns ! i)) b \<and> \<not> (i = j \<and> v \<le> b \<and> b < v + ?k)"
    if "i < length ?ns" "b < 64" for i b
    using that tk j by (cases "i = j") (simp_all add: pl'_def)
  have ipi: "node_ip (ring pl' ! i) = node_ip (?ns ! i)" if "i < length ?ns" for i
    using that n(1) j by (cases "i = j") (simp_all add: pl'_def)
  have u: "used_blocks r pl' = used_blocks r pl - {(a, b) | b. v \<le> b \<and> b < v + ?k}"
  proof (intro set_eqI, clarify)
    fix c b
    have "(c, b) \<in> used_blocks r pl' \<longleftrightarrow> (\<exists>i<length ?ns. c = node_ip (?ns ! i) \<and> b < 64 \<and> \<not> unserv ?k b
        \<and> taken (bitmap (?ns ! i)) b \<and> \<not> (i = j \<and> v \<le> b \<and> b < v + ?k))"
      unfolding used_iff l using tki ipi by (metis (no_types, lifting))
    also have "\<dots> \<longleftrightarrow> (c, b) \<in> used_blocks r pl - {(a, b) | b. v \<le> b \<and> b < v + ?k}"
      unfolding Diff_iff used_iff using eq by auto
    finally show "(c, b) \<in> used_blocks r pl' \<longleftrightarrow> (c, b) \<in> used_blocks r pl - {(a, b) | b. v \<le> b \<and> b < v + ?k}" .
  qed
  show thesis by (rule that [OF D inv _ u ips]) (simp add: pl'_def)
qed

lemma grant_valid_nonempty: "grant_valid r g \<Longrightarrow> grant_blocks r g \<noteq> {}"
proof -
  assume "grant_valid r g"
  then obtain v a where "2 \<le> unat r" "v + unat r < 64" "g = grant_of (unat r) v a" by (auto simp: grant_valid_def)
  then have "(a, v) \<in> grant_blocks r g" by (simp add: grant_of_blocks)
  then show ?thesis by auto
qed

lemma give_back_ok:
  assumes "pool_inv r pl" "grant_valid r g" "grant_blocks r g \<subseteq> used_blocks r pl"
  shows "\<exists>pl'. give_back r pl g = Some pl' \<and> pool_inv r pl' \<and> used_blocks r pl' = used_blocks r pl - grant_blocks r g
    \<and> map node_ip (ring pl') = map node_ip (ring pl) \<and> curnode pl' = curnode pl"
proof -
  obtain v a where g: "unat r dvd v" "2 \<le> unat r" "v + unat r < 64" "g = grant_of (unat r) v a"
    using assms(2) by (auto simp: grant_valid_def)
  have b: "grant_blocks r g = {(a, b) | b. v \<le> b \<and> b < v + unat r}" using g grant_of_blocks by simp
  then have "(a, v) \<in> grant_blocks r g" using g(2) by simp
  then have a: "a \<in> node_ip ` set (ring pl)" using assms(3) by (auto simp: used_blocks_def)
  show ?thesis
    by (rule DeallocAddrPort_ok [OF assms(1) g(1,3) a]) (use g(4) b in \<open>simp add: give_back_def grant_of_def\<close>)
qed

interpretation pool: range_allocator "pool_inv r" "\<lambda>pl. AllocAddrPort pl r" "give_back r" "used_blocks r"
    "grant_blocks r" "grant_valid r" for r
proof
  fix s s' g
  show "pool_inv r s \<Longrightarrow> \<exists>s' g. AllocAddrPort s r = Some (s', g)"
    using AllocAddrPort_ok [OF _ refl] by blast
  show "pool_inv r s \<Longrightarrow> AllocAddrPort s r = Some (s', None) \<Longrightarrow> pool_inv r s' \<and> used_blocks r s' = used_blocks r s"
    using AllocAddrPort_ok [OF _ refl, of r s] used_same by fastforce
  show "pool_inv r s \<Longrightarrow> AllocAddrPort s r = Some (s', Some g) \<Longrightarrow>
      pool_inv r s' \<and> grant_valid r g \<and> grant_blocks r g \<inter> used_blocks r s = {}
      \<and> used_blocks r s' = used_blocks r s \<union> grant_blocks r g"
    using AllocAddrPort_ok [OF _ refl, of r s] used_granted [of r s s' g] by fastforce
  show "pool_inv r s \<Longrightarrow> grant_valid r g \<Longrightarrow> grant_blocks r g \<subseteq> used_blocks r s \<Longrightarrow>
      \<exists>s'. give_back r s g = Some s' \<and> pool_inv r s' \<and> used_blocks r s' = used_blocks r s - grant_blocks r g"
    using give_back_ok by blast
  show "grant_valid r g \<Longrightarrow> grant_blocks r g \<noteq> {}" by (rule grant_valid_nonempty)
qed

section \<open>The initial pool\<close>

definition ip_range :: "u32 \<Rightarrow> u32 \<Rightarrow> u32 list" where
  "ip_range i e = map word_of_nat [unat i..<unat e + 1]"

lemma unat_of_nat32: "n < 2 ^ 32 \<Longrightarrow> unat (word_of_nat n :: u32) = n"
  by (simp only: unsigned_of_nat) (simp add: take_bit_nat_eq_self)

lemma init_pool_loop_ok:
  assumes "n \<le> unat e + 1" "unat e + 1 < 2 ^ 32"
  shows "\<exists>pl'. init_pool_loop (word_of_nat n) e pl = Some pl'
    \<and> ring pl' = ring pl @ map (\<lambda>x. AllocAddrPoolNode (word_of_nat x)) [n..<unat e + 1]
    \<and> ring_length pl' = ring_length pl + (unat e + 1 - n)"
  using assms(1)
proof (induction "unat e + 1 - n" arbitrary: n pl)
  case 0
  have "unat (word_of_nat n :: u32) = n"
    using 0 assms(2) by (intro unat_of_nat32) simp
  then have "\<not> (word_of_nat n :: u32) \<le> e" using 0 unfolding word_le_nat_alt by linarith
  then show ?case using 0 by (subst init_pool_loop.simps) simp
next
  case (Suc d)
  have n: "unat (word_of_nat n :: u32) = n"
    using Suc.hyps(2) assms(2) by (intro unat_of_nat32) simp
  have le: "(word_of_nat n :: u32) \<le> e" using n Suc(2) unfolding word_le_nat_alt by linarith
  have d: "d = unat e + 1 - (n + 1)" "n + 1 \<le> unat e + 1" using Suc(2) by linarith+
  let ?pl = "AddAddrPoolNode pl (AllocAddrPoolNode (word_of_nat n))"
  obtain pl' where p: "init_pool_loop (word_of_nat (n + 1)) e ?pl = Some pl'"
    "ring pl' = ring ?pl @ map (\<lambda>x. AllocAddrPoolNode (word_of_nat x)) [n + 1..<unat e + 1]"
    "ring_length pl' = ring_length ?pl + (unat e + 1 - (n + 1))"
    using Suc(1) [OF d, of ?pl] by blast
  have "init_pool_loop (word_of_nat n) e pl = Some pl'"
    using le p(1) by (subst init_pool_loop.simps) (simp add: add.commute)
  moreover have "[n..<unat e + 1] = n # [n + 1..<unat e + 1]"
    using d(2) by (simp add: upt_conv_Cons del: upt_Suc)
  ultimately show ?case using p(2,3) d(2) by (simp add: AddAddrPoolNode_def del: upt_Suc)
qed

lemma bit_zero_bitmap [simp]: "b < 64 \<Longrightarrow> \<not> taken (replicate 8 0) b"
proof -
  assume "b < 64"
  then have "b div 8 < 8" by linarith
  then show ?thesis by (simp add: taken_def)
qed

lemma InitAddrPool_ok:
  assumes "uiStartIp p \<le> uiEndIp p" "uiEndIp p \<noteq> 0xffffffff" "2 \<le> unat r" "unat r \<le> 63"
  obtains pl where "InitAddrPool p = Some pl" "pool_inv r pl" "used_blocks r pl = {}"
    "map node_ip (ring pl) = ip_range (uiStartIp p) (uiEndIp p)"
proof -
  have "unat (uiEndIp p) \<noteq> unat (0xffffffff :: u32)" using assms(2) by (metis unsigned_word_eqI)
  moreover have "unat (uiEndIp p) < 2 ^ 32" using unsigned_less [of "uiEndIp p"] by simp
  ultimately have e: "unat (uiEndIp p) + 1 < 2 ^ 32" by simp
  have n: "unat (uiStartIp p) \<le> unat (uiEndIp p) + 1" using assms(1) by (simp add: word_le_nat_alt)
  obtain pl where pl: "init_pool_loop (uiStartIp p) (uiEndIp p) \<lparr>ring = [], curnode = 0, ring_length = 0\<rparr> = Some pl"
    "ring pl = map (\<lambda>x. AllocAddrPoolNode (word_of_nat x)) [unat (uiStartIp p)..<unat (uiEndIp p) + 1]"
    using init_pool_loop_ok [OF n e, of "\<lparr>ring = [], curnode = 0, ring_length = 0\<rparr>"] by (auto simp del: upt_Suc)
  have ips: "map node_ip (ring pl) = ip_range (uiStartIp p) (uiEndIp p)"
    by (simp add: pl(2) ip_range_def AllocAddrPoolNode_def del: upt_Suc)
  have inj: "inj_on (word_of_nat :: nat \<Rightarrow> u32) {unat (uiStartIp p)..<unat (uiEndIp p) + 1}"
  proof (rule inj_onI)
    fix x y
    assume xy: "x \<in> {unat (uiStartIp p)..<unat (uiEndIp p) + 1}" "y \<in> {unat (uiStartIp p)..<unat (uiEndIp p) + 1}"
      and "(word_of_nat x :: u32) = word_of_nat y"
    then have "unat (word_of_nat x :: u32) = unat (word_of_nat y :: u32)" by simp
    moreover have "x < 2 ^ 32" "y < 2 ^ 32" using xy e by simp_all
    ultimately show "x = y" using unat_of_nat32 by metis
  qed
  have d: "distinct (map node_ip (ring pl))"
    unfolding ips ip_range_def using inj by (simp add: distinct_map del: upt_Suc)
  have l: "0 < length (ring pl)" using n assms(1) by (simp add: pl(2) word_le_nat_alt del: upt_Suc)
  have ok: "node_ok (64 + unat r) (unat r) n" "bitmap n = replicate 8 0" if "n \<in> set (ring pl)" for n
    using that assms(3) by (auto simp: pl(2) AllocAddrPoolNode_def node_ok_def simp del: upt_Suc)
  show thesis
  proof (rule that [of "pl\<lparr>curnode := 0\<rparr>"])
    show "InitAddrPool p = Some (pl\<lparr>curnode := 0\<rparr>)" using pl(1) by (simp add: InitAddrPool_def)
    show "pool_inv r (pl\<lparr>curnode := 0\<rparr>)" using d l ok(1) assms(3,4) by (simp add: pool_inv_def)
    show "used_blocks r (pl\<lparr>curnode := 0\<rparr>) = {}" using ok(2) by (auto simp: used_blocks_def)
    show "map node_ip (ring (pl\<lparr>curnode := 0\<rparr>)) = ip_range (uiStartIp p) (uiEndIp p)" using ips by simp
  qed
qed

section \<open>Properties\<close>

text \<open>Two addresses, with ranges of 2048 ports as in the sample configuration.\<close>

definition pool2 :: ADDRPOOLLIST where
  "pool2 = \<lparr>ring = map AllocAddrPoolNode [0xC0A80100, 0xC0A80101], curnode = 0, ring_length = 2\<rparr>"

lemma pool2_inv: "pool_inv 2 pool2"
  by (simp add: pool_inv_def pool2_def AllocAddrPoolNode_def node_ok_def)

lemma grant_valid_ports:
  assumes "grant_valid r (s, e, a)"
  shows "1024 \<le> unat s" "unat e = unat s + unat r * 1024 - 1" "1024 dvd unat s"
proof -
  obtain v where v: "2 \<le> unat r" "v + unat r < 64" "s = port_of v" "e = port_of v + word_of_nat (unat r * 1024 - 1)"
    using assms by (auto simp: grant_valid_def grant_of_def)
  have s: "unat s = (v + 1) * 1024" using v by (simp add: unat_port_of)
  then show "1024 \<le> unat s" "1024 dvd unat s" by simp_all
  have "unat (word_of_nat (unat r * 1024 - 1) :: u16) = unat r * 1024 - 1"
    using v(2) by (simp only: unsigned_of_nat) (simp add: take_bit_nat_eq_self)
  then show "unat e = unat s + unat r * 1024 - 1"
    using v s unfolding v(4) unat_plus_if' by simp
qed

text \<open>C22: for ranges of 2 to 63 blocks of 1024 ports: a granted range starts at port 1024 or above and has its full length below 65536, belongs to an
  address of the pool, and no block of it was taken; afterwards exactly its blocks are taken as well.\<close>

theorem AllocAddrPort_grants:
  assumes "pool_inv r pl" "AllocAddrPort pl r = Some (pl', Some (s, e, a))"
  shows "1024 \<le> unat s \<and> unat e = unat s + unat r * 1024 - 1 \<and> a \<in> node_ip ` set (ring pl)
    \<and> grant_blocks r (s, e, a) \<inter> used_blocks r pl = {}
    \<and> used_blocks r pl' = used_blocks r pl \<union> grant_blocks r (s, e, a) \<and> pool_inv r pl'"
proof -
  note a = pool.alloc_some [OF assms]
  have "pool_rel (unat r) (ring pl) (ring pl') (Some (s, e, a))"
    using AllocAddrPort_ok [OF assms(1) refl] assms(2) by auto
  then have "a \<in> node_ip ` set (ring pl)" by (auto simp: pool_rel_def grant_of_def)
  then show ?thesis using a grant_valid_ports [of r s e a] by simp
qed

theorem AllocAddrPort_grants_witness:
  "\<exists>pl'. AllocAddrPort pool2 2 = Some (pl', Some (1024, 3071, 0xC0A80100))
    \<and> grant_blocks 2 (1024, 3071, 0xC0A80100) \<inter> used_blocks 2 pool2 = {} \<and> pool_inv 2 pl'"
proof -
  have "map_option snd (AllocAddrPort pool2 2) = Some (Some (1024, 3071, 0xC0A80100))" by code_simp
  then obtain pl' where a: "AllocAddrPort pool2 2 = Some (pl', Some (1024, 3071, 0xC0A80100))" by auto
  show ?thesis using AllocAddrPort_grants [OF pool2_inv a] a by blast
qed

text \<open>An allocation always returns, and when two in a row are refused the pool is exhausted: no address
  has a free range left that ends below port 65536 (the first refusal alone may overlook ranges
  given back since they were last passed).\<close>

theorem refused_twice_is_full:
  assumes "pool_inv r pl"
  shows "\<exists>pl1 g1 pl2 g2. AllocAddrPort pl r = Some (pl1, g1) \<and> AllocAddrPort pl1 r = Some (pl2, g2)
    \<and> (g1 = None \<and> g2 = None \<longrightarrow> (\<forall>n\<in>set (ring pl). all_taken (unat r) n 0 64))"
proof -
  obtain pl1 g1 where a1: "AllocAddrPort pl r = Some (pl1, g1)" "pool_inv r pl1" "curnode pl1 = curnode pl"
    "pool_rel (unat r) (ring pl) (ring pl1) g1" "g1 = None \<longrightarrow> refused (unat r) pl pl1"
    using AllocAddrPort_ok [OF assms refl] by blast
  obtain pl2 g2 where a2: "AllocAddrPort pl1 r = Some (pl2, g2)" "g2 = None \<longrightarrow> refused (unat r) pl1 pl2"
    using AllocAddrPort_ok [OF a1(2) refl] by blast
  have "all_taken (unat r) (ring pl ! j) 0 64" if g: "g1 = None" "g2 = None" "j < length (ring pl)" for j
  proof -
    have l: "length (ring pl1) = length (ring pl)" and s: "same_bits (unat r) (ring pl ! j) (ring pl1 ! j)"
      using a1(4) g(1,3) by (auto simp: pool_rel_def)
    have "all_taken (unat r) (ring pl1 ! j) 0 64"
      using a1(3,5) a2(2) g l by (cases "j = curnode pl") (auto simp: refused_def)
    then show ?thesis using all_taken_same [OF s] by simp
  qed
  then show ?thesis using a1(1) a2(1) by (auto simp: in_set_conv_nth)
qed

text \<open>A ring of one address whose bitmap is full.\<close>

definition pool_full :: ADDRPOOLLIST where
  "pool_full = \<lparr>ring = [\<lparr>node_ip = 0xC0A80100, validbit = 0, bitmap = replicate 8 255\<rparr>], curnode = 0, ring_length = 1\<rparr>"

theorem refused_twice_is_full_witness:
  "\<exists>pl1 pl2. AllocAddrPort pool_full 2 = Some (pl1, None) \<and> AllocAddrPort pl1 2 = Some (pl2, None)
    \<and> all_taken 2 (hd (ring pool_full)) 0 64"
proof -
  have i: "pool_inv 2 pool_full" by (simp add: pool_inv_def pool_full_def node_ok_def)
  have "map_option snd (AllocAddrPort pool_full 2) = Some None"
    "map_option snd (Option.bind (AllocAddrPort pool_full 2) (\<lambda>(p, _). AllocAddrPort p 2)) = Some None"
    by code_simp+
  then obtain pl1 pl2 where "AllocAddrPort pool_full 2 = Some (pl1, None)" "AllocAddrPort pl1 2 = Some (pl2, None)"
    by (auto simp: option_simps)
  moreover have "hd (ring pool_full) \<in> set (ring pool_full)" by (simp add: pool_full_def)
  ultimately show ?thesis using refused_twice_is_full [OF i] by auto
qed

text \<open>Giving back a range that was just granted restores the pool: the same blocks are taken as before
  the allocation, and the pool is well formed.\<close>

theorem give_back_restores:
  assumes "pool_inv r pl" "AllocAddrPort pl r = Some (pl1, Some (s, e, a))"
  shows "\<exists>pl2. DeallocAddrPort pl1 r s a = Some pl2 \<and> pool_inv r pl2 \<and> used_blocks r pl2 = used_blocks r pl"
proof -
  note a = pool.alloc_some [OF assms]
  obtain pl2 where "give_back r pl1 (s, e, a) = Some pl2" "pool_inv r pl2"
    "used_blocks r pl2 = used_blocks r pl1 - grant_blocks r (s, e, a)"
    using pool.release_ok [of r pl1 "(s, e, a)"] a by auto
  then show ?thesis using a by (intro exI [of _ pl2]) (auto simp: give_back_def)
qed

theorem give_back_restores_witness:
  "\<exists>pl1 pl2. AllocAddrPort pool2 2 = Some (pl1, Some (1024, 3071, 0xC0A80100))
    \<and> DeallocAddrPort pl1 2 1024 0xC0A80100 = Some pl2 \<and> used_blocks 2 pl2 = used_blocks 2 pool2"
proof -
  have "map_option snd (AllocAddrPort pool2 2) = Some (Some (1024, 3071, 0xC0A80100))" by code_simp
  then obtain pl1 where a: "AllocAddrPort pool2 2 = Some (pl1, Some (1024, 3071, 0xC0A80100))" by auto
  show ?thesis using give_back_restores [OF pool2_inv a] a by blast
qed

text \<open>The pool of a configured range of addresses that ends below 255.255.255.255 is built, with one node
  for every address, all of its blocks free.\<close>

theorem InitAddrPool_builds:
  assumes "uiStartIp p \<le> uiEndIp p" "uiEndIp p \<noteq> 0xffffffff" "2 \<le> unat r" "unat r \<le> 63"
  shows "\<exists>pl. InitAddrPool p = Some pl \<and> pool_inv r pl \<and> used_blocks r pl = {}
    \<and> map node_ip (ring pl) = ip_range (uiStartIp p) (uiEndIp p)"
  by (rule InitAddrPool_ok [OF assms]) blast

definition conf2 :: ADDR_POOL where
  "conf2 = \<lparr>uiStartIp = 0xC0A80100, uiEndIp = 0xC0A80103, usPortMask = 0xf800, usUserQutoa = 2048, usRequestQutoa = 2048\<rparr>"

theorem InitAddrPool_builds_witness:
  "\<exists>pl. InitAddrPool conf2 = Some pl \<and> pool_inv 2 pl
    \<and> map node_ip (ring pl) = [0xC0A80100, 0xC0A80101, 0xC0A80102, 0xC0A80103]"
proof -
  have "ip_range 0xC0A80100 0xC0A80103 = [0xC0A80100, 0xC0A80101, 0xC0A80102, 0xC0A80103]"
    by (simp add: ip_range_def upt_rec)
  then show ?thesis using InitAddrPool_builds [of conf2 2] by (auto simp: conf2_def)
qed

text \<open>With ranges of a single block (port mask 0xfc00) the last block of an address is granted as the ports
  0 to 1023, and it cannot be given back: the release fails.\<close>

theorem last_block_lost:
  "\<exists>pl'. AllocAddrPort \<lparr>ring = [\<lparr>node_ip = 7, validbit = 63, bitmap = replicate 8 0\<rparr>], curnode = 0, ring_length = 1\<rparr> 1
      = Some (pl', Some (0, 1023, 7))
    \<and> DeallocAddrPort pl' 1 0 7 = None"
proof -
  let ?pl = "\<lparr>ring = [\<lparr>node_ip = 7, validbit = 63, bitmap = replicate 8 0\<rparr>], curnode = 0, ring_length = 1\<rparr>"
  have "map_option snd (AllocAddrPort ?pl 1) = Some (Some (0, 1023, 7))" by code_simp
  moreover have "DeallocAddrPort pl' 1 0 7 = None" for pl' by (simp add: DeallocAddrPort_def c_div_def)
  ultimately show ?thesis by auto
qed

end
