(* ===== verification/Daemon.thy ===== *)
theory Daemon
  imports System AddrPool
begin

text \<open>
  The user daemon (\<open>user_module/src\<close>): the netlink messages it builds and handles
  (\<open>nlmessage.c\<close>, \<open>netlink_async.c\<close>), the PCP requests of the clients (\<open>pcpmsg.c\<close>), its configuration
  of the kernel module (\<open>entry.c\<close>) and the table of allowed options (\<open>optionlist.c\<close>).  The kernel
  module on the other end of the sockets is the one of the theory \<open>KernelNetlink\<close>.

  As there, \<open>None\<close> is a run that does not return or touches memory outside its buffers.
\<close>

section \<open>State\<close>

record TCCONFIG =
  tc_uiversion :: u32
  tc_usmtu :: u16
  usPcpPort :: u16
  ucLocalIPv6Addr :: "u8 list"
  ucLocalIPv4Addr :: u32

text \<open>\<open>cfgPortMask\<close> is the field \<open>usPortMask\<close> of \<open>CONFIG\<close> itself, set by \<open>InitTc\<close>.\<close>

record CONFIG =
  cfgAddrPool :: ADDR_POOL
  BakupAddrPool :: ADDR_POOL
  cfgPortMask :: u16
  tc_config :: TCCONFIG

record dstate =
  Config :: CONFIG
  AddrPoolList :: ADDRPOOLLIST

record NETADDRINFO =
  extip :: u32
  startport :: u16
  endport :: u16

definition SUCCESS_LIFETIME :: u32 where "SUCCESS_LIFETIME = 120"
definition ERROR_LIFETIME :: u32 where "ERROR_LIFETIME = 1800"

definition MSG_ERR_SUCCESS :: int where "MSG_ERR_SUCCESS = 1"
definition MSG_ERR_INTER :: int where "MSG_ERR_INTER = 0"
definition MSG_ERR_CANNOT_ALLOC_PORT :: int where "MSG_ERR_CANNOT_ALLOC_PORT = -1"
definition MSG_ERR_RECYCLED_PORT :: int where "MSG_ERR_RECYCLED_PORT = -2"
definition MSG_ERR_RESULT :: int where "MSG_ERR_RESULT = -3"
definition MSG_ERR_UNKNOWN :: int where "MSG_ERR_UNKNOWN = -4"

lemmas msg_err_defs = MSG_ERR_SUCCESS_def MSG_ERR_INTER_def MSG_ERR_CANNOT_ALLOC_PORT_def
  MSG_ERR_RECYCLED_PORT_def MSG_ERR_RESULT_def MSG_ERR_UNKNOWN_def

section \<open>Netlink messages of the daemon (\<open>nlmessage.c\<close>)\<close>

definition ConstructNetlinkMsg :: "NETLINK_MSG_DEF \<Rightarrow> u8 list \<Rightarrow> ulong \<Rightarrow> netlink_msg" where
  "ConstructNetlinkMsg msg_type cliIpv6Addr lt =
     InitMsg msg_type \<lparr>ucResult = 0, cli_addr = cliIpv6Addr, lefttime = lt\<rparr>"

definition ConstructAllocMsg :: "u8 list \<Rightarrow> u32 \<Rightarrow> u16 \<Rightarrow> u16 \<Rightarrow> ulong \<Rightarrow> netlink_msg" where
  "ConstructAllocMsg cliIpv6Addr ip StartPort EndPort lt =
     TunMsg NETLINK_ALLOC_ADDR \<lparr>user_addr = cliIpv6Addr, public_ip = ip, start_port = StartPort,
                                end_port = EndPort, tun_lefttime = lt\<rparr>"

text \<open>The structure is on the stack; its other fields are whatever they were.\<close>

definition ConstructUninitMsg :: "NETLINK_MSG_TCCONFIG \<Rightarrow> netlink_msg" where
  "ConstructUninitMsg pmsgconfig = ConfigMsg NETLINK_UNINIT_CONFIG (pmsgconfig\<lparr>cfg_uiTunState := 0\<rparr>)"

text \<open>The number of 1024-port blocks of a range, \<open>(unsigned short)(~usPortMask + 1) / MINI_RANGE_VALUE\<close>.\<close>

definition uiRange :: "dstate \<Rightarrow> u32" where
  "uiRange d = ucast (not (cfgPortMask (Config d)) + 1) div MINI_RANGE_VALUE"

text \<open>
  The buffer \<open>MsgContent\<close>: the caller knows what it is, and the handler of a message casts it to what it
  expects there; a message that does not fit the buffer is written at wrong offsets, or through a
  null pointer: \<open>None\<close>.  The state query is sent by no part of this daemon and the kernel module
  does not answer it (\<open>TC_STAT_DEF\<close> is 0).
\<close>

datatype msg_content = NullContent | TunContent NETLINK_MSG_TUNCONFIG | AddrContent NETADDRINFO

definition HandlMessage_daemon ::
    "dstate \<Rightarrow> netlink_msg \<Rightarrow> msg_content \<Rightarrow> (dstate \<times> msg_content \<times> int) option" where
  "HandlMessage_daemon d msg MsgContent =
     (case msg of
        InitMsg NETLINK_ALLOC_ADDR pmsg \<Rightarrow>
          (case MsgContent of
             NullContent \<Rightarrow> Some (d, MsgContent, MSG_ERR_SUCCESS)
           | TunContent c \<Rightarrow>
               do { (pl, g) \<leftarrow> AllocAddrPort (AddrPoolList d) (uiRange d);
                    let d = d\<lparr>AddrPoolList := pl\<rparr>;
                    (case g of
                       None \<Rightarrow> Some (d, MsgContent, MSG_ERR_CANNOT_ALLOC_PORT)
                     | Some (s, e, ip) \<Rightarrow>
                         Some (d, TunContent (c\<lparr>start_port := s, end_port := e, public_ip := ip,
                                                tun_lefttime := lefttime pmsg, user_addr := cli_addr pmsg\<rparr>),
                               MSG_ERR_SUCCESS)) }
           | AddrContent _ \<Rightarrow> None)
      | TunMsg NETLINK_UPDATE_MSG pTunMsg \<Rightarrow>
          (case MsgContent of
             NullContent \<Rightarrow> Some (d, MsgContent, MSG_ERR_SUCCESS)
           | TunContent _ \<Rightarrow> Some (d, TunContent pTunMsg, MSG_ERR_SUCCESS)
           | AddrContent _ \<Rightarrow> None)
      | TunMsg NETLINK_DELETE_NODE pTunMsg \<Rightarrow>
          (case MsgContent of
             AddrContent _ \<Rightarrow>
               (let a = \<lparr>extip = public_ip pTunMsg, startport = start_port pTunMsg,
                         endport = start_port pTunMsg + not (usPortMask (cfgAddrPool (Config d)))\<rparr>
                in case DeallocAddrPort (AddrPoolList d) (uiRange d) (startport a) (extip a) of
                     None \<Rightarrow> Some (d, AddrContent a, MSG_ERR_RECYCLED_PORT)
                   | Some pl \<Rightarrow> Some (d\<lparr>AddrPoolList := pl\<rparr>, AddrContent a, MSG_ERR_SUCCESS))
           | _ \<Rightarrow> None)
      | InitMsg NETLINK_RESULT pmsg \<Rightarrow>
          Some (d, MsgContent, if ucResult pmsg = 2 then MSG_ERR_RESULT else MSG_ERR_SUCCESS)
      | _ \<Rightarrow> (case msgdef msg of
               Some t \<Rightarrow> if t \<in> {NETLINK_ALLOC_ADDR, NETLINK_UPDATE_MSG, NETLINK_DELETE_NODE, NETLINK_RESULT,
                                NETLINK_TC_STATE} then None else Some (d, MsgContent, MSG_ERR_UNKNOWN)
             | None \<Rightarrow> None))"

section \<open>Configuration of the kernel module (\<open>entry.c\<close>)\<close>

definition InitTc :: "dstate \<Rightarrow> dstate \<times> netlink_msg" where
  "InitTc d =
     (let c = Config d; p = cfgAddrPool c
      in (d\<lparr>Config := c\<lparr>cfgPortMask := usPortMask p\<rparr>\<rparr>,
          ConfigMsg NETLINK_INIT_CONFIG
            \<lparr>uiversion = tc_uiversion (tc_config c), usmtu = tc_usmtu (tc_config c),
             tc_addr = ucLocalIPv6Addr (tc_config c), uibeginIP = uiStartIp p, uiEndIP = uiEndIp p,
             cfg_uiTunState = 1, cfg_usPortRange = not (usPortMask p) + 1,
             uiOtherBeginIP = uiStartIp (BakupAddrPool c), uiOtherEndIP = uiEndIp (BakupAddrPool c),
             cfg_uiMaxLifeTime = SUCCESS_LIFETIME\<rparr>))"

definition UnInitTc :: "NETLINK_MSG_TCCONFIG \<Rightarrow> netlink_msg" where
  "UnInitTc stack = ConstructUninitMsg stack"

section \<open>Options (\<open>optionlist.c\<close>)\<close>

text \<open>
  The list of opcodes, each with the array of its options, which \<open>load_opcode_file\<close> fills with 0xffff
  first.  The search of the array tests an option before the end mark, and has no other bound:
  \<open>None\<close> when it runs past the array.
\<close>

record OPTIONLIST =
  opcode :: u16
  optionarr :: "u16 list"

definition MAX_OPTION_NUM :: nat where "MAX_OPTION_NUM = 20"

definition option_list_add :: "OPTIONLIST list \<Rightarrow> u16 \<Rightarrow> u16 list \<Rightarrow> OPTIONLIST list" where
  "option_list_add head oc arr = \<lparr>opcode = oc, optionarr = arr\<rparr> # head"

fun option_list_search_opcode :: "OPTIONLIST list \<Rightarrow> u16 \<Rightarrow> OPTIONLIST option" where
  "option_list_search_opcode [] oc = None"
| "option_list_search_opcode (p # ps) oc = (if opcode p = oc then Some p else option_list_search_opcode ps oc)"

fun option_scan :: "u16 list \<Rightarrow> u16 \<Rightarrow> int option" where
  "option_scan [] opt = None"
| "option_scan (x # xs) opt =
     (if x = opt then Some 0
      else case xs of [] \<Rightarrow> None | y # _ \<Rightarrow> if y \<noteq> 0xffff then option_scan xs opt else Some (-1))"

definition option_list_search_option :: "OPTIONLIST \<Rightarrow> u16 \<Rightarrow> int option" where
  "option_list_search_option head opt = option_scan (optionarr head) opt"

section \<open>Talking to the kernel module\<close>

text \<open>
  What a request meets: whether the socket can be created and each message is sent and received,
  the seconds since the start of the daemon, what lies on the stack where a handler fills in
  nothing, what the other thread and the kernel do between the two exchanges of
  \<open>updateTunnelTree\<close>, and the kernel's allocator.
\<close>

record nlenv =
  sock_ok :: bool
  snd_ok :: "nat \<Rightarrow> bool"
  rcv_ok :: "nat \<Rightarrow> bool"
  uptime :: u32
  junk_tun :: NETLINK_MSG_TUNCONFIG
  junk_addr :: NETADDRINFO
  meanwhile :: "dstate \<times> kstate \<Rightarrow> (dstate \<times> kstate) option"
  kmem :: "kstate \<Rightarrow> addr option"

text \<open>
  \<open>SendMessage\<close> hands the message to the kernel module, which handles it at once; \<open>RecvMessage\<close> takes its
  reply.  The daemon sends 200 bytes.
\<close>

definition SendMessage :: "nlenv \<Rightarrow> nat \<Rightarrow> kstate \<Rightarrow> netlink_msg \<Rightarrow> (kstate \<times> int) option" where
  "SendMessage e i k msg =
     (if snd_ok e i then map_option (\<lambda>k. (k, 0)) (nl_data_ready (kmem e) k 200 msg) else Some (k, -1))"

definition reply_to :: "kstate \<Rightarrow> kstate \<Rightarrow> netlink_msg option" where
  "reply_to k k' =
     (case filter (\<lambda>(ch, m). ch = NL_TEST) (drop (length (nl_sent k)) (nl_sent k')) of
        [] \<Rightarrow> None | (ch, m) # _ \<Rightarrow> Some m)"

section \<open>PCP requests (\<open>pcpmsg.c\<close>)\<close>

text \<open>
  The result is the out parameters, as far as they are set, and the return value.  \<open>send_tunnel\<close> is the
  second half of \<open>updateTunnelTree\<close>, with \<open>tcconfig\<close> filled in.
\<close>

definition send_tunnel ::
    "nlenv \<Rightarrow> dstate \<times> kstate \<Rightarrow> NETLINK_MSG_TUNCONFIG \<Rightarrow>
     ((dstate \<times> kstate) \<times> (u32 \<times> u16) option \<times> int) option" where
  "send_tunnel e s c =
     (let (d, k1) = s in
      do { (k2, ret) \<leftarrow> SendMessage e 1 k1 (ConstructAllocMsg (user_addr c) (public_ip c) (start_port c)
                                              (end_port c) (tun_lefttime c));
           if ret < 0 then Some ((d, k2), None, MSG_ERR_INTER)
           else if \<not> rcv_ok e 1 then Some ((d, k2), None, MSG_ERR_INTER)
           else do {
             recv_buf \<leftarrow> reply_to k1 k2;
             (d, _, ret) \<leftarrow> HandlMessage_daemon d recv_buf NullContent;
             if ret \<noteq> MSG_ERR_SUCCESS then Some ((d, k2), None, ret)
             else Some ((d, k2), Some (public_ip c, start_port c), ret) } })"

definition updateTunnelTree ::
    "nlenv \<Rightarrow> dstate \<times> kstate \<Rightarrow> u8 list \<Rightarrow> ((dstate \<times> kstate) \<times> (u32 \<times> u16) option \<times> int) option" where
  "updateTunnelTree e s aucCLTIPv6Addr =
     (let (d, k) = s in
      if \<not> sock_ok e then Some (s, None, MSG_ERR_INTER)
      else do {
        (k1, ret) \<leftarrow> SendMessage e 0 k (ConstructNetlinkMsg NETLINK_DETECT_MSG aucCLTIPv6Addr SUCCESS_LIFETIME);
        if ret \<noteq> 0 then Some ((d, k1), None, MSG_ERR_INTER)
        else if \<not> rcv_ok e 0 then Some ((d, k1), None, MSG_ERR_INTER)
        else do {
          recv_buf \<leftarrow> reply_to k k1;
          (d, tcconfig, ret) \<leftarrow> HandlMessage_daemon d recv_buf (TunContent (junk_tun e));
          if ret \<noteq> MSG_ERR_SUCCESS then Some ((d, k1), None, ret)
          else do {
            (d, k1) \<leftarrow> meanwhile e (d, k1);
            c \<leftarrow> (case tcconfig of TunContent c \<Rightarrow> Some c | _ \<Rightarrow> None);
            send_tunnel e (d, k1) c } } })"

definition delTunnel ::
    "nlenv \<Rightarrow> dstate \<times> kstate \<Rightarrow> u8 list \<Rightarrow> u32 \<Rightarrow> ((dstate \<times> kstate) \<times> (u32 \<times> u16) option \<times> int) option" where
  "delTunnel e s aucCLTIPv6Addr uiReqLiftTime =
     (let (d, k) = s in
      if \<not> sock_ok e then Some (s, None, MSG_ERR_INTER)
      else do {
        (k1, ret) \<leftarrow> SendMessage e 0 k (ConstructNetlinkMsg NETLINK_DELETE_NODE aucCLTIPv6Addr uiReqLiftTime);
        if ret \<noteq> 0 then Some ((d, k1), None, -1)
        else if \<not> rcv_ok e 0 then Some ((d, k1), None, MSG_ERR_INTER)
        else do {
          recv_buf \<leftarrow> reply_to k k1;
          (d, tunconfig, ret) \<leftarrow> HandlMessage_daemon d recv_buf (AddrContent (junk_addr e));
          if ret \<noteq> MSG_ERR_SUCCESS then Some ((d, k1), None, MSG_ERR_INTER)
          else do {
            a \<leftarrow> (case tunconfig of AddrContent a \<Rightarrow> Some a | _ \<Rightarrow> None);
            Some ((d, k1), Some (extip a, startport a), MSG_ERR_SUCCESS) } } })"

text \<open>
  A request is the received bytes, in a buffer of exactly their length.  The structures are packed: the
  version at 0, the opcode and the R bit at 1, the life time at 4, the client's address at 8, the
  option's code at 44, its length at 46, the port range at 48 and its mask at 50, 52 bytes in all.
\<close>

definition OP_CODE_MAP_PORT_SET :: u16 where "OP_CODE_MAP_PORT_SET = 100"

definition ERR_UNSUPP_VERSION :: u8 where "ERR_UNSUPP_VERSION = 1"
definition ERR_MALFORMED_REQUEST :: u8 where "ERR_MALFORMED_REQUEST = 3"
definition ERR_UNSUPP_OPCODE :: u8 where "ERR_UNSUPP_OPCODE = 4"
definition ERR_UNSUPP_OPTION :: u8 where "ERR_UNSUPP_OPTION = 5"
definition ERR_CANNOT_PROVIDE_EXTERNAL :: u8 where "ERR_CANNOT_PROVIDE_EXTERNAL = 11"
definition ERR_ADDRESS_MISMATCH :: u8 where "ERR_ADDRESS_MISMATCH = 12"

lemmas pcp_err_defs = ERR_UNSUPP_VERSION_def ERR_MALFORMED_REQUEST_def ERR_UNSUPP_OPCODE_def
  ERR_UNSUPP_OPTION_def ERR_CANNOT_PROVIDE_EXTERNAL_def ERR_ADDRESS_MISMATCH_def

definition ucR :: "u8 list \<Rightarrow> u8 option" where
  "ucR m = map_option (drop_bit 7) (get8 m 1)"

definition ucOpCode :: "u8 list \<Rightarrow> u16 option" where
  "ucOpCode m = map_option (\<lambda>b. ucast (take_bit 7 b)) (get8 m 1)"

definition check_opcode_map_port_set :: "u8 list \<Rightarrow> u8 list \<Rightarrow> OPTIONLIST \<Rightarrow> u8 option" where
  "check_opcode_map_port_set m cliaddr list =
     do { ucOptionCode \<leftarrow> get8 m 44;
          r \<leftarrow> option_list_search_option list (ucast ucOptionCode);
          if r < 0 then Some ERR_UNSUPP_OPTION
          else do {
            a \<leftarrow> getn m 8 16;
            if a \<noteq> cliaddr then Some ERR_ADDRESS_MISMATCH
            else do {
              optlen \<leftarrow> get16 m 46;
              Some (if ucOptionCode = 0 \<and> optlen \<noteq> 4 \<or> length m \<noteq> 52 then ERR_MALFORMED_REQUEST else 0) } } }"

definition checkPcpRequest :: "OPTIONLIST list \<Rightarrow> u8 list \<Rightarrow> u8 list \<Rightarrow> u8 option" where
  "checkPcpRequest phead m cliaddr =
     do { ucVer \<leftarrow> get8 m 0;
          if ucVer \<noteq> 1 then Some ERR_UNSUPP_VERSION
          else do {
            oc \<leftarrow> ucOpCode m;
            (case option_list_search_opcode phead oc of
               None \<Rightarrow> Some ERR_UNSUPP_OPCODE
             | Some plist \<Rightarrow>
                 if oc = OP_CODE_MAP_PORT_SET then check_opcode_map_port_set m cliaddr plist else Some 0) } }"

text \<open>The bytes given to \<open>sendto\<close>; an error may pad the answer to a multiple of four.\<close>

definition handlPCPRespone :: "u16 \<Rightarrow> u32 \<Rightarrow> u8 list \<Rightarrow> u8 \<Rightarrow> u32 \<Rightarrow> u16 \<Rightarrow> u8 list option" where
  "handlPCPRespone pmask up m Result uiExternIP usPort =
     do { b \<leftarrow> get8 m 1;
          m \<leftarrow> put m 1 [or b 0x80];
          m \<leftarrow> put m 3 [Result];
          m \<leftarrow> put m 12 (replicate 12 0);
          if Result \<noteq> 0
          then do {
            m \<leftarrow> put m 4 (be32 ERROR_LIFETIME);
            m \<leftarrow> put m 8 (be32 up);
            m \<leftarrow> put m 48 [0, 0];
            m \<leftarrow> put m 50 [0, 0];
            let n = length m;
            getn m 0 (if n < 1024 then (n + 3) div 4 * 4 else 1024) }
          else do {
            m \<leftarrow> put m 4 (be32 SUCCESS_LIFETIME);
            m \<leftarrow> put m 8 (be32 up);
            m \<leftarrow> put m 38 [255, 255];
            m \<leftarrow> put m 40 (be32 uiExternIP);
            m \<leftarrow> put m 48 (be16 usPort);
            m \<leftarrow> put m 50 (be16 pmask);
            Some m } }"

definition handle_opcode_map_port_set ::
    "nlenv \<Rightarrow> dstate \<times> kstate \<Rightarrow> u8 list \<Rightarrow> ((dstate \<times> kstate) \<times> u8 list) option" where
  "handle_opcode_map_port_set e s m =
     do { uiReqLiftTime \<leftarrow> get32 m 4;
          cli \<leftarrow> getn m 8 16;
          (s, out, result) \<leftarrow>
            (if uiReqLiftTime \<noteq> 0
             then do {
               (s, out, iRet) \<leftarrow> updateTunnelTree e s cli;
               Some (s, out, if iRet \<le> 0 \<and> iRet = MSG_ERR_CANNOT_ALLOC_PORT
                             then ERR_CANNOT_PROVIDE_EXTERNAL else 0) }
             else do {
               (s, out, iRet) \<leftarrow> delTunnel e s cli uiReqLiftTime;
               Some (s, if iRet < 0 then Some (0, 0) else out, 0) });
          let (uiPublicIP, usStartPort) = (case out of Some x \<Rightarrow> x | None \<Rightarrow> (0, 0));
          rsp \<leftarrow> handlPCPRespone (usPortMask (cfgAddrPool (Config (fst s)))) (uptime e) m result uiPublicIP usStartPort;
          Some (s, rsp) }"

text \<open>The answer is \<open>None\<close> when the request is dropped.\<close>

definition handlePcpRequest ::
    "OPTIONLIST list \<Rightarrow> nlenv \<Rightarrow> dstate \<times> kstate \<Rightarrow> u8 list \<Rightarrow> u8 list \<Rightarrow>
     ((dstate \<times> kstate) \<times> u8 list option) option" where
  "handlePcpRequest phead e s cliaddr m =
     do { r \<leftarrow> ucR m;
          if r = 1 \<or> length m < 2 then Some (s, None)
          else do {
            result \<leftarrow> checkPcpRequest phead m cliaddr;
            if result = 0
            then do {
              oc \<leftarrow> ucOpCode m;
              if oc = OP_CODE_MAP_PORT_SET
              then map_option (\<lambda>(s, rsp). (s, Some rsp)) (handle_opcode_map_port_set e s m)
              else Some (s, None) }
            else map_option (\<lambda>rsp. (s, Some rsp))
                   (handlPCPRespone (usPortMask (cfgAddrPool (Config (fst s)))) (uptime e) m result 0 0) } }"

section \<open>Asynchronous messages (\<open>netlink_async.c\<close>)\<close>

text \<open>
  Only the first case changes the state; the others send ICMP errors (\<open>IcmpError\<close>).  A raw buffer (what
  \<open>IPv4LenCheck\<close> sends of a packet) is read as a message whose type is its first four bytes; when they
  happen to be one of the three types, its fields are read from the packet: \<open>None\<close>.
\<close>

definition HandlAsyncMessage_daemon :: "dstate \<Rightarrow> netlink_msg \<Rightarrow> (dstate \<times> int) option" where
  "HandlAsyncMessage_daemon d msg =
     (case msg of
        TunMsg NETLINK_DELETE_NODE pTunMsg \<Rightarrow>
          (case DeallocAddrPort (AddrPoolList d) (uiRange d) (start_port pTunMsg) (public_ip pTunMsg) of
             None \<Rightarrow> Some (d, -1)
           | Some pl \<Rightarrow> Some (d\<lparr>AddrPoolList := pl\<rparr>, 0))
      | RawMsg b \<Rightarrow>
          if length b < 4 \<or> take 4 b \<in> {le32 1, le32 6, le32 9} then None else Some (d, 0)
      | _ \<Rightarrow> if msgdef msg = Some NETLINK_DELETE_NODE then None else Some (d, 0))"

text \<open>What \<open>IPv4LenCheck\<close> sends of an IPv4 packet is none of them.\<close>

lemma raw_ipv4_ignored:
  assumes "get8 b 0 = Some x" "0x45 \<le> x" "4 \<le> length b"
  shows "HandlAsyncMessage_daemon d (RawMsg b) = Some (d, 0)"
proof -
  have "hd (take 4 b) = x" using assms by (cases b) (auto simp: get8_def)
  moreover have "hd (le32 1) = 1" "hd (le32 6) = 6" "hd (le32 9) = 9" by (simp_all add: le32_def)
  ultimately have "take 4 b \<notin> {le32 1, le32 6, le32 9}"
    using assms(2) by (auto dest: arg_cong [where f = hd] simp: word_le_nat_alt)
  then show ?thesis using assms(3) by (simp add: HandlAsyncMessage_daemon_def)
qed

section \<open>One exchange with the kernel module\<close>

lemma reply_to_replies [simp]: "replies k out k1 \<Longrightarrow> reply_to k k1 = Some (snd out)"
  by (simp add: replies_def reply_to_def)

text \<open>The messages on the asynchronous socket, oldest first.\<close>

definition async_msgs :: "kstate \<Rightarrow> netlink_msg list" where
  "async_msgs k = map snd (filter (\<lambda>(ch, m). ch = NL_ASYNC) (nl_sent k))"

lemma replies_async [simp]: "replies k out k1 \<Longrightarrow> async_msgs k1 = async_msgs k"
  by (simp add: replies_def async_msgs_def)

lemma replies_users: "replies k out k1 \<Longrightarrow> tun_inv k1 \<and> users k1 = fst out \<and> GlobalCtx k1 = GlobalCtx k"
  by (simp add: replies_def)

lemma send_detect:
  assumes "tun_inv k" "snd_ok e i" "m = \<lparr>ucResult = 0, cli_addr = a, lefttime = l\<rparr>"
  obtains k1 where "SendMessage e i k (ConstructNetlinkMsg NETLINK_DETECT_MSG a l) = Some (k1, 0)"
    "replies k (spec_detect (users k) m) k1"
  using handle_detect_ok [OF assms(1), of m] assms(2,3)
  by (auto simp: SendMessage_def nl_data_ready_def HandlMessage_def ConstructNetlinkMsg_def)

lemma send_delete:
  assumes "tun_inv k" "snd_ok e i" "m = \<lparr>ucResult = 0, cli_addr = a, lefttime = l\<rparr>"
  obtains k1 where "SendMessage e i k (ConstructNetlinkMsg NETLINK_DELETE_NODE a l) = Some (k1, 0)"
    "replies k (spec_delete (users k) m) k1"
  using handle_delete_ok [OF assms(1), of m] assms(2,3)
  by (auto simp: SendMessage_def nl_data_ready_def HandlMessage_def ConstructNetlinkMsg_def)

definition refuses :: "(kstate \<Rightarrow> addr option) \<Rightarrow> kstate \<Rightarrow> NETLINK_MSG_TUNCONFIG \<Rightarrow> bool" where
  "refuses kmalloc k m \<longleftrightarrow> kmalloc k = None \<or> ports k (public_ip m, start_port m) \<noteq> None \<or> tsize (tree4 k) = MAXBPSIZE"

lemma tunconfig_eta [simp]:
  "\<lparr>user_addr = user_addr m, public_ip = public_ip m, start_port = start_port m, end_port = end_port m,
    tun_lefttime = tun_lefttime m\<rparr> = m"
  by simp

lemma send_alloc:
  assumes "tun_inv k" "kmalloc_ok (kmem e)" "snd_ok e i" "users k (user_addr m) = None \<or> refuses (kmem e) k m"
  obtains k1 where "SendMessage e i k (ConstructAllocMsg (user_addr m) (public_ip m) (start_port m) (end_port m)
      (tun_lefttime m)) = Some (k1, 0)" "replies k (spec_alloc (refuses (kmem e) k m) (users k) m) k1"
  using handle_alloc_ok [OF assms(1,2,4) refuses_def] assms(3)
  by (auto simp: SendMessage_def nl_data_ready_def HandlMessage_def ConstructAllocMsg_def)

section \<open>The pool and the table\<close>

text \<open>
  A grant as it is remembered: by start port and address.  \<open>agree\<close>: the table's tunnels and the
  addresses still to be given back (\<open>P\<close>) hold grants of the pool, each its own.
\<close>

definition grant_at :: "u32 \<Rightarrow> u16 \<times> u32 \<Rightarrow> u16 \<times> u16 \<times> u32" where
  "grant_at r = (\<lambda>(s, a). (s, s + word_of_nat (unat r * 1024 - 1), a))"

definition table_keys :: "kstate \<Rightarrow> (u16 \<times> u32) set" where
  "table_keys k = (\<lambda>t. (usStartPort t, uiExtIP t)) ` ran (users k)"

abbreviation "pool_holds r \<equiv> holding (pool_inv r) (used_blocks r) (grant_blocks r) (grant_valid r)"

definition agree :: "u32 \<Rightarrow> dstate \<Rightarrow> kstate \<Rightarrow> (u16 \<times> u32) list \<Rightarrow> bool" where
  "agree r d k P \<longleftrightarrow> tun_inv k \<and> uiRange d = r \<and> distinct P \<and> set P \<inter> table_keys k = {}
     \<and> pool_holds r (AddrPoolList d) (grant_at r ` (table_keys k \<union> set P))
     \<and> (\<forall>t\<in>ran (users k). grant_at r (usStartPort t, uiExtIP t) = (usStartPort t, usEndPort t, uiExtIP t))"

lemma grant_at_inj [simp]: "grant_at r x = grant_at r y \<longleftrightarrow> x = y"
  by (cases x; cases y) (auto simp: grant_at_def)

lemma grant_at_image [simp]: "grant_at r x \<in> grant_at r ` A \<longleftrightarrow> x \<in> A"
  by auto

lemma table_keys_iff: "(p, a) \<in> table_keys k \<longleftrightarrow> (\<exists>c t. users k c = Some t \<and> usStartPort t = p \<and> uiExtIP t = a)"
  by (auto simp: table_keys_def ran_def)

lemma table_keys_ports: "tun_inv k \<Longrightarrow> (p, a) \<in> table_keys k \<longleftrightarrow> ports k (a, p) \<noteq> None"
  using ports_users [of k a p] users_addr [of k] by (auto simp: table_keys_iff)

lemma table_size: "tun_inv k \<Longrightarrow> tsize (tree4 k) = int (card (dom (users k)))"
proof -
  assume inv: "tun_inv k"
  note I = tun_invD [OF inv]
  have "dom (users k) = fst ` set (header (tree6 k))"
  proof (intro set_eqI iffI)
    fix a assume "a \<in> dom (users k)"
    then show "a \<in> fst ` set (header (tree6 k))"
      by (force simp: users_Some_iff [OF inv] KEY_V6_def dom_def)
  next
    fix a assume "a \<in> fst ` set (header (tree6 k))"
    then obtain p where p: "(a, p) \<in> set (header (tree6 k))" by auto
    then obtain t where "tun_mem k p = Some t" using I(4) by blast
    then show "a \<in> dom (users k)" using p by (auto simp: users_Some_iff [OF inv] KEY_V6_def dom_def)
  qed
  moreover have "card (fst ` set (header (tree6 k))) = length (header (tree6 k))"
    using bp.distinct_keys [OF I(2)] distinct_card [of "map fst (header (tree6 k))"] by simp
  moreover have "tsize (tree6 k) = int (length (header (tree6 k)))" using I(2) by (simp add: bp_inv_def)
  ultimately show ?thesis using tree_sizes(1) [OF inv] by simp
qed

text \<open>Two clients have different keys, and the life time of a tunnel does not matter.\<close>

lemma ran_upd: "ran (U(c \<mapsto> u)) = insert u (ran (U(c := None)))"
  using ran_map_upd [of "U(c := None)" c u] by simp

lemma ran_split: "U c = Some t \<Longrightarrow> ran U = insert t (ran (U(c := None)))"
  using ran_upd [of U c t] by (simp add: fun_upd_idem)

lemma same_key_same_tunnel:
  assumes "tun_inv k" "users k c = Some t" "users k c' = Some t'"
    "usStartPort t' = usStartPort t" "uiExtIP t' = uiExtIP t"
  shows "c' = c"
proof -
  have u: "ucCltIPv6 t = c" "ucCltIPv6 t' = c'" using users_addr [OF assms(1)] assms(2,3) by blast+
  have "ports k (uiExtIP t, usStartPort t) = Some t" "ports k (uiExtIP t, usStartPort t) = Some t'"
    using assms u by (simp_all add: ports_users [OF assms(1)])
  then show ?thesis using u by simp
qed

lemma table_keys_remove:
  assumes "tun_inv k" "users k c = Some t" "users k' = (users k)(c := None)"
  shows "table_keys k' = table_keys k - {(usStartPort t, uiExtIP t)}"
proof -
  let ?key = "\<lambda>t. (usStartPort t, uiExtIP t)"
  have "?key t \<notin> ?key ` ran ((users k)(c := None))"
  proof
    assume "?key t \<in> ?key ` ran ((users k)(c := None))"
    then obtain c' t' where "c' \<noteq> c" "users k c' = Some t'" "usStartPort t' = usStartPort t" "uiExtIP t' = uiExtIP t"
      by (fastforce simp: ran_def split: if_splits)
    then show False using same_key_same_tunnel [OF assms(1,2)] by blast
  qed
  then show ?thesis using ran_split [of "users k", OF assms(2)] assms(3) by (simp add: table_keys_def)
qed

lemma agree_renew:
  assumes "agree r d k P" "users k c = Some t" "tun_inv k'" "users k' = (users k)(c \<mapsto> t\<lparr>ulLiveTime := l\<rparr>)"
  shows "agree r d k' P"
proof -
  have "table_keys k' = table_keys k"
    using ran_split [of "users k", OF assms(2)] assms(4) by (simp add: table_keys_def ran_upd)
  then show ?thesis
    using assms(1,3,4) ran_split [of "users k", OF assms(2)] by (simp add: agree_def ran_upd)
qed

lemma agree_same: "agree r d k P \<Longrightarrow> tun_inv k' \<Longrightarrow> users k' = users k \<Longrightarrow> agree r d k' P"
  by (simp add: agree_def table_keys_def)

text \<open>A lost grant is never given out again: the pool may hold more than the table knows.\<close>

lemma agree_pool:
  assumes "agree r d k P" "pool_holds r pl G" "grant_at r ` (table_keys k \<union> set P) \<subseteq> G"
  shows "agree r (d\<lparr>AddrPoolList := pl\<rparr>) k P"
  using assms pool.holds_subset [OF assms(2,3)] by (simp add: agree_def uiRange_def)

section \<open>Requests keep pool and table in agreement\<close>

lemma send_detect_none:
  assumes "tun_inv k" "users k a = None" "SendMessage e i k (ConstructNetlinkMsg NETLINK_DETECT_MSG a l) = Some (k1, 0)"
  shows "tun_mem k1 = tun_mem k"
proof (rule lookup_v6_cases [OF assms(1), of a])
  assume "LookupTunnel_v6 k (KEY_V6 a) = Some None"
  then show ?thesis
    using assms(3) by (auto simp: SendMessage_def nl_data_ready_def HandlMessage_def ConstructNetlinkMsg_def
        handle_detect_def send_defs split: if_splits)
next
  fix p t assume "users k a = Some t"
  then show ?thesis using assms(2) by simp
qed

lemma detect_stage:
  assumes "agree r d k P" "snd_ok e i"
  obtains k1 where "SendMessage e i k (ConstructNetlinkMsg NETLINK_DETECT_MSG a l) = Some (k1, 0)"
    "agree r d k1 P" "async_msgs k1 = async_msgs k" "GlobalCtx k1 = GlobalCtx k" "tun_inv k1"
    "\<forall>b. b \<noteq> a \<longrightarrow> users k1 b = users k b"
    "users k a = None \<Longrightarrow> users k1 = users k \<and> tun_mem k1 = tun_mem k \<and> reply_to k k1 = Some (ConstructIntMsg a NETLINK_ALLOC_ADDR 0 l)"
    "\<And>t. users k a = Some t \<Longrightarrow> users k1 = (users k)(a \<mapsto> t\<lparr>ulLiveTime := l\<rparr>) \<and>
       reply_to k k1 = Some (ConstructTunMsg a NETLINK_UPDATE_MSG (uiExtIP t) (usStartPort t) (usEndPort t))"
proof -
  have inv: "tun_inv k" using assms(1) by (simp add: agree_def)
  let ?m = "\<lparr>ucResult = 0, cli_addr = a, lefttime = l\<rparr>"
  obtain k1 where k1: "SendMessage e i k (ConstructNetlinkMsg NETLINK_DETECT_MSG a l) = Some (k1, 0)"
    "replies k (spec_detect (users k) ?m) k1"
    by (rule send_detect [OF inv assms(2) refl])
  note u = replies_users [OF k1(2)]
  have "agree r d k1 P"
  proof (cases "users k a")
    case None
    then show ?thesis using u agree_same [OF assms(1)] by (simp add: spec_detect_def)
  next
    case (Some t)
    then show ?thesis using u agree_renew [OF assms(1) Some] by (simp add: spec_detect_def)
  qed
  moreover have "\<forall>b. b \<noteq> a \<longrightarrow> users k1 b = users k b"
    using u by (cases "users k a") (simp_all add: spec_detect_def)
  ultimately show thesis
    using u k1 that [of k1] send_detect_none [OF inv _ k1(1)] by (auto simp: spec_detect_def)
qed

lemma agree_add:
  assumes "agree r d k P" "g = grant_at r (start_port c, public_ip c)" "end_port c = fst (snd g)"
    "pool_holds r (AddrPoolList d) (insert g (grant_at r ` (table_keys k \<union> set P)))"
    "g \<notin> grant_at r ` (table_keys k \<union> set P)" "users k (user_addr c) = None"
    "tun_inv k'" "users k' = (users k)(user_addr c \<mapsto> new_tunnel c)"
  shows "agree r d k' P"
proof -
  have f: "(start_port c, public_ip c) \<notin> table_keys k \<union> set P" using assms(2,5) by auto
  have k': "table_keys k' = insert (start_port c, public_ip c) (table_keys k)"
    using assms(6,8) by (simp add: table_keys_def ran_map_upd new_tunnel_def)
  have e: "grant_at r (start_port c, public_ip c) = (start_port c, end_port c, public_ip c)"
    using assms(2,3) by (simp add: grant_at_def)
  show ?thesis
    using assms(1,4,7) f k' e unfolding agree_def assms(2) assms(8)
    by (auto simp: ran_map_upd [of "users k", OF assms(6)] new_tunnel_def insert_commute)
qed

lemma alloc_stage:
  assumes "agree r d k P" "kmalloc_ok (kmem e)" "snd_ok e i"
    and fresh: "users k (user_addr c) = None \<longrightarrow>
      grant_at r (start_port c, public_ip c) = (start_port c, end_port c, public_ip c)
      \<and> (start_port c, public_ip c) \<notin> table_keys k \<union> set P
      \<and> pool_holds r (AddrPoolList d) (grant_at r ` (insert (start_port c, public_ip c) (table_keys k \<union> set P)))"
    and old: "users k (user_addr c) \<noteq> None \<longrightarrow> (start_port c, public_ip c) \<in> table_keys k"
  obtains k2 where "SendMessage e i k (ConstructAllocMsg (user_addr c) (public_ip c) (start_port c) (end_port c)
      (tun_lefttime c)) = Some (k2, 0)"
    "agree r d k2 P" "async_msgs k2 = async_msgs k" "GlobalCtx k2 = GlobalCtx k"
    "reply_to k k2 = Some (ConstructIntMsg (user_addr c) NETLINK_RESULT (if refuses (kmem e) k c then 1 else 0) (tun_lefttime c))"
    "users k2 = (if refuses (kmem e) k c then users k else (users k)(user_addr c \<mapsto> new_tunnel c))"
proof -
  have inv: "tun_inv k" using assms(1) by (simp add: agree_def)
  have u: "users k (user_addr c) = None \<or> refuses (kmem e) k c"
    using old table_keys_ports [OF inv] by (auto simp: refuses_def)
  obtain k2 where k2: "SendMessage e i k (ConstructAllocMsg (user_addr c) (public_ip c) (start_port c) (end_port c)
      (tun_lefttime c)) = Some (k2, 0)" "replies k (spec_alloc (refuses (kmem e) k c) (users k) c) k2"
    by (rule send_alloc [OF inv assms(2,3) u])
  note v = replies_users [OF k2(2)]
  have us: "users k2 = (if refuses (kmem e) k c then users k else (users k)(user_addr c \<mapsto> new_tunnel c))"
    using v by (simp add: spec_alloc_def)
  have "agree r d k2 P"
  proof (cases "refuses (kmem e) k c")
    case True
    then show ?thesis using v us agree_same [OF assms(1)] by simp
  next
    case False
    then have n: "users k (user_addr c) = None" using u by simp
    show ?thesis
      by (rule agree_add [OF assms(1), of "(start_port c, end_port c, public_ip c)" c])
        (use fresh n v us False in \<open>auto simp: image_iff\<close>)
  qed
  then show thesis using that [OF k2(1)] us v k2(2) by (simp add: spec_alloc_def)
qed

text \<open>What a request in the name of the client \<open>a\<close> keeps, whatever it meets.\<close>

definition kept :: "u32 \<Rightarrow> u8 list \<Rightarrow> kstate \<Rightarrow> (u16 \<times> u32) list \<Rightarrow> dstate \<Rightarrow> dstate \<times> kstate \<Rightarrow> bool" where
  "kept r a k P d = (\<lambda>(d', k'). agree r d' k' P \<and> (\<forall>b. b \<noteq> a \<longrightarrow> users k' b = users k b) \<and> async_msgs k' = async_msgs k \<and> GlobalCtx k' = GlobalCtx k
     \<and> Config d' = Config d)"

lemma update_tail:
  assumes "agree r d k P" "kmalloc_ok (kmem e)"
    and "users k (user_addr c) = None \<longrightarrow>
      grant_at r (start_port c, public_ip c) = (start_port c, end_port c, public_ip c)
      \<and> (start_port c, public_ip c) \<notin> table_keys k \<union> set P
      \<and> pool_holds r (AddrPoolList d) (grant_at r ` (insert (start_port c, public_ip c) (table_keys k \<union> set P)))"
    and "users k (user_addr c) \<noteq> None \<longrightarrow> (start_port c, public_ip c) \<in> table_keys k"
  shows "\<exists>k2 out ret. send_tunnel e (d, k) c = Some ((d, k2), out, ret)
    \<and> kept r (user_addr c) k P d (d, k2)
    \<and> (snd_ok e 1 \<and> rcv_ok e 1 \<longrightarrow> out = Some (public_ip c, start_port c) \<and> ret = MSG_ERR_SUCCESS
         \<and> users k2 = (if refuses (kmem e) k c then users k else (users k)(user_addr c \<mapsto> new_tunnel c)))"
proof (cases "snd_ok e 1")
  case False
  then show ?thesis using assms(1) by (simp add: send_tunnel_def SendMessage_def kept_def)
next
  case True
  obtain k2 where k2: "SendMessage e 1 k (ConstructAllocMsg (user_addr c) (public_ip c) (start_port c) (end_port c)
      (tun_lefttime c)) = Some (k2, 0)"
    "agree r d k2 P" "async_msgs k2 = async_msgs k" "GlobalCtx k2 = GlobalCtx k"
    "reply_to k k2 = Some (ConstructIntMsg (user_addr c) NETLINK_RESULT (if refuses (kmem e) k c then 1 else 0) (tun_lefttime c))"
    "users k2 = (if refuses (kmem e) k c then users k else (users k)(user_addr c \<mapsto> new_tunnel c))"
    by (rule alloc_stage [OF assms(1,2) True assms(3,4)])
  have h: "HandlMessage_daemon d (ConstructIntMsg (user_addr c) NETLINK_RESULT (if refuses (kmem e) k c then 1 else 0)
      (tun_lefttime c)) NullContent = Some (d, NullContent, MSG_ERR_SUCCESS)"
    by (simp add: HandlMessage_daemon_def ConstructIntMsg_def)
  show ?thesis
    using k2 h by (cases "rcv_ok e 1") (simp_all add: send_tunnel_def kept_def)
qed

lemma update_new:
  assumes "agree r d k P" "kmalloc_ok (kmem e)" "meanwhile e = Some" "users k a = None"
    "AllocAddrPort (AddrPoolList d) r = Some (pl, g)"
  shows "\<exists>d' k' out ret. updateTunnelTree e (d, k) a = Some ((d', k'), out, ret) \<and> kept r a k P d (d', k')
    \<and> (sock_ok e \<and> snd_ok e 0 \<and> rcv_ok e 0 \<longrightarrow>
        d' = d\<lparr>AddrPoolList := pl\<rparr>
        \<and> (case g of None \<Rightarrow> out = None \<and> ret = MSG_ERR_CANNOT_ALLOC_PORT \<and> users k' = users k
           | Some (s, en, ip) \<Rightarrow> snd_ok e 1 \<and> rcv_ok e 1 \<longrightarrow> out = Some (ip, s) \<and> ret = MSG_ERR_SUCCESS
              \<and> (\<exists>k1 c. c = \<lparr>user_addr = a, public_ip = ip, start_port = s, end_port = en, tun_lefttime = SUCCESS_LIFETIME\<rparr>
                   \<and> users k1 = users k \<and> tun_inv k1 \<and> tun_mem k1 = tun_mem k
                   \<and> users k' = (if refuses (kmem e) k1 c then users k else (users k)(a \<mapsto> new_tunnel c)))))"
proof -
  note A = assms(1) [unfolded agree_def]
  show ?thesis
  proof (cases "sock_ok e \<and> snd_ok e 0 \<and> rcv_ok e 0")
    case False
    show ?thesis
    proof (cases "sock_ok e \<and> snd_ok e 0")
      case False
      then show ?thesis using assms(1) by (auto simp: updateTunnelTree_def SendMessage_def kept_def)
    next
      case True
      then have s: "snd_ok e 0" by simp
      obtain k1 where k1: "SendMessage e 0 k (ConstructNetlinkMsg NETLINK_DETECT_MSG a SUCCESS_LIFETIME) = Some (k1, 0)"
        "agree r d k1 P" "async_msgs k1 = async_msgs k" "GlobalCtx k1 = GlobalCtx k" "tun_inv k1"
        "\<forall>b. b \<noteq> a \<longrightarrow> users k1 b = users k b"
        by (rule detect_stage [OF assms(1) s])
      then show ?thesis using True False by (simp add: updateTunnelTree_def kept_def)
    qed
  next
    case True
    then have s: "snd_ok e 0" by simp
    obtain k1 where k1: "SendMessage e 0 k (ConstructNetlinkMsg NETLINK_DETECT_MSG a SUCCESS_LIFETIME) = Some (k1, 0)"
      "agree r d k1 P" "async_msgs k1 = async_msgs k" "GlobalCtx k1 = GlobalCtx k" "tun_inv k1"
      "users k1 = users k \<and> tun_mem k1 = tun_mem k \<and> reply_to k k1 = Some (ConstructIntMsg a NETLINK_ALLOC_ADDR 0 SUCCESS_LIFETIME)"
      by (rule detect_stage [OF assms(1) s]) (use assms(4) in blast)
    have r: "uiRange d = r" using A by simp
    let ?G = "grant_at r ` (table_keys k1 \<union> set P)" and ?d = "d\<lparr>AddrPoolList := pl\<rparr>"
    have H: "pool_holds r (AddrPoolList d) ?G" using k1(2) by (simp add: agree_def)
    show ?thesis
    proof (cases g)
      case None
      have "pool_holds r pl ?G" using pool.alloc_refusal [OF H] assms(5) None by simp
      then have "agree r ?d k1 P" using agree_pool [OF k1(2)] by blast
      moreover have "HandlMessage_daemon d (ConstructIntMsg a NETLINK_ALLOC_ADDR 0 SUCCESS_LIFETIME) (TunContent (junk_tun e))
          = Some (?d, TunContent (junk_tun e), MSG_ERR_CANNOT_ALLOC_PORT)"
        using None assms(5) r by (simp add: HandlMessage_daemon_def ConstructIntMsg_def)
      ultimately show ?thesis
        using True k1 None by (simp add: updateTunnelTree_def kept_def msg_err_defs)
    next
      case (Some x)
      obtain s en ip where x: "x = (s, en, ip)" by (cases x)
      let ?c = "(junk_tun e)\<lparr>start_port := s, end_port := en, public_ip := ip, tun_lefttime := SUCCESS_LIFETIME, user_addr := a\<rparr>"
      have c: "?c = \<lparr>user_addr = a, public_ip = ip, start_port = s, end_port = en, tun_lefttime = SUCCESS_LIFETIME\<rparr>"
        by (cases "junk_tun e") simp
      have h: "HandlMessage_daemon d (ConstructIntMsg a NETLINK_ALLOC_ADDR 0 SUCCESS_LIFETIME) (TunContent (junk_tun e))
          = Some (?d, TunContent ?c, MSG_ERR_SUCCESS)"
        using Some x assms(5) r by (simp add: HandlMessage_daemon_def ConstructIntMsg_def)
      have fr: "x \<notin> ?G \<and> pool_holds r pl (insert x ?G)"
        using pool.alloc_fresh [OF H] assms(5) Some by simp
      have "pool_inv r (AddrPoolList d)" using H by (simp add: holding_def)
      then have "grant_valid r x" using pool.alloc_some assms(5) Some by blast
      then have gx: "grant_at r (s, ip) = x"
        by (auto simp: grant_valid_def grant_of_def grant_at_def x)
      have nin: "(s, ip) \<notin> table_keys k1 \<union> set P" using fr gx grant_at_image by metis
      have ag: "agree r ?d k1 P" using fr agree_pool [OF k1(2)] by blast
      have fresh: "users k1 (user_addr ?c) = None \<longrightarrow>
          grant_at r (start_port ?c, public_ip ?c) = (start_port ?c, end_port ?c, public_ip ?c)
          \<and> (start_port ?c, public_ip ?c) \<notin> table_keys k1 \<union> set P
          \<and> pool_holds r (AddrPoolList ?d) (grant_at r ` (insert (start_port ?c, public_ip ?c) (table_keys k1 \<union> set P)))"
        using fr nin gx x by simp
      have old: "users k1 (user_addr ?c) \<noteq> None \<longrightarrow> (start_port ?c, public_ip ?c) \<in> table_keys k1"
        using k1(6) assms(4) by simp
      from update_tail [OF ag assms(2) fresh old] show ?thesis
        using True k1 h Some x assms(3) by (auto simp: updateTunnelTree_def kept_def c)
    qed
  qed
qed

lemma update_old:
  assumes "agree r d k P" "kmalloc_ok (kmem e)" "meanwhile e = Some" "users k a = Some t"
  shows "\<exists>k' out ret. updateTunnelTree e (d, k) a = Some ((d, k'), out, ret) \<and> kept r a k P d (d, k')
    \<and> (sock_ok e \<and> snd_ok e 0 \<and> rcv_ok e 0 \<and> snd_ok e 1 \<and> rcv_ok e 1 \<longrightarrow>
        out = Some (uiExtIP t, usStartPort t) \<and> ret = MSG_ERR_SUCCESS
        \<and> users k' = (users k)(a \<mapsto> t\<lparr>ulLiveTime := SUCCESS_LIFETIME\<rparr>))"
proof (cases "sock_ok e \<and> snd_ok e 0")
  case False
  then show ?thesis using assms(1) by (auto simp: updateTunnelTree_def SendMessage_def kept_def)
next
  case True
  then have s: "snd_ok e 0" by simp
  obtain k1 where k1: "SendMessage e 0 k (ConstructNetlinkMsg NETLINK_DETECT_MSG a SUCCESS_LIFETIME) = Some (k1, 0)"
    "agree r d k1 P" "async_msgs k1 = async_msgs k" "GlobalCtx k1 = GlobalCtx k" "tun_inv k1"
    "users k1 = (users k)(a \<mapsto> t\<lparr>ulLiveTime := SUCCESS_LIFETIME\<rparr>)
       \<and> reply_to k k1 = Some (ConstructTunMsg a NETLINK_UPDATE_MSG (uiExtIP t) (usStartPort t) (usEndPort t))"
    by (rule detect_stage [OF assms(1) s]) (use assms(4) in blast)
  let ?c = "\<lparr>user_addr = a, public_ip = uiExtIP t, start_port = usStartPort t, end_port = usEndPort t, tun_lefttime = 0\<rparr>"
  have h: "HandlMessage_daemon d (ConstructTunMsg a NETLINK_UPDATE_MSG (uiExtIP t) (usStartPort t) (usEndPort t))
      (TunContent (junk_tun e)) = Some (d, TunContent ?c, MSG_ERR_SUCCESS)"
    by (simp add: HandlMessage_daemon_def ConstructTunMsg_def)
  have u: "users k1 a = Some (t\<lparr>ulLiveTime := SUCCESS_LIFETIME\<rparr>)" using k1(6) by simp
  then have key: "(usStartPort t, uiExtIP t) \<in> table_keys k1" by (force simp: table_keys_iff)
  have f: "users k1 (user_addr ?c) = None \<longrightarrow>
          grant_at r (start_port ?c, public_ip ?c) = (start_port ?c, end_port ?c, public_ip ?c)
          \<and> (start_port ?c, public_ip ?c) \<notin> table_keys k1 \<union> set P
          \<and> pool_holds r (AddrPoolList d) (grant_at r ` (insert (start_port ?c, public_ip ?c) (table_keys k1 \<union> set P)))"
    "users k1 (user_addr ?c) \<noteq> None \<longrightarrow> (start_port ?c, public_ip ?c) \<in> table_keys k1"
    using u key by simp_all
  have rf: "refuses (kmem e) k1 ?c" using key table_keys_ports [OF k1(5)] by (simp add: refuses_def)
  show ?thesis
  proof (cases "rcv_ok e 0")
    case False
    then show ?thesis using True k1 by (simp add: updateTunnelTree_def kept_def)
  next
    case rc: True
    from update_tail [OF k1(2) assms(2) f] show ?thesis
      using True rc k1 h rf assms(3) by (auto simp: updateTunnelTree_def kept_def)
  qed
qed

lemma updateTunnelTree_kept:
  assumes "agree r d k P" "kmalloc_ok (kmem e)" "meanwhile e = Some"
  shows "\<exists>d' k' out ret. updateTunnelTree e (d, k) a = Some ((d', k'), out, ret) \<and> kept r a k P d (d', k')"
proof (cases "users k a")
  case None
  have "pool_inv r (AddrPoolList d)" using assms(1) by (simp add: agree_def holding_def)
  then obtain pl g where "AllocAddrPort (AddrPoolList d) r = Some (pl, g)" using pool.alloc_ends by blast
  from update_new [OF assms None this] show ?thesis by blast
next
  case (Some t)
  from update_old [OF assms this] show ?thesis by blast
qed

lemma delTunnel_ok:
  assumes "agree r d k P"
  shows "\<exists>d' k' out ret. delTunnel e (d, k) a l = Some ((d', k'), out, ret) \<and> kept r a k P d (d', k')
    \<and> (sock_ok e \<and> snd_ok e 0 \<and> rcv_ok e 0 \<longrightarrow> ret = MSG_ERR_SUCCESS \<and> users k' = (users k)(a := None)
        \<and> (case users k a of
             None \<Rightarrow> d' = d \<and> out = Some (extip (junk_addr e), startport (junk_addr e))
           | Some t \<Rightarrow> out = Some (uiExtIP t, usStartPort t)
               \<and> used_blocks r (AddrPoolList d') = used_blocks r (AddrPoolList d)
                   - grant_blocks r (grant_at r (usStartPort t, uiExtIP t))))"
proof (cases "sock_ok e \<and> snd_ok e 0")
  case False
  then show ?thesis using assms(1) by (auto simp: delTunnel_def SendMessage_def kept_def)
next
  case True
  then have s: "snd_ok e 0" by simp
  note A = assms(1) [unfolded agree_def]
  have inv: "tun_inv k" using A by simp
  let ?m = "\<lparr>ucResult = 0, cli_addr = a, lefttime = l\<rparr>"
  obtain k1 where k1: "SendMessage e 0 k (ConstructNetlinkMsg NETLINK_DELETE_NODE a l) = Some (k1, 0)"
    "replies k (spec_delete (users k) ?m) k1"
    by (rule send_delete [OF inv s refl])
  note u = replies_users [OF k1(2)]
  show ?thesis
  proof (cases "users k a")
    case None
    have "agree r d k1 P" using u None agree_same [OF assms(1)] by (simp add: spec_delete_def)
    moreover have "(users k)(a := None) = users k" using None by (simp add: fun_upd_idem)
    ultimately show ?thesis
      using True k1 u None by (cases "rcv_ok e 0")
        (auto simp: delTunnel_def kept_def spec_delete_def HandlMessage_daemon_def ConstructIntMsg_def)
  next
    case (Some t)
    let ?g = "grant_at r (usStartPort t, uiExtIP t)" and ?G = "grant_at r ` (table_keys k \<union> set P)"
    have us: "users k1 = (users k)(a := None)" using u Some by (simp add: spec_delete_def)
    have ks: "table_keys k1 = table_keys k - {(usStartPort t, uiExtIP t)}" by (rule table_keys_remove [OF inv Some us])
    have key: "(usStartPort t, uiExtIP t) \<in> table_keys k" using Some by (force simp: table_keys_iff)
    have ran: "ran (users k1) \<subseteq> ran (users k)" using us by (auto simp: ran_def)
    have ag: "agree r d k1 P"
      using A u us ks ran pool.holds_subset [of r "AddrPoolList d" ?G "grant_at r ` (table_keys k1 \<union> set P)"]
      by (auto simp: agree_def)
    have g: "?g \<in> ?G" using key by simp
    obtain pl where pl: "give_back r (AddrPoolList d) ?g = Some pl" "pool_holds r pl (?G - {?g})"
      using pool.release_held [of r "AddrPoolList d" ?G, OF _ g] A by blast
    have ub: "used_blocks r pl = used_blocks r (AddrPoolList d) - grant_blocks r ?g"
    proof -
      have "pool_inv r (AddrPoolList d)" "grant_valid r ?g" "grant_blocks r ?g \<subseteq> used_blocks r (AddrPoolList d)"
        using A g unfolding holding_def by blast+
      then show ?thesis using pl(1) pool.release_ok by fastforce
    qed
    have dl: "DeallocAddrPort (AddrPoolList d) (uiRange d) (usStartPort t) (uiExtIP t) = Some pl"
      using pl(1) A by (simp add: give_back_def grant_at_def)
    have np: "(usStartPort t, uiExtIP t) \<notin> set P" using A key by blast
    have "grant_at r ` (table_keys k1 \<union> set P) \<subseteq> ?G - {?g}"
    proof (rule image_subsetI)
      fix x assume "x \<in> table_keys k1 \<union> set P"
      then have "x \<in> table_keys k \<union> set P" "x \<noteq> (usStartPort t, uiExtIP t)" using ks np by blast+
      then show "grant_at r x \<in> ?G - {?g}" by simp
    qed
    then have ag': "agree r (d\<lparr>AddrPoolList := pl\<rparr>) k1 P" using agree_pool [OF ag pl(2)] by simp
    show ?thesis
      using True k1 Some dl ag ag' us u ub by (cases "rcv_ok e 0")
        (simp_all add: delTunnel_def kept_def spec_delete_def HandlMessage_daemon_def ConstructTunMsg_def Let_def)
  qed
qed

lemma handlePcpRequest_kept:
  assumes "agree r d k P" "kmalloc_ok (kmem e)" "meanwhile e = Some"
    "handlePcpRequest phead e (d, k) src m = Some ((d', k'), rsp)"
  shows "kept r src k P d (d', k') \<and> (getn m 8 16 \<noteq> Some src \<longrightarrow> d' = d \<and> k' = k)"
proof -
  have same: "kept r src k P d (d, k)" using assms(1) by (simp add: kept_def)
  have u: "kept r a k P d s" if "updateTunnelTree e (d, k) a = Some (s, out, ret)" for s a out ret
    using updateTunnelTree_kept [OF assms(1-3), of a] that by auto
  have x: "kept r a k P d s" if "delTunnel e (d, k) a l = Some (s, out, ret)" for s a l out ret
    using delTunnel_ok [OF assms(1), of e a l] that by auto
  have h: "kept r src k P d s" if "handle_opcode_map_port_set e (d, k) m = Some (s, b)" "getn m 8 16 = Some src" for s b
    using that u x by (auto simp: handle_opcode_map_port_set_def option_simps Let_def split: if_splits option.splits)
  have c: "getn m 8 16 = Some src" if "checkPcpRequest phead m src = Some 0" "ucOpCode m = Some OP_CODE_MAP_PORT_SET"
    using that by (auto simp: checkPcpRequest_def check_opcode_map_port_set_def option_simps pcp_err_defs
        split: if_splits option.splits)
  show ?thesis
    using assms(4) same h c by (auto simp: handlePcpRequest_def option_simps split: if_splits)
qed

section \<open>The timer, packets and asynchronous messages\<close>

definition del_key :: "netlink_msg \<Rightarrow> (u16 \<times> u32) option" where
  "del_key m = (case m of TunMsg NETLINK_DELETE_NODE t \<Rightarrow> Some (start_port t, public_ip t) | _ \<Rightarrow> None)"

definition del_keys :: "netlink_msg list \<Rightarrow> (u16 \<times> u32) list" where
  "del_keys ms = List.map_filter del_key ms"

lemma del_keys_simps [simp]:
  "del_keys [] = []"
  "del_keys (m # ms) = (case del_key m of None \<Rightarrow> del_keys ms | Some x \<Rightarrow> x # del_keys ms)"
  "del_keys (xs @ ys) = del_keys xs @ del_keys ys"
  by (simp_all add: del_keys_def List.map_filter_def split: option.split)

abbreviation tun_key :: "TUNNEL_CTX \<Rightarrow> u16 \<times> u32" where
  "tun_key t \<equiv> (usStartPort t, uiExtIP t)"

lemma distinct_tun_keys:
  assumes "tun_inv k" shows "distinct (map tun_key (tun_list k))"
proof -
  have "map v4key (tun_list k) = map fst (header (tree4 k))"
    using tun_invD(3) [OF assms] by (fastforce simp: tun_list_def)
  moreover have "distinct (map fst (header (tree4 k)))" using bp.distinct_keys [OF tun_invD(1) [OF assms]] .
  ultimately have d: "distinct (map v4key (tun_list k))" by simp
  have "map v4key (tun_list k) = map (\<lambda>(p, a). KEY_V4 a p) (map tun_key (tun_list k))" by (simp add: comp_def)
  then have "distinct (map (\<lambda>(p, a). KEY_V4 a p) (map tun_key (tun_list k)))" using d by (simp only:)
  then show ?thesis by (rule distinct_map [THEN iffD1, THEN conjunct1])
qed

lemma table_keys_list: "tun_inv k \<Longrightarrow> table_keys k = tun_key ` set (tun_list k)"
  using users_addr [of k] by (auto simp: table_keys_def ran_def image_iff tun_list_iff) blast+

lemma expiry_keys:
  "del_keys (map snd (filter (\<lambda>(ch, m). ch = NL_ASYNC) (concat (map (expiry_msg q) ts))))
    = map tun_key (filter (\<lambda>t. age q t = None) ts)"
  by (induction ts) (auto simp: expiry_msg_def age_def del_key_def ConstructTunMsg_def)

lemma fire_timer_agree:
  assumes "agree r d k P" "fire_timer k = Some k'"
  shows "\<exists>ms. async_msgs k' = async_msgs k @ ms \<and> agree r d k' (P @ del_keys ms)"
proof (cases "StorageTimer (GlobalCtx k) = None")
  case True
  then show ?thesis using assms by (intro exI [of _ "[]"]) (simp add: fire_timer_def)
next
  case False
  note A = assms(1) [unfolded agree_def]
  have inv: "tun_inv k" using A by simp
  define q where "q = uiMaxLifeTime (GlobalCtx k) div 4"
  have "\<exists>s'. fire_timer k = Some s' \<and> tun_inv s' \<and> (\<forall>a. users s' a = Option.bind (users k a) (age q))
      \<and> nl_sent s' = nl_sent k @ concat (map (expiry_msg q) (tun_list k))"
    by (rule fire_timer_ok [OF inv False q_def]) auto
  then obtain s' where s: "fire_timer k = Some s'" "tun_inv s'" "\<And>a. users s' a = Option.bind (users k a) (age q)"
    "nl_sent s' = nl_sent k @ concat (map (expiry_msg q) (tun_list k))"
    by auto
  then have k': "tun_inv k'" "\<And>a. users k' a = Option.bind (users k a) (age q)" using assms(2) by simp_all
  define ms where "ms = map snd (filter (\<lambda>(ch, m). ch = NL_ASYNC) (concat (map (expiry_msg q) (tun_list k))))"
  have am: "async_msgs k' = async_msgs k @ ms" using s assms(2) by (simp add: async_msgs_def ms_def)
  let ?old = "filter (\<lambda>t. age q t = None) (tun_list k)"
  have dk: "del_keys ms = map tun_key ?old" by (simp add: ms_def expiry_keys)
  have ak: "tun_key u = tun_key t \<and> usEndPort u = usEndPort t" if "age q t = Some u" for t u
    using that by (auto simp: age_def split: if_splits)
  have rk: "\<exists>t. t \<in> ran (users k) \<and> age q t = Some u" if "u \<in> ran (users k')" for u
    using that k'(2) by (auto simp: ran_def option_simps)
  have rk': "\<exists>u. u \<in> ran (users k') \<and> tun_key u = tun_key t"
    if "t \<in> ran (users k)" "age q t \<noteq> None" for t
    using that k'(2) ak by (fastforce simp: ran_def option_simps)
  have setl: "set (tun_list k) = ran (users k)"
    using users_addr [OF inv] by (auto simp: tun_list_iff [OF inv] ran_def)
  have ks: "table_keys k' = tun_key ` {t \<in> set (tun_list k). age q t \<noteq> None}"
    using rk rk' ak unfolding table_keys_def setl by (auto simp: image_iff) metis+
  have inj: "inj_on tun_key (set (tun_list k))" using distinct_tun_keys [OF inv] by (simp add: distinct_map)
  have un: "table_keys k = table_keys k' \<union> set (del_keys ms)"
    unfolding table_keys_list [OF inv] ks dk set_map set_filter by blast
  have dj: "table_keys k' \<inter> set (del_keys ms) = {}"
  proof -
    let ?A = "{t \<in> set (tun_list k). age q t \<noteq> None}" and ?B = "{t \<in> set (tun_list k). age q t = None}"
    have "?A \<inter> ?B = {}" by auto
    moreover have "tun_key ` (?A \<inter> ?B) = tun_key ` ?A \<inter> tun_key ` ?B"
      by (rule inj_on_image_Int [OF inj]) blast+
    ultimately show ?thesis unfolding ks dk set_map set_filter by simp
  qed
  have dd: "distinct (del_keys ms)"
    unfolding dk using distinct_tun_keys [OF inv] distinct_map_filter by blast
  have e: "\<forall>u\<in>ran (users k'). grant_at r (tun_key u) = (usStartPort u, usEndPort u, uiExtIP u)"
    using A rk ak by (metis prod.inject)
  have "agree r d k' (P @ del_keys ms)"
    using A k'(1) un dj dd e unfolding agree_def by (auto simp: Un_ac)
  then show ?thesis using am by blast
qed

lemma async_agree:
  assumes "agree r d k P" "HandlAsyncMessage_daemon d m = Some (d', ret)" "P = del_keys [m] @ Q"
  shows "agree r d' k Q \<and> Config d' = Config d \<and> (del_key m \<noteq> None \<longrightarrow> ret = 0)"
proof (cases "del_key m")
  case None
  then have "d' = d" using assms(2)
    by (auto simp: HandlAsyncMessage_daemon_def del_key_def split: netlink_msg.splits NETLINK_MSG_DEF.splits if_splits)
  then show ?thesis using assms None by simp
next
  case (Some x)
  then obtain t where t: "m = TunMsg NETLINK_DELETE_NODE t" "x = (start_port t, public_ip t)"
    by (auto simp: del_key_def split: netlink_msg.splits NETLINK_MSG_DEF.splits)
  note A = assms(1) [unfolded agree_def]
  have P: "P = x # Q" using assms(3) Some by simp
  let ?G = "grant_at r ` (table_keys k \<union> set P)"
  have g: "grant_at r x \<in> ?G" using P by simp
  obtain pl where pl: "give_back r (AddrPoolList d) (grant_at r x) = Some pl" "pool_holds r pl (?G - {grant_at r x})"
    using pool.release_held [of r "AddrPoolList d" ?G, OF _ g] A by blast
  have "DeallocAddrPort (AddrPoolList d) (uiRange d) (start_port t) (public_ip t) = Some pl"
    using pl(1) A t(2) by (simp add: give_back_def grant_at_def)
  then have d': "d' = d\<lparr>AddrPoolList := pl\<rparr> \<and> ret = 0" using assms(2) t(1) by (simp add: HandlAsyncMessage_daemon_def)
  have nx: "x \<notin> table_keys k \<union> set Q" using A P by auto
  have "pool_holds r pl (grant_at r ` (table_keys k \<union> set Q))"
  proof (rule pool.holds_subset [OF pl(2)], rule image_subsetI)
    fix y assume "y \<in> table_keys k \<union> set Q"
    then have "y \<in> table_keys k \<union> set P" "y \<noteq> x" using nx P by auto
    then show "grant_at r y \<in> ?G - {grant_at r x}" by simp
  qed
  then show ?thesis using A d' P by (simp add: agree_def uiRange_def)
qed

end
