(* ===== verification/World.thy ===== *)
theory World
  imports Daemon
begin

text \<open>
  The carrier's side as a whole: the daemon and the kernel module, the clients' PCP requests, packets,
  timers and the asynchronous messages in between, as steps of one state machine; what it promises
  to the clients, and where it does not keep its promise.
\<close>

section \<open>Packets only report\<close>

definition only_reports :: "kstate \<Rightarrow> kstate \<Rightarrow> bool" where
  "only_reports k k' \<longleftrightarrow> (\<exists>ms. async_msgs k' = async_msgs k @ ms \<and> del_keys ms = [])"

lemma only_reports_refl [simp]: "only_reports k k"
  by (auto simp: only_reports_def intro: exI [of _ "[]"])

lemma async_send [simp]: "async_msgs (send_async_nlmsg m k) = async_msgs k @ [m]"
  by (simp add: async_msgs_def send_defs)

lemma only_reports_send: "del_key m = None \<Longrightarrow> only_reports k (send_async_nlmsg m k)"
  by (auto simp: only_reports_def)

lemma del_key_reports [simp]: "del_key (RawMsg b) = None" "del_key (ConstructCrashPktMsg p) = None"
  by (simp_all add: del_key_def ConstructCrashPktMsg_def Let_def)

lemma stream_hook_reports:
  assumes "stream_hook e st skb = Some (st', v)" shows "only_reports (kst st) (kst st')"
proof -
  have l: "only_reports (kst st) k" if "IPv4LenCheck e (kst st) p = Some (k, r)" for k p r
    using that by (auto simp: IPv4LenCheck_def option_simps only_reports_send split: if_splits)
  have v4: "only_reports (kst st) (kst st1)" if h: "HandleIPv4_skbuf e st skb = Some (st1, r)" for st1 r
  proof -
    obtain k r0 where k: "IPv4LenCheck e (kst st) (skb_data skb) = Some (k, r0)"
      using h by (auto simp: HandleIPv4_skbuf_def Let_def option_simps)
    have "kst st1 = k"
      using h k by (auto simp: HandleIPv4_skbuf_def Let_def option_simps sent_def split: if_splits option.splits)
    then show ?thesis using l [OF k] by simp
  qed
  have v6: "only_reports (kst st) (kst st1)" if "HandleIPv6_skbuf e st skb = Some (st1, r)" for st1 r
  proof -
    have i: "kst st1 = kst st \<or> kst st1 = send_async_nlmsg (ConstructCrashPktMsg (skb_data skb)) (kst st)"
      if "handle_ipinip e st skb = Some (st1, r)"
      using that by (auto simp: handle_ipinip_def SendSkbuf_def Let_def option_simps sent_def split: if_splits option.splits)
    have f: "kst st1 = kst st" if "handle_fragment e st skb = Some (st1, r)"
      using that by (auto simp: handle_fragment_def Let_def option_simps sent_def split: if_splits option.splits)
    have "kst st1 = kst st \<or> kst st1 = send_async_nlmsg (ConstructCrashPktMsg (skb_data skb)) (kst st)"
      using that i f by (auto simp: HandleIPv6_skbuf_def option_simps split: if_splits)
    then show ?thesis using only_reports_send [of "ConstructCrashPktMsg (skb_data skb)" "kst st"] by auto
  qed
  show ?thesis
    using assms v4 v6 by (auto simp: stream_hook_def Handle_skbuf_def option_simps split: if_splits)
qed

section \<open>Steps\<close>

record world =
  dmn :: dstate
  tcs :: tcstate
  fetched :: nat \<comment> \<open>how many asynchronous messages the daemon has taken\<close>

abbreviation krn :: "world \<Rightarrow> kstate" where "krn w \<equiv> kst (tcs w)"

definition set_krn :: "kstate \<Rightarrow> world \<Rightarrow> world" where
  "set_krn k w = w\<lparr>tcs := (tcs w)\<lparr>kst := k\<rparr>\<rparr>"

text \<open>
  The start of the daemon: its pool is built and the kernel module configured.  A step of a client is
  a whole request: requests of different clients do not overlap (\<open>meanwhile\<close> changes nothing).
\<close>

definition boot :: "CONFIG \<Rightarrow> tcstate \<Rightarrow> world option" where
  "boot conf st =
     do { pl \<leftarrow> InitAddrPool (cfgAddrPool conf);
          let (d, msg) = InitTc \<lparr>Config = conf, AddrPoolList = pl\<rparr>;
          k \<leftarrow> async_nl_data_ready (kst st) 256 msg;
          Some \<lparr>dmn = d, tcs = st\<lparr>kst := k\<rparr>, fetched = length (async_msgs k)\<rparr> }"

definition request ::
    "OPTIONLIST list \<Rightarrow> nlenv \<Rightarrow> u8 list \<Rightarrow> u8 list \<Rightarrow> world \<Rightarrow> (world \<times> u8 list option) option" where
  "request phead e src m w =
     do { ((d, k), rsp) \<leftarrow> handlePcpRequest phead e (dmn w, krn w) src m;
          Some (set_krn k (w\<lparr>dmn := d\<rparr>), rsp) }"

inductive world_step :: "OPTIONLIST list \<Rightarrow> world \<Rightarrow> world \<Rightarrow> bool" for phead where
  packet: "stream_hook en (tcs w) skb = Some (st, v) \<Longrightarrow> world_step phead w (w\<lparr>tcs := st\<rparr>)"
| frag_time: "world_step phead w (w\<lparr>tcs := (tcs w)\<lparr>frg := fragtimeouthandle (frg (tcs w))\<rparr>\<rparr>)"
| life_time: "fire_timer (krn w) = Some k \<Longrightarrow> world_step phead w (set_krn k w)"
| pcp: "kmalloc_ok (kmem e) \<Longrightarrow> meanwhile e = Some \<Longrightarrow> request phead e src m w = Some (w', rsp) \<Longrightarrow>
    world_step phead w w'"
| async: "fetched w < length (async_msgs (krn w)) \<Longrightarrow>
    HandlAsyncMessage_daemon (dmn w) (async_msgs (krn w) ! fetched w) = Some (d, ret) \<Longrightarrow>
    world_step phead w (w\<lparr>dmn := d, fetched := fetched w + 1\<rparr>)"

definition pending :: "world \<Rightarrow> (u16 \<times> u32) list" where
  "pending w = del_keys (drop (fetched w) (async_msgs (krn w)))"

definition world_inv :: "u32 \<Rightarrow> world \<Rightarrow> bool" where
  "world_inv r w \<longleftrightarrow> tc_inv (tcs w) \<and> fetched w \<le> length (async_msgs (krn w))
     \<and> agree r (dmn w) (krn w) (pending w)"

lemma tc_inv_kernel:
  "tc_inv st \<Longrightarrow> tun_inv k \<Longrightarrow> GlobalCtx k = GlobalCtx (kst st) \<Longrightarrow> tc_inv (st\<lparr>kst := k\<rparr>)"
  by (simp add: tc_inv_def)

lemma world_step_inv:
  assumes "world_step phead w w'" "world_inv r w"
  shows "world_inv r w'"
proof -
  have W: "tc_inv (tcs w)" "fetched w \<le> length (async_msgs (krn w))" "agree r (dmn w) (krn w) (pending w)"
    using assms(2) by (simp_all add: world_inv_def)
  have ti: "tun_inv (krn w)" "hash_inv (pshashtable (frg (tcs w)))" using W(1) by (simp_all add: tc_inv_def)
  show ?thesis
    using assms(1)
  proof (cases rule: world_step.cases)
    case (packet en skb st v)
    obtain ms where ms: "async_msgs (kst st) = async_msgs (krn w) @ ms" "del_keys ms = []"
      using stream_hook_reports [OF packet(2)] by (auto simp: only_reports_def)
    have s: "same_table (krn w) (kst st)" using stream_hook_same [OF packet(2) ti(2,1)] by blast
    then have "agree r (dmn w) (kst st) (pending w)"
      using agree_same [OF W(3)] same_table_eqs [OF s] ti(1) by simp
    then show ?thesis
      using packet(1) stream_hook_inv [OF W(1) packet(2)] ms W(2) by (simp add: world_inv_def pending_def)
  next
    case frag_time
    then show ?thesis
      using assms(2) tick_inv [OF ti(2)] by (simp add: world_inv_def pending_def tc_inv_def fragtimeouthandle_def)
  next
    case (life_time k)
    obtain ms where ms: "async_msgs k = async_msgs (krn w) @ ms" "agree r (dmn w) k (pending w @ del_keys ms)"
      using fire_timer_agree [OF W(3) life_time(2)] by blast
    have "k_inv k" using fire_timer_inv [OF _ life_time(2)] W(1) by (simp add: tc_inv_k)
    then show ?thesis
      using life_time(1) ms W(1,2) by (simp add: world_inv_def pending_def set_krn_def tc_inv_k)
  next
    case (pcp e src m rsp)
    then obtain d k where dk: "handlePcpRequest phead e (dmn w, krn w) src m = Some ((d, k), rsp)"
      "w' = set_krn k (w\<lparr>dmn := d\<rparr>)"
      by (auto simp: request_def option_simps)
    have "kept r src (krn w) (pending w) (dmn w) (d, k)" using handlePcpRequest_kept [OF W(3) pcp(1,2) dk(1)] by blast
    then show ?thesis
      using dk(2) W tc_inv_kernel [OF W(1), of k]
      by (auto simp: world_inv_def pending_def kept_def set_krn_def agree_def)
  next
    case (async d ret)
    have dr: "drop (fetched w) (async_msgs (krn w))
        = async_msgs (krn w) ! fetched w # drop (fetched w + 1) (async_msgs (krn w))"
      using async(2) by (simp add: Cons_nth_drop_Suc)
    have "pending w = del_keys [async_msgs (krn w) ! fetched w] @ del_keys (drop (fetched w + 1) (async_msgs (krn w)))"
      unfolding pending_def dr by (simp split: option.split)
    then show ?thesis
      using async async_agree [OF W(3) async(3)] W by (simp add: world_inv_def pending_def)
  qed
qed

lemma world_steps_inv:
  assumes "(world_step phead)\<^sup>*\<^sup>* w w'" "world_inv r w" shows "world_inv r w'"
  using assms by (induction rule: rtranclp_induct) (auto intro: world_step_inv)

text \<open>A configuration the pool can be built from, and a kernel module to start on: fresh, or serving.\<close>

definition conf_range :: "CONFIG \<Rightarrow> u32" where
  "conf_range c = ucast (not (usPortMask (cfgAddrPool c)) + 1) div MINI_RANGE_VALUE"

definition conf_ok :: "CONFIG \<Rightarrow> bool" where
  "conf_ok c \<longleftrightarrow> uiStartIp (cfgAddrPool c) \<le> uiEndIp (cfgAddrPool c) \<and> uiEndIp (cfgAddrPool c) \<noteq> 0xffffffff
     \<and> 2 \<le> unat (conf_range c) \<and> unat (conf_range c) \<le> 63"

definition startable :: "tcstate \<Rightarrow> bool" where
  "startable st \<longleftrightarrow> tc_inv st \<and> (uiTunState (GlobalCtx (kst st)) = 1
     \<or> StorageTimer (GlobalCtx (kst st)) = None \<and> users (kst st) = Map.empty)"

lemma boot_ok:
  assumes "conf_ok c" "startable st"
  obtains w where "boot c st = Some w" "world_inv (conf_range c) w"
    "map node_ip (ring (AddrPoolList (dmn w))) = ip_range (uiStartIp (cfgAddrPool c)) (uiEndIp (cfgAddrPool c))"
    "users (krn w) = Map.empty" "uiTunState (GlobalCtx (krn w)) = 1"
proof -
  note C = assms(1) [unfolded conf_ok_def] and S = assms(2) [unfolded startable_def]
  have c: "uiStartIp (cfgAddrPool c) \<le> uiEndIp (cfgAddrPool c)" "uiEndIp (cfgAddrPool c) \<noteq> 0xffffffff"
    "2 \<le> unat (conf_range c)" "unat (conf_range c) \<le> 63" using C by simp_all
  obtain pl where pl: "InitAddrPool (cfgAddrPool c) = Some pl" "pool_inv (conf_range c) pl"
    "map node_ip (ring pl) = ip_range (uiStartIp (cfgAddrPool c)) (uiEndIp (cfgAddrPool c))"
    by (rule InitAddrPool_ok [OF c]) blast
  define d where "d = fst (InitTc \<lparr>Config = c, AddrPoolList = pl\<rparr>)"
  obtain cf where cf: "InitTc \<lparr>Config = c, AddrPoolList = pl\<rparr> = (d, ConfigMsg NETLINK_INIT_CONFIG cf)"
    "cfg_uiTunState cf = 1" by (simp add: InitTc_def Let_def d_def)
  have inv: "tun_inv (kst st)" "uiTunState (GlobalCtx (kst st)) = 1 \<or> StorageTimer (GlobalCtx (kst st)) = None"
    using S by (auto simp: tc_inv_def)
  obtain k where k: "handle_init_config (kst st) cf = Some k" "tun_inv k"
    "users k = (if uiTunState (GlobalCtx (kst st)) = 1 then Map.empty else users (kst st))"
    "GlobalCtx k = (set_config cf (GlobalCtx (kst st)))\<lparr>StorageTimer := Some (cfg_uiMaxLifeTime cf div 4),
       uiTunState := cfg_uiTunState cf\<rparr>" "nl_sent k = nl_sent (kst st)"
    by (rule handle_init_config_ok [OF inv, of cf]) blast
  have u: "users k = Map.empty" using k(3) S by auto
  define w where "w = \<lparr>dmn = d, tcs = st\<lparr>kst := k\<rparr>, fetched = length (async_msgs k)\<rparr>"
  have "boot c st = Some w"
    using pl(1) cf(1) k(1) by (simp add: boot_def w_def async_nl_data_ready_def HandlAsyncMessage_def)
  moreover have "AddrPoolList d = pl" "uiRange d = conf_range c"
    by (simp_all add: d_def InitTc_def Let_def uiRange_def conf_range_def)
  moreover have "tc_inv (st\<lparr>kst := k\<rparr>)" using S k(2,4) by (simp add: tc_inv_def)
  ultimately show thesis
    using that [of w] pl(2,3) k(2,4) u cf(2)
    by (simp add: world_inv_def w_def pending_def agree_def table_keys_def holding_def)
qed

end
