(* ===== verification/Service.thy ===== *)
theory Service
  imports World
begin

text \<open>
  What the carrier's side promises its clients: the answers to their requests, the tunnels
  behind them, ports that are nobody else's; and where it does not keep its promise.
\<close>

section \<open>Answers\<close>

definition overlay :: "u8 list \<Rightarrow> nat \<Rightarrow> u8 list \<Rightarrow> u8 list" where
  "overlay p i b = take i p @ b @ drop (i + length b) p"

lemma put_overlay: "i + length b \<le> length p \<Longrightarrow> put p i b = Some (overlay p i b)"
  by (simp add: put_def overlay_def)

lemma overlay_length [simp]: "i + length b \<le> length p \<Longrightarrow> length (overlay p i b) = length p"
  by (simp add: overlay_def)

lemma overlay_get8:
  "i + length b \<le> length p \<Longrightarrow>
    get8 (overlay p i b) j = (if i \<le> j \<and> j < i + length b then Some (b ! (j - i)) else get8 p j)"
  by (auto simp: get8_def overlay_def nth_append)

lemma get_bytes:
  "get16 p i = do { a \<leftarrow> get8 p i; b \<leftarrow> get8 p (i + 1); Some (word_cat a b) }"
  "get32 p i = do { a \<leftarrow> get8 p i; b \<leftarrow> get8 p (i + 1); c \<leftarrow> get8 p (i + 2); d \<leftarrow> get8 p (i + 3);
     Some (word_cat (word_cat a b :: u16) (word_cat c d :: u16)) }"
  by (auto simp: get8_def get16_def get32_def option_simps)

text \<open>\<open>answer rsp m Result lt ip port mask\<close>: the fields of an answer to the request \<open>m\<close>.\<close>

definition answer :: "u8 list \<Rightarrow> u8 list \<Rightarrow> u8 \<Rightarrow> u32 \<Rightarrow> u16 \<Rightarrow> u16 \<Rightarrow> bool" where
  "answer rsp m Result lt port pmask \<longleftrightarrow> length rsp = length m \<and> get8 rsp 0 = get8 m 0
     \<and> get8 rsp 1 = map_option (\<lambda>b. b OR 0x80) (get8 m 1) \<and> get8 rsp 3 = Some Result \<and> get32 rsp 4 = Some lt
     \<and> get16 rsp 48 = Some port \<and> get16 rsp 50 = Some pmask"

lemma R_bit: "drop_bit 7 (b OR 0x80 :: u8) = 1"
proof (rule bit_word_eqI)
  fix n
  have e: "(0x80 :: u8) = 2 ^ 7" by simp
  show "bit (drop_bit 7 (b OR 0x80)) n = bit (1 :: u8) n"
    unfolding e by (cases n) (auto simp: bit_drop_bit_eq bit_or_iff bit_exp_iff bit_1_iff dest: bit_imp_le_length)
qed

lemma handlPCPRespone_success:
  assumes "length m = 52"
  obtains rsp where "handlPCPRespone pm up m 0 ip port = Some rsp"
    "answer rsp m 0 SUCCESS_LIFETIME port pm" "get32 rsp 40 = Some ip"
proof -
  have "get8 m 1 = Some (m ! 1)" using assms by (simp add: get8_def)
  then have "\<exists>rsp. handlPCPRespone pm up m 0 ip port = Some rsp
      \<and> answer rsp m 0 SUCCESS_LIFETIME port pm \<and> get32 rsp 40 = Some ip"
    using assms R_bit [of "m ! 1"]
    by (simp add: handlPCPRespone_def put_overlay answer_def get_bytes overlay_get8 be16_def be32_def nth_Cons')
  then show thesis using that by blast
qed

section \<open>Requests\<close>

text \<open>
  The reachable worlds; an undisturbed exchange; and a well-formed MAP request of the client \<open>src\<close> for the life
  time \<open>l\<close>, with an option the daemon knows.
\<close>

definition reachable :: "CONFIG \<Rightarrow> tcstate \<Rightarrow> OPTIONLIST list \<Rightarrow> world \<Rightarrow> bool" where
  "reachable c st phead w \<longleftrightarrow> conf_ok c \<and> startable st
     \<and> (\<exists>w0. boot c st = Some w0 \<and> (world_step phead)\<^sup>*\<^sup>* w0 w)"

definition no_faults :: "nlenv \<Rightarrow> bool" where
  "no_faults e \<longleftrightarrow> sock_ok e \<and> snd_ok e 0 \<and> rcv_ok e 0 \<and> snd_ok e 1 \<and> rcv_ok e 1 \<and> meanwhile e = Some
     \<and> kmalloc_ok (kmem e)"

definition map_request :: "OPTIONLIST list \<Rightarrow> u8 list \<Rightarrow> u8 list \<Rightarrow> u32 \<Rightarrow> bool" where
  "map_request phead m src l \<longleftrightarrow> length m = 52 \<and> get8 m 0 = Some 1 \<and> get8 m 1 = Some 100 \<and> get32 m 4 = Some l
     \<and> getn m 8 16 = Some src \<and> get8 m 44 = Some 0 \<and> get16 m 46 = Some 4
     \<and> (\<exists>p. option_list_search_opcode phead 100 = Some p \<and> option_list_search_option p 0 = Some 0)"

lemma reachable_world_inv: "reachable c st phead w \<Longrightarrow> world_inv (conf_range c) w"
proof -
  assume a: "reachable c st phead w"
  then obtain w0 where w0: "boot c st = Some w0" "(world_step phead)\<^sup>*\<^sup>* w0 w" and o: "conf_ok c" "startable st"
    by (auto simp: reachable_def)
  have "world_inv (conf_range c) w0" by (rule boot_ok [OF o]) (use w0(1) in simp)
  then show ?thesis using world_steps_inv [OF w0(2)] by blast
qed

lemma map_request_handled:
  assumes "map_request phead m src l"
  shows "handlePcpRequest phead e s src m
    = map_option (\<lambda>(s, rsp). (s, Some rsp)) (handle_opcode_map_port_set e s m)"
proof -
  note M = assms [unfolded map_request_def]
  obtain p where p: "option_list_search_opcode phead 100 = Some p" "option_list_search_option p 0 = Some 0"
    using M by blast
  have b: "drop_bit 7 (100 :: u8) = 0" "ucast (take_bit 7 (100 :: u8)) = (100 :: u16)" by code_simp+
  have oc: "ucOpCode m = Some OP_CODE_MAP_PORT_SET" "ucR m = Some 0"
    using M b by (simp_all add: ucOpCode_def ucR_def OP_CODE_MAP_PORT_SET_def)
  have "checkPcpRequest phead m src = Some 0"
    using M p oc(1) by (simp add: checkPcpRequest_def check_opcode_map_port_set_def OP_CODE_MAP_PORT_SET_def)
  then show ?thesis using M oc by (simp add: handlePcpRequest_def)
qed

section \<open>Ports of different subscribers\<close>

lemma blocks_ports_disjoint:
  assumes "grant_valid r (s, e, a)" "grant_valid r (s', e', a)"
    "grant_blocks r (s, e, a) \<inter> grant_blocks r (s', e', a) = {}"
  shows "{unat s..unat e} \<inter> {unat s'..unat e'} = {}"
proof -
  obtain v where v: "2 \<le> unat r" "v + unat r < 64" "(s, e, a) = grant_of (unat r) v a"
    using assms(1) by (auto simp: grant_valid_def grant_of_def)
  obtain v' where v': "v' + unat r < 64" "(s', e', a) = grant_of (unat r) v' a"
    using assms(2) by (auto simp: grant_valid_def grant_of_def)
  have s: "unat s = (v + 1) * 1024" "unat s' = (v' + 1) * 1024"
    using v v' by (auto simp: grant_of_def unat_port_of)
  have e: "unat e = unat s + unat r * 1024 - 1" "unat e' = unat s' + unat r * 1024 - 1"
    using grant_valid_ports assms(1,2) by blast+
  have "v + unat r \<le> v' \<or> v' + unat r \<le> v"
  proof (rule ccontr)
    assume n: "\<not> (v + unat r \<le> v' \<or> v' + unat r \<le> v)"
    have "grant_blocks r (s, e, a) = {(a, b) | b. v \<le> b \<and> b < v + unat r}"
      "grant_blocks r (s', e', a) = {(a, b) | b. v' \<le> b \<and> b < v' + unat r}"
      using v v' grant_of_blocks by simp_all
    then have "(a, max v v') \<in> grant_blocks r (s, e, a) \<inter> grant_blocks r (s', e', a)"
      using n v(1) by (simp add: max_def)
    then show False unfolding assms(3) by (rule emptyE)
  qed
  then show ?thesis using s e v(1) by (auto simp: algebra_simps)
qed

lemma subscriber_ports:
  assumes "world_inv r w" "users (krn w) a = Some t" "users (krn w) b = Some u" "a \<noteq> b" "uiExtIP t = uiExtIP u"
  shows "1024 \<le> unat (usStartPort t) \<and> unat (usEndPort t) = unat (usStartPort t) + unat r * 1024 - 1
    \<and> {unat (usStartPort t)..unat (usEndPort t)} \<inter> {unat (usStartPort u)..unat (usEndPort u)} = {}"
proof -
  have A: "agree r (dmn w) (krn w) (pending w)" using assms(1) by (simp add: world_inv_def)
  let ?g = "\<lambda>t. (usStartPort t, usEndPort t, uiExtIP t)"
  let ?G = "grant_at r ` (table_keys (krn w) \<union> set (pending w))"
  have H: "pool_holds r (AddrPoolList (dmn w)) ?G" and inv: "tun_inv (krn w)" using A by (simp_all add: agree_def)
  have g: "?g x = grant_at r (tun_key x) \<and> ?g x \<in> ?G" if "users (krn w) c = Some x" for c x
  proof -
    have "x \<in> ran (users (krn w))" using that by (rule ranI)
    then have "?g x = grant_at r (tun_key x)" "tun_key x \<in> table_keys (krn w)"
      using A by (auto simp: agree_def table_keys_def)
    then show ?thesis by simp
  qed
  have "tun_key t \<noteq> tun_key u" using same_key_same_tunnel [OF inv assms(2,3)] assms(4) by auto
  then have ne: "?g t \<noteq> ?g u" by auto
  have d: "grant_blocks r (?g t) \<inter> grant_blocks r (?g u) = {}" "grant_valid r (?g t)" "grant_valid r (?g u)"
    using g [OF assms(2)] g [OF assms(3)] H ne unfolding holding_def by blast+
  show ?thesis
    using grant_valid_ports [OF d(2)] blocks_ports_disjoint [OF d(2) d(3) [folded assms(5)] d(1) [folded assms(5)]] by blast
qed


section \<open>Requests of a served client\<close>

lemma request_handled:
  assumes "map_request phead m src l"
    "(if l \<noteq> 0 then updateTunnelTree e (dmn w, krn w) src else delTunnel e (dmn w, krn w) src l) = Some ((d, k), out, ret)"
    "l \<noteq> 0 \<Longrightarrow> ret \<noteq> MSG_ERR_CANNOT_ALLOC_PORT" "l = 0 \<Longrightarrow> 0 \<le> ret" "out = Some (ip, s)"
  obtains rsp where "request phead e src m w = Some (set_krn k (w\<lparr>dmn := d\<rparr>), Some rsp)"
    "answer rsp m 0 SUCCESS_LIFETIME s (usPortMask (cfgAddrPool (Config d)))" "get32 rsp 40 = Some ip"
proof -
  note M = assms(1) [unfolded map_request_def]
  obtain rsp where r: "handlPCPRespone (usPortMask (cfgAddrPool (Config d))) (uptime e) m 0 ip s = Some rsp"
    "answer rsp m 0 SUCCESS_LIFETIME s (usPortMask (cfgAddrPool (Config d)))" "get32 rsp 40 = Some ip"
    by (rule handlPCPRespone_success [of m]) (use M in simp)
  have "handle_opcode_map_port_set e (dmn w, krn w) m = Some ((d, k), rsp)"
    using assms(2-5) r(1) M by (cases "l = 0") (simp_all add: handle_opcode_map_port_set_def)
  then have "request phead e src m w = Some (set_krn k (w\<lparr>dmn := d\<rparr>), Some rsp)"
    by (simp add: request_def map_request_handled [OF assms(1)])
  then show thesis using that r by blast
qed

lemma request_step:
  "no_faults e \<Longrightarrow> request phead e src m w = Some (w', rsp) \<Longrightarrow> world_step phead w w'"
  by (rule world_step.pcp [of e]) (simp_all add: no_faults_def)

lemma world_inv_agree: "world_inv r w \<Longrightarrow> agree r (dmn w) (krn w) (pending w)"
  by (simp add: world_inv_def)

text \<open>A block of the pool that is granted afresh is free in the kernel module's table, too.\<close>

lemma fresh_not_refused:
  assumes "agree r d k P" "AllocAddrPort (AddrPoolList d) r = Some (pl, Some (s, en, ip))"
    "users k1 = users k" "tun_inv k1" "card (dom (users k)) < nat MAXBPSIZE" "kmalloc k1 \<noteq> None"
    "public_ip c = ip" "start_port c = s"
  shows "\<not> refuses kmalloc k1 c"
proof -
  note A = assms(1) [unfolded agree_def]
  let ?G = "grant_at r ` (table_keys k \<union> set P)"
  have H: "pool_holds r (AddrPoolList d) ?G" using A by simp
  have "(s, en, ip) \<notin> ?G" using pool.alloc_fresh [OF H] assms(2) by simp
  moreover have "grant_valid r (s, en, ip)"
    using pool.alloc_some [of r "AddrPoolList d" pl "(s, en, ip)"] H assms(2) by (simp add: holding_def)
  then have "grant_at r (s, ip) = (s, en, ip)"
    by (auto simp: grant_valid_def grant_of_def grant_at_def)
  ultimately have "(s, ip) \<notin> table_keys k" by (metis UnI1 grant_at_image)
  then have "ports k1 (ip, s) = None"
    using table_keys_ports [OF assms(4), of s ip] assms(3) by (simp add: table_keys_def)
  moreover have "tsize (tree4 k1) \<noteq> MAXBPSIZE"
    using table_size [OF assms(4)] assms(3,5) by (simp add: MAXBPSIZE_def)
  ultimately show ?thesis using assms(6-8) by (simp add: refuses_def)
qed

text \<open>The tunnel a client gets from a grant.\<close>

definition leased :: "u8 list \<Rightarrow> u16 \<times> u16 \<times> u32 \<Rightarrow> TUNNEL_CTX" where
  "leased src = (\<lambda>(s, en, ip). \<lparr>usStartPort = s, usEndPort = en, uiExtIP = ip, ucCltIPv6 = src,
     ulLiveTime = SUCCESS_LIFETIME\<rparr>)"

lemma update_grants:
  assumes "agree r d k P" "no_faults e" "users k src = None"
    "card (dom (users k)) < nat MAXBPSIZE" "\<forall>k'. tun_mem k' = tun_mem k \<longrightarrow> kmem e k' \<noteq> None"
    "AllocAddrPort (AddrPoolList d) r = Some (pl, Some (s, en, ip))"
  obtains k' where "updateTunnelTree e (d, k) src = Some ((d\<lparr>AddrPoolList := pl\<rparr>, k'), Some (ip, s), MSG_ERR_SUCCESS)"
    "kept r src k P d (d\<lparr>AddrPoolList := pl\<rparr>, k')" "users k' = (users k)(src \<mapsto> leased src (s, en, ip))"
proof -
  note F = assms(2) [unfolded no_faults_def]
  have K: "kmalloc_ok (kmem e)" "meanwhile e = Some" using F by simp_all
  define c where "c = \<lparr>user_addr = src, public_ip = ip, start_port = s, end_port = en, tun_lefttime = SUCCESS_LIFETIME\<rparr>"
  obtain k' k1 where u: "updateTunnelTree e (d, k) src = Some ((d\<lparr>AddrPoolList := pl\<rparr>, k'), Some (ip, s), MSG_ERR_SUCCESS)"
    "kept r src k P d (d\<lparr>AddrPoolList := pl\<rparr>, k')"
    and k1: "users k1 = users k" "tun_inv k1" "tun_mem k1 = tun_mem k"
      "users k' = (if refuses (kmem e) k1 c then users k else (users k)(src \<mapsto> new_tunnel c))"
    using update_new [OF assms(1) K assms(3,6)] F unfolding c_def by simp blast
  have "kmem e k1 \<noteq> None" using assms(5) k1(3) by blast
  then have "\<not> refuses (kmem e) k1 c"
    using fresh_not_refused [OF assms(1,6) k1(1,2) assms(4)] by (simp add: c_def)
  then have "users k' = (users k)(src \<mapsto> leased src (s, en, ip))"
    using k1(4) by (simp add: c_def new_tunnel_def leased_def)
  then show thesis using that u by blast
qed

lemma request_new:
  assumes "world_inv r w" "no_faults e" "map_request phead m src l" "l \<noteq> 0" "users (krn w) src = None"
    "card (dom (users (krn w))) < nat MAXBPSIZE" "\<forall>k. tun_mem k = tun_mem (krn w) \<longrightarrow> kmem e k \<noteq> None"
    "AllocAddrPort (AddrPoolList (dmn w)) r = Some (pl, Some (s, en, ip))"
  obtains w' rsp where "request phead e src m w = Some (w', Some rsp)" "world_step phead w w'"
    "answer rsp m 0 SUCCESS_LIFETIME s (usPortMask (cfgAddrPool (Config (dmn w))))" "get32 rsp 40 = Some ip"
    "users (krn w') = (users (krn w))(src \<mapsto> leased src (s, en, ip))" "dmn w' = (dmn w)\<lparr>AddrPoolList := pl\<rparr>"
    "GlobalCtx (krn w') = GlobalCtx (krn w)"
proof -
  let ?d = "(dmn w)\<lparr>AddrPoolList := pl\<rparr>"
  obtain k where u: "updateTunnelTree e (dmn w, krn w) src = Some ((?d, k), Some (ip, s), MSG_ERR_SUCCESS)"
    "kept r src (krn w) (pending w) (dmn w) (?d, k)" "users k = (users (krn w))(src \<mapsto> leased src (s, en, ip))"
    by (rule update_grants [OF world_inv_agree [OF assms(1)] assms(2,5-8)])
  obtain rsp where r: "request phead e src m w = Some (set_krn k (w\<lparr>dmn := ?d\<rparr>), Some rsp)"
    "answer rsp m 0 SUCCESS_LIFETIME s (usPortMask (cfgAddrPool (Config ?d)))" "get32 rsp 40 = Some ip"
    by (rule request_handled [OF assms(3), of e w ?d k "Some (ip, s)" MSG_ERR_SUCCESS ip s])
      (use u assms(4) in \<open>simp_all add: msg_err_defs\<close>)
  show thesis
    by (rule that [OF r(1) request_step [OF assms(2) r(1)]])
      (use r u(2,3) in \<open>simp_all add: set_krn_def kept_def\<close>)
qed

lemma request_old:
  assumes "world_inv r w" "no_faults e" "map_request phead m src l" "l \<noteq> 0" "users (krn w) src = Some t"
  obtains w' rsp where "request phead e src m w = Some (w', Some rsp)" "world_step phead w w'"
    "answer rsp m 0 SUCCESS_LIFETIME (usStartPort t) (usPortMask (cfgAddrPool (Config (dmn w))))"
    "get32 rsp 40 = Some (uiExtIP t)"
    "users (krn w') = (users (krn w))(src \<mapsto> t\<lparr>ulLiveTime := SUCCESS_LIFETIME\<rparr>)" "dmn w' = dmn w"
proof -
  note A = world_inv_agree [OF assms(1)] and F = assms(2) [unfolded no_faults_def]
  have K: "kmalloc_ok (kmem e)" "meanwhile e = Some" using F by simp_all
  obtain k out ret where u: "updateTunnelTree e (dmn w, krn w) src = Some ((dmn w, k), out, ret)"
    "out = Some (uiExtIP t, usStartPort t)" "ret = MSG_ERR_SUCCESS"
    "users k = (users (krn w))(src \<mapsto> t\<lparr>ulLiveTime := SUCCESS_LIFETIME\<rparr>)"
    using update_old [OF A K assms(5)] F by (simp del: fun_upd_apply) blast
  obtain rsp where r: "request phead e src m w = Some (set_krn k (w\<lparr>dmn := dmn w\<rparr>), Some rsp)"
    "answer rsp m 0 SUCCESS_LIFETIME (usStartPort t) (usPortMask (cfgAddrPool (Config (dmn w))))"
    "get32 rsp 40 = Some (uiExtIP t)"
    by (rule request_handled [OF assms(3) _ _ _ u(2), of e w "dmn w" k ret])
      (use u assms(4) in \<open>simp_all add: msg_err_defs\<close>)
  show thesis
    by (rule that [OF r(1) request_step [OF assms(2) r(1)]]) (use r u(4) in \<open>simp_all add: set_krn_def\<close>)
qed

lemma request_delete:
  assumes "world_inv r w" "no_faults e" "map_request phead m src 0"
  obtains w' rsp where "request phead e src m w = Some (w', Some rsp)" "world_step phead w w'"
    "users (krn w') = (users (krn w))(src := None)"
    "case users (krn w) src of
       None \<Rightarrow> dmn w' = dmn w \<and> get32 rsp 40 = Some (extip (junk_addr e))
         \<and> answer rsp m 0 SUCCESS_LIFETIME (startport (junk_addr e)) (usPortMask (cfgAddrPool (Config (dmn w))))
     | Some t \<Rightarrow> get32 rsp 40 = Some (uiExtIP t)
         \<and> answer rsp m 0 SUCCESS_LIFETIME (usStartPort t) (usPortMask (cfgAddrPool (Config (dmn w))))
         \<and> used_blocks r (AddrPoolList (dmn w')) = used_blocks r (AddrPoolList (dmn w))
             - grant_blocks r (grant_at r (usStartPort t, uiExtIP t))"
proof -
  note A = world_inv_agree [OF assms(1)] and F = assms(2) [unfolded no_faults_def]
  obtain d k out ret where u: "delTunnel e (dmn w, krn w) src 0 = Some ((d, k), out, ret)"
    "kept r src (krn w) (pending w) (dmn w) (d, k)" "ret = MSG_ERR_SUCCESS"
    "users k = (users (krn w))(src := None)"
    "case users (krn w) src of
       None \<Rightarrow> d = dmn w \<and> out = Some (extip (junk_addr e), startport (junk_addr e))
     | Some t \<Rightarrow> out = Some (uiExtIP t, usStartPort t)
         \<and> used_blocks r (AddrPoolList d) = used_blocks r (AddrPoolList (dmn w))
             - grant_blocks r (grant_at r (usStartPort t, uiExtIP t))"
    using delTunnel_ok [OF A, of e src 0] F by (simp del: fun_upd_apply) blast
  obtain ip s where o: "out = Some (ip, s)" using u(5) by (auto split: option.splits)
  obtain rsp where r: "request phead e src m w = Some (set_krn k (w\<lparr>dmn := d\<rparr>), Some rsp)"
    "answer rsp m 0 SUCCESS_LIFETIME s (usPortMask (cfgAddrPool (Config d)))" "get32 rsp 40 = Some ip"
    by (rule request_handled [OF assms(3) _ _ _ o, of e w d k ret]) (use u in \<open>simp_all add: msg_err_defs\<close>)
  have c: "Config d = Config (dmn w)" using u(2) by (simp add: kept_def)
  show thesis
    by (rule that [OF r(1) request_step [OF assms(2) r(1)]])
      (use r u(4,5) o c in \<open>auto simp: set_krn_def split: option.splits\<close>)
qed

text \<open>A request in another client's name, or with any other error, changes nothing.\<close>

lemma request_keeps:
  assumes "world_inv r w" "kmalloc_ok (kmem e)" "meanwhile e = Some" "request phead e src m w = Some (w', rsp)"
  shows "(\<forall>b. b \<noteq> src \<longrightarrow> users (krn w') b = users (krn w) b) \<and> GlobalCtx (krn w') = GlobalCtx (krn w)
    \<and> (getn m 8 16 \<noteq> Some src \<longrightarrow> w' = w)"
proof -
  obtain d k where dk: "handlePcpRequest phead e (dmn w, krn w) src m = Some ((d, k), rsp)" "w' = set_krn k (w\<lparr>dmn := d\<rparr>)"
    using assms(4) by (auto simp: request_def option_simps)
  have "kept r src (krn w) (pending w) (dmn w) (d, k) \<and> (getn m 8 16 \<noteq> Some src \<longrightarrow> d = dmn w \<and> k = krn w)"
    by (rule handlePcpRequest_kept [OF world_inv_agree [OF assms(1)] assms(2,3) dk(1)])
  then show ?thesis using dk(2) by (simp add: kept_def set_krn_def)
qed


section \<open>Errors\<close>

text \<open>An error answer has the length of the request, filled up to a multiple of four: the bytes to fill it up are
  read behind a request that is shorter than 1024 bytes.\<close>

lemma handlPCPRespone_built:
  assumes "52 \<le> length m" "Result \<noteq> 0"
  obtains q where "answer q m Result ERROR_LIFETIME 0 0"
    "handlPCPRespone pm up m Result ip port = getn q 0 (if length m < 1024 then (length m + 3) div 4 * 4 else 1024)"
proof -
  define q where "q = overlay (overlay (overlay (overlay (overlay (overlay (overlay m 1 [or (m ! 1) 0x80]) 3 [Result])
    12 (replicate 12 0)) 4 (be32 ERROR_LIFETIME)) 8 (be32 up)) 48 [0, 0]) 50 [0, 0]"
  have l: "length q = length m" using assms(1) by (simp add: q_def be32_def)
  have "get8 m 1 = Some (m ! 1)" using assms(1) by (simp add: get8_def)
  then have "handlPCPRespone pm up m Result ip port = getn q 0 (if length q < 1024 then (length q + 3) div 4 * 4 else 1024)"
    using assms by (simp add: handlPCPRespone_def put_overlay be32_def q_def Let_def)
  moreover have "answer q m Result ERROR_LIFETIME 0 0"
    using assms(1) l R_bit [of "m ! 1"] \<open>get8 m 1 = _\<close>
    by (simp add: answer_def q_def get_bytes overlay_get8 be32_def nth_Cons')
  ultimately show thesis using that l by simp
qed

lemma handlPCPRespone_cut:
  assumes "52 \<le> length m" "4 dvd length m \<or> 1024 \<le> length m" "Result \<noteq> 0"
  obtains rsp where "handlPCPRespone pm up m Result ip port = Some rsp" "answer rsp (take 1024 m) Result ERROR_LIFETIME 0 0"
proof -
  obtain q where q: "answer q m Result ERROR_LIFETIME 0 0"
    "handlPCPRespone pm up m Result ip port = getn q 0 (if length m < 1024 then (length m + 3) div 4 * 4 else 1024)"
    by (rule handlPCPRespone_built [OF assms(1,3)])
  have l: "length q = length m" "m \<noteq> []" using q(1) assms(1) by (auto simp: answer_def)
  have "answer (take 1024 q) (take 1024 m) Result ERROR_LIFETIME 0 0"
    using q(1) assms(1) l by (simp add: answer_def get_bytes get8_def)
  moreover have "getn q 0 (if length m < 1024 then (length m + 3) div 4 * 4 else 1024) = Some (take 1024 q)"
    using assms(2) l by (auto simp: getn_def elim!: dvdE)
  ultimately show thesis using that q(2) by simp
qed

lemma handlPCPRespone_error:
  assumes "52 \<le> length m" "length m \<le> 1024" "4 dvd length m" "Result \<noteq> 0"
  obtains rsp where "handlPCPRespone pm up m Result ip port = Some rsp" "answer rsp m Result ERROR_LIFETIME 0 0"
  using handlPCPRespone_cut [OF assms(1) disjI1 [OF assms(3)] assms(4), of pm up ip port] assms(2) by auto

text \<open>For any other length the answer is written or read outside the request.\<close>

lemma handlPCPRespone_outside:
  assumes "length m < 52 \<or> \<not> 4 dvd length m \<and> length m < 1024" "Result \<noteq> 0"
  shows "handlPCPRespone pm up m Result ip port = None"
proof (rule ccontr)
  have l: "length q = length p" if "put p i b = Some q" for p q i b
    using that by (auto simp: put_def split: if_splits)
  assume "handlPCPRespone pm up m Result ip port \<noteq> None"
  then obtain b m1 m2 m3 m4 m5 m6 m7 rsp where "put m 1 b = Some m1" "put m1 3 [Result] = Some m2"
    "put m2 12 (replicate 12 0) = Some m3" "put m3 4 (be32 ERROR_LIFETIME) = Some m4" "put m4 8 (be32 up) = Some m5"
    "put m5 48 [0, 0] = Some m6" and m7: "put m6 50 [0, 0] = Some m7"
    and g: "getn m7 0 (if length m7 < 1024 then (length m7 + 3) div 4 * 4 else 1024) = Some rsp"
    using assms(2) by (simp add: handlPCPRespone_def Let_def) (auto simp only: bind_eq_Some_conv)
  then have n: "length m6 = length m" "length m7 = length m" using l by metis+
  then have "52 \<le> length m" using m7 by (simp add: put_def split: if_splits)
  then have "\<not> 4 dvd length m" "length m < 1024" using assms(1) by auto
  moreover have "(length m + 3) div 4 * 4 \<le> length m" using g n \<open>length m < 1024\<close> by (simp add: getn_def split: if_splits)
  ultimately show False by presburger
qed

lemma request_outside:
  assumes "ucR m = Some 0" "checkPcpRequest phead m src = Some res" "res \<noteq> 0"
    "length m < 52 \<or> \<not> 4 dvd length m \<and> length m < 1024"
  shows "request phead e src m w = None"
proof -
  have "2 \<le> length m" using assms(1) by (auto simp: ucR_def get8_def split: if_splits)
  then show ?thesis
    using assms(1-3) handlPCPRespone_outside [OF assms(4,3)] by (simp add: request_def handlePcpRequest_def split: if_splits)
qed

lemma request_error:
  assumes "ucR m = Some 0" "checkPcpRequest phead m src = Some res" "res \<noteq> 0"
    "52 \<le> length m" "length m \<le> 1024" "4 dvd length m"
  obtains rsp where "request phead e src m w = Some (w, Some rsp)" "answer rsp m res ERROR_LIFETIME 0 0"
proof -
  obtain rsp where r: "handlPCPRespone (usPortMask (cfgAddrPool (Config (dmn w)))) (uptime e) m res 0 0 = Some rsp"
    "answer rsp m res ERROR_LIFETIME 0 0"
    by (rule handlPCPRespone_error [OF assms(4-6,3)])
  have "request phead e src m w = Some (w, Some rsp)"
    using assms(1-4) r(1) by (simp add: request_def handlePcpRequest_def set_krn_def)
  then show thesis using that r(2) by blast
qed


text \<open>What \<open>load_opcode_file\<close> builds: an end mark behind the first entry of every array.\<close>

definition options_ok :: "OPTIONLIST list \<Rightarrow> bool" where
  "options_ok phead \<longleftrightarrow> list_all (\<lambda>p. 0xffff \<in> set (tl (optionarr p))) phead"

lemma option_scan_ends: "xs \<noteq> [] \<Longrightarrow> 0xffff \<in> set (tl xs) \<Longrightarrow> option_scan xs opt \<noteq> None"
proof (induction xs opt rule: option_scan.induct)
  case (2 x xs opt)
  then show ?case by (cases xs) auto
qed simp

lemma option_search_ends:
  "options_ok phead \<Longrightarrow> option_list_search_opcode phead oc = Some p \<Longrightarrow> option_list_search_option p opt \<noteq> None"
proof (induction phead oc rule: option_list_search_opcode.induct)
  case (2 p' ps oc)
  then show ?case
    using option_scan_ends [of "optionarr p'" opt]
    by (fastforce simp: options_ok_def option_list_search_option_def split: if_splits)
qed simp

lemma checkPcpRequest_returns:
  assumes "options_ok phead" "52 \<le> length m"
  shows "\<exists>res. checkPcpRequest phead m src = Some res \<and> (res = 0 \<and> ucOpCode m = Some OP_CODE_MAP_PORT_SET \<longrightarrow> length m = 52)"
proof -
  obtain v o1 c a y where b: "get8 m 0 = Some v" "get8 m 1 = Some o1" "get8 m 44 = Some c" "getn m 8 16 = Some a"
    "get16 m 46 = Some y"
    using assms(2) by (fastforce simp: get8_def getn_def get16_def)
  have "\<exists>r. option_list_search_option p (ucast c) = Some r"
    if "option_list_search_opcode phead oc = Some p" for oc p
    using option_search_ends [OF assms(1) that, of "ucast c"] by blast
  then show ?thesis
    using b by (cases "option_list_search_opcode phead (ucast (take_bit 7 o1))")
      (force simp: checkPcpRequest_def check_opcode_map_port_set_def ucOpCode_def pcp_err_defs)+
qed

lemma request_returns:
  assumes "world_inv r w" "kmalloc_ok (kmem e)" "meanwhile e = Some" "options_ok phead"
    "52 \<le> length m" "length m \<le> 1024" "4 dvd length m"
  obtains w' rsp where "request phead e src m w = Some (w', rsp)"
proof -
  note A = world_inv_agree [OF assms(1)]
  have bytes: "\<exists>x. get8 m 1 = Some x" "\<exists>x. get32 m 4 = Some x" "\<exists>x. getn m 8 16 = Some x"
    using assms(5) by (auto simp: get8_def getn_def get32_def)
  obtain res where res: "checkPcpRequest phead m src = Some res"
    "res = 0 \<and> ucOpCode m = Some OP_CODE_MAP_PORT_SET \<longrightarrow> length m = 52"
    using checkPcpRequest_returns [OF assms(4,5)] by blast
  have rsp: "\<exists>rsp. handlPCPRespone pm up m x ip port = Some rsp" if "x \<noteq> 0 \<or> length m = 52" for pm up x ip port
  proof (cases "x = 0")
    case True
    then show ?thesis using handlPCPRespone_success [of m pm up ip port] that by auto
  next
    case False
    then show ?thesis using handlPCPRespone_error [OF assms(5-7)] by metis
  qed
  have u: "\<exists>s out ret. updateTunnelTree e (dmn w, krn w) a = Some (s, out, ret)" for a
    using updateTunnelTree_kept [OF A assms(2,3), of a] by fast
  have x: "\<exists>s out ret. delTunnel e (dmn w, krn w) a l = Some (s, out, ret)" for a l
    using delTunnel_ok [OF A, of e a l] by fast
  have "\<exists>s. handle_opcode_map_port_set e (dmn w, krn w) m = Some s" if m52: "length m = 52"
  proof -
    define f where "f = (\<lambda>pm up x ip port. the (handlPCPRespone pm up m x ip port))"
    have F: "handlPCPRespone pm up m x ip port = Some (f pm up x ip port)" for pm up x ip port
      using rsp [of x pm up ip port] m52 by (auto simp: f_def)
    obtain l a where la: "get32 m 4 = Some l" "getn m 8 16 = Some a" using bytes by blast
    obtain d k out ret where U: "updateTunnelTree e (dmn w, krn w) a = Some ((d, k), out, ret)" using u [of a] by auto
    obtain d' k' out' ret' where X: "delTunnel e (dmn w, krn w) a 0 = Some ((d', k'), out', ret')"
      using x [of a 0] by auto
    have "handle_opcode_map_port_set e (dmn w, krn w) m \<noteq> None"
      by (cases "l = 0") (simp_all add: handle_opcode_map_port_set_def la U X F split: prod.split)
    then show ?thesis by simp
  qed
  note H = this
  obtain b where b: "get8 m 1 = Some b" using bytes by blast
  have "\<exists>s rsp. handlePcpRequest phead e (dmn w, krn w) src m = Some (s, rsp)"
  proof (cases "res = 0")
    case True
    show ?thesis
    proof (cases "ucOpCode m = Some OP_CODE_MAP_PORT_SET")
      case o: True
      then obtain s where "handle_opcode_map_port_set e (dmn w, krn w) m = Some s" using H res(2) True by blast
      then show ?thesis using b res(1) True o by (cases s) (simp add: handlePcpRequest_def ucR_def)
    next
      case False
      then show ?thesis using b res(1) True by (simp add: handlePcpRequest_def ucR_def ucOpCode_def)
    qed
  next
    case False
    obtain q where "handlPCPRespone (usPortMask (cfgAddrPool (Config (dmn w)))) (uptime e) m res 0 0 = Some q"
      using rsp [OF disjI1 [OF False]] by blast
    then show ?thesis using b res(1) False by (simp add: handlePcpRequest_def ucR_def)
  qed
  then obtain d k rsp where "handlePcpRequest phead e (dmn w, krn w) src m = Some ((d, k), rsp)" by auto
  then show thesis using that by (simp add: request_def)
qed


section \<open>Kernel memory\<close>

lemma CreateTunnel_mem: "CreateTunnel s p = Some (s', r) \<Longrightarrow> tun_mem s' = tun_mem s"
  by (auto simp: CreateTunnel_def option_simps Let_def split: if_splits)

lemma handle_alloc_mem:
  assumes "handle_alloc km k c = Some (k', r)" "km k = Some p"
  shows "dom (tun_mem k') = insert p (dom (tun_mem k))"
proof -
  obtain s1 r1 where s1: "CreateTunnel (k\<lparr>tun_mem := (tun_mem k)(p \<mapsto> new_tunnel c)\<rparr>) p = Some (s1, r1)"
    "tun_mem k' = tun_mem s1"
    using assms by (auto simp: handle_alloc_def new_tunnel_def option_simps Let_def send_defs split: if_splits)
  show ?thesis using CreateTunnel_mem [OF s1(1)] s1(2) by simp
qed

lemma SendMessage_alloc_mem:
  assumes "SendMessage e i k (ConstructAllocMsg a ip s en l) = Some (k', r)" "snd_ok e i" "kmem e k = Some p"
  shows "dom (tun_mem k') = insert p (dom (tun_mem k))"
proof -
  obtain b where "handle_alloc (kmem e) k \<lparr>user_addr = a, public_ip = ip, start_port = s, end_port = en,
      tun_lefttime = l\<rparr> = Some (k', b)"
    using assms(1,2) by (auto simp: SendMessage_def nl_data_ready_def HandlMessage_def ConstructAllocMsg_def)
  then show ?thesis using assms(3) by (rule handle_alloc_mem)
qed

lemma SendMessage_detect_mem:
  assumes "SendMessage e i k (ConstructNetlinkMsg NETLINK_DETECT_MSG a l) = Some (k', r)" "snd_ok e i"
  shows "dom (tun_mem k') = dom (tun_mem k)"
  using assms
  by (auto simp: SendMessage_def nl_data_ready_def HandlMessage_def ConstructNetlinkMsg_def handle_detect_def
      option_simps Let_def send_defs split: option.splits if_splits)

text \<open>Every successful exchange leaves one context more in the kernel's memory, needed or not.\<close>

lemma update_mem:
  assumes "no_faults e" "\<forall>k. dom (tun_mem k) = dom (tun_mem k0) \<longrightarrow> kmem e k = Some p"
    "updateTunnelTree e (d, k0) a = Some ((d', k'), out, ret)" "ret = MSG_ERR_SUCCESS"
  shows "dom (tun_mem k') = insert p (dom (tun_mem k0))"
proof -
  note F = assms(1) [unfolded no_faults_def]
  obtain k1 r1 d1 c where 1: "SendMessage e 0 k0 (ConstructNetlinkMsg NETLINK_DETECT_MSG a SUCCESS_LIFETIME) = Some (k1, r1)"
    "send_tunnel e (d1, k1) c = Some ((d', k'), out, ret)"
    using assms(3,4) F
    by (auto simp: updateTunnelTree_def option_simps msg_err_defs split: if_splits msg_content.splits)
  have d1: "dom (tun_mem k1) = dom (tun_mem k0)" using SendMessage_detect_mem [OF 1(1)] F by simp
  obtain k2 r2 where 2: "SendMessage e 1 k1 (ConstructAllocMsg (user_addr c) (public_ip c) (start_port c) (end_port c)
      (tun_lefttime c)) = Some (k2, r2)" "k' = k2"
    using 1(2) by (auto simp: send_tunnel_def option_simps split: if_splits)
  show ?thesis
    using SendMessage_alloc_mem [OF 2(1)] 2(2) d1 assms(2) F by simp
qed


lemma request_update:
  assumes "map_request phead m src l" "l \<noteq> 0" "request phead e src m w = Some (w', rsp)"
  shows "\<exists>out ret. updateTunnelTree e (dmn w, krn w) src = Some ((dmn w', krn w'), out, ret)"
  using assms(3) assms(1,2) unfolding request_def map_request_handled [OF assms(1)]
  by (auto simp: handle_opcode_map_port_set_def map_request_def set_krn_def option_simps Let_def
      split: if_splits prod.splits option.splits)

text \<open>\<open>allocates_at e w p\<close>: while the request is handled, the kernel allocates a context at \<open>p\<close>.\<close>

definition allocates_at :: "nlenv \<Rightarrow> world \<Rightarrow> addr \<Rightarrow> bool" where
  "allocates_at e w p \<longleftrightarrow> (\<forall>k. dom (tun_mem k) = dom (tun_mem (krn w)) \<longrightarrow> kmem e k = Some p)"

lemma request_mem:
  assumes "world_inv r w" "no_faults e" "map_request phead m src l" "l \<noteq> 0" "allocates_at e w p"
    "request phead e src m w = Some (w', rsp)"
    "users (krn w) src \<noteq> None \<or> AllocAddrPort (AddrPoolList (dmn w)) r = Some (pl, Some g)"
  shows "dom (tun_mem (krn w')) = insert p (dom (tun_mem (krn w)))"
proof -
  note A = world_inv_agree [OF assms(1)] and F = assms(2) [unfolded no_faults_def]
  have K: "kmalloc_ok (kmem e)" "meanwhile e = Some" using F by simp_all
  obtain out ret where u: "updateTunnelTree e (dmn w, krn w) src = Some ((dmn w', krn w'), out, ret)"
    using request_update [OF assms(3,4,6)] by blast
  have "ret = MSG_ERR_SUCCESS"
  proof (cases "users (krn w) src")
    case None
    then have "AllocAddrPort (AddrPoolList (dmn w)) r = Some (pl, Some (fst g, fst (snd g), snd (snd g)))"
      using assms(7) by simp
    from update_new [OF A K None this] show ?thesis using F u by (simp split: prod.splits)
  next
    case (Some t)
    then show ?thesis using update_old [OF A K Some] F u by auto
  qed
  with update_mem [OF assms(2) _ u] show ?thesis using assms(5) by (simp add: allocates_at_def)
qed

section \<open>A sample world\<close>

definition conf_sample :: CONFIG where
  "conf_sample = \<lparr>cfgAddrPool = conf2,
     BakupAddrPool = \<lparr>uiStartIp = 0xC0A80200, uiEndIp = 0xC0A80203, usPortMask = 0xf800, usUserQutoa = 2048,
                      usRequestQutoa = 2048\<rparr>,
     cfgPortMask = 0,
     tc_config = \<lparr>tc_uiversion = 1, tc_usmtu = 1500, usPcpPort = 44323, ucLocalIPv6Addr = replicate 16 1,
                  ucLocalIPv4Addr = 0x0A000001\<rparr>\<rparr>"

definition phead_sample :: "OPTIONLIST list" where
  "phead_sample = option_list_add [] 100 (0 # replicate 19 0xffff)"

text \<open>The request of a client \<open>a\<close> for a life time, and an exchange in which the kernel allocates at \<open>p\<close>.\<close>

definition req :: "u8 list \<Rightarrow> u32 \<Rightarrow> u8 list" where
  "req a l = [1, 100, 0, 0] @ be32 l @ a @ replicate 22 0 @ [0, 4, 0, 0, 0, 0]"

definition env :: "addr \<Rightarrow> nlenv" where
  "env p = \<lparr>sock_ok = True, snd_ok = (\<lambda>_. True), rcv_ok = (\<lambda>_. True), uptime = 3600,
     junk_tun = \<lparr>user_addr = [], public_ip = 0, start_port = 0, end_port = 0, tun_lefttime = 0\<rparr>,
     junk_addr = \<lparr>extip = 0xDEADBEEF, startport = 0xBEEF, endport = 0\<rparr>, meanwhile = Some,
     kmem = (\<lambda>k. if tun_mem k p = None then Some p else None)\<rparr>"

abbreviation client :: "u8 \<Rightarrow> u8 list" where "client n \<equiv> replicate 16 n"

definition w0 :: world where "w0 = the (boot conf_sample (the started))"

lemma sample_env [simp]: "no_faults (env p)"
  by (simp add: no_faults_def env_def kmalloc_ok_def)

lemma sample_req: "length a = 16 \<Longrightarrow> map_request phead_sample (req a l) a l"
  by (simp add: map_request_def req_def be32_def get8_def get16_def get32_def getn_def nth_append phead_sample_def
      option_list_add_def option_list_search_option_def)

lemma sample_start: "conf_ok conf_sample" "startable (the started)" "conf_range conf_sample = 2"
proof -
  show r: "conf_range conf_sample = 2" by code_simp
  show "conf_ok conf_sample" using r by (simp add: conf_ok_def) (simp add: conf_sample_def conf2_def)
  have s: "modules_init all_ok (replicate 66000 0) = Some (the started)"
    using started_Some by (simp add: started_def)
  show "startable (the started)"
    using modules_init_ok [OF s] by (simp add: startable_def tc_inv_def)
qed

lemma sample_boot: "boot conf_sample (the started) = Some w0" "users (krn w0) = Map.empty"
proof -
  obtain w where w: "boot conf_sample (the started) = Some w" "users (krn w) = Map.empty"
    by (rule boot_ok [OF sample_start(1,2)])
  then show "boot conf_sample (the started) = Some w0" "users (krn w0) = Map.empty" by (simp_all add: w0_def)
qed

lemma boot_mem:
  assumes "boot c (the started) = Some w" shows "tun_mem (krn w) = Map.empty"
proof -
  have "tun_mem (kst (the started)) = Map.empty" "uiTunState (GlobalCtx (kst (the started))) = 0"
    "StorageTimer (GlobalCtx (kst (the started))) = None"
    by (simp_all add: started_def modules_init_def InitStorage_def initfragmodule_def ShashCreate_def all_ok_def)
  then have "map_option (\<lambda>w. tun_mem (krn w)) (boot c (the started)) = Some Map.empty \<or> boot c (the started) = None"
    by (cases "InitAddrPool (cfgAddrPool c)")
      (simp_all add: boot_def InitTc_def Let_def async_nl_data_ready_def HandlAsyncMessage_def handle_init_config_def
        add_timer_def set_config_def)
  then show ?thesis using assms by simp
qed

lemma sample_boot_mem: "tun_mem (krn w0) = Map.empty"
  by (rule boot_mem [OF sample_boot(1)])

lemma sample_reachable: "reachable conf_sample (the started) phead_sample w0"
  using sample_boot(1) sample_start(1,2) by (auto simp: reachable_def)


lemma sample_allocates: "tun_mem (krn w) p = None \<Longrightarrow> allocates_at (env p) w p"
  by (auto simp: allocates_at_def env_def domIff)

lemma allocates_kmem: "allocates_at e w p \<Longrightarrow> \<forall>k. tun_mem k = tun_mem (krn w) \<longrightarrow> kmem e k \<noteq> None"
  by (simp add: allocates_at_def)

lemma boot_pool: "boot c st = Some w \<Longrightarrow> InitAddrPool (cfgAddrPool c) = Some (AddrPoolList (dmn w))"
  by (auto simp: boot_def InitTc_def Let_def option_simps)

definition pl1 :: ADDRPOOLLIST where
  "pl1 = fst (the (AllocAddrPort (the (InitAddrPool conf2)) 2))"

definition pl2 :: ADDRPOOLLIST where
  "pl2 = fst (the (AllocAddrPort pl1 2))"

lemma sample_pool:
  "AllocAddrPort (AddrPoolList (dmn w0)) 2 = Some (pl1, Some (1024, 3071, 0xC0A80100))"
  "AllocAddrPort pl1 2 = Some (pl2, Some (3072, 5119, 0xC0A80100))"
proof -
  obtain pl where pl: "InitAddrPool conf2 = Some pl" "AddrPoolList (dmn w0) = pl"
    using boot_pool [OF sample_boot(1)] by (simp add: conf_sample_def)
  have "map_option snd (AllocAddrPort (the (InitAddrPool conf2)) 2) = Some (Some (1024, 3071, 0xC0A80100))"
    "map_option snd (AllocAddrPort pl1 2) = Some (Some (3072, 5119, 0xC0A80100))"
    by code_simp+
  then show "AllocAddrPort (AddrPoolList (dmn w0)) 2 = Some (pl1, Some (1024, 3071, 0xC0A80100))"
    "AllocAddrPort pl1 2 = Some (pl2, Some (3072, 5119, 0xC0A80100))"
    using pl by (auto simp: pl1_def pl2_def)
qed


definition w1 :: world where
  "w1 = fst (the (request phead_sample (env 9) (client 6) (req (client 6) 60) w0))"

definition w2 :: world where
  "w2 = fst (the (request phead_sample (env 10) (client 7) (req (client 7) 60) w1))"

lemma reachable_step: "reachable c st phead w \<Longrightarrow> world_step phead w w' \<Longrightarrow> reachable c st phead w'"
  by (auto simp: reachable_def intro: rtranclp.rtrancl_into_rtrancl)

lemma sample_w1:
  "reachable conf_sample (the started) phead_sample w1"
  "users (krn w1) = [client 6 \<mapsto> leased (client 6) (1024, 3071, 0xC0A80100)]"
  "AddrPoolList (dmn w1) = pl1" "dom (tun_mem (krn w1)) = {9}" "Config (dmn w1) = Config (dmn w0)"
proof -
  have i: "world_inv 2 w0" using reachable_world_inv [OF sample_reachable] by (simp add: sample_start)
  have m: "map_request phead_sample (req (client 6) 60) (client 6) 60" by (simp add: sample_req)
  have a: "allocates_at (env 9) w0 9" by (rule sample_allocates) (simp add: sample_boot_mem)
  obtain w rsp where w: "request phead_sample (env 9) (client 6) (req (client 6) 60) w0 = Some (w, Some rsp)"
    "world_step phead_sample w0 w" "users (krn w) = (users (krn w0))(client 6 \<mapsto> leased (client 6) (1024, 3071, 0xC0A80100))"
    "dmn w = (dmn w0)\<lparr>AddrPoolList := pl1\<rparr>"
    by (rule request_new [OF i sample_env m _ _ _ allocates_kmem [OF a] sample_pool(1)])
      (simp_all add: sample_boot MAXBPSIZE_def)
  have e: "w1 = w" by (simp add: w1_def w(1))
  show "reachable conf_sample (the started) phead_sample w1" unfolding e by (rule reachable_step [OF sample_reachable w(2)])
  show "users (krn w1) = [client 6 \<mapsto> leased (client 6) (1024, 3071, 0xC0A80100)]" "AddrPoolList (dmn w1) = pl1"
    "Config (dmn w1) = Config (dmn w0)"
    using w(3,4) by (simp_all add: e sample_boot)
  show "dom (tun_mem (krn w1)) = {9}"
    using request_mem [OF i sample_env m _ a w(1) disjI2 [OF sample_pool(1)]] by (simp add: e sample_boot_mem)
qed

lemma sample_w1_inv: "world_inv 2 w1"
  using reachable_world_inv [OF sample_w1(1)] by (simp add: sample_start)

lemma client_neq [simp]: "client a = client b \<longleftrightarrow> a = b"
  by simp

lemma sample_w2:
  "reachable conf_sample (the started) phead_sample w2"
  "users (krn w2) = [client 6 \<mapsto> leased (client 6) (1024, 3071, 0xC0A80100),
     client 7 \<mapsto> leased (client 7) (3072, 5119, 0xC0A80100)]"
proof -
  have m: "map_request phead_sample (req (client 7) 60) (client 7) 60" by (simp add: sample_req)
  have "10 \<notin> dom (tun_mem (krn w1))" unfolding sample_w1(4) by simp
  then have a: "allocates_at (env 10) w1 10" by (intro sample_allocates) (simp add: domIff)
  obtain w rsp where w: "request phead_sample (env 10) (client 7) (req (client 7) 60) w1 = Some (w, Some rsp)"
    "world_step phead_sample w1 w" "users (krn w) = (users (krn w1))(client 7 \<mapsto> leased (client 7) (3072, 5119, 0xC0A80100))"
    by (rule request_new [OF sample_w1_inv sample_env m _ _ _ allocates_kmem [OF a] sample_pool(2) [folded sample_w1(3)]])
      (simp_all add: sample_w1(2) MAXBPSIZE_def)
  have e: "w2 = w" by (simp add: w2_def w(1))
  show "reachable conf_sample (the started) phead_sample w2" unfolding e by (rule reachable_step [OF sample_w1(1) w(2)])
  show "users (krn w2) = [client 6 \<mapsto> leased (client 6) (1024, 3071, 0xC0A80100),
     client 7 \<mapsto> leased (client 7) (3072, 5119, 0xC0A80100)]"
    using w(3) by (simp add: e sample_w1(2))
qed

section \<open>Properties\<close>

text \<open>C1: in every world the carrier's side reaches, by requests, packets, timers and messages in any order, the
  tunnels of two subscribers with the same external address have no port in common; each has its
  full range, above port 1023.\<close>

theorem subscribers_never_share_a_port:
  assumes "reachable c st phead w" "users (krn w) a = Some t" "users (krn w) b = Some u" "a \<noteq> b"
    "uiExtIP t = uiExtIP u"
  shows "1024 \<le> unat (usStartPort t)
    \<and> unat (usEndPort t) = unat (usStartPort t) + unat (conf_range c) * 1024 - 1
    \<and> {unat (usStartPort t)..unat (usEndPort t)} \<inter> {unat (usStartPort u)..unat (usEndPort u)} = {}"
  by (rule subscriber_ports [OF reachable_world_inv [OF assms(1)] assms(2-5)])

theorem subscribers_never_share_a_port_witness:
  "\<exists>t u. users (krn w2) (client 6) = Some t \<and> users (krn w2) (client 7) = Some u \<and> uiExtIP t = uiExtIP u
    \<and> {unat (usStartPort t)..unat (usEndPort t)} \<inter> {unat (usStartPort u)..unat (usEndPort u)} = {}"
proof -
  have u: "users (krn w2) (client 6) = Some (leased (client 6) (1024, 3071, 0xC0A80100))"
    "users (krn w2) (client 7) = Some (leased (client 7) (3072, 5119, 0xC0A80100))"
    by (simp_all add: sample_w2(2))
  have n: "client 6 \<noteq> client 7" by simp
  have e: "uiExtIP (leased (client 6) (1024, 3071, 0xC0A80100)) = uiExtIP (leased (client 7) (3072, 5119, 0xC0A80100))"
    by (simp add: leased_def)
  show ?thesis using subscribers_never_share_a_port [OF sample_w2(1) u n e] u e by blast
qed

text \<open>C8: a client without a tunnel that asks for one is granted the next free range of the pool: the answer
  carries its address, start port and mask and the life time 120, the tunnel is in the kernel
  module's table, and nobody else's changed.\<close>

theorem pcp_request_grants:
  assumes "reachable c st phead w" "no_faults e" "map_request phead m src l" "l \<noteq> 0" "users (krn w) src = None"
    "card (dom (users (krn w))) < nat MAXBPSIZE" "allocates_at e w p"
    "AllocAddrPort (AddrPoolList (dmn w)) (conf_range c) = Some (pl, Some (s, en, ip))"
  shows "\<exists>w' rsp. request phead e src m w = Some (w', Some rsp) \<and> reachable c st phead w'
    \<and> answer rsp m 0 SUCCESS_LIFETIME s (usPortMask (cfgAddrPool (Config (dmn w)))) \<and> get32 rsp 40 = Some ip
    \<and> users (krn w') = (users (krn w))(src \<mapsto> leased src (s, en, ip))"
proof (rule request_new [OF reachable_world_inv [OF assms(1)] assms(2-6) allocates_kmem [OF assms(7)] assms(8)])
  fix w' rsp
  assume "request phead e src m w = Some (w', Some rsp)" "world_step phead w w'"
    "answer rsp m 0 SUCCESS_LIFETIME s (usPortMask (cfgAddrPool (Config (dmn w))))" "get32 rsp 40 = Some ip"
    "users (krn w') = (users (krn w))(src \<mapsto> leased src (s, en, ip))"
  then show ?thesis using reachable_step [OF assms(1)] by blast
qed

theorem pcp_request_grants_witness:
  "\<exists>w' rsp. request phead_sample (env 9) (client 6) (req (client 6) 60) w0 = Some (w', Some rsp)
    \<and> get32 rsp 40 = Some 0xC0A80100 \<and> users (krn w') (client 6) = Some (leased (client 6) (1024, 3071, 0xC0A80100))"
proof -
  have m: "map_request phead_sample (req (client 6) 60) (client 6) 60" by (simp add: sample_req)
  have a: "allocates_at (env 9) w0 9" by (rule sample_allocates) (simp add: sample_boot_mem)
  have f: "(60 :: u32) \<noteq> 0" "users (krn w0) (client 6) = None" "card (dom (users (krn w0))) < nat MAXBPSIZE"
    by (simp_all add: sample_boot MAXBPSIZE_def)
  show ?thesis
    using pcp_request_grants [OF sample_reachable sample_env m f a, unfolded sample_start(3), OF sample_pool(1)]
    by fastforce
qed

text \<open>C9: a request of a client that has a tunnel is answered with that tunnel's address, port and mask; the
  tunnel's life time is 120 again, the pool and the other tunnels are as they were.\<close>

theorem pcp_request_renews:
  assumes "reachable c st phead w" "no_faults e" "map_request phead m src l" "l \<noteq> 0" "users (krn w) src = Some t"
  shows "\<exists>w' rsp. request phead e src m w = Some (w', Some rsp) \<and> reachable c st phead w'
    \<and> answer rsp m 0 SUCCESS_LIFETIME (usStartPort t) (usPortMask (cfgAddrPool (Config (dmn w))))
    \<and> get32 rsp 40 = Some (uiExtIP t) \<and> dmn w' = dmn w
    \<and> users (krn w') = (users (krn w))(src \<mapsto> t\<lparr>ulLiveTime := SUCCESS_LIFETIME\<rparr>)"
proof (rule request_old [OF reachable_world_inv [OF assms(1)] assms(2-5)])
  fix w' rsp
  assume "request phead e src m w = Some (w', Some rsp)" "world_step phead w w'"
    "answer rsp m 0 SUCCESS_LIFETIME (usStartPort t) (usPortMask (cfgAddrPool (Config (dmn w))))"
    "get32 rsp 40 = Some (uiExtIP t)"
    "users (krn w') = (users (krn w))(src \<mapsto> t\<lparr>ulLiveTime := SUCCESS_LIFETIME\<rparr>)" "dmn w' = dmn w"
  then show ?thesis using reachable_step [OF assms(1)] by blast
qed

theorem pcp_request_renews_witness:
  "\<exists>w' rsp. request phead_sample (env 10) (client 6) (req (client 6) 600) w1 = Some (w', Some rsp)
    \<and> get32 rsp 40 = Some 0xC0A80100 \<and> dmn w' = dmn w1"
proof -
  have m: "map_request phead_sample (req (client 6) 600) (client 6) 600" by (simp add: sample_req)
  have u: "users (krn w1) (client 6) = Some (leased (client 6) (1024, 3071, 0xC0A80100))"
    by (simp add: sample_w1(2))
  have i: "uiExtIP (leased (client 6) (1024, 3071, 0xC0A80100)) = 0xC0A80100" by (simp add: leased_def)
  show ?thesis
    using pcp_request_renews [OF sample_w1(1) sample_env m _ u, of 10] unfolding i by fastforce
qed

text \<open>C10: a request for the life time 0 removes the client's tunnel; the answer carries the address and port it
  had, and exactly its blocks are free in the pool again.\<close>

theorem pcp_request_deletes:
  assumes "reachable c st phead w" "no_faults e" "map_request phead m src 0" "users (krn w) src = Some t"
  shows "\<exists>w' rsp. request phead e src m w = Some (w', Some rsp) \<and> reachable c st phead w'
    \<and> get32 rsp 40 = Some (uiExtIP t) \<and> get16 rsp 48 = Some (usStartPort t)
    \<and> users (krn w') = (users (krn w))(src := None)
    \<and> used_blocks (conf_range c) (AddrPoolList (dmn w')) = used_blocks (conf_range c) (AddrPoolList (dmn w))
        - grant_blocks (conf_range c) (grant_at (conf_range c) (tun_key t))"
proof (rule request_delete [OF reachable_world_inv [OF assms(1)] assms(2,3)])
  fix w' rsp
  assume a: "request phead e src m w = Some (w', Some rsp)" "world_step phead w w'"
    "users (krn w') = (users (krn w))(src := None)"
    "case users (krn w) src of
       None \<Rightarrow> dmn w' = dmn w \<and> get32 rsp 40 = Some (extip (junk_addr e))
         \<and> answer rsp m 0 SUCCESS_LIFETIME (startport (junk_addr e)) (usPortMask (cfgAddrPool (Config (dmn w))))
     | Some t \<Rightarrow> get32 rsp 40 = Some (uiExtIP t)
         \<and> answer rsp m 0 SUCCESS_LIFETIME (usStartPort t) (usPortMask (cfgAddrPool (Config (dmn w))))
         \<and> used_blocks (conf_range c) (AddrPoolList (dmn w')) = used_blocks (conf_range c) (AddrPoolList (dmn w))
             - grant_blocks (conf_range c) (grant_at (conf_range c) (usStartPort t, uiExtIP t))"
  then show ?thesis using reachable_step [OF assms(1) a(2)] assms(4) by (fastforce simp: answer_def)
qed

theorem pcp_request_deletes_witness:
  "\<exists>w' rsp. request phead_sample (env 10) (client 6) (req (client 6) 0) w1 = Some (w', Some rsp)
    \<and> get32 rsp 40 = Some 0xC0A80100 \<and> users (krn w') = Map.empty"
proof -
  have m: "map_request phead_sample (req (client 6) 0) (client 6) 0" by (simp add: sample_req)
  have u: "users (krn w1) (client 6) = Some (leased (client 6) (1024, 3071, 0xC0A80100))"
    by (simp add: sample_w1(2))
  have i: "uiExtIP (leased (client 6) (1024, 3071, 0xC0A80100)) = 0xC0A80100"
    "(users (krn w1))(client 6 := None) = Map.empty" by (simp_all add: leased_def sample_w1(2))
  show ?thesis
    using pcp_request_deletes [OF sample_w1(1) sample_env m u, of 10] unfolding i by blast
qed

text \<open>C11: whatever a client sends and whatever fails while it is handled, no other client's tunnel changes; and a
  packet whose address field is not the sender's own address changes nothing at all.\<close>

theorem requests_touch_only_the_sender:
  assumes "reachable c st phead w" "kmalloc_ok (kmem e)" "meanwhile e = Some" "request phead e src m w = Some (w', rsp)"
  shows "(\<forall>b. b \<noteq> src \<longrightarrow> users (krn w') b = users (krn w) b) \<and> (getn m 8 16 \<noteq> Some src \<longrightarrow> w' = w)"
  using request_keeps [OF reachable_world_inv [OF assms(1)] assms(2-4)] by blast

theorem requests_touch_only_the_sender_witness:
  "\<exists>w' rsp. request phead_sample (env 10) (client 7) (req (client 6) 0) w1 = Some (w', rsp) \<and> w' = w1"
proof -
  have k: "kmalloc_ok (kmem (env 10))" "meanwhile (env 10) = Some" by (simp_all add: env_def kmalloc_ok_def)
  have s: "options_ok phead_sample" "52 \<le> length (req (client 6) 0)" "length (req (client 6) 0) \<le> 1024"
    "4 dvd length (req (client 6) 0)"
    by (simp_all add: options_ok_def phead_sample_def option_list_add_def req_def be32_def)
  obtain w' rsp where w: "request phead_sample (env 10) (client 7) (req (client 6) 0) w1 = Some (w', rsp)"
    by (rule request_returns [OF sample_w1_inv k s])
  have "getn (req (client 6) 0) 8 16 \<noteq> Some (client 7)" by (simp add: req_def be32_def getn_def)
  then show ?thesis using requests_touch_only_the_sender [OF sample_w1(1) k w] w by blast
qed

text \<open>C12: every packet of 52 to 1024 bytes, a multiple of 4, from anyone and with anything in it, is dealt with
  completely: the handler returns, and what it leaves is a world of the reachable ones.\<close>

theorem pcp_handler_returns:
  assumes "reachable c st phead w" "kmalloc_ok (kmem e)" "meanwhile e = Some" "options_ok phead"
    "52 \<le> length m" "length m \<le> 1024" "4 dvd length m"
  shows "\<exists>w' rsp. request phead e src m w = Some (w', rsp) \<and> reachable c st phead w'"
proof (rule request_returns [OF reachable_world_inv [OF assms(1)] assms(2-7)])
  fix w' rsp assume r: "request phead e src m w = Some (w', rsp)"
  then show ?thesis using reachable_step [OF assms(1) world_step.pcp [OF assms(2,3) r]] by blast
qed

theorem pcp_handler_returns_witness:
  "\<exists>w' rsp. request phead_sample (env 10) (client 7) (replicate 1024 0xff) w1 = Some (w', rsp)"
proof -
  have k: "kmalloc_ok (kmem (env 10))" "meanwhile (env 10) = Some" by (simp_all add: env_def kmalloc_ok_def)
  have s: "options_ok phead_sample" "52 \<le> length (replicate 1024 (0xff :: u8))"
    "length (replicate 1024 (0xff :: u8)) \<le> 1024" "4 dvd length (replicate 1024 (0xff :: u8))"
    by (simp_all add: options_ok_def phead_sample_def option_list_add_def)
  show ?thesis using pcp_handler_returns [OF sample_w1(1) k s] by blast
qed

text \<open>C13: a request that fails the checks (version, opcode, option, sender's address, form) is answered with
  the error, the life time 1800 and no port, and changes nothing, exactly when it has at least 52 bytes and, below 1024
  bytes, a number of them divisible by four; the answer has the length of the request, but at most 1024 bytes.
  A failing request of any other length makes the daemon write or read outside the request.\<close>

theorem pcp_errors_answered:
  assumes "ucR m = Some 0" "checkPcpRequest phead m src = Some res" "res \<noteq> 0"
  shows "if 52 \<le> length m \<and> (4 dvd length m \<or> 1024 \<le> length m)
    then \<exists>rsp. request phead e src m w = Some (w, Some rsp) \<and> answer rsp (take 1024 m) res ERROR_LIFETIME 0 0
    else request phead e src m w = None"
proof (cases "52 \<le> length m \<and> (4 dvd length m \<or> 1024 \<le> length m)")
  case True
  then have m: "52 \<le> length m" "4 dvd length m \<or> 1024 \<le> length m" by simp_all
  obtain rsp where "handlPCPRespone (usPortMask (cfgAddrPool (Config (dmn w)))) (uptime e) m res 0 0 = Some rsp"
    "answer rsp (take 1024 m) res ERROR_LIFETIME 0 0"
    by (rule handlPCPRespone_cut [OF m assms(3)])
  then show ?thesis using True assms by (simp add: request_def handlePcpRequest_def set_krn_def)
next
  case False
  have "request phead e src m w = None" using False assms by (intro request_outside) auto
  then show ?thesis unfolding if_not_P [OF False] .
qed

theorem pcp_errors_answered_witness:
  "\<exists>rsp. request phead_sample (env 10) (client 7) (req (client 6) 0) w1 = Some (w1, Some rsp)
    \<and> get8 rsp 3 = Some ERR_ADDRESS_MISMATCH"
proof -
  have c: "ucR (req (client 6) 0) = Some 0"
    "checkPcpRequest phead_sample (req (client 6) 0) (client 7) = Some ERR_ADDRESS_MISMATCH"
    "ERR_ADDRESS_MISMATCH \<noteq> 0"
    by code_simp+
  have s: "52 \<le> length (req (client 6) 0)" "4 dvd length (req (client 6) 0)"
    by (simp_all add: req_def be32_def)
  show ?thesis using pcp_errors_answered [OF c, of "env 10" w1] s by (auto simp: answer_def)
qed

text \<open>A client the pool has no range for is answered with the error 11, and nobody's tunnel changes.\<close>

theorem pcp_pool_exhausted:
  assumes "reachable c st phead w" "no_faults e" "map_request phead m src l" "l \<noteq> 0" "users (krn w) src = None"
    "AllocAddrPort (AddrPoolList (dmn w)) (conf_range c) = Some (pl, None)"
  shows "\<exists>w' rsp. request phead e src m w = Some (w', Some rsp) \<and> reachable c st phead w'
    \<and> answer rsp m ERR_CANNOT_PROVIDE_EXTERNAL ERROR_LIFETIME 0 0 \<and> users (krn w') = users (krn w)"
proof -
  have i: "world_inv (conf_range c) w" by (rule reachable_world_inv [OF assms(1)])
  note A = world_inv_agree [OF i] and F = assms(2) [unfolded no_faults_def] and M = assms(3) [unfolded map_request_def]
  have K: "kmalloc_ok (kmem e)" "meanwhile e = Some" using F by simp_all
  obtain k where u: "updateTunnelTree e (dmn w, krn w) src
      = Some (((dmn w)\<lparr>AddrPoolList := pl\<rparr>, k), None, MSG_ERR_CANNOT_ALLOC_PORT)" "users k = users (krn w)"
    using update_new [OF A K assms(5,6)] F by auto
  have l: "52 \<le> length m" "length m \<le> 1024" "4 dvd length m" using M by simp_all
  have ne: "ERR_CANNOT_PROVIDE_EXTERNAL \<noteq> 0" by code_simp
  obtain rsp where r: "handlPCPRespone (usPortMask (cfgAddrPool (Config (dmn w)))) (uptime e) m ERR_CANNOT_PROVIDE_EXTERNAL
      0 0 = Some rsp" "answer rsp m ERR_CANNOT_PROVIDE_EXTERNAL ERROR_LIFETIME 0 0"
    by (rule handlPCPRespone_error [OF l ne])
  have "handle_opcode_map_port_set e (dmn w, krn w) m = Some (((dmn w)\<lparr>AddrPoolList := pl\<rparr>, k), rsp)"
    using M assms(4) u(1) r(1) by (simp add: handle_opcode_map_port_set_def msg_err_defs)
  then have q: "request phead e src m w = Some (set_krn k (w\<lparr>dmn := (dmn w)\<lparr>AddrPoolList := pl\<rparr>\<rparr>), Some rsp)"
    by (simp add: request_def map_request_handled [OF assms(3)])
  show ?thesis
    using q r(2) u(2) reachable_step [OF assms(1) request_step [OF assms(2) q]] by (auto simp: set_krn_def)
qed

text \<open>One address with one range of 63 blocks: full after the first client.\<close>

definition conf_tight :: CONFIG where
  "conf_tight = conf_sample\<lparr>cfgAddrPool := \<lparr>uiStartIp = 7, uiEndIp = 7, usPortMask = 0x0400, usUserQutoa = 0,
     usRequestQutoa = 0\<rparr>\<rparr>"

definition pl_tight :: ADDRPOOLLIST where
  "pl_tight = fst (the (AllocAddrPort (the (InitAddrPool (cfgAddrPool conf_tight))) 63))"

theorem pcp_pool_exhausted_witness:
  "\<exists>c w w' rsp. reachable c (the started) phead_sample w
    \<and> request phead_sample (env 10) (client 7) (req (client 7) 60) w = Some (w', Some rsp)
    \<and> get8 rsp 3 = Some ERR_CANNOT_PROVIDE_EXTERNAL \<and> users (krn w') (client 7) = None"
proof -
  have r: "conf_range conf_tight = 63" by code_simp
  have ok: "conf_ok conf_tight" using r by (simp add: conf_ok_def) (simp add: conf_tight_def)
  obtain w where w: "boot conf_tight (the started) = Some w" "users (krn w) = Map.empty" "world_inv 63 w"
    using boot_ok [OF ok sample_start(2)] r by metis
  have re: "reachable conf_tight (the started) phead_sample w"
    using w(1) ok sample_start(2) by (auto simp: reachable_def)
  have "map_option snd (AllocAddrPort (the (InitAddrPool (cfgAddrPool conf_tight))) 63) = Some (Some (1024, 65535, 7))"
    "map_option snd (AllocAddrPort pl_tight 63) = Some None"
    by code_simp+
  then obtain pl where pl: "AllocAddrPort (AddrPoolList (dmn w)) 63 = Some (pl_tight, Some (1024, 65535, 7))"
    "AllocAddrPort pl_tight 63 = Some (pl, None)"
    using boot_pool [OF w(1)] by (auto simp: pl_tight_def)
  have a: "allocates_at (env 9) w 9" by (rule sample_allocates) (simp add: boot_mem [OF w(1)])
  have m: "map_request phead_sample (req (client n) 60) (client n) 60" for n by (simp add: sample_req)
  obtain w' rsp where w': "request phead_sample (env 9) (client 6) (req (client 6) 60) w = Some (w', Some rsp)"
    "world_step phead_sample w w'" "users (krn w') = (users (krn w))(client 6 \<mapsto> leased (client 6) (1024, 65535, 7))"
    "dmn w' = (dmn w)\<lparr>AddrPoolList := pl_tight\<rparr>"
    by (rule request_new [OF w(3) sample_env m _ _ _ allocates_kmem [OF a] pl(1)]) (simp_all add: w(2) MAXBPSIZE_def)
  have re': "reachable conf_tight (the started) phead_sample w'" by (rule reachable_step [OF re w'(2)])
  have n: "(60 :: u32) \<noteq> 0" "users (krn w') (client 7) = None" by (simp_all add: w'(3) w(2))
  have f: "AllocAddrPort (AddrPoolList (dmn w')) (conf_range conf_tight) = Some (pl, None)" using pl(2) w'(4) r by simp
  obtain v rsp' where v: "request phead_sample (env 10) (client 7) (req (client 7) 60) w' = Some (v, Some rsp')"
    "answer rsp' (req (client 7) 60) ERR_CANNOT_PROVIDE_EXTERNAL ERROR_LIFETIME 0 0" "users (krn v) = users (krn w')"
    using pcp_pool_exhausted [OF re' sample_env m n f, of 10] by blast
  then have "get8 rsp' 3 = Some ERR_CANNOT_PROVIDE_EXTERNAL" "users (krn v) (client 7) = None"
    using n(2) by (simp_all add: answer_def)
  then show ?thesis using re' v(1) by blast
qed

end
