(* ===== verification/Delivery.thy ===== *)
theory Delivery
  imports Service
begin

text \<open>
  From the answer to the packets: every reachable world keeps the configuration it was started with
  and leases only addresses of its pool, so a packet to a leased address and port is delivered to the
  client whose lease it is.
\<close>

section \<open>The addresses of the pool stay\<close>

abbreviation node_ips :: "ADDRPOOLLIST \<Rightarrow> u32 list" where
  "node_ips pl \<equiv> map node_ip (ring pl)"

lemma try_node_ip: "try_node r n = (n', g) \<Longrightarrow> node_ip n' = node_ip n"
  by (auto simp: try_node_def Let_def split: if_splits)

lemma map_ip_update: "node_ip n = node_ip (ns ! c) \<Longrightarrow> map node_ip (ns[c := n]) = map node_ip ns"
  by (cases "c < length ns") (simp_all add: map_update list_update_same_conv list_update_beyond)

lemma alloc_loop_ips: "alloc_loop b p r c ns = Some y \<Longrightarrow> map node_ip (fst y) = map node_ip ns"
proof (rule alloc_loop.raw_induct [where P = "\<lambda>b p r c ns y. map node_ip (fst y) = map node_ip ns"])
  fix f :: "nat \<Rightarrow> u32 \<Rightarrow> u32 \<Rightarrow> nat \<Rightarrow> ADDRPOOLNODE list \<Rightarrow> (ADDRPOOLNODE list \<times> (u16 \<times> u16 \<times> u32) option) option"
    and b p r c ns y
  assume IH: "\<And>b p r c ns y. f b p r c ns = Some y \<Longrightarrow> map node_ip (fst y) = map node_ip ns"
    and body: "(if c = b \<and> p = validbit (ns ! c) then Some (ns, None)
      else if 64 \<le> sint (validbit (ns ! c))
      then f b p r (ring_next c ns) (ns[c := (ns ! c)\<lparr>validbit := 0\<rparr>])
      else (case try_node r (ns ! c) of
              (n, None) \<Rightarrow> f b p r c (ns[c := n])
            | (n, Some g) \<Rightarrow> Some (ns[c := n], Some g))) = Some y"
  obtain n g where n: "try_node r (ns ! c) = (n, g)" by (cases "try_node r (ns ! c)")
  have u: "map node_ip (ns[c := n]) = map node_ip ns" by (rule map_ip_update, rule try_node_ip [OF n])
  have z: "map node_ip (ns[c := (ns ! c)\<lparr>validbit := 0\<rparr>]) = map node_ip ns" by (rule map_ip_update) simp
  show "map node_ip (fst y) = map node_ip ns"
    using body n u z by (auto split: if_splits option.splits dest!: IH)
qed

lemma AllocAddrPort_ips: "AllocAddrPort pl r = Some (pl', g) \<Longrightarrow> node_ips pl' = node_ips pl"
proof -
  assume a: "AllocAddrPort pl r = Some (pl', g)"
  let ?c = "if 64 \<le> sint (validbit (ring pl ! curnode pl)) then ring_next (curnode pl) (ring pl) else curnode pl"
  let ?ns = "if 64 \<le> sint (validbit (ring pl ! curnode pl))
    then (ring pl)[curnode pl := (ring pl ! curnode pl)\<lparr>validbit := 0\<rparr>] else ring pl"
  obtain n g1 where n: "try_node r (?ns ! ?c) = (n, g1)" by (cases "try_node r (?ns ! ?c)")
  have z: "map node_ip ?ns = node_ips pl" by (simp add: map_ip_update)
  have u: "map node_ip (?ns[?c := n]) = node_ips pl" using map_ip_update [OF try_node_ip [OF n]] z by simp
  show ?thesis
  proof (cases g1)
    case None
    then obtain y where "alloc_loop (curnode pl) (validbit (ring pl ! curnode pl)) r ?c (?ns[?c := n]) = Some y"
      "ring pl' = fst y"
      using a n by (auto simp: AllocAddrPort_def Let_def split: if_splits)
    then show ?thesis using alloc_loop_ips u by metis
  next
    case (Some x)
    then have "ring pl' = ?ns[?c := n]" using a n by (auto simp: AllocAddrPort_def Let_def split: if_splits)
    then show ?thesis using u by simp
  qed
qed

lemma clear_in_ring_ips: "clear_in_ring a b e ns = Some ns' \<Longrightarrow> map node_ip ns' = map node_ip ns"
  by (induction ns arbitrary: ns') (auto split: if_splits)

lemma DeallocAddrPort_ips: "DeallocAddrPort pl r s a = Some pl' \<Longrightarrow> node_ips pl' = node_ips pl"
  by (auto simp: DeallocAddrPort_def Let_def dest: clear_in_ring_ips split: if_splits)

definition same_pool :: "dstate \<Rightarrow> dstate \<Rightarrow> bool" where
  "same_pool d d' \<longleftrightarrow> node_ips (AddrPoolList d') = node_ips (AddrPoolList d)"

lemma same_pool_simps [simp]:
  "same_pool d d"
  by (simp add: same_pool_def)

lemma HandlMessage_daemon_pool: "HandlMessage_daemon d m b = Some (d', b', r) \<Longrightarrow> same_pool d d'"
  unfolding HandlMessage_daemon_def same_pool_def
  by (auto simp: option_simps Let_def AllocAddrPort_ips DeallocAddrPort_ips
      split: netlink_msg.splits NETLINK_MSG_DEF.splits msg_content.splits option.splits if_splits)

lemma same_pool_trans: "same_pool d1 d2 \<Longrightarrow> same_pool d2 d3 \<Longrightarrow> same_pool d1 d3"
  by (simp add: same_pool_def)

lemma send_tunnel_pool: "send_tunnel e (d, k) c = Some ((d', k'), out, ret) \<Longrightarrow> same_pool d d'"
  by (auto simp: send_tunnel_def option_simps dest!: HandlMessage_daemon_pool split: if_splits)

lemma updateTunnelTree_pool:
  assumes "updateTunnelTree e (d, k) a = Some ((d', k'), out, ret)" "meanwhile e = Some"
  shows "same_pool d d'"
proof (rule ccontr)
  assume n: "\<not> same_pool d d'"
  obtain d1 b r k1 where 1: "HandlMessage_daemon d b (TunContent (junk_tun e)) = Some (d1, r)"
    "d' = d1 \<or> (\<exists>c. send_tunnel e (d1, k1) c = Some ((d', k'), out, ret))"
    using assms n by (auto simp: updateTunnelTree_def option_simps split: if_splits) blast+
  have "same_pool d d1" by (cases r) (use 1(1) HandlMessage_daemon_pool in blast)
  then show False using 1(2) n same_pool_trans send_tunnel_pool by blast
qed

lemma delTunnel_pool:
  assumes "delTunnel e (d, k) a l = Some ((d', k'), out, ret)" shows "same_pool d d'"
proof (rule ccontr)
  assume "\<not> same_pool d d'"
  then obtain b b' r where "HandlMessage_daemon d b (AddrContent (junk_addr e)) = Some (d', b', r)"
    using assms by (auto simp: delTunnel_def option_simps split: if_splits)
  then show False using HandlMessage_daemon_pool \<open>\<not> same_pool d d'\<close> by blast
qed

lemma handlePcpRequest_pool:
  assumes "handlePcpRequest phead e (d, k) src m = Some ((d', k'), rsp)" "meanwhile e = Some"
  shows "same_pool d d'"
proof -
  have u: "same_pool d (fst s)" if "updateTunnelTree e (d, k) a = Some (s, out, ret)" for s a out ret
    using updateTunnelTree_pool [of e d k a "fst s" "snd s"] that assms(2) by simp
  have x: "same_pool d (fst s)" if "delTunnel e (d, k) a l = Some (s, out, ret)" for s a l out ret
    using delTunnel_pool [of e d k a l "fst s" "snd s"] that by simp
  have h: "same_pool d (fst s)" if "handle_opcode_map_port_set e (d, k) m = Some (s, b)" for s b
    using that u x by (auto simp: handle_opcode_map_port_set_def option_simps Let_def split: if_splits option.splits)
  show ?thesis using assms(1) h by (fastforce simp: handlePcpRequest_def option_simps split: if_splits)
qed

lemma HandlAsyncMessage_daemon_pool:
  "HandlAsyncMessage_daemon d m = Some (d', r) \<Longrightarrow> same_pool d d' \<and> Config d' = Config d"
  by (auto simp: HandlAsyncMessage_daemon_def same_pool_def DeallocAddrPort_ips
      split: netlink_msg.splits NETLINK_MSG_DEF.splits option.splits if_splits)

section \<open>The configuration stays\<close>

text \<open>\<open>serves c w\<close>: the kernel module and the pool are as the configuration \<open>c\<close> has them.\<close>

definition serves :: "CONFIG \<Rightarrow> world \<Rightarrow> bool" where
  "serves c w \<longleftrightarrow> (let g = GlobalCtx (krn w); p = cfgAddrPool c in
     uiTunState g = 1 \<and> usPortRange g = not (usPortMask p) + 1 \<and> uiExtBeginIP g = uiStartIp p
     \<and> uiExtEndIP g = uiEndIp p \<and> usMtu g = tc_usmtu (tc_config c)
     \<and> ucTcIPv6 g = ucLocalIPv6Addr (tc_config c)
     \<and> node_ips (AddrPoolList (dmn w)) = ip_range (uiStartIp p) (uiEndIp p)
     \<and> cfgAddrPool (Config (dmn w)) = p)"

lemma fire_timer_config:
  assumes "tun_inv k" "fire_timer k = Some k'"
  shows "\<exists>t. GlobalCtx k' = (GlobalCtx k)\<lparr>StorageTimer := t\<rparr>"
proof (cases "StorageTimer (GlobalCtx k) = None")
  case True
  then show ?thesis using assms(2) by (intro exI [of _ None]) (simp add: fire_timer_def)
next
  case False
  obtain s' where "fire_timer k = Some s'"
    "GlobalCtx s' = (GlobalCtx k)\<lparr>StorageTimer := Some (uiMaxLifeTime (GlobalCtx k) div 4)\<rparr>"
    by (rule fire_timer_ok [OF assms(1) False refl])
  then show ?thesis using assms(2) by auto
qed

lemma world_step_serves:
  assumes "world_step phead w w'" "world_inv r w" "serves c w"
  shows "serves c w'"
proof -
  have ti: "tun_inv (krn w)" "hash_inv (pshashtable (frg (tcs w)))" using assms(2) by (simp_all add: world_inv_def tc_inv_def)
  show ?thesis
    using assms(1)
  proof (cases rule: world_step.cases)
    case (packet en skb st v)
    then have "same_table (krn w) (kst st)" using stream_hook_same [OF _ ti(2,1)] by blast
    then show ?thesis using assms(3) packet(1) by (simp add: serves_def same_table_def)
  next
    case frag_time
    then show ?thesis using assms(3) by (simp add: serves_def)
  next
    case (life_time k)
    obtain t where "GlobalCtx k = (GlobalCtx (krn w))\<lparr>StorageTimer := t\<rparr>"
      using fire_timer_config [OF ti(1) life_time(2)] by blast
    then show ?thesis using assms(3) life_time(1) by (simp add: serves_def set_krn_def Let_def)
  next
    case (pcp e src m rsp)
    then obtain d k where dk: "handlePcpRequest phead e (dmn w, krn w) src m = Some ((d, k), rsp)"
      "w' = set_krn k (w\<lparr>dmn := d\<rparr>)"
      by (auto simp: request_def option_simps)
    have "kept r src (krn w) (pending w) (dmn w) (d, k)"
      using handlePcpRequest_kept [OF world_inv_agree [OF assms(2)] pcp(1,2) dk(1)] by blast
    moreover have "same_pool (dmn w) d" by (rule handlePcpRequest_pool [OF dk(1) pcp(2)])
    ultimately show ?thesis
      using assms(3) dk(2) by (simp add: serves_def set_krn_def kept_def same_pool_def)
  next
    case (async d ret)
    then show ?thesis
      using assms(3) HandlAsyncMessage_daemon_pool [OF async(3)] by (simp add: serves_def same_pool_def)
  qed
qed

lemma boot_serves:
  assumes "conf_ok c" "startable st" "boot c st = Some w"
  shows "serves c w"
proof -
  obtain w' where w': "boot c st = Some w'"
    "node_ips (AddrPoolList (dmn w')) = ip_range (uiStartIp (cfgAddrPool c)) (uiEndIp (cfgAddrPool c))"
    by (rule boot_ok [OF assms(1,2)])
  have inv: "tun_inv (kst st)" "uiTunState (GlobalCtx (kst st)) = 1 \<or> StorageTimer (GlobalCtx (kst st)) = None"
    using assms(2) by (auto simp: tc_inv_def startable_def)
  obtain pl d cf k where b: "InitTc \<lparr>Config = c, AddrPoolList = pl\<rparr> = (d, ConfigMsg NETLINK_INIT_CONFIG cf)"
    "handle_init_config (kst st) cf = Some k" "w = \<lparr>dmn = d, tcs = st\<lparr>kst := k\<rparr>, fetched = length (async_msgs k)\<rparr>"
    using assms(3)
    by (auto simp: boot_def InitTc_def Let_def option_simps async_nl_data_ready_def HandlAsyncMessage_def)
  obtain k' where "handle_init_config (kst st) cf = Some k'"
    "GlobalCtx k' = (set_config cf (GlobalCtx (kst st)))\<lparr>StorageTimer := Some (cfg_uiMaxLifeTime cf div 4),
       uiTunState := cfg_uiTunState cf\<rparr>"
    by (rule handle_init_config_ok [OF inv, of cf])
  then have g: "GlobalCtx k = (set_config cf (GlobalCtx (kst st)))\<lparr>StorageTimer := Some (cfg_uiMaxLifeTime cf div 4),
       uiTunState := cfg_uiTunState cf\<rparr>" using b(2) by simp
  have "node_ips (AddrPoolList (dmn w)) = ip_range (uiStartIp (cfgAddrPool c)) (uiEndIp (cfgAddrPool c))"
    using w' assms(3) by simp
  then show ?thesis
    using b(1,3) g by (auto simp: serves_def InitTc_def Let_def set_config_def)
qed

lemma reachable_serves: "reachable c st phead w \<Longrightarrow> serves c w"
proof -
  assume a: "reachable c st phead w"
  then obtain w0 where w0: "boot c st = Some w0" "(world_step phead)\<^sup>*\<^sup>* w0 w" and o: "conf_ok c" "startable st"
    by (auto simp: reachable_def)
  have "world_inv (conf_range c) w0" by (rule boot_ok [OF o]) (use w0(1) in simp)
  with w0(2) show ?thesis
  proof (induction rule: rtranclp_induct)
    case base
    show ?case by (rule boot_serves [OF o w0(1)])
  next
    case (step y z)
    then show ?case using world_step_serves world_steps_inv by blast
  qed
qed

section \<open>Packets to a lease\<close>

lemma lease_start:
  assumes "grant_valid r (s, en, ip)" "unat (usPortRange g) = unat r * 1024"
    "unat s \<le> unat port" "unat port \<le> unat en"
  shows "getstartport g port = Some s"
proof -
  obtain v where v: "unat r dvd v" "2 \<le> unat r" "v + unat r < 64" "s = port_of v"
    using assms(1) by (auto simp: grant_valid_def grant_of_def)
  let ?R = "unat (usPortRange g)"
  have en: "unat en = unat s + ?R - 1" using grant_valid_ports [OF assms(1)] assms(2) by simp
  obtain j where "v = unat r * j" using v(1) by (elim dvdE)
  then have s: "unat s = 1024 + j * ?R" using unat_port_of [of v] v assms(2) by (simp add: algebra_simps)
  have R: "0 < ?R" using assms(2) v(2) by simp
  then have ne: "usPortRange g \<noteq> 0" by auto
  have "START_PORT \<le> unat port" using s assms(3) by (simp add: START_PORT_def)
  from getstartport_eq [OF ne this] obtain q where
    q: "getstartport g port = Some q" "unat q = START_PORT + (unat port - START_PORT) div ?R * ?R"
    by blast
  have "(unat port - START_PORT) div ?R = j"
    using s en assms(3,4) R by (intro div_nat_eqI) (simp_all add: START_PORT_def algebra_simps)
  then have "unat q = unat s" using q(2) s by (simp add: START_PORT_def)
  then show ?thesis using q(1) by (simp add: unsigned_word_eqI)
qed

lemma in_ip_range: "x \<in> set (ip_range i e) \<Longrightarrow> i \<le> x \<and> x \<le> e"
proof -
  assume "x \<in> set (ip_range i e)"
  then obtain n where n: "x = word_of_nat n" "unat i \<le> n" "n \<le> unat e" by (auto simp: ip_range_def)
  have "unat e < 2 ^ 32" using unsigned_less [of e] by simp
  then have "unat x = n" unfolding n(1) by (intro unat_of_nat32) (use n in linarith)
  then show ?thesis using n by (simp add: word_le_nat_alt)
qed

lemma lease_of_pool:
  assumes "reachable c st phead w" "users (krn w) a = Some t"
  shows "grant_valid (conf_range c) (usStartPort t, usEndPort t, uiExtIP t)"
    "uiStartIp (cfgAddrPool c) \<le> uiExtIP t" "uiExtIP t \<le> uiEndIp (cfgAddrPool c)"
proof -
  let ?r = "conf_range c" and ?pl = "AddrPoolList (dmn w)"
  have A: "agree ?r (dmn w) (krn w) (pending w)" by (rule world_inv_agree [OF reachable_world_inv [OF assms(1)]])
  have "t \<in> ran (users (krn w))" using assms(2) by (rule ranI)
  then have g: "grant_at ?r (tun_key t) = (usStartPort t, usEndPort t, uiExtIP t)" "tun_key t \<in> table_keys (krn w)"
    using A by (auto simp: agree_def table_keys_def)
  then have "(usStartPort t, usEndPort t, uiExtIP t) \<in> grant_at ?r ` (table_keys (krn w) \<union> set (pending w))"
    by (metis UnI1 imageI)
  then have v: "grant_valid ?r (usStartPort t, usEndPort t, uiExtIP t)"
    "grant_blocks ?r (usStartPort t, usEndPort t, uiExtIP t) \<subseteq> used_blocks ?r ?pl"
    using A unfolding agree_def holding_def by blast+
  show "grant_valid ?r (usStartPort t, usEndPort t, uiExtIP t)" by (rule v(1))
  obtain x where x: "x \<in> grant_blocks ?r (usStartPort t, usEndPort t, uiExtIP t)"
    using pool.blocks_nonempty [OF v(1)] by blast
  then have "fst x = uiExtIP t" by (auto simp: grant_blocks_def)
  moreover have "fst x \<in> set (node_ips ?pl)" using x v(2) by (auto simp: used_blocks_def)
  moreover have "node_ips ?pl = ip_range (uiStartIp (cfgAddrPool c)) (uiEndIp (cfgAddrPool c))"
    using reachable_serves [OF assms(1)] by (simp add: serves_def Let_def)
  ultimately have "uiExtIP t \<in> set (ip_range (uiStartIp (cfgAddrPool c)) (uiEndIp (cfgAddrPool c)))" by simp
  then show "uiStartIp (cfgAddrPool c) \<le> uiExtIP t" "uiExtIP t \<le> uiEndIp (cfgAddrPool c)"
    using in_ip_range by blast+
qed

text \<open>A range is a number of whole blocks when its mask is one of whole blocks.\<close>

lemma whole_range:
  assumes "1024 dvd unat (not (usPortMask (cfgAddrPool c)) + 1)"
  shows "unat (not (usPortMask (cfgAddrPool c)) + 1) = unat (conf_range c) * 1024"
proof -
  have "unat (ucast x :: u32) = unat x" for x :: u16
  proof -
    have "unat x < 2 ^ 16" using unsigned_less [of x] by simp
    then have "unat x < 2 ^ 32" by simp
    then show ?thesis by (simp add: unsigned_ucast_eq take_bit_nat_eq_self)
  qed
  then show ?thesis using assms by (simp add: conf_range_def MINI_RANGE_VALUE_def unat_div)
qed

section \<open>Properties\<close>

text \<open>C2: in every reachable world, a TCP or UDP packet to the address and to any port of a client's lease leaves the
  kernel module as one IPv6 packet to this client, whatever happened since the range was granted.\<close>

theorem leased_ports_delivered:
  assumes "reachable c st phead w" "users (krn w) a = Some t" "1024 dvd unat (not (usPortMask (cfgAddrPool c)) + 1)"
    "h_proto skb = ETH_P_IP" "\<not> skb_nonlinear skb" "pkt = skb_data skb"
    "get8 pkt 9 = Some 6 \<and> 34 \<le> length pkt \<or> get8 pkt 9 = Some 17"
    "length pkt + 40 \<le> unat (tc_usmtu (tc_config c))" "get32 pkt 16 = Some (uiExtIP t)" "get16 pkt 22 = Some port"
    "unat (usStartPort t) \<le> unat port" "unat port \<le> unat (usEndPort t)" "mem_send e 0"
  shows "\<exists>pkt'. length pkt' = length pkt
    \<and> stream_hook e (tcs w) skb = Some (sent [fresh_skb (h_dest skb) ETH_P_IPV6
        (ipv6_header (word_of_nat (length pkt)) IPINIP (ucLocalIPv6Addr (tc_config c)) a @ pkt')] (tcs w), NF_DROP)"
proof -
  let ?g = "GlobalCtx (krn w)"
  have s: "uiTunState ?g = 1" "usPortRange ?g = not (usPortMask (cfgAddrPool c)) + 1"
    "uiExtBeginIP ?g = uiStartIp (cfgAddrPool c)" "uiExtEndIP ?g = uiEndIp (cfgAddrPool c)"
    "usMtu ?g = tc_usmtu (tc_config c)" "ucTcIPv6 ?g = ucLocalIPv6Addr (tc_config c)"
    using reachable_serves [OF assms(1)] by (simp_all add: serves_def Let_def)
  have inv: "tun_inv (krn w)"
    using reachable_world_inv [OF assms(1)] by (simp add: world_inv_def tc_inv_def)
  note l = lease_of_pool [OF assms(1,2)]
  have R: "unat (usPortRange ?g) = unat (conf_range c) * 1024" using whole_range [OF assms(3)] s(2) by simp
  have sp: "getstartport ?g port = Some (usStartPort t)" by (rule lease_start [OF l(1) R assms(11,12)])
  have c: "ucCltIPv6 t = a" by (rule users_addr [OF inv assms(2)])
  then have p: "ports (krn w) (uiExtIP t, usStartPort t) = Some t"
    using ports_users [OF inv] assms(2) by simp
  have t: "uiTunState ?g \<noteq> 0" using s(1) by simp
  have m: "length pkt + 40 \<le> unat (usMtu ?g)" "uiExtBeginIP ?g \<le> uiExtIP t" "uiExtIP t \<le> uiExtEndIP ?g"
    using assms(8) s(3-5) l(2,3) by simp_all
  show ?thesis
    using downstream_ok [OF inv refl t assms(4-7) m(1) assms(9,10) m(2,3) sp p assms(13)] unfolding c s(6) by blast
qed


definition skb_lease :: skbuff where
  "skb_lease = fresh_skb (replicate 6 2) ETH_P_IP
     (replicate 9 0 @ [17] @ replicate 6 0 @ [0xC0, 0xA8, 1, 0] @ [0, 0] @ [0x07, 0xD0] @ replicate 4 0)"

theorem leased_ports_delivered_witness:
  "\<exists>pkt'. stream_hook env7 (tcs w1) skb_lease = Some (sent [fresh_skb (h_dest skb_lease) ETH_P_IPV6
      (ipv6_header 28 IPINIP (replicate 16 1) (client 6) @ pkt')] (tcs w1), NF_DROP)"
proof -
  let ?p = "skb_data skb_lease" and ?t = "leased (client 6) (1024, 3071, 0xC0A80100)"
  have u: "users (krn w1) (client 6) = Some ?t" by (simp add: sample_w1(2))
  have d: "1024 dvd unat (not (usPortMask (cfgAddrPool conf_sample)) + 1)" by code_simp
  have f: "h_proto skb_lease = ETH_P_IP" "\<not> skb_nonlinear skb_lease"
    "get8 ?p 9 = Some 6 \<and> 34 \<le> length ?p \<or> get8 ?p 9 = Some 17"
    "length ?p + 40 \<le> unat (tc_usmtu (tc_config conf_sample))" "get32 ?p 16 = Some (uiExtIP ?t)"
    "get16 ?p 22 = Some 2000" "unat (usStartPort ?t) \<le> unat (2000 :: u16)" "unat (2000 :: u16) \<le> unat (usEndPort ?t)"
    by code_simp+
  have h: "length ?p = 28" "(word_of_nat 28 :: u16) = 28"
    "ucLocalIPv6Addr (tc_config conf_sample) = replicate 16 1"
    by (simp_all add: skb_lease_def fresh_skb_def conf_sample_def)
  show ?thesis
    using leased_ports_delivered [OF sample_w1(1) u d f(1,2) refl f(3-8) net7_facts(7)]
    unfolding h(1) h(2,3) by blast
qed

end
