(* ===== verification/EndToEnd.thy ===== *)
theory EndToEnd
  imports CpeTraffic
begin

text \<open>
  The customer's box and the concentrator together: a packet of a host leaves the concentrator translated
  to the customer's address and a port of the lease, and the answer to it goes back to the host.
\<close>

section \<open>One lease, two machines\<close>

text \<open>The concentrator serves the lease \<open>L\<close>: the tunnel \<open>t\<close> of the box is in its table, under the box's
  IPv6 address and under every port of the lease.\<close>

definition serves_lease :: "tcstate \<Rightarrow> LAFT_NAT_INFO \<Rightarrow> TUNNEL_CTX \<Rightarrow> bool" where
  "serves_lease st L t \<longleftrightarrow> (let g = GlobalCtx (kst st) in
     tun_inv (kst st) \<and> uiTunState g \<noteq> 0 \<and> users (kst st) (IPv6LocalAddr L) = Some t \<and> ucCltIPv6 t = IPv6LocalAddr L
     \<and> IPv6LocalAddr L \<noteq> ucTcIPv6 g \<and> length (ucTcIPv6 g) = 16
     \<and> (\<exists>ip. PubIP L = be32 ip \<and> uiExtBeginIP g \<le> ip \<and> ip \<le> uiExtEndIP g
          \<and> (\<forall>np. LowPort L \<le> np \<longrightarrow> np \<le> HighPort L \<longrightarrow>
               (\<exists>sp. getstartport g np = Some sp \<and> ports (kst st) (ip, sp) = Some t))))"

lemma tunnelled_unpacked:
  assumes s: "serves_lease st L t" and L: "lease_bytes L" and r: "34 \<le> length r" "length r < 2 ^ 16" and m: "mem_send e 0"
  obtains out where "patch_tcpmss (GlobalCtx (kst st)) r (length r) = Some out" "length out = length r"
    "stream_hook e st (tunnel_skb (tunnelled L r)) = Some (sent [fresh_skb [] ETH_P_IP out] st, NF_DROP)"
proof -
  let ?g = "GlobalCtx (kst st)" and ?b = "tunnel_skb (tunnelled L r)"
  note S = s [unfolded serves_lease_def Let_def]
  have la: "length (IPv6LocalAddr L) = 16" "length (IPv6RemoteAddr L) = 16" using L by (simp_all add: lease_bytes_def)
  note f = ipv6_header_fields(1-3) [OF la, of "word_of_nat (length r)" IPINIP r]
  have n: "unat (word_of_nat (length r) :: u16) = length r" using r(2) by (intro of_nat_inverse [OF refl]) simp
  have d: "skb_data ?b = ipv6_header (word_of_nat (length r)) IPINIP (IPv6LocalAddr L) (IPv6RemoteAddr L) @ r"
    by (simp add: tunnel_skb_def tunnelled_def)
  have h: "length (ipv6_header (word_of_nat (length r)) IPINIP (IPv6LocalAddr L) (IPv6RemoteAddr L)) = 40"
    by (rule ipv6_header_fields(5) [OF la])
  have p: "h_proto ?b = ETH_P_IPV6" "h_dest ?b = []" by (simp_all add: tunnel_skb_def)
  have l: "length (skb_data ?b) = unat (word_of_nat (length r) :: u16) + 40" unfolding d n using h by simp
  have dr: "drop 40 (skb_data ?b) = r" unfolding d using h by simp
  have m34: "34 \<le> unat (word_of_nat (length r) :: u16)" using r(1) n by simp
  obtain out where "patch_tcpmss ?g (drop 40 (skb_data ?b)) (unat (word_of_nat (length r) :: u16)) = Some out"
    "length out = unat (word_of_nat (length r) :: u16)"
    "stream_hook e st ?b = Some (sent [fresh_skb (h_dest ?b) ETH_P_IP out] st, NF_DROP)"
    using upstream_ok [OF _ refl _ p(1) refl f(2) [folded d] f(3) [folded d] _ _ f(1) [folded d] l m34 m, where t = t] S by blast
  then show ?thesis using that dr n p(2) by simp
qed

text \<open>The concentrator's way down puts an answer in the tunnel to the box.\<close>

lemma answer_tunnelled:
  assumes s: "serves_lease st L t" and L: "lease_bytes L" and np: "LowPort L \<le> np" "np \<le> HighPort L"
    and q: "replies_to L p np q" "p ! 9 = IPPROTO_TCP \<or> p ! 9 = IPPROTO_UDP" "length q + 40 \<le> unat (usMtu (GlobalCtx (kst st)))"
    and k: "h_proto skb = ETH_P_IP" "\<not> skb_nonlinear skb" "skb_data skb = q" and m: "mem_send e 0"
  obtains q' b where "patch_tcpmss (GlobalCtx (kst st)) q (length q) = Some q'"
    "stream_hook e st skb = Some (sent [b] st, NF_DROP)" "from_tunnel L q' b" "replies_to L p np q'"
proof -
  let ?g = "GlobalCtx (kst st)"
  note S = s [unfolded serves_lease_def Let_def] and R = q(1) [unfolded replies_to_def]
  obtain ip sp where ip: "PubIP L = be32 ip" "uiExtBeginIP ?g \<le> ip" "ip \<le> uiExtEndIP ?g"
    "getstartport ?g np = Some sp" "ports (kst st) (ip, sp) = Some t"
    using S np by blast
  have l: "34 \<le> length q" using R by simp
  have g9: "get8 q 9 = Some (q ! 9)" using l by (simp add: get8_def)
  have pr: "get8 q 9 = Some 6 \<and> 34 \<le> length q \<or> get8 q 9 = Some 17"
    using g9 q(2) R l by (auto simp: IPPROTO_TCP_def IPPROTO_UDP_def)
  have dst: "get32 q 16 = Some ip" by (rule get32_at) (use R ip(1) l in auto)
  have port: "get16 q 22 = Some np" using R by simp
  obtain q' where q': "patch_tcpmss ?g q (length q) = Some q'" "length q' = length q"
    "stream_hook e st skb = Some (sent [fresh_skb (h_dest skb) ETH_P_IPV6
        (ipv6_header (word_of_nat (length q)) IPINIP (ucTcIPv6 ?g) (ucCltIPv6 t) @ q')] st, NF_DROP)"
    using downstream_ok [OF _ refl _ k(1,2) k(3) [symmetric] pr q(3) dst port ip(2,3,4,5) m] S by blast
  let ?b = "fresh_skb (h_dest skb) ETH_P_IPV6 (ipv6_header (word_of_nat (length q)) IPINIP (ucTcIPv6 ?g) (ucCltIPv6 t) @ q')"
  have "from_tunnel L q' ?b" using S q'(2) by (auto simp: from_tunnel_def fresh_skb_def)
  moreover have "replies_to L p np q'"
  proof -
    have ro: "reply_ok q" using R by simp
    obtain kd where kd: "createpktdownkey q = Some kd" by (rule down_keyE [OF ro])
    obtain q2 where q2: "patch_tcpmss ?g q (length q) = Some q2" "reply_ok q2" "length q2 = length q"
      "has_flags q2 = has_flags q" "\<And>i. i < 36 \<Longrightarrow> i < length q \<Longrightarrow> q2 ! i = q ! i"
      by (rule patch_keeps_reply [OF ro l kd, of ?g]) blast
    have e: "q2 = q'" using q2(1) q'(1) by simp
    have b: "q' ! i = q ! i" if "i < 34" for i using q2(5) [of i] that l e by simp
    have "take 4 (drop 16 q') = take 4 (drop 16 q)" by (rule nth_equalityI) (use q'(2) b l in auto)
    moreover have "get32 q' 12 = get32 q 12" "get16 q' 22 = get16 q 22" "q' ! 9 = q ! 9"
      using b q'(2) l by (auto simp: get32_def get16_def)
    ultimately show ?thesis using R q2(2-4) e by (simp add: replies_to_def)
  qed
  ultimately show ?thesis using that q' by blast
qed

text \<open>C3: A host behind a ready box (its invariant holds, and a TCP port is free unless the counter of TCP ports says none
  is) talks to a server on the Internet: its TCP or UDP packet, which fits the tunnel, goes through the box
  and the concentrator and leaves with the customer's address and a port of the lease; and whatever the server answers to that
  address and port, when it arrives in the state the packet has left, goes back through both to the host's own address and port.  Both machines clamp the MSS of a SYN, and
  otherwise only the addresses, the ports and their checksums change.\<close>

theorem internet_round_trip:
  assumes "box_ready c" "surroundings_ok e" "outbound p" "p = skb_data skb" "key_of p = Some up" "\<not> resets p"
    "p ! 9 = IPPROTO_TCP \<or> p ! 9 = IPPROTO_UDP" "fits skb" "stream_up_hook e c skb = Some (c', nf_stolen)"
    "L = laft (natm c)" "serves_lease st L t" "\<And>k. mem_send d k"
  shows "\<exists>np p' r b out. LowPort L \<le> np \<and> np \<le> HighPort L \<and> cpe_patch_tcpmss p (length p) = Some p' \<and> translated L np p' r
    \<and> outq c' = outq c @ [b] \<and> patch_tcpmss (GlobalCtx (kst st)) r (length r) = Some out
    \<and> stream_hook d st b = Some (sent [fresh_skb [] ETH_P_IP out] st, NF_DROP)
    \<and> (\<forall>q skb' e' fr. h_proto skb' = ETH_P_IP \<and> \<not> skb_nonlinear skb' \<and> skb_data skb' = q \<and> replies_to L p np q
          \<and> length q + 40 \<le> unat (usMtu (GlobalCtx (kst st))) \<and> lan_ok e' \<longrightarrow>
        (\<exists>b' q1 q2 r' c''. stream_hook d st skb' = Some (sent [b'] st, NF_DROP)
           \<and> patch_tcpmss (GlobalCtx (kst st)) q (length q) = Some q1
           \<and> stream_down_hook e' c' fr b' = Some (c'', fr, nf_drop) \<and> cpe_patch_tcpmss q1 (length q1) = Some q2
           \<and> returned p q2 r' \<and> outq c'' = outq c' @ [lan_skb r']))"
proof -
  note b = assms(1) [unfolded box_ready_def] and o = assms(3) [unfolded outbound_def]
  have I: "cpe_inv c" "tcp_room (laft (natm c))" "lease_bytes (laft (natm c))" using b by simp_all
  have p: "packet_ok p" "34 \<le> length p" "length p < 2 ^ 16 - 8" "ipdst_filter p = Some False"
    "stream_len_check p = Some (None, 1)" using o by simp_all
  have np9: "p ! 9 \<noteq> IPPROTO_ICMP" using assms(7) protos by auto
  have po: "ported (up_proto up)" using key_fields(4) [OF p(1) assms(5)] assms(7) by (auto simp: ported_def IPPROTO_TCP_def IPPROTO_UDP_def)
  show ?thesis
  proof (rule stream_up_ok [OF I assms(2) p(1-3) [unfolded assms(4)] assms(5) [unfolded assms(4)] p(4,5) [unfolded assms(4)]], goal_cases)
    case (1 c1 dd np p' r out)
    have c1: "c1 = c'" using 1(1) assms(9) by simp
    have l: "same_lease L (laft (natm c'))" and f: "flows (natm c') dd = Some (up, np)" and i: "cpe_inv c'"
      and ports: "LowPort L \<le> np" "np \<le> HighPort L"
      using 1 assms(4,6,10) c1 po by simp_all
    have L: "lease_bytes L" "lease_bytes (laft (natm c'))" using I(3) l assms(10) by (simp_all add: lease_bytes_def same_lease_def)
    have e: "replies_to L p np q = replies_to (laft (natm c')) p np q" "from_tunnel L q x = from_tunnel (laft (natm c')) q x" for q x
      using l by (simp_all add: replies_to_def from_tunnel_def same_lease_def)
    have pl: "length p' = length p"
      by (rule cpe_patch_ok [OF p(2)]) (use 1(3) assms(4) in simp)
    have rl: "length r = length p" using 1(4) pl by (simp add: translated_def Let_def)
    have out: "out = [tunnel_skb (tunnelled L r)]" using 1(5) assms(8,10) by (simp add: in_tunnel_def)
    have r34: "34 \<le> length r" "length r < 2 ^ 16" using rl p(2,3) by simp_all
    obtain up_out where u: "patch_tcpmss (GlobalCtx (kst st)) r (length r) = Some up_out"
      "stream_hook d st (tunnel_skb (tunnelled L r)) = Some (sent [fresh_skb [] ETH_P_IP up_out] st, NF_DROP)"
      by (rule tunnelled_unpacked [OF assms(11) L(1) r34 assms(12)]) blast
    have back': "\<exists>b' q1 q2 r' c''. stream_hook d st skb' = Some (sent [b'] st, NF_DROP)
           \<and> patch_tcpmss (GlobalCtx (kst st)) q (length q) = Some q1
           \<and> stream_down_hook e' c' fr b' = Some (c'', fr, nf_drop) \<and> cpe_patch_tcpmss q1 (length q1) = Some q2
           \<and> returned p q2 r' \<and> outq c'' = outq c' @ [lan_skb r']"
      if h: "h_proto skb' = ETH_P_IP" "\<not> skb_nonlinear skb'" "skb_data skb' = q" "replies_to L p np q"
        "length q + 40 \<le> unat (usMtu (GlobalCtx (kst st)))" "lan_ok e'" for q skb' e' fr
    proof -
      obtain q1 b' where a: "patch_tcpmss (GlobalCtx (kst st)) q (length q) = Some q1"
        "stream_hook d st skb' = Some (sent [b'] st, NF_DROP)" "from_tunnel L q1 b'" "replies_to L p np q1"
        by (rule answer_tunnelled [OF assms(11) L(1) ports h(4) assms(7) h(5) h(1-3) assms(12)])
      obtain c'' q2 r' where z: "stream_down_hook e' c' fr b' = Some (c'', fr, nf_drop)" "cpe_patch_tcpmss q1 (length q1) = Some q2"
        "returned p q2 r'" "outq c'' = outq c' @ [lan_skb r']"
        by (rule reply_back [OF i L(2) f h(6) p(1) assms(5) np9 a(4) [unfolded e(1)] a(3) [unfolded e(2)], where fr = fr]) blast
      show ?thesis using a(1,2) z by blast
    qed
    show ?case
      using ports 1(3,4,6) c1 out u back' assms(4,10) by (intro exI [of _ np] exI [of _ p'] exI [of _ r]
        exI [of _ "tunnel_skb (tunnelled L r)"] exI [of _ up_out]) blast
  next
    case 2
    then show ?case using assms(9) by simp
  next
    case (3 c1)
    then show ?case using assms(9) by simp
  qed
qed

section \<open>The sample box and the sample concentrator\<close>

lemma tunnel7_ports:
  assumes "1024 \<le> np" "np \<le> 2047"
  shows "getstartport global7 np = Some 1024" "ports state7 (0x01020304, 1024) = Some tunnel7"
proof -
  have n: "unat np < 2048" "1024 \<le> unat np" using assms by (simp_all add: word_le_nat_alt)
  show "getstartport global7 np = Some 1024"
  proof (rule getstartport_eq [of global7 np])
    fix r assume r: "getstartport global7 np = Some r"
      "unat r = START_PORT + (unat np - START_PORT) div unat (usPortRange global7) * unat (usPortRange global7)"
    have "unat r = 1024" using r(2) n by (simp add: START_PORT_def global7_def)
    then have "r = 1024" by (intro word_unat_eq_iff [THEN iffD2]) simp
    then show ?thesis using r(1) by simp
  qed (use n in \<open>simp_all add: global7_def START_PORT_def\<close>)
  show "ports state7 (0x01020304, 1024) = Some tunnel7"
    using state7_facts(1,3) by (simp add: ports_Some_iff [OF state7_inv] tunnel7_def)
qed

lemma net7_serves: "serves_lease net7 lease6 tunnel7"
proof -
  have b: "PubIP lease6 = be32 0x01020304" by (simp add: lease6_def be32_def)
  have "\<exists>sp. getstartport global7 np = Some sp \<and> ports state7 (0x01020304, sp) = Some tunnel7"
    if "LowPort lease6 \<le> np" "np \<le> HighPort lease6" for np
    using tunnel7_ports [of np] that by (auto simp: lease6_def)
  moreover have "uiExtBeginIP global7 \<le> 0x01020304" "0x01020304 \<le> uiExtEndIP global7" by (simp_all add: global7_def)
  ultimately show ?thesis
    using net7_facts b by (auto simp: serves_lease_def Let_def lease6_def net7_def tunnel7_def global7_def)
qed

theorem internet_round_trip_witness:
  "\<exists>c np b r out. stream_up_hook env6 box6 (host_skb IPPROTO_UDP 0) = Some (c, nf_stolen) \<and> outq c = [b]
    \<and> translated lease6 np (host_packet IPPROTO_UDP 0) r \<and> stream_hook env7 net7 b = Some (sent [fresh_skb [] ETH_P_IP out] net7, NF_DROP)"
proof -
  let ?q = IPPROTO_UDP
  note h = host_skb_facts [of ?q 0]
  obtain c d np where c: "stream_up_hook env6 box6 (host_skb ?q 0) = Some (c, nf_stolen)"
    by (rule first_packet [of ?q 0]) (simp_all add: IPPROTO_UDP_def IPPROTO_TCP_def)
  have r: "\<not> resets (skb_data (host_skb ?q 0))" "skb_data (host_skb ?q 0) ! 9 = IPPROTO_TCP \<or> skb_data (host_skb ?q 0) ! 9 = ?q"
    using h by (simp_all add: resets_def IPPROTO_UDP_def IPPROTO_TCP_def)
  have m: "mem_send env7 k" for k by (simp add: env7_def all_ok_def)
  have u: "cpe_patch_tcpmss (host_packet ?q 0) (length (host_packet ?q 0)) = Some (host_packet ?q 0)"
    by (simp add: host_packet_def cpe_patch_tcpmss_def patch_tcpmss_def get8_def get16_def IPPROTO_UDP_def IPPROTO_TCP_def)
  show ?thesis
    using internet_round_trip [OF box6_ready env6_ok host_outbound refl h(1) r h(4) c box6_facts(5) [symmetric] net7_serves m]
      c h(5) box6_facts(6) u by auto
qed

end
