(* ===== verification/Lease.thy ===== *)
theory Lease
  imports PcpClient Delivery EndToEnd
begin

text \<open>
  From the request of the box to its traffic: the lease the carrier grants is the lease the client process
  stores, the lease the kernel module of the box is given, and the lease the concentrator serves.
\<close>

section \<open>The answer arrives\<close>

lemma in_buffer_fields:
  assumes "length d = 52"
  shows "i < 52 \<Longrightarrow> get8 (in_buffer d) i = get8 d i" "i + 1 < 52 \<Longrightarrow> get16 (in_buffer d) i = get16 d i"
    "i + 3 < 52 \<Longrightarrow> get32 (in_buffer d) i = get32 d i"
  using assms by (simp_all add: in_buffer_def get8_def get16_def get32_def nth_append)

lemma server_answer_taken:
  assumes a: "answer rsp m 0 lt val pm" and m: "length m = 52" "get8 m 1 = Some 100" and ip: "get32 rsp 40 = Some ip"
  obtains c1 where "taken_answer now (new_ctx clt srv port) rsp c1" "granting rsp val pm (be32 ip)"
    "uiLeftTime c1 = lt" "aucCltIPv6 c1 = clt"
proof -
  note A = a [unfolded answer_def]
  have l: "length rsp = 52" using A m(1) by simp
  note f = in_buffer_fields [OF l]
  have "get8 rsp 1 = Some (100 OR 0x80)" using A m(2) by simp
  then have op: "take_bit 7 (rsp ! 1) = PCP_OP_CODE" by (simp add: get8_def PCP_OP_CODE_def split: if_splits)
  have g: "get32 (in_buffer rsp) 4 = Some lt" using A f(3) by simp
  have "getn (in_buffer rsp) 40 4 = Some (be32 ip)" by (rule field_bytes(1)) (use ip f(3) in simp)
  then have gr: "granting rsp val pm (be32 ip)" using A f by (simp add: granting_def)
  have n: "3 \<le> length rsp" "length rsp \<le> 1024" "4 dvd length rsp" unfolding l by simp_all
  obtain c1 where "taken_answer now (new_ctx clt srv port) rsp c1" "uiLeftTime c1 = lt" "aucCltIPv6 c1 = clt"
    by (rule first_answer [OF n op g])
  then show ?thesis using that gr by blast
qed

section \<open>The message to the kernel module\<close>

lemma commit_read:
  assumes "length (IPv6Local n) = 16" "length (IPv6Remote n) = 16" "length (nat_PubIP n) = 4"
    "nP = (int (unat (nat_HighPort n)) - int (unat (nat_LowPort n)) + 1) div 8 + 1" "0 \<le> nP"
  shows "nl_pcp_data_ready True True (commit_message pid (natinfo_bytes n)) no_lease =
    Some \<lparr>IPv6LocalAddr = IPv6Local n, IPv6RemoteAddr = IPv6Remote n, PubIP = nat_PubIP n, LowPort = nat_LowPort n,
      HighPort = nat_HighPort n, tcpport = kmalloc_ints True nP, udpport = kmalloc_ints True nP, tcp_port_used = 0, udp_port_used = 0\<rparr>"
proof -
  let ?h = "le16 0 @ le16 0 @ le32 0 @ le32 pid" and ?lo = "le16 (nat_LowPort n)" and ?hi = "le16 (nat_HighPort n)"
  have b: "length (natinfo_bytes n) = 40" using assms(1-3) by (simp add: natinfo_bytes_def)
  define M where "M = commit_message pid (natinfo_bytes n)"
  have M: "M = le32 56 @ ?h @ IPv6Local n @ IPv6Remote n @ nat_PubIP n @ ?lo @ ?hi"
    by (simp add: M_def commit_message_def b) (simp add: natinfo_bytes_def)
  have l: "length M = 56" using assms(1-3) by (simp add: M)
  have g: "getn (x @ y @ z) (length x) (length y) = Some y" for x y z :: "u8 list" by (simp add: getn_def)
  have "getn M 16 16 = Some (IPv6Local n)"
    using g [of "le32 56 @ ?h" "IPv6Local n" "IPv6Remote n @ nat_PubIP n @ ?lo @ ?hi"] assms(1) by (simp add: M)
  moreover have "getn M 32 16 = Some (IPv6Remote n)"
    using g [of "le32 56 @ ?h @ IPv6Local n" "IPv6Remote n" "nat_PubIP n @ ?lo @ ?hi"] assms(1,2) by (simp add: M)
  moreover have "getn M 48 4 = Some (nat_PubIP n)"
    using g [of "le32 56 @ ?h @ IPv6Local n @ IPv6Remote n" "nat_PubIP n" "?lo @ ?hi"] assms(1-3) by (simp add: M)
  moreover have "ld32 M 0 = Some 56" using le_fields(1) [of "[]" 56] by (simp add: M)
  moreover have "ld16 M 52 = Some (nat_LowPort n)"
    using le_fields(2) [of "le32 56 @ ?h @ IPv6Local n @ IPv6Remote n @ nat_PubIP n" "nat_LowPort n" ?hi] assms(1-3) by (simp add: M)
  moreover have "ld16 M 54 = Some (nat_HighPort n)"
    using le_fields(2) [of "le32 56 @ ?h @ IPv6Local n @ IPv6Remote n @ nat_PubIP n @ ?lo" "nat_HighPort n" "[]"] assms(1-3) by (simp add: M)
  moreover have "kmalloc_ints True nP \<noteq> Null" using assms(5) by (simp add: kmalloc_ints_def)
  ultimately show ?thesis
    using l unfolding M_def [symmetric]
    by (simp add: nl_pcp_data_ready_def no_lease_def kfree_ints_def assms(4) Let_def)
qed

section \<open>The lease is served\<close>

lemma reachable_serves_lease:
  assumes R: "reachable cf st phead w" and u: "users (krn w) a = Some t"
    and d: "1024 dvd unat (not (usPortMask (cfgAddrPool cf)) + 1)"
    and tc: "a \<noteq> ucLocalIPv6Addr (tc_config cf)" "length (ucLocalIPv6Addr (tc_config cf)) = 16"
    and L: "IPv6LocalAddr L = a" "PubIP L = be32 (uiExtIP t)" "LowPort L = usStartPort t" "HighPort L = usEndPort t"
  shows "serves_lease (tcs w) L t"
proof -
  let ?g = "GlobalCtx (krn w)"
  have s: "uiTunState ?g = 1" "usPortRange ?g = not (usPortMask (cfgAddrPool cf)) + 1"
    "uiExtBeginIP ?g = uiStartIp (cfgAddrPool cf)" "uiExtEndIP ?g = uiEndIp (cfgAddrPool cf)"
    "ucTcIPv6 ?g = ucLocalIPv6Addr (tc_config cf)"
    using reachable_serves [OF R] by (simp_all add: serves_def Let_def)
  have inv: "tun_inv (krn w)" using reachable_world_inv [OF R] by (simp add: world_inv_def tc_inv_def)
  note l = lease_of_pool [OF R u]
  have rg: "unat (usPortRange ?g) = unat (conf_range cf) * 1024" using whole_range [OF d] s(2) by simp
  have c: "ucCltIPv6 t = a" by (rule users_addr [OF inv u])
  then have p: "ports (krn w) (uiExtIP t, usStartPort t) = Some t" using ports_users [OF inv] u by simp
  have "\<exists>sp. getstartport ?g np = Some sp \<and> ports (krn w) (uiExtIP t, sp) = Some t"
    if "usStartPort t \<le> np" "np \<le> usEndPort t" for np
    using lease_start [OF l(1) rg, of np] that p by (auto simp: word_le_nat_alt)
  then show ?thesis
    using inv s(1,3-5) l(2,3) u c tc L unfolding serves_lease_def Let_def by auto
qed

lemma granted_end:
  assumes "grant_valid r (s, en, ip)" "unat (not pm + 1 :: u16) = unat r * 1024"
  shows "s + (not pm + 1) - 1 = en" "int (unat en) - int (unat s) + 1 = 1024 * int (unat r)" "s \<le> en" "2 \<le> unat r" "unat r < 64"
proof -
  note g = grant_valid_ports [OF assms(1)]
  show r: "2 \<le> unat r" "unat r < 64" using assms(1) by (auto simp: grant_valid_def)
  have e: "unat en = unat s + unat r * 1024 - 1" by (rule g(2))
  have lt: "unat en < 2 ^ 16" using unsigned_less [of en] by simp
  show "s \<le> en" using e r(1) by (simp add: word_le_nat_alt)
  show "int (unat en) - int (unat s) + 1 = 1024 * int (unat r)"
  proof -
    have "unat en + 1 = unat s + unat r * 1024" using e r(1) by simp
    then show ?thesis by linarith
  qed
  have w: "s + x - 1 = word_of_nat (unat s + unat x - 1)" if "1 \<le> unat x" for x :: u16
    using that by (simp add: of_nat_diff)
  have "s + (not pm + 1) - 1 = word_of_nat (unat s + unat (not pm + 1 :: u16) - 1)"
    by (rule w) (use r(1) assms(2) in linarith)
  also have "\<dots> = word_of_nat (unat en)" unfolding assms(2) e ..
  finally show "s + (not pm + 1) - 1 = en" by simp
qed

text \<open>The box that boots with the message.\<close>

lemma lease_boots:
  assumes m: "nl_pcp_data_ready True True msg no_lease = Some L" and b: "whole_block L"
  obtains box fr where "cpe_boot (\<lambda>_. True) buf msg = Some (box, fr)" "box_ready box" "laft (natm box) = L"
proof -
  obtain box fr where c: "cpe_boot (\<lambda>_. True) buf msg = Some (box, fr)" "laft (natm box) = L"
    using m by (simp add: cpe_boot_def cpe_modules_init_def DBKeyHashTableCreate_def initfragmodule_def ShashCreate_def Let_def)
  have w: "whole_block (laft (natm box))" using b c(2) by simp
  note o = cpe_boot_ok [OF c(1) w]
  have "tcp.taken L = {}" using lease_message [OF m] b by (simp add: whole_block_def)
  moreover have "0 < block L" by (simp add: block_def)
  ultimately have "tcp_room L" by (auto simp: tcp_room_def)
  then have "box_ready box" using o(1,2) c(2) by (simp add: box_ready_def)
  then show ?thesis using that c by blast
qed

text \<open>C4: A new client asks for a lease, and the carrier has a range for it: the request the client sends is the one the
  daemon answers, the answer the one the client takes, and the box that is given the client's message is ready, with exactly the
  granted range of the granted address, which the concentrator serves for it.\<close>

theorem lease_reaches_box:
  assumes "reachable cf st phead w" "no_faults e"
    "option_list_search_opcode phead 100 = Some p0" "option_list_search_option p0 0 = Some 0"
    "length clt = 16" "users (krn w) clt = None" "card (dom (users (krn w))) < nat MAXBPSIZE" "allocates_at e w a"
    "AllocAddrPort (AddrPoolList (dmn w)) (conf_range cf) = Some (pl, Some (s, en, ip))"
    "1024 dvd unat (not (usPortMask (cfgAddrPool cf)) + 1)"
    "clt \<noteq> ucLocalIPv6Addr (tc_config cf)" "length (ucLocalIPv6Addr (tc_config cf)) = 16"
    "length (IPv6Remote n) = 16" "nat_LowPort n \<noteq> s"
  shows "\<exists>w' rsp n' c' msg box fr.
      request phead e clt (pcp_request (new_ctx clt srv port) 86400) w = Some (w', Some rsp) \<and> reachable cf st phead w'
    \<and> work_round pid n (new_ctx clt srv port) ((True, now, Datagram ea srv q rsp) # evs) =
        Some (n', c', 1, [Sent srv PCP_PORT (pcp_request (new_ctx clt srv port) 86400), Slept 60], Some msg)
    \<and> cpe_boot (\<lambda>_. True) buf msg = Some (box, fr) \<and> box_ready box
    \<and> LowPort (laft (natm box)) = s \<and> HighPort (laft (natm box)) = en \<and> PubIP (laft (natm box)) = be32 ip
    \<and> serves_lease (tcs w') (laft (natm box)) (leased clt (s, en, ip))"
proof -
  let ?c = "new_ctx clt srv port" and ?pm = "usPortMask (cfgAddrPool cf)"
  let ?m = "pcp_request ?c 86400"
  have W: "world_inv (conf_range cf) w" by (rule reachable_world_inv [OF assms(1)])
  have cl: "length (aucCltIPv6 ?c) = 16" using assms(5) by simp
  note f = request_fields [OF cl, of 86400]
  have mr: "map_request phead ?m clt 86400" using f assms(3,4) by (auto simp: map_request_def)
  obtain w' rsp where w': "request phead e clt ?m w = Some (w', Some rsp)" "world_step phead w w'"
    "answer rsp ?m 0 SUCCESS_LIFETIME s (usPortMask (cfgAddrPool (Config (dmn w))))" "get32 rsp 40 = Some ip"
    "users (krn w') = (users (krn w))(clt \<mapsto> leased clt (s, en, ip))"
    by (rule request_new [OF W assms(2) mr _ assms(6,7) allocates_kmem [OF assms(8)] assms(9)]) simp
  have R: "reachable cf st phead w'" by (rule reachable_step [OF assms(1) w'(2)])
  have pm: "usPortMask (cfgAddrPool (Config (dmn w))) = ?pm"
    using reachable_serves [OF assms(1)] by (simp add: serves_def Let_def)
  have a: "answer rsp ?m 0 SUCCESS_LIFETIME s ?pm" using w'(3) unfolding pm .
  obtain c1 where c1: "taken_answer now ?c rsp c1" "granting rsp s ?pm (be32 ip)" "uiLeftTime c1 = SUCCESS_LIFETIME" "aucCltIPv6 c1 = clt"
    by (rule server_answer_taken [OF a f(1,3) w'(4)])
  obtain x where x: "le32 x = be32 ip"
    "PCPRequestHandle ?c 86400 ((True, now, Datagram ea (aucSrvIPv6 ?c) q rsp) # evs) =
       Some (store_lease ?pm s x c1, 1, [Sent (aucSrvIPv6 ?c) PCP_PORT ?m])"
    by (rule granting_handled [OF c1(1,2)])
  let ?c2 = "store_lease ?pm s x c1"
  let ?n = "set_natinfo ?c2 n"
  have u: "users (krn w') clt = Some (leased clt (s, en, ip))" using w'(5) by simp
  have gv: "grant_valid (conf_range cf) (s, en, ip)" using lease_of_pool(1) [OF R u] by (simp add: leased_def)
  have wr: "unat (not ?pm + 1 :: u16) = unat (conf_range cf) * 1024" by (rule whole_range [OF assms(10)])
  note g = granted_end [OF gv wr]
  have n: "nat_LowPort ?n = s" "nat_HighPort ?n = en" "nat_PubIP ?n = be32 ip" "IPv6Local ?n = clt" "IPv6Remote ?n = IPv6Remote n"
    using g(1) x(1) c1(4) by (simp_all add: set_natinfo_def)
  let ?nP = "(int (unat (nat_HighPort ?n)) - int (unat (nat_LowPort ?n)) + 1) div 8 + 1"
  have nP: "0 \<le> ?nP" unfolding n(1,2) g(2) by simp
  have l: "length (IPv6Local ?n) = 16" "length (IPv6Remote ?n) = 16" "length (nat_PubIP ?n) = 4" using n assms(5,13) by simp_all
  obtain L where L: "nl_pcp_data_ready True True (commit_message pid (natinfo_bytes ?n)) no_lease = Some L"
    "LowPort L = s" "HighPort L = en" "PubIP L = be32 ip" "IPv6LocalAddr L = clt" "tcpport L = kmalloc_ints True ?nP"
    using commit_read [OF l refl nP] n by simp
  have "whole_block L"
  proof -
    have "int (block L) = 1024 * int (unat (conf_range cf))" using g(2,3) L(2,3) by (simp add: block_def word_le_nat_alt of_nat_diff)
    then have b: "block L = 1024 * unat (conf_range cf)" by linarith
    have "tcpport L \<noteq> Null" using nP unfolding L(6) by (simp add: kmalloc_ints_def)
    moreover have "32 dvd block L" unfolding b by simp
    ultimately show ?thesis using g(3,5) L(2,3) b by (simp add: whole_block_def)
  qed
  from lease_boots [OF L(1) this] obtain box fr where bx: "cpe_boot (\<lambda>_. True) buf (commit_message pid (natinfo_bytes ?n)) = Some (box, fr)"
    "box_ready box" "laft (natm box) = L" by blast
  have "serves_lease (tcs w') L (leased clt (s, en, ip))"
    by (rule reachable_serves_lease [OF R u assms(10-12)]) (use L in \<open>simp_all add: leased_def\<close>)
  moreover have "work_round pid n ?c ((True, now, Datagram ea srv q rsp) # evs) =
      Some (?n, ?c2, 1, [Sent srv PCP_PORT ?m, Slept 60], Some (commit_message pid (natinfo_bytes ?n)))"
  proof -
    have t: "uiLeftTime ?c = 86400" by (simp add: new_ctx_def)
    show ?thesis using x(2) assms(14) c1(3) by (simp add: work_round_def t Let_def SUCCESS_LIFETIME_def)
  qed
  ultimately show ?thesis using w'(1) R bx L(2-4) by blast
qed

theorem lease_reaches_box_witness:
  "\<exists>w' rsp c' n' as msg box fr. request phead_sample (env 9) (client 6) (pcp_request (new_ctx (client 6) (replicate 16 1) 5351) 86400) w0 = Some (w', Some rsp)
    \<and> work_round 9 (nat6\<lparr>nat_LowPort := 0\<rparr>) (new_ctx (client 6) (replicate 16 1) 5351) [(True, 50, Datagram False (replicate 16 1) 5351 rsp)] =
        Some (n', c', 1, as, Some msg)
    \<and> cpe_boot (\<lambda>_. True) (replicate 66000 0) msg = Some (box, fr)
    \<and> serves_lease (tcs w') (laft (natm box)) (leased (client 6) (1024, 3071, 0xC0A80100))"
proof -
  have "map_request phead_sample (req (client 6) 60) (client 6) 60" by (simp add: sample_req)
  then obtain p0 where p: "option_list_search_opcode phead_sample 100 = Some p0" "option_list_search_option p0 0 = Some 0"
    unfolding map_request_def by blast
  have a: "allocates_at (env 9) w0 9" by (rule sample_allocates) (simp add: sample_boot_mem)
  have f: "length (client 6) = 16" "users (krn w0) (client 6) = None" "card (dom (users (krn w0))) < nat MAXBPSIZE"
    by (simp_all add: sample_boot MAXBPSIZE_def)
  have d: "1024 dvd unat (not (usPortMask (cfgAddrPool conf_sample)) + 1)" by code_simp
  have t: "client 6 \<noteq> ucLocalIPv6Addr (tc_config conf_sample)" "length (ucLocalIPv6Addr (tc_config conf_sample)) = 16"
    "length (IPv6Remote (nat6\<lparr>nat_LowPort := 0\<rparr>)) = 16" "nat_LowPort (nat6\<lparr>nat_LowPort := 0\<rparr>) \<noteq> 1024"
    by (simp_all add: conf_sample_def nat6_def)
  show ?thesis
    using lease_reaches_box [OF sample_reachable sample_env p f a, unfolded sample_start(3), OF sample_pool(1) d t,
      of "replicate 16 1" 5351 9 50 False 5351 "[]" "replicate 66000 0"] by blast
qed

end
