(* ===== verification/DnsProxy.thy ===== *)
theory DnsProxy
  imports Bytes
begin

text \<open>
  The name server proxy of the customer's box (\<open>TI/mess-handle/src/dnsproxy.c\<close>): a query of a host is sent to
  the configured server over IPv6, and its answer, for some types of query, back to the host.  The threads that do
  it (\<open>thrmgr.c\<close>) share nothing but the socket.
\<close>

section \<open>The proxy\<close>

definition BUF_SIZ :: nat where "BUF_SIZ = 4096"
definition DNS_HDR_LEN :: nat where "DNS_HDR_LEN = 12"
definition DNSA :: u16 where "DNSA = 1"
definition DNSAAAA :: u16 where "DNSAAAA = 28"
definition RECORD_EXIST :: u8 where "RECORD_EXIST = 0"

text \<open>\<open>buf\<close> is the whole buffer; the name begins behind the header.\<close>

function countlen_from :: "u8 list \<Rightarrow> nat \<Rightarrow> nat \<Rightarrow> nat \<Rightarrow> nat option" where
  "countlen_from buf n i l =
     (if i < n
      then (case get8 buf (DNS_HDR_LEN + i) of
              None \<Rightarrow> None
            | Some b \<Rightarrow> if b \<noteq> 0 then countlen_from buf n (i + (unat b + 1)) (l + (unat b + 1)) else Some (l + 1))
      else Some (l + 1))"
  by pat_completeness auto
termination by (relation "measure (\<lambda>(buf, n, i, l). n - i)") auto

declare countlen_from.simps [simp del]

definition countlenofquery :: "u8 list \<Rightarrow> nat \<Rightarrow> nat option" where
  "countlenofquery buf n = countlen_from buf n 0 0"

text \<open>\<open>domainname\<close> is an array of 128 bytes.\<close>

definition checkquery :: "u8 list \<Rightarrow> nat \<Rightarrow> (u16 \<times> u8 list \<times> nat) option" where
  "checkquery buf n =
     do { dnlen \<leftarrow> countlenofquery buf n;
          queryType \<leftarrow> get16 buf (DNS_HDR_LEN + dnlen);
          name \<leftarrow> getn buf DNS_HDR_LEN dnlen;
          if dnlen > 128 then None else Some (queryType, name, dnlen) }"

definition checkdns :: "u8 list \<Rightarrow> nat option" where
  "checkdns dnshdr =
     do { flags \<leftarrow> get16 dnshdr 2;
          queries \<leftarrow> get16 dnshdr 4;
          Some (if flags = 0x0100 \<and> queries = 1 then 1 else 0) }"

definition in_buf :: "u8 list \<Rightarrow> u8 list" where
  "in_buf d = d @ replicate (BUF_SIZ - length d) 0"

datatype dns_act = ToServer "u8 list" | ToClient "u8 list"

text \<open>\<open>reply\<close> is what the server answers within two seconds, at most \<open>BUF_SIZ\<close> bytes of it.\<close>

definition dns_ops6 :: "bool \<Rightarrow> bool \<Rightarrow> u8 list option \<Rightarrow> u8 list \<Rightarrow> dns_act list option" where
  "dns_ops6 socket_ok send_ok reply q =
     (if length q > BUF_SIZ \<or> \<not> socket_ok \<or> \<not> send_ok then Some []
      else case reply of
             None \<Rightarrow> Some [ToServer q]
           | Some r \<Rightarrow>
               if r = [] then Some [ToServer q]
               else do {
                 let r = take BUF_SIZ r;
                 ok \<leftarrow> checkdns (in_buf q);
                 if ok = 0 then Some [ToServer q]
                 else do {
                   (queryType, _, _) \<leftarrow> checkquery (in_buf q) (length q);
                   if queryType = DNSA then Some [ToServer q, ToClient r]
                   else if queryType = DNSAAAA
                   then do { Rcode \<leftarrow> get8 (in_buf q) 3;
                             answers \<leftarrow> get16 (in_buf r) 6;
                             Some (if and Rcode 0x0F = RECORD_EXIST \<and> answers > 0 then [ToServer q, ToClient r] else [ToServer q]) }
                   else Some [ToServer q] } })"

text \<open>One datagram of \<open>dns_start6\<close>; what is shorter than a header is ignored.\<close>

definition dns_receive :: "bool \<Rightarrow> bool \<Rightarrow> u8 list option \<Rightarrow> u8 list \<Rightarrow> dns_act list option" where
  "dns_receive socket_ok send_ok reply d =
     (let d = take BUF_SIZ d in if length d < DNS_HDR_LEN then Some [] else dns_ops6 socket_ok send_ok reply d)"

section \<open>Names\<close>

text \<open>A name as the protocol writes it: the labels with their lengths, and an empty one.\<close>

definition label_bytes :: "u8 list \<Rightarrow> u8 list" where
  "label_bytes l = word_of_nat (length l) # l"

definition name_bytes :: "u8 list list \<Rightarrow> u8 list" where
  "name_bytes ls = concat (map label_bytes ls) @ [0]"

definition labels_ok :: "u8 list list \<Rightarrow> bool" where
  "labels_ok ls \<longleftrightarrow> (\<forall>l \<in> set ls. l \<noteq> [] \<and> length l < 256)"

lemma countlen_labels:
  assumes "labels_ok ls" "length h + 1 + length (concat (map label_bytes ls)) \<le> n + DNS_HDR_LEN" "DNS_HDR_LEN \<le> length h"
  shows "countlen_from (h @ name_bytes ls @ t) n (length h - DNS_HDR_LEN) l = Some (l + length (name_bytes ls))"
  using assms
proof (induction ls arbitrary: h l)
  case Nil
  have "get8 (h @ name_bytes [] @ t) (DNS_HDR_LEN + (length h - DNS_HDR_LEN)) = Some 0"
    using Nil(3) by (simp add: name_bytes_def get8_def)
  then show ?case using Nil(2,3) by (subst countlen_from.simps) (simp add: name_bytes_def)
next
  case (Cons x ls)
  have x: "x \<noteq> []" "length x < 256" "labels_ok ls" using Cons.prems(1) by (auto simp: labels_ok_def)
  have u: "unat (word_of_nat (length x) :: u8) = length x" using x(2) by (intro of_nat_inverse [OF refl]) simp
  have b: "name_bytes (x # ls) = label_bytes x @ name_bytes ls" by (simp add: name_bytes_def)
  have g: "get8 (h @ name_bytes (x # ls) @ t) (DNS_HDR_LEN + (length h - DNS_HDR_LEN)) = Some (word_of_nat (length x))"
    using Cons.prems(3) by (simp add: b label_bytes_def get8_def)
  have ne: "(word_of_nat (length x) :: u8) \<noteq> 0" using u x(1) by (metis length_0_conv unat_0)
  have i: "length h - DNS_HDR_LEN < n" using Cons.prems(2,3) x(1) by (auto simp: label_bytes_def)
  have "countlen_from ((h @ label_bytes x) @ name_bytes ls @ t) n (length (h @ label_bytes x) - DNS_HDR_LEN) (l + (length x + 1))
    = Some (l + (length x + 1) + length (name_bytes ls))"
    by (rule Cons.IH) (use x(3) Cons.prems(2,3) in \<open>simp_all add: label_bytes_def\<close>)
  moreover have "length (h @ label_bytes x) - DNS_HDR_LEN = length h - DNS_HDR_LEN + (length x + 1)"
    using Cons.prems(3) by (simp add: label_bytes_def)
  ultimately show ?case
    using i g ne u by (subst countlen_from.simps) (simp add: b label_bytes_def)
qed

lemma countlen_query:
  assumes "labels_ok ls" "length h = 12" "length (name_bytes ls) \<le> n"
  shows "countlenofquery (h @ name_bytes ls @ t) n = Some (length (name_bytes ls))"
  using countlen_labels [of ls h n t 0] assms by (simp add: countlenofquery_def DNS_HDR_LEN_def name_bytes_def)

lemma query_fields:
  assumes "labels_ok ls" "length h = 12" "length (h @ name_bytes ls @ be16 qt @ t) \<le> BUF_SIZ"
  defines "q \<equiv> h @ name_bytes ls @ be16 qt @ t"
  shows "countlenofquery (in_buf q) (length q) = Some (length (name_bytes ls))"
    and "get16 (in_buf q) (DNS_HDR_LEN + length (name_bytes ls)) = Some qt"
    and "getn (in_buf q) DNS_HDR_LEN (length (name_bytes ls)) = Some (name_bytes ls)"
proof -
  have q: "in_buf q = h @ name_bytes ls @ (be16 qt @ t @ replicate (BUF_SIZ - length q) 0)"
    by (simp add: in_buf_def q_def)
  show "countlenofquery (in_buf q) (length q) = Some (length (name_bytes ls))"
    unfolding q by (rule countlen_query [OF assms(1,2)]) (simp add: q_def)
  show "get16 (in_buf q) (DNS_HDR_LEN + length (name_bytes ls)) = Some qt"
    using assms(2) by (simp add: q DNS_HDR_LEN_def)
  show "getn (in_buf q) DNS_HDR_LEN (length (name_bytes ls)) = Some (name_bytes ls)"
    using assms(2) by (simp add: q DNS_HDR_LEN_def)
qed

lemma checkquery_query:
  assumes "labels_ok ls" "length h = 12" "length (h @ name_bytes ls @ be16 qt @ t) \<le> BUF_SIZ"
  defines "q \<equiv> h @ name_bytes ls @ be16 qt @ t"
  shows "checkquery (in_buf q) (length q) =
    (if length (name_bytes ls) > 128 then None else Some (qt, name_bytes ls, length (name_bytes ls)))"
  using query_fields [OF assms(1-3)] by (simp add: checkquery_def q_def)

text \<open>The first field reads behind the header are the header's own.\<close>

lemma header_fields:
  assumes "length h = 12" "k + 2 \<le> 12"
  shows "get16 (h @ x) k = get16 h k"
  using assms by (auto simp: get16_def nth_append)

lemma rcode_of_flags:
  assumes "length h = 12" "get16 h 2 = Some 0x0100"
  shows "get8 (h @ x) 3 = Some 0"
proof -
  have w: "word_cat (h ! 2) (h ! 3) = (0x0100 :: u16)" using assms by (simp add: get16_def)
  have "h ! 3 = ucast (word_cat (h ! 2) (h ! 3) :: u16)"
    by (rule bit_word_eqI) (auto simp: bit_word_cat_iff bit_ucast_iff)
  then have "h ! 3 = 0" unfolding w by simp
  then show ?thesis using assms(1) by (simp add: get8_def nth_append)
qed

lemma in_buf_field: "k + 2 \<le> BUF_SIZ \<Longrightarrow> \<exists>v. get16 (in_buf r) k = Some v"
  by (auto simp: in_buf_def get16_def)

section \<open>Properties\<close>

text \<open>C21: The answer to a query of one question with its name as the protocol writes it, of at most 128 bytes, is
  sent on to the host when the question is for an address of version 4; when it is for one of version 6, only if the
  answer has a record in its answer section, so that the host is never told that there is none; and for no other
  type of question.  The test of the response code has no part in it: it reads the query.\<close>

theorem dns_answer_relayed:
  assumes "labels_ok ls" "length (name_bytes ls) \<le> 128"
    and "length h = 12" "get16 h 2 = Some 0x0100" "get16 h 4 = Some 1"
    and "length (h @ name_bytes ls @ be16 qt @ t) \<le> BUF_SIZ" "r \<noteq> []"
  shows "dns_receive True True (Some r) (h @ name_bytes ls @ be16 qt @ t) =
    Some (ToServer (h @ name_bytes ls @ be16 qt @ t)
          # (if qt = DNSA \<or> qt = DNSAAAA \<and> get16 (in_buf (take BUF_SIZ r)) 6 \<noteq> Some 0 then [ToClient (take BUF_SIZ r)] else []))"
proof -
  let ?q = "h @ name_bytes ls @ be16 qt @ t"
  obtain v where v: "get16 (in_buf (take BUF_SIZ r)) 6 = Some v"
    using in_buf_field [of 6] by (auto simp: BUF_SIZ_def)
  have f: "get16 (in_buf ?q) 2 = Some 0x0100" "get16 (in_buf ?q) 4 = Some 1" "get8 (in_buf ?q) 3 = Some 0"
    using header_fields [OF assms(3)] rcode_of_flags [OF assms(3,4)] assms(4,5) by (simp_all add: in_buf_def)
  show ?thesis
    using checkquery_query [OF assms(1,3,6)] assms(2,3,6,7) f v
    by (auto simp: dns_receive_def dns_ops6_def checkdns_def DNS_HDR_LEN_def RECORD_EXIST_def word_gt_0 Let_def DNSA_def DNSAAAA_def)
qed

definition example_header :: "u8 list" where
  "example_header = [0x12, 0x34, 0x01, 0x00, 0, 1, 0, 0, 0, 0, 0, 0]"

theorem dns_answer_relayed_witness:
  "dns_receive True True (Some [1, 2]) (example_header @ name_bytes [[119], [99, 110]] @ be16 1 @ be16 1) =
   Some [ToServer (example_header @ name_bytes [[119], [99, 110]] @ be16 1 @ be16 1), ToClient [1, 2]]"
  using dns_answer_relayed [of "[[119], [99, 110]]" example_header 1 "be16 1" "[1, 2]"]
  by (simp add: labels_ok_def name_bytes_def label_bytes_def example_header_def get16_def BUF_SIZ_def DNSA_def word_cat_eq push_bit_eq_mult)

text \<open>A query whose name is longer than 128 bytes writes past the array \<open>domainname\<close> of the thread that
  serves it, as soon as the server answers: any host of the network can send one.\<close>

theorem long_name_overruns:
  assumes "labels_ok ls" "128 < length (name_bytes ls)"
    and "length h = 12" "get16 h 2 = Some 0x0100" "get16 h 4 = Some 1"
    and "length (h @ name_bytes ls @ be16 qt @ t) \<le> BUF_SIZ" "r \<noteq> []"
  shows "dns_receive True True (Some r) (h @ name_bytes ls @ be16 qt @ t) = None"
proof -
  have "get16 (in_buf (h @ name_bytes ls @ be16 qt @ t)) 2 = Some 0x0100"
    "get16 (in_buf (h @ name_bytes ls @ be16 qt @ t)) 4 = Some 1"
    using header_fields [OF assms(3)] assms(4,5) by (simp_all add: in_buf_def)
  then show ?thesis
    using checkquery_query [OF assms(1,3,6)] assms(2,3,6,7)
    by (simp add: dns_receive_def dns_ops6_def checkdns_def DNS_HDR_LEN_def Let_def)
qed

theorem long_name_overruns_witness:
  "dns_receive True True (Some [0]) (example_header @ name_bytes [replicate 60 97, replicate 60 98, replicate 60 99] @ be16 1 @ be16 1) = None"
  using long_name_overruns [of "[replicate 60 97, replicate 60 98, replicate 60 99]" example_header 1 "be16 1" "[0]"]
  by (simp add: labels_ok_def name_bytes_def label_bytes_def example_header_def get16_def BUF_SIZ_def word_cat_eq push_bit_eq_mult)

end
