(* ===== verification/Flaws.thy ===== *)
theory Flaws
  imports Service
begin

text \<open>
  Where the carrier's side does not keep its promise: each flaw as a theorem on the worlds of the
  theory \<open>World\<close>, with the conditions under which it shows.
\<close>

text \<open>C14: a flaw.  When the kernel module refuses the tunnel, for want of memory, its answer is 1 while the daemon
  takes only 2 for a failure: the client is told that it has the range, no tunnel exists, and the
  range stays taken.\<close>

theorem refused_tunnel_promised:
  assumes "reachable c st phead w" "no_faults e" "map_request phead m src l" "l \<noteq> 0" "users (krn w) src = None"
    "kmem e = (\<lambda>_. None)" "AllocAddrPort (AddrPoolList (dmn w)) (conf_range c) = Some (pl, Some (s, en, ip))"
  shows "\<exists>w' rsp. request phead e src m w = Some (w', Some rsp)
    \<and> answer rsp m 0 SUCCESS_LIFETIME s (usPortMask (cfgAddrPool (Config (dmn w)))) \<and> get32 rsp 40 = Some ip
    \<and> users (krn w') = users (krn w) \<and> AddrPoolList (dmn w') = pl"
proof -
  have i: "world_inv (conf_range c) w" by (rule reachable_world_inv [OF assms(1)])
  note A = world_inv_agree [OF i] and F = assms(2) [unfolded no_faults_def]
  have K: "kmalloc_ok (kmem e)" "meanwhile e = Some" using F by simp_all
  obtain d k out ret where u: "updateTunnelTree e (dmn w, krn w) src = Some ((d, k), out, ret)"
    "d = (dmn w)\<lparr>AddrPoolList := pl\<rparr>" "out = Some (ip, s)" "ret = MSG_ERR_SUCCESS" "users k = users (krn w)"
    using update_new [OF A K assms(5,7)] F assms(6) by (auto simp: refuses_def)
  obtain rsp where r: "request phead e src m w = Some (set_krn k (w\<lparr>dmn := d\<rparr>), Some rsp)"
    "answer rsp m 0 SUCCESS_LIFETIME s (usPortMask (cfgAddrPool (Config d)))" "get32 rsp 40 = Some ip"
    by (rule request_handled [OF assms(3) _ _ _ u(3), of e w d k ret])
      (use u assms(4) in \<open>simp_all add: msg_err_defs\<close>)
  then show ?thesis using u(2,5) by (auto simp: set_krn_def)
qed

definition env_full :: nlenv where
  "env_full = (env 0)\<lparr>kmem := \<lambda>_. None\<rparr>"

theorem refused_tunnel_promised_witness:
  "\<exists>w' rsp. request phead_sample env_full (client 6) (req (client 6) 60) w0 = Some (w', Some rsp)
    \<and> get8 rsp 3 = Some 0 \<and> get32 rsp 40 = Some 0xC0A80100 \<and> users (krn w') = Map.empty"
proof -
  have m: "map_request phead_sample (req (client 6) 60) (client 6) 60" by (simp add: sample_req)
  have e: "no_faults env_full" "kmem env_full = (\<lambda>_. None)" by (simp_all add: env_full_def env_def no_faults_def kmalloc_ok_def)
  have f: "(60 :: u32) \<noteq> 0" "users (krn w0) (client 6) = None" by (simp_all add: sample_boot)
  show ?thesis
    using refused_tunnel_promised [OF sample_reachable e(1) m f e(2), unfolded sample_start(3), OF sample_pool(1)]
    by (auto simp: answer_def sample_boot)
qed

text \<open>A flaw.  A request shorter than the answer, with a wrong version for instance, is answered in its own
  buffer: the handler writes behind the end of the allocated packet.\<close>

theorem short_request_overflows:
  assumes "ucR m = Some 0" "checkPcpRequest phead m src = Some res" "res \<noteq> 0" "length m < 52"
  shows "request phead e src m w = None"
  using request_outside [OF assms(1-3)] assms(4) by simp

theorem short_request_overflows_witness: "request phead_sample (env 10) (client 7) [2, 100] w1 = None"
proof -
  have c: "ucR [2, 100] = Some 0" "checkPcpRequest phead_sample [2, 100] (client 7) = Some ERR_UNSUPP_VERSION"
    "ERR_UNSUPP_VERSION \<noteq> 0"
    by code_simp+
  show ?thesis using short_request_overflows [OF c] by simp
qed

section \<open>Two requests at once\<close>

text \<open>
  The daemon handles requests on two threads, and nothing keeps the two exchanges of
  \<open>updateTunnelTree\<close> together.
\<close>

lemma alloc_shadows:
  assumes "tun_inv k" "users k (user_addr c) = Some t" "ports k (public_ip c, start_port c) = None"
    "tsize (tree4 k) \<noteq> MAXBPSIZE" "kmalloc k = Some q" "tun_mem k q = None"
  shows "\<exists>k'. handle_alloc kmalloc k c = Some (k', 0) \<and> \<not> tun_inv k'
    \<and> reply_to k k' = Some (ConstructIntMsg (user_addr c) NETLINK_RESULT 0 (tun_lefttime c))"
  by (rule handle_alloc_second [where kmalloc = kmalloc and s = k and m = c and p = q and u = t, OF assms(1,5,6,2,3,4)]) (auto simp: reply_to_def)

text \<open>A grant is in no table, and not granted again while it is not given back.\<close>

lemma grant_not_in_table:
  assumes "agree r d k P" "AllocAddrPort (AddrPoolList d) r = Some (pl, Some (s, en, ip))"
  shows "(s, ip) \<notin> table_keys k" "grant_at r (s, ip) = (s, en, ip)"
    "pool_inv r pl" "grant_blocks r (s, en, ip) \<subseteq> used_blocks r pl"
proof -
  let ?G = "grant_at r ` (table_keys k \<union> set P)"
  have H: "pool_holds r (AddrPoolList d) ?G" using assms(1) by (simp add: agree_def)
  have fr: "(s, en, ip) \<notin> ?G" "pool_holds r pl (insert (s, en, ip) ?G)" using pool.alloc_fresh [OF H] assms(2) by simp_all
  then have v: "grant_valid r (s, en, ip)" "pool_inv r pl" "grant_blocks r (s, en, ip) \<subseteq> used_blocks r pl"
    unfolding holding_def by blast+
  then show "grant_at r (s, ip) = (s, en, ip)" "pool_inv r pl" "grant_blocks r (s, en, ip) \<subseteq> used_blocks r pl"
    by (auto simp: grant_valid_def grant_of_def grant_at_def)
  then show "(s, ip) \<notin> table_keys k" using fr(1) by (metis UnI1 grant_at_image)
qed

lemma grants_differ:
  assumes "pool_inv r pl" "AllocAddrPort pl r = Some (pl', Some g')" "grant_blocks r g \<subseteq> used_blocks r pl"
  shows "g \<noteq> g'"
proof -
  note a = pool.alloc_some [OF assms(1,2)]
  then obtain x where "x \<in> grant_blocks r g'" using pool.blocks_nonempty by blast
  then show ?thesis using a assms(3) by blast
qed

lemma racing_update:
  assumes "agree r d k P" "users k a = None" "no_faults e0" "no_faults e1"
    "e = e0\<lparr>meanwhile := \<lambda>s. map_option fst (updateTunnelTree e1 s a)\<rparr>"
    and al: "AllocAddrPort (AddrPoolList d) r = Some (pl1, Some (s1, en1, ip1))"
      "AllocAddrPort pl1 r = Some (pl2, Some (s2, en2, ip2))"
    and room: "card (dom (users k)) + 1 < nat MAXBPSIZE"
    and mem: "\<forall>k'. dom (tun_mem k') = dom (tun_mem k) \<longrightarrow> kmem e1 k' = Some p"
      "\<forall>k'. dom (tun_mem k') = insert p (dom (tun_mem k)) \<longrightarrow> kmem e0 k' = Some q"
  shows "\<exists>k'. updateTunnelTree e (d, k) a = Some ((d\<lparr>AddrPoolList := pl2\<rparr>, k'), Some (ip1, s1), MSG_ERR_SUCCESS)
    \<and> \<not> tun_inv k'"
proof -
  note F = assms(3) [unfolded no_faults_def]
  have s: "snd_ok e 0" using F assms(5) by simp
  obtain k1 where k1: "SendMessage e 0 k (ConstructNetlinkMsg NETLINK_DETECT_MSG a SUCCESS_LIFETIME) = Some (k1, 0)"
    "agree r d k1 P" "tun_inv k1"
    "users k1 = users k \<and> tun_mem k1 = tun_mem k \<and> reply_to k k1 = Some (ConstructIntMsg a NETLINK_ALLOC_ADDR 0 SUCCESS_LIFETIME)"
    by (rule detect_stage [OF assms(1) s]) (use assms(2) in blast)
  let ?d = "d\<lparr>AddrPoolList := pl1\<rparr>" and ?d2 = "d\<lparr>AddrPoolList := pl2\<rparr>"
  define c where "c = \<lparr>user_addr = a, public_ip = ip1, start_port = s1, end_port = en1, tun_lefttime = SUCCESS_LIFETIME\<rparr>"
  have "uiRange d = r" using assms(1) by (simp add: agree_def)
  then have h: "HandlMessage_daemon d (ConstructIntMsg a NETLINK_ALLOC_ADDR 0 SUCCESS_LIFETIME) (TunContent (junk_tun e))
      = Some (?d, TunContent c, MSG_ERR_SUCCESS)"
    using al(1) by (cases "junk_tun e") (simp add: HandlMessage_daemon_def ConstructIntMsg_def c_def)
  have fr: "(s1, ip1) \<notin> table_keys k1" "pool_inv r pl1" "grant_blocks r (s1, en1, ip1) \<subseteq> used_blocks r pl1"
    by (rule grant_not_in_table [OF k1(2) al(1)])+
  have ag: "agree r ?d k1 P"
    using k1(2) pool.alloc_fresh [OF _ al(1)] agree_pool [OF k1(2), of pl1] unfolding agree_def [of r d] by blast
  have al2: "AllocAddrPort (AddrPoolList ?d) r = Some (pl2, Some (s2, en2, ip2))" using al(2) by simp
  obtain k2 where k2: "updateTunnelTree e1 (?d, k1) a = Some ((?d\<lparr>AddrPoolList := pl2\<rparr>, k2), Some (ip2, s2), MSG_ERR_SUCCESS)"
    "kept r a k1 P ?d (?d\<lparr>AddrPoolList := pl2\<rparr>, k2)" "users k2 = (users k1)(a \<mapsto> leased a (s2, en2, ip2))"
    by (rule update_grants [OF ag assms(4) _ _ _ al2, of a]) (use k1(4) assms(2) room mem(1) in simp_all)
  have inv2: "tun_inv k2" using k2(2) by (simp add: kept_def agree_def)
  have d2: "dom (tun_mem k2) = insert p (dom (tun_mem k))"
    using update_mem [OF assms(4) _ k2(1) refl] mem(1) k1(4) by simp
  then have q: "kmem e k2 = Some q" using mem(2) assms(5) by simp
  have "tun_mem k2 q = None" using q F assms(5) by (simp add: kmalloc_ok_def)
  moreover have "users k2 (user_addr c) = Some (leased a (s2, en2, ip2))" using k2(3) by (simp add: c_def)
  moreover have "ports k2 (public_ip c, start_port c) = None"
  proof -
    have g: "grant_at r (s1, ip1) = (s1, en1, ip1)" by (rule grant_not_in_table(2) [OF k1(2) al(1)])
    have g2: "grant_at r (s2, ip2) = (s2, en2, ip2)" by (rule grant_not_in_table(2) [OF ag al2])
    have "(s1, en1, ip1) \<noteq> (s2, en2, ip2)" by (rule grants_differ [OF fr(2) al(2) fr(3)])
    then have "(s1, ip1) \<noteq> (s2, ip2)" using g g2 by auto
    moreover have "table_keys k2 = insert (s2, ip2) (table_keys k1)"
      using k1(4) assms(2) k2(3) by (simp add: table_keys_def ran_map_upd leased_def)
    ultimately have "(s1, ip1) \<notin> table_keys k2" using fr(1) by simp
    then show ?thesis using table_keys_ports [OF inv2, of s1 ip1] by (simp add: c_def)
  qed
  moreover have "tsize (tree4 k2) \<noteq> MAXBPSIZE"
    using table_size [OF inv2] k2(3) k1(4) assms(2) room
    by (cases "finite (dom (users k))") (simp_all add: MAXBPSIZE_def card_insert_if)
  ultimately obtain k3 where k3: "handle_alloc (kmem e) k2 c = Some (k3, 0)" "\<not> tun_inv k3"
    "reply_to k2 k3 = Some (ConstructIntMsg a NETLINK_RESULT 0 SUCCESS_LIFETIME)"
    using alloc_shadows [OF inv2, of c _ "kmem e" q] q by (auto simp: c_def)
  have "send_tunnel e (?d2, k2) c = Some ((?d2, k3), Some (ip1, s1), MSG_ERR_SUCCESS)"
    using F assms(5) k3(1,3)
    by (simp add: send_tunnel_def SendMessage_def nl_data_ready_def HandlMessage_def ConstructAllocMsg_def c_def
        HandlMessage_daemon_def ConstructIntMsg_def)
  then have "updateTunnelTree e (d, k) a = Some ((?d2, k3), Some (ip1, s1), MSG_ERR_SUCCESS)"
    using F assms(5) k1(1,4) h k2(1) by (simp add: updateTunnelTree_def)
  then show ?thesis using k3(2) by blast
qed

text \<open>C15: a flaw.  Two copies of a new client's request, handled on the two threads at once, the second between the
  two exchanges of the first, both succeed: two ranges are granted, and the kernel module's table is no longer well formed.\<close>

theorem duplicate_request_breaks_table:
  assumes "reachable c st phead w" "map_request phead m src l" "l \<noteq> 0" "users (krn w) src = None"
    "no_faults e0" "no_faults e1" "e = e0\<lparr>meanwhile := \<lambda>s. map_option fst (updateTunnelTree e1 s src)\<rparr>"
    "AllocAddrPort (AddrPoolList (dmn w)) (conf_range c) = Some (pl1, Some (s1, en1, ip1))"
    "AllocAddrPort pl1 (conf_range c) = Some (pl2, Some (s2, en2, ip2))"
    "card (dom (users (krn w))) + 1 < nat MAXBPSIZE" "allocates_at e1 w p"
    "\<forall>k. dom (tun_mem k) = insert p (dom (tun_mem (krn w))) \<longrightarrow> kmem e0 k = Some q"
  shows "\<exists>w' rsp. request phead e src m w = Some (w', Some rsp)
    \<and> answer rsp m 0 SUCCESS_LIFETIME s1 (usPortMask (cfgAddrPool (Config (dmn w))))
    \<and> AddrPoolList (dmn w') = pl2 \<and> \<not> tun_inv (krn w')"
proof -
  have A: "agree (conf_range c) (dmn w) (krn w) (pending w)"
    by (rule world_inv_agree [OF reachable_world_inv [OF assms(1)]])
  obtain k where u: "updateTunnelTree e (dmn w, krn w) src
      = Some (((dmn w)\<lparr>AddrPoolList := pl2\<rparr>, k), Some (ip1, s1), MSG_ERR_SUCCESS)" "\<not> tun_inv k"
    using racing_update [OF A assms(4-10) assms(11) [unfolded allocates_at_def] assms(12)] by blast
  obtain rsp where r: "request phead e src m w = Some (set_krn k (w\<lparr>dmn := (dmn w)\<lparr>AddrPoolList := pl2\<rparr>\<rparr>), Some rsp)"
    "answer rsp m 0 SUCCESS_LIFETIME s1 (usPortMask (cfgAddrPool (Config (dmn w))))"
    using request_handled [OF assms(2), of e w "(dmn w)\<lparr>AddrPoolList := pl2\<rparr>" k "Some (ip1, s1)" MSG_ERR_SUCCESS ip1 s1]
      u(1) assms(3) by (auto simp: msg_err_defs)
  then show ?thesis using u(2) by (auto simp: set_krn_def)
qed

theorem duplicate_request_breaks_table_witness:
  "\<exists>w' rsp. request phead_sample ((env 10)\<lparr>meanwhile := \<lambda>s. map_option fst (updateTunnelTree (env 9) s (client 6))\<rparr>)
      (client 6) (req (client 6) 60) w0 = Some (w', Some rsp) \<and> \<not> tun_inv (krn w')"
proof -
  have m: "map_request phead_sample (req (client 6) 60) (client 6) 60" by (simp add: sample_req)
  have f: "(60 :: u32) \<noteq> 0" "users (krn w0) (client 6) = None" "card (dom (users (krn w0))) + 1 < nat MAXBPSIZE"
    by (simp_all add: sample_boot MAXBPSIZE_def)
  have a: "allocates_at (env 9) w0 9" by (rule sample_allocates) (simp add: sample_boot_mem)
  have "tun_mem k 10 = None" if "dom (tun_mem k) = insert 9 (dom (tun_mem (krn w0)))" for k
  proof -
    have "10 \<notin> dom (tun_mem k)" unfolding that by (simp add: sample_boot_mem)
    then show ?thesis by (simp add: domIff)
  qed
  then have q: "\<forall>k. dom (tun_mem k) = insert 9 (dom (tun_mem (krn w0))) \<longrightarrow> kmem (env 10) k = Some 10"
    by (auto simp: env_def)
  show ?thesis
    using duplicate_request_breaks_table [OF sample_reachable m f(1,2) sample_env sample_env refl,
        unfolded sample_start(3), OF sample_pool f(3) a q] by blast
qed

section \<open>Renewals, deletions, failures\<close>

text \<open>A flaw.  Every renewal leaves one more tunnel context in the kernel's memory that no table holds: the module
  allocates it for the tunnel the daemon announces again, finds the port taken, and does not free it.\<close>

theorem renewal_leaks_memory:
  assumes "reachable c st phead w" "no_faults e" "map_request phead m src l" "l \<noteq> 0" "users (krn w) src = Some t"
    "allocates_at e w p"
  shows "\<exists>w' rsp. request phead e src m w = Some (w', Some rsp) \<and> dom (users (krn w')) = dom (users (krn w))
    \<and> p \<notin> dom (tun_mem (krn w)) \<and> dom (tun_mem (krn w')) = insert p (dom (tun_mem (krn w)))"
proof -
  have i: "world_inv (conf_range c) w" by (rule reachable_world_inv [OF assms(1)])
  obtain w' rsp where r: "request phead e src m w = Some (w', Some rsp)"
    "users (krn w') = (users (krn w))(src \<mapsto> t\<lparr>ulLiveTime := SUCCESS_LIFETIME\<rparr>)"
    by (rule request_old [OF i assms(2-5)])
  have "dom (tun_mem (krn w')) = insert p (dom (tun_mem (krn w)))"
    using request_mem [OF i assms(2-4,6) r(1)] assms(5) by simp
  moreover have "p \<notin> dom (tun_mem (krn w))"
    using assms(2,6) by (auto simp: no_faults_def kmalloc_ok_def allocates_at_def)
  moreover have "dom (users (krn w')) = dom (users (krn w))" using r(2) assms(5) by (auto simp: dom_def)
  ultimately show ?thesis using r(1) by blast
qed

theorem renewal_leaks_memory_witness:
  "\<exists>w' rsp. request phead_sample (env 10) (client 6) (req (client 6) 600) w1 = Some (w', Some rsp)
    \<and> dom (users (krn w')) = {client 6} \<and> dom (tun_mem (krn w')) = {9, 10}"
proof -
  have m: "map_request phead_sample (req (client 6) 600) (client 6) 600" by (simp add: sample_req)
  have u: "users (krn w1) (client 6) = Some (leased (client 6) (1024, 3071, 0xC0A80100))" "dom (users (krn w1)) = {client 6}"
    by (simp_all add: sample_w1(2))
  have "10 \<notin> dom (tun_mem (krn w1))" unfolding sample_w1(4) by simp
  then have a: "allocates_at (env 10) w1 10" by (intro sample_allocates) (simp add: domIff)
  have e: "insert 10 (dom (tun_mem (krn w1))) = {9, 10}" unfolding sample_w1(4) by auto
  show ?thesis
    using renewal_leaks_memory [OF sample_w1(1) sample_env m _ u(1) a] unfolding u(2) e by fastforce
qed

text \<open>A flaw.  The deletion of a tunnel that does not exist is answered as a success, with an address and a port
  that are whatever was on the daemon's stack.\<close>

theorem deletion_answers_stack:
  assumes "reachable c st phead w" "no_faults e" "map_request phead m src 0" "users (krn w) src = None"
  shows "\<exists>w' rsp. request phead e src m w = Some (w', Some rsp) \<and> get8 rsp 3 = Some 0
    \<and> get32 rsp 40 = Some (extip (junk_addr e)) \<and> get16 rsp 48 = Some (startport (junk_addr e))"
proof (rule request_delete [OF reachable_world_inv [OF assms(1)] assms(2,3)])
  fix w' rsp
  assume "request phead e src m w = Some (w', Some rsp)"
    "case users (krn w) src of
       None \<Rightarrow> dmn w' = dmn w \<and> get32 rsp 40 = Some (extip (junk_addr e))
         \<and> answer rsp m 0 SUCCESS_LIFETIME (startport (junk_addr e)) (usPortMask (cfgAddrPool (Config (dmn w))))
     | Some t \<Rightarrow> get32 rsp 40 = Some (uiExtIP t)
         \<and> answer rsp m 0 SUCCESS_LIFETIME (usStartPort t) (usPortMask (cfgAddrPool (Config (dmn w))))
         \<and> used_blocks (conf_range c) (AddrPoolList (dmn w')) = used_blocks (conf_range c) (AddrPoolList (dmn w))
             - grant_blocks (conf_range c) (grant_at (conf_range c) (usStartPort t, uiExtIP t))"
  then show ?thesis using assms(4) by (auto simp: answer_def)
qed

theorem deletion_answers_stack_witness:
  "\<exists>w' rsp. request phead_sample (env 10) (client 7) (req (client 7) 0) w1 = Some (w', Some rsp)
    \<and> get32 rsp 40 = Some 0xDEADBEEF"
proof -
  have m: "map_request phead_sample (req (client 7) 0) (client 7) 0" by (simp add: sample_req)
  have u: "users (krn w1) (client 7) = None" by (simp add: sample_w1(2))
  have j: "extip (junk_addr (env 10)) = 0xDEADBEEF" by (simp add: env_def)
  show ?thesis using deletion_answers_stack [OF sample_w1(1) sample_env m u, of 10] unfolding j by blast
qed

end
