(* ===== verification/Manage.thy ===== *)
theory Manage
  imports TcUserInfo Flaws
begin

text \<open>
  The operator's commands to the daemon (\<open>user_module/src/ipcmsg.c\<close>, \<open>tcuserinfo.c\<close>), which arrive as UDP
  datagrams: how many subscribers there are, a page of their list, and tunnels to be added by hand.
  The structures have the layout of a 32-bit machine: in a request to add tunnels the length of the table is at 8 and the table at
  12, with 28 bytes for each entry.
\<close>

section \<open>The list of the daemon\<close>

definition MAX_USER_POOL_NUM :: nat where "MAX_USER_POOL_NUM = 500000"

record user_pool =
  total_user :: int
  recved :: nat
  UserPool :: "nat \<Rightarrow> TUNNEL_CTX"

definition AddUserInfoToPool :: "TUNNEL_CTX list \<Rightarrow> user_pool \<Rightarrow> user_pool option" where
  "AddUserInfoToPool us p =
     (if recved p + length us > MAX_USER_POOL_NUM then None
      else Some (p\<lparr>UserPool := \<lambda>i. if recved p \<le> i \<and> i < recved p + length us then us ! (i - recved p) else UserPool p i,
                   recved := recved p + length us\<rparr>))"

text \<open>A message that says it has more than it has would be read behind its end.\<close>

definition ProcessNLMessage :: "netlink_msg \<Rightarrow> user_pool \<Rightarrow> (user_pool \<times> int) option" where
  "ProcessNLMessage msg p =
     (case msg of
        UserInfoMsg NETLINK_TC_USER_INFO len us \<Rightarrow>
          (let nuser = nat (c_div len sizeof_USERINFO)
           in if nuser \<le> length us then map_option (\<lambda>p. (p, 1)) (AddUserInfoToPool (take nuser us) p) else None)
      | _ \<Rightarrow> (if msgdef msg = Some NETLINK_TC_USER_INFO then None
             else Some (p, if msgdef msg = Some NETLINK_RESULT then 0 else -1)))"

text \<open>\<open>rcv\<close> is what the socket receives; the receive fails behind its end.\<close>

definition GetTcUserNumber :: "netlink_msg list \<Rightarrow> user_pool \<Rightarrow> (user_pool \<times> int \<times> netlink_msg list) option" where
  "GetTcUserNumber rcv p =
     (case rcv of
        [] \<Rightarrow> Some (p, -1, [])
      | TotalMsg _ n # rest \<Rightarrow> Some (p\<lparr>total_user := n\<rparr>, n, rest)
      | _ \<Rightarrow> None)"

fun GetTcUserData :: "netlink_msg list \<Rightarrow> user_pool \<Rightarrow> (user_pool \<times> int) option" where
  "GetTcUserData [] p = Some (p, -1)"
| "GetTcUserData (msg # rcv) p =
     do { (p, ret) \<leftarrow> ProcessNLMessage msg p;
          if ret \<noteq> 0 then GetTcUserData rcv p else Some (p, 0) }"

text \<open>The messages the kernel module has sent to the socket of the listing since \<open>k\<close>.\<close>

definition user_msgs :: "kstate \<Rightarrow> kstate \<Rightarrow> netlink_msg list" where
  "user_msgs k k' = map snd (filter (\<lambda>(ch, m). ch = NL_USER_INFO) (drop (length (nl_sent k)) (nl_sent k')))"

text \<open>
  The request for the number, after which the list is loaded: both queries are handled by the kernel module at once.
\<close>

definition user_num_req ::
  "user_pool \<Rightarrow> uistate \<times> kstate \<Rightarrow> (user_pool \<times> (uistate \<times> kstate) \<times> u32) option" where
  "user_num_req p us =
     do { us1 \<leftarrow> tc_user_data_ready us 20 (HdrMsg NETLINK_TC_USER_TOTAL);
          (p, nuser, rcv) \<leftarrow> GetTcUserNumber (user_msgs (snd us) (snd us1)) p;
          us2 \<leftarrow> tc_user_data_ready us1 20 (HdrMsg NETLINK_TC_USER_INFO);
          (p, _) \<leftarrow> GetTcUserData (rcv @ user_msgs (snd us1) (snd us2)) p;
          Some (p\<lparr>recved := 0\<rparr>, us2, word_of_int nuser) }"

text \<open>
  A page of the list: the entries of the answer, \<open>None\<close> inside when no answer is sent.  The comparison of
  \<open>offset\<close> is one of unsigned values; a read behind the array is \<open>None\<close>, and so is a negative count, which
  \<open>total_user\<close> never gives.
\<close>

definition SendUserMapRsp :: "user_pool \<Rightarrow> u32 \<Rightarrow> TUNNEL_CTX list option option" where
  "SendUserMapRsp p off =
     (if off > word_of_int (total_user p) then Some None
      else let nleft = sint (word_of_int (total_user p) - off);
               nuser = (if nleft \<ge> 50 then 50 else nleft)
           in if nuser < 0 then None
              else if unat off + nat nuser > MAX_USER_POOL_NUM then None
              else Some (Some (map (\<lambda>i. UserPool p (unat off + i)) [0..<nat nuser])))"

section \<open>Tunnels added by hand\<close>

record USER_MAP_INFO =
  map_sport :: u16
  map_eport :: u16
  map_extip :: u32
  useraddr :: "u8 list"
  map_lefttime :: u32

text \<open>The fields after \<open>ntohs\<close> and \<open>ntohl\<close>.\<close>

definition user_map_at :: "u8 list \<Rightarrow> nat \<Rightarrow> USER_MAP_INFO option" where
  "user_map_at m i =
     do { sp \<leftarrow> get16 m i; ep \<leftarrow> get16 m (i + 2); ip \<leftarrow> get32 m (i + 4); a \<leftarrow> getn m (i + 8) 16; lt \<leftarrow> get32 m (i + 24);
          Some \<lparr>map_sport = sp, map_eport = ep, map_extip = ip, useraddr = a, map_lefttime = lt\<rparr> }"

definition GetNetLinkMsgType :: "netlink_msg \<Rightarrow> int" where
  "GetNetLinkMsgType msg =
     (if msgdef msg = Some NETLINK_ALLOC_ADDR then 0 else if msgdef msg = Some NETLINK_UPDATE_MSG then 1 else -1)"

definition AddStaticTunnel ::
  "nlenv \<Rightarrow> dstate \<times> kstate \<Rightarrow> USER_MAP_INFO \<Rightarrow> ((dstate \<times> kstate) \<times> int) option" where
  "AddStaticTunnel e s pmap =
     (let (d, k) = s in
      if \<not> sock_ok e then Some (s, 2)
      else do {
        (k1, ret) \<leftarrow> SendMessage e 0 k (ConstructNetlinkMsg NETLINK_DETECT_MSG (useraddr pmap) SUCCESS_LIFETIME);
        if ret \<noteq> 0 then Some ((d, k1), 2)
        else if \<not> rcv_ok e 0 then Some ((d, k1), 2)
        else do {
          recv_buf \<leftarrow> reply_to k k1;
          (d, _, ret) \<leftarrow> HandlMessage_daemon d recv_buf NullContent;
          if ret \<noteq> MSG_ERR_SUCCESS then Some ((d, k1), 2)
          else if GetNetLinkMsgType recv_buf = 1 then Some ((d, k1), 1)
          else if GetNetLinkMsgType recv_buf < 0 then Some ((d, k1), 2)
          else do {
            (d, k1) \<leftarrow> meanwhile e (d, k1);
            (k2, ret) \<leftarrow> SendMessage e 1 k1 (ConstructAllocMsg (useraddr pmap) (map_extip pmap) (map_sport pmap) (map_eport pmap)
                           (map_lefttime pmap));
            if ret < 0 then Some ((d, k2), 2)
            else if \<not> rcv_ok e 1 then Some ((d, k2), 2)
            else do {
              recv_buf \<leftarrow> reply_to k1 k2;
              (d, _, ret) \<leftarrow> HandlMessage_daemon d recv_buf NullContent;
              Some ((d, k2), if ret \<noteq> MSG_ERR_SUCCESS then 2 else 0) } } } })"

text \<open>The loop over the table, from \<open>i\<close>: the entries that were not added, with their results.  Each entry has a socket of its own.\<close>

function add_loop ::
  "(nat \<Rightarrow> nlenv) \<Rightarrow> u8 list \<Rightarrow> nat \<Rightarrow> nat \<Rightarrow> dstate \<times> kstate \<Rightarrow> ((dstate \<times> kstate) \<times> (USER_MAP_INFO \<times> int) list) option" where
  "add_loop e m len i s =
     (if i < len
      then do { pmap \<leftarrow> user_map_at m (12 + i);
                (s, ret) \<leftarrow> AddStaticTunnel (e i) s pmap;
                (s, rs) \<leftarrow> add_loop e m len (i + 28) s;
                Some (s, if ret \<noteq> 0 then (pmap, ret) # rs else rs) }
      else Some (s, []))"
  by pat_completeness auto
termination by (relation "measure (\<lambda>(e, m, len, i, s). len - i)") auto

declare add_loop.simps [simp del]

text \<open>The whole request; the answer lists what was not added.\<close>

definition user_add_req ::
  "(nat \<Rightarrow> nlenv) \<Rightarrow> u8 list \<Rightarrow> dstate \<times> kstate \<Rightarrow> ((dstate \<times> kstate) \<times> (USER_MAP_INFO \<times> int) list) option" where
  "user_add_req e m s = do { len \<leftarrow> get32 m 8; add_loop e m (unat len) 0 s }"

section \<open>Loading the list\<close>

lemma load_batches:
  assumes "recved p + length (concat bs) \<le> MAX_USER_POOL_NUM"
  shows "\<exists>p'. GetTcUserData (map (\<lambda>b. snd (user_batch b)) bs @ [HdrMsg NETLINK_RESULT]) p = Some (p', 0)
    \<and> recved p' = recved p + length (concat bs) \<and> total_user p' = total_user p
    \<and> (\<forall>i < recved p. UserPool p' i = UserPool p i)
    \<and> (\<forall>i < length (concat bs). UserPool p' (recved p + i) = concat bs ! i)"
  using assms
proof (induction bs arbitrary: p)
  case Nil
  then show ?case by (simp add: ProcessNLMessage_def)
next
  case (Cons b bs)
  let ?p = "p\<lparr>UserPool := \<lambda>i. if recved p \<le> i \<and> i < recved p + length b then b ! (i - recved p) else UserPool p i,
              recved := recved p + length b\<rparr>"
  have s: "ProcessNLMessage (snd (user_batch b)) p = Some (?p, 1)"
    using Cons.prems by (simp add: ProcessNLMessage_def user_batch_def sizeof_USERINFO_def c_div_nonneg AddUserInfoToPool_def Let_def)
  obtain p' where p': "GetTcUserData (map (\<lambda>b. snd (user_batch b)) bs @ [HdrMsg NETLINK_RESULT]) ?p = Some (p', 0)"
    "recved p' = recved ?p + length (concat bs)" "total_user p' = total_user ?p"
    "\<forall>i < recved ?p. UserPool p' i = UserPool ?p i" "\<forall>i < length (concat bs). UserPool p' (recved ?p + i) = concat bs ! i"
    using Cons.IH [of ?p] Cons.prems by auto
  have "UserPool p' (recved p + i) = concat (b # bs) ! i" if "i < length (concat (b # bs))" for i
  proof (cases "i < length b")
    case True
    then show ?thesis using p'(4) by (simp add: nth_append)
  next
    case False
    then show ?thesis using p'(5) [rule_format, of "i - length b"] that by (simp add: nth_append)
  qed
  then show ?case using s p' by (intro exI [of _ p']) auto
qed

lemma load_too_many:
  assumes "recved p \<le> MAX_USER_POOL_NUM" "MAX_USER_POOL_NUM < recved p + length (concat bs)"
  shows "GetTcUserData (map (\<lambda>b. snd (user_batch b)) bs @ rest) p = None"
  using assms
proof (induction bs arbitrary: p)
  case (Cons b bs)
  let ?p = "p\<lparr>UserPool := \<lambda>i. if recved p \<le> i \<and> i < recved p + length b then b ! (i - recved p) else UserPool p i,
              recved := recved p + length b\<rparr>"
  have s: "ProcessNLMessage (snd (user_batch b)) p = (if MAX_USER_POOL_NUM < recved p + length b then None else Some (?p, 1))"
    by (simp add: ProcessNLMessage_def user_batch_def sizeof_USERINFO_def c_div_nonneg AddUserInfoToPool_def Let_def)
  show ?case
  proof (cases "MAX_USER_POOL_NUM < recved p + length b")
    case False
    then have "GetTcUserData (map (\<lambda>b. snd (user_batch b)) bs @ rest) ?p = None" using Cons by simp
    then show ?thesis using s by simp
  qed (use s in simp)
qed simp

lemma num_req_parts:
  assumes "tun_inv s" "idle u"
  obtains us1 us2 where "tc_user_data_ready (u, s) 20 (HdrMsg NETLINK_TC_USER_TOTAL) = Some us1"
    "user_msgs s (snd us1) = [TotalMsg NETLINK_TC_USER_TOTAL (int (length (tun_list s)))]"
    "tc_user_data_ready us1 20 (HdrMsg NETLINK_TC_USER_INFO) = Some us2"
    "user_msgs (snd us1) (snd us2) = map (\<lambda>b. snd (user_batch b)) (batches (tun_list s)) @ [HdrMsg NETLINK_RESULT]"
    "idle (fst us2)" "tun_list (snd us2) = tun_list s" "tun_inv (snd us2)"
proof -
  let ?n = "SizeOfElement (pStroageCtx s)"
  let ?u = "u\<lparr>nelem := ?n\<rparr>" and ?s = "s\<lparr>nl_sent := nl_sent s @ [(NL_USER_INFO, TotalMsg NETLINK_TC_USER_TOTAL ?n)]\<rparr>"
  have 1: "tc_user_data_ready (u, s) 20 (HdrMsg NETLINK_TC_USER_TOTAL) = Some (?u, ?s)"
    by (simp add: tc_user_data_ready_def process_user_info_def Let_def send_defs)
  have n: "?n = int (length (tun_list s))"
    using SizeOfElement_ok [OF assms(1)] length_tun_list [OF assms(1)] by simp
  have S: "tun_inv ?s" "idle ?u" "nelem ?u = SizeOfElement (pStroageCtx ?s)" "tun_list ?s = tun_list s"
    using assms by (simp_all add: idle_def tun_list_def)
  then obtain u2 where u2: "process_user_info (?u, ?s) (HdrMsg NETLINK_TC_USER_INFO) =
      Some (u2, ?s\<lparr>nl_sent := nl_sent ?s @ map user_batch (batches (tun_list s))
        @ [(NL_USER_INFO, HdrMsg NETLINK_RESULT)]\<rparr>)" "idle u2"
    using listing_ok [of ?s ?u] by auto
  have f: "filter (\<lambda>(ch, m). ch = NL_USER_INFO) (map user_batch bs) = map user_batch bs" for bs
    by (simp add: filter_id_conv user_batch_def)
  show ?thesis
  proof (rule that [OF 1])
    show "user_msgs s (snd (?u, ?s)) = [TotalMsg NETLINK_TC_USER_TOTAL (int (length (tun_list s)))]"
      by (simp add: user_msgs_def n)
    show "tc_user_data_ready (?u, ?s) 20 (HdrMsg NETLINK_TC_USER_INFO) =
      Some (u2, ?s\<lparr>nl_sent := nl_sent ?s @ map user_batch (batches (tun_list s)) @ [(NL_USER_INFO, HdrMsg NETLINK_RESULT)]\<rparr>)"
      using u2(1) by (simp add: tc_user_data_ready_def)
  qed (use u2(2) assms(1) in \<open>simp_all add: user_msgs_def f tun_list_def\<close>)
qed

lemma page_of_list:
  assumes "total_user p = int (length ts)" "length ts \<le> MAX_USER_POOL_NUM" "\<forall>i < length ts. UserPool p i = ts ! i"
    "k \<le> length ts"
  shows "SendUserMapRsp p (word_of_nat k) = Some (Some (take 50 (drop k ts)))"
proof -
  have m: "length ts \<le> 500000" using assms(2) by (simp add: MAX_USER_POOL_NUM_def)
  have u: "unat (word_of_nat k :: u32) = k" "unat (word_of_int (total_user p) :: u32) = length ts"
    using m assms(1,4) by (simp_all add: unat_of_nat)
  have le: "\<not> (word_of_nat k :: u32) > word_of_int (total_user p)" using u assms(4) by (simp add: word_less_nat_alt)
  then have d: "unat (word_of_int (total_user p) - word_of_nat k :: u32) = length ts - k"
    using u by (simp add: unat_sub not_less)
  have s: "sint (word_of_int (total_user p) - word_of_nat k :: u32) = int (length ts - k)"
  proof -
    let ?w = "word_of_int (total_user p) - word_of_nat k :: u32"
    have "uint ?w = int (length ts - k)" using d by (metis uint_nat)
    moreover have "uint ?w < 2 ^ 31" using calculation m by simp
    ultimately show ?thesis by (simp add: sint_uint signed_take_bit_int_eq_self)
  qed
  have nat: "nat (int (length ts) - int k) = length ts - k" by (simp add: nat_minus_as_int)
  define n where "n = min 50 (length ts - k)"
  have "SendUserMapRsp p (word_of_nat k) = Some (Some (map (\<lambda>i. UserPool p (k + i)) [0..<n]))"
    using le s u assms(2,4) nat by (auto simp: SendUserMapRsp_def Let_def n_def min_def)
  moreover have "map (\<lambda>i. UserPool p (k + i)) [0..<n] = take 50 (drop k ts)"
    by (rule nth_equalityI) (use assms(3,4) in \<open>auto simp: n_def\<close>)
  ultimately show ?thesis by simp
qed

text \<open>C27: The number the operator is told is the number of tunnels, and the pages asked for afterwards, at any
  offset, are those of the list of all tunnels of the kernel module, 50 at a time; for up to 500000 tunnels, which fit the array.\<close>

theorem pages_list_every_tunnel:
  assumes "tun_inv s" "idle u" "recved p = 0" "length (tun_list s) \<le> MAX_USER_POOL_NUM"
  shows "\<exists>p' us'. user_num_req p (u, s) = Some (p', us', word_of_nat (length (tun_list s)))
    \<and> (\<forall>k \<le> length (tun_list s). SendUserMapRsp p' (word_of_nat k) = Some (Some (take 50 (drop k (tun_list s)))))
    \<and> recved p' = 0 \<and> idle (fst us') \<and> tun_list (snd us') = tun_list s"
proof (rule num_req_parts [OF assms(1,2)], goal_cases)
  case (1 us1 us2)
  let ?p = "p\<lparr>total_user := int (length (tun_list s))\<rparr>"
  obtain p' where p': "GetTcUserData (map (\<lambda>b. snd (user_batch b)) (batches (tun_list s)) @ [HdrMsg NETLINK_RESULT]) ?p = Some (p', 0)"
    "total_user p' = int (length (tun_list s))" "\<forall>i < length (tun_list s). UserPool p' i = tun_list s ! i"
    using load_batches [of ?p "batches (tun_list s)"] assms(3,4) unfolding concat_batches by auto
  have "SendUserMapRsp (p'\<lparr>recved := 0\<rparr>) (word_of_nat k) = Some (Some (take 50 (drop k (tun_list s))))"
    if "k \<le> length (tun_list s)" for k
    by (rule page_of_list [OF _ assms(4) _ that]) (simp_all add: p')
  then show ?case using 1 p'(1) by (auto simp: user_num_req_def GetTcUserNumber_def)
qed

theorem pages_list_every_tunnel_witness:
  "\<exists>p' us'. user_num_req \<lparr>total_user = 0, recved = 0, UserPool = \<lambda>_. tunnel7\<rparr>
      (\<lparr>flag = 0, nelem = 0, fill = 0, msg_user = replicate 50 tunnel7\<rparr>, state7) = Some (p', us', word_of_nat (length (tun_list state7)))
    \<and> SendUserMapRsp p' 0 = Some (Some (take 50 (tun_list state7)))"
proof -
  have "length (tun_list state7) = 1" by (simp add: tun_list_def state7_def Let_def)
  then have l: "length (tun_list state7) \<le> MAX_USER_POOL_NUM" by (simp add: MAX_USER_POOL_NUM_def)
  have i: "idle \<lparr>flag = 0, nelem = 0, fill = 0, msg_user = replicate 50 tunnel7\<rparr>" by (simp add: idle_def)
  have r: "recved \<lparr>total_user = 0, recved = 0, UserPool = \<lambda>_. tunnel7\<rparr> = 0" by simp
  obtain p' us' where "user_num_req \<lparr>total_user = 0, recved = 0, UserPool = \<lambda>_. tunnel7\<rparr>
      (\<lparr>flag = 0, nelem = 0, fill = 0, msg_user = replicate 50 tunnel7\<rparr>, state7) = Some (p', us', word_of_nat (length (tun_list state7)))"
    "\<forall>k \<le> length (tun_list state7). SendUserMapRsp p' (word_of_nat k) = Some (Some (take 50 (drop k (tun_list state7))))"
    using pages_list_every_tunnel [OF state7_inv i r l] by blast
  then show ?thesis by (intro exI [of _ p'] exI [of _ us']) (auto dest: spec [of _ 0])
qed

text \<open>The table of the kernel module holds 600000 tunnels, the array of the daemon 500000: when there are more, the
  request for their number writes behind it.\<close>

lemma long_listing_overruns:
  assumes "tun_inv s" "idle u" "recved p = 0" "MAX_USER_POOL_NUM < length (tun_list s)"
  shows "user_num_req p (u, s) = None"
proof (rule num_req_parts [OF assms(1,2)], goal_cases)
  case (1 us1 us2)
  have "GetTcUserData (map (\<lambda>b. snd (user_batch b)) (batches (tun_list s)) @ [HdrMsg NETLINK_RESULT])
      (p\<lparr>total_user := int (length (tun_list s))\<rparr>) = None"
    by (rule load_too_many) (use assms(3,4) concat_batches in simp_all)
  then show ?case using 1 by (simp add: user_num_req_def GetTcUserNumber_def)
qed

section \<open>A tunnel by hand\<close>

lemma message_types [simp]:
  "GetNetLinkMsgType (ConstructIntMsg a NETLINK_ALLOC_ADDR r l) = 0"
  "GetNetLinkMsgType (ConstructTunMsg a NETLINK_UPDATE_MSG ip s e) = 1"
  by (simp_all add: GetNetLinkMsgType_def ConstructIntMsg_def ConstructTunMsg_def)

text \<open>The tunnel of an entry.\<close>

definition entry_tunnel :: "USER_MAP_INFO \<Rightarrow> TUNNEL_CTX" where
  "entry_tunnel p = \<lparr>usStartPort = map_sport p, usEndPort = map_eport p, uiExtIP = map_extip p, ucCltIPv6 = useraddr p,
                     ulLiveTime = map_lefttime p\<rparr>"

lemma AddStaticTunnel_ok:
  assumes inv: "tun_inv k" and e: "no_faults e" and q: "\<forall>k1. tun_mem k1 = tun_mem k \<longrightarrow> kmem e k1 = q"
  shows "\<exists>k'. AddStaticTunnel e (d, k) p = Some ((d, k'), if users k (useraddr p) = None then 0 else 1)
    \<and> tun_inv k' \<and> GlobalCtx k' = GlobalCtx k
    \<and> users k' = (case users k (useraddr p) of
        Some t \<Rightarrow> (users k)(useraddr p \<mapsto> t\<lparr>ulLiveTime := SUCCESS_LIFETIME\<rparr>)
      | None \<Rightarrow> if q = None \<or> (map_sport p, map_extip p) \<in> table_keys k \<or> card (dom (users k)) = nat MAXBPSIZE then users k
                else (users k)(useraddr p \<mapsto> entry_tunnel p))"
proof -
  note F = e [unfolded no_faults_def]
  have s: "snd_ok e 0" "snd_ok e 1" using F by simp_all
  let ?m = "\<lparr>ucResult = 0, cli_addr = useraddr p, lefttime = SUCCESS_LIFETIME\<rparr>"
  obtain k1 where k1: "SendMessage e 0 k (ConstructNetlinkMsg NETLINK_DETECT_MSG (useraddr p) SUCCESS_LIFETIME) = Some (k1, 0)"
    "replies k (spec_detect (users k) ?m) k1"
    by (rule send_detect [OF inv s(1) refl])
  note u1 = replies_users [OF k1(2)]
  show ?thesis
  proof (cases "users k (useraddr p)")
    case (Some t)
    have "reply_to k k1 = Some (ConstructTunMsg (useraddr p) NETLINK_UPDATE_MSG (uiExtIP t) (usStartPort t) (usEndPort t))"
      using k1(2) Some by (simp add: spec_detect_def)
    moreover have "HandlMessage_daemon d (ConstructTunMsg (useraddr p) NETLINK_UPDATE_MSG (uiExtIP t) (usStartPort t) (usEndPort t)) NullContent
        = Some (d, NullContent, MSG_ERR_SUCCESS)"
      by (simp add: HandlMessage_daemon_def ConstructTunMsg_def)
    ultimately show ?thesis
      using k1(1) u1 Some F by (simp add: AddStaticTunnel_def spec_detect_def)
  next
    case None
    have r1: "reply_to k k1 = Some (ConstructIntMsg (useraddr p) NETLINK_ALLOC_ADDR 0 SUCCESS_LIFETIME)"
      using k1(2) None by (simp add: spec_detect_def)
    have h1: "HandlMessage_daemon d (ConstructIntMsg (useraddr p) NETLINK_ALLOC_ADDR 0 SUCCESS_LIFETIME) NullContent
        = Some (d, NullContent, MSG_ERR_SUCCESS)"
      by (simp add: HandlMessage_daemon_def ConstructIntMsg_def)
    have U: "users k1 = users k" "tun_inv k1" "GlobalCtx k1 = GlobalCtx k" using u1 None by (simp_all add: spec_detect_def)
    have mem: "tun_mem k1 = tun_mem k" by (rule send_detect_none [OF inv None k1(1)])
    let ?c = "\<lparr>user_addr = useraddr p, public_ip = map_extip p, start_port = map_sport p, end_port = map_eport p,
               tun_lefttime = map_lefttime p\<rparr>"
    let ?r = "refuses (kmem e) k1 ?c"
    have n: "users k1 (user_addr ?c) = None \<or> ?r" using None U(1) by simp
    obtain k2 where k2: "SendMessage e 1 k1 (ConstructAllocMsg (useraddr p) (map_extip p) (map_sport p) (map_eport p) (map_lefttime p)) = Some (k2, 0)"
      "replies k1 (spec_alloc ?r (users k1) ?c) k2"
      by (rule send_alloc [OF U(2) _ s(2) n]) (use F in simp_all)
    note u2 = replies_users [OF k2(2)]
    have r2: "reply_to k1 k2 = Some (ConstructIntMsg (useraddr p) NETLINK_RESULT (if ?r then 1 else 0) (map_lefttime p))"
      using k2(2) by (simp add: spec_alloc_def)
    have h2: "HandlMessage_daemon d (ConstructIntMsg (useraddr p) NETLINK_RESULT (if ?r then 1 else 0) (map_lefttime p)) NullContent
        = Some (d, NullContent, MSG_ERR_SUCCESS)"
      by (simp add: HandlMessage_daemon_def ConstructIntMsg_def)
    have "?r \<longleftrightarrow> q = None \<or> (map_sport p, map_extip p) \<in> table_keys k \<or> card (dom (users k)) = nat MAXBPSIZE"
    proof -
      have "(map_sport p, map_extip p) \<in> table_keys k \<longleftrightarrow> ports k1 (map_extip p, map_sport p) \<noteq> None"
        using table_keys_ports [OF U(2)] U(1) by (simp add: table_keys_def)
      moreover have "tsize (tree4 k1) = MAXBPSIZE \<longleftrightarrow> card (dom (users k)) = nat MAXBPSIZE"
        using table_size [OF U(2)] U(1) by (auto simp: MAXBPSIZE_def)
      ultimately show ?thesis using q mem by (auto simp: refuses_def)
    qed
    moreover have "new_tunnel ?c = entry_tunnel p" by (simp add: new_tunnel_def entry_tunnel_def)
    ultimately show ?thesis
      using k1(1) r1 h1 k2(1) r2 h2 u2 U None F by (simp add: AddStaticTunnel_def spec_alloc_def)
  qed
qed

text \<open>A tunnel added by hand gets into the table of the kernel module for a client that has none; the answer for a client that
  has one is \<open>exists\<close>, and its life time is renewed.  But the answer is \<open>success\<close> too when the kernel module refuses
  the tunnel because the port is taken, the table full or no memory is left.\<close>

theorem static_tunnel_added:
  assumes "tun_inv k" "no_faults e" "\<forall>k1. tun_mem k1 = tun_mem k \<longrightarrow> kmem e k1 = q"
  shows "\<exists>k'. AddStaticTunnel e (d, k) p = Some ((d, k'), if users k (useraddr p) = None then 0 else 1) \<and> tun_inv k'
    \<and> users k' = (case users k (useraddr p) of
        Some t \<Rightarrow> (users k)(useraddr p \<mapsto> t\<lparr>ulLiveTime := SUCCESS_LIFETIME\<rparr>)
      | None \<Rightarrow> if q = None \<or> (map_sport p, map_extip p) \<in> table_keys k \<or> card (dom (users k)) = nat MAXBPSIZE then users k
                else (users k)(useraddr p \<mapsto> entry_tunnel p))"
  using AddStaticTunnel_ok [OF assms, of d p] by blast

text \<open>An entry for the client \<open>n\<close> with the first range of the sample pool.\<close>

definition entry_sample :: "u8 \<Rightarrow> USER_MAP_INFO" where
  "entry_sample n = \<lparr>map_sport = 1024, map_eport = 3071, map_extip = 0xC0A80100, useraddr = client n, map_lefttime = 900\<rparr>"

theorem static_tunnel_added_witness:
  "\<exists>k'. AddStaticTunnel (env 9) (dmn w0, krn w0) (entry_sample 7) = Some ((dmn w0, k'), 0)
    \<and> users k' = [client 7 \<mapsto> entry_tunnel (entry_sample 7)]"
proof -
  have i: "tun_inv (krn w0)" using reachable_world_inv [OF sample_reachable] by (simp add: world_inv_def tc_inv_def)
  have a: "allocates_at (env 9) w0 9" by (rule sample_allocates) (simp add: sample_boot_mem)
  then have q: "\<forall>k1. tun_mem k1 = tun_mem (krn w0) \<longrightarrow> kmem (env 9) k1 = Some 9" by (simp add: allocates_at_def)
  show ?thesis
    using static_tunnel_added [OF i sample_env q, of "dmn w0" "entry_sample 7"]
    by (auto simp: sample_boot table_keys_def MAXBPSIZE_def entry_sample_def)
qed

section \<open>The pool is not told\<close>

lemma update_refused:
  assumes inv: "tun_inv k" and e: "no_faults e" and new: "users k a = None"
    and al: "AllocAddrPort (AddrPoolList d) (uiRange d) = Some (pl, Some (s, en, ip))" and taken: "(s, ip) \<in> table_keys k"
  shows "\<exists>k'. updateTunnelTree e (d, k) a = Some ((d\<lparr>AddrPoolList := pl\<rparr>, k'), Some (ip, s), MSG_ERR_SUCCESS)
    \<and> users k' = users k"
proof -
  note F = e [unfolded no_faults_def]
  have snd: "snd_ok e 0" "snd_ok e 1" using F by simp_all
  let ?m = "\<lparr>ucResult = 0, cli_addr = a, lefttime = SUCCESS_LIFETIME\<rparr>" and ?d = "d\<lparr>AddrPoolList := pl\<rparr>"
  let ?c = "(junk_tun e)\<lparr>start_port := s, end_port := en, public_ip := ip, tun_lefttime := SUCCESS_LIFETIME, user_addr := a\<rparr>"
  obtain k1 where k1: "SendMessage e 0 k (ConstructNetlinkMsg NETLINK_DETECT_MSG a SUCCESS_LIFETIME) = Some (k1, 0)"
    "replies k (spec_detect (users k) ?m) k1"
    by (rule send_detect [OF inv snd(1) refl])
  have r1: "reply_to k k1 = Some (ConstructIntMsg a NETLINK_ALLOC_ADDR 0 SUCCESS_LIFETIME)"
    using k1(2) new by (simp add: spec_detect_def)
  have U: "users k1 = users k" "tun_inv k1" using replies_users [OF k1(2)] new by (simp_all add: spec_detect_def)
  have h1: "HandlMessage_daemon d (ConstructIntMsg a NETLINK_ALLOC_ADDR 0 SUCCESS_LIFETIME) (TunContent (junk_tun e))
      = Some (?d, TunContent ?c, MSG_ERR_SUCCESS)"
    using al by (simp add: HandlMessage_daemon_def ConstructIntMsg_def)
  have rf: "refuses (kmem e) k1 ?c"
    using taken table_keys_ports [OF U(2)] U(1) by (simp add: refuses_def table_keys_def)
  obtain k2 where k2: "SendMessage e 1 k1 (ConstructAllocMsg (user_addr ?c) (public_ip ?c) (start_port ?c) (end_port ?c) (tun_lefttime ?c)) = Some (k2, 0)"
    "replies k1 (spec_alloc (refuses (kmem e) k1 ?c) (users k1) ?c) k2"
    by (rule send_alloc [OF U(2) _ snd(2) disjI2 [OF rf]]) (use F in simp_all)
  have r2: "reply_to k1 k2 = Some (ConstructIntMsg a NETLINK_RESULT 1 SUCCESS_LIFETIME)"
    using k2(2) rf by (simp add: spec_alloc_def)
  have u2: "users k2 = users k" using replies_users [OF k2(2)] U(1) rf by (simp add: spec_alloc_def)
  have h2: "HandlMessage_daemon ?d (ConstructIntMsg a NETLINK_RESULT 1 SUCCESS_LIFETIME) NullContent = Some (?d, NullContent, MSG_ERR_SUCCESS)"
    by (simp add: HandlMessage_daemon_def ConstructIntMsg_def)
  show ?thesis
    using k1(1) r1 h1 k2(1) r2 h2 u2 F by (simp add: updateTunnelTree_def send_tunnel_def)
qed

text \<open>A command as a step of the carrier's side.\<close>

definition add_static :: "nlenv \<Rightarrow> USER_MAP_INFO \<Rightarrow> world \<Rightarrow> (world \<times> int) option" where
  "add_static e p w = do { ((d, k), ret) \<leftarrow> AddStaticTunnel e (dmn w, krn w) p; Some (set_krn k (w\<lparr>dmn := d\<rparr>), ret) }"

text \<open>C16: A tunnel added by hand is not taken out of the pool of addresses: its range, when it is the next one of the pool, is
  promised to the next new client too, for whom there is no tunnel then, while the packets to the range
  go on to the other.\<close>

theorem static_range_promised_again:
  assumes "reachable c st phead w" "no_faults e0" "no_faults e1" "allocates_at e0 w q"
    "users (krn w) (useraddr p) = None" "card (dom (users (krn w))) < nat MAXBPSIZE"
    "AllocAddrPort (AddrPoolList (dmn w)) (conf_range c) = Some (pl, Some (map_sport p, en, map_extip p))"
    "map_request phead m src l" "l \<noteq> 0" "users (krn w) src = None" "src \<noteq> useraddr p"
  shows "\<exists>w1 w2 rsp. add_static e0 p w = Some (w1, 0) \<and> request phead e1 src m w1 = Some (w2, Some rsp)
    \<and> answer rsp m 0 SUCCESS_LIFETIME (map_sport p) (usPortMask (cfgAddrPool (Config (dmn w)))) \<and> get32 rsp 40 = Some (map_extip p)
    \<and> users (krn w2) src = None \<and> users (krn w2) (useraddr p) = Some (entry_tunnel p)"
proof -
  have A: "agree (conf_range c) (dmn w) (krn w) (pending w)"
    by (rule world_inv_agree [OF reachable_world_inv [OF assms(1)]])
  then have A': "tun_inv (krn w)" "uiRange (dmn w) = conf_range c" by (simp_all add: agree_def)
  have q: "\<forall>k1. tun_mem k1 = tun_mem (krn w) \<longrightarrow> kmem e0 k1 = Some q" using assms(4) by (simp add: allocates_at_def)
  have nt: "(map_sport p, map_extip p) \<notin> table_keys (krn w)" by (rule grant_not_in_table(1) [OF A assms(7)])
  obtain k where k: "AddStaticTunnel e0 (dmn w, krn w) p = Some ((dmn w, k), 0)" "tun_inv k"
    "users k = (users (krn w))(useraddr p \<mapsto> entry_tunnel p)"
    using AddStaticTunnel_ok [OF A'(1) assms(2) q, of "dmn w" p] assms(5,6) nt by auto
  let ?w1 = "set_krn k w"
  have w1: "add_static e0 p w = Some (?w1, 0)" "dmn ?w1 = dmn w" "krn ?w1 = k"
    using k(1) by (simp_all add: add_static_def set_krn_def)
  have "entry_tunnel p \<in> ran (users k)" unfolding k(3) by (auto simp: ran_def)
  then have tk: "(map_sport p, map_extip p) \<in> table_keys k" by (force simp: table_keys_def entry_tunnel_def)
  have src: "users k src = None" using k(3) assms(10,11) by simp
  have al: "AllocAddrPort (AddrPoolList (dmn w)) (uiRange (dmn w)) = Some (pl, Some (map_sport p, en, map_extip p))"
    using assms(7) A'(2) by simp
  obtain k' where k': "updateTunnelTree e1 (dmn w, k) src
      = Some (((dmn w)\<lparr>AddrPoolList := pl\<rparr>, k'), Some (map_extip p, map_sport p), MSG_ERR_SUCCESS)" "users k' = users k"
    using update_refused [OF k(2) assms(3) src al tk] by blast
  obtain rsp where r: "request phead e1 src m ?w1 = Some (set_krn k' (?w1\<lparr>dmn := (dmn w)\<lparr>AddrPoolList := pl\<rparr>\<rparr>), Some rsp)"
    "answer rsp m 0 SUCCESS_LIFETIME (map_sport p) (usPortMask (cfgAddrPool (Config (dmn w))))" "get32 rsp 40 = Some (map_extip p)"
    using request_handled [OF assms(8), of e1 ?w1 "(dmn w)\<lparr>AddrPoolList := pl\<rparr>" k' "Some (map_extip p, map_sport p)"
        MSG_ERR_SUCCESS "map_extip p" "map_sport p"] k'(1) assms(9) w1 by (auto simp: msg_err_defs)
  have "users k' src = None" "users k' (useraddr p) = Some (entry_tunnel p)" using k'(2) k(3) assms(10,11) by simp_all
  then show ?thesis using w1(1) r by (auto simp: set_krn_def)
qed

theorem static_range_promised_again_witness:
  "\<exists>w1 w2 rsp. add_static (env 9) (entry_sample 7) w0 = Some (w1, 0)
    \<and> request phead_sample (env 10) (client 6) (req (client 6) 60) w1 = Some (w2, Some rsp)
    \<and> get32 rsp 40 = Some 0xC0A80100 \<and> users (krn w2) (client 6) = None
    \<and> users (krn w2) (client 7) = Some (entry_tunnel (entry_sample 7))"
proof -
  have m: "map_request phead_sample (req (client 6) 60) (client 6) 60" by (simp add: sample_req)
  have a: "allocates_at (env 9) w0 9" by (rule sample_allocates) (simp add: sample_boot_mem)
  have f: "users (krn w0) (useraddr (entry_sample 7)) = None" "card (dom (users (krn w0))) < nat MAXBPSIZE"
    by (simp_all add: sample_boot MAXBPSIZE_def)
  have p: "map_sport (entry_sample 7) = 1024" "map_extip (entry_sample 7) = 0xC0A80100" "useraddr (entry_sample 7) = client 7"
    by (simp_all add: entry_sample_def)
  have c: "(60 :: u32) \<noteq> 0" "users (krn w0) (client 6) = None" "client 6 \<noteq> useraddr (entry_sample 7)"
    by (simp_all add: sample_boot p)
  show ?thesis
    using static_range_promised_again [OF sample_reachable sample_env sample_env a f, unfolded p sample_start(3),
      OF sample_pool(1) m c [unfolded p]] by blast
qed

section \<open>A table that is not there\<close>

text \<open>The length of the table is taken from the request: a datagram that ends before its first entry is read behind its end.\<close>

theorem short_table_read_behind:
  assumes "get32 m 8 = Some len" "len \<noteq> 0" "length m < 40"
  shows "user_add_req e m s = None"
proof -
  have "0 < unat len" using assms(2) by (simp add: unat_gt_0)
  moreover have "user_map_at m 12 = None"
    using assms(3) by (auto simp: user_map_at_def get16_def get32_def getn_def split: Option.bind_splits)
  ultimately show ?thesis using assms(1) by (simp add: user_add_req_def add_loop.simps [of e m "unat len" 0])
qed

theorem short_table_read_behind_witness:
  "user_add_req (\<lambda>_. env 9) ([5, 0, 0, 0, 0, 0, 0, 1, 0, 0, 0, 28] @ replicate 12 0) (dmn w0, krn w0) = None"
  using short_table_read_behind [of "[5, 0, 0, 0, 0, 0, 0, 1, 0, 0, 0, 28] @ replicate 12 0" 28 "\<lambda>_. env 9" "(dmn w0, krn w0)"]
  by (simp add: get32_def nth_append word_cat_eq)

end
