(* ===== verification/Spec2Isabelle.thy ===== *)
theory Spec2Isabelle
  imports CpeFlaws Lease DnsProxy Manage
begin

text \<open>
  Lightweight 4over6: IPv4 for customers behind an IPv6 access network, with one IPv4 address shared by
  several of them, each of whom has a range of its ports.  The repository holds both ends.

  \<^item> The carrier's side, \<open>TC\<close>.  A kernel module (\<open>TC/kernel_module\<close>) keeps the table of tunnels, takes
    the packets of the customers out of their IPv6 headers, puts packets for them in, and ages the tunnels.
    A user daemon (\<open>TC/user_module\<close>) answers the customers' PCP requests, gives out the port ranges
    and tells the kernel module by netlink messages.
  \<^item> The customer's side, \<open>TI\<close>.  The kernel module of the customer's box (\<open>TI/openwrt_cpe\<close>) translates the
    addresses and ports of the hosts behind it to the leased address and ports, and sends and receives in the
    tunnel.  A user process (\<open>TI/mess-handle\<close>) asks for the lease and hands it to the module.

  \<^bold>\<open>Conventions.\<close>  A definition has the name of the C function, with a prefix or suffix where two files use the
  same name.  Machine integers are words of their width (\<open>u8\<close>, \<open>u16\<close>, \<open>u32\<close>), \<open>int\<close>s where the C code uses
  signed values that cannot overflow.  Buffers are lists of bytes, read and written at an offset.  The value
  \<open>None\<close> of an operation is a run that does not end well: an access outside a buffer, a division by zero, a
  use of released memory, a loop that does not end; so that a theorem with \<open>= Some\<close> excludes these.
  Two kinds of reads are left out because nothing uses what is read: of a field of a freed node
  of \<open>dbkeyhash.c\<close> (see \<open>DbKeyHash\<close>), and what is only printed (\<open>netlink.c\<close> of the box prints 16 bytes behind a message).
  Error codes are results.  Memory allocation, random numbers, the clock, routes, the kernel's header
  checksum and what reaches a socket are parameters; locks, logging and printing are left out.
  The processor is little-endian.

  \<^bold>\<open>The carrier's kernel module.\<close>
  \<open>BPlus\<close> is \<open>bplus.c\<close>, \<open>BPlus_Inv\<close> its invariant, \<open>StoreSpec\<close> the contract of a
  bounded sorted map (locale \<open>ordered_store\<close>), which the tree is proved to keep.
  \<open>KernelData\<close> has the records of the headers; \<open>Storage\<close> is \<open>storage.c\<close>, two trees over one memory of
  tunnels, with the invariant \<open>tun_inv\<close> and the views \<open>users\<close> (by client) and \<open>ports\<close> (by external address
  and start port); its locale \<open>tunnel_callback\<close> is what a traversal needs of its callback.
  \<open>Tunnel\<close> is the tunnel table and its timer (\<open>packet.c\<close>), \<open>KernelNetlink\<close> the messages (\<open>netlink.c\<close>,
  \<open>nlmessage.c\<close>), with the abstract specification of each request and the refinement to it,
  \<open>TcUserInfo\<close> the listing and the counters.  \<open>Bytes\<close>, \<open>Frag\<close>, \<open>Defrag\<close>, \<open>Reassembly\<close>, \<open>Mss\<close>,
  \<open>Packet\<close> and \<open>Path\<close> are the packet path: byte fields, fragmentation, the fragment hash table
  (\<open>hash.c\<close>) and reassembly (\<open>defrag6.c\<close>), MSS clamping, the hook with both directions, and what it
  promises.  \<open>System\<close> is the module as a transition system.

  \<^bold>\<open>The daemon and the carrier's side as a whole.\<close>
  \<open>AddrPool\<close> is \<open>portmap.c\<close> and \<open>addrpoolentity.c\<close>, with the contract \<open>range_allocator\<close>; \<open>Daemon\<close> the
  messages, the PCP server and its options; \<open>World\<close> daemon, kernel module, clients and timers as one transition
  system whose invariant ties the tables of both programs; \<open>Service\<close> the promises to the clients; \<open>Flaws\<close>
  where they are broken; \<open>Delivery\<close> the way from a granted lease to delivered packets; \<open>Manage\<close> the commands
  of the operator (\<open>ipcmsg.c\<close>, \<open>tcuserinfo.c\<close>): the list of the subscribers and tunnels added by hand, which the
  worlds of \<open>World\<close> do not contain because they break the agreement of pool and table.

  \<^bold>\<open>The customer's box.\<close>
  \<open>Checksum\<close> is \<open>helper.c\<close>, \<open>CpePorts\<close> the port maps (\<open>tool.c\<close>, contract \<open>port_allocator\<close>, interpreted for
  TCP and UDP) and the lease message (\<open>netlink.c\<close>), \<open>DbKeyHash\<close> the table with two keys per object
  (\<open>dbkeyhash.c\<close>, with the contract \<open>swept_objects\<close> of what it holds), \<open>CpeSession\<close> sessions, tracking and
  ageing (\<open>packet.c\<close>, \<open>timerproc.c\<close>), \<open>CpeNat\<close> their invariant \<open>nat_inv\<close>.  \<open>CpeUp\<close> is the way up
  (\<open>pktup.c\<close>, \<open>pktgen.c\<close>, the filters and the hook), \<open>CpeDown\<close> the way down (\<open>pktdown.c\<close>, \<open>fragment.c\<close>).
  \<open>Rewrite\<close>, \<open>UpTranslate\<close> and \<open>DownTranslate\<close> show what the rewritten packets are, \<open>Upstream\<close>, \<open>UpHook\<close>,
  \<open>DownHook\<close> and \<open>CpeSteps\<close> that every packet keeps the invariant.  \<open>CpeService\<close> is the box from its
  start, driven by a list of events (packets, timers, netlink messages), and what it promises, \<open>CpeTraffic\<close> the theorems about one packet and its reply,
  \<open>CpeFlaws\<close> where the box fails.  \<open>EndToEnd\<close> puts box and concentrator together.

  \<^bold>\<open>The box's user process and the lease.\<close>
  \<open>PcpClient\<close> is the client of the lease (\<open>pcpportsetentity.c\<close>, the threads of \<open>entry.c\<close>, \<open>commit.c\<close>): the
  request, the waiting between retransmissions, the checks of the answer, the renewal and the message to the
  kernel module.  What its socket and the clock do is a list of events, one for each turn of the loop, so that the
  loop is structural in it; \<open>None\<close> is a list that ends before the loop does.  \<open>Lease\<close> composes all four programs:
  the request of the client is answered by the daemon, the answer is taken by the client, the box's kernel
  module starts with it, and the concentrator serves the lease.  \<open>DnsProxy\<close> is the name server proxy (\<open>dnsproxy.c\<close>).

  \<^bold>\<open>Bounds and loops.\<close>
  Loops over lists and offsets are structural or have a measure.  Loops whose end is not evident from the code
  are \<open>partial_function (option)\<close>: the search for a free port and for a free range, the scan of TCP
  options, the search in the option table, the fragment loops of both hooks; that they end is part of the
  theorems about them.  The tables have the sizes of the sources (\<open>MAXBPSIZE\<close>, \<open>MAX_SHASH_SIZE\<close>, \<open>MAX_ENTRY\<close>).
  Nothing is run with fuel.

  \<^bold>\<open>Where the promises end.\<close>
  The conditions of a theorem that are no test of the code are named in its text, and what happens outside of them is
  proved where the code fails there.  Ranges have 2 to 63 blocks (\<open>last_block_lost\<close> of \<open>AddrPool\<close>).  A second tunnel for a
  client breaks the table (\<open>CreateTunnel_shadowed\<close>).  A refused request that is short or not of whole words
  is answered outside its buffer (\<open>request_outside\<close> of \<open>Service\<close>).  The box keeps its ports apart in orderly runs: a new session finds memory and,
  for TCP, a counter of ports that is not below the ports taken with none free (\<open>tcp_room\<close>; \<open>CpeFlaws\<close> has what
  happens otherwise), and the lease is not replaced under its sessions.

  \<^bold>\<open>Not modelled.\<close>
  Sockets, threads, files and the command line (\<open>config.c\<close>, \<open>addrpool.c\<close>, \<open>configure.c\<close>, \<open>ipcsrv.c\<close>, \<open>netlink_user.c\<close>, \<open>get_tc_addr.c\<close>,
  \<open>log.c\<close>, the thread pool);
  the registration of hooks and sockets; printing of buffers and allocation statistics
  (\<open>help.c\<close> but for its checksum, \<open>memdebug.c\<close>); \<open>dhcp.c\<close>, which copies DHCPv6 packets to a process, \<open>mac.c\<close> of the
  box, which walks the kernel's neighbour table, \<open>pseudo.c\<close>, which nothing calls.  Of the box's tables of
  fragments the code repeats \<open>hash.c\<close> and \<open>defrag6.c\<close>: it is modelled by the same definitions where
  it is the same.  Concurrency inside one module is excluded by its lock; the daemon's requests may
  interleave at the point where it waits for the kernel module (\<open>meanwhile\<close>).
\<close>

section \<open>The kernel module as a whole\<close>

text \<open>In every state the module reaches from its start, by packets, requests, configuration messages, listings and timers in any order, both trees of the tunnel table are well formed and
  agree, the fragment table is well formed, and while the service is on its timer is armed.\<close>

theorem module_invariant:
  assumes "modules_init m buf = Some st" "length buf = 66000" "kmalloc_ok kmalloc" "(tc_step kmalloc)\<^sup>*\<^sup>* st st'"
  shows "tun_inv (kst st') \<and> hash_inv (pshashtable (frg st')) \<and> length (frag4buf (frg st')) = 66000
    \<and> (uiTunState (GlobalCtx (kst st')) \<noteq> 0 \<longrightarrow> StorageTimer (GlobalCtx (kst st')) \<noteq> None)"
  using reachable_inv [OF assms] by (simp add: tc_inv_def)

lemma configured:
  "tc_step sample_kmalloc (the started)
    ((the started)\<lparr>kst := the (async_nl_data_ready (kst (the started)) 16 (ConfigMsg NETLINK_INIT_CONFIG config7))\<rparr>)"
  by (rule tc_step.config [where n = 16 and msg = "ConfigMsg NETLINK_INIT_CONFIG config7"])
    (simp add: started_def modules_init_def InitStorage_def initfragmodule_def ShashCreate_def all_ok_def
      async_nl_data_ready_def HandlAsyncMessage_def handle_init_config_def add_timer_def set_config_def config7_def Let_def)

theorem module_invariant_witness:
  "\<exists>st'. (tc_step sample_kmalloc)\<^sup>*\<^sup>* (the started) st' \<and> st' \<noteq> the started
    \<and> tun_inv (kst st') \<and> hash_inv (pshashtable (frg st'))"
proof -
  let ?st = "(the started)\<lparr>kst := the (async_nl_data_ready (kst (the started)) 16 (ConfigMsg NETLINK_INIT_CONFIG config7))\<rparr>"
  have s: "modules_init all_ok (replicate 66000 0) = Some (the started)" "length (replicate 66000 (0 :: u8)) = 66000"
    using started_Some by (simp_all add: started_def)
  have r: "(tc_step sample_kmalloc)\<^sup>*\<^sup>* (the started) ?st" by (rule r_into_rtranclp, rule configured)
  have "uiVersion (GlobalCtx (kst ?st)) = 2" "uiVersion (GlobalCtx (kst (the started))) = 0"
    by (simp_all add: started_def modules_init_def InitStorage_def initfragmodule_def ShashCreate_def all_ok_def
      async_nl_data_ready_def HandlAsyncMessage_def handle_init_config_def add_timer_def set_config_def config7_def Let_def)
  then have "?st \<noteq> the started" by fastforce
  then show ?thesis using module_invariant [OF s sample_kmalloc_ok r] r by blast
qed

text \<open>Once the module has acknowledged an allocation, a TCP or UDP packet to the allocated address and to a port of the range leaves it in an IPv6 packet to the
  client the allocation was for.\<close>

theorem allocation_takes_effect:
  assumes "tc_inv st" "kmalloc_ok kmalloc" "users (kst st) (user_addr m) = None"
    "HandlMessage kmalloc (kst st) (TunMsg NETLINK_ALLOC_ADDR m) = Some (k, 0)"
    "g = GlobalCtx (kst st)" "uiTunState g \<noteq> 0" "h_proto skb = ETH_P_IP" "\<not> skb_nonlinear skb" "pkt = skb_data skb"
    "get8 pkt 9 = Some 6 \<and> 34 \<le> length pkt \<or> get8 pkt 9 = Some 17"
    "length pkt + 40 \<le> unat (usMtu g)" "get32 pkt 16 = Some (public_ip m)" "get16 pkt 22 = Some port"
    "uiExtBeginIP g \<le> public_ip m" "public_ip m \<le> uiExtEndIP g"
    "getstartport g port = Some (start_port m)" "mem_send e 0"
  shows "\<exists>pkt'. length pkt' = length pkt
    \<and> stream_hook e (st\<lparr>kst := k\<rparr>) skb = Some (sent [fresh_skb (h_dest skb) ETH_P_IPV6
        (ipv6_header (word_of_nat (length pkt)) IPINIP (ucTcIPv6 g) (user_addr m) @ pkt')] (st\<lparr>kst := k\<rparr>), NF_DROP)"
proof -
  have inv: "tun_inv (kst st)" using assms(1) by (simp add: tc_inv_def)
  have h: "handle_alloc kmalloc (kst st) m = Some (k, 0)" using assms(4) by (simp add: HandlMessage_def)
  let ?taken = "kmalloc (kst st) = None \<or> ports (kst st) (public_ip m, start_port m) \<noteq> None
    \<or> tsize (tree4 (kst st)) = MAXBPSIZE"
  obtain s1 where s1: "handle_alloc kmalloc (kst st) m = Some (s1, if ?taken then -1 else 0)"
    "replies (kst st) (spec_alloc ?taken (users (kst st)) m) s1"
    using handle_alloc_ok [OF inv assms(2) disjI1 [OF assms(3)] refl] by blast
  have nt: "\<not> ?taken" using s1(1) h by (auto split: if_splits)
  have sp: "spec_alloc ?taken (users (kst st)) m = ((users (kst st))(user_addr m \<mapsto> new_tunnel m),
      ConstructIntMsg (user_addr m) NETLINK_RESULT 0 (tun_lefttime m))"
    using nt by (simp only: spec_alloc_def if_False)
  have k: "tun_inv k" "users k (user_addr m) = Some (new_tunnel m)" "GlobalCtx k = g"
    using s1 h nt assms(5) unfolding sp by (auto simp: replies_def)
  have p: "ports k (public_ip m, start_port m) = Some (new_tunnel m)"
    using ports_users [OF k(1)] k(2) by (simp add: new_tunnel_def)
  have c: "ucCltIPv6 (new_tunnel m) = user_addr m" by (simp add: new_tunnel_def)
  have K: "tun_inv (kst (st\<lparr>kst := k\<rparr>))" "g = GlobalCtx (kst (st\<lparr>kst := k\<rparr>))"
    "ports (kst (st\<lparr>kst := k\<rparr>)) (public_ip m, start_port m) = Some (new_tunnel m)"
    using k p by simp_all
  show ?thesis
    using downstream_ok [OF K(1,2) assms(6-16) K(3) assms(17)] unfolding c by blast
qed

lemma net7_inv: "tc_inv net7"
  using state7_inv by (auto simp: tc_inv_def net7_def empty_state_def hash_inv_def chain_ok_def global7_def)

definition alloc8 :: NETLINK_MSG_TUNCONFIG where
  "alloc8 = \<lparr>user_addr = replicate 16 8, public_ip = 0x01020304, start_port = 2048, end_port = 3071, tun_lefttime = 60\<rparr>"

definition skb8 :: skbuff where
  "skb8 = fresh_skb (replicate 6 2) ETH_P_IP
     (replicate 9 0 @ [17] @ replicate 6 0 @ [1, 2, 3, 4] @ [0, 0] @ [0x09, 0xC4] @ replicate 4 0)"

theorem allocation_takes_effect_witness:
  "\<exists>k pkt'. HandlMessage sample_kmalloc state7 (TunMsg NETLINK_ALLOC_ADDR alloc8) = Some (k, 0)
    \<and> stream_hook env7 (net7\<lparr>kst := k\<rparr>) skb8 = Some (sent [fresh_skb (h_dest skb8) ETH_P_IPV6
        (ipv6_header 28 IPINIP (replicate 16 1) (replicate 16 8) @ pkt')] (net7\<lparr>kst := k\<rparr>), NF_DROP)"
proof -
  let ?p = "skb_data skb8"
  have n: "kst net7 = state7" by (simp add: net7_def)
  have u: "users (kst net7) (user_addr alloc8) = None" by (simp add: n alloc8_def state7_users)
  have po: "ports state7 (0x01020304, 2048) = None"
    by (simp add: ports_None_iff [OF state7_inv]) (simp add: tunnel7_def)
  obtain k where h: "HandlMessage sample_kmalloc (kst net7) (TunMsg NETLINK_ALLOC_ADDR alloc8) = Some (k, 0)"
    using handle_alloc_ok [OF state7_inv sample_kmalloc_ok disjI1 [OF u [unfolded n]] refl] po
    by (auto simp: n HandlMessage_def alloc8_def sample_kmalloc_def MAXBPSIZE_def)
  have f: "h_proto skb8 = ETH_P_IP" "\<not> skb_nonlinear skb8" "length ?p = 28"
    "get8 ?p 9 = Some 6 \<and> 34 \<le> length ?p \<or> get8 ?p 9 = Some 17"
    "get32 ?p 16 = Some (public_ip alloc8)" "get16 ?p 22 = Some 2500"
    by (simp_all add: skb8_def fresh_skb_def get8_def get16_def get32_def nth_append word_cat_eq alloc8_def)
  have m: "length ?p + 40 \<le> unat (usMtu global7)" "uiExtBeginIP global7 \<le> public_ip alloc8"
    "public_ip alloc8 \<le> uiExtEndIP global7"
    using f(3) by (simp_all add: global7_def alloc8_def)
  have s: "getstartport global7 2500 = Some (start_port alloc8)"
    by (simp add: getstartport_def c_div_def START_PORT_def global7_def alloc8_def)
  have c: "user_addr alloc8 = replicate 16 8" "word_of_nat 28 = (28 :: u16)" by (simp_all add: alloc8_def)
  show ?thesis
    using allocation_takes_effect [OF net7_inv sample_kmalloc_ok u h net7_facts(2,3) f(1,2) refl f(4) m(1) f(5,6) m(2,3)
        s net7_facts(7)] h unfolding n c(1) f(3) net7_facts(6) c(2) by blast
qed

text \<open>Once a client's tunnel has been deleted, whether he had one or not, the module no longer unpacks his packets: a tunnel packet from his address is dropped, and
  nothing is sent on.\<close>

theorem deletion_takes_effect:
  assumes "tc_inv st" "HandlMessage kmalloc (kst st) (InitMsg NETLINK_DELETE_NODE m) = Some (k, r)"
    "g = GlobalCtx (kst st)" "uiTunState g \<noteq> 0" "pkt = skb_data skb" "mem_msg e" "h_proto skb = ETH_P_IPV6"
    "get8 pkt 6 = Some IPINIP" "getn pkt 8 16 = Some (cli_addr m)" "cli_addr m \<noteq> ucTcIPv6 g" "get32 pkt 52 = Some saddr"
  shows "\<exists>st'. stream_hook e (st\<lparr>kst := k\<rparr>) skb = Some (st', NF_DROP) \<and> xmits st' = xmits st \<and> frg st' = frg st"
proof -
  have inv: "tun_inv (kst st)" using assms(1) by (simp add: tc_inv_def)
  have "handle_delete (kst st) m = Some (k, r)" using assms(2) by (simp add: HandlMessage_def)
  then have r: "replies (kst st) (spec_delete (users (kst st)) m) k"
    using handle_delete_ok [OF inv, of m] by auto
  then have k: "tun_inv k" "GlobalCtx k = g" "users k (cli_addr m) = None"
    using assms(3) by (auto simp: replies_def spec_delete_def split: option.splits)
  have K: "tun_inv (kst (st\<lparr>kst := k\<rparr>))" "g = GlobalCtx (kst (st\<lparr>kst := k\<rparr>))" "users (kst (st\<lparr>kst := k\<rparr>)) (cli_addr m) = None"
    using k by simp_all
  show ?thesis
    using stranger_ok [OF K(1,2) assms(4-10) K(3) assms(11)] by (simp split: if_splits)
qed

theorem deletion_takes_effect_witness:
  "\<exists>k st'. HandlMessage sample_kmalloc state7
      (InitMsg NETLINK_DELETE_NODE \<lparr>ucResult = 0, cli_addr = replicate 16 6, lefttime = 0\<rparr>) = Some (k, 0)
    \<and> stream_hook env7 (net7\<lparr>kst := k\<rparr>) (up_skb 6) = Some (st', NF_DROP) \<and> xmits st' = []"
proof -
  let ?m = "\<lparr>ucResult = 0, cli_addr = replicate 16 6, lefttime = 0\<rparr>"
  have n: "kst net7 = state7" by (simp add: net7_def)
  obtain k where h: "HandlMessage sample_kmalloc (kst net7) (InitMsg NETLINK_DELETE_NODE ?m) = Some (k, 0)"
    using handle_delete_ok [OF state7_inv, of ?m] state7_users by (auto simp: n HandlMessage_def)
  have g: "getn (skb_data (up_skb 6)) 8 16 = Some (cli_addr ?m)" "cli_addr ?m \<noteq> ucTcIPv6 global7"
    using up_skb_fields(3) [of 6] by (simp_all add: global7_def)
  show ?thesis
    using deletion_takes_effect [OF net7_inv h net7_facts(2,3) refl net7_facts(8) up_skb_fields(1,2) g
        up_skb_fields(7)] h unfolding n net7_facts(9) by blast
qed

end
